(* ===== verification/Prelude.thy ===== *)
theory Prelude
  imports Main "HOL-Library.Word" "HOL-Library.Monad_Syntax" "HOL-Library.Multiset"
begin

text \<open>
  Shared vocabulary of the development: Rust's \<open>Ordering\<close>, the convention for panics,
  the library calls on \<open>Vec\<close> that the components use, and the generic lemmas on lists and
  on the option monad that their proofs share.

  A computation that may panic has type \<open>'a option\<close>; \<open>None\<close> is the panic. Machine
  integers are words, whose \<open>+\<close> wraps as in the release profile, or naturals with the
  modulus written out. \<open>debug_assert!\<close> is compiled out in that profile and is not modelled.
\<close>

named_theorems panic_simps \<open>rewriting of computations that may panic\<close>

type_synonym u8 = "8 word"
type_synonym u16 = "16 word"
type_synonym u32 = "32 word"
type_synonym u64 = "64 word"

section \<open>Ordering\<close>

datatype ordering = Less | Equal | Greater

text \<open>Derived order: \<open>Less\<close>, \<open>Equal\<close>, \<open>Greater\<close>.\<close>

instantiation ordering :: linorder
begin

definition ordering_rank :: "ordering \<Rightarrow> nat" where
  "ordering_rank c = (case c of Less \<Rightarrow> 0 | Equal \<Rightarrow> 1 | Greater \<Rightarrow> 2)"

definition less_eq_ordering :: "ordering \<Rightarrow> ordering \<Rightarrow> bool" where
  "less_eq_ordering a b \<longleftrightarrow> ordering_rank a \<le> ordering_rank b"

definition less_ordering :: "ordering \<Rightarrow> ordering \<Rightarrow> bool" where
  "less_ordering a b \<longleftrightarrow> ordering_rank a < ordering_rank b"

instance
  by standard
    (auto simp: less_eq_ordering_def less_ordering_def ordering_rank_def split: ordering.splits)

end

lemmas ordering_order_defs = less_eq_ordering_def less_ordering_def ordering_rank_def

definition ord_cmp :: "'a::linorder \<Rightarrow> 'a \<Rightarrow> ordering" where
  "ord_cmp a b = (if a < b then Less else if a = b then Equal else Greater)"

definition then_with :: "ordering \<Rightarrow> ordering \<Rightarrow> ordering" where
  "then_with a b = (case a of Equal \<Rightarrow> b | _ \<Rightarrow> a)"

lemma ord_cmp_simps [simp]:
  "ord_cmp a b = Less \<longleftrightarrow> a < b"
  "ord_cmp a b = Equal \<longleftrightarrow> a = b"
  "ord_cmp a b = Greater \<longleftrightarrow> b < a"
  by (auto simp: ord_cmp_def)

lemma then_with_simps [simp]:
  "then_with Equal b = b"
  "then_with Less b = Less"
  "then_with Greater b = Greater"
  by (simp_all add: then_with_def)

lemma then_with_eq_iff:
  "then_with a b = Equal \<longleftrightarrow> a = Equal \<and> b = Equal"
  "then_with a b = Less \<longleftrightarrow> a = Less \<or> (a = Equal \<and> b = Less)"
  "then_with a b = Greater \<longleftrightarrow> a = Greater \<or> (a = Equal \<and> b = Greater)"
  by (cases a; simp)+

section \<open>Panics\<close>

definition rust_assert :: "bool \<Rightarrow> unit option" where
  "rust_assert b = (if b then Some () else None)"

lemma rust_assert_simps [simp, panic_simps]:
  "rust_assert True = Some ()"
  "rust_assert False = None"
  "rust_assert b = Some u \<longleftrightarrow> b"
  "rust_assert b = None \<longleftrightarrow> \<not> b"
  by (auto simp: rust_assert_def)

text \<open>Indexing \<open>xs[i]\<close>, which panics out of range, and \<open>xs.get(i)\<close>, which does not,
  are the same function here: the caller decides what \<open>None\<close> means.\<close>

definition index_opt :: "'a list \<Rightarrow> nat \<Rightarrow> 'a option" where
  "index_opt xs i = (if i < length xs then Some (xs ! i) else None)"

lemma index_opt_simps [simp]:
  "i < length xs \<Longrightarrow> index_opt xs i = Some (xs ! i)"
  "\<not> i < length xs \<Longrightarrow> index_opt xs i = None"
  by (simp_all add: index_opt_def)

lemma index_opt_None_iff: "index_opt xs i = None \<longleftrightarrow> length xs \<le> i"
  by (auto simp: index_opt_def)

definition first_opt :: "'a list \<Rightarrow> 'a option" where
  "first_opt xs = (case xs of [] \<Rightarrow> None | x # _ \<Rightarrow> Some x)"

definition last_opt :: "'a list \<Rightarrow> 'a option" where
  "last_opt xs = (if xs = [] then None else Some (last xs))"

lemma first_opt_simps [simp]:
  "first_opt [] = None"
  "first_opt (x # xs) = Some x"
  by (simp_all add: first_opt_def)

lemma last_opt_simps [simp]:
  "last_opt [] = None"
  "last_opt (xs @ [x]) = Some x"
  "last_opt (x # xs) = Some (last (x # xs))"
  by (simp_all add: last_opt_def)

lemma last_opt_append:
  "last_opt (xs @ ys) = (case last_opt ys of None \<Rightarrow> last_opt xs | Some y \<Rightarrow> Some y)"
  by (cases ys rule: rev_cases) (auto simp: last_opt_def)

lemma first_opt_append:
  "first_opt (xs @ ys) = (case first_opt xs of None \<Rightarrow> first_opt ys | Some x \<Rightarrow> Some x)"
  by (cases xs) auto

section \<open>Vec\<close>

text \<open>\<open>Vec::resize\<close>: truncate, or pad with copies of the value.\<close>

definition resize :: "'a list \<Rightarrow> nat \<Rightarrow> 'a \<Rightarrow> 'a list" where
  "resize xs n v = take n xs @ replicate (n - length xs) v"

lemma length_resize [simp]: "length (resize xs n v) = n"
  by (simp add: resize_def)

lemma nth_resize:
  "i < n \<Longrightarrow> resize xs n v ! i = (if i < length xs then xs ! i else v)"
  by (auto simp: resize_def nth_append)

lemma resize_append: "length xs \<le> n \<Longrightarrow> resize xs n v = xs @ replicate (n - length xs) v"
  by (simp add: resize_def)

text \<open>\<open>Iterator::rposition\<close>: the index of the last element that satisfies the predicate.\<close>

fun rposition :: "('a \<Rightarrow> bool) \<Rightarrow> 'a list \<Rightarrow> nat option" where
  "rposition P [] = None"
| "rposition P (x # xs) =
     (case rposition P xs of
        Some i \<Rightarrow> Some (Suc i)
      | None \<Rightarrow> if P x then Some 0 else None)"

lemma rposition_None: "rposition P xs = None \<longleftrightarrow> (\<forall>y \<in> set xs. \<not> P y)"
  by (induction xs) (auto split: option.splits)

lemma rposition_Some:
  "rposition P xs = Some i \<Longrightarrow>
     i < length xs \<and> P (xs ! i) \<and> (\<forall>j. i < j \<and> j < length xs \<longrightarrow> \<not> P (xs ! j))"
proof (induction xs arbitrary: i)
  case Nil
  then show ?case by simp
next
  case (Cons x xs)
  show ?case
  proof (cases "rposition P xs")
    case None
    with Cons.prems show ?thesis
      by (auto simp: rposition_None nth_Cons split: if_splits nat.splits)
  next
    case (Some k)
    with Cons show ?thesis
      by (auto simp: nth_Cons split: nat.splits)
  qed
qed

text \<open>\<open>Vec::remove\<close> at an index within range.\<close>

definition remove_at :: "nat \<Rightarrow> 'a list \<Rightarrow> 'a list" where
  "remove_at i xs = take i xs @ drop (Suc i) xs"

lemma mset_remove_at:
  "i < length xs \<Longrightarrow> mset (remove_at i xs) = mset xs - {#xs ! i#}"
proof -
  assume "i < length xs"
  then have "xs = take i xs @ xs ! i # drop (Suc i) xs" by (rule id_take_nth_drop)
  then have "mset xs = mset (take i xs @ xs ! i # drop (Suc i) xs)" by simp
  then show ?thesis by (simp add: remove_at_def)
qed

section \<open>Lists and words\<close>

lemma last_take_nth: "n \<noteq> 0 \<Longrightarrow> n \<le> length xs \<Longrightarrow> last (take n xs) = xs ! (n - 1)"
  by (subst last_conv_nth) auto

lemma word_less_succ: "x \<le> m \<Longrightarrow> m \<noteq> - 1 \<Longrightarrow> x < m + 1" for x m :: "'a::len word"
proof -
  assume "x \<le> m" "m \<noteq> - 1"
  then have "unat (1 + m) = Suc (unat m)"
    by (intro unatSuc) (metis add.commute eq_neg_iff_add_eq_0)
  with \<open>x \<le> m\<close> show ?thesis
    by (simp add: word_less_nat_alt word_le_nat_alt add.commute)
qed

section \<open>Chunks\<close>

text \<open>\<open>chunks\<close> of an iterator: pieces of the given size, the last one possibly shorter.\<close>

function chunks :: "nat \<Rightarrow> 'a list \<Rightarrow> 'a list list" where
  "chunks n xs = (if n = 0 \<or> xs = [] then [] else take n xs # chunks n (drop n xs))"
  by pat_completeness auto
termination
  by (relation "measure (length \<circ> snd)") auto

declare chunks.simps [simp del]

lemma chunks_Nil [simp]: "chunks n [] = []"
  by (simp add: chunks.simps)

lemma chunks_rec: "0 < n \<Longrightarrow> xs \<noteq> [] \<Longrightarrow> chunks n xs = take n xs # chunks n (drop n xs)"
  by (subst chunks.simps) simp

lemma concat_chunks: "0 < n \<Longrightarrow> concat (chunks n xs) = xs"
  by (induction n xs rule: chunks.induct) (subst chunks.simps, simp)

lemma set_chunks:
  "ys \<in> set (chunks n xs) \<Longrightarrow> ys \<noteq> [] \<and> length ys \<le> n \<and> set ys \<subseteq> set xs"
proof (induction n xs rule: chunks.induct)
  case (1 n xs)
  then show ?case
    by (subst (asm) chunks.simps) (auto split: if_splits dest: in_set_takeD in_set_dropD)
qed

lemma length_chunks: "0 < n \<Longrightarrow> length (chunks n xs) = (length xs + n - 1) div n"
proof (induction n xs rule: chunks.induct)
  case (1 n xs)
  consider "xs = []" | "xs \<noteq> []" "length xs \<le> n" | "n < length xs" by fastforce
  then show ?case
  proof cases
    case 1
    with \<open>0 < n\<close> show ?thesis by simp
  next
    case 2
    then have "(length xs + n - 1) div n = Suc ((length xs - 1) div n)"
      using \<open>0 < n\<close> by (cases xs) (simp_all add: div_add_self2)
    also have "(length xs - 1) div n = 0"
      using 2 by (cases xs) auto
    finally show ?thesis
      using 2 \<open>0 < n\<close> by (simp add: chunks_rec)
  next
    case 3
    then have "xs \<noteq> []" by auto
    with "1.IH" \<open>0 < n\<close> 3 have "length (chunks n xs) = Suc ((length xs - n + n - 1) div n)"
      by (simp add: chunks_rec)
    moreover have "length xs - n + n - 1 = length xs - 1" "length xs + n - 1 = (length xs - 1) + n"
      using 3 \<open>0 < n\<close> by simp_all
    moreover have "((length xs - 1) + n) div n = Suc ((length xs - 1) div n)"
      using \<open>0 < n\<close> by (subst div_add_self2) simp_all
    ultimately show ?thesis
      by (simp only:)
  qed
qed

lemma chunks_shorter:
  assumes "1 < n" "1 < length xs"
  shows "length (chunks n xs) < length xs"
proof -
  obtain a b where ab: "length xs = Suc (Suc a)" "n = Suc (Suc b)"
    using assms by (metis One_nat_def less_iff_Suc_add add_Suc_right add_Suc_shift plus_1_eq_Suc)
  then have "length xs + n - 1 < length xs * n" by simp
  with assms show ?thesis by (simp add: length_chunks less_mult_imp_div_less)
qed

lemma length_chunks_le:
  assumes "length xs \<le> c * n" "0 < n"
  shows "length (chunks n xs) \<le> c"
proof -
  have "(length xs + n - 1) div n \<le> (c * n + n - 1) div n"
    using assms(1) by (intro div_le_mono) simp
  also have "\<dots> < Suc c"
    using assms(2) by (intro less_mult_imp_div_less) (simp add: mult.commute)
  finally show ?thesis
    using assms(2) by (simp add: length_chunks)
qed

lemma concat_map_concat: "concat (map (\<lambda>xs. concat (map f xs)) xss) = concat (map f (concat xss))"
  by (induction xss) auto

text \<open>On a list along which a predicate only ever turns false, the prefix that satisfies it is all that does.\<close>

lemma sorted_filter:
  "sorted_wrt (\<lambda>x y. P y \<longrightarrow> P x) xs \<Longrightarrow> takeWhile P xs = filter P xs"
  "sorted_wrt (\<lambda>x y. P y \<longrightarrow> P x) xs \<Longrightarrow> dropWhile P xs = filter (\<lambda>x. \<not> P x) xs"
  by (induction xs) (auto simp: filter_empty_conv filter_id_conv)

end
