(* ===== verification/Clock.thy ===== *)
theory Clock
  imports Prelude
begin

text \<open>
  The logical clocks of \<open>crates/clock/src/clock.rs\<close>: replica identifiers, Lamport
  timestamps with their total order, and \<open>Global\<close>, a version vector stored as a dense
  vector of sequence numbers indexed by replica. The lemmas give the vector its meaning
  as a function from replicas to sequence numbers and show that \<open>observe\<close>, \<open>join\<close>,
  \<open>meet\<close> and the comparisons compute pointwise.
\<close>

section \<open>Replicas and Lamport timestamps\<close>

datatype replica_id = ReplicaId (as_u16: u16)

definition LOCAL :: replica_id where "LOCAL = ReplicaId 0"
definition REMOTE_SERVER :: replica_id where "REMOTE_SERVER = ReplicaId 1"
definition AGENT :: replica_id where "AGENT = ReplicaId 2"
definition LOCAL_BRANCH :: replica_id where "LOCAL_BRANCH = ReplicaId 3"
definition FIRST_COLLAB_ID :: replica_id where "FIRST_COLLAB_ID = ReplicaId 8"

instantiation replica_id :: linorder
begin

definition less_eq_replica_id :: "replica_id \<Rightarrow> replica_id \<Rightarrow> bool" where
  "less_eq_replica_id a b \<longleftrightarrow> as_u16 a \<le> as_u16 b"

definition less_replica_id :: "replica_id \<Rightarrow> replica_id \<Rightarrow> bool" where
  "less_replica_id a b \<longleftrightarrow> as_u16 a < as_u16 b"

instance
  by standard (auto simp: less_eq_replica_id_def less_replica_id_def replica_id.expand)

end

definition is_remote :: "replica_id \<Rightarrow> bool" where
  "is_remote r \<longleftrightarrow> r = REMOTE_SERVER \<or> FIRST_COLLAB_ID \<le> r"

datatype lamport = Lamport (ts_value: u32) (ts_replica: replica_id)

definition lamport_cmp :: "lamport \<Rightarrow> lamport \<Rightarrow> ordering" where
  "lamport_cmp a b =
     then_with (ord_cmp (ts_value a) (ts_value b)) (ord_cmp (ts_replica a) (ts_replica b))"

instantiation lamport :: linorder
begin

definition less_eq_lamport :: "lamport \<Rightarrow> lamport \<Rightarrow> bool" where
  "less_eq_lamport a b \<longleftrightarrow> lamport_cmp a b \<noteq> Greater"

definition less_lamport :: "lamport \<Rightarrow> lamport \<Rightarrow> bool" where
  "less_lamport a b \<longleftrightarrow> lamport_cmp a b = Less"

instance
  by standard
    (auto simp: less_eq_lamport_def less_lamport_def lamport_cmp_def then_with_eq_iff
       not_less order.antisym lamport.expand)

end

definition LAMPORT_MIN :: lamport where
  "LAMPORT_MIN = Lamport 0 (ReplicaId 0)"

definition LAMPORT_MAX :: lamport where
  "LAMPORT_MAX = Lamport (- 1) (ReplicaId (- 1))"

definition lamport_new :: "replica_id \<Rightarrow> lamport" where
  "lamport_new r = Lamport 1 r"

definition as_u64 :: "lamport \<Rightarrow> u64" where
  "as_u64 l = or (push_bit 32 (ucast (ts_value l))) (ucast (as_u16 (ts_replica l)))"

text \<open>\<open>tick\<close> returns the timestamp before the increment, and the clock after it.\<close>

definition tick :: "lamport \<Rightarrow> lamport \<times> lamport" where
  "tick c = (c, Lamport (ts_value c + 1) (ts_replica c))"

definition lamport_observe :: "lamport \<Rightarrow> lamport \<Rightarrow> lamport" where
  "lamport_observe c t = Lamport (max (ts_value c) (ts_value t) + 1) (ts_replica c)"

section \<open>Version vectors\<close>

datatype global = Global (vals: "u32 list")

definition global_new :: global where
  "global_new = Global []"

definition replica_ix :: "replica_id \<Rightarrow> nat" where
  "replica_ix r = unat (as_u16 r)"

definition global_get :: "global \<Rightarrow> replica_id \<Rightarrow> u32" where
  "global_get g r = (case index_opt (vals g) (replica_ix r) of None \<Rightarrow> 0 | Some v \<Rightarrow> v)"

definition global_observe :: "global \<Rightarrow> lamport \<Rightarrow> global" where
  "global_observe g t =
     (if 0 < ts_value t then
        let i = replica_ix (ts_replica t);
            new_len = i + 1;
            vs = (if length (vals g) < new_len then resize (vals g) new_len 0 else vals g)
        in Global (vs[i := max (vs ! i) (ts_value t)])
      else g)"

fun zip_update :: "('a \<Rightarrow> 'b \<Rightarrow> 'a) \<Rightarrow> 'a list \<Rightarrow> 'b list \<Rightarrow> 'a list" where
  "zip_update f (l # ls) (r # rs) = f l r # zip_update f ls rs"
| "zip_update f ls _ = ls"

definition global_join :: "global \<Rightarrow> global \<Rightarrow> global" where
  "global_join g h =
     (let ls = (if length (vals g) < length (vals h)
                then resize (vals g) (length (vals h)) 0 else vals g)
      in Global (zip_update max ls (vals h)))"

definition meet_value :: "u32 \<Rightarrow> u32 \<Rightarrow> u32" where
  "meet_value l r = (if l = 0 then r else if r = 0 then l else min l r)"

fun meet_loop :: "nat \<Rightarrow> nat \<Rightarrow> u32 list \<Rightarrow> u32 list \<Rightarrow> u32 list \<times> nat" where
  "meet_loop ix new_len (l # ls) (r # rs) =
     (let l' = meet_value l r;
          new_len' = (if l' \<noteq> 0 then ix + 1 else new_len);
          (ls', n) = meet_loop (ix + 1) new_len' ls rs
      in (l' # ls', n))"
| "meet_loop ix new_len ls _ = (ls, new_len)"

definition global_meet :: "global \<Rightarrow> global \<Rightarrow> global" where
  "global_meet g h =
     (let ls = (if length (vals g) < length (vals h)
                then resize (vals g) (length (vals h)) 0 else vals g);
          (ls', new_len) = meet_loop 0 0 ls (vals h)
      in Global (if length (vals h) = length ls' then take new_len ls' else ls'))"

definition observed :: "global \<Rightarrow> lamport \<Rightarrow> bool" where
  "observed g t \<longleftrightarrow> ts_value t \<le> global_get g (ts_replica t)"

definition global_iter :: "global \<Rightarrow> lamport list" where
  "global_iter g =
     map (\<lambda>(i, v). Lamport v (ReplicaId (word_of_nat i))) (enumerate 0 (vals g))"

definition observed_any :: "global \<Rightarrow> global \<Rightarrow> bool" where
  "observed_any g h \<longleftrightarrow>
     list_ex (\<lambda>(l, r). 0 < ts_value r \<and> ts_value r \<le> ts_value l)
       (zip (global_iter g) (global_iter h))"

definition observed_all :: "global \<Rightarrow> global \<Rightarrow> bool" where
  "observed_all g h \<longleftrightarrow>
     (if length (vals g) < length (vals h) then False
      else list_all (\<lambda>(l, r). ts_value r \<le> ts_value l)
             (zip (global_iter g) (global_iter h)))"

definition changed_since :: "global \<Rightarrow> global \<Rightarrow> bool" where
  "changed_since g h \<longleftrightarrow>
     length (vals h) < length (vals g) \<or>
     list_ex (\<lambda>(l, r). r < l) (zip (vals g) (vals h))"

text \<open>\<open>Iterator::max_by_key\<close> keeps the last of several maximal elements.\<close>

fun max_by_key :: "('a \<Rightarrow> 'b::linorder) \<Rightarrow> 'a list \<Rightarrow> 'a option" where
  "max_by_key f [] = None"
| "max_by_key f (x # xs) =
     (case max_by_key f xs of
        None \<Rightarrow> Some x
      | Some y \<Rightarrow> if f x \<le> f y then Some y else Some x)"

definition most_recent :: "global \<Rightarrow> lamport option" where
  "most_recent g = max_by_key ts_value (global_iter g)"

definition global_from_iter :: "lamport list \<Rightarrow> global" where
  "global_from_iter ts = foldl global_observe global_new ts"

section \<open>Timestamps\<close>

lemma lamport_less_iff:
  "a < b \<longleftrightarrow> ts_value a < ts_value b \<or> (ts_value a = ts_value b \<and> ts_replica a < ts_replica b)"
  for a b :: lamport
  by (auto simp: less_lamport_def lamport_cmp_def then_with_eq_iff)

lemma unat_replica: "a < b \<longleftrightarrow> unat (as_u16 a) < unat (as_u16 b)" for a b :: replica_id
  by (simp add: less_replica_id_def word_less_nat_alt)

lemma unat_as_u64:
  "unat (as_u64 l) = unat (ts_value l) * 2 ^ 32 + unat (as_u16 (ts_replica l))"
proof -
  let ?v = "ucast (ts_value l) :: u64" and ?r = "ucast (as_u16 (ts_replica l)) :: u64"
  have v: "unat ?v = unat (ts_value l)" and r: "unat ?r = unat (as_u16 (ts_replica l))"
    by (simp_all add: unsigned_ucast_eq take_bit_nat_eq_self unsigned_less [THEN less_le_trans])
  have vb: "unat (ts_value l) < 2 ^ 32" and rb: "unat (as_u16 (ts_replica l)) < 2 ^ 16"
    using unsigned_less [of "ts_value l"] unsigned_less [of "as_u16 (ts_replica l)"] by simp_all
  have disj: "and (push_bit 32 ?v) ?r = 0"
    by (rule bit_word_eqI) (auto simp: bit_simps dest: bit_imp_le_length)
  have "as_u64 l = push_bit 32 ?v + ?r"
    using disj by (simp add: as_u64_def disjunctive_add_eq_or)
  moreover have "unat (push_bit 32 ?v) = unat (ts_value l) * 2 ^ 32"
    using v vb by (simp add: push_bit_eq_mult unat_word_ariths)
  ultimately show ?thesis
    using r vb rb by (simp add: unat_word_ariths)
qed

lemma lamport_less_as_u64: "a < b \<longleftrightarrow> as_u64 a < as_u64 b"
proof -
  have "unat (as_u16 (ts_replica a)) < 2 ^ 16" "unat (as_u16 (ts_replica b)) < 2 ^ 16"
    using unsigned_less [of "as_u16 (ts_replica a)"] unsigned_less [of "as_u16 (ts_replica b)"] by simp_all
  then show ?thesis
    by (auto simp: word_less_nat_alt unat_as_u64 lamport_less_iff unat_replica
        word_unat_eq_iff)
qed

lemma observe_then_tick:
  assumes "max (ts_value c) (ts_value t) \<noteq> - 1"
  shows "t < fst (tick (lamport_observe c t))" "c < fst (tick (lamport_observe c t))"
  using assms
  by (auto simp: lamport_less_iff tick_def lamport_observe_def word_less_succ)


section \<open>Version vectors as functions\<close>

definition seq_at :: "global \<Rightarrow> nat \<Rightarrow> u32" where
  "seq_at g i = (if i < length (vals g) then vals g ! i else 0)"

text \<open>The representation is canonical: no trailing zero, and no entry beyond the last replica.\<close>

definition wf_global :: "global \<Rightarrow> bool" where
  "wf_global g \<longleftrightarrow> (vals g = [] \<or> last (vals g) \<noteq> 0) \<and> length (vals g) \<le> 2 ^ 16"

lemma global_get_seq_at: "global_get g r = seq_at g (replica_ix r)"
  by (simp add: global_get_def seq_at_def index_opt_def)

lemma replica_ix_less: "replica_ix r < 2 ^ 16"
  unfolding replica_ix_def using unsigned_less [of "as_u16 r"] by simp

lemma replica_ix_inject [simp]: "replica_ix r = replica_ix s \<longleftrightarrow> r = s"
  by (auto simp: replica_ix_def word_unat_eq_iff [symmetric] intro: replica_id.expand)

lemma replica_ix_ReplicaId: "i < 2 ^ 16 \<Longrightarrow> replica_ix (ReplicaId (word_of_nat i)) = i"
  by (simp add: replica_ix_def unat_of_nat take_bit_nat_eq_self)

lemma all_seq_at:
  assumes "length (vals g) \<le> 2 ^ 16" "length (vals h) \<le> 2 ^ 16"
    and "P 0 0"
  shows "(\<forall>i. P (seq_at g i) (seq_at h i)) \<longleftrightarrow> (\<forall>r. P (global_get g r) (global_get h r))"
proof
  assume R: "\<forall>r. P (global_get g r) (global_get h r)"
  show "\<forall>i. P (seq_at g i) (seq_at h i)"
  proof
    fix i
    show "P (seq_at g i) (seq_at h i)"
    proof (cases "i < 2 ^ 16")
      case True
      with R [rule_format, of "ReplicaId (word_of_nat i)"] show ?thesis
        by (simp only: global_get_seq_at replica_ix_ReplicaId)
    next
      case False
      with assms show ?thesis by (simp add: seq_at_def)
    qed
  qed
qed (simp add: global_get_seq_at)

lemma wf_global_last:
  assumes "wf_global g" "vals g \<noteq> []"
  shows "seq_at g (length (vals g) - 1) \<noteq> 0"
  using assms by (simp add: wf_global_def seq_at_def last_conv_nth)

lemma wf_globalI:
  assumes "vals g \<noteq> [] \<Longrightarrow> seq_at g (length (vals g) - 1) \<noteq> 0" "length (vals g) \<le> 2 ^ 16"
  shows "wf_global g"
  using assms by (auto simp: wf_global_def seq_at_def last_conv_nth)

lemma global_eqI:
  assumes wf: "wf_global g" "wf_global h" and eq: "\<And>i. seq_at g i = seq_at h i"
  shows "g = h"
proof -
  have len: "length (vals a) \<le> length (vals b)"
    if "wf_global a" "\<And>i. seq_at a i = seq_at b i" for a b
  proof (rule ccontr)
    assume "\<not> ?thesis"
    then have "vals a \<noteq> []" "seq_at b (length (vals a) - 1) = 0"
      by (auto simp: seq_at_def)
    with that wf_global_last [of a] show False by simp
  qed
  have "vals g = vals h"
  proof (rule nth_equalityI)
    show l: "length (vals g) = length (vals h)"
      using len [of g h] len [of h g] wf eq by (simp add: order.antisym)
    fix i assume "i < length (vals g)"
    with l eq [of i] show "vals g ! i = vals h ! i" by (simp add: seq_at_def)
  qed
  then show ?thesis by (rule global.expand)
qed

subsection \<open>observe\<close>

lemma seq_at_observe:
  "seq_at (global_observe g t) i =
     (if i = replica_ix (ts_replica t) then max (seq_at g i) (ts_value t) else seq_at g i)"
  by (auto simp: global_observe_def seq_at_def Let_def nth_list_update nth_resize
      word_gt_0 max.absorb1)

lemma wf_global_observe:
  assumes "wf_global g" shows "wf_global (global_observe g t)"
proof (cases "0 < ts_value t")
  case True
  let ?i = "replica_ix (ts_replica t)"
  have "?i < 2 ^ 16" by (rule replica_ix_less)
  with True assms show ?thesis
    by (auto simp: wf_global_def global_observe_def Let_def last_conv_nth nth_list_update
        nth_resize word_gt_0 max_def split: if_splits)
next
  case False
  with assms show ?thesis by (simp add: global_observe_def)
qed

subsection \<open>join and meet\<close>

lemma length_zip_update [simp]: "length (zip_update f ls rs) = length ls"
  by (induction f ls rs rule: zip_update.induct) auto

lemma nth_zip_update:
  "i < length ls \<Longrightarrow>
     zip_update f ls rs ! i = (if i < length rs then f (ls ! i) (rs ! i) else ls ! i)"
  by (induction f ls rs arbitrary: i rule: zip_update.induct) (auto simp: nth_Cons split: nat.splits)

lemma seq_at_join: "seq_at (global_join g h) i = max (seq_at g i) (seq_at h i)"
  by (auto simp: global_join_def seq_at_def Let_def nth_zip_update nth_resize)

lemma length_join: "length (vals (global_join g h)) = max (length (vals g)) (length (vals h))"
  by (simp add: global_join_def Let_def)

lemma wf_global_join:
  assumes "wf_global g" "wf_global h" shows "wf_global (global_join g h)"
proof (rule wf_globalI)
  assume "vals (global_join g h) \<noteq> []"
  then have "max (length (vals g)) (length (vals h)) \<noteq> 0"
    by (simp flip: length_join)
  then show "seq_at (global_join g h) (length (vals (global_join g h)) - 1) \<noteq> 0"
    using assms wf_global_last [of g] wf_global_last [of h]
    by (auto simp: seq_at_join length_join max_def split: if_splits)
qed (use assms in \<open>simp add: length_join wf_global_def\<close>)

lemma meet_loop_fst: "fst (meet_loop ix n ls rs) = zip_update meet_value ls rs"
  by (induction ix n ls rs rule: meet_loop.induct) (auto simp: Let_def split_beta)

lemma meet_loop_snd:
  assumes "length ls = length rs"
  shows "let zs = zip_update meet_value ls rs; m = snd (meet_loop ix n ls rs) in
    (m = n \<and> (\<forall>z \<in> set zs. z = 0)) \<or>
    (\<exists>k < length zs. m = ix + Suc k \<and> zs ! k \<noteq> 0 \<and> (\<forall>j < length zs. k < j \<longrightarrow> zs ! j = 0))"
  using assms
proof (induction ix n ls rs rule: meet_loop.induct)
  case (1 ix n l ls r rs)
  define n' where "n' = (if meet_value l r \<noteq> 0 then ix + 1 else n)"
  let ?zs = "zip_update meet_value ls rs"
  define m where "m = snd (meet_loop (ix + 1) n' ls rs)"
  have m: "snd (meet_loop ix n (l # ls) (r # rs)) = m"
    by (simp add: m_def n'_def Let_def split_beta)
  have "(m = n' \<and> (\<forall>z \<in> set ?zs. z = 0)) \<or>
    (\<exists>k < length ?zs. m = ix + 1 + Suc k \<and> ?zs ! k \<noteq> 0 \<and> (\<forall>j < length ?zs. k < j \<longrightarrow> ?zs ! j = 0))"
    using 1 by (simp add: m_def n'_def Let_def)
  then show ?case
  proof (elim disjE exE conjE)
    assume "m = n'" and z: "\<forall>z \<in> set ?zs. z = 0"
    then show ?thesis
      by (auto simp: Let_def m n'_def nth_Cons simp del: meet_loop.simps length_zip_update
          split: nat.splits dest: nth_mem)
  next
    fix k assume "k < length ?zs" "m = ix + 1 + Suc k" "?zs ! k \<noteq> 0"
      "\<forall>j < length ?zs. k < j \<longrightarrow> ?zs ! j = 0"
    then show ?thesis
      by (auto simp: Let_def m nth_Cons simp del: meet_loop.simps length_zip_update
          intro!: exI [of _ "Suc k"] split: nat.splits)
  qed
qed auto

lemma seq_at_take:
  "(\<And>j. n \<le> j \<Longrightarrow> j < length xs \<Longrightarrow> xs ! j = 0) \<Longrightarrow> seq_at (Global (take n xs)) i = seq_at (Global xs) i"
  by (auto simp: seq_at_def)

definition meet_list :: "global \<Rightarrow> global \<Rightarrow> u32 list" where
  "meet_list g h = zip_update meet_value
     (if length (vals g) < length (vals h) then resize (vals g) (length (vals h)) 0 else vals g)
     (vals h)"

lemma meet_value_0 [simp]: "meet_value 0 r = r" "meet_value l 0 = l"
  by (simp_all add: meet_value_def)

lemma seq_at_meet_list: "seq_at (Global (meet_list g h)) i = meet_value (seq_at g i) (seq_at h i)"
  by (auto simp: seq_at_def meet_list_def nth_zip_update nth_resize)

lemma length_meet_list: "length (meet_list g h) = max (length (vals g)) (length (vals h))"
  by (simp add: meet_list_def)

lemma global_meet_cases:
  obtains "length (vals h) < length (vals g)" "global_meet g h = Global (meet_list g h)"
  | n where "global_meet g h = Global (take n (meet_list g h))" "length (vals g) \<le> length (vals h)"
      "n \<le> length (meet_list g h)"
      "n \<noteq> 0 \<Longrightarrow> meet_list g h ! (n - 1) \<noteq> 0"
      "\<And>j. n \<le> j \<Longrightarrow> j < length (meet_list g h) \<Longrightarrow> meet_list g h ! j = 0"
proof (cases "length (vals h) < length (vals g)")
  case True
  then have "global_meet g h = Global (meet_list g h)"
    by (simp add: global_meet_def meet_list_def Let_def split_beta meet_loop_fst)
  with True that(1) show ?thesis by blast
next
  case False
  let ?ls = "if length (vals g) < length (vals h) then resize (vals g) (length (vals h)) 0 else vals g"
  let ?n = "snd (meet_loop 0 0 ?ls (vals h))"
  have l: "length ?ls = length (vals h)" using False by simp
  have eq: "global_meet g h = Global (take ?n (meet_list g h))"
    using False by (auto simp: global_meet_def meet_list_def Let_def split_beta meet_loop_fst)
  from meet_loop_snd [OF l, of 0 0]
  have "(?n = 0 \<and> (\<forall>z \<in> set (meet_list g h). z = 0)) \<or>
    (\<exists>k < length (meet_list g h). ?n = Suc k \<and> meet_list g h ! k \<noteq> 0 \<and>
       (\<forall>j < length (meet_list g h). k < j \<longrightarrow> meet_list g h ! j = 0))"
    unfolding meet_list_def Let_def by simp
  then show ?thesis
    using that(2) [OF eq] False by (auto simp: Suc_le_eq)
qed

lemma seq_at_meet: "seq_at (global_meet g h) i = meet_value (seq_at g i) (seq_at h i)"
  by (rule global_meet_cases [of h g]) (simp_all add: seq_at_meet_list seq_at_take)

lemma wf_global_meet:
  assumes "wf_global g" "wf_global h" shows "wf_global (global_meet g h)"
proof (rule global_meet_cases [of h g])
  assume l: "length (vals h) < length (vals g)" and eq: "global_meet g h = Global (meet_list g h)"
  from l have len: "length (vals (global_meet g h)) = length (vals g)"
    by (simp add: eq length_meet_list)
  from l have "seq_at h (length (vals g) - 1) = 0" "vals g \<noteq> []"
    by (auto simp: seq_at_def)
  with assms(1) show ?thesis
    by (intro wf_globalI) (simp_all add: len seq_at_meet wf_global_last [simplified], simp add: wf_global_def)
next
  fix n assume eq: "global_meet g h = Global (take n (meet_list g h))"
      and "n \<le> length (meet_list g h)"
      and nz: "n \<noteq> 0 \<Longrightarrow> meet_list g h ! (n - 1) \<noteq> 0"
  then have "vals (global_meet g h) = [] \<or> last (vals (global_meet g h)) \<noteq> 0"
    by (cases "n = 0") (simp_all add: last_take_nth)
  moreover have "length (vals (global_meet g h)) \<le> length (meet_list g h)"
    using eq by simp
  ultimately show ?thesis
    using assms unfolding length_meet_list by (auto simp: wf_global_def le_max_iff_disj)
qed


subsection \<open>Comparisons\<close>

lemma map_global_iter: "map ts_value (global_iter g) = vals g"
  by (rule nth_equalityI) (simp_all add: global_iter_def nth_enumerate_eq)

lemma list_all_zip_map:
  "list_all (\<lambda>(l, r). P (f l) (f r)) (zip xs ys) \<longleftrightarrow>
     (\<forall>i < min (length (map f xs)) (length (map f ys)). P (map f xs ! i) (map f ys ! i))"
  by (auto simp: list_all_length)

lemma list_ex_zip_map:
  "list_ex (\<lambda>(l, r). P (f l) (f r)) (zip xs ys) \<longleftrightarrow>
     (\<exists>i < min (length (map f xs)) (length (map f ys)). P (map f xs ! i) (map f ys ! i))"
  by (auto simp: list_ex_length)

lemma zip_global_iter:
  "list_all (\<lambda>(l, r). P (ts_value l) (ts_value r)) (zip (global_iter g) (global_iter h)) \<longleftrightarrow>
     (\<forall>i < min (length (vals g)) (length (vals h)). P (vals g ! i) (vals h ! i))"
  "list_ex (\<lambda>(l, r). P (ts_value l) (ts_value r)) (zip (global_iter g) (global_iter h)) \<longleftrightarrow>
     (\<exists>i < min (length (vals g)) (length (vals h)). P (vals g ! i) (vals h ! i))"
  by (simp_all only: list_all_zip_map list_ex_zip_map map_global_iter)

lemma observed_all_iff:
  assumes "wf_global g" "wf_global h"
  shows "observed_all g h \<longleftrightarrow> (\<forall>i. seq_at h i \<le> seq_at g i)"
proof (cases "length (vals g) < length (vals h)")
  case True
  then have "vals h \<noteq> []" "seq_at g (length (vals h) - 1) = 0" by (auto simp: seq_at_def)
  with wf_global_last [OF assms(2)] have "\<not> seq_at h (length (vals h) - 1) \<le> seq_at g (length (vals h) - 1)"
    by simp
  with True show ?thesis by (auto simp: observed_all_def)
next
  case False
  have "observed_all g h \<longleftrightarrow> (\<forall>i < min (length (vals g)) (length (vals h)). vals h ! i \<le> vals g ! i)"
    using False zip_global_iter(1) [of "\<lambda>l r. r \<le> l" g h] by (simp add: observed_all_def)
  also have "\<dots> \<longleftrightarrow> (\<forall>i. seq_at h i \<le> seq_at g i)"
    using False by (auto simp: seq_at_def)
  finally show ?thesis .
qed

lemma changed_since_iff:
  assumes "wf_global g" "wf_global h"
  shows "changed_since g h \<longleftrightarrow> \<not> observed_all h g"
proof -
  have "changed_since g h \<longleftrightarrow> (\<exists>i. seq_at h i < seq_at g i)"
  proof (cases "length (vals h) < length (vals g)")
    case True
    then have "vals g \<noteq> []" "seq_at h (length (vals g) - 1) = 0" by (auto simp: seq_at_def)
    with wf_global_last [OF assms(1)] have "seq_at h (length (vals g) - 1) < seq_at g (length (vals g) - 1)"
      by (simp add: word_gt_0)
    with True show ?thesis by (auto simp: changed_since_def)
  next
    case False
    then have "changed_since g h \<longleftrightarrow>
        (\<exists>i < min (length (vals g)) (length (vals h)). vals h ! i < vals g ! i)"
      using list_ex_zip_map [of "\<lambda>l r. r < l" id "vals g" "vals h"] by (simp add: changed_since_def)
    also have "\<dots> \<longleftrightarrow> (\<exists>i. seq_at h i < seq_at g i)"
      using False by (auto simp: seq_at_def split: if_splits)
    finally show ?thesis .
  qed
  with assms show ?thesis by (auto simp: observed_all_iff not_le)
qed

lemma observed_any_iff:
  "observed_any g h \<longleftrightarrow> (\<exists>i. 0 < seq_at h i \<and> seq_at h i \<le> seq_at g i)"
proof -
  have "observed_any g h \<longleftrightarrow> (\<exists>i < min (length (vals g)) (length (vals h)).
      0 < vals h ! i \<and> vals h ! i \<le> vals g ! i)"
    using zip_global_iter(2) [of "\<lambda>l r. 0 < r \<and> r \<le> l" g h] by (simp add: observed_any_def)
  also have "\<dots> \<longleftrightarrow> (\<exists>i. 0 < seq_at h i \<and> seq_at h i \<le> seq_at g i)"
    by (auto simp: seq_at_def split: if_splits)
  finally show ?thesis .
qed

lemma max_by_key_None [simp]: "max_by_key f xs = None \<longleftrightarrow> xs = []"
  by (cases xs) (auto split: option.splits)

lemma max_by_key_Some:
  "max_by_key f xs = Some y \<Longrightarrow> y \<in> set xs \<and> (\<forall>x \<in> set xs. f x \<le> f y)"
  by (induction xs arbitrary: y) (fastforce split: option.splits if_splits)+

lemma set_global_iter:
  assumes "length (vals g) \<le> 2 ^ 16"
  shows "set (global_iter g) =
    {t. replica_ix (ts_replica t) < length (vals g) \<and> ts_value t = global_get g (ts_replica t)}"
proof (intro set_eqI iffI)
  fix t assume "t \<in> set (global_iter g)"
  then obtain i where "i < length (vals g)" "t = Lamport (vals g ! i) (ReplicaId (word_of_nat i))"
    by (auto simp: global_iter_def in_set_conv_nth nth_enumerate_eq)
  with assms show "t \<in> {t. replica_ix (ts_replica t) < length (vals g) \<and> ts_value t = global_get g (ts_replica t)}"
    by (simp add: global_get_seq_at replica_ix_ReplicaId seq_at_def del: One_nat_def)
next
  fix t assume t: "t \<in> {t. replica_ix (ts_replica t) < length (vals g) \<and> ts_value t = global_get g (ts_replica t)}"
  let ?i = "replica_ix (ts_replica t)"
  have "ReplicaId (word_of_nat ?i) = ts_replica t"
    by (simp add: replica_ix_def)
  with t have "t = Lamport (vals g ! ?i) (ReplicaId (word_of_nat ?i))"
    by (auto simp: global_get_seq_at seq_at_def intro: lamport.expand)
  moreover have "global_iter g ! ?i = Lamport (vals g ! ?i) (ReplicaId (word_of_nat ?i))"
    "?i < length (global_iter g)"
    using t by (simp_all add: global_iter_def nth_enumerate_eq)
  ultimately show "t \<in> set (global_iter g)"
    by (metis nth_mem)
qed


section \<open>The interface the buffer relies on\<close>

text \<open>
  Clients of a version vector see only which timestamps it has observed. The locale
  collects the laws they use; the lemmas inside follow from these laws alone.
\<close>

locale version_vector =
  fixes inv :: "'v \<Rightarrow> bool"
    and empty :: 'v
    and get :: "'v \<Rightarrow> replica_id \<Rightarrow> u32"
    and observe :: "'v \<Rightarrow> lamport \<Rightarrow> 'v"
    and join :: "'v \<Rightarrow> 'v \<Rightarrow> 'v"
    and all_observed :: "'v \<Rightarrow> 'v \<Rightarrow> bool"
  assumes inv_empty: "inv empty"
    and inv_observe: "inv v \<Longrightarrow> inv (observe v t)"
    and inv_join: "inv v \<Longrightarrow> inv w \<Longrightarrow> inv (join v w)"
    and get_empty: "get empty r = 0"
    and get_observe: "get (observe v t) r = (if r = ts_replica t then max (get v r) (ts_value t) else get v r)"
    and get_join: "get (join v w) r = max (get v r) (get w r)"
    and all_observed_iff: "inv v \<Longrightarrow> inv w \<Longrightarrow> all_observed v w \<longleftrightarrow> (\<forall>r. get w r \<le> get v r)"
    and get_inject: "inv v \<Longrightarrow> inv w \<Longrightarrow> (\<And>r. get v r = get w r) \<Longrightarrow> v = w"
begin

lemma inv_foldl_observe: "inv v \<Longrightarrow> inv (foldl observe v ts)"
  by (induction ts arbitrary: v) (auto simp: inv_observe)

lemma get_foldl_observe:
  "get (foldl observe v ts) r =
     foldl max (get v r) (map ts_value (filter (\<lambda>t. ts_replica t = r) ts))"
  by (induction ts arbitrary: v) (auto simp: get_observe)

lemma join_comm: "inv v \<Longrightarrow> inv w \<Longrightarrow> join v w = join w v"
  by (rule get_inject) (auto simp: inv_join get_join max.commute)

lemma join_assoc: "inv u \<Longrightarrow> inv v \<Longrightarrow> inv w \<Longrightarrow> join (join u v) w = join u (join v w)"
  by (rule get_inject) (auto simp: inv_join get_join max.assoc)

lemma join_idem: "inv v \<Longrightarrow> join v v = v"
  by (rule get_inject) (auto simp: inv_join get_join)

lemma join_upper: "inv v \<Longrightarrow> inv w \<Longrightarrow> all_observed (join v w) v \<and> all_observed (join v w) w"
  by (simp add: all_observed_iff inv_join get_join)

lemma join_least:
  "inv u \<Longrightarrow> inv v \<Longrightarrow> inv w \<Longrightarrow> all_observed u v \<Longrightarrow> all_observed u w \<Longrightarrow> all_observed u (join v w)"
  by (simp add: all_observed_iff inv_join get_join)

lemma all_observed_antisym:
  "inv v \<Longrightarrow> inv w \<Longrightarrow> all_observed v w \<Longrightarrow> all_observed w v \<Longrightarrow> v = w"
  by (rule get_inject) (auto simp: all_observed_iff intro: order.antisym)

lemma all_observed_trans:
  "inv u \<Longrightarrow> inv v \<Longrightarrow> inv w \<Longrightarrow> all_observed u v \<Longrightarrow> all_observed v w \<Longrightarrow> all_observed u w"
  by (auto simp: all_observed_iff intro: order.trans)

lemma observe_commute: "inv v \<Longrightarrow> observe (observe v s) t = observe (observe v t) s"
  by (rule get_inject) (auto simp: inv_observe get_observe max.commute max.left_commute)

end

lemma global_eqI_get:
  assumes "wf_global g" "wf_global h" "\<And>r. global_get g r = global_get h r"
  shows "g = h"
proof (rule global_eqI [OF assms(1,2)])
  have "\<forall>i. seq_at g i = seq_at h i"
    using all_seq_at [of g h "(=)"] assms by (simp add: wf_global_def)
  then show "seq_at g i = seq_at h i" for i by blast
qed

interpretation global_vv: version_vector wf_global global_new global_get global_observe global_join observed_all
proof
  show "global_get global_new r = 0" for r
    by (simp add: global_get_seq_at seq_at_def global_new_def)
  show "observed_all v w = (\<forall>r. global_get w r \<le> global_get v r)" if "wf_global v" "wf_global w" for v w
    using that all_seq_at [of v w "\<lambda>a b. b \<le> a"] by (simp add: observed_all_iff wf_global_def)
  show "wf_global global_new"
    by (simp add: global_new_def wf_global_def)
qed (simp_all add: wf_global_observe wf_global_join global_eqI_get,
    simp_all add: global_get_seq_at seq_at_observe seq_at_join)


section \<open>Properties\<close>

text \<open>
  C27. Joining version vectors is the least upper bound of the order \<open>observed_all\<close>: join is
  commutative, associative and idempotent, it observes both arguments, and every vector that
  observes both observes the join; the canonical representation is kept.
\<close>

theorem version_join_semilattice:
  assumes "wf_global a" "wf_global b" "wf_global c"
  shows "wf_global (global_join a b)
    \<and> global_join a b = global_join b a
    \<and> global_join (global_join a b) c = global_join a (global_join b c)
    \<and> global_join a a = a
    \<and> observed_all (global_join a b) a \<and> observed_all (global_join a b) b
    \<and> (observed_all c a \<and> observed_all c b \<longrightarrow> observed_all c (global_join a b))"
  using assms global_vv.join_comm global_vv.join_assoc global_vv.join_idem
    global_vv.join_upper [of a b] global_vv.join_least [of c a b] global_vv.inv_join
  by (simp only: simp_thms) blast

theorem version_join_semilattice_witness:
  "observed_all (Global [2, 5, 1]) (global_join (Global [2, 3]) (Global [0, 5, 1]))
   \<and> global_join (Global [2, 3]) (Global [0, 5, 1]) = Global [2, 5, 1]"
proof -
  have wf: "wf_global (Global [2, 3])" "wf_global (Global [0, 5, 1])" "wf_global (Global [2, 5, 1])"
    by (simp_all add: wf_global_def)
  have "observed_all (Global [2, 5, 1]) (Global [2, 3])" "observed_all (Global [2, 5, 1]) (Global [0, 5, 1])"
    by (simp_all add: observed_all_def global_iter_def)
  moreover have "global_join (Global [2, 3]) (Global [0, 5, 1]) = Global [2, 5, 1]"
    by (simp add: global_join_def resize_def max_def)
  ultimately show ?thesis
    using version_join_semilattice [OF wf] by blast
qed

text \<open>
  On canonical vectors the comparisons that work on the raw storage, with their early
  return on the length, decide the pointwise relations: \<open>observed_all\<close> is pointwise
  \<open>\<ge>\<close>, \<open>changed_since\<close> holds exactly when some replica has advanced, \<open>observed_any\<close>
  when some observed entry of the other is covered, and equality is pointwise equality.
\<close>

theorem version_comparisons_pointwise:
  assumes "wf_global g" "wf_global h"
  shows "(observed_all g h \<longleftrightarrow> (\<forall>r. global_get h r \<le> global_get g r))
    \<and> (changed_since g h \<longleftrightarrow> (\<exists>r. global_get h r < global_get g r))
    \<and> (observed_any g h \<longleftrightarrow> (\<exists>r. 0 < global_get h r \<and> global_get h r \<le> global_get g r))
    \<and> (g = h \<longleftrightarrow> (\<forall>r. global_get g r = global_get h r))"
proof (intro conjI)
  show all: "observed_all g h \<longleftrightarrow> (\<forall>r. global_get h r \<le> global_get g r)"
    by (rule global_vv.all_observed_iff [OF assms])
  show "changed_since g h \<longleftrightarrow> (\<exists>r. global_get h r < global_get g r)"
    using assms by (simp add: changed_since_iff global_vv.all_observed_iff not_le)
  have "(\<forall>i. \<not> (0 < seq_at h i \<and> seq_at h i \<le> seq_at g i)) \<longleftrightarrow>
      (\<forall>r. \<not> (0 < global_get h r \<and> global_get h r \<le> global_get g r))"
    using assms all_seq_at [of g h "\<lambda>a b. \<not> (0 < b \<and> b \<le> a)"] by (simp add: wf_global_def)
  then show "observed_any g h \<longleftrightarrow> (\<exists>r. 0 < global_get h r \<and> global_get h r \<le> global_get g r)"
    unfolding observed_any_iff by blast
  show "g = h \<longleftrightarrow> (\<forall>r. global_get g r = global_get h r)"
    using global_eqI_get [OF assms] by blast
qed

theorem version_comparisons_pointwise_witness:
  "changed_since (Global [2, 3]) (Global [2, 1, 7])"
proof -
  have "wf_global (Global [2, 3])" "wf_global (Global [2, 1, 7])" by (simp_all add: wf_global_def)
  note * = version_comparisons_pointwise [OF this]
  have "global_get (Global [2, 1, 7]) (ReplicaId 1) < global_get (Global [2, 3]) (ReplicaId 1)"
    by (simp add: global_get_def replica_ix_def)
  with * show ?thesis by blast
qed

text \<open>
  \<open>meet\<close> computes, for every replica, the smaller of the two sequence numbers, or the
  observed one where only one vector has observed the replica, and it keeps the canonical
  representation: truncating at the last non-zero entry loses nothing.
\<close>

theorem version_meet_pointwise:
  assumes "wf_global g" "wf_global h"
  shows "wf_global (global_meet g h) \<and>
    global_get (global_meet g h) r =
      (if global_get g r = 0 then global_get h r
       else if global_get h r = 0 then global_get g r
       else min (global_get g r) (global_get h r))"
  using assms by (simp add: wf_global_meet global_get_seq_at seq_at_meet meet_value_def)

theorem version_meet_pointwise_witness:
  "wf_global (global_meet (Global [4, 0, 2]) (Global [3, 7]))
   \<and> global_get (global_meet (Global [4, 0, 2]) (Global [3, 7])) (ReplicaId 1) = 7"
proof -
  have "wf_global (Global [4, 0, 2])" "wf_global (Global [3, 7])" by (simp_all add: wf_global_def)
  from version_meet_pointwise [OF this, of "ReplicaId 1"] show ?thesis
    by (simp add: global_get_def replica_ix_def)
qed

text \<open>
  A vector built from a sequence of timestamps has observed exactly the timestamps that
  some element of the sequence with the same replica dominates (and the null timestamps).
\<close>

theorem observed_from_iter:
  "wf_global (global_from_iter ts) \<and>
   (observed (global_from_iter ts) t \<longleftrightarrow>
      ts_value t = 0 \<or> (\<exists>s \<in> set ts. ts_replica s = ts_replica t \<and> ts_value t \<le> ts_value s))"
proof -
  have foldl_max: "v \<le> foldl max m xs \<longleftrightarrow> v \<le> m \<or> (\<exists>x \<in> set xs. v \<le> x)" for v m :: u32 and xs
    by (induction xs arbitrary: m) (auto simp: le_max_iff_disj)
  show ?thesis
    using global_vv.inv_foldl_observe [OF global_vv.inv_empty]
    by (auto simp: global_from_iter_def observed_def global_vv.get_foldl_observe
        global_vv.get_empty foldl_max)
qed

text \<open>
  The timestamps are totally ordered by sequence number and then by replica, and packing
  them into 64 bits is an order embedding.
\<close>

theorem lamport_order_as_u64: "a < b \<longleftrightarrow> as_u64 a < as_u64 b"
  by (rule lamport_less_as_u64)

text \<open>
  C40. Causality: after a replica's clock has observed a timestamp, the next timestamp it hands
  out is larger than both the observed one and every one it could have handed out before, as
  long as the 32-bit sequence number does not overflow.
\<close>

theorem lamport_observe_causality:
  assumes "max (ts_value c) (ts_value t) \<noteq> - 1"
  shows "t < fst (tick (lamport_observe c t)) \<and> c < fst (tick (lamport_observe c t))"
  using observe_then_tick [OF assms] by blast

theorem lamport_observe_causality_witness:
  "Lamport 9 (ReplicaId 3) < fst (tick (lamport_observe (Lamport 4 (ReplicaId 0)) (Lamport 9 (ReplicaId 3))))"
proof -
  have "max (ts_value (Lamport 4 (ReplicaId 0))) (ts_value (Lamport 9 (ReplicaId 3))) \<noteq> - 1" by simp
  from lamport_observe_causality [OF this] show ?thesis by blast
qed


end
