(* ===== verification/Sum_Tree_Props.thy ===== *)
theory Sum_Tree_Props
  imports Sum_Tree
begin

text \<open>
  Correctness of the tree operations of \<open>Sum_Tree\<close>: the well-formedness invariant, the
  flattened item list as the abstraction of a tree, and, under the laws that a summary has
  to satisfy, the effect of every operation on that list. Well-formed inputs never panic.
\<close>

section \<open>Laws, invariant and abstraction\<close>

text \<open>
  What the tree needs of a summary type. \<open>zero\<close> is a left unit only: for several instances
  (\<open>MapKey\<close>, \<open>Locator\<close>) adding a summary replaces the accumulated one.
\<close>

definition lawful_summary :: "('t, 's) item_ops \<Rightarrow> bool" where
  "lawful_summary ops \<longleftrightarrow>
     (\<forall>a b c. s_add ops (s_add ops a b) c = s_add ops a (s_add ops b c)) \<and>
     (\<forall>a. s_add ops (s_zero ops) a = a)"

fun wf_tree :: "('t, 's) item_ops \<Rightarrow> ('t, 's) sum_tree \<Rightarrow> bool" where
  "wf_tree ops (Leaf s is ss) \<longleftrightarrow>
     length is \<le> 2 * TREE_BASE \<and> ss = map (item_summary ops) is \<and> s = summary_sum ops ss"
| "wf_tree ops (Internal h s cs ts) \<longleftrightarrow>
     ts \<noteq> [] \<and> length ts \<le> 2 * TREE_BASE \<and> cs = map summary ts \<and> s = summary_sum ops cs \<and> h < 256 \<and>
     (\<forall>t \<in> set ts. wf_tree ops t \<and> \<not> tree_is_empty t \<and> Suc (height t) = h)"

fun tree_items :: "('t, 's) sum_tree \<Rightarrow> 't list" where
  "tree_items (Leaf s is ss) = is"
| "tree_items (Internal h s cs ts) = concat (map tree_items ts)"

text \<open>A non-empty subtree of a given height, as it occurs below an internal node.\<close>

definition node_at :: "('t, 's) item_ops \<Rightarrow> nat \<Rightarrow> ('t, 's) sum_tree \<Rightarrow> bool" where
  "node_at ops h t \<longleftrightarrow> wf_tree ops t \<and> \<not> tree_is_empty t \<and> height t = h"

lemma TREE_BASE_pos [simp]: "0 < TREE_BASE"
  by (simp add: TREE_BASE_def)

lemma array_vec_Some [simp]: "length xs \<le> 2 * TREE_BASE \<Longrightarrow> array_vec xs = Some xs"
  by (simp add: array_vec_def)

lemma u8_arith [simp]:
  "h < 255 \<Longrightarrow> u8_succ h = Suc h"
  "b \<le> a \<Longrightarrow> a < 256 \<Longrightarrow> u8_sub a b = a - b"
  by (simp_all add: u8_succ_def u8_sub_def mod_if)

lemma wf_tree_Internal_iff:
  "wf_tree ops (Internal (Suc h) s cs ts) \<longleftrightarrow>
     ts \<noteq> [] \<and> length ts \<le> 2 * TREE_BASE \<and> cs = map summary ts \<and> s = summary_sum ops cs \<and>
     Suc h < 256 \<and> (\<forall>t \<in> set ts. node_at ops h t)"
  by (auto simp: node_at_def)

lemma wf_tree_height_0: "wf_tree ops t \<Longrightarrow> height t = 0 \<Longrightarrow> is_leaf t"
  by (cases t) auto

lemma wf_tree_cases:
  assumes "wf_tree ops t"
  obtains xs where "t = Leaf (summary_sum ops (map (item_summary ops) xs)) xs (map (item_summary ops) xs)"
      "length xs \<le> 2 * TREE_BASE" "height t = 0" "tree_items t = xs"
  | h ts where "t = Internal (Suc h) (summary_sum ops (map summary ts)) (map summary ts) ts"
      "ts \<noteq> []" "length ts \<le> 2 * TREE_BASE" "\<forall>t \<in> set ts. node_at ops h t" "Suc h < 256"
      "height t = Suc h" "tree_items t = concat (map tree_items ts)"
proof (cases t)
  case (Internal h s cs ts)
  with assms obtain h' where "h = Suc h'" by (cases ts) auto
  with Internal assms that(2) [of h' ts] show ?thesis by (auto simp: node_at_def)
next
  case (Leaf s xs ss)
  with assms that(1) show ?thesis by simp
qed

lemma wf_tree_height: "wf_tree ops t \<Longrightarrow> height t < 256"
  by (cases t) auto

lemma tree_items_nonempty: "wf_tree ops t \<Longrightarrow> \<not> tree_is_empty t \<Longrightarrow> tree_items t \<noteq> []"
proof (induction t)
  case (Internal h s cs ts)
  then show ?case by (cases ts) auto
qed simp

lemma tree_is_empty_iff: "wf_tree ops t \<Longrightarrow> tree_is_empty t \<longleftrightarrow> tree_items t = []"
  using tree_items_nonempty [of ops t] by (cases t) auto

lemma node_atD:
  assumes "node_at ops h t"
  shows "wf_tree ops t" "\<not> tree_is_empty t" "height t = h" "tree_items t \<noteq> []"
  using assms tree_items_nonempty by (auto simp: node_at_def)

lemma concat_items_nonempty:
  "ts \<noteq> [] \<Longrightarrow> \<forall>t \<in> set ts. node_at ops h t \<Longrightarrow> concat (map tree_items ts) \<noteq> []"
  by (cases ts) (auto dest: node_atD)

lemma node_at_leafI:
  "is \<noteq> [] \<Longrightarrow> length is \<le> 2 * TREE_BASE \<Longrightarrow> ss = map (item_summary ops) is \<Longrightarrow>
     s = summary_sum ops ss \<Longrightarrow> node_at ops 0 (Leaf s is ss)"
  by (simp add: node_at_def)

lemma node_at_internalI:
  "ts \<noteq> [] \<Longrightarrow> length ts \<le> 2 * TREE_BASE \<Longrightarrow> cs = map summary ts \<Longrightarrow> s = summary_sum ops cs \<Longrightarrow>
     Suc h < 256 \<Longrightarrow> \<forall>t \<in> set ts. node_at ops h t \<Longrightarrow> node_at ops (Suc h) (Internal (Suc h) s cs ts)"
  by (auto simp: node_at_def)

lemma node_at_InternalE:
  assumes "node_at ops h (Internal h0 s cs ts)"
  obtains k where "h = Suc k" "h0 = Suc k" "ts \<noteq> []" "length ts \<le> 2 * TREE_BASE" "\<forall>t \<in> set ts. node_at ops k t"
    "Suc k < 256" "cs = map summary ts" "s = summary_sum ops (map summary ts)"
proof -
  from assms have "h0 = h" "ts \<noteq> []" "\<forall>t \<in> set ts. Suc (height t) = h" by (auto simp: node_at_def)
  then obtain k where "h = Suc k" by (cases ts) auto
  with assms that show ?thesis by (auto simp: node_at_def)
qed

text \<open>
  The result of growing a node: the node itself, and a sibling of the same height when it
  had to split, which together hold the expected items in order.
\<close>

definition grown_right ::
  "('t, 's) item_ops \<Rightarrow> nat \<Rightarrow> 't list \<Rightarrow> ('t, 's) sum_tree \<times> ('t, 's) sum_tree option \<Rightarrow> bool" where
  "grown_right ops h xs res \<longleftrightarrow> (case res of
     (t, None) \<Rightarrow> node_at ops h t \<and> tree_items t = xs
   | (t, Some r) \<Rightarrow> node_at ops h t \<and> node_at ops h r \<and> tree_items t @ tree_items r = xs)"

definition grown_left ::
  "('t, 's) item_ops \<Rightarrow> nat \<Rightarrow> 't list \<Rightarrow> ('t, 's) sum_tree \<times> ('t, 's) sum_tree option \<Rightarrow> bool" where
  "grown_left ops h xs res \<longleftrightarrow> (case res of
     (t, None) \<Rightarrow> node_at ops h t \<and> tree_items t = xs
   | (t, Some l) \<Rightarrow> node_at ops h t \<and> node_at ops h l \<and> tree_items l @ tree_items t = xs)"

text \<open>Both midpoints used for splitting leave two non-empty halves that fit a node.\<close>

lemma split_point:
  assumes "2 * TREE_BASE < n" "n \<le> 4 * TREE_BASE"
    and "m = (n + n mod 2) div 2 \<or> m = (n + 1) div 2"
  shows "0 < m" "m < n" "m \<le> 2 * TREE_BASE" "n - m \<le> 2 * TREE_BASE"
proof -
  have m: "m = (n + 1) div 2" using assms(3) by presburger
  show "0 < m" "m < n" "m \<le> 2 * TREE_BASE" "n - m \<le> 2 * TREE_BASE"
    using assms(1,2) unfolding m by linarith+
qed

text \<open>What the children of a grown internal node are, before it is split.\<close>

definition appended_children ::
  "('t, 's) item_ops \<Rightarrow> nat \<Rightarrow> ('t, 's) sum_tree list \<Rightarrow> ('t, 's) sum_tree \<Rightarrow>
   's list \<times> ('t, 's) sum_tree list \<times> 's list \<times> ('t, 's) sum_tree list \<Rightarrow> bool" where
  "appended_children ops k ts other blk \<longleftrightarrow> (case blk of (cs1, ts1, ca, ta) \<Rightarrow>
     cs1 @ ca = map summary (ts1 @ ta) \<and> (\<forall>t \<in> set (ts1 @ ta). node_at ops k t) \<and>
     concat (map tree_items (ts1 @ ta)) = concat (map tree_items ts) @ tree_items other \<and>
     length (ts1 @ ta) \<le> 4 * TREE_BASE \<and> ts1 \<noteq> [])"

section \<open>Under the summary laws\<close>

locale summary_laws =
  fixes ops :: "('t, 's) item_ops"
  assumes lawful: "lawful_summary ops"
begin

lemma add_assoc: "s_add ops (s_add ops a b) c = s_add ops a (s_add ops b c)"
  and zero_add: "s_add ops (s_zero ops) a = a"
  using lawful by (simp_all add: lawful_summary_def)

lemma foldl_add: "foldl (s_add ops) (s_add ops a b) ss = s_add ops a (foldl (s_add ops) b ss)"
  by (induction ss arbitrary: b) (simp_all add: add_assoc)

lemma sum_Cons: "summary_sum ops (s # ss) = foldl (s_add ops) s ss"
  by (simp add: summary_sum_def zero_add)

lemma sum_append: "ys \<noteq> [] \<Longrightarrow> summary_sum ops (xs @ ys) = s_add ops (summary_sum ops xs) (summary_sum ops ys)"
  by (cases ys) (simp_all add: summary_sum_def zero_add foldl_add)

lemma sum_concat:
  "\<forall>xs \<in> set xss. xs \<noteq> [] \<Longrightarrow> summary_sum ops (map (summary_sum ops) xss) = summary_sum ops (concat xss)"
proof (induction xss rule: rev_induct)
  case (snoc xs xss)
  have "summary_sum ops (map (summary_sum ops) (xss @ [xs]))
      = s_add ops (summary_sum ops (map (summary_sum ops) xss)) (summary_sum ops xs)"
    by (simp add: summary_sum_def)
  with snoc show ?case by (simp add: sum_append)
qed simp

lemma sum_children_items:
  assumes "\<And>t. t \<in> set ts \<Longrightarrow> summary t = summary_sum ops (map (item_summary ops) (tree_items t))"
    and "\<And>t. t \<in> set ts \<Longrightarrow> tree_items t \<noteq> []"
  shows "summary_sum ops (map summary ts) = summary_sum ops (map (item_summary ops) (concat (map tree_items ts)))"
proof -
  let ?xss = "map (\<lambda>t. map (item_summary ops) (tree_items t)) ts"
  have "map summary ts = map (summary_sum ops) ?xss"
    using assms(1) by simp
  then have "summary_sum ops (map summary ts) = summary_sum ops (map (summary_sum ops) ?xss)"
    by (rule arg_cong)
  also have "\<dots> = summary_sum ops (concat ?xss)"
    using assms(2) by (intro sum_concat) auto
  also have "concat ?xss = map (item_summary ops) (concat (map tree_items ts))"
    by (simp add: map_concat comp_def)
  finally show ?thesis .
qed

lemma summary_items:
  "wf_tree ops t \<Longrightarrow> summary t = summary_sum ops (map (item_summary ops) (tree_items t))"
proof (induction t)
  case (Internal h s cs ts)
  then have "summary_sum ops (map summary ts) =
      summary_sum ops (map (item_summary ops) (concat (map tree_items ts)))"
    using tree_items_nonempty by (intro sum_children_items) auto
  with Internal.prems show ?case by simp
qed simp

lemma sum_children:
  assumes "\<forall>t \<in> set ts. node_at ops h t"
  shows "summary_sum ops (map summary ts) = summary_sum ops (map (item_summary ops) (concat (map tree_items ts)))"
  using assms node_atD(1,4) summary_items by (intro sum_children_items) blast+

lemma sum_items_append:
  assumes "wf_tree ops a" "wf_tree ops b" "\<not> tree_is_empty b"
  shows "s_add ops (summary a) (summary b) = summary_sum ops (map (item_summary ops) (tree_items a @ tree_items b))"
  using assms by (simp add: summary_items sum_append tree_items_nonempty)

subsection \<open>push_tree_recursive\<close>

lemma leaf_split:
  assumes n: "2 * TREE_BASE < length zs" "length zs \<le> 4 * TREE_BASE"
    and m: "m = (length zs + length zs mod 2) div 2 \<or> m = (length zs + 1) div 2"
    and f: "f = item_summary ops"
  shows "node_at ops 0 (Leaf (summary_sum ops (take m (map f zs))) (take m zs) (take m (map f zs)))"
    and "node_at ops 0 (Leaf (summary_sum ops (drop m (map f zs))) (drop m zs) (drop m (map f zs)))"
    and "length (take m zs) \<le> 2 * TREE_BASE" "length (drop m zs) \<le> 2 * TREE_BASE"
  using split_point [OF n m]
  by (auto simp: f take_map drop_map intro!: node_at_leafI)

lemma leaf_node_cases:
  assumes "node_at ops 0 t"
  obtains ys where "t = Leaf (summary_sum ops (map (item_summary ops) ys)) ys (map (item_summary ops) ys)"
      "length ys \<le> 2 * TREE_BASE" "ys \<noteq> []"
proof -
  from assms have "wf_tree ops t" "height t = 0" "\<not> tree_is_empty t" by (simp_all add: node_at_def)
  then show ?thesis by (cases rule: wf_tree_cases) (use that in auto)
qed

lemma internal_node_cases:
  assumes "node_at ops (Suc h) t"
  obtains ts where "t = Internal (Suc h) (summary_sum ops (map summary ts)) (map summary ts) ts"
      "ts \<noteq> []" "length ts \<le> 2 * TREE_BASE" "\<forall>t \<in> set ts. node_at ops h t" "Suc h < 256"
proof -
  from assms have "wf_tree ops t" "height t = Suc h" by (simp_all add: node_at_def)
  then show ?thesis by (cases rule: wf_tree_cases) (use that in auto)
qed

lemma push_leaf:
  assumes self: "node_at ops 0 self" and other: "node_at ops 0 other"
  shows "\<exists>res. push_tree_recursive ops self other = Some res \<and>
    grown_right ops 0 (tree_items self @ tree_items other) res"
proof -
  let ?f = "item_summary ops"
  obtain xs where x: "self = Leaf (summary_sum ops (map ?f xs)) xs (map ?f xs)"
      "length xs \<le> 2 * TREE_BASE" "xs \<noteq> []"
    using self by (rule leaf_node_cases)
  obtain ys where y: "other = Leaf (summary_sum ops (map ?f ys)) ys (map ?f ys)"
      "length ys \<le> 2 * TREE_BASE" "ys \<noteq> []"
    using other by (rule leaf_node_cases)
  let ?zs = "xs @ ys"
  let ?m = "(length ?zs + length ?zs mod 2) div 2"
  show ?thesis
  proof (cases "2 * TREE_BASE < length ?zs")
    case True
    have z: "length ?zs \<le> 4 * TREE_BASE" using x y by simp
    note sp = leaf_split [OF True z, of ?m, OF _ refl]
    have "push_tree_recursive ops self other =
        Some (Leaf (summary_sum ops (take ?m (map ?f ?zs))) (take ?m ?zs) (take ?m (map ?f ?zs)),
          Some (Leaf (summary_sum ops (drop ?m (map ?f ?zs))) (drop ?m ?zs) (drop ?m (map ?f ?zs))))"
      using True sp(3,4)
      by (simp add: x(1) y(1) Let_def del: take_append drop_append flip: map_append)
    then show ?thesis
      using sp(1,2) by (auto simp: x(1) y(1) grown_right_def simp del: take_append drop_append)
  next
    case False
    then have "push_tree_recursive ops self other =
        Some (Leaf (summary_sum ops (map ?f ?zs)) ?zs (map ?f ?zs), None)"
      using x y by (simp add: sum_append)
    with False x y show ?thesis
      by (auto simp: grown_right_def intro!: node_at_leafI)
  qed
qed

lemma internal_split:
  assumes kids: "\<forall>t \<in> set ks. node_at ops h t" "Suc h < 256"
    and n: "2 * TREE_BASE < length ks" "length ks \<le> 4 * TREE_BASE"
    and m: "m = (length ks + length ks mod 2) div 2 \<or> m = (length ks + 1) div 2"
  shows "node_at ops (Suc h) (Internal (Suc h) (summary_sum ops (take m (map summary ks))) (take m (map summary ks)) (take m ks))"
    and "node_at ops (Suc h) (Internal (Suc h) (summary_sum ops (drop m (map summary ks))) (drop m (map summary ks)) (drop m ks))"
    and "length (take m ks) \<le> 2 * TREE_BASE" "length (drop m ks) \<le> 2 * TREE_BASE"
  using kids split_point [OF n m]
  by (auto simp: take_map drop_map dest: in_set_takeD in_set_dropD intro!: node_at_internalI)

lemma appended_children_last:
  assumes ts: "ts \<noteq> []" "length ts \<le> 2 * TREE_BASE" "\<forall>t \<in> set ts. node_at ops k t"
    and r: "grown_right ops k (tree_items (last ts) @ tree_items other) (last', split)"
  shows "appended_children ops k ts other
    (case split of
       None \<Rightarrow> (butlast (map summary ts) @ [summary last'], butlast ts @ [last'], [], [])
     | Some t \<Rightarrow> (butlast (map summary ts) @ [summary last'], butlast ts @ [last'], [summary t], [t]))"
  using assms
  by (cases ts rule: rev_cases)
    (auto simp: appended_children_def grown_right_def TREE_BASE_def split: option.splits)

lemma push_internal:
  assumes ts: "ts \<noteq> []" "length ts \<le> 2 * TREE_BASE" "\<forall>t \<in> set ts. node_at ops k t" "Suc k < 256"
    and other: "node_at ops h' other" "h' \<le> Suc k"
    and IH: "h' \<le> k \<Longrightarrow> \<exists>res. push_tree_recursive ops (last ts) other = Some res \<and>
        grown_right ops k (tree_items (last ts) @ tree_items other) res"
  shows "\<exists>res. push_tree_recursive ops
      (Internal (Suc k) (summary_sum ops (map summary ts)) (map summary ts) ts) other = Some res \<and>
    grown_right ops (Suc k) (concat (map tree_items ts) @ tree_items other) res"
proof -
  let ?xs = "concat (map tree_items ts) @ tree_items other"
  let ?cs = "map summary ts"
  obtain cs1 ts1 ca ta where blk:
    "(if u8_sub (Suc k) (height other) = 0 then do {
        ots \<leftarrow> child_trees other;
        ca \<leftarrow> array_vec (child_summaries other);
        ta \<leftarrow> array_vec ots;
        Some (?cs, ts, ca, ta)
      }
      else if u8_sub (Suc k) (height other) = 1 \<and> \<not> is_underflowing other then
        Some (?cs, ts, [summary other], [other])
      else if ts = [] then None
      else do {
        (last', split) \<leftarrow> push_tree_recursive ops (last ts) other;
        rust_assert (?cs \<noteq> []);
        let cs1 = butlast ?cs @ [summary last'];
        let ts1 = butlast ts @ [last'];
        case split of
          None \<Rightarrow> Some (cs1, ts1, [], [])
        | Some split_tree \<Rightarrow> Some (cs1, ts1, [summary split_tree], [split_tree])
      }) = Some (cs1, ts1, ca, ta)"
    and ac: "appended_children ops k ts other (cs1, ts1, ca, ta)"
  proof -
    consider (eq) "h' = Suc k" | (sub) "h' = k" "\<not> is_underflowing other"
      | (rec) "h' \<le> k" "h' = k \<longrightarrow> is_underflowing other"
      using other(2) by fastforce
    then show ?thesis
    proof cases
      case eq
      with other obtain ots where "other = Internal (Suc k) (summary_sum ops (map summary ots)) (map summary ots) ots"
          "length ots \<le> 2 * TREE_BASE" "\<forall>t \<in> set ots. node_at ops k t"
        by (auto elim: internal_node_cases)
      with ts show ?thesis
        by (intro that [of ?cs ts "map summary ots" ots]) (auto simp: appended_children_def)
    next
      case sub
      with ts other show ?thesis
        by (intro that [of ?cs ts "[summary other]" "[other]"])
          (auto simp: appended_children_def TREE_BASE_def node_atD)
    next
      case rec
      with IH obtain last' split where
        r: "push_tree_recursive ops (last ts) other = Some (last', split)"
          "grown_right ops k (tree_items (last ts) @ tree_items other) (last', split)"
        by fastforce
      have ne: "u8_sub (Suc k) (height other) \<noteq> 0" "u8_sub (Suc k) (height other) = 1 \<longrightarrow> is_underflowing other"
        using rec other ts by (auto simp: node_atD)
      show ?thesis
        using appended_children_last [OF ts(1-3) r(2)] r(1) ne ts(1) that
        by (cases split) auto
    qed
  qed
  let ?ks = "ts1 @ ta"
  let ?m = "(length ?ks + length ?ks mod 2) div 2"
  from ac have ks: "cs1 @ ca = map summary ?ks" "\<forall>t \<in> set ?ks. node_at ops k t"
      "concat (map tree_items ?ks) = ?xs" "length ?ks \<le> 4 * TREE_BASE" "ts1 \<noteq> []"
    by (simp_all add: appended_children_def)
  show ?thesis
  proof (cases "2 * TREE_BASE < length ?ks")
    case True
    note sp = internal_split [OF ks(2) ts(4) True ks(4), of ?m, OF disjI1 [OF refl]]
    have "push_tree_recursive ops (Internal (Suc k) (summary_sum ops ?cs) ?cs ts) other = Some
       (Internal (Suc k) (summary_sum ops (take ?m (map summary ?ks))) (take ?m (map summary ?ks)) (take ?m ?ks),
        Some (Internal (Suc k) (summary_sum ops (drop ?m (map summary ?ks))) (drop ?m (map summary ?ks)) (drop ?m ?ks)))"
      using True sp(3,4) unfolding push_tree_recursive.simps(1) Let_def blk [unfolded Let_def]
      by (simp add: ks(1) del: map_append take_append drop_append)
    then show ?thesis
      using sp(1,2) ks(3)
      by (auto simp: grown_right_def simp del: take_append drop_append simp flip: concat_append map_append)
  next
    case False
    have s': "s_add ops (summary_sum ops ?cs) (summary other) = summary_sum ops (map summary ?ks)"
      unfolding sum_children [OF ks(2)] sum_children [OF ts(3)] ks(3)
      using other by (simp add: summary_items node_atD sum_append)
    have "push_tree_recursive ops (Internal (Suc k) (summary_sum ops ?cs) ?cs ts) other =
       Some (Internal (Suc k) (summary_sum ops (map summary ?ks)) (map summary ?ks) ?ks, None)"
      using False unfolding push_tree_recursive.simps(1) Let_def blk [unfolded Let_def]
      by (simp add: ks(1) s' del: map_append)
    with False ks ts(4) show ?thesis
      by (auto simp: grown_right_def intro!: node_at_internalI)
  qed
qed

lemma push_tree_recursive_grown:
  "node_at ops h self \<Longrightarrow> node_at ops h' other \<Longrightarrow> h' \<le> h \<Longrightarrow>
     \<exists>res. push_tree_recursive ops self other = Some res \<and>
       grown_right ops h (tree_items self @ tree_items other) res"
proof (induction self arbitrary: h)
  case (Leaf s xs ss)
  then show ?case using push_leaf [of "Leaf s xs ss" other] by (auto simp: node_at_def)
next
  case (Internal h0 s cs ts)
  from Internal.prems(1) obtain k where k: "h = Suc k" "h0 = Suc k"
    and ts: "ts \<noteq> []" "length ts \<le> 2 * TREE_BASE" "\<forall>t \<in> set ts. node_at ops k t"
      "Suc k < 256" "cs = map summary ts" "s = summary_sum ops (map summary ts)"
    by (rule node_at_InternalE)
  have "\<exists>res. push_tree_recursive ops (last ts) other = Some res \<and>
      grown_right ops k (tree_items (last ts) @ tree_items other) res" if "h' \<le> k"
    using Internal.IH [of "last ts" k] Internal.prems ts that by simp
  from push_internal [OF ts(1-4) Internal.prems(2) _ this] Internal.prems(3) k ts(5,6) show ?case
    by simp
qed

subsection \<open>append_large\<close>

lemma merge_into_right_grown:
  assumes small: "node_at ops h small" and large: "node_at ops h large" and u: "is_underflowing small"
  shows "\<exists>res. merge_into_right ops small large = Some res \<and>
    grown_left ops h (tree_items small @ tree_items large) res"
proof (cases h)
  case 0
  let ?f = "item_summary ops"
  obtain xs where x: "small = Leaf (summary_sum ops (map ?f xs)) xs (map ?f xs)"
      "length xs \<le> 2 * TREE_BASE" "xs \<noteq> []"
    using small 0 leaf_node_cases by blast
  obtain ys where y: "large = Leaf (summary_sum ops (map ?f ys)) ys (map ?f ys)"
      "length ys \<le> 2 * TREE_BASE" "ys \<noteq> []"
    using large 0 leaf_node_cases by blast
  let ?zs = "xs @ ys"
  let ?m = "(length ?zs + 1) div 2"
  show ?thesis
  proof (cases "2 * TREE_BASE < length ?zs")
    case True
    have z: "length ?zs \<le> 4 * TREE_BASE" using x y by simp
    note sp = leaf_split [OF True z, of ?m, OF _ refl]
    have "merge_into_right ops small large =
        Some (Leaf (summary_sum ops (drop ?m (map ?f ?zs))) (drop ?m ?zs) (drop ?m (map ?f ?zs)),
          Some (Leaf (summary_sum ops (take ?m (map ?f ?zs))) (take ?m ?zs) (take ?m (map ?f ?zs))))"
      using True sp(3,4)
      by (simp add: x(1) y(1) Let_def del: take_append drop_append flip: map_append)
    then show ?thesis
      using sp(1,2) 0 by (auto simp: x(1) y(1) grown_left_def simp del: take_append drop_append)
  next
    case False
    then have "merge_into_right ops small large =
        Some (Leaf (summary_sum ops (map ?f ?zs)) ?zs (map ?f ?zs), None)"
      using x y by (simp add: sum_append)
    with False x y 0 show ?thesis
      by (auto simp: grown_left_def intro!: node_at_leafI)
  qed
next
  case (Suc k)
  obtain xs where x: "small = Internal (Suc k) (summary_sum ops (map summary xs)) (map summary xs) xs"
      "length xs \<le> 2 * TREE_BASE" "xs \<noteq> []" "\<forall>t \<in> set xs. node_at ops k t" "Suc k < 256"
    using small Suc internal_node_cases by blast
  obtain ys where y: "large = Internal (Suc k) (summary_sum ops (map summary ys)) (map summary ys) ys"
      "length ys \<le> 2 * TREE_BASE" "ys \<noteq> []" "\<forall>t \<in> set ys. node_at ops k t"
    using large Suc internal_node_cases by blast
  let ?zs = "xs @ ys"
  let ?m = "(length ?zs + 1) div 2"
  have z: "length ?zs \<le> 4 * TREE_BASE" "\<forall>t \<in> set ?zs. node_at ops k t" using x y by auto
  show ?thesis
  proof (cases "2 * TREE_BASE < length ?zs")
    case True
    note sp = internal_split [OF z(2) x(5) True z(1), of ?m, OF disjI2 [OF refl]]
    have "merge_into_right ops small large = Some
       (Internal (Suc k) (summary_sum ops (drop ?m (map summary ?zs))) (drop ?m (map summary ?zs)) (drop ?m ?zs),
        Some (Internal (Suc k) (summary_sum ops (take ?m (map summary ?zs))) (take ?m (map summary ?zs)) (take ?m ?zs)))"
      using True sp(3,4)
      by (simp add: x(1) y(1) Let_def add.commute del: take_append drop_append flip: map_append)
    then show ?thesis
      using sp(1,2) Suc
      by (auto simp: x(1) y(1) grown_left_def simp del: take_append drop_append simp flip: concat_append map_append)
  next
    case False
    then have "merge_into_right ops small large =
       Some (Internal (Suc k) (summary_sum ops (map summary ?zs)) (map summary ?zs) ?zs, None)"
      using x y by (simp add: sum_append add.commute)
    with False x y Suc show ?thesis
      by (auto simp: grown_left_def intro!: node_at_internalI)
  qed
qed

lemma append_large_internal:
  assumes ts: "length (first # rest) \<le> 2 * TREE_BASE" "\<forall>t \<in> set (first # rest). node_at ops k t" "Suc k < 256"
    and small: "node_at ops h' small" "h' < Suc k"
    and rec: "append_large ops small first = Some res" "grown_left ops k (tree_items small @ tree_items first) res"
  shows "\<exists>res. append_large ops small
      (Internal (Suc k) (summary_sum ops (map summary (first # rest))) (map summary (first # rest)) (first # rest)) = Some res \<and>
    grown_left ops (Suc k) (tree_items small @ concat (map tree_items (first # rest))) res"
proof -
  obtain first' r where res: "res = (first', r)" by (cases res)
  have full: "s_add ops (summary small) (summary_sum ops (map summary (first # rest))) = summary_sum ops (map summary ks)"
    if "\<forall>t \<in> set ks. node_at ops k t"
      "concat (map tree_items ks) = tree_items small @ concat (map tree_items (first # rest))" for ks
    unfolding sum_children [OF that(1)] sum_children [OF ts(2)] that(2) map_append
    using small ts(2) concat_items_nonempty [of "first # rest" ops k]
    by (simp add: summary_items node_atD sum_append del: concat.simps)
  have h: "height small \<noteq> Suc k" using small by (simp add: node_atD)
  show ?thesis
  proof (cases r)
    case None
    with rec res have f: "node_at ops k first'" "tree_items first' = tree_items small @ tree_items first"
      by (simp_all add: grown_left_def)
    with ts full [of "first' # rest"] h rec res None show ?thesis
      by (auto simp: grown_left_def intro!: node_at_internalI)
  next
    case (Some tree)
    with rec res have f: "node_at ops k first'" "node_at ops k tree"
        "tree_items tree @ tree_items first' = tree_items small @ tree_items first"
      by (simp_all add: grown_left_def)
    let ?ks = "tree # first' # rest"
    have ks: "\<forall>t \<in> set ?ks. node_at ops k t" using f ts by simp
    have items: "concat (map tree_items ?ks) = tree_items small @ concat (map tree_items (first # rest))"
      using f(3) by (simp flip: append_assoc)
    show ?thesis
    proof (cases "Suc (length rest) < 2 * TREE_BASE")
      case True
      with h rec res Some have "append_large ops small
          (Internal (Suc k) (summary_sum ops (map summary (first # rest))) (map summary (first # rest)) (first # rest))
        = Some (Internal (Suc k) (summary_sum ops (map summary ?ks)) (map summary ?ks) ?ks, None)"
        using full [OF ks items] by (simp add: Let_def)
      with True ks ts(3) items show ?thesis
        by (auto simp: grown_left_def intro!: node_at_internalI)
    next
      case False
      let ?l = "take (Suc TREE_BASE) ?ks" and ?r = "drop (Suc TREE_BASE) ?ks"
      have l: "length ?l \<le> 2 * TREE_BASE" "?l \<noteq> []" "length ?r \<le> 2 * TREE_BASE" "?r \<noteq> []"
        using False ts(1) by (auto simp: TREE_BASE_def)
      have kid: "\<forall>t \<in> set ?l. node_at ops k t" "\<forall>t \<in> set ?r. node_at ops k t"
        using ks by (meson in_set_takeD in_set_dropD)+
      have "append_large ops small
          (Internal (Suc k) (summary_sum ops (map summary (first # rest))) (map summary (first # rest)) (first # rest))
        = Some (Internal (Suc k) (summary_sum ops (map summary ?r)) (map summary ?r) ?r,
            Some (Internal (Suc k) (summary_sum ops (map summary ?l)) (map summary ?l) ?l))"
        using False h rec res Some ts(1) by (simp add: Let_def take_map drop_map TREE_BASE_def)
      moreover have "concat (map tree_items ?l) @ concat (map tree_items ?r) = concat (map tree_items ?ks)"
        by (simp only: map_append [symmetric] concat_append [symmetric] append_take_drop_id)
      ultimately show ?thesis
        using l kid ts(3) items
        by (auto simp: grown_left_def simp del: take_Suc_Cons drop_Suc_Cons intro!: node_at_internalI)
    qed
  qed
qed

lemma append_large_grown:
  "node_at ops h large \<Longrightarrow> node_at ops h' small \<Longrightarrow> h' \<le> h \<Longrightarrow>
     \<exists>res. append_large ops small large = Some res \<and>
       grown_left ops h (tree_items small @ tree_items large) res"
proof (induction large arbitrary: h)
  case (Leaf s xs ss)
  then have "height small = 0" "h = 0" "h' = 0" by (auto simp: node_at_def)
  with Leaf merge_into_right_grown [of 0 small "Leaf s xs ss"] show ?case
    by (auto simp: grown_left_def)
next
  case (Internal h0 s cs ts)
  from Internal.prems(1) obtain k where k: "h = Suc k" "h0 = Suc k"
    and ts: "ts \<noteq> []" "length ts \<le> 2 * TREE_BASE" "\<forall>t \<in> set ts. node_at ops k t"
      "Suc k < 256" "cs = map summary ts" "s = summary_sum ops (map summary ts)"
    by (rule node_at_InternalE)
  show ?case
  proof (cases "h' = Suc k")
    case True
    with Internal.prems k merge_into_right_grown [of "Suc k" small "Internal h0 s cs ts"] show ?thesis
      by (auto simp: grown_left_def node_atD(3))
  next
    case False
    obtain first rest where fr: "ts = first # rest" using ts(1) by (cases ts) auto
    with Internal.IH [of first k] Internal.prems ts False k obtain res where
      "append_large ops small first = Some res" "grown_left ops k (tree_items small @ tree_items first) res"
      by auto
    from append_large_internal [OF _ _ ts(4) Internal.prems(2) _ this, of rest] ts fr False k Internal.prems(3)
    show ?thesis by (simp del: append_large.simps)
  qed
qed

subsection \<open>append\<close>

lemma from_child_trees_wf:
  assumes "node_at ops h l" "node_at ops h r" "h < 255"
  shows "\<exists>t. from_child_trees ops l r = Some t \<and> node_at ops (Suc h) t \<and> tree_items t = tree_items l @ tree_items r"
  using assms
  by (auto simp: from_child_trees_def TREE_BASE_def array_vec_def node_atD(3) intro!: node_at_internalI)

theorem append_correct:
  assumes wf: "wf_tree ops a" "wf_tree ops b" and h: "height a < 255" "height b < 255"
  shows "\<exists>t. tree_append ops a b = Some t \<and> wf_tree ops t \<and>
    tree_items t = tree_items a @ tree_items b \<and> height t \<le> Suc (max (height a) (height b))"
proof -
  consider "tree_is_empty a" | "\<not> tree_is_empty a" "tree_is_empty b"
    | "\<not> tree_is_empty a" "\<not> tree_is_empty b" by blast
  then show ?thesis
  proof cases
    case 1
    with wf show ?thesis by (simp add: tree_append_def tree_is_empty_iff)
  next
    case 2
    then have "is_leaf b" "node_items b = Some []" "tree_items b = []" by (cases b; simp)+
    with 2 wf show ?thesis by (simp add: tree_append_def)
  next
    case 3
    then have g: "\<not> is_leaf b \<or> node_items b \<noteq> Some []" by (cases b) auto
    have n: "node_at ops (height a) a" "node_at ops (height b) b" using 3 wf by (simp_all add: node_at_def)
    show ?thesis
    proof (cases "height a < height b")
      case True
      with append_large_grown [OF n(2,1)] obtain t r where
        r: "append_large ops a b = Some (t, r)" "grown_left ops (height b) (tree_items a @ tree_items b) (t, r)"
        by auto
      show ?thesis
        using from_child_trees_wf [of "height b" "the r" t] r h True 3 g
        by (cases r) (auto simp: tree_append_def grown_left_def node_at_def)
    next
      case False
      with push_tree_recursive_grown [OF n] obtain t r where
        r: "push_tree_recursive ops a b = Some (t, r)" "grown_right ops (height a) (tree_items a @ tree_items b) (t, r)"
        by auto
      show ?thesis
        using from_child_trees_wf [of "height a" t "the r"] r h False 3 g
        by (cases r) (auto simp: tree_append_def grown_right_def node_at_def)
    qed
  qed
qed

end

lemma set_chunks_node:
  assumes "\<forall>t \<in> set nodes. node_at ops h t" "Suc h < 256" "c \<in> set (chunks (2 * TREE_BASE) nodes)"
  shows "node_at ops (Suc h) (parent_node ops (Suc h) c)"
  using assms set_chunks [OF assms(3)] by (auto simp: parent_node_def intro!: node_at_internalI)

context summary_laws begin

subsection \<open>Construction from a sequence\<close>

lemma from_iter_leaves_eq:
  "from_iter_leaves ops xs = Some (map (\<lambda>c. Leaf (summary_sum ops (map (item_summary ops) c)) c (map (item_summary ops) c))
     (chunks (2 * TREE_BASE) xs))"
proof (induction xs rule: length_induct)
  case (1 xs)
  show ?case
  proof (cases "xs = []")
    case True
    then show ?thesis by (simp add: from_iter_leaves.simps)
  next
    case False
    have "leaf_of_items ops (take (2 * TREE_BASE) xs) = Some
        (let c = take (2 * TREE_BASE) xs in Leaf (summary_sum ops (map (item_summary ops) c)) c (map (item_summary ops) c))"
      using False by (cases xs) (simp_all add: leaf_of_items_def sum_Cons TREE_BASE_def array_vec_def)
    with False 1 [rule_format, of "drop (2 * TREE_BASE) xs"] show ?thesis
      by (simp add: from_iter_leaves.simps [of ops xs] chunks_rec Let_def)
  qed
qed

lemma from_iter_loop_correct:
  assumes "\<forall>t \<in> set nodes. node_at ops h t" "length nodes \<le> (2 * TREE_BASE) ^ j" "h + j < 256"
  shows "\<exists>ns. from_iter_loop ops h nodes = Some ns \<and> length ns \<le> 1 \<and> (ns = [] \<longleftrightarrow> nodes = []) \<and>
    concat (map tree_items ns) = concat (map tree_items nodes) \<and>
    (\<forall>t \<in> set ns. \<exists>h' \<le> h + j. node_at ops h' t)"
  using assms
proof (induction j arbitrary: h nodes)
  case 0
  then show ?case
    by (subst from_iter_loop.simps) (auto intro!: exI [of _ h])
next
  case (Suc j)
  show ?case
  proof (cases "1 < length nodes")
    case False
    with Suc.prems show ?thesis
      by (subst from_iter_loop.simps) (auto intro!: exI [of _ h])
  next
    case True
    let ?ps = "map (parent_node ops (Suc h)) (chunks (2 * TREE_BASE) nodes)"
    have "length ?ps \<le> (2 * TREE_BASE) ^ j"
      using Suc.prems(2) length_chunks_le [of nodes "(2 * TREE_BASE) ^ j" "2 * TREE_BASE"]
      by (simp add: mult.commute)
    moreover have "\<forall>t \<in> set ?ps. node_at ops (Suc h) t"
      using Suc.prems set_chunks_node [of nodes ops h] by auto
    ultimately obtain ns where ns: "from_iter_loop ops (Suc h) ?ps = Some ns" "length ns \<le> 1" "ns = [] \<longleftrightarrow> ?ps = []"
        "concat (map tree_items ns) = concat (map tree_items ?ps)" "\<forall>t \<in> set ns. \<exists>h' \<le> Suc h + j. node_at ops h' t"
      using Suc.IH [of ?ps "Suc h"] Suc.prems(3) by auto
    have "concat (map tree_items ?ps) = concat (map tree_items (concat (chunks (2 * TREE_BASE) nodes)))"
      by (simp add: parent_node_def comp_def map_concat concat_map_concat)
    also have "\<dots> = concat (map tree_items nodes)"
      by (simp add: concat_chunks)
    finally have it: "concat (map tree_items ?ps) = concat (map tree_items nodes)" .
    have "nodes \<noteq> []" using True by auto
    then have "?ps \<noteq> []" by (simp add: chunks_rec)
    with ns it True Suc.prems(3) show ?thesis
      by (subst from_iter_loop.simps) (auto simp: from_iter_parents_eq)
  qed
qed

lemma from_iter_correct:
  assumes "length xs \<le> (2 * TREE_BASE) ^ Suc j" "j < 256"
  shows "\<exists>t. from_iter ops xs = Some t \<and> wf_tree ops t \<and> tree_items t = xs \<and> height t \<le> j"
proof -
  let ?ls = "map (\<lambda>c. Leaf (summary_sum ops (map (item_summary ops) c)) c (map (item_summary ops) c))
     (chunks (2 * TREE_BASE) xs)"
  have "\<forall>t \<in> set ?ls. node_at ops 0 t"
    using set_chunks [of _ "2 * TREE_BASE" xs] by (auto intro!: node_at_leafI)
  moreover have "length ?ls \<le> (2 * TREE_BASE) ^ j"
    using assms length_chunks_le [of xs "(2 * TREE_BASE) ^ j" "2 * TREE_BASE"] by (simp add: mult.commute)
  ultimately obtain ns where ns: "from_iter_loop ops 0 ?ls = Some ns" "length ns \<le> 1" "ns = [] \<longleftrightarrow> ?ls = []"
      "concat (map tree_items ns) = concat (map tree_items ?ls)" "\<forall>t \<in> set ns. \<exists>h' \<le> j. node_at ops h' t"
    using from_iter_loop_correct [of ?ls 0 j] assms by auto
  have "concat (map tree_items ?ls) = xs"
    by (simp add: comp_def concat_chunks)
  with ns show ?thesis
    by (cases ns) (auto simp: from_iter_def from_iter_leaves_eq tree_new_def summary_sum_def node_at_def)
qed

lemma node_of_children_eq:
  "ts \<noteq> [] \<Longrightarrow> length ts \<le> 2 * TREE_BASE \<Longrightarrow> node_of_children ops h ts = Some (parent_node ops h ts)"
  by (cases ts) (simp_all add: node_of_children_def parent_node_def sum_Cons)

lemma from_par_iter_loop_eq: "from_par_iter_loop ops h nodes = from_iter_loop ops h nodes"
proof (induction nodes arbitrary: h rule: length_induct)
  case (1 nodes)
  have "map_opt (node_of_children ops (u8_succ h)) (chunks (2 * TREE_BASE) nodes) =
      from_iter_parents ops (u8_succ h) [] None nodes"
    using set_chunks [of _ "2 * TREE_BASE" nodes]
    by (simp add: from_iter_parents_eq map_opt_eq node_of_children_eq)
  with 1 show ?case
    by (subst from_par_iter_loop.simps, subst from_iter_loop.simps)
      (simp add: from_iter_parents_eq chunks_shorter TREE_BASE_def)
qed

lemma from_par_iter_eq: "from_par_iter ops xs = from_iter ops xs"
proof -
  have "map_opt (leaf_of_items ops) (chunks (2 * TREE_BASE) xs) = from_iter_leaves ops xs"
    unfolding from_iter_leaves_eq
  proof (rule map_opt_eq)
    fix c assume "c \<in> set (chunks (2 * TREE_BASE) xs)"
    then have "c \<noteq> []" "length c \<le> 2 * TREE_BASE" using set_chunks by blast+
    then show "leaf_of_items ops c = Some (Leaf (summary_sum ops (map (item_summary ops) c)) c (map (item_summary ops) c))"
      by (cases c) (simp_all add: leaf_of_items_def sum_Cons)
  qed
  then show ?thesis
    by (simp add: from_par_iter_def from_iter_def from_par_iter_loop_eq)
qed

lemma push_correct:
  assumes "wf_tree ops t" "height t < 255"
  shows "\<exists>t'. tree_push ops x t = Some t' \<and> wf_tree ops t' \<and> tree_items t' = tree_items t @ [x] \<and> height t' \<le> Suc (height t)"
proof -
  have "wf_tree ops (Leaf (item_summary ops x) [x] [item_summary ops x])"
    by (simp add: summary_sum_def zero_add TREE_BASE_def)
  from append_correct [OF assms(1) this assms(2)] show ?thesis
    by (simp add: tree_push_def)
qed

lemma extend_correct:
  assumes "wf_tree ops t" "height t < 255" "length xs \<le> (2 * TREE_BASE) ^ Suc j" "j < 255"
  shows "\<exists>t'. tree_extend ops xs t = Some t' \<and> wf_tree ops t' \<and> tree_items t' = tree_items t @ xs
    \<and> height t' \<le> Suc (max (height t) j)"
proof -
  obtain o' where o: "from_iter ops xs = Some o'" "wf_tree ops o'" "tree_items o' = xs" "height o' \<le> j"
    using from_iter_correct [OF assms(3)] assms(4) by auto
  with append_correct [OF assms(1) o(2) assms(2)] assms(4) show ?thesis
    by (fastforce simp: tree_extend_def)
qed

subsection \<open>The two ends\<close>

lemma leftmost_leaf_wf:
  "wf_tree ops t \<Longrightarrow> \<exists>leaf xs. leftmost_leaf t = Some leaf \<and> node_items leaf = Some xs \<and>
     first_opt xs = first_opt (tree_items t) \<and> is_leaf leaf \<and> (\<not> tree_is_empty t \<longrightarrow> xs \<noteq> [])"
proof (induction t)
  case (Internal h s cs ts)
  then obtain t rest where t: "ts = t # rest" "wf_tree ops t" "\<not> tree_is_empty t" by (cases ts) auto
  with Internal.IH [of t] obtain leaf xs where "leftmost_leaf t = Some leaf" "node_items leaf = Some xs"
      "first_opt xs = first_opt (tree_items t)" "is_leaf leaf" "xs \<noteq> []"
    by auto
  with t tree_items_nonempty [of ops t] show ?case
    by (auto simp: first_opt_append split: option.splits) (cases "tree_items t"; simp)
qed auto

lemma rightmost_leaf_wf:
  "wf_tree ops t \<Longrightarrow> \<exists>leaf xs. rightmost_leaf t = Some leaf \<and> node_items leaf = Some xs \<and>
     last_opt xs = last_opt (tree_items t) \<and> is_leaf leaf \<and> child_summaries leaf = map (item_summary ops) xs \<and>
     (\<not> tree_is_empty t \<longrightarrow> xs \<noteq> [])"
proof (induction t)
  case (Internal h s cs ts)
  then obtain t rest where t: "ts = rest @ [t]" "wf_tree ops t" "\<not> tree_is_empty t"
    by (cases ts rule: rev_cases) auto
  with Internal.IH [of t] obtain leaf xs where "rightmost_leaf t = Some leaf" "node_items leaf = Some xs"
      "last_opt xs = last_opt (tree_items t)" "is_leaf leaf" "child_summaries leaf = map (item_summary ops) xs" "xs \<noteq> []"
    by auto
  with t tree_items_nonempty [of ops t] show ?case
    by (auto simp: last_opt_append last_opt_def)
qed auto

lemma tree_first_correct: "wf_tree ops t \<Longrightarrow> tree_first t = Some (first_opt (tree_items t))"
  using leftmost_leaf_wf [of t] by (auto simp: tree_first_def)

lemma tree_last_correct: "wf_tree ops t \<Longrightarrow> tree_last t = Some (last_opt (tree_items t))"
  using rightmost_leaf_wf [of t] by (auto simp: tree_last_def)

lemma tree_last_summary_correct:
  "wf_tree ops t \<Longrightarrow> tree_last_summary t = Some (map_option (item_summary ops) (last_opt (tree_items t)))"
  using rightmost_leaf_wf [of t] by (auto simp: tree_last_summary_def last_opt_def last_map split: if_splits)

lemma update_last_recursive_correct:
  "node_at ops h t \<Longrightarrow> \<exists>t'. update_last_recursive ops f t = Some (t', Some (summary t')) \<and> node_at ops h t' \<and>
     tree_items t' = butlast (tree_items t) @ [f (last (tree_items t))]"
proof (induction t arbitrary: h)
  case (Leaf s xs ss)
  then show ?case
    by (cases xs rule: rev_cases) (auto simp: node_at_def Let_def)
next
  case (Internal h0 s cs ts)
  from Internal.prems obtain k rest t where k: "h = Suc k" "h0 = Suc k"
    and t: "ts = rest @ [t]" "\<forall>t \<in> set ts. node_at ops k t" "length ts \<le> 2 * TREE_BASE"
      "Suc k < 256" "cs = map summary ts"
    by (elim node_at_InternalE) (cases ts rule: rev_cases; auto)
  with Internal.IH [of t k] obtain t' where
    "update_last_recursive ops f t = Some (t', Some (summary t'))" "node_at ops k t'"
    "tree_items t' = butlast (tree_items t) @ [f (last (tree_items t))]" "tree_items t \<noteq> []"
    by (auto dest: node_atD)
  with t k show ?case
    by (auto simp: Let_def butlast_append intro!: node_at_internalI)
qed

lemma update_first_recursive_correct:
  "node_at ops h t \<Longrightarrow> \<exists>t'. update_first_recursive ops f t = Some (t', Some (summary t')) \<and> node_at ops h t' \<and>
     tree_items t' = f (hd (tree_items t)) # tl (tree_items t)"
proof (induction t arbitrary: h)
  case (Leaf s xs ss)
  then show ?case
    by (cases xs) (auto simp: node_at_def Let_def)
next
  case (Internal h0 s cs ts)
  from Internal.prems obtain k rest t where k: "h = Suc k" "h0 = Suc k"
    and t: "ts = t # rest" "\<forall>t \<in> set ts. node_at ops k t" "length ts \<le> 2 * TREE_BASE"
      "Suc k < 256" "cs = map summary ts"
    by (elim node_at_InternalE) (cases ts; auto)
  with Internal.IH [of t k] obtain t' where
    "update_first_recursive ops f t = Some (t', Some (summary t'))" "node_at ops k t'"
    "tree_items t' = f (hd (tree_items t)) # tl (tree_items t)" "tree_items t \<noteq> []"
    by (auto dest: node_atD)
  with t k show ?case
    by (auto simp: Let_def hd_append tl_append intro!: node_at_internalI split: list.splits)
qed

lemma update_last_correct:
  assumes "wf_tree ops t"
  shows "\<exists>t'. update_last ops f t = Some t' \<and> wf_tree ops t' \<and> height t' = height t \<and>
    tree_items t' = (if tree_items t = [] then [] else butlast (tree_items t) @ [f (last (tree_items t))])"
proof (cases "tree_is_empty t")
  case True
  then obtain s ss where "t = Leaf s [] ss" by (cases t) auto
  with assms show ?thesis by (simp add: update_last_def)
next
  case False
  with assms update_last_recursive_correct [of "height t" t f] show ?thesis
    by (auto simp: update_last_def node_at_def tree_is_empty_iff)
qed

lemma update_first_correct:
  assumes "wf_tree ops t"
  shows "\<exists>t'. update_first ops f t = Some t' \<and> wf_tree ops t' \<and> height t' = height t \<and>
    tree_items t' = (case tree_items t of [] \<Rightarrow> [] | x # xs \<Rightarrow> f x # xs)"
proof (cases "tree_is_empty t")
  case True
  then obtain s ss where "t = Leaf s [] ss" by (cases t) auto
  with assms show ?thesis by (simp add: update_first_def)
next
  case False
  with assms update_first_recursive_correct [of "height t" t f] show ?thesis
    by (auto simp: update_first_def node_at_def tree_is_empty_iff split: list.splits)
qed

end

end
