(* ===== verification/Tree_Search.thy ===== *)
theory Tree_Search
  imports Sum_Tree_Props
begin

text \<open>
  Searching a tree along a dimension. The positions a cursor can take are the partial sums
  of the item summaries; a target is usable when its comparison never increases along them.
  Under these conditions \<open>find\<close>, \<open>find_exact\<close> and \<open>find_with_prev\<close>, which decide at
  inner nodes from cached summaries, agree with a linear scan of the item list.
\<close>

section \<open>Positions and targets\<close>

text \<open>A dimension accumulates summaries the way the summary itself does.\<close>

definition lawful_dim :: "('t, 's) item_ops \<Rightarrow> ('d, 's) dim_ops \<Rightarrow> bool" where
  "lawful_dim ops dim \<longleftrightarrow> (\<forall>d a b. d_add dim (d_add dim d a) b = d_add dim d (s_add ops a b))"

definition advance :: "('d, 's) dim_ops \<Rightarrow> 'd \<Rightarrow> 's list \<Rightarrow> 'd" where
  "advance dim z ss = foldl (d_add dim) z ss"

fun positions :: "('d, 's) dim_ops \<Rightarrow> 'd \<Rightarrow> 's list \<Rightarrow> 'd list" where
  "positions dim z [] = []"
| "positions dim z (s # ss) = d_add dim z s # positions dim (d_add dim z s) ss"

definition antitone_target :: "'d seek_target \<Rightarrow> 'd list \<Rightarrow> bool" where
  "antitone_target target ps \<longleftrightarrow> sorted_wrt (\<lambda>p q. target q \<le> target p) ps"

text \<open>The number of items that end before the target.\<close>

definition seek_index :: "'d seek_target \<Rightarrow> bias \<Rightarrow> 'd list \<Rightarrow> nat" where
  "seek_index target b ps = length (takeWhile (\<lambda>p. beyond (target p) b) ps)"

lemma advance_simps [simp]:
  "advance dim z [] = z"
  "advance dim z (s # ss) = advance dim (d_add dim z s) ss"
  by (simp_all add: advance_def)

lemma advance_append: "advance dim z (xs @ ys) = advance dim (advance dim z xs) ys"
  by (simp add: advance_def)

lemma length_positions [simp]: "length (positions dim z ss) = length ss"
  by (induction ss arbitrary: z) auto

lemma positions_append: "positions dim z (xs @ ys) = positions dim z xs @ positions dim (advance dim z xs) ys"
  by (induction xs arbitrary: z) auto

lemma positions_Nil_iff [simp]: "positions dim z ss = [] \<longleftrightarrow> ss = []"
  by (cases ss) auto

lemma nth_positions: "k < length ss \<Longrightarrow> positions dim z ss ! k = advance dim z (take (Suc k) ss)"
  by (induction ss arbitrary: z k) (auto simp: nth_Cons split: nat.splits)

lemma last_positions: "ss \<noteq> [] \<Longrightarrow> last (positions dim z ss) = advance dim z ss"
  by (induction ss arbitrary: z) auto

lemma within_iff [simp]: "within c b \<longleftrightarrow> \<not> beyond c b"
  by (cases c; cases b) (auto simp: within_def beyond_def)

lemma beyond_mono: "c \<le> c' \<Longrightarrow> beyond c b \<Longrightarrow> beyond c' b"
  by (cases c; cases c'; cases b) (auto simp: beyond_def ordering_order_defs)

lemma antitone_append:
  "antitone_target target (ps @ qs) \<longleftrightarrow>
     antitone_target target ps \<and> antitone_target target qs \<and> (\<forall>p \<in> set ps. \<forall>q \<in> set qs. target q \<le> target p)"
  by (simp add: antitone_target_def sorted_wrt_append)

lemma antitone_beyond_last:
  assumes "antitone_target target ps" "ps \<noteq> []" "beyond (target (last ps)) b" "p \<in> set ps"
  shows "beyond (target p) b"
proof (cases ps rule: rev_cases)
  case (snoc qs q)
  with assms have "target (last ps) \<le> target p"
    by (auto simp: antitone_target_def sorted_wrt_append)
  from beyond_mono [OF this assms(3)] show ?thesis .
qed (use assms in simp)

lemma seek_index_le: "seek_index target b ps \<le> length ps"
  by (simp add: seek_index_def length_takeWhile_le)

lemma seek_index_append:
  assumes "antitone_target target ps" "ps \<noteq> []"
  shows "seek_index target b (ps @ qs) =
    (if beyond (target (last ps)) b then length ps + seek_index target b qs else seek_index target b ps)"
proof (cases "beyond (target (last ps)) b")
  case True
  with assms have "\<And>p. p \<in> set ps \<Longrightarrow> beyond (target p) b" by (rule antitone_beyond_last)
  then have "takeWhile (\<lambda>p. beyond (target p) b) (ps @ qs) = ps @ takeWhile (\<lambda>p. beyond (target p) b) qs"
    by (rule takeWhile_append2)
  with True show ?thesis by (simp add: seek_index_def)
next
  case False
  have "takeWhile (\<lambda>p. beyond (target p) b) (ps @ qs) = takeWhile (\<lambda>p. beyond (target p) b) ps"
    by (rule takeWhile_append1 [of "last ps"]) (use assms(2) False in simp_all)
  with False show ?thesis by (simp add: seek_index_def)
qed

lemma seek_index_not_last:
  "ps \<noteq> [] \<Longrightarrow> \<not> beyond (target (last ps)) b \<Longrightarrow> seek_index target b ps < length ps"
  unfolding seek_index_def
  by (metis last_in_set length_takeWhile_le nat_less_le takeWhile_eq_all_conv takeWhile_eq_take take_all_iff)

lemma seek_index_all:
  "antitone_target target ps \<Longrightarrow> ps \<noteq> [] \<Longrightarrow> beyond (target (last ps)) b \<Longrightarrow> seek_index target b ps = length ps"
  using seek_index_append [of target ps b "[]"] by (simp add: seek_index_def)

lemma nth_seek_index:
  "seek_index target b ps < length ps \<Longrightarrow> \<not> beyond (target (ps ! seek_index target b ps)) b"
  unfolding seek_index_def by (rule nth_length_takeWhile)

lemma before_seek_index:
  "i < seek_index target b ps \<Longrightarrow> beyond (target (ps ! i)) b"
  unfolding seek_index_def by (metis nth_mem set_takeWhileD takeWhile_nth)

section \<open>Linear scans\<close>

lemma find_items_scan:
  assumes "length is = length ss"
  shows "find_items dim target b False z is ss =
    (let k = seek_index target b (positions dim z ss) in
     (advance dim z (take k ss),
      if k < length is then Some (is ! k, advance dim z (take (Suc k) ss)) else None))"
  using assms
proof (induction ss arbitrary: z "is")
  case (Cons s ss)
  then show ?case
    by (cases "is") (auto simp: Let_def seek_index_def)
qed (simp add: seek_index_def)

lemma find_prev_items_scan:
  assumes "length is = length ss"
  shows "find_prev_items dim target b prev z is ss =
    (let k = seek_index target b (positions dim z ss) in
     (advance dim z (take k ss),
      if k < length is then Some (if k = 0 then prev else Some (is ! (k - 1)), is ! k, advance dim z (take (Suc k) ss))
      else None))"
  using assms
proof (induction ss arbitrary: z "is" prev)
  case (Cons s ss)
  then show ?case
    by (cases "is") (auto simp: Let_def seek_index_def nth_Cons split: nat.splits)
qed (simp add: seek_index_def)

lemma ordering_le_iff [simp]: "c \<le> Less \<longleftrightarrow> c = Less" "c \<le> Greater" "Greater \<le> c \<longleftrightarrow> c = Greater"
  by (cases c; simp add: ordering_order_defs)+

text \<open>What a scan from position \<open>z\<close> over items with summaries \<open>ss\<close> has to return.\<close>

definition scan_result ::
  "('d, 's) dim_ops \<Rightarrow> 'd seek_target \<Rightarrow> bias \<Rightarrow> bool \<Rightarrow> 'd \<Rightarrow> 't list \<Rightarrow> 's list \<Rightarrow> 'd \<times> ('t \<times> 'd) option \<Rightarrow> bool" where
  "scan_result dim target b exact z xs ss res \<longleftrightarrow>
     (let k = seek_index target b (positions dim z ss) in
      if k < length xs \<and> (exact \<longrightarrow> target (advance dim z (take (Suc k) ss)) = Equal)
      then res = (advance dim z (take k ss), Some (xs ! k, advance dim z (take (Suc k) ss)))
      else snd res = None \<and> (\<not> exact \<longrightarrow> fst res = advance dim z (take k ss)))"

lemma find_items_none_exact:
  "\<forall>p \<in> set (positions dim z ss). target p = Less \<Longrightarrow> snd (find_items dim target b True z xs ss) = None"
  by (induction ss arbitrary: z xs) (case_tac xs; simp)+

lemma scan_result_items:
  assumes "length xs = length ss" "antitone_target target (positions dim z ss)" "exact \<Longrightarrow> b = Left"
  shows "scan_result dim target b exact z xs ss (find_items dim target b exact z xs ss)"
proof (cases exact)
  case False
  with find_items_scan [OF assms(1), of dim target b z] show ?thesis
    by (auto simp: scan_result_def Let_def)
next
  case True
  show ?thesis
    using assms True
  proof (induction ss arbitrary: z xs)
    case Nil
    then show ?case by (simp add: scan_result_def)
  next
    case (Cons s ss)
    then obtain x xs' where xs: "xs = x # xs'" "length xs' = length ss" by (cases xs) auto
    let ?e = "d_add dim z s"
    have anti: "antitone_target target (positions dim ?e ss)" "\<forall>q \<in> set (positions dim ?e ss). target q \<le> target ?e"
      using Cons.prems by (simp_all add: antitone_target_def)
    note IH = Cons.IH [OF xs(2) anti(1) Cons.prems(3,4)]
    show ?case
    proof (cases "target ?e")
      case Less
      with anti(2) have "\<forall>q \<in> set (positions dim ?e ss). target q = Less"
        by simp
      with Less True xs show ?thesis
        by (simp add: scan_result_def seek_index_def beyond_def find_items_none_exact)
    next
      case Equal
      with True assms(3) xs show ?thesis
        by (simp add: scan_result_def seek_index_def beyond_def)
    next
      case Greater
      with IH True xs show ?thesis
        by (simp add: scan_result_def seek_index_def beyond_def Let_def)
    qed
  qed
qed

lemma scan_result_append:
  assumes "antitone_target target (positions dim z (ss @ ss'))" "ss \<noteq> []" "length xs = length ss"
    and r: "if beyond (target (advance dim z ss)) b
        then scan_result dim target b exact (advance dim z ss) xs' ss' res
        else scan_result dim target b exact z xs ss res"
  shows "scan_result dim target b exact z (xs @ xs') (ss @ ss') res"
proof -
  let ?ps = "positions dim z ss" and ?qs = "positions dim (advance dim z ss) ss'"
  have ps: "antitone_target target ?ps" "?ps \<noteq> []" "last ?ps = advance dim z ss"
    using assms(1,2) by (auto simp: positions_append antitone_append last_positions)
  note app = seek_index_append [OF ps(1,2), of b ?qs, unfolded ps(3)]
  show ?thesis
  proof (cases "beyond (target (advance dim z ss)) b")
    case True
    with r app show ?thesis
      by (auto simp: scan_result_def positions_append Let_def assms(3) advance_append nth_append split: if_splits)
  next
    case False
    with ps have "seek_index target b ?ps < length ss"
      using seek_index_not_last [of ?ps target b] by simp
    with False r app show ?thesis
      by (auto simp: scan_result_def positions_append Let_def assms(3) nth_append)
  qed
qed

lemma find_prev_items_append:
  assumes "antitone_target target (positions dim z (ss @ ss'))" "ss \<noteq> []"
    and len: "length xs = length ss" "length xs' = length ss'"
  shows "find_prev_items dim target b prev z (xs @ xs') (ss @ ss') =
    (if beyond (target (advance dim z ss)) b
     then find_prev_items dim target b (Some (last xs)) (advance dim z ss) xs' ss'
     else find_prev_items dim target b prev z xs ss)"
proof -
  let ?ps = "positions dim z ss" and ?qs = "positions dim (advance dim z ss) ss'"
  have ps: "antitone_target target ?ps" "?ps \<noteq> []" "last ?ps = advance dim z ss"
    using assms(1,2) by (auto simp: positions_append antitone_append last_positions)
  note app = seek_index_append [OF ps(1,2), of b ?qs, unfolded ps(3)]
  have xs: "xs \<noteq> []" using assms(2) len by auto
  then have last: "last xs = xs ! (length ss - 1)" using len by (simp add: last_conv_nth)
  show ?thesis
  proof (cases "beyond (target (advance dim z ss)) b")
    case True
    with app len last assms(2) show ?thesis
      by (auto simp: find_prev_items_scan positions_append Let_def advance_append nth_append)
  next
    case False
    with ps have "seek_index target b ?ps < length ss"
      using seek_index_not_last [of ?ps target b] by simp
    with False app len show ?thesis
      by (auto simp: find_prev_items_scan positions_append Let_def nth_append)
  qed
qed

locale search_laws = summary_laws ops
  for ops :: "('t, 's) item_ops" +
  fixes dim :: "('d, 's) dim_ops"
  assumes lawful_dim: "lawful_dim ops dim"
begin

lemma advance_sum: "ss \<noteq> [] \<Longrightarrow> advance dim z ss = d_add dim z (summary_sum ops ss)"
proof (induction ss rule: rev_induct)
  case (snoc s ss)
  then show ?case
    using lawful_dim
    by (cases "ss = []") (simp_all add: advance_def summary_sum_def zero_add lawful_dim_def)
qed simp

lemma advance_tree:
  "node_at ops h t \<Longrightarrow> d_add dim z (summary t) = advance dim z (map (item_summary ops) (tree_items t))"
  by (simp add: advance_sum summary_items node_atD)

lemma find_children_scan:
  assumes IH: "\<And>t z. t \<in> set ts \<Longrightarrow> antitone_target target (positions dim z (map (item_summary ops) (tree_items t))) \<Longrightarrow>
      scan_result dim target b exact z (tree_items t) (map (item_summary ops) (tree_items t))
        (find_iterate dim target b exact z t)"
    and ts: "\<forall>t \<in> set ts. node_at ops h t"
    and anti: "antitone_target target (positions dim z (map (item_summary ops) (concat (map tree_items ts))))"
  shows "scan_result dim target b exact z (concat (map tree_items ts))
    (map (item_summary ops) (concat (map tree_items ts)))
    (find_children dim target b exact z ts (map summary ts))"
  using assms
proof (induction ts arbitrary: z)
  case Nil
  then show ?case by (simp add: scan_result_def)
next
  case (Cons t ts)
  let ?ss = "map (item_summary ops) (tree_items t)"
  have t: "node_at ops h t" using Cons.prems by simp
  have e: "d_add dim z (summary t) = advance dim z ?ss" by (rule advance_tree [OF t])
  have anti: "antitone_target target (positions dim z ?ss)"
      "antitone_target target (positions dim (advance dim z ?ss) (map (item_summary ops) (concat (map tree_items ts))))"
    using Cons.prems(3) by (simp_all add: positions_append antitone_append)
  have "scan_result dim target b exact z (tree_items t @ concat (map tree_items ts))
      (?ss @ map (item_summary ops) (concat (map tree_items ts)))
      (find_children dim target b exact z (t # ts) (map summary (t # ts)))"
  proof (rule scan_result_append)
    show "antitone_target target (positions dim z (?ss @ map (item_summary ops) (concat (map tree_items ts))))"
      using Cons.prems(3) by simp
    show "if beyond (target (advance dim z ?ss)) b
      then scan_result dim target b exact (advance dim z ?ss) (concat (map tree_items ts))
        (map (item_summary ops) (concat (map tree_items ts))) (find_children dim target b exact z (t # ts) (map summary (t # ts)))
      else scan_result dim target b exact z (tree_items t) ?ss (find_children dim target b exact z (t # ts) (map summary (t # ts)))"
      using Cons.IH [OF Cons.prems(1) _ anti(2)] Cons.prems anti(1) by (simp add: e Let_def)
  qed (use node_atD(4) [OF t] in auto)
  then show ?case by simp
qed

lemma find_iterate_scan:
  assumes "exact \<Longrightarrow> b = Left"
  shows "wf_tree ops t \<Longrightarrow> antitone_target target (positions dim z (map (item_summary ops) (tree_items t))) \<Longrightarrow>
      scan_result dim target b exact z (tree_items t) (map (item_summary ops) (tree_items t))
        (find_iterate dim target b exact z t)"
proof (induction t arbitrary: z)
  case (Leaf s xs ss)
  with assms show ?case by (auto intro!: scan_result_items)
next
  case (Internal h s cs ts)
  from Internal.prems(1) have "\<forall>t \<in> set ts. node_at ops (h - 1) t" "cs = map summary ts"
    by (auto simp: node_at_def)
  with Internal show ?case
    using find_children_scan [of ts target b exact "h - 1" z] by (auto simp: node_at_def)
qed

text \<open>\<open>find\<close> and \<open>find_exact\<close> against the item list.\<close>

lemma find_generic_correct:
  fixes b target t
  defines "ss \<equiv> map (item_summary ops) (tree_items t)"
  defines "k \<equiv> seek_index target b (positions dim (d_zero dim) ss)"
  assumes wf: "wf_tree ops t" and ne: "\<not> tree_is_empty t"
    and anti: "antitone_target target (positions dim (d_zero dim) ss)"
    and ex: "exact \<Longrightarrow> b = Left"
  shows "if k < length ss \<and> (exact \<longrightarrow> target (advance dim (d_zero dim) (take (Suc k) ss)) = Equal)
    then find_generic exact dim target b t =
      (advance dim (d_zero dim) (take k ss), advance dim (d_zero dim) (take (Suc k) ss), Some (tree_items t ! k))
    else snd (snd (find_generic exact dim target b t)) = None \<and>
      (\<not> exact \<longrightarrow> find_generic exact dim target b t = (advance dim (d_zero dim) ss, advance dim (d_zero dim) ss, None))"
proof -
  have e: "d_add dim (d_zero dim) (summary t) = advance dim (d_zero dim) ss"
    using advance_tree [of "height t" t "d_zero dim"] wf ne by (simp add: ss_def node_at_def)
  have ss: "ss \<noteq> []" using tree_items_nonempty [OF wf ne] by (simp add: ss_def)
  let ?ps = "positions dim (d_zero dim) ss"
  have last: "last ?ps = advance dim (d_zero dim) ss" using ss by (simp add: last_positions)
  show ?thesis
  proof (cases "beyond (target (advance dim (d_zero dim) ss)) b")
    case True
    then have "k = length ss" using seek_index_all [OF anti] ss last by (simp add: k_def)
    with True show ?thesis by (simp add: find_generic_def e Let_def)
  next
    case False
    then have "k < length ss" using seek_index_not_last [of ?ps target b] ss last by (simp add: k_def)
    moreover have "length (tree_items t) = length ss" by (simp add: ss_def)
    moreover have "scan_result dim target b exact (d_zero dim) (tree_items t) ss
        (find_iterate dim target b exact (d_zero dim) t)"
      using find_iterate_scan [of exact b t target "d_zero dim"] ex wf anti by (simp add: ss_def)
    ultimately show ?thesis
      using False
      by (cases "find_iterate dim target b exact (d_zero dim) t")
        (auto simp: find_generic_def e scan_result_def Let_def k_def [symmetric] split: if_splits)
  qed
qed

lemma find_prev_children_scan:
  assumes IH: "\<And>t z prev. t \<in> set ts \<Longrightarrow> antitone_target target (positions dim z (map (item_summary ops) (tree_items t))) \<Longrightarrow>
      find_with_prev_iterate dim target b prev z t =
        Some (find_prev_items dim target b prev z (tree_items t) (map (item_summary ops) (tree_items t)))"
    and ts: "\<forall>t \<in> set ts. node_at ops h t"
    and anti: "antitone_target target (positions dim z (map (item_summary ops) (concat (map tree_items ts))))"
  shows "find_prev_children dim target b prev z ts (map summary ts) =
    Some (find_prev_items dim target b prev z (concat (map tree_items ts)) (map (item_summary ops) (concat (map tree_items ts))))"
  using assms
proof (induction ts arbitrary: z prev)
  case (Cons t ts)
  let ?ss = "map (item_summary ops) (tree_items t)"
  have t: "node_at ops h t" "\<forall>t \<in> set ts. node_at ops h t" using Cons.prems by simp_all
  have anti: "antitone_target target (positions dim z ?ss)"
      "antitone_target target (positions dim (advance dim z ?ss) (map (item_summary ops) (concat (map tree_items ts))))"
      "antitone_target target (positions dim z (?ss @ map (item_summary ops) (concat (map tree_items ts))))"
    using Cons.prems(3) by (simp_all add: positions_append antitone_append)
  note app = find_prev_items_append [OF anti(3), of "tree_items t" "concat (map tree_items ts)" b prev]
  show ?case
    using Cons.IH [OF Cons.prems(1) t(2) anti(2)] Cons.prems(1) [of t] anti(1) app node_atD(4) [OF t(1)]
    by (simp add: advance_tree [OF t(1)] Let_def tree_last_correct node_atD [OF t(1)] last_opt_def)
qed simp

lemma find_with_prev_iterate_scan:
  "wf_tree ops t \<Longrightarrow> antitone_target target (positions dim z (map (item_summary ops) (tree_items t))) \<Longrightarrow>
     find_with_prev_iterate dim target b prev z t =
       Some (find_prev_items dim target b prev z (tree_items t) (map (item_summary ops) (tree_items t)))"
proof (induction t arbitrary: z prev)
  case (Internal h s cs ts)
  from Internal.prems(1) have "\<forall>t \<in> set ts. node_at ops (h - 1) t" "cs = map summary ts"
    by (auto simp: node_at_def)
  with Internal show ?case
    using find_prev_children_scan [of ts target b "h - 1" z prev] by (auto simp: node_at_def)
qed simp

lemma find_with_prev_correct:
  fixes b target t
  defines "ss \<equiv> map (item_summary ops) (tree_items t)"
  defines "k \<equiv> seek_index target b (positions dim (d_zero dim) ss)"
  assumes wf: "wf_tree ops t" and ne: "\<not> tree_is_empty t"
    and anti: "antitone_target target (positions dim (d_zero dim) ss)"
  shows "find_with_prev dim target b t = Some
    (if k < length ss
     then (advance dim (d_zero dim) (take k ss), advance dim (d_zero dim) (take (Suc k) ss),
       Some (if k = 0 then None else Some (tree_items t ! (k - 1)), tree_items t ! k))
     else (advance dim (d_zero dim) ss, advance dim (d_zero dim) ss, None))"
proof -
  have e: "d_add dim (d_zero dim) (summary t) = advance dim (d_zero dim) ss"
    using advance_tree [of "height t" t "d_zero dim"] wf ne by (simp add: ss_def node_at_def)
  have ss: "ss \<noteq> []" using tree_items_nonempty [OF wf ne] by (simp add: ss_def)
  let ?ps = "positions dim (d_zero dim) ss"
  have last: "last ?ps = advance dim (d_zero dim) ss" using ss by (simp add: last_positions)
  show ?thesis
  proof (cases "beyond (target (advance dim (d_zero dim) ss)) b")
    case True
    then have "k = length ss" using seek_index_all [OF anti] ss last by (simp add: k_def)
    with True show ?thesis by (simp add: find_with_prev_def e Let_def)
  next
    case False
    then have "k < length ss" using seek_index_not_last [of ?ps target b] ss last by (simp add: k_def)
    moreover have "length (tree_items t) = length ss" by (simp add: ss_def)
    ultimately show ?thesis
      using False find_with_prev_iterate_scan [OF wf anti [unfolded ss_def]]
      by (simp add: find_with_prev_def e Let_def find_prev_items_scan k_def [symmetric] ss_def [symmetric])
  qed
qed

end

section \<open>Properties\<close>

text \<open>
  C1. Appending two well-formed trees never panics (no node overflows its fixed capacity, no
  \<open>unreachable!\<close> is reached) and gives a well-formed tree that holds the items of the first
  followed by those of the second, at most one level higher than the higher of the two; the
  summary cached at its root is the sum of all item summaries in order.
\<close>

theorem sum_tree_append:
  assumes "lawful_summary ops" "wf_tree ops a" "wf_tree ops b" "height a < 255" "height b < 255"
  shows "\<exists>t. tree_append ops a b = Some t \<and> wf_tree ops t \<and>
    tree_items t = tree_items a @ tree_items b \<and>
    height t \<le> Suc (max (height a) (height b)) \<and>
    summary t = summary_sum ops (map (item_summary ops) (tree_items a @ tree_items b))"
proof -
  have laws: "summary_laws ops" using assms(1) by (rule summary_laws.intro)
  from summary_laws.append_correct [OF this assms(2-5)] obtain t where
    "tree_append ops a b = Some t" "wf_tree ops t" "tree_items t = tree_items a @ tree_items b"
    "height t \<le> Suc (max (height a) (height b))" by blast
  with summary_laws.summary_items [OF laws, of t] show ?thesis by simp
qed

theorem sum_tree_append_witness:
  "\<exists>t. tree_append \<lparr>item_summary = \<lambda>x::nat. x, s_zero = 0, s_add = (+)\<rparr>
         (Leaf 6 [1, 2, 3] [1, 2, 3]) (Leaf 9 [4, 5] [4, 5]) = Some t \<and>
       tree_items t = [1, 2, 3, 4, 5] \<and> summary t = 15"
proof -
  let ?ops = "\<lparr>item_summary = \<lambda>x::nat. x, s_zero = 0, s_add = (+)\<rparr>"
  have "lawful_summary ?ops" by (simp add: lawful_summary_def)
  moreover have "wf_tree ?ops (Leaf 6 [1, 2, 3] [1, 2, 3])" "wf_tree ?ops (Leaf 9 [4, 5] [4, 5])"
    by (simp_all add: summary_sum_def TREE_BASE_def)
  ultimately show ?thesis
    using sum_tree_append [of ?ops "Leaf 6 [1, 2, 3] [1, 2, 3]" "Leaf 9 [4, 5] [4, 5]"]
    by (auto simp: summary_sum_def)
qed

text \<open>
  C31. \<open>from_iter\<close> builds, from any sequence short enough for the \<open>u8\<close> height, a well-formed
  tree whose items are exactly the sequence and whose height is logarithmic in its length,
  and the parallel construction \<open>from_par_iter\<close> builds the very same tree.
\<close>

theorem sum_tree_from_iter:
  assumes "lawful_summary ops" "length xs \<le> (2 * TREE_BASE) ^ Suc j" "j < 256"
  shows "\<exists>t. from_iter ops xs = Some t \<and> from_par_iter ops xs = Some t \<and>
    wf_tree ops t \<and> tree_items t = xs \<and> height t \<le> j"
proof -
  have laws: "summary_laws ops" using assms(1) by (rule summary_laws.intro)
  from summary_laws.from_iter_correct [OF laws assms(2,3)] summary_laws.from_par_iter_eq [OF laws]
  show ?thesis by metis
qed

theorem sum_tree_from_iter_witness:
  "\<exists>t. from_iter \<lparr>item_summary = \<lambda>x::nat. x, s_zero = 0, s_add = (+)\<rparr> [0..<30] = Some t \<and>
       tree_items t = [0..<30] \<and> height t \<le> 1"
proof -
  let ?ops = "\<lparr>item_summary = \<lambda>x::nat. x, s_zero = 0, s_add = (+)\<rparr>"
  have "lawful_summary ?ops" by (simp add: lawful_summary_def)
  from sum_tree_from_iter [OF this, of "[0..<30]" 1] show ?thesis
    by (auto simp: TREE_BASE_def)
qed

text \<open>
  Updating the last (first) item in place replaces exactly that item, recomputes every
  cached summary on the path, keeps the shape, and leaves an empty tree alone.
\<close>

theorem sum_tree_update_ends:
  assumes "lawful_summary ops" "wf_tree ops t"
  shows "(\<exists>t'. update_last ops f t = Some t' \<and> wf_tree ops t' \<and> height t' = height t \<and>
      tree_items t' = (if tree_items t = [] then [] else butlast (tree_items t) @ [f (last (tree_items t))]))
    \<and> (\<exists>t'. update_first ops f t = Some t' \<and> wf_tree ops t' \<and> height t' = height t \<and>
      tree_items t' = (case tree_items t of [] \<Rightarrow> [] | x # xs \<Rightarrow> f x # xs))"
  using summary_laws.update_last_correct [OF summary_laws.intro [OF assms(1)] assms(2)]
    summary_laws.update_first_correct [OF summary_laws.intro [OF assms(1)] assms(2)] by blast

theorem sum_tree_update_ends_witness:
  "\<exists>t'. update_last \<lparr>item_summary = \<lambda>x::nat. x, s_zero = 0, s_add = (+)\<rparr> (\<lambda>x. x + 4)
          (Internal 1 6 [3, 3] [Leaf 3 [1, 2] [1, 2], Leaf 3 [3] [3]]) = Some t' \<and> tree_items t' = [1, 2, 7]"
proof -
  let ?ops = "\<lparr>item_summary = \<lambda>x::nat. x, s_zero = 0, s_add = (+)\<rparr>"
  let ?t = "Internal 1 6 [3, 3] [Leaf 3 [1, 2] [1, 2], Leaf 3 [3] [3]] :: (nat, nat) sum_tree"
  have "lawful_summary ?ops" by (simp add: lawful_summary_def)
  moreover have "wf_tree ?ops ?t" by (simp add: summary_sum_def TREE_BASE_def)
  ultimately show ?thesis
    using sum_tree_update_ends [of ?ops ?t "\<lambda>x. x + 4"] by auto
qed

text \<open>
  C10. \<open>find\<close> agrees with a linear scan. For a lawful dimension and a target whose comparison
  never increases along the item positions, the tree search returns the first item whose end
  is not before the target (not at it either, with a right bias), with the exact position where
  that item starts and ends; if there is none it returns the end of the tree and no item. The
  same holds for \<open>find_with_prev\<close>, which also returns the preceding item and never panics.
\<close>

theorem sum_tree_find:
  fixes t :: "('t, 's) sum_tree" and dim :: "('d, 's) dim_ops" and ops :: "('t, 's) item_ops"
    and target :: "'d seek_target" and b :: bias
  defines "pos n \<equiv> advance dim (d_zero dim) (take n (map (item_summary ops) (tree_items t)))"
    and "k \<equiv> seek_index target b (positions dim (d_zero dim) (map (item_summary ops) (tree_items t)))"
  assumes "lawful_summary ops" "lawful_dim ops dim" "wf_tree ops t" "\<not> tree_is_empty t"
    and "antitone_target target (positions dim (d_zero dim) (map (item_summary ops) (tree_items t)))"
  shows "find dim target b t =
      (if k < length (tree_items t) then (pos k, pos (Suc k), Some (tree_items t ! k))
       else (pos (length (tree_items t)), pos (length (tree_items t)), None))
    \<and> find_with_prev dim target b t = Some
      (if k < length (tree_items t)
       then (pos k, pos (Suc k), Some (if k = 0 then None else Some (tree_items t ! (k - 1)), tree_items t ! k))
       else (pos (length (tree_items t)), pos (length (tree_items t)), None))"
proof -
  have laws: "search_laws ops dim"
    using assms(3,4) by (intro search_laws.intro summary_laws.intro search_laws_axioms.intro)
  show ?thesis
    using search_laws.find_generic_correct [OF laws assms(5-7), of False]
      search_laws.find_with_prev_correct [OF laws assms(5-7)]
    by (auto simp: find_def pos_def k_def split: if_splits)
qed

theorem sum_tree_find_witness:
  "find \<lparr>d_zero = 0::nat, d_add = (+)\<rparr> (ord_cmp 4) Left
     (Internal 1 6 [3, 3] [Leaf 3 [1, 2] [1, 2], Leaf 3 [3] [3]]) = (3, 6, Some (3::nat))"
proof -
  let ?ops = "\<lparr>item_summary = \<lambda>x::nat. x, s_zero = 0, s_add = (+)\<rparr>"
  let ?dim = "\<lparr>d_zero = 0::nat, d_add = (+)\<rparr>"
  let ?t = "Internal 1 6 [3, 3] [Leaf 3 [1, 2] [1, 2], Leaf 3 [3] [3]] :: (nat, nat) sum_tree"
  have laws: "lawful_summary ?ops" "lawful_dim ?ops ?dim" by (simp_all add: lawful_summary_def lawful_dim_def)
  have wf: "wf_tree ?ops ?t" "\<not> tree_is_empty ?t" by (simp_all add: summary_sum_def TREE_BASE_def)
  have anti: "antitone_target (ord_cmp 4) (positions ?dim (d_zero ?dim) (map (item_summary ?ops) (tree_items ?t)))"
    by (simp add: antitone_target_def ord_cmp_def ordering_order_defs)
  show ?thesis
    using sum_tree_find [OF laws wf anti, of Left]
    by (simp add: seek_index_def beyond_def ord_cmp_def)
qed

text \<open>
  \<open>find_exact\<close> with a left bias returns an item precisely when the first item whose end
  is not before the target ends exactly at it, and then that item with its position.
\<close>

theorem sum_tree_find_exact:
  fixes t :: "('t, 's) sum_tree" and dim :: "('d, 's) dim_ops" and ops :: "('t, 's) item_ops"
    and target :: "'d seek_target"
  defines "pos n \<equiv> advance dim (d_zero dim) (take n (map (item_summary ops) (tree_items t)))"
    and "k \<equiv> seek_index target Left (positions dim (d_zero dim) (map (item_summary ops) (tree_items t)))"
  assumes "lawful_summary ops" "lawful_dim ops dim" "wf_tree ops t" "\<not> tree_is_empty t"
    and "antitone_target target (positions dim (d_zero dim) (map (item_summary ops) (tree_items t)))"
  shows "if k < length (tree_items t) \<and> target (pos (Suc k)) = Equal
    then find_exact dim target Left t = (pos k, pos (Suc k), Some (tree_items t ! k))
    else snd (snd (find_exact dim target Left t)) = None"
proof -
  have laws: "search_laws ops dim"
    using assms(3,4) by (intro search_laws.intro summary_laws.intro search_laws_axioms.intro)
  show ?thesis
    using search_laws.find_generic_correct [OF laws assms(5-7), of True]
    by (auto simp: find_exact_def pos_def k_def split: if_splits)
qed

theorem sum_tree_find_exact_witness:
  "find_exact \<lparr>d_zero = 0::nat, d_add = (+)\<rparr> (ord_cmp 3) Left
     (Internal 1 6 [3, 3] [Leaf 3 [1, 2] [1, 2], Leaf 3 [3] [3]]) = (1, 3, Some (2::nat))"
proof -
  let ?ops = "\<lparr>item_summary = \<lambda>x::nat. x, s_zero = 0, s_add = (+)\<rparr>"
  let ?dim = "\<lparr>d_zero = 0::nat, d_add = (+)\<rparr>"
  let ?t = "Internal 1 6 [3, 3] [Leaf 3 [1, 2] [1, 2], Leaf 3 [3] [3]] :: (nat, nat) sum_tree"
  have laws: "lawful_summary ?ops" "lawful_dim ?ops ?dim" by (simp_all add: lawful_summary_def lawful_dim_def)
  have wf: "wf_tree ?ops ?t" "\<not> tree_is_empty ?t" by (simp_all add: summary_sum_def TREE_BASE_def)
  have anti: "antitone_target (ord_cmp 3) (positions ?dim (d_zero ?dim) (map (item_summary ?ops) (tree_items ?t)))"
    by (simp add: antitone_target_def ord_cmp_def ordering_order_defs)
  show ?thesis
    using sum_tree_find_exact [OF laws wf anti]
    by (simp add: seek_index_def beyond_def ord_cmp_def)
qed

end
