(* ===== verification/Tree_Cursor.thy ===== *)
theory Tree_Cursor
  imports Tree_Search
begin

text \<open>
  The cursor of \<open>crates/sum_tree/src/cursor.rs\<close>: a stack of tree nodes with an index into
  each, the position in some dimension of the item it stands on, and the flags \<open>did_seek\<close> and
  \<open>at_end\<close>. This theory has the operations: stepping (\<open>next\<close>, \<open>prev\<close>, the filtered searches),
  seeking with an aggregate (\<open>seek\<close>, \<open>seek_forward\<close>, \<open>slice\<close>, \<open>suffix\<close>, \<open>summary\<close>), the
  neighbouring items, the two iterators and \<open>FilterCursor\<close>.

  The stack of the source grows at its end; here the top is the head of the list. It has room
  for 16 entries, and pushing onto a full one panics. A filter is a predicate on summaries.
\<close>

declare Option.bind_cong [fundef_cong]

section \<open>State\<close>

record ('t, 's, 'd) stack_entry =
  e_tree :: "('t, 's) sum_tree"
  e_index :: nat
  e_position :: 'd

record ('t, 's, 'd) cursor =
  c_tree :: "('t, 's) sum_tree"
  c_stack :: "('t, 's, 'd) stack_entry list"
  c_position :: 'd
  c_did_seek :: bool
  c_at_end :: bool

definition STACK_CAPACITY :: nat where
  "STACK_CAPACITY = 16"

definition push_entry ::
  "('t, 's, 'd) stack_entry \<Rightarrow> ('t, 's, 'd) stack_entry list \<Rightarrow> ('t, 's, 'd) stack_entry list option" where
  "push_entry e st = (if length st < STACK_CAPACITY then Some (e # st) else None)"

definition entry :: "('t, 's) sum_tree \<Rightarrow> nat \<Rightarrow> 'd \<Rightarrow> ('t, 's, 'd) stack_entry" where
  "entry t i p = \<lparr>e_tree = t, e_index = i, e_position = p\<rparr>"

definition cursor_new :: "('d, 's) dim_ops \<Rightarrow> ('t, 's) sum_tree \<Rightarrow> ('t, 's, 'd) cursor" where
  "cursor_new dim t =
     \<lparr>c_tree = t, c_stack = [], c_position = d_zero dim, c_did_seek = False, c_at_end = tree_is_empty t\<rparr>"

definition cursor_reset :: "('d, 's) dim_ops \<Rightarrow> ('t, 's, 'd) cursor \<Rightarrow> ('t, 's, 'd) cursor" where
  "cursor_reset dim c =
     c\<lparr>c_did_seek := False, c_at_end := tree_is_empty (c_tree c), c_stack := [], c_position := d_zero dim\<rparr>"

definition cursor_start :: "('t, 's, 'd) cursor \<Rightarrow> 'd" where
  "cursor_start c = c_position c"

section \<open>The current item and its neighbours\<close>

text \<open>The outer option is the panic (no seek yet, or an internal node on top), the inner one the
  result.\<close>

definition cursor_item :: "('t, 's, 'd) cursor \<Rightarrow> 't option option" where
  "cursor_item c = do {
     rust_assert (c_did_seek c);
     case c_stack c of
       [] \<Rightarrow> Some None
     | e # _ \<Rightarrow> do {
         items \<leftarrow> node_items (e_tree e);
         if e_index e = length items then Some None
         else do { x \<leftarrow> index_opt items (e_index e); Some (Some x) }
       }
   }"

definition cursor_item_summary :: "('t, 's, 'd) cursor \<Rightarrow> 's option option" where
  "cursor_item_summary c = do {
     rust_assert (c_did_seek c);
     case c_stack c of
       [] \<Rightarrow> Some None
     | e # _ \<Rightarrow> (case e_tree e of
         Internal _ _ _ _ \<Rightarrow> None
       | Leaf _ _ item_summaries \<Rightarrow>
           if e_index e = length item_summaries then Some None
           else do { s \<leftarrow> index_opt item_summaries (e_index e); Some (Some s) })
   }"

definition cursor_end :: "('d, 's) dim_ops \<Rightarrow> ('t, 's, 'd) cursor \<Rightarrow> 'd option" where
  "cursor_end dim c = do {
     s \<leftarrow> cursor_item_summary c;
     case s of
       Some summ \<Rightarrow> Some (d_add dim (cursor_start c) summ)
     | None \<Rightarrow> Some (cursor_start c)
   }"

fun next_leaf :: "('t, 's, 'd) stack_entry list \<Rightarrow> ('t, 's) sum_tree option option" where
  "next_leaf [] = Some None"
| "next_leaf (e # es) = (case e_tree e of
     Leaf _ _ _ \<Rightarrow> None
   | Internal _ _ _ ts \<Rightarrow>
       if ts = [] then None
       else if e_index e < length ts - 1 then do {
         t \<leftarrow> index_opt ts (e_index e + 1);
         leaf \<leftarrow> leftmost_leaf t;
         Some (Some leaf)
       } else next_leaf es)"

definition cursor_next_item :: "('t, 's, 'd) cursor \<Rightarrow> 't option option" where
  "cursor_next_item c = do {
     rust_assert (c_did_seek c);
     case c_stack c of
       e # rest \<Rightarrow> do {
         items \<leftarrow> node_items (e_tree e);
         rust_assert (items \<noteq> []);
         if e_index e = length items - 1 then do {
           l \<leftarrow> next_leaf rest;
           case l of
             Some leaf \<Rightarrow> do { is \<leftarrow> node_items leaf; x \<leftarrow> first_opt is; Some (Some x) }
           | None \<Rightarrow> Some None
         } else do { x \<leftarrow> index_opt items (e_index e + 1); Some (Some x) }
       }
     | [] \<Rightarrow> if c_at_end c then Some None else tree_first (c_tree c)
   }"

fun prev_leaf :: "('t, 's, 'd) stack_entry list \<Rightarrow> ('t, 's) sum_tree option option" where
  "prev_leaf [] = Some None"
| "prev_leaf (e # es) =
     (if e_index e \<noteq> 0 then
        case e_tree e of
          Leaf _ _ _ \<Rightarrow> None
        | Internal _ _ _ ts \<Rightarrow> do {
            t \<leftarrow> index_opt ts (e_index e - 1);
            leaf \<leftarrow> rightmost_leaf t;
            Some (Some leaf)
          }
      else prev_leaf es)"

definition cursor_prev_item :: "('t, 's, 'd) cursor \<Rightarrow> 't option option" where
  "cursor_prev_item c = do {
     rust_assert (c_did_seek c);
     case c_stack c of
       e # rest \<Rightarrow>
         if e_index e = 0 then do {
           l \<leftarrow> prev_leaf rest;
           case l of
             Some leaf \<Rightarrow> do { is \<leftarrow> node_items leaf; x \<leftarrow> last_opt is; Some (Some x) }
           | None \<Rightarrow> Some None
         } else do {
           items \<leftarrow> node_items (e_tree e);
           x \<leftarrow> index_opt items (e_index e - 1);
           Some (Some x)
         }
     | [] \<Rightarrow> if c_at_end c then tree_last (c_tree c) else Some None
   }"

section \<open>Termination measure\<close>

text \<open>
  The loops walk the tree depth first. A node weighs more than its children together, and a
  stack entry weighs what is left of its node, so descending and popping both decrease.
\<close>

fun node_weight :: "('t, 's) sum_tree \<Rightarrow> nat" where
  "node_weight (Leaf _ _ ss) = 2 + length ss"
| "node_weight (Internal _ _ cs ts) = 2 + length cs + sum_list (map node_weight ts)"

definition entry_children :: "('t, 's, 'd) stack_entry \<Rightarrow> ('t, 's) sum_tree list" where
  "entry_children e = (case e_tree e of Internal _ _ _ ts \<Rightarrow> ts | Leaf _ _ _ \<Rightarrow> [])"

definition fwd_weight :: "bool \<Rightarrow> ('t, 's, 'd) stack_entry \<Rightarrow> nat" where
  "fwd_weight skip e =
     1 + sum_list (map node_weight (drop (e_index e + (if skip then 1 else 0)) (entry_children e)))"

definition fwd_measure :: "bool \<Rightarrow> ('t, 's, 'd) stack_entry list \<Rightarrow> nat" where
  "fwd_measure skip st = (case st of [] \<Rightarrow> 0 | e # es \<Rightarrow> fwd_weight skip e + sum_list (map (fwd_weight True) es))"

definition back_weight :: "bool \<Rightarrow> ('t, 's, 'd) stack_entry \<Rightarrow> nat" where
  "back_weight keep e =
     (let n = e_index e + (if keep then 1 else 0) in
      1 + n + sum_list (map node_weight (take n (entry_children e))))"

definition back_measure :: "bool \<Rightarrow> ('t, 's, 'd) stack_entry list \<Rightarrow> nat" where
  "back_measure keep st = (case st of [] \<Rightarrow> 0 | e # es \<Rightarrow> back_weight keep e + sum_list (map (back_weight False) es))"

lemma node_weight_pos [simp]: "0 < node_weight t"
  by (cases t) simp_all

lemma entry_simps [simp]:
  "e_tree (entry t i p) = t" "e_index (entry t i p) = i" "e_position (entry t i p) = p"
  by (simp_all add: entry_def)

lemma fwd_weight_entry: "fwd_weight False (entry t 0 p) < node_weight t"
  by (cases t) (simp_all add: fwd_weight_def entry_children_def)

lemma fwd_weight_child:
  assumes "i < length (entry_children e)" "e_tree e' = e_tree e" "e_index e' = i"
    and "e_index e + (if skip then 1 else 0) \<le> i"
  shows "node_weight (entry_children e ! i) + fwd_weight True e' \<le> fwd_weight skip e"
proof -
  let ?ts = "entry_children e" and ?j = "e_index e + (if skip then 1 else 0)"
  have "drop ?j ?ts = take (i - ?j) (drop ?j ?ts) @ drop i ?ts"
    using assms(4) by (metis append_take_drop_id drop_drop le_add_diff_inverse2)
  also have "drop i ?ts = ?ts ! i # drop (Suc i) ?ts"
    using assms(1) by (rule Cons_nth_drop_Suc [symmetric])
  finally have "sum_list (map node_weight (drop ?j ?ts)) =
      sum_list (map node_weight (take (i - ?j) (drop ?j ?ts) @ ?ts ! i # drop (Suc i) ?ts))"
    by (rule arg_cong)
  moreover have "entry_children e' = ?ts" using assms(2) by (simp add: entry_children_def)
  ultimately show ?thesis
    using assms(3) by (simp add: fwd_weight_def)
qed

lemma fwd_measure_pop: "fwd_measure True es < fwd_measure skip (e # es)"
  by (cases es) (simp_all add: fwd_measure_def fwd_weight_def)

lemma fwd_measure_push:
  assumes "push_entry (entry t 0 p) (e' # es) = Some st"
    and "i < length (entry_children e)" "t = entry_children e ! i" "e_tree e' = e_tree e" "e_index e' = i"
    and "e_index e + (if skip then 1 else 0) \<le> i"
  shows "fwd_measure False st < fwd_measure skip (e # es)"
  using fwd_weight_child [OF assms(2,4-6)] fwd_weight_entry [of t p] assms(1,3)
  by (auto simp: fwd_measure_def push_entry_def split: if_splits)


section \<open>Stepping\<close>

text \<open>The inner loops of \<open>search_forward\<close>: skip the children whose summary fails the filter.\<close>

fun skip_summaries ::
  "('d, 's) dim_ops \<Rightarrow> ('s \<Rightarrow> bool) \<Rightarrow> ('t, 's, 'd) stack_entry \<Rightarrow> 'd \<Rightarrow> 's list \<Rightarrow> ('t, 's, 'd) stack_entry \<times> 'd" where
  "skip_summaries dim f e pos [] = (e, pos)"
| "skip_summaries dim f e pos (s # ss) =
     (if f s then (e, pos)
      else skip_summaries dim f
        (e\<lparr>e_index := e_index e + 1, e_position := d_add dim (e_position e) s\<rparr>) (d_add dim pos s) ss)"

lemma skip_summaries_entry:
  assumes "skip_summaries dim f e pos ss = (e', pos')"
  shows "e_tree e' = e_tree e" "e_index e \<le> e_index e'"
proof -
  have "e_tree e' = e_tree e \<and> e_index e \<le> e_index e'"
    using assms by (induction dim f e pos ss rule: skip_summaries.induct) (auto split: if_splits)
  then show "e_tree e' = e_tree e" "e_index e \<le> e_index e'" by simp_all
qed

function forward_loop ::
  "('d, 's) dim_ops \<Rightarrow> ('s \<Rightarrow> bool) \<Rightarrow> bool \<Rightarrow> ('t, 's, 'd) stack_entry list \<Rightarrow> 'd
    \<Rightarrow> (('t, 's, 'd) stack_entry list \<times> 'd) option" where
  "forward_loop dim f descend [] pos = Some ([], pos)"
| "forward_loop dim f descend (e # rest) pos = (case e_tree e of
     Internal h s cs ts \<Rightarrow>
       let e1 = (if descend then e else e\<lparr>e_index := e_index e + 1, e_position := pos\<rparr>);
           r = skip_summaries dim f e1 pos (drop (e_index e1) cs)
       in (case index_opt ts (e_index (fst r)) of
             Some subtree \<Rightarrow> do {
               st \<leftarrow> push_entry (entry subtree 0 (snd r)) (fst r # rest);
               forward_loop dim f True st (snd r)
             }
           | None \<Rightarrow> forward_loop dim f False rest (snd r))
   | Leaf s items item_summaries \<Rightarrow> do {
       r1 \<leftarrow> (if descend then Some (e, pos)
         else do {
           summ \<leftarrow> index_opt item_summaries (e_index e);
           Some (e\<lparr>e_index := e_index e + 1, e_position := d_add dim (e_position e) summ\<rparr>, d_add dim pos summ)
         });
       let r = skip_summaries dim f (fst r1) (snd r1) (drop (e_index (fst r1)) item_summaries);
       if e_index (fst r) < length item_summaries then Some (fst r # rest, snd r)
       else forward_loop dim f False rest (snd r)
     })"
  by pat_completeness auto
termination
proof (relation "measure (\<lambda>(dim, f, descend, st, pos). fwd_measure (\<not> descend) st)", goal_cases)
  case (3 dim f descend e rest pos h s cs ts e1 r subtree st)
  let ?e = "e_index (fst r)"
  have "e_tree (fst r) = e_tree e" "e_index e + (if \<not> descend then 1 else 0) \<le> ?e"
    using skip_summaries_entry [of dim f e1 pos "drop (e_index e1) cs" "fst r" "snd r"] 3(2,3)
    by (simp_all split: if_splits)
  moreover have "?e < length ts" "subtree = ts ! ?e"
    using 3(4) by (auto simp: index_opt_def split: if_splits)
  ultimately show ?case
    using fwd_measure_push [OF 3(5), of ?e e "\<not> descend"] 3(1) by (simp add: entry_children_def)
qed (simp_all add: fwd_measure_pop)

definition search_forward ::
  "('d, 's) dim_ops \<Rightarrow> ('s \<Rightarrow> bool) \<Rightarrow> ('t, 's, 'd) cursor \<Rightarrow> ('t, 's, 'd) cursor option" where
  "search_forward dim f c = do {
     r0 \<leftarrow> (if c_stack c = [] then
         if \<not> c_at_end c then do { st \<leftarrow> push_entry (entry (c_tree c) 0 (d_zero dim)) []; Some (st, True) }
         else Some ([], False)
       else Some (c_stack c, False));
     let did_seek = (if c_stack c = [] then True else c_did_seek c);
     (st, pos) \<leftarrow> forward_loop dim f (snd r0) (fst r0) (c_position c);
     Some (c\<lparr>c_stack := st, c_position := pos, c_did_seek := did_seek,
             c_at_end := (if st = [] then True else c_at_end c)\<rparr>)
   }"

definition cursor_next :: "('d, 's) dim_ops \<Rightarrow> ('t, 's, 'd) cursor \<Rightarrow> ('t, 's, 'd) cursor option" where
  "cursor_next dim = search_forward dim (\<lambda>_. True)"

lemma back_weight_step:
  assumes "i < length ss" "i = (if keep then e_index e else e_index e - 1)" "keep \<or> e_index e \<noteq> 0"
    and "e_tree e' = e_tree e" "e_index e' = i"
  shows "back_weight False e' < back_weight keep e"
    and "i < length (entry_children e) \<Longrightarrow>
      Suc (node_weight (entry_children e ! i) + back_weight False e') \<le> back_weight keep e"
proof -
  let ?ts = "entry_children e"
  have n: "e_index e + (if keep then 1 else 0) = Suc i" using assms(2,3) by auto
  have ts: "entry_children e' = ?ts" using assms(4) by (simp add: entry_children_def)
  have "sum_list (map node_weight (take i ?ts)) \<le> sum_list (map node_weight (take (Suc i) ?ts))"
    by (metis append_take_drop_id le_add1 map_append min.absorb1 le_SucI order_refl sum_list_append take_take)
  with n ts assms(5) show "back_weight False e' < back_weight keep e"
    by (simp add: back_weight_def)
  show "Suc (node_weight (?ts ! i) + back_weight False e') \<le> back_weight keep e" if "i < length ?ts"
    using n ts assms(5) that by (simp add: back_weight_def take_Suc_conv_app_nth)
qed

lemma back_weight_entry:
  "child_summaries t \<noteq> [] \<Longrightarrow> back_weight True (entry t (length (child_summaries t) - 1) p) < node_weight t"
proof (cases t)
  case (Internal h s cs ts)
  moreover have "sum_list (map node_weight (take n ts)) \<le> sum_list (map node_weight ts)" for n
    by (metis append_take_drop_id le_add1 map_append sum_list_append)
  ultimately show "child_summaries t \<noteq> [] \<Longrightarrow> ?thesis"
    by (simp add: back_weight_def entry_children_def Let_def less_Suc_eq_le)
qed (simp add: back_weight_def entry_children_def)

lemma back_measure_pop: "back_measure False es < back_measure keep (e # es)"
  by (cases es) (simp_all add: back_measure_def back_weight_def Let_def)

lemma back_measure_stay:
  assumes "i < length ss" "i = (if keep then e_index e else e_index e - 1)" "keep \<or> e_index e \<noteq> 0"
    and "e_tree e' = e_tree e" "e_index e' = i"
  shows "back_measure False (e' # es) < back_measure keep (e # es)"
  using back_weight_step(1) [OF assms] by (simp add: back_measure_def)

lemma back_measure_push:
  assumes "push_entry (entry t (length (child_summaries t) - 1) p) (e' # es) = Some st"
    and "child_summaries t \<noteq> []" "i < length (entry_children e)" "t = entry_children e ! i"
    and "i = (if keep then e_index e else e_index e - 1)" "keep \<or> e_index e \<noteq> 0"
    and "e_tree e' = e_tree e" "e_index e' = i"
  shows "back_measure True st < back_measure keep (e # es)"
  using back_weight_step(2) [OF assms(3,5-8) assms(3)] back_weight_entry [OF assms(2), of p] assms(1,4)
  by (auto simp: back_measure_def push_entry_def split: if_splits)

function backward_loop ::
  "('d, 's) dim_ops \<Rightarrow> ('s \<Rightarrow> bool) \<Rightarrow> bool \<Rightarrow> ('t, 's, 'd) stack_entry list \<Rightarrow> 'd
    \<Rightarrow> (('t, 's, 'd) stack_entry list \<times> 'd) option" where
  "backward_loop dim f descending [] pos = Some ([], pos)"
| "backward_loop dim f descending (e # rest) pos =
     (let pos0 = (case rest of [] \<Rightarrow> d_zero dim | p # _ \<Rightarrow> e_position p);
          summs = child_summaries (e_tree e);
          i = (if descending then e_index e else e_index e - 1)
      in if \<not> descending \<and> e_index e = 0 then backward_loop dim f False rest pos0
         else if \<not> i < length summs then None
         else let pos1 = foldl (d_add dim) pos0 (take i summs);
                  e1 = e\<lparr>e_index := i, e_position := pos1\<rparr>
              in if \<not> f (summs ! i) then backward_loop dim f False (e1 # rest) pos1
                 else (case e_tree e of
                     Internal h s cs ts \<Rightarrow> do {
                       t \<leftarrow> index_opt ts i;
                       rust_assert (child_summaries t \<noteq> []);
                       st \<leftarrow> push_entry (entry t (length (child_summaries t) - 1) (d_zero dim)) (e1 # rest);
                       backward_loop dim f True st pos1
                     }
                   | Leaf s items item_summaries \<Rightarrow> Some (e1 # rest, pos1)))"
  by pat_completeness auto
termination
proof (relation "measure (\<lambda>(dim, f, descending, st, pos). back_measure descending st)", goal_cases)
  case (2 dim f descending e rest pos pos0 summs i)
  then show ?case by (simp add: back_measure_pop)
next
  case (3 dim f descending e rest pos pos0 summs i pos1 e1)
  then show ?case
    using back_measure_stay [of i summs descending e e1 rest] by auto
next
  case (4 dim f descending e rest pos pos0 summs i pos1 e1 h s cs ts t u st)
  have "i < length ts" "t = ts ! i"
    using 4(10) by (simp_all add: index_opt_def split: if_splits)
  moreover have "entry_children e = ts" using 4(9) by (simp add: entry_children_def)
  moreover have "descending \<or> e_index e \<noteq> 0" using 4(4) by simp
  moreover have "child_summaries t \<noteq> []" using 4(11) by simp
  moreover have "e_tree e1 = e_tree e" "e_index e1 = i" using 4(7) by simp_all
  ultimately show ?case
    using back_measure_push [OF 4(12), of i e descending] 4(3) by simp
qed simp

definition search_backward ::
  "('d, 's) dim_ops \<Rightarrow> ('s \<Rightarrow> bool) \<Rightarrow> ('t, 's, 'd) cursor \<Rightarrow> ('t, 's, 'd) cursor option" where
  "search_backward dim f c = do {
     let at_end = (if \<not> c_did_seek c then True else c_at_end c);
     let t = c_tree c;
     r0 \<leftarrow> (if at_end then
         if \<not> tree_is_empty t then do {
           st \<leftarrow> push_entry (entry t (length (child_summaries t)) (dim_from_summary dim (summary t))) (c_stack c);
           Some (st, d_zero dim)
         } else Some (c_stack c, d_zero dim)
       else Some (c_stack c, c_position c));
     (st, pos) \<leftarrow> backward_loop dim f False (fst r0) (snd r0);
     Some (c\<lparr>c_stack := st, c_position := pos, c_did_seek := True,
             c_at_end := (if at_end then tree_is_empty t else False)\<rparr>)
   }"

definition cursor_prev :: "('d, 's) dim_ops \<Rightarrow> ('t, 's, 'd) cursor \<Rightarrow> ('t, 's, 'd) cursor option" where
  "cursor_prev dim = search_backward dim (\<lambda>_. True)"

section \<open>Seeking\<close>

text \<open>The trait \<open>SeekAggregate\<close>, and its three implementations.\<close>

record ('t, 's, 'a) seek_aggregate =
  begin_leaf :: "'a \<Rightarrow> 'a"
  end_leaf :: "'a \<Rightarrow> 'a option"
  push_item :: "'t \<Rightarrow> 's \<Rightarrow> 'a \<Rightarrow> 'a option"
  push_tree :: "('t, 's) sum_tree \<Rightarrow> 's \<Rightarrow> 'a \<Rightarrow> 'a option"

definition unit_aggregate :: "('t, 's, unit) seek_aggregate" where
  "unit_aggregate =
     \<lparr>begin_leaf = (\<lambda>a. a), end_leaf = Some, push_item = (\<lambda>_ _. Some), push_tree = (\<lambda>_ _. Some)\<rparr>"

record ('t, 's) slice_state =
  sl_tree :: "('t, 's) sum_tree"
  leaf_items :: "'t list"
  leaf_item_summaries :: "'s list"
  leaf_summary :: 's

definition slice_end_leaf :: "('t, 's) item_ops \<Rightarrow> ('t, 's) slice_state \<Rightarrow> ('t, 's) slice_state option" where
  "slice_end_leaf ops a = do {
     t \<leftarrow> tree_append ops (sl_tree a) (Leaf (leaf_summary a) (leaf_items a) (leaf_item_summaries a));
     Some \<lparr>sl_tree = t, leaf_items = [], leaf_item_summaries = [], leaf_summary = s_zero ops\<rparr>
   }"

definition slice_push_item :: "('t, 's) item_ops \<Rightarrow> 't \<Rightarrow> 's \<Rightarrow> ('t, 's) slice_state \<Rightarrow> ('t, 's) slice_state option" where
  "slice_push_item ops item summ a = do {
     items \<leftarrow> array_vec (leaf_items a @ [item]);
     summs \<leftarrow> array_vec (leaf_item_summaries a @ [summ]);
     Some (a\<lparr>leaf_items := items, leaf_item_summaries := summs, leaf_summary := s_add ops (leaf_summary a) summ\<rparr>)
   }"

definition slice_push_tree ::
  "('t, 's) item_ops \<Rightarrow> ('t, 's) sum_tree \<Rightarrow> 's \<Rightarrow> ('t, 's) slice_state \<Rightarrow> ('t, 's) slice_state option" where
  "slice_push_tree ops t summ a = do { t' \<leftarrow> tree_append ops (sl_tree a) t; Some (a\<lparr>sl_tree := t'\<rparr>) }"

definition slice_aggregate :: "('t, 's) item_ops \<Rightarrow> ('t, 's, ('t, 's) slice_state) seek_aggregate" where
  "slice_aggregate ops =
     \<lparr>begin_leaf = (\<lambda>a. a), end_leaf = slice_end_leaf ops, push_item = slice_push_item ops,
      push_tree = slice_push_tree ops\<rparr>"

definition slice_new :: "('t, 's) item_ops \<Rightarrow> ('t, 's) slice_state" where
  "slice_new ops =
     \<lparr>sl_tree = tree_new ops, leaf_items = [], leaf_item_summaries = [], leaf_summary = s_zero ops\<rparr>"

definition summary_aggregate :: "('o, 's) dim_ops \<Rightarrow> ('t, 's, 'o) seek_aggregate" where
  "summary_aggregate out =
     \<lparr>begin_leaf = (\<lambda>a. a), end_leaf = Some, push_item = (\<lambda>_ s a. Some (d_add out a s)),
      push_tree = (\<lambda>_ s a. Some (d_add out a s))\<rparr>"

text \<open>The two inner loops of \<open>seek_internal\<close>. The first returns the child to descend into, if any;
  the second whether it stopped inside the leaf.\<close>

fun seek_trees ::
  "('t, 's, 'a) seek_aggregate \<Rightarrow> ('d, 's) dim_ops \<Rightarrow> 'd seek_target \<Rightarrow> bias
    \<Rightarrow> ('t, 's, 'd) stack_entry \<Rightarrow> 'd \<Rightarrow> 'a \<Rightarrow> ('t, 's) sum_tree list \<Rightarrow> 's list
    \<Rightarrow> (('t, 's, 'd) stack_entry \<times> 'd \<times> 'a \<times> ('t, 's) sum_tree option) option" where
  "seek_trees agg dim target b e pos a (t # ts) (s # ss) =
     (let child_end = d_add dim pos s in
      if beyond (target child_end) b then do {
        a' \<leftarrow> push_tree agg t s a;
        seek_trees agg dim target b (e\<lparr>e_index := e_index e + 1, e_position := child_end\<rparr>) child_end a' ts ss
      } else Some (e, pos, a, Some t))"
| "seek_trees agg dim target b e pos a _ _ = Some (e, pos, a, None)"

fun seek_items ::
  "('t, 's, 'a) seek_aggregate \<Rightarrow> ('d, 's) dim_ops \<Rightarrow> 'd seek_target \<Rightarrow> bias
    \<Rightarrow> ('t, 's, 'd) stack_entry \<Rightarrow> 'd \<Rightarrow> 'a \<Rightarrow> 't list \<Rightarrow> 's list
    \<Rightarrow> (('t, 's, 'd) stack_entry \<times> 'd \<times> 'a \<times> bool) option" where
  "seek_items agg dim target b e pos a (x # xs) (s # ss) =
     (let child_end = d_add dim pos s in
      if beyond (target child_end) b then do {
        a' \<leftarrow> push_item agg x s a;
        seek_items agg dim target b (e\<lparr>e_index := e_index e + 1\<rparr>) child_end a' xs ss
      } else Some (e, pos, a, True))"
| "seek_items agg dim target b e pos a _ _ = Some (e, pos, a, False)"

lemma seek_trees_found:
  assumes "seek_trees agg dim target b e pos a ts ss = Some (e', pos', a', Some t)"
  shows "e_tree e' = e_tree e" "e_index e \<le> e_index e'"
    "e_index e' - e_index e < length ts" "t = ts ! (e_index e' - e_index e)"
proof -
  have "\<exists>k < length ts. e_index e' = e_index e + k \<and> t = ts ! k \<and> e_tree e' = e_tree e"
    using assms
  proof (induction ts arbitrary: e pos a ss)
    case (Cons t0 ts)
    then obtain s ss' where ss: "ss = s # ss'" by (cases ss) auto
    show ?case
    proof (cases "beyond (target (d_add dim pos s)) b")
      case True
      with Cons ss obtain k where "k < length ts" "e_index e' = Suc (e_index e) + k" "t = ts ! k" "e_tree e' = e_tree e"
        by (fastforce simp: Let_def split: Option.bind_splits)
      then show ?thesis by (intro exI [of _ "Suc k"]) simp
    qed (use Cons ss in auto)
  qed simp
  then show "e_tree e' = e_tree e" "e_index e \<le> e_index e'"
    "e_index e' - e_index e < length ts" "t = ts ! (e_index e' - e_index e)" by auto
qed

function seek_loop ::
  "('t, 's, 'a) seek_aggregate \<Rightarrow> ('d, 's) dim_ops \<Rightarrow> 'd seek_target \<Rightarrow> bias \<Rightarrow> bool
    \<Rightarrow> ('t, 's, 'd) stack_entry list \<Rightarrow> 'd \<Rightarrow> 'a \<Rightarrow> (('t, 's, 'd) stack_entry list \<times> 'd \<times> 'a) option" where
  "seek_loop agg dim target b ascending [] pos a = Some ([], pos, a)"
| "seek_loop agg dim target b ascending (e # rest) pos a = (case e_tree e of
     Internal h s cs ts \<Rightarrow>
       let e1 = (if ascending then e\<lparr>e_index := e_index e + 1, e_position := pos\<rparr> else e) in
       if length ts < e_index e1 \<or> length cs < e_index e1 then None
       else do {
         r \<leftarrow> seek_trees agg dim target b e1 pos a (drop (e_index e1) ts) (drop (e_index e1) cs);
         case r of
           (e2, pos', a', Some child_tree) \<Rightarrow> do {
             st \<leftarrow> push_entry (entry child_tree 0 pos') (e2 # rest);
             seek_loop agg dim target b False st pos' a'
           }
         | (e2, pos', a', None) \<Rightarrow> seek_loop agg dim target b True rest pos' a'
       }
   | Leaf s items item_summaries \<Rightarrow>
       if length items < e_index e \<or> length item_summaries < e_index e then None
       else do {
         (e2, pos', a', stopped) \<leftarrow> seek_items agg dim target b e pos (begin_leaf agg a)
           (drop (e_index e) items) (drop (e_index e) item_summaries);
         a'' \<leftarrow> end_leaf agg a';
         if stopped then Some (e2 # rest, pos', a'')
         else seek_loop agg dim target b True rest pos' a''
       })"
  by pat_completeness auto
termination
proof (relation "measure (\<lambda>(agg, dim, target, b, ascending, st, pos, a). fwd_measure ascending st)", goal_cases)
  case (3 agg dim target b ascending e rest pos a h s cs ts e1 r e2 y pos' ya a' yb t st)
  have e1: "e_tree e1 = e_tree e" "e_index e1 = e_index e + (if ascending then 1 else 0)"
    using 3(2) by (simp_all split: if_splits)
  have "seek_trees agg dim target b e1 pos a (drop (e_index e1) ts) (drop (e_index e1) cs) = Some (e2, pos', a', Some t)"
    using 3(4-8) by simp
  note found = seek_trees_found [OF this]
  have "fwd_measure False st < fwd_measure ascending (e # rest)"
    using fwd_measure_push [OF 3(9), of "e_index e2" e ascending] found e1 3(1)
    by (simp add: entry_children_def less_diff_conv)
  then show ?case by simp
qed (simp_all add: fwd_measure_pop)

definition seek_internal ::
  "('t, 's, 'a) seek_aggregate \<Rightarrow> ('d, 's) dim_ops \<Rightarrow> 'd seek_target \<Rightarrow> bias \<Rightarrow> 'a \<Rightarrow> ('t, 's, 'd) cursor
    \<Rightarrow> (bool \<times> 'a \<times> ('t, 's, 'd) cursor) option" where
  "seek_internal agg dim target b a c = do {
     rust_assert (target (c_position c) \<noteq> Less);
     st0 \<leftarrow> (if \<not> c_did_seek c then push_entry (entry (c_tree c) 0 (d_zero dim)) (c_stack c)
             else Some (c_stack c));
     (st, pos, a') \<leftarrow> seek_loop agg dim target b False st0 (c_position c) a;
     let c' = c\<lparr>c_stack := st, c_position := pos, c_did_seek := True, c_at_end := st = []\<rparr>;
     end \<leftarrow> (if b = Left then cursor_end dim c' else Some pos);
     Some (target end = Equal, a', c')
   }"

definition cursor_seek_forward ::
  "('d, 's) dim_ops \<Rightarrow> 'd seek_target \<Rightarrow> bias \<Rightarrow> ('t, 's, 'd) cursor \<Rightarrow> (bool \<times> ('t, 's, 'd) cursor) option" where
  "cursor_seek_forward dim target b c = do {
     (found, _, c') \<leftarrow> seek_internal unit_aggregate dim target b () c;
     Some (found, c')
   }"

definition cursor_seek ::
  "('d, 's) dim_ops \<Rightarrow> 'd seek_target \<Rightarrow> bias \<Rightarrow> ('t, 's, 'd) cursor \<Rightarrow> (bool \<times> ('t, 's, 'd) cursor) option" where
  "cursor_seek dim target b c = do {
     (found, _, c') \<leftarrow> seek_internal unit_aggregate dim target b () (cursor_reset dim c);
     Some (found, c')
   }"

definition cursor_slice ::
  "('t, 's) item_ops \<Rightarrow> ('d, 's) dim_ops \<Rightarrow> 'd seek_target \<Rightarrow> bias \<Rightarrow> ('t, 's, 'd) cursor
    \<Rightarrow> (('t, 's) sum_tree \<times> ('t, 's, 'd) cursor) option" where
  "cursor_slice ops dim target b c = do {
     (_, a, c') \<leftarrow> seek_internal (slice_aggregate ops) dim target b (slice_new ops) c;
     Some (sl_tree a, c')
   }"

definition End_target :: "'d seek_target" where
  "End_target _ = Greater"

definition cursor_suffix ::
  "('t, 's) item_ops \<Rightarrow> ('d, 's) dim_ops \<Rightarrow> ('t, 's, 'd) cursor \<Rightarrow> (('t, 's) sum_tree \<times> ('t, 's, 'd) cursor) option" where
  "cursor_suffix ops dim c = cursor_slice ops dim End_target Right c"

definition cursor_summary ::
  "('o, 's) dim_ops \<Rightarrow> ('d, 's) dim_ops \<Rightarrow> 'd seek_target \<Rightarrow> bias \<Rightarrow> ('t, 's, 'd) cursor
    \<Rightarrow> ('o \<times> ('t, 's, 'd) cursor) option" where
  "cursor_summary out dim target b c = do {
     (_, a, c') \<leftarrow> seek_internal (summary_aggregate out) dim target b (d_zero out) c;
     Some (a, c')
   }"

section \<open>Iterators\<close>

text \<open>\<open>Iterator::next\<close> of a cursor, and of a \<open>FilterCursor\<close> with the filter \<open>f\<close>.\<close>

definition filter_iter_next ::
  "('d, 's) dim_ops \<Rightarrow> ('s \<Rightarrow> bool) \<Rightarrow> ('t, 's, 'd) cursor \<Rightarrow> ('t option \<times> ('t, 's, 'd) cursor) option" where
  "filter_iter_next dim f c = do {
     c1 \<leftarrow> (if \<not> c_did_seek c then search_forward dim f c else Some c);
     x \<leftarrow> cursor_item c1;
     case x of
       Some item \<Rightarrow> do { c2 \<leftarrow> search_forward dim f c1; Some (Some item, c2) }
     | None \<Rightarrow> Some (None, c1)
   }"

definition cursor_iter_next ::
  "('d, 's) dim_ops \<Rightarrow> ('t, 's, 'd) cursor \<Rightarrow> ('t option \<times> ('t, 's, 'd) cursor) option" where
  "cursor_iter_next dim c = do {
     c1 \<leftarrow> (if \<not> c_did_seek c then cursor_next dim c else Some c);
     x \<leftarrow> cursor_item c1;
     case x of
       Some item \<Rightarrow> do { c2 \<leftarrow> cursor_next dim c1; Some (Some item, c2) }
     | None \<Rightarrow> Some (None, c1)
   }"

text \<open>The loop of \<open>SumTree::items\<close>.\<close>

partial_function (option) items_loop ::
  "('d, 's) dim_ops \<Rightarrow> ('t, 's, 'd) cursor \<Rightarrow> 't list \<Rightarrow> 't list option" where
  "items_loop dim c acc = do {
     x \<leftarrow> cursor_item c;
     case x of
       None \<Rightarrow> Some acc
     | Some item \<Rightarrow> do { c' \<leftarrow> cursor_next dim c; items_loop dim c' (acc @ [item]) }
   }"

definition unit_dim :: "(unit, 's) dim_ops" where
  "unit_dim = \<lparr>d_zero = (), d_add = (\<lambda>_ _. ())\<rparr>"

definition sum_tree_items :: "('t, 's) sum_tree \<Rightarrow> 't list option" where
  "sum_tree_items t = do { c \<leftarrow> cursor_next unit_dim (cursor_new unit_dim t); items_loop unit_dim c [] }"

text \<open>\<open>Iter\<close>, which keeps a stack without positions.\<close>

function iter_loop ::
  "bool \<Rightarrow> ('t, 's, unit) stack_entry list \<Rightarrow> ('t option \<times> ('t, 's, unit) stack_entry list) option" where
  "iter_loop descend [] = Some (None, [])"
| "iter_loop descend (e # rest) =
     (let e1 = (if descend then e else e\<lparr>e_index := e_index e + 1\<rparr>) in
      case e_tree e of
        Internal h s cs ts \<Rightarrow> (case index_opt ts (e_index e1) of
            Some subtree \<Rightarrow> do {
              st \<leftarrow> push_entry (entry subtree 0 ()) (e1 # rest);
              iter_loop True st
            }
          | None \<Rightarrow> iter_loop False rest)
      | Leaf s items item_summaries \<Rightarrow> (case index_opt items (e_index e1) of
            Some next_item \<Rightarrow> Some (Some next_item, e1 # rest)
          | None \<Rightarrow> iter_loop False rest))"
  by pat_completeness auto
termination
proof (relation "measure (\<lambda>(descend, st). fwd_measure (\<not> descend) st)", goal_cases)
  case (3 descend e rest e1 h s cs ts subtree st)
  then have "fwd_measure False st < fwd_measure (\<not> descend) (e # rest)"
    using fwd_measure_push [OF 3(4), of "e_index e1" e "\<not> descend"]
    by (auto simp: entry_children_def index_opt_def split: if_splits)
  then show ?case by simp
qed (simp_all add: fwd_measure_pop)

record ('t, 's) tree_iter =
  it_tree :: "('t, 's) sum_tree"
  it_stack :: "('t, 's, unit) stack_entry list"

definition iter_new :: "('t, 's) sum_tree \<Rightarrow> ('t, 's) tree_iter" where
  "iter_new t = \<lparr>it_tree = t, it_stack = []\<rparr>"

definition iter_next :: "('t, 's) tree_iter \<Rightarrow> ('t option \<times> ('t, 's) tree_iter) option" where
  "iter_next it = do {
     r0 \<leftarrow> (if it_stack it = [] then do { st \<leftarrow> push_entry (entry (it_tree it) 0 ()) []; Some (st, True) }
            else Some (it_stack it, False));
     (x, st) \<leftarrow> iter_loop (snd r0) (fst r0);
     Some (x, it\<lparr>it_stack := st\<rparr>)
   }"

text \<open>The lower bound of \<open>size_hint\<close>; the subtraction is on \<open>usize\<close> and wraps.\<close>

definition iter_size_hint :: "('t, 's) tree_iter \<Rightarrow> nat" where
  "iter_size_hint it = (case it_stack it of
     e # _ \<Rightarrow> (length (child_summaries (e_tree e)) + 2 ^ 64 - e_index e) mod 2 ^ 64
   | [] \<Rightarrow> length (child_summaries (it_tree it)))"

text \<open>\<open>Iterator::last\<close>, which ignores how far the iterator has come.\<close>

definition iter_last :: "('t, 's) tree_iter \<Rightarrow> 't option option" where
  "iter_last it = do { leaf \<leftarrow> rightmost_leaf (it_tree it); tree_last leaf }"

end
