(* ===== verification/Tree_Cursor_Props.thy ===== *)
theory Tree_Cursor_Props
  imports Tree_Cursor
begin

text \<open>
  What a cursor denotes: an index into the flattened items of its tree. A stack is a path from
  the root to the leaf that holds the current item; \<open>items_before\<close> and \<open>items_after\<close> are the
  items left and right of that path. Seeking and stepping are characterised as moves of the
  index, together with the exact position and what the aggregate has collected.
\<close>

section \<open>Paths\<close>

abbreviation sums :: "('t, 's) item_ops \<Rightarrow> 't list \<Rightarrow> 's list" where
  "sums ops xs \<equiv> map (item_summary ops) xs"

abbreviation items_of :: "('t, 's) sum_tree list \<Rightarrow> 't list" where
  "items_of ts \<equiv> concat (map tree_items ts)"

definition entry_done :: "('t, 's, 'd) stack_entry \<Rightarrow> 't list" where
  "entry_done e = (case e_tree e of
     Leaf _ xs _ \<Rightarrow> take (e_index e) xs
   | Internal _ _ _ ts \<Rightarrow> items_of (take (e_index e) ts))"

primrec items_before :: "('t, 's, 'd) stack_entry list \<Rightarrow> 't list" where
  "items_before [] = []"
| "items_before (e # es) = items_before es @ entry_done e"

primrec items_after :: "('t, 's, 'd) stack_entry list \<Rightarrow> 't list" where
  "items_after [] = []"
| "items_after (e # es) = items_of (drop (Suc (e_index e)) (entry_children e)) @ items_after es"

definition pos_at :: "('t, 's) item_ops \<Rightarrow> ('d, 's) dim_ops \<Rightarrow> ('t, 's) sum_tree \<Rightarrow> nat \<Rightarrow> 'd" where
  "pos_at ops dim root k = advance dim (d_zero dim) (sums ops (take k (tree_items root)))"

text \<open>The entries below the top lead from the root to the given subtree, each remembering where
  its current child starts.\<close>

fun path_to ::
  "('t, 's) item_ops \<Rightarrow> ('d, 's) dim_ops \<Rightarrow> ('t, 's) sum_tree \<Rightarrow> ('t, 's, 'd) stack_entry list \<Rightarrow> ('t, 's) sum_tree \<Rightarrow> bool" where
  "path_to ops dim root [] t \<longleftrightarrow> t = root"
| "path_to ops dim root (p # ps) t \<longleftrightarrow>
     path_to ops dim root ps (e_tree p) \<and> e_index p < length (entry_children p) \<and>
     t = entry_children p ! e_index p \<and> e_position p = pos_at ops dim root (length (items_before (p # ps)))"

definition stack_at ::
  "('t, 's) item_ops \<Rightarrow> ('d, 's) dim_ops \<Rightarrow> ('t, 's) sum_tree \<Rightarrow> ('t, 's, 'd) stack_entry list \<Rightarrow> nat \<Rightarrow> bool" where
  "stack_at ops dim root st k \<longleftrightarrow> (\<exists>e ps xs. st = e # ps \<and> path_to ops dim root ps (e_tree e) \<and>
     node_items (e_tree e) = Some xs \<and> e_index e < length xs \<and> k = length (items_before (e # ps)))"

definition stack_pos ::
  "('t, 's) item_ops \<Rightarrow> ('d, 's) dim_ops \<Rightarrow> ('t, 's) sum_tree \<Rightarrow> ('t, 's, 'd) stack_entry list \<Rightarrow> nat \<Rightarrow> bool" where
  "stack_pos ops dim root st k \<longleftrightarrow>
     (if st = [] then k = length (tree_items root) else stack_at ops dim root st k)"

text \<open>Where a seek from index \<open>k\<close> ends.\<close>

definition seek_to ::
  "('t, 's) item_ops \<Rightarrow> ('d, 's) dim_ops \<Rightarrow> 'd seek_target \<Rightarrow> bias \<Rightarrow> ('t, 's) sum_tree \<Rightarrow> nat \<Rightarrow> nat" where
  "seek_to ops dim target b root k =
     k + seek_index target b (positions dim (pos_at ops dim root k) (sums ops (drop k (tree_items root))))"

lemma entry_children_tree: "e_tree e = e_tree e' \<Longrightarrow> entry_children e = entry_children e'"
  by (simp add: entry_children_def)

lemma entry_done_children:
  "entry_children p \<noteq> [] \<Longrightarrow> entry_done p = items_of (take (e_index p) (entry_children p))"
  by (auto simp: entry_done_def entry_children_def split: sum_tree.splits)

lemma tree_items_children: "entry_children p \<noteq> [] \<Longrightarrow> tree_items (e_tree p) = items_of (entry_children p)"
  by (auto simp: entry_children_def split: sum_tree.splits)

lemma path_items:
  "path_to ops dim root ps t \<Longrightarrow> tree_items root = items_before ps @ tree_items t @ items_after ps"
proof (induction ps arbitrary: t)
  case (Cons p ps)
  let ?ts = "entry_children p"
  have ts: "e_index p < length ?ts" "t = ?ts ! e_index p" using Cons.prems by simp_all
  then have "?ts \<noteq> []" by auto
  with Cons.IH [of "e_tree p"] Cons.prems
  have "tree_items root = items_before ps @ items_of ?ts @ items_after ps"
    by (simp add: tree_items_children)
  also have "items_of ?ts = items_of (take (e_index p) ?ts @ t # drop (Suc (e_index p)) ?ts)"
    using id_take_nth_drop [OF ts(1)] ts(2) by simp
  finally show ?case
    using \<open>?ts \<noteq> []\<close> by (simp add: entry_done_children)
qed simp

lemma path_wf:
  assumes "wf_tree ops root" "path_to ops dim root ps t"
  shows "wf_tree ops t \<and> height t + length ps = height root \<and> (ps \<noteq> [] \<longrightarrow> \<not> tree_is_empty t)"
  using assms(2)
proof (induction ps arbitrary: t)
  case Nil
  with assms(1) show ?case by simp
next
  case (Cons p ps)
  then have IH: "wf_tree ops (e_tree p)" "height (e_tree p) + length ps = height root"
    using Cons.IH [of "e_tree p"] by simp_all
  from Cons.prems have i: "e_index p < length (entry_children p)" "t = entry_children p ! e_index p" by simp_all
  then obtain h s cs ts where p: "e_tree p = Internal h s cs ts"
    by (cases "e_tree p") (auto simp: entry_children_def)
  with i have "t \<in> set ts" by (simp add: entry_children_def)
  with IH p show ?case by auto
qed

lemma path_internal:
  assumes "wf_tree ops root" "path_to ops dim root (p # ps) t"
  obtains h s ts where "e_tree p = Internal (Suc h) s (map summary ts) ts" "length ts \<le> 2 * TREE_BASE"
    "\<forall>t \<in> set ts. node_at ops h t" "Suc h + length ps = height root" "entry_children p = ts"
proof -
  from assms have "wf_tree ops (e_tree p)" "height (e_tree p) + length ps = height root" "entry_children p \<noteq> []"
    using path_wf [OF assms(1), of dim ps "e_tree p"] by auto
  then show ?thesis
    by (cases rule: wf_tree_cases) (use that in \<open>auto simp: entry_children_def\<close>)
qed

lemma pos_at_append:
  "tree_items root = us @ vs @ ws \<Longrightarrow>
     pos_at ops dim root (length us + length vs) = advance dim (pos_at ops dim root (length us)) (sums ops vs)"
  by (simp add: pos_at_def advance_append)

lemma stack_at_bound:
  assumes "stack_at ops dim root st k"
  shows "k < length (tree_items root)"
proof -
  from assms obtain e ps xs where e: "st = e # ps" "path_to ops dim root ps (e_tree e)"
      "node_items (e_tree e) = Some xs" "e_index e < length xs" "k = length (items_before (e # ps))"
    by (auto simp: stack_at_def)
  then have "tree_items (e_tree e) = xs" "entry_done e = take (e_index e) xs"
    by (cases "e_tree e"; simp add: entry_done_def)+
  with path_items [OF e(2)] e show ?thesis by simp
qed

lemma stack_at_item:
  assumes "stack_at ops dim root (e # ps) k"
  obtains s xs ss where "e_tree e = Leaf s xs ss" "e_index e < length xs"
    "xs ! e_index e = tree_items root ! k"
proof -
  from assms obtain xs where e: "path_to ops dim root ps (e_tree e)"
      "node_items (e_tree e) = Some xs" "e_index e < length xs" "k = length (items_before (e # ps))"
    by (auto simp: stack_at_def)
  then obtain s ss where t: "e_tree e = Leaf s xs ss" by (cases "e_tree e") auto
  with path_items [OF e(1)] e have "xs ! e_index e = tree_items root ! k"
    by (simp add: nth_append entry_done_def)
  with t e that show ?thesis by simp
qed

section \<open>Seeking\<close>

lemma seek_index_append_gen:
  "seek_index target b (ps @ qs) =
     (if seek_index target b ps < length ps then seek_index target b ps else length ps + seek_index target b qs)"
proof (cases "\<forall>p \<in> set ps. beyond (target p) b")
  case True
  then have "length (takeWhile (\<lambda>p. beyond (target p) b) ps) = length ps"
    by (metis takeWhile_eq_all_conv)
  with True have "seek_index target b ps = length ps" "seek_index target b (ps @ qs) = length ps + seek_index target b qs"
    by (simp_all add: seek_index_def takeWhile_append)
  then show ?thesis by simp
next
  case False
  then have "length (takeWhile (\<lambda>p. beyond (target p) b) ps) < length ps"
    by (metis length_takeWhile_le nat_less_le takeWhile_eq_all_conv takeWhile_eq_take take_all_iff)
  with False show ?thesis by (auto simp: seek_index_def takeWhile_append)
qed

text \<open>
  What a seek may hand over to its aggregate is measured by a weight that grows with the height of
  the pieces: \<open>piece h\<close> for a subtree of height \<open>h\<close> (a leaf that is read item by item counts as one of
  height 0) and \<open>span h\<close> for everything below a node of height \<open>h\<close>.
\<close>

definition piece :: "nat \<Rightarrow> nat" where
  "piece h = 21 * 7 ^ h"

definition span :: "nat \<Rightarrow> nat" where
  "span h = 42 * 7 ^ h"

definition MAX_WEIGHT :: nat where
  "MAX_WEIGHT = 2 * span STACK_CAPACITY"

lemma span_Suc: "span (Suc h) = span h + 12 * piece h"
  by (simp add: span_def piece_def)

lemma piece_span: "piece h \<le> span h"
  by (simp add: span_def piece_def)

lemma span_mono: "g \<le> h \<Longrightarrow> span g \<le> span h"
  by (simp add: span_def)

text \<open>
  The contract of an aggregate: it represents the items handed over so far, those of the leaf
  being read apart. \<open>R n\<close> bounds the weight of the pieces by \<open>n\<close>.
\<close>

locale seek_aggregate_laws = search_laws ops dim
  for ops :: "('t, 's) item_ops" and dim :: "('d, 's) dim_ops" +
  fixes agg :: "('t, 's, 'a) seek_aggregate"
    and R :: "nat \<Rightarrow> 't list \<Rightarrow> 'a \<Rightarrow> bool"
    and RL :: "nat \<Rightarrow> 't list \<Rightarrow> 't list \<Rightarrow> 'a \<Rightarrow> bool"
  assumes begin_law: "R n xs a \<Longrightarrow> RL n xs [] (begin_leaf agg a)"
    and item_law: "RL n xs ys a \<Longrightarrow> length ys < 2 * TREE_BASE \<Longrightarrow>
      \<exists>a'. push_item agg x (item_summary ops x) a = Some a' \<and> RL n xs (ys @ [x]) a'"
    and end_law: "RL n xs ys a \<Longrightarrow> n + piece 0 \<le> MAX_WEIGHT \<Longrightarrow>
      \<exists>a'. end_leaf agg a = Some a' \<and> R (n + piece 0) (xs @ ys) a'"
    and tree_law: "R n xs a \<Longrightarrow> n + piece h \<le> MAX_WEIGHT \<Longrightarrow> node_at ops h t \<Longrightarrow> h < STACK_CAPACITY \<Longrightarrow>
      \<exists>a'. push_tree agg t (summary t) a = Some a' \<and> R (n + piece h) (xs @ tree_items t) a'"
    and mono_law: "R n xs a \<Longrightarrow> n \<le> m \<Longrightarrow> R m xs a"
begin

lemma seek_items_run:
  assumes "RL n xs zs a" "length zs + length ys \<le> 2 * TREE_BASE"
  shows "\<exists>a' j. j = seek_index target b (positions dim pos (sums ops ys)) \<and>
    seek_items agg dim target b e pos a ys (sums ops ys) =
      Some (e\<lparr>e_index := e_index e + j\<rparr>, advance dim pos (sums ops (take j ys)), a', j < length ys) \<and>
    RL n xs (zs @ take j ys) a'"
  using assms
proof (induction ys arbitrary: e pos a zs)
  case Nil
  then show ?case by (simp add: seek_index_def)
next
  case (Cons y ys)
  show ?case
  proof (cases "beyond (target (d_add dim pos (item_summary ops y))) b")
    case True
    obtain a1 where a1: "push_item agg y (item_summary ops y) a = Some a1" "RL n xs (zs @ [y]) a1"
      using item_law [OF Cons.prems(1), of y] Cons.prems(2) by auto
    from Cons.IH [OF a1(2), of "d_add dim pos (item_summary ops y)" "e\<lparr>e_index := e_index e + 1\<rparr>"] Cons.prems(2)
    show ?thesis
      using True a1(1) by (auto simp: seek_index_def)
  next
    case False
    with Cons.prems show ?thesis by (simp add: seek_index_def)
  qed
qed

lemma seek_trees_run:
  assumes "\<forall>t \<in> set ts. node_at ops h t" "h < STACK_CAPACITY" "R n xs a" "n + length ts * piece h \<le> MAX_WEIGHT"
    and "antitone_target target (positions dim pos (sums ops (items_of ts)))"
  shows "\<exists>us vs a' pos'. ts = us @ vs \<and> pos' = advance dim pos (sums ops (items_of us)) \<and>
    seek_trees agg dim target b e pos a ts (map summary ts) =
      Some (e\<lparr>e_index := e_index e + length us, e_position := (if us = [] then e_position e else pos')\<rparr>,
        pos', a', first_opt vs) \<and>
    R (n + length us * piece h) (xs @ items_of us) a' \<and>
    (vs \<noteq> [] \<longrightarrow> \<not> beyond (target (advance dim pos' (sums ops (tree_items (hd vs))))) b) \<and>
    seek_index target b (positions dim pos (sums ops (items_of ts))) =
      length (items_of us) + (if vs = [] then 0 else seek_index target b (positions dim pos' (sums ops (tree_items (hd vs)))))"
  using assms
proof (induction ts arbitrary: e pos a n xs)
  case Nil
  then show ?case by (simp add: seek_index_def)
next
  case (Cons t ts)
  let ?pos = "advance dim pos (sums ops (tree_items t))"
  have t: "node_at ops h t" using Cons.prems by simp
  have pos: "d_add dim pos (summary t) = ?pos" by (rule advance_tree [OF t])
  have anti: "antitone_target target (positions dim pos (sums ops (tree_items t)))"
      "antitone_target target (positions dim ?pos (sums ops (items_of ts)))"
    using Cons.prems(5) by (simp_all add: positions_append antitone_append)
  have ne: "positions dim pos (sums ops (tree_items t)) \<noteq> []" "last (positions dim pos (sums ops (tree_items t))) = ?pos"
    using node_atD(4) [OF t] by (simp_all add: last_positions)
  note app = seek_index_append [OF anti(1) ne(1), of b "positions dim ?pos (sums ops (items_of ts))", unfolded ne(2)]
  show ?case
  proof (cases "beyond (target ?pos) b")
    case True
    obtain a1 where a1: "push_tree agg t (summary t) a = Some a1" "R (n + piece h) (xs @ tree_items t) a1"
      using tree_law [OF Cons.prems(3) _ t Cons.prems(2)] Cons.prems(4) by auto
    let ?e = "e\<lparr>e_index := e_index e + 1, e_position := ?pos\<rparr>"
    have ts: "\<forall>t \<in> set ts. node_at ops h t" and n: "(n + piece h) + length ts * piece h \<le> MAX_WEIGHT"
      using Cons.prems(1,4) by simp_all
    obtain us vs a' pos' where IH: "ts = us @ vs" "pos' = advance dim ?pos (sums ops (items_of us))"
        "seek_trees agg dim target b ?e ?pos a1 ts (map summary ts) =
          Some (?e\<lparr>e_index := e_index ?e + length us, e_position := (if us = [] then e_position ?e else pos')\<rparr>,
            pos', a', first_opt vs)"
        "R ((n + piece h) + length us * piece h) ((xs @ tree_items t) @ items_of us) a'"
        "vs \<noteq> [] \<longrightarrow> \<not> beyond (target (advance dim pos' (sums ops (tree_items (hd vs))))) b"
        "seek_index target b (positions dim ?pos (sums ops (items_of ts))) =
          length (items_of us) + (if vs = [] then 0 else seek_index target b (positions dim pos' (sums ops (tree_items (hd vs)))))"
      using Cons.IH [OF ts Cons.prems(2) a1(2) n anti(2), of ?e] by (elim exE conjE) (rule that)
    show ?thesis
      by (rule exI [of _ "t # us"], rule exI [of _ vs], rule exI [of _ a'], rule exI [of _ pos'])
        (use True IH a1(1) app in \<open>auto simp: Let_def pos advance_append positions_append add.assoc\<close>)
  next
    case False
    show ?thesis
      by (rule exI [of _ "[]"], rule exI [of _ "t # ts"], rule exI [of _ a], rule exI [of _ pos])
        (use False Cons.prems app in \<open>auto simp: pos positions_append\<close>)
  qed
qed

text \<open>One round of the loop at an internal node: either all its remaining children lie before
  the target, or the loop enters the first one that does not.\<close>

lemma internal_step:
  assumes node: "e_tree e = Internal (Suc h) s (map summary ts) ts" "\<forall>t \<in> set ts. node_at ops h t" "length ts \<le> 2 * TREE_BASE"
    and path: "path_to ops dim root ps (e_tree e)" "length ps + Suc h < STACK_CAPACITY" "e_index e \<le> length ts"
    and pos: "e_position e = pos" "pos = pos_at ops dim root (length (items_before (e # ps)))"
    and a: "R n xs a" "n + 12 * piece h \<le> MAX_WEIGHT"
    and rem: "rem = items_of (drop (e_index e) ts)" "antitone_target target (positions dim pos (sums ops rem))"
    and j: "j = seek_index target b (positions dim pos (sums ops rem))"
  obtains (pop) a' where "seek_loop agg dim target b False (e # ps) pos a = seek_loop agg dim target b True ps (advance dim pos (sums ops rem)) a'"
      "R (n + 12 * piece h) (xs @ rem) a'" "j = length rem"
  | (enter) v e' pos' a' m j' where "seek_loop agg dim target b False (e # ps) pos a = seek_loop agg dim target b False (entry v 0 pos' # e' # ps) pos' a'"
      "path_to ops dim root (e' # ps) v" "node_at ops h v" "pos' = pos_at ops dim root (length (items_before (e' # ps)))"
      "items_before (e' # ps) = items_before (e # ps) @ take m rem" "R (n + 11 * piece h) (xs @ take m rem) a'"
      "antitone_target target (positions dim pos' (sums ops (tree_items v)))"
      "\<not> beyond (target (advance dim pos' (sums ops (tree_items v)))) b"
      "j' = seek_index target b (positions dim pos' (sums ops (tree_items v)))"
      "j = m + j'" "j < length rem" "take j rem = take m rem @ take j' (tree_items v)"
proof -
  let ?i = "e_index e" and ?ts = "drop (e_index e) ts"
  have len: "length ?ts \<le> 12" using node(3) by (simp add: TREE_BASE_def)
  then have n: "n + length ?ts * piece h \<le> MAX_WEIGHT" using a(2) mult_le_mono1 [OF len, of "piece h"] by linarith
  have h: "h < STACK_CAPACITY" and kids: "\<forall>t \<in> set ?ts. node_at ops h t"
    using path(2) node(2) by (auto dest: in_set_dropD)
  obtain us vs a' pos' where run: "?ts = us @ vs" "pos' = advance dim pos (sums ops (items_of us))"
      "seek_trees agg dim target b e pos a ?ts (map summary ?ts) =
        Some (e\<lparr>e_index := ?i + length us, e_position := (if us = [] then e_position e else pos')\<rparr>,
          pos', a', first_opt vs)"
      "R (n + length us * piece h) (xs @ items_of us) a'"
      "vs \<noteq> [] \<longrightarrow> \<not> beyond (target (advance dim pos' (sums ops (tree_items (hd vs))))) b"
      "seek_index target b (positions dim pos (sums ops (items_of ?ts))) =
        length (items_of us) + (if vs = [] then 0 else seek_index target b (positions dim pos' (sums ops (tree_items (hd vs)))))"
    using seek_trees_run [OF kids h a(1) n rem(2) [unfolded rem(1)], of b e] by (elim exE conjE) (rule that)
  show ?thesis
  proof (cases vs)
    case Nil
    show ?thesis
    proof (rule pop)
      show "seek_loop agg dim target b False (e # ps) pos a = seek_loop agg dim target b True ps (advance dim pos (sums ops rem)) a'"
        using run(1-3) node(1) path(3) Nil rem(1) by (simp add: drop_map)
      have "length us \<le> 12" using len run(1) Nil by simp
      then show "R (n + 12 * piece h) (xs @ rem) a'" using mono_law [OF run(4), of "n + 12 * piece h"] run(1) Nil rem(1) by simp
      show "j = length rem" using run(1,6) Nil rem(1) j by simp
    qed
  next
    case (Cons v vs')
    let ?e' = "e\<lparr>e_index := ?i + length us, e_position := pos'\<rparr>" and ?m = "length (items_of us)"
    let ?j = "seek_index target b (positions dim pos' (sums ops (tree_items v)))"
    have ts: "drop ?i ts = us @ v # vs'" using run(1) Cons by simp
    have rem': "rem = items_of us @ tree_items v @ items_of vs'" using rem(1) ts by simp
    have done_e: "entry_done ?e' = entry_done e @ items_of us"
      using node(1) ts by (simp add: entry_done_def take_add)
    have "length (drop ?i ts) = length us + Suc (length vs')" by (simp only: ts) simp
    then have v1: "?i + length us < length ts" by simp
    have v2: "v = ts ! (?i + length us)"
      using nth_drop [of ?i ts "length us"] path(3) ts by simp
    note v = v1 v2
    have "items_of ts = items_of (take ?i ts) @ items_of (drop ?i ts)"
      by (metis append_take_drop_id concat_append map_append)
    then have "tree_items root = items_before (e # ps) @ items_of us @ (tree_items v @ items_of vs' @ items_after ps)"
      using path_items [OF path(1)] node(1) ts by (simp add: entry_done_def)
    from pos_at_append [OF this, of ops dim] have pos': "pos' = pos_at ops dim root (length (items_before (?e' # ps)))"
      using run(2) pos(2) done_e by (simp add: add.assoc)
    have e': "(if us = [] then e_position e else pos') = pos'" using run(2) pos(1) by simp
    show ?thesis
    proof (rule enter [of v pos' ?e' a' ?m ?j])
      show "seek_loop agg dim target b False (e # ps) pos a = seek_loop agg dim target b False (entry v 0 pos' # ?e' # ps) pos' a'"
        using run(3) node(1) path(2,3) Cons by (simp add: drop_map e' push_entry_def)
      show "path_to ops dim root (?e' # ps) v"
        using path(1) node(1) v pos' by (simp add: entry_children_def)
      show "node_at ops h v" using kids run(1) Cons by simp
      have "length us \<le> 11" using len run(1) Cons by simp
      then show "R (n + 11 * piece h) (xs @ take ?m rem) a'"
        using mono_law [OF run(4), of "n + 11 * piece h"] rem' by simp
      show "antitone_target target (positions dim pos' (sums ops (tree_items v)))"
        using rem(2) rem' run(2) by (simp add: positions_append antitone_append)
      show jm: "j = ?m + ?j" using run(1,6) Cons rem(1) j by simp
      have "?j < length (tree_items v)"
        using seek_index_not_last [of "positions dim pos' (sums ops (tree_items v))" target b] run(5) Cons
          node_atD(4) [OF \<open>node_at ops h v\<close>] by (simp add: last_positions)
      with jm rem' show "j < length rem" by simp
      show "take j rem = take ?m rem @ take ?j (tree_items v)"
        using seek_index_le [of target b "positions dim pos' (sums ops (tree_items v))"] \<open>j = ?m + ?j\<close> rem' by simp
    qed (use pos' done_e rem' run(5) Cons in simp_all)
  qed
qed

text \<open>Entering a subtree that holds the target: the loop stops at a leaf inside it.\<close>

lemma descend:
  assumes "node_at ops h t" "path_to ops dim root ps t" "length ps + h < STACK_CAPACITY"
    and "pos = pos_at ops dim root (length (items_before ps))"
    and "R n xs a" "n + span h \<le> MAX_WEIGHT"
    and "antitone_target target (positions dim pos (sums ops (tree_items t)))"
    and "\<not> beyond (target (advance dim pos (sums ops (tree_items t)))) b"
    and "j = seek_index target b (positions dim pos (sums ops (tree_items t)))"
  shows "\<exists>st' a'. seek_loop agg dim target b False (entry t 0 pos # ps) pos a =
      Some (st', advance dim pos (sums ops (take j (tree_items t))), a') \<and>
    stack_at ops dim root st' (length (items_before ps) + j) \<and>
    R (n + span h) (xs @ take j (tree_items t)) a'"
  using assms
proof (induction h arbitrary: t ps pos n xs a j)
  case 0
  obtain ys where ys: "t = Leaf (summary_sum ops (sums ops ys)) ys (sums ops ys)" "length ys \<le> 2 * TREE_BASE" "ys \<noteq> []"
    using 0(1) by (rule leaf_node_cases)
  have j: "j < length ys" using seek_index_not_last [of "positions dim pos (sums ops ys)" target b] 0(8,9) ys
    by (simp add: last_positions)
  obtain a' where a': "seek_items agg dim target b (entry t 0 pos) pos (begin_leaf agg a) ys (sums ops ys) =
      Some ((entry t 0 pos)\<lparr>e_index := j\<rparr>, advance dim pos (sums ops (take j ys)), a', True)"
      "RL n xs (take j ys) a'"
    using seek_items_run [OF begin_law [OF 0(5)], of ys target b pos "entry t 0 pos"] ys j 0(9) by auto
  obtain a'' where a'': "end_leaf agg a' = Some a''" "R (n + piece 0) (xs @ take j ys) a''"
    using end_law [OF a'(2)] 0(6) piece_span [of 0] by auto
  have "stack_at ops dim root ((entry t 0 pos)\<lparr>e_index := j\<rparr> # ps) (length (items_before ps) + j)"
    using 0(2) j ys by (auto simp: stack_at_def entry_done_def)
  with a' a'' ys mono_law [OF a''(2), of "n + span 0"] piece_span [of 0] show ?case by simp
next
  case (Suc h)
  obtain ts where ts: "t = Internal (Suc h) (summary_sum ops (map summary ts)) (map summary ts) ts"
      "ts \<noteq> []" "length ts \<le> 2 * TREE_BASE" "\<forall>t \<in> set ts. node_at ops h t" "Suc h < 256"
    using Suc.prems(1) by (rule internal_node_cases)
  have ne: "items_of ts \<noteq> []" using concat_items_nonempty [OF ts(2,4)] .
  have items: "tree_items t = items_of ts" using ts(1) by simp
  have jlt: "j < length (items_of ts)"
    using seek_index_not_last [of "positions dim pos (sums ops (items_of ts))" target b] Suc.prems(8,9) ne
    by (simp add: items last_positions del: concat_eq_Nil_conv)
  have top: "entry_done (entry t 0 pos) = []" by (simp add: entry_done_def split: sum_tree.splits)
  show ?case
  proof (rule internal_step [of "entry t 0 pos" h _ ts root ps pos n xs a "items_of ts" target j b])
    fix v e' pos' a' m j'
    assume step: "seek_loop agg dim target b False (entry t 0 pos # ps) pos a = seek_loop agg dim target b False (entry v 0 pos' # e' # ps) pos' a'"
      "path_to ops dim root (e' # ps) v" "node_at ops h v" "pos' = pos_at ops dim root (length (items_before (e' # ps)))"
      "items_before (e' # ps) = items_before (entry t 0 pos # ps) @ take m (items_of ts)"
      "R (n + 11 * piece h) (xs @ take m (items_of ts)) a'"
      "antitone_target target (positions dim pos' (sums ops (tree_items v)))"
      "\<not> beyond (target (advance dim pos' (sums ops (tree_items v)))) b"
      "j' = seek_index target b (positions dim pos' (sums ops (tree_items v)))"
      "j = m + j'" "j < length (items_of ts)" "take j (items_of ts) = take m (items_of ts) @ take j' (tree_items v)"
    have before: "items_before (e' # ps) = items_before ps @ take m (items_of ts)" using step(5) top by simp
    have pos': "pos' = advance dim pos (sums ops (take m (items_of ts)))"
      using pos_at_append [of root "items_before ps" "take m (items_of ts)" "drop m (items_of ts) @ items_after ps"]
        path_items [OF Suc.prems(2)] Suc.prems(4) step(4) before items by simp
    obtain st' a'' where IH: "seek_loop agg dim target b False (entry v 0 pos' # e' # ps) pos' a' =
          Some (st', advance dim pos' (sums ops (take j' (tree_items v))), a'')"
        "stack_at ops dim root st' (length (items_before (e' # ps)) + j')"
        "R (n + 11 * piece h + span h) ((xs @ take m (items_of ts)) @ take j' (tree_items v)) a''"
      using Suc.IH [OF step(3,2) _ step(4,6) _ step(7-9)] Suc.prems(3,6) by (auto simp: span_Suc)
    have "R (n + span (Suc h)) (xs @ take j (items_of ts)) a''"
      using mono_law [OF IH(3), of "n + span (Suc h)"] step(12) by (simp add: span_Suc)
    moreover have "stack_at ops dim root st' (length (items_before ps) + j)"
      using IH(2) before step(10,11) by (simp add: add.assoc)
    moreover have "advance dim pos' (sums ops (take j' (tree_items v))) = advance dim pos (sums ops (take j (items_of ts)))"
      using step(12) by (simp add: pos' advance_append)
    ultimately show ?thesis using IH(1) step(1) items by auto
  qed (use ts items Suc.prems jlt top in \<open>simp_all add: span_Suc\<close>)
qed

lemma leaf_step:
  assumes "e_tree e = Leaf s ys (sums ops ys)" "length ys \<le> 2 * TREE_BASE" "e_index e \<le> length ys"
    and "R n xs a" "n + piece 0 \<le> MAX_WEIGHT"
    and rem: "rem = drop (e_index e) ys" "j = seek_index target b (positions dim pos (sums ops rem))"
  shows "\<exists>a'. R (n + piece 0) (xs @ take j rem) a' \<and> seek_loop agg dim target b asc (e # ps) pos a =
    (if j < length rem then Some (e\<lparr>e_index := e_index e + j\<rparr> # ps, advance dim pos (sums ops (take j rem)), a')
     else seek_loop agg dim target b True ps (advance dim pos (sums ops rem)) a')"
proof -
  have "length [] + length rem \<le> 2 * TREE_BASE" using assms(2) rem(1) by simp
  from seek_items_run [OF begin_law [OF assms(4)] this, of target b pos e, folded rem(2)]
  obtain a1 where a1: "seek_items agg dim target b e pos (begin_leaf agg a) rem (sums ops rem) =
      Some (e\<lparr>e_index := e_index e + j\<rparr>, advance dim pos (sums ops (take j rem)), a1, j < length rem)"
      "RL n xs (take j rem) a1"
    by auto
  obtain a2 where "end_leaf agg a1 = Some a2" "R (n + piece 0) (xs @ take j rem) a2"
    using end_law [OF a1(2) assms(5)] by auto
  with a1 assms(1,3) rem seek_index_le [of target b "positions dim pos (sums ops rem)"] show ?thesis
    by (auto simp: drop_map)
qed

text \<open>Leaving a finished subtree: the loop goes on with what is right of the path.\<close>

lemma ascend:
  assumes root: "wf_tree ops root" "height root < STACK_CAPACITY"
    and "path_to ops dim root ps t" "k = length (items_before ps @ tree_items t)" "pos = pos_at ops dim root k"
    and "R (n + span (height root - length ps)) xs a" "n + 2 * span (height root) \<le> MAX_WEIGHT"
    and "antitone_target target (positions dim pos (sums ops (items_after ps)))"
    and "j = seek_index target b (positions dim pos (sums ops (items_after ps)))"
  shows "\<exists>st' a'. seek_loop agg dim target b True ps pos a =
      Some (st', advance dim pos (sums ops (take j (items_after ps))), a') \<and>
    stack_pos ops dim root st' (k + j) \<and>
    R (n + 2 * span (height root)) (xs @ take j (items_after ps)) a'"
  using assms(3-)
proof (induction ps arbitrary: t k pos n xs a j)
  case Nil
  then show ?case using mono_law [OF Nil(4)] by (auto simp: stack_pos_def seek_index_def)
next
  case (Cons p ps)
  have path: "path_to ops dim root ps (e_tree p)" "e_index p < length (entry_children p)"
      "t = entry_children p ! e_index p" using Cons.prems(1) by simp_all
  obtain h s ts where p: "e_tree p = Internal (Suc h) s (map summary ts) ts" and h: "Suc h + length ps = height root"
      "length ts \<le> 2 * TREE_BASE" "\<forall>t \<in> set ts. node_at ops h t" "entry_children p = ts"
    using path_internal [OF root(1) Cons.prems(1)] .
  let ?p = "p\<lparr>e_index := Suc (e_index p), e_position := pos\<rparr>" and ?rem = "items_of (drop (Suc (e_index p)) ts)"
  have ts: "e_index p < length ts" "t = ts ! e_index p" "entry_children p = ts" using path p by (simp_all add: entry_children_def)
  have before: "items_before (?p # ps) = items_before (p # ps) @ tree_items t"
    using ts p by (simp add: entry_done_def take_Suc_conv_app_nth)
  have loop: "seek_loop agg dim target b True (p # ps) pos a = seek_loop agg dim target b False (?p # ps) pos a"
    using p by simp
  let ?j = "seek_index target b (positions dim pos (sums ops ?rem))"
  have after: "items_after (p # ps) = ?rem @ items_after ps" using ts(3) by simp
  have anti: "antitone_target target (positions dim pos (sums ops ?rem))"
      "antitone_target target (positions dim (advance dim pos (sums ops ?rem)) (sums ops (items_after ps)))"
    using Cons.prems(6) unfolding after by (simp_all add: positions_append antitone_append)
  have idx: "j = (if ?j < length ?rem then ?j else length ?rem +
      seek_index target b (positions dim (advance dim pos (sums ops ?rem)) (sums ops (items_after ps))))"
    unfolding Cons.prems(7) after by (simp add: positions_append seek_index_append_gen)
  have items: "tree_items root = (items_before (p # ps) @ tree_items t) @ ?rem @ items_after ps"
    using path_items [OF Cons.prems(1)] after by simp
  have hr: "height root - length (p # ps) = h" "height root - length ps = Suc h" using h(1) by auto
  have spans: "span (Suc h) \<le> span (height root)" using h(1) by (intro span_mono) simp
  let ?n = "n + span h"
  show ?case
  proof (rule internal_step [of ?p h s ts root ps pos ?n xs a ?rem target ?j b])
    fix a' assume pop: "seek_loop agg dim target b False (?p # ps) pos a =
        seek_loop agg dim target b True ps (advance dim pos (sums ops ?rem)) a'"
      "R (?n + 12 * piece h) (xs @ ?rem) a'" "?j = length ?rem"
    then have R': "R (n + span (height root - length ps)) (xs @ ?rem) a'" unfolding hr(2) by (simp add: span_Suc add.assoc)
    have k': "k + length ?rem = length (items_before ps @ tree_items (e_tree p))"
      using arg_cong [OF items, of length] path_items [OF path(1)] Cons.prems(2) by simp
    have pos': "advance dim pos (sums ops ?rem) = pos_at ops dim root (k + length ?rem)"
      using pos_at_append [OF items, of ops dim] Cons.prems(2,3) by (simp add: add.assoc)
    let ?j2 = "seek_index target b (positions dim (advance dim pos (sums ops ?rem)) (sums ops (items_after ps)))"
    have j: "j = length ?rem + ?j2" "take j (items_after (p # ps)) = ?rem @ take ?j2 (items_after ps)"
      using idx pop(3) unfolding after by simp_all
    obtain st' a'' where "seek_loop agg dim target b True ps (advance dim pos (sums ops ?rem)) a' =
          Some (st', advance dim (advance dim pos (sums ops ?rem)) (sums ops (take ?j2 (items_after ps))), a'')"
        "stack_pos ops dim root st' (k + length ?rem + ?j2)"
        "R (n + 2 * span (height root)) ((xs @ ?rem) @ take ?j2 (items_after ps)) a''"
      using Cons.IH [OF path(1) k' pos' R' _ anti(2) refl] Cons.prems(5) by auto
    then show ?thesis
      unfolding loop pop(1) j(2) by (simp add: j(1) advance_append add_ac del: seek_loop.simps)
  next
    fix v e' pos' a' m j'
    assume step: "seek_loop agg dim target b False (?p # ps) pos a = seek_loop agg dim target b False (entry v 0 pos' # e' # ps) pos' a'"
      "path_to ops dim root (e' # ps) v" "node_at ops h v" "pos' = pos_at ops dim root (length (items_before (e' # ps)))"
      "items_before (e' # ps) = items_before (?p # ps) @ take m ?rem"
      "R (?n + 11 * piece h) (xs @ take m ?rem) a'"
      "antitone_target target (positions dim pos' (sums ops (tree_items v)))"
      "\<not> beyond (target (advance dim pos' (sums ops (tree_items v)))) b"
      "j' = seek_index target b (positions dim pos' (sums ops (tree_items v)))"
      "?j = m + j'" "?j < length ?rem" "take ?j ?rem = take m ?rem @ take j' (tree_items v)"
    have m: "length (items_before (e' # ps)) = k + m" using step(5,10,11) before Cons.prems(2) by simp
    have "tree_items root = (items_before (p # ps) @ tree_items t) @ take m ?rem @ drop m ?rem @ items_after ps"
      using items by simp
    from pos_at_append [OF this, of ops dim] have pos': "pos' = advance dim pos (sums ops (take m ?rem))"
      using step(4,10,11) m Cons.prems(2,3) by (simp add: add.assoc)
    obtain st' a'' where d: "seek_loop agg dim target b False (entry v 0 pos' # e' # ps) pos' a' =
          Some (st', advance dim pos' (sums ops (take j' (tree_items v))), a'')"
        "stack_at ops dim root st' (length (items_before (e' # ps)) + j')"
        "R (?n + 11 * piece h + span h) ((xs @ take m ?rem) @ take j' (tree_items v)) a''"
      using descend [OF step(3,2) _ step(4,6) _ step(7-9)] root(2) h(1) Cons.prems(5) spans by (auto simp: span_Suc)
    have j: "j = ?j" "take j (items_after (p # ps)) = take m ?rem @ take j' (tree_items v)"
      using idx step(11,12) after by simp_all
    have "stack_pos ops dim root st' (k + j)"
      using d(2) m j(1) step(10) by (auto simp: stack_pos_def stack_at_def add.assoc)
    moreover have "R (n + 2 * span (height root)) (xs @ take j (items_after (p # ps))) a''"
      using mono_law [OF d(3), of "n + 2 * span (height root)"] spans j(2) by (simp add: span_Suc)
    ultimately show ?thesis
      using d(1) step(1) loop j(2) pos' by (auto simp: advance_append)
  qed (use p h ts path Cons.prems before after anti root(2) hr spans in \<open>simp_all add: span_Suc\<close>)
qed

text \<open>The loop from a leaf on a path, and from the root.\<close>

lemma seek_leaf:
  assumes root: "wf_tree ops root" "height root < STACK_CAPACITY"
    and e: "path_to ops dim root ps (e_tree e)" "node_items (e_tree e) = Some ys" "e_index e \<le> length ys"
    and k: "k = length (items_before (e # ps))"
    and a: "R 0 [] a"
    and anti: "antitone_target target (positions dim (pos_at ops dim root k) (sums ops (drop k (tree_items root))))"
  shows "\<exists>st' a'. seek_loop agg dim target b False (e # ps) (pos_at ops dim root k) a =
      Some (st', pos_at ops dim root (seek_to ops dim target b root k), a') \<and>
    stack_pos ops dim root st' (seek_to ops dim target b root k) \<and>
    R (2 * span (height root)) (take (seek_to ops dim target b root k - k) (drop k (tree_items root))) a'"
proof -
  let ?pos = "pos_at ops dim root k" and ?k = "seek_to ops dim target b root k"
  have leaf: "e_tree e = Leaf (summary_sum ops (sums ops ys)) ys (sums ops ys) \<and> length ys \<le> 2 * TREE_BASE"
    using path_wf [OF root(1) e(1)] e(2) by (cases "e_tree e") auto
  let ?rem = "drop (e_index e) ys"
  let ?j = "seek_index target b (positions dim ?pos (sums ops ?rem))"
  have items: "tree_items root = items_before (e # ps) @ ?rem @ items_after ps"
    using path_items [OF e(1)] leaf by (simp add: entry_done_def)
  then have dropk: "drop k (tree_items root) = ?rem @ items_after ps" using k by simp
  have kend: "k + length ?rem = length (items_before ps @ tree_items (e_tree e))"
    using k leaf e(3) by (simp add: entry_done_def)
  have pos': "advance dim ?pos (sums ops ?rem) = pos_at ops dim root (k + length ?rem)"
    using pos_at_append [OF items, of ops dim] k by simp
  have anti': "antitone_target target (positions dim (pos_at ops dim root (k + length ?rem)) (sums ops (items_after ps)))"
    using anti unfolding dropk by (simp add: positions_append antitone_append pos' del: length_drop)
  have lim: "0 + 2 * span (height root) \<le> MAX_WEIGHT" using span_mono [of "height root" STACK_CAPACITY] root(2) by (simp add: MAX_WEIGHT_def)
  have small: "piece 0 \<le> 2 * span (height root)" using span_mono [of 0 "height root"] piece_span [of 0] by simp
  obtain a1 where a1: "R (piece 0) (take ?j ?rem) a1" "seek_loop agg dim target b False (e # ps) ?pos a =
      (if ?j < length ?rem then Some (e\<lparr>e_index := e_index e + ?j\<rparr> # ps, advance dim ?pos (sums ops (take ?j ?rem)), a1)
       else seek_loop agg dim target b True ps (advance dim ?pos (sums ops ?rem)) a1)"
    using leaf_step [of e _ ys 0 "[]" a ?rem ?j target b ?pos False ps] leaf e(3) a
    using lim small by (auto simp del: seek_loop.simps)
  let ?j2 = "seek_index target b (positions dim (pos_at ops dim root (k + length ?rem)) (sums ops (items_after ps)))"
  have to: "?k = k + (if ?j < length ?rem then ?j else length ?rem + ?j2)"
    unfolding seek_to_def dropk by (simp add: positions_append seek_index_append_gen pos' del: length_drop)
  show ?thesis
  proof (cases "?j < length ?rem")
    case True
    let ?e = "e\<lparr>e_index := e_index e + ?j\<rparr>"
    have "entry_done ?e = entry_done e @ take ?j ?rem" using leaf by (simp add: entry_done_def take_add)
    then have "stack_at ops dim root (?e # ps) (k + ?j)"
      using e(1) leaf True k by (simp add: stack_at_def)
    moreover have "advance dim ?pos (sums ops (take ?j ?rem)) = pos_at ops dim root (k + ?j)"
      using items True k by (simp add: pos_at_def advance_append del: length_drop)
    ultimately show ?thesis
      using True a1 to mono_law [OF a1(1) small] dropk by (auto simp: stack_pos_def simp del: seek_loop.simps)
  next
    case False
    then have "?j = length ?rem" using seek_index_le [of target b "positions dim ?pos (sums ops ?rem)"] by simp
    with a1 False have loop: "R (piece 0) ?rem a1" "seek_loop agg dim target b False (e # ps) ?pos a =
        seek_loop agg dim target b True ps (advance dim ?pos (sums ops ?rem)) a1" by simp_all
    have R': "R (0 + span (height root - length ps)) ?rem a1"
      using mono_law [OF loop(1)] piece_span [of 0] span_mono [of 0 "height root - length ps"] by simp
    obtain st' a' where asc: "seek_loop agg dim target b True ps (pos_at ops dim root (k + length ?rem)) a1 =
          Some (st', advance dim (pos_at ops dim root (k + length ?rem)) (sums ops (take ?j2 (items_after ps))), a')"
        "stack_pos ops dim root st' (k + length ?rem + ?j2)"
        "R (0 + 2 * span (height root)) (?rem @ take ?j2 (items_after ps)) a'"
      using ascend [OF root e(1) kend refl R' lim anti' refl, of b] by (elim exE conjE) (rule that)
    have "advance dim (pos_at ops dim root (k + length ?rem)) (sums ops (take ?j2 (items_after ps))) = pos_at ops dim root ?k"
      using pos_at_append [of root "items_before (e # ps) @ ?rem" "take ?j2 (items_after ps)" "drop ?j2 (items_after ps)" ops dim]
        items False k to seek_index_le [of target b "positions dim (pos_at ops dim root (k + length ?rem)) (sums ops (items_after ps))"]
      by (simp add: add.assoc)
    then show ?thesis
      using asc loop(2) to False dropk pos'
      by (auto simp: add.assoc simp del: seek_loop.simps)
  qed
qed

lemma seek_root:
  assumes root: "wf_tree ops root" "height root < STACK_CAPACITY"
    and a: "R 0 [] a"
    and anti: "antitone_target target (positions dim (d_zero dim) (sums ops (tree_items root)))"
  shows "\<exists>st' a'. seek_loop agg dim target b False [entry root 0 (d_zero dim)] (d_zero dim) a =
      Some (st', pos_at ops dim root (seek_to ops dim target b root 0), a') \<and>
    stack_pos ops dim root st' (seek_to ops dim target b root 0) \<and>
    R (2 * span (height root)) (take (seek_to ops dim target b root 0) (tree_items root)) a'"
  using root(1)
proof (cases rule: wf_tree_cases)
  case (1 ys)
  have "items_before [entry root 0 (d_zero dim)] = []" by (simp add: entry_done_def split: sum_tree.splits)
  with seek_leaf [of root "[]" "entry root 0 (d_zero dim)" ys 0 a target b] 1 root a anti show ?thesis
    by (simp add: pos_at_def del: seek_loop.simps)
next
  case (2 h ts)
  let ?e = "entry root 0 (d_zero dim)" and ?k = "seek_to ops dim target b root 0"
  have k: "?k = seek_index target b (positions dim (d_zero dim) (sums ops (items_of ts)))"
    using 2 by (simp add: seek_to_def pos_at_def)
  have before: "items_before [?e] = []" by (simp add: entry_done_def split: sum_tree.splits)
  have zero: "pos_at ops dim root 0 = d_zero dim" by (simp add: pos_at_def)
  have lim: "span (Suc h) \<le> MAX_WEIGHT" "span (Suc h) \<le> 2 * span (height root)" "h < 256"
    using span_mono [of "Suc h" STACK_CAPACITY] root(2) 2 by (simp_all add: MAX_WEIGHT_def STACK_CAPACITY_def)
  show ?thesis
  proof (rule internal_step [of ?e h _ ts root "[]" "d_zero dim" 0 "[]" a "items_of ts" target ?k b])
    fix a' assume pop: "seek_loop agg dim target b False [?e] (d_zero dim) a =
        seek_loop agg dim target b True [] (advance dim (d_zero dim) (sums ops (items_of ts))) a'"
      "R (0 + 12 * piece h) ([] @ items_of ts) a'" "?k = length (items_of ts)"
    then show ?thesis
      using 2 lim mono_law [OF pop(2), of "2 * span (height root)"] by (auto simp: stack_pos_def pos_at_def span_Suc)
  next
    fix v e' pos' a' m j'
    assume step: "seek_loop agg dim target b False [?e] (d_zero dim) a = seek_loop agg dim target b False (entry v 0 pos' # e' # []) pos' a'"
      "path_to ops dim root [e'] v" "node_at ops h v" "pos' = pos_at ops dim root (length (items_before [e']))"
      "items_before [e'] = items_before [?e] @ take m (items_of ts)" "R (0 + 11 * piece h) ([] @ take m (items_of ts)) a'"
      "antitone_target target (positions dim pos' (sums ops (tree_items v)))"
      "\<not> beyond (target (advance dim pos' (sums ops (tree_items v)))) b"
      "j' = seek_index target b (positions dim pos' (sums ops (tree_items v)))"
      "?k = m + j'" "?k < length (items_of ts)" "take ?k (items_of ts) = take m (items_of ts) @ take j' (tree_items v)"
    have m: "length (items_before [e']) = m" using step(5,10,11) before by simp
    obtain st' a'' where d: "seek_loop agg dim target b False [entry v 0 pos', e'] pos' a' =
          Some (st', advance dim pos' (sums ops (take j' (tree_items v))), a'')"
        "stack_at ops dim root st' (length (items_before [e']) + j')"
        "R (0 + 11 * piece h + span h) (([] @ take m (items_of ts)) @ take j' (tree_items v)) a''"
      using descend [OF step(3,2) _ step(4,6) _ step(7-9)] 2 root(2) lim by (auto simp: span_Suc)
    have "advance dim pos' (sums ops (take j' (tree_items v))) = pos_at ops dim root ?k"
      using step(4,12) m 2 by (simp add: pos_at_def advance_append)
    moreover have "R (2 * span (height root)) (take ?k (tree_items root)) a''"
      using mono_law [OF d(3), of "2 * span (height root)"] lim step(12) 2 by (simp add: span_Suc)
    moreover have "stack_pos ops dim root st' ?k"
      using d(2) m step(10) by (auto simp: stack_pos_def stack_at_def)
    ultimately show ?thesis using d(1) step(1) by auto
  qed (use 2 root(2) a anti k before zero lim in \<open>simp_all add: span_Suc\<close>)
qed

end

end
