(* ===== verification/Cursor_Seek.thy ===== *)
theory Cursor_Seek
  imports Tree_Cursor_Props
begin

text \<open>
  Seeking at the level of the cursor: \<open>seek\<close>, \<open>seek_forward\<close>, \<open>slice\<close>, \<open>suffix\<close> and
  \<open>summary\<close> move the cursor to the first item that is not before the target and never panic,
  for the three aggregates of the source. A slice holds exactly the items passed over.
\<close>

section \<open>Cursor states\<close>

text \<open>The cursor stands on item \<open>k\<close>, or behind the last item, with the position of that place.
  A cursor that has not been moved yet counts as standing on item 0.\<close>

definition cursor_at :: "('t, 's) item_ops \<Rightarrow> ('d, 's) dim_ops \<Rightarrow> ('t, 's, 'd) cursor \<Rightarrow> nat \<Rightarrow> bool" where
  "cursor_at ops dim c k \<longleftrightarrow>
     c_position c = pos_at ops dim (c_tree c) k \<and>
     (if c_did_seek c then stack_pos ops dim (c_tree c) (c_stack c) k \<and> c_at_end c = (c_stack c = [])
      else c_stack c = [] \<and> k = 0 \<and> c_at_end c = tree_is_empty (c_tree c))"

definition wf_cursor :: "('t, 's) item_ops \<Rightarrow> ('t, 's, 'd) cursor \<Rightarrow> bool" where
  "wf_cursor ops c \<longleftrightarrow> wf_tree ops (c_tree c) \<and> height (c_tree c) < STACK_CAPACITY"

lemma cursor_at_new: "cursor_at ops dim (cursor_new dim t) 0" "c_tree (cursor_new dim t) = t"
  by (simp_all add: cursor_at_def cursor_new_def pos_at_def)

lemma cursor_at_reset: "cursor_at ops dim (cursor_reset dim c) 0" "c_tree (cursor_reset dim c) = c_tree c"
  by (simp_all add: cursor_at_def cursor_reset_def pos_at_def)

lemma pos_at_Suc:
  "k < length (tree_items t) \<Longrightarrow> d_add dim (pos_at ops dim t k) (item_summary ops (tree_items t ! k)) = pos_at ops dim t (Suc k)"
  by (simp add: pos_at_def take_Suc_conv_app_nth advance_append)

lemma cursor_at_position: "cursor_at ops dim c k \<Longrightarrow> c_position c = pos_at ops dim (c_tree c) k"
  by (simp add: cursor_at_def)

lemma cursor_at_le: "cursor_at ops dim c k \<Longrightarrow> k \<le> length (tree_items (c_tree c))"
  using stack_at_bound by (fastforce simp: cursor_at_def stack_pos_def split: if_splits)

lemma cursor_item_correct:
  assumes "cursor_at ops dim c k" "c_did_seek c"
  shows "cursor_item c = Some (index_opt (tree_items (c_tree c)) k)"
proof (cases "c_stack c")
  case Nil
  with assms show ?thesis by (simp add: cursor_item_def cursor_at_def stack_pos_def)
next
  case (Cons e ps)
  with assms have "stack_at ops dim (c_tree c) (e # ps) k" by (simp add: cursor_at_def stack_pos_def)
  with Cons assms(2) stack_at_bound [OF this] show ?thesis
    by (auto simp: cursor_item_def elim!: stack_at_item)
qed

lemma cursor_item_summary_correct:
  assumes "cursor_at ops dim c k" "c_did_seek c" "wf_tree ops (c_tree c)"
  shows "cursor_item_summary c = Some (map_option (item_summary ops) (index_opt (tree_items (c_tree c)) k))"
proof (cases "c_stack c")
  case Nil
  with assms show ?thesis by (simp add: cursor_item_summary_def cursor_at_def stack_pos_def)
next
  case (Cons e ps)
  with assms have st: "stack_at ops dim (c_tree c) (e # ps) k" by (simp add: cursor_at_def stack_pos_def)
  then have "wf_tree ops (e_tree e)" using path_wf [OF assms(3)] by (auto simp: stack_at_def)
  with Cons assms(2) stack_at_bound [OF st] st show ?thesis
    by (auto simp: cursor_item_summary_def elim!: stack_at_item split: sum_tree.splits)
qed

lemma cursor_end_correct:
  assumes "cursor_at ops dim c k" "c_did_seek c" "wf_tree ops (c_tree c)"
  shows "cursor_end dim c = Some (pos_at ops dim (c_tree c) (if k < length (tree_items (c_tree c)) then Suc k else k))"
  using cursor_item_summary_correct [OF assms] assms(1)
  by (auto simp: cursor_end_def cursor_start_def pos_at_Suc cursor_at_def)

section \<open>Aggregates\<close>

context seek_aggregate_laws
begin

lemma seek_internal_correct:
  assumes c: "wf_cursor ops c" "cursor_at ops dim c k" and a: "R 0 [] a"
    and fwd: "target (c_position c) \<noteq> Less"
    and anti: "antitone_target target (positions dim (pos_at ops dim (c_tree c) k) (sums ops (drop k (tree_items (c_tree c)))))"
    and k': "k' = seek_to ops dim target b (c_tree c) k"
  shows "\<exists>a' c'. seek_internal agg dim target b a c =
      Some (target (pos_at ops dim (c_tree c) (if b = Left \<and> k' < length (tree_items (c_tree c)) then Suc k' else k')) = Equal, a', c') \<and>
    c_tree c' = c_tree c \<and> c_did_seek c' \<and> cursor_at ops dim c' k' \<and>
    R (2 * span (height (c_tree c))) (take (k' - k) (drop k (tree_items (c_tree c)))) a'"
proof -
  let ?root = "c_tree c"
  have root: "wf_tree ops ?root" "height ?root < STACK_CAPACITY" using c(1) by (simp_all add: wf_cursor_def)
  have pos: "c_position c = pos_at ops dim ?root k" using c(2) by (simp add: cursor_at_def)
  obtain st0 where st0: "(if \<not> c_did_seek c then push_entry (entry ?root 0 (d_zero dim)) (c_stack c) else Some (c_stack c)) = Some st0"
      "\<exists>st' a'. seek_loop agg dim target b False st0 (c_position c) a = Some (st', pos_at ops dim ?root k', a') \<and>
        stack_pos ops dim ?root st' k' \<and> R (2 * span (height ?root)) (take (k' - k) (drop k (tree_items ?root))) a'"
  proof (cases "c_did_seek c")
    case False
    with c(2) have "k = 0" "c_stack c = []" by (simp_all add: cursor_at_def)
    with False seek_root [OF root a, of target b] anti pos that k' show ?thesis
      by (simp add: pos_at_def push_entry_def STACK_CAPACITY_def del: seek_loop.simps)
  next
    case True
    show ?thesis
    proof (cases "c_stack c")
      case Nil
      with True c(2) have k: "k = length (tree_items ?root)" by (simp add: cursor_at_def stack_pos_def)
      then have "k' = k" using k' by (simp add: seek_to_def seek_index_def)
      with k True Nil that pos mono_law [OF a, of "2 * span (height (c_tree c))"] show ?thesis by (simp add: stack_pos_def)
    next
      case (Cons e ps)
      with True c(2) obtain ys where "path_to ops dim ?root ps (e_tree e)" "node_items (e_tree e) = Some ys"
          "e_index e \<le> length ys" "k = length (items_before (e # ps))"
        by (auto simp: cursor_at_def stack_pos_def stack_at_def)
      from seek_leaf [OF root this a anti, of b] True Cons that pos k' show ?thesis by auto
    qed
  qed
  then obtain st' a' where loop: "seek_loop agg dim target b False st0 (c_position c) a = Some (st', pos_at ops dim ?root k', a')"
      "stack_pos ops dim ?root st' k'" "R (2 * span (height ?root)) (take (k' - k) (drop k (tree_items ?root))) a'" by blast
  let ?c = "c\<lparr>c_stack := st', c_position := pos_at ops dim ?root k', c_did_seek := True, c_at_end := st' = []\<rparr>"
  have at: "cursor_at ops dim ?c k'" using loop(2) by (simp add: cursor_at_def)
  then have "cursor_end dim ?c = Some (pos_at ops dim ?root (if k' < length (tree_items ?root) then Suc k' else k'))"
    using cursor_end_correct [OF at] root(1) by simp
  with at loop st0(1) fwd show ?thesis
    by (cases b) (auto simp: seek_internal_def)
qed

end

text \<open>The unit aggregate and the summary of what is passed over.\<close>

sublocale search_laws \<subseteq> unit_agg: seek_aggregate_laws ops dim unit_aggregate "\<lambda>_ _ _. True" "\<lambda>_ _ _ _. True"
  by unfold_locales (simp_all add: unit_aggregate_def)

section \<open>How high a slice gets\<close>

text \<open>
  How high a tree can get by appending. The right spine of a tree is read as a number to the base
  7, with a digit for every level: the number of children there, less one. Splitting a node of 13
  children leaves 6 on the right and adds one child above, which does not change the number.
\<close>

fun vol :: "('t, 's) sum_tree \<Rightarrow> nat" where
  "vol (Leaf s xs ss) = length ss - 1"
| "vol (Internal h s cs ts) = (length ts - 1) * 7 ^ h + (if ts = [] then 0 else vol (last ts))"

lemma vol_bound: "wf_tree ops t \<Longrightarrow> 6 * vol t + 11 \<le> 11 * 7 ^ Suc (height t)"
proof (induction t)
  case (Internal h s cs ts)
  then have l: "last ts \<in> set ts" "wf_tree ops (last ts)" "Suc (height (last ts)) = h" "length ts - 1 \<le> 11" "ts \<noteq> []"
    by (auto simp: TREE_BASE_def)
  have "6 * vol (last ts) + 11 \<le> 11 * 7 ^ h" using Internal.IH [OF l(1,2)] l(3) by simp
  moreover have "(length ts - 1) * 7 ^ h \<le> 11 * 7 ^ h" using l(4) by (intro mult_le_mono1)
  moreover have "vol (Internal h s cs ts) = (length ts - 1) * 7 ^ h + vol (last ts)" using l(5) by simp
  ultimately show ?case unfolding height.simps power_Suc by linarith
qed (auto simp: TREE_BASE_def)

lemma vol_bound_node: "node_at ops h t \<Longrightarrow> vol t \<le> 2 * 7 ^ Suc h"
  using vol_bound [of ops t] by (auto simp: node_at_def)

text \<open>A node after it has taken in new children, with the last one of bounded weight.\<close>

lemma vol_internal: "ts \<noteq> [] \<Longrightarrow> vol (Internal h s cs ts) + 7 ^ h = length ts * 7 ^ h + vol (last ts)"
  by (cases ts) (simp_all add: add_ac)

lemma array_vec_len: "array_vec xs = Some ys \<Longrightarrow> length ys \<le> 12"
  by (auto simp: array_vec_def TREE_BASE_def split: if_splits)

definition finish_push ::
  "('t, 's) item_ops \<Rightarrow> nat \<Rightarrow> 's \<Rightarrow> 's list \<Rightarrow> ('t, 's) sum_tree list \<Rightarrow> (('t, 's) sum_tree \<times> ('t, 's) sum_tree option) option" where
  "finish_push ops h s cs ts =
     (let child_count = length ts in
      if 2 * TREE_BASE < child_count then do {
        let midpoint = (child_count + child_count mod 2) div 2;
        left_summaries \<leftarrow> array_vec (take midpoint cs);
        right_summaries \<leftarrow> array_vec (drop midpoint cs);
        left_trees \<leftarrow> array_vec (take midpoint ts);
        right_trees \<leftarrow> array_vec (drop midpoint ts);
        Some (Internal h (summary_sum ops left_summaries) left_summaries left_trees,
              Some (Internal h (summary_sum ops right_summaries) right_summaries right_trees))
      } else do {
        cs' \<leftarrow> array_vec cs;
        ts' \<leftarrow> array_vec ts;
        Some (Internal h s cs' ts', None)
      })"

lemma push_internal_eq:
  "push_tree_recursive ops (Internal h s cs ts) other = do {
     (cs1, ts1, ca, ta) \<leftarrow>
       (if u8_sub h (height other) = 0 then do {
          ots \<leftarrow> child_trees other;
          ca \<leftarrow> array_vec (child_summaries other);
          ta \<leftarrow> array_vec ots;
          Some (cs, ts, ca, ta)
        }
        else if u8_sub h (height other) = 1 \<and> \<not> is_underflowing other then
          Some (cs, ts, [summary other], [other])
        else if ts = [] then None
        else do {
          (last', split) \<leftarrow> push_tree_recursive ops (last ts) other;
          rust_assert (cs \<noteq> []);
          case split of
            None \<Rightarrow> Some (butlast cs @ [summary last'], butlast ts @ [last'], [], [])
          | Some split_tree \<Rightarrow> Some (butlast cs @ [summary last'], butlast ts @ [last'], [summary split_tree], [split_tree])
        });
     finish_push ops h (s_add ops s (summary other)) (cs1 @ ca) (ts1 @ ta)
   }"
  by (simp only: push_tree_recursive.simps(1) Let_def finish_push_def length_append)

lemma finish_push_vol:
  assumes "finish_push ops h s cs ts = Some (t, r)" "ts \<noteq> []" "length ts * 7 ^ h + vol (last ts) \<le> 7 ^ h + m"
  shows "case r of None \<Rightarrow> vol t \<le> m | Some s \<Rightarrow> vol s + 7 ^ Suc h \<le> m"
proof (cases "12 < length ts")
  case True
  let ?k = "(length ts + length ts mod 2) div 2"
  have "?k < length ts" "length ts - ?k = length ts div 2" using True by presburger+
  then have k: "?k < length ts" "length (drop ?k ts) = length ts div 2" by simp_all
  obtain s' cs' where r: "r = Some (Internal h s' cs' (drop ?k ts))"
    using assms(1) True by (auto simp: finish_push_def TREE_BASE_def array_vec_def Let_def split: if_splits)
  have "drop ?k ts \<noteq> []" using k(1) by simp
  from vol_internal [OF this, of h s' cs'] have "vol (Internal h s' cs' (drop ?k ts)) + 7 ^ h = length ts div 2 * 7 ^ h + vol (last ts)"
    unfolding k(2) last_drop [OF k(1)] .
  moreover have "(length ts div 2 + 7) * 7 ^ h \<le> length ts * 7 ^ h" using True by (intro mult_le_mono1) linarith
  ultimately show ?thesis using assms(3) r by (simp add: distrib_right)
next
  case False
  then obtain cs' where "r = None" "t = Internal h s cs' ts"
    using assms(1) by (auto simp: finish_push_def TREE_BASE_def array_vec_def split: if_splits)
  then show ?thesis using vol_internal [OF assms(2), of h s cs'] assms(3) by simp
qed

text \<open>A tree built from pieces of total weight \<open>n\<close>.\<close>

definition spine_room :: "nat \<Rightarrow> ('t, 's) sum_tree \<Rightarrow> bool" where
  "spine_room n t \<longleftrightarrow> vol t \<le> n \<and> 7 ^ height t \<le> Suc n"

lemma spine_room_mono: "spine_room n t \<Longrightarrow> n \<le> m \<Longrightarrow> spine_room m t"
  by (auto simp: spine_room_def)

lemma spine_height: "spine_room (2 * span h) t \<Longrightarrow> height t \<le> h + 2"
proof (rule ccontr)
  assume a: "spine_room (2 * span h) t" "\<not> height t \<le> h + 2"
  then have "(7::nat) ^ (h + 3) \<le> 7 ^ height t" by (intro power_increasing) simp_all
  also have "\<dots> \<le> 84 * 7 ^ h + 1" using a(1) by (simp add: spine_room_def span_def)
  finally have "343 * 7 ^ h \<le> 84 * 7 ^ h + (1::nat)" by (simp add: power_add)
  moreover have "(0::nat) < 7 ^ h" by simp
  ultimately show False by linarith
qed

text \<open>A tree built from \<open>n\<close> pieces of height at most \<open>H\<close>: its height grows with the logarithm of \<open>n\<close>.\<close>

definition tree_room :: "nat \<Rightarrow> nat \<Rightarrow> ('t, 's) sum_tree \<Rightarrow> bool" where
  "tree_room H n t \<longleftrightarrow> spine_room (n * piece H) t"

lemma tree_room_mono: "tree_room H n t \<Longrightarrow> n \<le> m \<Longrightarrow> tree_room H m t"
  unfolding tree_room_def by (erule spine_room_mono) simp

lemma tree_room_height:
  assumes "tree_room 53 n t" "n \<le> 2 ^ 66"
  shows "height t < 255"
proof (rule ccontr)
  assume "\<not> height t < 255"
  then have "(7::nat) ^ 255 \<le> 7 ^ height t" by (intro power_increasing) simp_all
  also have "\<dots> \<le> Suc (n * piece 53)" using assms(1) by (simp add: tree_room_def spine_room_def)
  also have "\<dots> \<le> Suc (2 ^ 66 * piece 53)" using assms(2) by (simp only: Suc_le_mono mult_le_mono1)
  finally show False by (simp add: piece_def)
qed

definition slice_holds :: "('t, 's) item_ops \<Rightarrow> nat \<Rightarrow> 't list \<Rightarrow> 't list \<Rightarrow> ('t, 's) slice_state \<Rightarrow> bool" where
  "slice_holds ops n xs ys a \<longleftrightarrow>
     wf_tree ops (sl_tree a) \<and> tree_items (sl_tree a) = xs \<and> spine_room n (sl_tree a) \<and>
     length ys \<le> 2 * TREE_BASE \<and> leaf_items a = ys \<and> leaf_item_summaries a = sums ops ys \<and>
     leaf_summary a = summary_sum ops (sums ops ys)"

context summary_laws
begin

lemma vol_push_leaf:
  assumes "node_at ops 0 a" "node_at ops 0 b" "push_tree_recursive ops a b = Some (a', r)"
  shows "case r of None \<Rightarrow> vol a' \<le> vol a + piece 0 | Some s \<Rightarrow> vol s + 7 \<le> vol a + piece 0"
proof -
  obtain ys where y: "a = Leaf (summary_sum ops (map (item_summary ops) ys)) ys (map (item_summary ops) ys)"
      "length ys \<le> 2 * TREE_BASE" "ys \<noteq> []" using assms(1) by (rule leaf_node_cases)
  obtain zs where z: "b = Leaf (summary_sum ops (map (item_summary ops) zs)) zs (map (item_summary ops) zs)"
      "length zs \<le> 2 * TREE_BASE" "zs \<noteq> []" using assms(2) by (rule leaf_node_cases)
  note push = assms(3) [unfolded y(1) z(1) push_tree_recursive.simps node_items.simps bind.bind_lunit Let_def child_summaries.simps]
  show ?thesis
  proof (cases "2 * TREE_BASE < length ys + length zs")
    case True
    then obtain s' xs' ss' where "r = Some (Leaf s' xs' ss')" "length ss' \<le> 12"
      using push by (auto simp: Option.bind_eq_Some_conv dest: array_vec_len)
    then show ?thesis by (simp add: piece_def)
  next
    case False
    with push have "r = None" "vol a' = length ys + length zs - 1" by (auto simp: array_vec_def Option.bind_eq_Some_conv)
    then show ?thesis using False y(3) by (simp add: y(1) piece_def TREE_BASE_def)
  qed
qed

lemma vol_push:
  assumes "node_at ops h a" "node_at ops g b" "g \<le> h" "push_tree_recursive ops a b = Some (a', r)"
  shows "case r of None \<Rightarrow> vol a' \<le> vol a + piece g | Some s \<Rightarrow> vol s + 7 ^ Suc h \<le> vol a + piece g"
  using assms(1,3,4)
proof (induction h arbitrary: a a' r)
  case 0
  then show ?case using vol_push_leaf [of a b a' r] assms(2) by (cases r) simp_all
next
  case (Suc h)
  obtain ts where ts: "a = Internal (Suc h) (summary_sum ops (map summary ts)) (map summary ts) ts"
      "ts \<noteq> []" "length ts \<le> 2 * TREE_BASE" "\<forall>t \<in> set ts. node_at ops h t" "Suc h < 256"
    using Suc.prems(1) by (rule internal_node_cases)
  have g: "height b = g" using assms(2) by (simp add: node_at_def)
  let ?fin = "finish_push ops (Suc h) (s_add ops (summary_sum ops (map summary ts)) (summary b))"
  have a: "vol a + 7 ^ Suc h = length ts * 7 ^ Suc h + vol (last ts)" unfolding ts(1) using ts(2) by (rule vol_internal)
  have fin: ?case if "?fin cs1 xs = Some (a', r)" "xs \<noteq> []" "length xs * 7 ^ Suc h + vol (last xs) \<le> length ts * 7 ^ Suc h + vol (last ts) + piece g" for cs1 xs
    using finish_push_vol [OF that(1,2), of "vol a + piece g"] that(3) a by simp
  note push = Suc.prems(3) [unfolded ts(1) push_internal_eq g]
  consider (same) "g = Suc h" | (child) "g = h" "\<not> is_underflowing b" | (below) "g \<le> h" "g = h \<longrightarrow> is_underflowing b"
    using Suc.prems(2) by linarith
  then show ?case
  proof cases
    case same
    with assms(2) have "node_at ops (Suc h) b" by simp
    then obtain us where us: "b = Internal (Suc h) (summary_sum ops (map summary us)) (map summary us) us"
      "us \<noteq> []" "length us \<le> 2 * TREE_BASE" "\<forall>t \<in> set us. node_at ops h t" by (rule internal_node_cases)
    have "vol (last us) \<le> 2 * 7 ^ Suc h" using vol_bound_node [of ops h "last us"] us(2,4) by simp
    moreover have "length us * 7 ^ Suc h \<le> 12 * 7 ^ Suc h" using us(3) by (intro mult_le_mono1) (simp add: TREE_BASE_def)
    moreover have "vol (last (ts @ us)) = vol (last us)" using us(2) by simp
    ultimately have "length (ts @ us) * 7 ^ Suc h + vol (last (ts @ us)) \<le> length ts * 7 ^ Suc h + vol (last ts) + piece g"
      unfolding piece_def length_append distrib_right same by linarith
    moreover have "?fin (map summary ts @ map summary us) (ts @ us) = Some (a', r)"
      using push us(1,3) same ts(5) by (simp add: array_vec_def)
    ultimately show ?thesis using fin ts(2) by blast
  next
    case child
    have "vol b \<le> 2 * 7 ^ Suc h" using vol_bound_node [OF assms(2)] child by simp
    then have "length (ts @ [b]) * 7 ^ Suc h + vol (last (ts @ [b])) \<le> length ts * 7 ^ Suc h + vol (last ts) + piece g"
      using child by (simp add: piece_def)
    moreover have "?fin (map summary ts @ [summary b]) (ts @ [b]) = Some (a', r)" using push child ts(5) by simp
    ultimately show ?thesis using fin ts(2) by blast
  next
    case below
    then have delta: "u8_sub (Suc h) g \<noteq> 0" "\<not> (u8_sub (Suc h) g = 1 \<and> \<not> is_underflowing b)" using ts(5) by auto
    obtain l split where l: "push_tree_recursive ops (last ts) b = Some (l, split)"
        "?fin (butlast (map summary ts) @ summary l # (case split of None \<Rightarrow> [] | Some s \<Rightarrow> [summary s])) (butlast ts @ l # (case split of None \<Rightarrow> [] | Some s \<Rightarrow> [s])) = Some (a', r)"
      using push delta ts(2) by (cases "push_tree_recursive ops (last ts) b") (auto split: option.splits)
    have "node_at ops h (last ts)" using ts(2,4) by simp
    from Suc.IH [OF this below(1) l(1)]
    have "length (butlast ts @ l # (case split of None \<Rightarrow> [] | Some s \<Rightarrow> [s])) * 7 ^ Suc h + vol (last (butlast ts @ l # (case split of None \<Rightarrow> [] | Some s \<Rightarrow> [s])))
        \<le> length ts * 7 ^ Suc h + vol (last ts) + piece g"
      using ts(2) by (cases ts rule: rev_cases; cases split) (simp_all add: distrib_right)
    then show ?thesis using fin [OF l(2)] by blast
  qed
qed

lemma append_weight:
  assumes wf: "wf_tree ops a" "wf_tree ops b" and h: "height a < 255" "height b < 255" and room: "spine_room n a"
  shows "\<exists>t. tree_append ops a b = Some t \<and> wf_tree ops t \<and> tree_items t = tree_items a @ tree_items b \<and>
    spine_room (n + piece (height b)) t"
proof -
  obtain t where t: "tree_append ops a b = Some t" "wf_tree ops t" "tree_items t = tree_items a @ tree_items b"
    using append_correct [OF wf h] by blast
  let ?p = "piece (height b)"
  have p: "7 ^ height b \<le> ?p" "3 * 7 ^ Suc (height b) = ?p" by (simp_all add: piece_def)
  have small: "vol x \<le> 2 * 7 ^ Suc (height x)" if "wf_tree ops x" for x using vol_bound [OF that] by simp
  consider "tree_is_empty a" | "\<not> tree_is_empty a" "tree_is_empty b"
    | (large) "node_at ops (height a) a" "node_at ops (height b) b" "height a < height b"
    | (push) "node_at ops (height a) a" "node_at ops (height b) b" "height b \<le> height a"
    using wf by (fastforce simp: node_at_def)
  then have "spine_room (n + ?p) t"
  proof cases
    case 1
    then have "t = b" using t(1) by (simp add: tree_append_def)
    then show ?thesis using small [OF wf(2)] p by (simp add: spine_room_def)
  next
    case 2
    then have "is_leaf b" "node_items b = Some []" by (cases b; simp)+
    with 2 have "t = a" using t(1) by (simp add: tree_append_def)
    then show ?thesis using spine_room_mono [OF room] by simp
  next
    case large
    then have "\<not> tree_is_empty a" "\<not> is_leaf b \<or> node_items b \<noteq> Some []" by (cases b; simp add: node_at_def)+
    moreover obtain b' r where r: "append_large ops a b = Some (b', r)" "grown_left ops (height b) (tree_items a @ tree_items b) (b', r)"
      using append_large_grown [OF large(2,1)] large(3) by fastforce
    ultimately have eq: "(case r of Some s \<Rightarrow> from_child_trees ops s b' | None \<Rightarrow> Some b') = Some t"
      using t(1) large(3) by (simp add: tree_append_def)
    have b': "wf_tree ops b'" "height b' = height b" using r(2) by (auto simp: grown_left_def node_at_def split: option.splits)
    show ?thesis
    proof (cases r)
      case None
      then show ?thesis using eq small [OF b'(1)] b'(2) p by (simp add: spine_room_def)
    next
      case (Some s)
      then have "height s = height b" using r(2) by (simp add: grown_left_def node_at_def)
      with Some eq h(2) have "height t = Suc (height b)" "vol t = 7 ^ Suc (height b) + vol b'"
        by (auto simp: from_child_trees_def array_vec_def TREE_BASE_def)
      then show ?thesis using small [OF b'(1)] b'(2) p by (simp add: spine_room_def)
    qed
  next
    case push
    then have "\<not> tree_is_empty a" "\<not> is_leaf b \<or> node_items b \<noteq> Some []" by (cases b; simp add: node_at_def)+
    moreover obtain a' r where r: "push_tree_recursive ops a b = Some (a', r)" "grown_right ops (height a) (tree_items a @ tree_items b) (a', r)"
      using push_tree_recursive_grown [OF push(1,2,3)] by fastforce
    ultimately have eq: "(case r of Some s \<Rightarrow> from_child_trees ops a' s | None \<Rightarrow> Some a') = Some t"
      using t(1) push(3) by (simp add: tree_append_def)
    have a': "height a' = height a" using r(2) by (auto simp: grown_right_def node_at_def split: option.splits)
    note v = vol_push [OF push(1-3) r(1)]
    show ?thesis
    proof (cases r)
      case None
      then show ?thesis using eq v a' room by (simp add: spine_room_def)
    next
      case (Some s)
      with eq h(1) a' have "height t = Suc (height a)" "vol t = 7 ^ Suc (height a) + vol s"
        by (auto simp: from_child_trees_def array_vec_def TREE_BASE_def)
      then show ?thesis using v Some room by (simp add: spine_room_def)
    qed
  qed
  with t show ?thesis by blast
qed

lemma append_room:
  assumes wf: "wf_tree ops a" "wf_tree ops b" and h: "height b \<le> 53" and room: "tree_room 53 n a" "n \<le> 2 ^ 66"
  shows "\<exists>t. tree_append ops a b = Some t \<and> wf_tree ops t \<and> tree_items t = tree_items a @ tree_items b \<and> tree_room 53 (Suc n) t"
proof -
  obtain t where t: "tree_append ops a b = Some t" "wf_tree ops t" "tree_items t = tree_items a @ tree_items b"
      "spine_room (n * piece 53 + piece (height b)) t"
    using append_weight [OF wf tree_room_height [OF room] _ room(1) [unfolded tree_room_def]] h by auto
  have "piece (height b) \<le> piece 53" using h unfolding piece_def by (intro mult_le_mono2 power_increasing) simp_all
  then have "tree_room 53 (Suc n) t" unfolding tree_room_def by (intro spine_room_mono [OF t(4)]) simp
  with t show ?thesis by blast
qed

end

lemma weight_height: "spine_room n t \<Longrightarrow> n \<le> MAX_WEIGHT \<Longrightarrow> height t < 255"
  using spine_height [of STACK_CAPACITY t] spine_room_mono [of n t MAX_WEIGHT]
  by (auto simp: MAX_WEIGHT_def STACK_CAPACITY_def)

sublocale search_laws \<subseteq> slice_agg: seek_aggregate_laws ops dim "slice_aggregate ops"
  "\<lambda>n xs. slice_holds ops n xs []" "slice_holds ops"
proof unfold_locales
  fix n xs ys x and a :: "('t, 's) slice_state"
  assume "slice_holds ops n xs ys a" "length ys < 2 * TREE_BASE"
  then show "\<exists>a'. push_item (slice_aggregate ops) x (item_summary ops x) a = Some a' \<and> slice_holds ops n xs (ys @ [x]) a'"
    by (simp add: slice_aggregate_def slice_push_item_def slice_holds_def summary_sum_def)
next
  fix n xs ys and a :: "('t, 's) slice_state"
  assume a: "slice_holds ops n xs ys a" "n + piece 0 \<le> MAX_WEIGHT"
  then have "height (sl_tree a) < 255" using weight_height [of n "sl_tree a"] by (simp add: slice_holds_def)
  with a obtain t where "tree_append ops (sl_tree a) (Leaf (leaf_summary a) (leaf_items a) (leaf_item_summaries a)) = Some t"
      "wf_tree ops t" "tree_items t = xs @ ys" "spine_room (n + piece 0) t"
    using append_weight [of "sl_tree a" "Leaf (leaf_summary a) (leaf_items a) (leaf_item_summaries a)" n]
    by (auto simp: slice_holds_def)
  then show "\<exists>a'. end_leaf (slice_aggregate ops) a = Some a' \<and> slice_holds ops (n + piece 0) (xs @ ys) [] a'"
    by (simp add: slice_aggregate_def slice_end_leaf_def slice_holds_def summary_sum_def)
next
  fix n xs h t and a :: "('t, 's) slice_state"
  assume a: "slice_holds ops n xs [] a" "n + piece h \<le> MAX_WEIGHT" "node_at ops h t" "h < STACK_CAPACITY"
  then have "height (sl_tree a) < 255" "height t < 255"
    using weight_height [of n "sl_tree a"] by (simp_all add: slice_holds_def node_at_def STACK_CAPACITY_def)
  with a show "\<exists>a'. push_tree (slice_aggregate ops) t (summary t) a = Some a' \<and> slice_holds ops (n + piece h) (xs @ tree_items t) [] a'"
    using append_weight [of "sl_tree a" t n]
    by (auto simp: slice_aggregate_def slice_push_tree_def slice_holds_def node_at_def)
qed (auto simp: slice_aggregate_def slice_holds_def intro: spine_room_mono)

locale summary_out_laws = search_laws ops dim
  for ops :: "('t, 's) item_ops" and dim :: "('d, 's) dim_ops" +
  fixes out :: "('o, 's) dim_ops"
  assumes lawful_out: "lawful_dim ops out"

sublocale summary_out_laws \<subseteq> summary_agg: seek_aggregate_laws ops dim "summary_aggregate out"
  "\<lambda>n xs a. a = advance out (d_zero out) (sums ops xs)" "\<lambda>n xs ys a. a = advance out (d_zero out) (sums ops (xs @ ys))"
proof unfold_locales
  fix n xs h t a
  assume "a = advance out (d_zero out) (sums ops xs)" "node_at ops h t"
  then show "\<exists>a'. push_tree (summary_aggregate out) t (summary t) a = Some a' \<and>
      a' = advance out (d_zero out) (sums ops (xs @ tree_items t))"
    using search_laws.advance_tree [of ops out h t] summary_laws_axioms lawful_out
    by (simp add: summary_aggregate_def advance_append search_laws_def search_laws_axioms_def)
qed (simp_all add: summary_aggregate_def advance_append)

section \<open>The seeking operations\<close>

lemma seek_to_le: "k \<le> length (tree_items t) \<Longrightarrow> seek_to ops dim target b t k \<le> length (tree_items t)"
  using seek_index_le [of target b "positions dim (pos_at ops dim t k) (sums ops (drop k (tree_items t)))"]
  by (simp add: seek_to_def)

lemma seek_to_End: "k \<le> length (tree_items t) \<Longrightarrow> seek_to ops dim End_target Right t k = length (tree_items t)"
proof -
  assume k: "k \<le> length (tree_items t)"
  have "seek_index End_target Right ps = length ps" for ps :: "'c list"
    by (induction ps) (simp_all add: seek_index_def End_target_def beyond_def)
  with k show ?thesis by (simp add: seek_to_def)
qed

lemma antitone_End: "antitone_target End_target ps"
  by (induction ps) (simp_all add: antitone_target_def End_target_def)

text \<open>A seek may start at index \<open>k\<close>: the target is not behind the position and its comparison never
  increases along the remaining items.\<close>

definition seekable ::
  "('t, 's) item_ops \<Rightarrow> ('d, 's) dim_ops \<Rightarrow> 'd seek_target \<Rightarrow> ('t, 's) sum_tree \<Rightarrow> nat \<Rightarrow> bool" where
  "seekable ops dim target t k \<longleftrightarrow> target (pos_at ops dim t k) \<noteq> Less \<and>
     antitone_target target (positions dim (pos_at ops dim t k) (sums ops (drop k (tree_items t))))"

lemma seekable_End: "seekable ops dim End_target t k"
  by (simp add: seekable_def antitone_End) (simp add: End_target_def)

definition seek_found ::
  "('t, 's) item_ops \<Rightarrow> ('d, 's) dim_ops \<Rightarrow> 'd seek_target \<Rightarrow> bias \<Rightarrow> ('t, 's) sum_tree \<Rightarrow> nat \<Rightarrow> bool" where
  "seek_found ops dim target b t k \<longleftrightarrow>
     target (pos_at ops dim t (if b = Left \<and> k < length (tree_items t) then Suc k else k)) = Equal"

context search_laws
begin

lemma seek_forward_correct:
  assumes "wf_cursor ops c" "cursor_at ops dim c k" "seekable ops dim target (c_tree c) k"
    and "k' = seek_to ops dim target b (c_tree c) k"
  shows "\<exists>c'. cursor_seek_forward dim target b c = Some (seek_found ops dim target b (c_tree c) k', c') \<and>
    c_tree c' = c_tree c \<and> c_did_seek c' \<and> cursor_at ops dim c' k'"
  using unit_agg.seek_internal_correct [OF assms(1,2) TrueI _ _ assms(4)] assms(2,3)
  by (auto simp: cursor_seek_forward_def seekable_def seek_found_def cursor_at_position [OF assms(2)])

lemma seek_correct:
  assumes "wf_cursor ops c" "seekable ops dim target (c_tree c) 0"
    and "k' = seek_to ops dim target b (c_tree c) 0"
  shows "\<exists>c'. cursor_seek dim target b c = Some (seek_found ops dim target b (c_tree c) k', c') \<and>
    c_tree c' = c_tree c \<and> c_did_seek c' \<and> cursor_at ops dim c' k'"
proof -
  have "wf_cursor ops (cursor_reset dim c)" using assms(1) by (simp add: wf_cursor_def cursor_at_reset)
  from seek_forward_correct [OF this cursor_at_reset(1)] assms(2,3) show ?thesis
    by (simp add: cursor_at_reset cursor_seek_def cursor_seek_forward_def)
qed

lemma slice_correct:
  assumes "wf_cursor ops c" "cursor_at ops dim c k" "seekable ops dim target (c_tree c) k"
    and "k' = seek_to ops dim target b (c_tree c) k"
  shows "\<exists>t c'. cursor_slice ops dim target b c = Some (t, c') \<and>
    wf_tree ops t \<and> height t \<le> height (c_tree c) + 2 \<and> tree_items t = take (k' - k) (drop k (tree_items (c_tree c))) \<and>
    c_tree c' = c_tree c \<and> c_did_seek c' \<and> cursor_at ops dim c' k'"
proof -
  have "slice_holds ops 0 [] [] (slice_new ops)"
    by (simp add: slice_holds_def slice_new_def tree_new_def spine_room_def summary_sum_def)
  from slice_agg.seek_internal_correct [OF assms(1,2) this _ _ assms(4)] assms(2,3) show ?thesis
    by (auto simp: cursor_slice_def seekable_def slice_holds_def cursor_at_position [OF assms(2)] dest: spine_height)
qed

lemma suffix_correct:
  assumes "wf_cursor ops c" "cursor_at ops dim c k"
  shows "\<exists>t c'. cursor_suffix ops dim c = Some (t, c') \<and>
    wf_tree ops t \<and> height t \<le> height (c_tree c) + 2 \<and> tree_items t = drop k (tree_items (c_tree c)) \<and>
    c_tree c' = c_tree c \<and> c_did_seek c' \<and> cursor_at ops dim c' (length (tree_items (c_tree c)))"
  using slice_correct [OF assms seekable_End refl, of Right] cursor_at_le [OF assms(2)]
  by (simp add: cursor_suffix_def seek_to_End)

end

context summary_out_laws
begin

lemma cursor_summary_correct:
  assumes "wf_cursor ops c" "cursor_at ops dim c k" "seekable ops dim target (c_tree c) k"
    and "k' = seek_to ops dim target b (c_tree c) k"
  shows "\<exists>c'. cursor_summary out dim target b c =
      Some (advance out (d_zero out) (sums ops (take (k' - k) (drop k (tree_items (c_tree c))))), c') \<and>
    c_tree c' = c_tree c \<and> c_did_seek c' \<and> cursor_at ops dim c' k'"
  using summary_agg.seek_internal_correct [OF assms(1,2) _ _ _ assms(4)] assms(2,3)
  by (auto simp: cursor_summary_def seekable_def cursor_at_position [OF assms(2)])

end

end
