(* ===== verification/Cursor_Step.thy ===== *)
theory Cursor_Step
  imports Cursor_Seek
begin

text \<open>
  Stepping: \<open>next\<close> and \<open>prev\<close>, their filtered forms, the neighbouring items and the iterators.
  A filter may only reject a subtree none of whose items it accepts; then \<open>search_forward\<close> and
  \<open>search_backward\<close> move to the nearest accepted item on the right and on the left.
\<close>

section \<open>Filters\<close>

fun covers :: "('t, 's) item_ops \<Rightarrow> ('s \<Rightarrow> bool) \<Rightarrow> ('t, 's) sum_tree \<Rightarrow> bool" where
  "covers ops f (Leaf _ _ _) = True"
| "covers ops f (Internal _ _ _ ts) =
     (\<forall>t \<in> set ts. covers ops f t \<and> ((\<exists>x \<in> set (tree_items t). f (item_summary ops x)) \<longrightarrow> f (summary t)))"

lemma covers_True: "covers ops (\<lambda>_. True) t"
  by (induction t) simp_all

text \<open>The number of leading items the filter rejects.\<close>

definition skipped :: "('t, 's) item_ops \<Rightarrow> ('s \<Rightarrow> bool) \<Rightarrow> 't list \<Rightarrow> nat" where
  "skipped ops f xs = length (takeWhile (\<lambda>x. \<not> f (item_summary ops x)) xs)"

lemma skipped_Nil [simp]: "skipped ops f [] = 0"
  by (simp add: skipped_def)

lemma skipped_le: "skipped ops f xs \<le> length xs"
  by (simp add: skipped_def length_takeWhile_le)

lemma skipped_all: "\<forall>x \<in> set xs. \<not> f (item_summary ops x) \<Longrightarrow> skipped ops f xs = length xs"
  unfolding skipped_def by (metis takeWhile_eq_all_conv)

lemma skipped_append:
  "skipped ops f (xs @ ys) =
     (if skipped ops f xs < length xs then skipped ops f xs else length xs + skipped ops f ys)"
proof (cases "\<forall>x \<in> set xs. \<not> f (item_summary ops x)")
  case True
  then show ?thesis using skipped_all [OF True] by (simp add: skipped_def takeWhile_append)
next
  case False
  then have "skipped ops f xs < length xs"
    unfolding skipped_def by (metis length_takeWhile_le nat_less_le takeWhile_eq_all_conv takeWhile_eq_take take_all_iff)
  with False show ?thesis by (auto simp: skipped_def takeWhile_append)
qed

lemma skipped_True [simp]: "skipped ops (\<lambda>_. True) xs = 0"
  by (cases xs) (simp_all add: skipped_def)

section \<open>Forward\<close>

lemma skip_items:
  "skip_summaries dim f e pos (sums ops xs) =
     (e\<lparr>e_index := e_index e + skipped ops f xs,
        e_position := advance dim (e_position e) (sums ops (take (skipped ops f xs) xs))\<rparr>,
      advance dim pos (sums ops (take (skipped ops f xs) xs)))"
  by (induction xs arbitrary: e pos) (simp_all add: skipped_def)

lemma forward_step_leaf:
  assumes "e_tree e = Leaf s xs (sums ops xs)" "e_index e < length xs"
  shows "forward_loop dim f False (e # ps) pos = forward_loop dim f True
    (e\<lparr>e_index := Suc (e_index e), e_position := d_add dim (e_position e) (item_summary ops (xs ! e_index e))\<rparr> # ps)
    (d_add dim pos (item_summary ops (xs ! e_index e)))"
  using assms by simp

lemma forward_step_internal:
  assumes "e_tree e = Internal h s cs ts"
  shows "forward_loop dim f False (e # ps) pos = forward_loop dim f True (e\<lparr>e_index := Suc (e_index e), e_position := pos\<rparr> # ps) pos"
  using assms by simp

lemma forward_leaf:
  assumes "e_tree e = Leaf s xs (sums ops xs)" and "rem = drop (e_index e) xs" "e_index e \<le> length xs"
  shows "forward_loop dim f True (e # ps) pos =
    (if skipped ops f rem < length rem
     then Some (e\<lparr>e_index := e_index e + skipped ops f rem,
         e_position := advance dim (e_position e) (sums ops (take (skipped ops f rem) rem))\<rparr> # ps,
       advance dim pos (sums ops (take (skipped ops f rem) rem)))
     else forward_loop dim f False ps (advance dim pos (sums ops rem)))"
proof -
  have "drop (e_index e) (sums ops xs) = sums ops rem" using assms(2) by (simp add: drop_map)
  then have "forward_loop dim f True (e # ps) pos =
    (if e_index e + skipped ops f rem < length xs
     then Some (e\<lparr>e_index := e_index e + skipped ops f rem,
         e_position := advance dim (e_position e) (sums ops (take (skipped ops f rem) rem))\<rparr> # ps,
       advance dim pos (sums ops (take (skipped ops f rem) rem)))
     else forward_loop dim f False ps (advance dim pos (sums ops (take (skipped ops f rem) rem))))"
    using assms(1) by (simp add: skip_items Let_def)
  moreover have "e_index e + skipped ops f rem < length xs \<longleftrightarrow> skipped ops f rem < length rem"
    using assms(2,3) by auto
  moreover have "take (skipped ops f rem) rem = rem" if "\<not> skipped ops f rem < length rem" using that by simp
  ultimately show ?thesis by simp
qed

lemma forward_skip_child:
  assumes "e_tree e = Internal h s (map summary ts) ts" "e_index e < length ts" "e_position e = pos"
    and "\<not> f (summary (ts ! e_index e))"
  shows "forward_loop dim f True (e # ps) pos = forward_loop dim f True
    (e\<lparr>e_index := Suc (e_index e), e_position := d_add dim pos (summary (ts ! e_index e))\<rparr> # ps)
    (d_add dim pos (summary (ts ! e_index e)))"
proof -
  have "drop (e_index e) (map summary ts) = summary (ts ! e_index e) # drop (Suc (e_index e)) (map summary ts)"
    using assms(2) Cons_nth_drop_Suc [of "e_index e" "map summary ts"] by simp
  with assms show ?thesis by (simp add: Let_def cong: option.case_cong)
qed

lemma forward_enter_child:
  assumes "e_tree e = Internal h s (map summary ts) ts" "e_index e < length ts"
    and "f (summary (ts ! e_index e))" "Suc (length ps) < STACK_CAPACITY"
  shows "forward_loop dim f True (e # ps) pos = forward_loop dim f True (entry (ts ! e_index e) 0 pos # e # ps) pos"
proof -
  have "drop (e_index e) (map summary ts) = summary (ts ! e_index e) # drop (Suc (e_index e)) (map summary ts)"
    using assms(2) Cons_nth_drop_Suc [of "e_index e" "map summary ts"] by simp
  with assms show ?thesis by (simp add: Let_def push_entry_def)
qed

lemma forward_end_children:
  assumes "e_tree e = Internal h s (map summary ts) ts" "e_index e = length ts"
  shows "forward_loop dim f True (e # ps) pos = forward_loop dim f False ps pos"
  using assms by (simp add: Let_def)

lemma forward_empty [simp]: "forward_loop dim f d [] pos = Some ([], pos)"
  by simp

declare forward_loop.simps(2) [simp del]

text \<open>A stretch of \<open>n\<close> items has been scanned from index \<open>k\<close>: the loop either stopped at an accepted
  item or goes on behind the stretch.\<close>

definition forward_scanned ::
  "('t, 's) item_ops \<Rightarrow> ('d, 's) dim_ops \<Rightarrow> ('s \<Rightarrow> bool) \<Rightarrow> ('t, 's) sum_tree \<Rightarrow> nat \<Rightarrow> 't list
    \<Rightarrow> (('t, 's, 'd) stack_entry list \<times> 'd) option \<Rightarrow> ('t, 's, 'd) stack_entry list \<Rightarrow> bool" where
  "forward_scanned ops dim f root k rem res ps \<longleftrightarrow>
     (if skipped ops f rem < length rem
      then \<exists>st. res = Some (st, pos_at ops dim root (k + skipped ops f rem)) \<and> stack_at ops dim root st (k + skipped ops f rem)
      else res = forward_loop dim f False ps (pos_at ops dim root (k + length rem)))"

lemma forward_scanned_append:
  assumes "forward_scanned ops dim f root k xs res1 qs"
    and "skipped ops f xs = length xs \<Longrightarrow>
      forward_scanned ops dim f root (k + length xs) ys (forward_loop dim f False qs (pos_at ops dim root (k + length xs))) ps"
  shows "forward_scanned ops dim f root k (xs @ ys) res1 ps"
  using assms skipped_le [of ops f xs]
  by (auto simp: forward_scanned_def skipped_append add.assoc split: if_splits)

lemma items_of_split: "items_of ts = items_of (take i ts) @ items_of (drop i ts)"
  by (metis append_take_drop_id concat_append map_append)

lemma forward_scanned_skip:
  assumes "\<forall>x \<in> set xs. \<not> f (item_summary ops x)" "forward_scanned ops dim f root (k + length xs) ys res ps"
  shows "forward_scanned ops dim f root k (xs @ ys) res ps"
  using assms by (auto simp: forward_scanned_def skipped_append skipped_all add.assoc split: if_splits)

lemma path_covers: "covers ops f root \<Longrightarrow> path_to ops dim root ps t \<Longrightarrow> covers ops f t"
proof (induction ps arbitrary: t)
  case (Cons p ps)
  then have "covers ops f (e_tree p)" "t \<in> set (entry_children p)" by auto
  then show ?case by (cases "e_tree p") (auto simp: entry_children_def)
qed simp

lemma pos_at_child:
  assumes "path_to ops dim root ps (e_tree e)" "e_tree e = Internal h s cs ts" "i \<le> length ts" "k = length (items_before ps @ items_of (take i ts))"
    and "i < length ts"
  shows "pos_at ops dim root (k + length (tree_items (ts ! i))) = advance dim (pos_at ops dim root k) (sums ops (tree_items (ts ! i)))"
proof -
  have "tree_items root = (items_before ps @ items_of (take i ts)) @ tree_items (ts ! i) @ (items_of (drop (Suc i) ts) @ items_after ps)"
    using path_items [OF assms(1)] assms(2) arg_cong [OF id_take_nth_drop [OF assms(5)], of items_of] by simp
  from pos_at_append [OF this, of ops dim] assms(4) show ?thesis by simp
qed

context search_laws
begin

lemma forward_children:
  assumes IH: "\<And>v qs k. node_at ops h v \<Longrightarrow> path_to ops dim root qs v \<Longrightarrow> length qs + h < STACK_CAPACITY \<Longrightarrow>
      covers ops f v \<Longrightarrow> k = length (items_before qs) \<Longrightarrow>
      forward_scanned ops dim f root k (tree_items v) (forward_loop dim f True (entry v 0 (pos_at ops dim root k) # qs) (pos_at ops dim root k)) qs"
    and t: "t = Internal (Suc h) s (map summary ts) ts" "\<forall>t \<in> set ts. node_at ops h t" "covers ops f t"
    and path: "path_to ops dim root ps t" "length ps + Suc h < STACK_CAPACITY"
    and e: "e_tree e = t" "e_index e \<le> length ts" "k = length (items_before (e # ps))" "e_position e = pos_at ops dim root k"
  shows "forward_scanned ops dim f root k (items_of (drop (e_index e) ts)) (forward_loop dim f True (e # ps) (pos_at ops dim root k)) ps"
  using e
proof (induction "length ts - e_index e" arbitrary: e k)
  case 0
  then have "e_index e = length ts" by simp
  with 0 t(1) show ?case
    by (simp add: forward_scanned_def forward_end_children [of e _ s ts])
next
  case (Suc n)
  let ?i = "e_index e" and ?pos = "pos_at ops dim root k"
  let ?v = "ts ! ?i" and ?rem = "items_of (drop (Suc ?i) ts)"
  let ?k = "k + length (tree_items ?v)"
  let ?e = "e\<lparr>e_index := Suc ?i, e_position := pos_at ops dim root ?k\<rparr>"
  have i: "?i < length ts" using Suc.hyps(2) by simp
  have v: "node_at ops h ?v" "covers ops f ?v" "(\<exists>x \<in> set (tree_items ?v). f (item_summary ops x)) \<longrightarrow> f (summary ?v)"
    using t i by auto
  have split: "items_of (drop ?i ts) = tree_items ?v @ ?rem" using Cons_nth_drop_Suc [OF i] by (metis concat.simps(2) list.simps(9))
  have k: "k = length (items_before ps @ items_of (take ?i ts))" using Suc.prems(1,3) t(1) by (simp add: entry_done_def)
  have pos': "advance dim ?pos (sums ops (tree_items ?v)) = pos_at ops dim root ?k"
    using pos_at_child [of ops dim root ps e "Suc h" s "map summary ts" ts ?i k] path(1) Suc.prems(1,2) t(1) k i by simp
  have next_e: "forward_scanned ops dim f root ?k ?rem (forward_loop dim f True (?e # ps) (pos_at ops dim root ?k)) ps"
  proof -
    have "?k = length (items_before (?e # ps))"
      using k i Suc.prems(1) t(1) by (simp add: entry_done_def take_Suc_conv_app_nth)
    with Suc.hyps(1) [of ?e ?k] Suc.hyps(2) Suc.prems(1) i show ?thesis by simp
  qed
  show ?case
  proof (cases "f (summary ?v)")
    case False
    have "forward_loop dim f True (e # ps) ?pos = forward_loop dim f True (?e # ps) (pos_at ops dim root ?k)"
      using forward_skip_child [of e "Suc h" s ts ?pos f dim ps] False Suc.prems(1,4) t(1) i
      by (simp add: advance_tree [OF v(1)] pos')
    with next_e v(3) False show ?thesis
      by (simp add: split forward_scanned_skip)
  next
    case True
    have path_v: "path_to ops dim root (e # ps) ?v"
      using path(1) Suc.prems i t(1) by (simp add: entry_children_def)
    have "forward_loop dim f True (e # ps) ?pos = forward_loop dim f True (entry ?v 0 ?pos # e # ps) ?pos"
      using True Suc.prems t(1) i path(2) by (intro forward_enter_child) simp_all
    moreover have "forward_scanned ops dim f root k (tree_items ?v) (forward_loop dim f True (entry ?v 0 ?pos # e # ps) ?pos) (e # ps)"
      using IH [OF v(1) path_v _ v(2) Suc.prems(3)] path(2) by simp
    moreover have "forward_loop dim f False (e # ps) (pos_at ops dim root ?k) = forward_loop dim f True (?e # ps) (pos_at ops dim root ?k)"
      using forward_step_internal [of e] Suc.prems(1) t(1) by blast
    ultimately show ?thesis
      using next_e unfolding split by (auto intro: forward_scanned_append)
  qed
qed

lemma forward_tree:
  "node_at ops h v \<Longrightarrow> path_to ops dim root qs v \<Longrightarrow> length qs + h < STACK_CAPACITY \<Longrightarrow>
     covers ops f v \<Longrightarrow> k = length (items_before qs) \<Longrightarrow>
     forward_scanned ops dim f root k (tree_items v) (forward_loop dim f True (entry v 0 (pos_at ops dim root k) # qs) (pos_at ops dim root k)) qs"
proof (induction h arbitrary: v qs k)
  case 0
  obtain ys where ys: "v = Leaf (summary_sum ops (sums ops ys)) ys (sums ops ys)" using 0(1) by (rule leaf_node_cases)
  have pos: "advance dim (pos_at ops dim root k) (sums ops (take n ys)) = pos_at ops dim root (k + length (take n ys))" for n
    using pos_at_append [of root "items_before qs" "take n ys" "drop n ys @ items_after qs" ops dim] path_items [OF 0(2)] 0(5) ys by simp
  let ?e = "entry v 0 (pos_at ops dim root k)" and ?n = "skipped ops f ys"
  have "stack_at ops dim root (?e\<lparr>e_index := ?n, e_position := p\<rparr> # qs) (k + ?n)" if "?n < length ys" for p
    using 0(2,5) ys that by (simp add: stack_at_def entry_done_def)
  with forward_leaf [of ?e _ ys ops ys dim f qs "pos_at ops dim root k"] ys pos [of ?n] pos [of "length ys"] show ?case
    by (auto simp: forward_scanned_def)
next
  case (Suc h)
  obtain ts where ts: "v = Internal (Suc h) (summary_sum ops (map summary ts)) (map summary ts) ts" "\<forall>t \<in> set ts. node_at ops h t"
    using Suc.prems(1) by (rule internal_node_cases)
  let ?e = "entry v 0 (pos_at ops dim root k)"
  have "k = length (items_before (?e # qs))"
    using Suc.prems(5) by (simp add: entry_done_def split: sum_tree.splits)
  then have "forward_scanned ops dim f root k (items_of (drop (e_index ?e) ts)) (forward_loop dim f True (?e # qs) (pos_at ops dim root k)) qs"
    by (intro forward_children [OF Suc.IH ts Suc.prems(4,2,3)]) simp_all
  then show ?case by (simp add: ts(1))
qed

text \<open>Behind a finished subtree the loop scans what is right of the path.\<close>

lemma forward_ascend:
  assumes root: "wf_tree ops root" "height root < STACK_CAPACITY" "covers ops f root"
  shows "path_to ops dim root ps t \<Longrightarrow> k = length (items_before ps @ tree_items t) \<Longrightarrow>
    forward_scanned ops dim f root k (items_after ps) (forward_loop dim f False ps (pos_at ops dim root k)) []"
proof (induction ps arbitrary: t k)
  case Nil
  then show ?case by (simp add: forward_scanned_def)
next
  case (Cons p ps)
  obtain h s ts where p: "e_tree p = Internal (Suc h) s (map summary ts) ts" "\<forall>t \<in> set ts. node_at ops h t"
      "Suc h + length ps = height root" "entry_children p = ts"
    using path_internal [OF root(1) Cons.prems(1)] .
  have path: "path_to ops dim root ps (e_tree p)" "e_index p < length ts" "t = ts ! e_index p" using Cons.prems(1) p(4) by simp_all
  let ?p = "p\<lparr>e_index := Suc (e_index p), e_position := pos_at ops dim root k\<rparr>"
  let ?rem = "items_of (drop (Suc (e_index p)) ts)"
  have before: "k = length (items_before (?p # ps))"
    using Cons.prems(2) p(1) path(2,3) by (simp add: entry_done_def take_Suc_conv_app_nth)
  have scan: "forward_scanned ops dim f root k ?rem (forward_loop dim f True (?p # ps) (pos_at ops dim root k)) ps"
  proof -
    have "forward_scanned ops dim f root k (items_of (drop (e_index ?p) ts)) (forward_loop dim f True (?p # ps) (pos_at ops dim root k)) ps"
      using before p(3) root(2) path(2)
      by (intro forward_children [OF forward_tree p(1,2) path_covers [OF root(3) path(1)] path(1)]) simp_all
    then show ?thesis by simp
  qed
  have kend: "k + length ?rem = length (items_before ps @ tree_items (e_tree p))"
    using arg_cong [OF items_of_split [of ts "Suc (e_index p)"], of length] before p(1) by (simp add: entry_done_def)
  have "items_after (p # ps) = ?rem @ items_after ps" using p(4) by simp
  moreover have "forward_scanned ops dim f root k (?rem @ items_after ps) (forward_loop dim f True (?p # ps) (pos_at ops dim root k)) []"
    using scan Cons.IH [OF path(1) kend] by (rule forward_scanned_append)
  ultimately show ?case
    using forward_step_internal [OF p(1), of dim f ps "pos_at ops dim root k"] by simp
qed

lemma forward_from_leaf:
  assumes root: "wf_tree ops root" "height root < STACK_CAPACITY" "covers ops f root"
    and st: "stack_at ops dim root st k"
  shows "forward_scanned ops dim f root (Suc k) (drop (Suc k) (tree_items root)) (forward_loop dim f False st (pos_at ops dim root k)) []"
proof -
  from st obtain e ps xs where e: "st = e # ps" "path_to ops dim root ps (e_tree e)" "node_items (e_tree e) = Some xs"
      "e_index e < length xs" "k = length (items_before (e # ps))" by (auto simp: stack_at_def)
  have leaf: "e_tree e = Leaf (summary_sum ops (sums ops xs)) xs (sums ops xs)"
    using path_wf [OF root(1) e(2)] e(3) by (cases "e_tree e") auto
  let ?rem = "drop (Suc (e_index e)) xs" and ?n = "skipped ops f (drop (Suc (e_index e)) xs)"
  let ?e = "\<lambda>n p. e\<lparr>e_index := Suc (e_index e) + n, e_position := p\<rparr>"
  have before: "items_before (?e n p # ps) = items_before ps @ take (Suc (e_index e) + n) xs" for n p
    using leaf by (simp add: entry_done_def)
  have items: "tree_items root = (items_before ps @ take (Suc (e_index e)) xs) @ ?rem @ items_after ps"
    using path_items [OF e(2)] leaf by simp
  have k: "Suc k = length (items_before ps @ take (Suc (e_index e)) xs)" using e(4,5) leaf by (simp add: entry_done_def)
  have rest: "drop (Suc k) (tree_items root) = ?rem @ items_after ps" using items k by simp
  have pos: "advance dim (pos_at ops dim root (Suc k)) (sums ops (take n ?rem)) = pos_at ops dim root (Suc k + length (take n ?rem))" for n
  proof -
    have "tree_items root = (items_before ps @ take (Suc (e_index e)) xs) @ take n ?rem @ (drop n ?rem @ items_after ps)"
      using items by (metis append_assoc append_take_drop_id)
    from pos_at_append [OF this, of ops dim] k show ?thesis by simp
  qed
  have "xs ! e_index e = tree_items root ! k" using e leaf path_items [OF e(2)] by (simp add: nth_append entry_done_def)
  with stack_at_bound [OF st] have step: "forward_loop dim f False (e # ps) (pos_at ops dim root k) =
      forward_loop dim f True (?e 0 (d_add dim (e_position e) (item_summary ops (xs ! e_index e))) # ps) (pos_at ops dim root (Suc k))"
    using forward_step_leaf [OF leaf e(4), of dim f ps "pos_at ops dim root k"] by (simp add: pos_at_Suc)
  have "forward_scanned ops dim f root (Suc k) ?rem (forward_loop dim f False (e # ps) (pos_at ops dim root k)) ps"
  proof -
    have "stack_at ops dim root (?e ?n p # ps) (Suc k + ?n)" if "?n < length ?rem" for p
      using e(2) leaf that k by (simp add: stack_at_def entry_done_def)
    moreover note forward_leaf [of "?e 0 (d_add dim (e_position e) (item_summary ops (xs ! e_index e)))", OF _ refl]
    ultimately show ?thesis
      using leaf e(4) pos [of ?n] pos [of "length ?rem"] skipped_le [of ops f ?rem]
      by (auto simp: step forward_scanned_def)
  qed
  moreover have "Suc k + length ?rem = length (items_before ps @ tree_items (e_tree e))"
    using k leaf e(4) by simp
  note forward_ascend [OF root e(2) this]
  ultimately show ?thesis unfolding rest e(1) by (rule forward_scanned_append)
qed

end

section \<open>The forward search of a cursor\<close>

text \<open>\<open>prev\<close> from the first item leaves the cursor before the start: no item, position zero, and the
  next step forward goes to the first item.\<close>

definition cursor_before :: "('d, 's) dim_ops \<Rightarrow> ('t, 's, 'd) cursor \<Rightarrow> bool" where
  "cursor_before dim c \<longleftrightarrow> c_did_seek c \<and> c_stack c = [] \<and> \<not> c_at_end c \<and>
     c_position c = d_zero dim \<and> \<not> tree_is_empty (c_tree c)"

context search_laws
begin

lemma search_forward_start:
  assumes c: "wf_cursor ops c" "covers ops f (c_tree c)"
    and st: "c_stack c = []" "\<not> c_at_end c" "c_position c = d_zero dim" "\<not> tree_is_empty (c_tree c)"
  shows "\<exists>c'. search_forward dim f c = Some c' \<and> c_tree c' = c_tree c \<and> c_did_seek c' \<and>
    cursor_at ops dim c' (skipped ops f (tree_items (c_tree c)))"
proof -
  let ?root = "c_tree c"
  have root: "wf_tree ops ?root" "height ?root < STACK_CAPACITY" using c(1) by (simp_all add: wf_cursor_def)
  have "node_at ops (height ?root) ?root" using root(1) st(4) by (simp add: node_at_def)
  from forward_tree [OF this, of ?root "[]" f 0] c(2) root(2)
  have "forward_scanned ops dim f ?root 0 (tree_items ?root) (forward_loop dim f True [entry ?root 0 (d_zero dim)] (d_zero dim)) []"
    by (simp add: pos_at_def)
  then obtain st' where "forward_loop dim f True [entry ?root 0 (d_zero dim)] (d_zero dim) =
      Some (st', pos_at ops dim ?root (skipped ops f (tree_items ?root)))" "stack_pos ops dim ?root st' (skipped ops f (tree_items ?root))"
    using skipped_le [of ops f "tree_items ?root"]
    by (auto simp: forward_scanned_def stack_pos_def stack_at_def split: if_splits)
  with st show ?thesis
    by (auto simp: search_forward_def push_entry_def STACK_CAPACITY_def cursor_at_def)
qed

lemma search_forward_correct:
  assumes c: "wf_cursor ops c" "covers ops f (c_tree c)" "cursor_at ops dim c k"
    and j: "j = (if c_did_seek c \<and> k < length (tree_items (c_tree c)) then Suc k else k)"
  shows "\<exists>c'. search_forward dim f c = Some c' \<and> c_tree c' = c_tree c \<and> c_did_seek c' \<and>
    cursor_at ops dim c' (j + skipped ops f (drop j (tree_items (c_tree c))))"
proof -
  let ?root = "c_tree c"
  have root: "wf_tree ops ?root" "height ?root < STACK_CAPACITY" using c(1) by (simp_all add: wf_cursor_def)
  consider (fresh) "\<not> c_did_seek c" "\<not> tree_is_empty ?root" | (ended) "c_stack c = []" "c_at_end c" "k = length (tree_items ?root)"
    | (item) "c_did_seek c" "c_stack c \<noteq> []" "stack_at ops dim ?root (c_stack c) k" "\<not> c_at_end c"
    using c(3) tree_is_empty_iff [OF root(1)] by (auto simp: cursor_at_def stack_pos_def split: if_splits)
  then show ?thesis
  proof cases
    case fresh
    with c(3) j search_forward_start [OF c(1,2)] show ?thesis by (simp add: cursor_at_def pos_at_def)
  next
    case ended
    with c(3) j show ?thesis by (auto simp: search_forward_def cursor_at_def stack_pos_def)
  next
    case item
    then have kj: "j = Suc k" using stack_at_bound [OF item(3)] j by simp
    let ?k = "Suc k + skipped ops f (drop (Suc k) (tree_items ?root))"
    from forward_from_leaf [OF root c(2) item(3)] obtain st' where
      "forward_loop dim f False (c_stack c) (pos_at ops dim ?root k) = Some (st', pos_at ops dim ?root ?k)" "stack_pos ops dim ?root st' ?k"
      using skipped_le [of ops f "drop (Suc k) (tree_items ?root)"] stack_at_bound [OF item(3)]
      by (auto simp: forward_scanned_def stack_pos_def stack_at_def split: if_splits)
    with item c(3) kj show ?thesis
      by (auto simp: search_forward_def cursor_at_def)
  qed
qed

end

section \<open>Backward\<close>

text \<open>One more than the index of the last accepted item, or 0.\<close>

definition kept :: "('t, 's) item_ops \<Rightarrow> ('s \<Rightarrow> bool) \<Rightarrow> 't list \<Rightarrow> nat" where
  "kept ops f xs = length xs - skipped ops f (rev xs)"

lemma kept_Nil [simp]: "kept ops f [] = 0"
  by (simp add: kept_def)

lemma kept_le: "kept ops f xs \<le> length xs"
  by (simp add: kept_def)

lemma kept_none: "\<forall>x \<in> set xs. \<not> f (item_summary ops x) \<Longrightarrow> kept ops f xs = 0"
  by (simp add: kept_def skipped_all)

lemma kept_append: "kept ops f (xs @ ys) = (if kept ops f ys = 0 then kept ops f xs else length xs + kept ops f ys)"
  using skipped_le [of ops f "rev ys"] skipped_le [of ops f "rev xs"]
  by (auto simp: kept_def skipped_append)

lemma kept_snoc: "kept ops f (xs @ [x]) = (if f (item_summary ops x) then Suc (length xs) else kept ops f xs)"
  by (simp add: kept_append) (simp add: kept_def skipped_def)

lemma kept_True [simp]: "kept ops (\<lambda>_. True) xs = length xs"
  by (simp add: kept_def)

definition backward_scanned ::
  "('t, 's) item_ops \<Rightarrow> ('d, 's) dim_ops \<Rightarrow> ('s \<Rightarrow> bool) \<Rightarrow> ('t, 's) sum_tree \<Rightarrow> 't list
    \<Rightarrow> (('t, 's, 'd) stack_entry list \<times> 'd) option \<Rightarrow> ('t, 's, 'd) stack_entry list \<Rightarrow> bool" where
  "backward_scanned ops dim f root xs res ps \<longleftrightarrow>
     (let k = length (items_before ps); n = kept ops f xs in
      if n = 0 then res = backward_loop dim f False ps (pos_at ops dim root k)
      else \<exists>st. res = Some (st, pos_at ops dim root (k + n - 1)) \<and> stack_at ops dim root st (k + n - 1))"

lemma backward_pop:
  assumes "path_to ops dim root ps t" "e_index e = 0"
  shows "backward_loop dim f False (e # ps) pos = backward_loop dim f False ps (pos_at ops dim root (length (items_before ps)))"
  using assms by (cases ps) (simp_all add: pos_at_def Let_def)

lemma backward_start:
  "backward_loop dim f True (entry t (n - 1) p # ps) pos = backward_loop dim f False (entry t n q # ps) pos'" if "0 < n"
  using that by (simp add: Let_def entry_def)

lemma backward_step:
  assumes "path_to ops dim root ps t" "e_tree e = t" "e_index e = Suc i" "i < length (child_summaries t)"
    and "pos1 = advance dim (pos_at ops dim root (length (items_before ps))) (take i (child_summaries t))"
    and "e1 = e\<lparr>e_index := i, e_position := pos1\<rparr>"
  shows "backward_loop dim f False (e # ps) pos =
    (if \<not> f (child_summaries t ! i) then backward_loop dim f False (e1 # ps) pos1
     else (case t of
         Internal h s cs ts \<Rightarrow> do {
           t' \<leftarrow> index_opt ts i;
           rust_assert (child_summaries t' \<noteq> []);
           st \<leftarrow> push_entry (entry t' (length (child_summaries t') - 1) (d_zero dim)) (e1 # ps);
           backward_loop dim f True st pos1
         }
       | Leaf s items item_summaries \<Rightarrow> Some (e1 # ps, pos1)))"
proof -
  have "(case ps of [] \<Rightarrow> d_zero dim | p # _ \<Rightarrow> e_position p) = pos_at ops dim root (length (items_before ps))"
    using assms(1) by (cases ps) (simp_all add: pos_at_def)
  with assms(2-) show ?thesis by (simp add: Let_def advance_def cong: sum_tree.case_cong)
qed

lemma backward_empty [simp]: "backward_loop dim f d [] pos = Some ([], pos)"
  by simp

declare backward_loop.simps(2) [simp del]

lemma backward_leaf:
  assumes "path_to ops dim root ps (Leaf s xs (sums ops xs))" "e_tree e = Leaf s xs (sums ops xs)" "e_index e \<le> length xs"
  shows "backward_scanned ops dim f root (take (e_index e) xs) (backward_loop dim f False (e # ps) pos) ps"
  using assms(2,3)
proof (induction "e_index e" arbitrary: e pos)
  case 0
  then show ?case using backward_pop [OF assms(1), of e f pos] by (simp add: backward_scanned_def)
next
  case (Suc i)
  let ?k = "length (items_before ps)"
  have items: "tree_items root = items_before ps @ take i xs @ (drop i xs @ items_after ps)"
    using path_items [OF assms(1)] by simp
  have i: "i < length xs" "e_index e = Suc i" using Suc.hyps(2) Suc.prems by simp_all
  have pos1: "advance dim (pos_at ops dim root ?k) (take i (sums ops xs)) = pos_at ops dim root (?k + i)"
    using pos_at_append [OF items, of ops dim] i by (simp add: take_map)
  let ?e = "e\<lparr>e_index := i, e_position := pos_at ops dim root (?k + i)\<rparr>"
  have loop: "backward_loop dim f False (e # ps) pos =
      (if \<not> f (item_summary ops (xs ! i)) then backward_loop dim f False (?e # ps) (pos_at ops dim root (?k + i))
       else Some (?e # ps, pos_at ops dim root (?k + i)))"
    using backward_step [OF assms(1) Suc.prems(1) i(2), of "pos_at ops dim root (?k + i)" ?e] i(1) pos1 by simp
  have IH: "backward_scanned ops dim f root (take i xs) (backward_loop dim f False (?e # ps) p) ps" for p
    using Suc.hyps(1) [of ?e p] Suc.prems i by simp
  have "stack_at ops dim root (?e # ps) (?k + i)"
    using assms(1) Suc.prems(1) i by (simp add: stack_at_def entry_done_def)
  with IH i show ?case
    by (auto simp: loop backward_scanned_def Let_def take_Suc_conv_app_nth kept_snoc)
qed

context search_laws
begin

lemma advance_children:
  "\<forall>t \<in> set ts. node_at ops h t \<Longrightarrow> advance dim z (map summary ts) = advance dim z (sums ops (items_of ts))"
proof (induction ts arbitrary: z)
  case (Cons t ts)
  then have "d_add dim z (summary t) = advance dim z (sums ops (tree_items t))" by (intro advance_tree [of h]) simp
  with Cons show ?case by (simp add: advance_append)
qed simp

lemma child_summaries_nonempty: "node_at ops h t \<Longrightarrow> child_summaries t \<noteq> []"
  by (cases t) (auto simp: node_at_def)

lemma backward_children:
  assumes IH: "\<And>v qs p q. node_at ops h v \<Longrightarrow> path_to ops dim root qs v \<Longrightarrow> length qs + h < STACK_CAPACITY \<Longrightarrow>
      covers ops f v \<Longrightarrow>
      backward_scanned ops dim f root (tree_items v) (backward_loop dim f False (entry v (length (child_summaries v)) p # qs) q) qs"
    and t: "t = Internal (Suc h) s (map summary ts) ts" "\<forall>t \<in> set ts. node_at ops h t" "covers ops f t"
    and path: "path_to ops dim root ps t" "length ps + Suc h < STACK_CAPACITY"
    and e: "e_tree e = t" "e_index e \<le> length ts"
  shows "backward_scanned ops dim f root (items_of (take (e_index e) ts)) (backward_loop dim f False (e # ps) pos) ps"
  using e
proof (induction "e_index e" arbitrary: e pos)
  case 0
  then show ?case using backward_pop [OF path(1), of e f pos] by (simp add: backward_scanned_def)
next
  case (Suc i)
  let ?k = "length (items_before ps)" and ?v = "ts ! i" and ?xs = "items_of (take i ts)"
  have i: "i < length ts" "e_index e = Suc i" using Suc.hyps(2) Suc.prems by simp_all
  let ?pos = "pos_at ops dim root (?k + length ?xs)"
  let ?e = "e\<lparr>e_index := i, e_position := ?pos\<rparr>"
  have v: "node_at ops h ?v" "covers ops f ?v" "(\<exists>x \<in> set (tree_items ?v). f (item_summary ops x)) \<longrightarrow> f (summary ?v)"
    using t i by auto
  have split: "items_of (take (Suc i) ts) = ?xs @ tree_items ?v" using i by (simp add: take_Suc_conv_app_nth)
  have "tree_items root = items_before ps @ ?xs @ (items_of (drop i ts) @ items_after ps)"
    using path_items [OF path(1)] t(1) items_of_split [of ts i] by simp
  moreover have "\<forall>t \<in> set (take i ts). node_at ops h t" using t(2) by (auto dest: in_set_takeD)
  ultimately have pos1: "advance dim (pos_at ops dim root ?k) (take i (map summary ts)) = ?pos"
    using pos_at_append [of root _ ?xs _ ops dim] advance_children [of "take i ts" h] by (simp add: take_map)
  have before: "items_before (?e # ps) = items_before ps @ ?xs" using Suc.prems(1) t(1) by (simp add: entry_done_def)
  have path_v: "path_to ops dim root (?e # ps) ?v"
    using path(1) Suc.prems(1) t(1) i before by (simp add: entry_children_def)
  have loop: "backward_loop dim f False (e # ps) pos =
      (if \<not> f (summary ?v) then backward_loop dim f False (?e # ps) ?pos
       else backward_loop dim f False (entry ?v (length (child_summaries ?v)) (d_zero dim) # ?e # ps) ?pos)"
    using backward_step [OF path(1) Suc.prems(1) i(2), of ?pos ?e f pos] i(1) pos1 t(1) path(2) child_summaries_nonempty [OF v(1)]
      backward_start [of "length (child_summaries ?v)" dim f ?v "d_zero dim" "?e # ps" ?pos "d_zero dim" ?pos]
    by (simp add: push_entry_def)
  have next_e: "backward_scanned ops dim f root ?xs (backward_loop dim f False (?e # ps) p) ps" for p
    using Suc.hyps(1) [of ?e p] Suc.prems i by simp
  have into_v: "backward_scanned ops dim f root (tree_items ?v)
      (backward_loop dim f False (entry ?v (length (child_summaries ?v)) (d_zero dim) # ?e # ps) ?pos) (?e # ps)"
    using IH [OF v(1) path_v _ v(2)] path(2) by simp
  show ?case
  proof (cases "f (summary ?v)")
    case False
    with v(3) have "kept ops f (tree_items ?v) = 0" by (auto intro: kept_none)
    with next_e [of ?pos] False show ?thesis
      unfolding i(2) split loop by (simp add: backward_scanned_def kept_append)
  next
    case True
    with into_v next_e [of ?pos] show ?thesis
      unfolding i(2) split loop backward_scanned_def before
      by (auto simp: kept_append Let_def add.assoc split: if_splits)
  qed
qed

lemma backward_tree:
  "node_at ops h v \<Longrightarrow> path_to ops dim root qs v \<Longrightarrow> length qs + h < STACK_CAPACITY \<Longrightarrow> covers ops f v \<Longrightarrow>
     backward_scanned ops dim f root (tree_items v) (backward_loop dim f False (entry v (length (child_summaries v)) p # qs) q) qs"
proof (induction h arbitrary: v qs p q)
  case 0
  obtain ys where ys: "v = Leaf (summary_sum ops (sums ops ys)) ys (sums ops ys)" using 0(1) by (rule leaf_node_cases)
  with backward_leaf [of ops dim root qs _ ys "entry v (length ys) p" f q] 0(2) show ?case by simp
next
  case (Suc h)
  obtain ts where ts: "v = Internal (Suc h) (summary_sum ops (map summary ts)) (map summary ts) ts" "\<forall>t \<in> set ts. node_at ops h t"
    using Suc.prems(1) by (rule internal_node_cases)
  let ?e = "entry v (length ts) p"
  have "backward_scanned ops dim f root (items_of (take (e_index ?e) ts)) (backward_loop dim f False (?e # qs) q) qs"
    by (intro backward_children [OF Suc.IH ts Suc.prems(4,2,3)]) simp_all
  then show ?case by (simp add: ts(1))
qed

lemma backward_ascend:
  assumes root: "wf_tree ops root" "height root < STACK_CAPACITY" "covers ops f root"
  shows "path_to ops dim root ps t \<Longrightarrow>
    backward_scanned ops dim f root (items_before ps) (backward_loop dim f False ps (pos_at ops dim root (length (items_before ps)))) []"
proof (induction ps arbitrary: t)
  case Nil
  then show ?case by (simp add: backward_scanned_def pos_at_def)
next
  case (Cons p ps)
  obtain h s ts where p: "e_tree p = Internal (Suc h) s (map summary ts) ts" "\<forall>t \<in> set ts. node_at ops h t"
      "Suc h + length ps = height root" "entry_children p = ts"
    using path_internal [OF root(1) Cons.prems] .
  have path: "path_to ops dim root ps (e_tree p)" "e_index p < length ts" using Cons.prems p(4) by simp_all
  have "backward_scanned ops dim f root (items_of (take (e_index p) ts)) (backward_loop dim f False (p # ps) q) ps" for q
    using p(3) root(2) path(2) by (intro backward_children [OF backward_tree p(1,2) path_covers [OF root(3) path(1)] path(1)]) simp_all
  moreover have "entry_done p = items_of (take (e_index p) ts)" using p(1) by (simp add: entry_done_def)
  ultimately show ?case
    using Cons.IH [OF path(1)] by (auto simp: backward_scanned_def Let_def kept_append split: if_splits)
qed

lemma backward_scanned_append:
  assumes "backward_scanned ops dim f root ys res ps"
    and "backward_scanned ops dim f root (items_before ps) (backward_loop dim f False ps (pos_at ops dim root (length (items_before ps)))) []"
  shows "backward_scanned ops dim f root (items_before ps @ ys) res []"
  using assms by (auto simp: backward_scanned_def Let_def kept_append split: if_splits)

lemma backward_from_leaf:
  assumes root: "wf_tree ops root" "height root < STACK_CAPACITY" "covers ops f root"
    and st: "stack_at ops dim root st k"
  shows "backward_scanned ops dim f root (take k (tree_items root)) (backward_loop dim f False st pos) []"
proof -
  from st obtain e ps xs where e: "st = e # ps" "path_to ops dim root ps (e_tree e)" "node_items (e_tree e) = Some xs"
      "e_index e < length xs" "k = length (items_before (e # ps))" by (auto simp: stack_at_def)
  have leaf: "e_tree e = Leaf (summary_sum ops (sums ops xs)) xs (sums ops xs)"
    using path_wf [OF root(1) e(2)] e(3) by (cases "e_tree e") auto
  have "take k (tree_items root) = items_before ps @ take (e_index e) xs"
    using path_items [OF e(2)] e(4,5) leaf by (simp add: entry_done_def)
  with backward_scanned_append [OF backward_leaf backward_ascend [OF root e(2)]] e leaf show ?thesis
    by auto
qed

end

section \<open>The backward search of a cursor\<close>

context search_laws
begin

lemma search_backward_correct:
  assumes c: "wf_cursor ops c" "covers ops f (c_tree c)" "cursor_at ops dim c k" "\<not> tree_is_empty (c_tree c)"
    and n: "n = kept ops f (take (if c_did_seek c then k else length (tree_items (c_tree c))) (tree_items (c_tree c)))"
  shows "\<exists>c'. search_backward dim f c = Some c' \<and> c_tree c' = c_tree c \<and> c_did_seek c' \<and>
    (if n = 0 then cursor_before dim c' else cursor_at ops dim c' (n - 1))"
proof -
  let ?root = "c_tree c" and ?j = "if c_did_seek c then k else length (tree_items (c_tree c))"
  have root: "wf_tree ops ?root" "height ?root < STACK_CAPACITY" using c(1) by (simp_all add: wf_cursor_def)
  have node: "node_at ops (height ?root) ?root" using root(1) c(4) by (simp add: node_at_def)
  let ?start = "entry ?root (length (child_summaries ?root)) (dim_from_summary dim (summary ?root))"
  let ?at_end = "\<not> c_did_seek c \<or> c_at_end c"
  have "\<exists>st pos. backward_loop dim f False (if ?at_end then [?start] else c_stack c) (if ?at_end then d_zero dim else c_position c) = Some (st, pos) \<and>
      (if n = 0 then st = [] \<and> pos = d_zero dim else pos = pos_at ops dim ?root (n - 1) \<and> stack_at ops dim ?root st (n - 1))"
  proof -
    have "backward_scanned ops dim f ?root (take ?j (tree_items ?root))
        (backward_loop dim f False (if ?at_end then [?start] else c_stack c) (if ?at_end then d_zero dim else c_position c)) []"
    proof (cases ?at_end)
      case True
      then have "?j = length (tree_items ?root)" using c(3) by (auto simp: cursor_at_def stack_pos_def split: if_splits)
      with backward_tree [OF node, of ?root "[]" f] root(2) c(2) True show ?thesis by simp
    next
      case False
      with c(3) have "stack_at ops dim ?root (c_stack c) k" by (simp add: cursor_at_def stack_pos_def)
      from backward_from_leaf [OF root c(2) this] False show ?thesis by simp
    qed
    then show ?thesis by (auto simp: backward_scanned_def Let_def n pos_at_def split: if_splits)
  qed
  then obtain st pos where loop: "backward_loop dim f False (if ?at_end then [?start] else c_stack c) (if ?at_end then d_zero dim else c_position c) = Some (st, pos)"
      "if n = 0 then st = [] \<and> pos = d_zero dim else pos = pos_at ops dim ?root (n - 1) \<and> stack_at ops dim ?root st (n - 1)"
    by blast
  have "c_stack c = []" if ?at_end using that c(3) by (auto simp: cursor_at_def split: if_splits)
  with loop(1) c(4) have "search_backward dim f c = Some (c\<lparr>c_stack := st, c_position := pos, c_did_seek := True, c_at_end := False\<rparr>)"
    by (auto simp: search_backward_def push_entry_def STACK_CAPACITY_def split: if_splits)
  with loop(2) c(4) show ?thesis
    by (auto simp: cursor_before_def cursor_at_def stack_pos_def stack_at_def split: if_splits)
qed

lemma search_backward_empty:
  assumes "cursor_at ops dim c k" "tree_is_empty (c_tree c)" "wf_tree ops (c_tree c)"
  shows "\<exists>c'. search_backward dim f c = Some c' \<and> c_tree c' = c_tree c \<and> c_did_seek c' \<and> cursor_at ops dim c' 0"
proof -
  have "tree_items (c_tree c) = []" using assms(2,3) by (simp add: tree_is_empty_iff)
  with assms show ?thesis
    using stack_at_bound [of ops dim "c_tree c" "c_stack c" k]
    by (auto simp: search_backward_def cursor_at_def stack_pos_def pos_at_def split: if_splits)
qed

lemma search_backward_before:
  assumes "cursor_before dim c"
  shows "search_backward dim f c = Some c"
  using assms by (simp add: search_backward_def cursor_before_def)

text \<open>The plain steps.\<close>

lemma next_correct:
  assumes "wf_cursor ops c" "cursor_at ops dim c k"
  shows "\<exists>c'. cursor_next dim c = Some c' \<and> c_tree c' = c_tree c \<and> c_did_seek c' \<and>
    cursor_at ops dim c' (if c_did_seek c \<and> k < length (tree_items (c_tree c)) then Suc k else k)"
  using search_forward_correct [OF assms(1) covers_True assms(2) refl] by (simp add: cursor_next_def)

lemma next_before:
  assumes "wf_cursor ops c" "cursor_before dim c"
  shows "\<exists>c'. cursor_next dim c = Some c' \<and> c_tree c' = c_tree c \<and> c_did_seek c' \<and> cursor_at ops dim c' 0"
  using search_forward_start [OF assms(1) covers_True] assms(2) by (simp add: cursor_next_def cursor_before_def)

lemma prev_correct:
  assumes "wf_cursor ops c" "cursor_at ops dim c k" "\<not> tree_is_empty (c_tree c)"
    and "j = (if c_did_seek c then k else length (tree_items (c_tree c)))"
  shows "\<exists>c'. cursor_prev dim c = Some c' \<and> c_tree c' = c_tree c \<and> c_did_seek c' \<and>
    (if j = 0 then cursor_before dim c' else cursor_at ops dim c' (j - 1))"
  unfolding cursor_prev_def
  by (rule search_backward_correct [OF assms(1) covers_True assms(2,3)])
    (use cursor_at_le [OF assms(2)] assms(4) in simp)

text \<open>\<open>SumTree::items\<close> collects the items in order.\<close>

lemma items_loop_correct:
  assumes "wf_cursor ops c" "cursor_at ops dim c k" "c_did_seek c"
  shows "items_loop dim c acc = Some (acc @ drop k (tree_items (c_tree c)))"
  using assms
proof (induction "length (tree_items (c_tree c)) - k" arbitrary: c k acc)
  case 0
  then have "k = length (tree_items (c_tree c))" using cursor_at_le [OF 0(3)] by simp
  with cursor_item_correct [OF 0(3,4)] show ?case by (subst items_loop.simps) simp
next
  case (Suc n)
  then have k: "k < length (tree_items (c_tree c))" by simp
  obtain c' where c': "cursor_next dim c = Some c'" "c_tree c' = c_tree c" "c_did_seek c'" "cursor_at ops dim c' (Suc k)"
    using next_correct [OF Suc.prems(1,2)] Suc.prems(3) k by auto
  have "items_loop dim c' (acc @ [tree_items (c_tree c) ! k]) = Some ((acc @ [tree_items (c_tree c) ! k]) @ drop (Suc k) (tree_items (c_tree c)))"
    using Suc.hyps(1) [of c' "Suc k" "acc @ [tree_items (c_tree c) ! k]"] Suc.hyps(2) Suc.prems(1) c' by (simp add: wf_cursor_def)
  with c' k cursor_item_correct [OF Suc.prems(2,3)] show ?case
    by (subst items_loop.simps) (simp add: Cons_nth_drop_Suc)
qed

lemma sum_tree_items_correct:
  assumes "wf_tree ops t" "height t < STACK_CAPACITY"
  shows "\<exists>c. cursor_next dim (cursor_new dim t) = Some c \<and> items_loop dim c [] = Some (tree_items t)"
proof -
  have c: "wf_cursor ops (cursor_new dim t)" using assms by (simp add: wf_cursor_def cursor_new_def)
  obtain c' where c': "cursor_next dim (cursor_new dim t) = Some c'" "c_tree c' = t" "c_did_seek c'" "cursor_at ops dim c' 0"
    using next_correct [OF c cursor_at_new(1)] cursor_at_new(2) by (auto simp: cursor_new_def)
  with items_loop_correct [of c' 0 "[]"] assms show ?thesis by (auto simp: wf_cursor_def)
qed

text \<open>Iterating over a cursor returns the item it stands on and moves on.\<close>

lemma cursor_iter_next_correct:
  assumes "wf_cursor ops c" "cursor_at ops dim c k"
  shows "\<exists>c'. cursor_iter_next dim c = Some (index_opt (tree_items (c_tree c)) k, c') \<and> c_tree c' = c_tree c \<and> c_did_seek c' \<and>
    cursor_at ops dim c' (if k < length (tree_items (c_tree c)) then Suc k else k)"
proof -
  have "\<exists>c1. (if \<not> c_did_seek c then cursor_next dim c else Some c) = Some c1 \<and> c_tree c1 = c_tree c \<and> c_did_seek c1 \<and> cursor_at ops dim c1 k"
    using next_correct [OF assms] assms(2) by (auto split: if_splits)
  then obtain c1 where c1: "(if \<not> c_did_seek c then cursor_next dim c else Some c) = Some c1" "c_tree c1 = c_tree c"
      "c_did_seek c1" "cursor_at ops dim c1 k" by blast
  moreover have "wf_cursor ops c1" using assms(1) c1(2) by (simp add: wf_cursor_def)
  ultimately show ?thesis
    using next_correct [of c1 k] cursor_item_correct [OF c1(4,3)]
    by (auto simp: cursor_iter_next_def index_opt_def split: if_splits)
qed

end

section \<open>Neighbouring items\<close>

lemma next_leaf_correct:
  assumes "wf_tree ops root" "path_to ops dim root ps t" "summary_laws ops"
  shows "case items_after ps of [] \<Rightarrow> next_leaf ps = Some None
    | x # _ \<Rightarrow> \<exists>l xs. next_leaf ps = Some (Some l) \<and> node_items l = Some (x # xs)"
  using assms(2)
proof (induction ps arbitrary: t)
  case (Cons p ps)
  obtain h s ts where p: "e_tree p = Internal (Suc h) s (map summary ts) ts" "\<forall>t \<in> set ts. node_at ops h t" "entry_children p = ts"
    using path_internal [OF assms(1) Cons.prems] .
  have path: "path_to ops dim root ps (e_tree p)" "e_index p < length ts" using Cons.prems p(3) by simp_all
  show ?case
  proof (cases "Suc (e_index p) < length ts")
    case True
    let ?v = "ts ! Suc (e_index p)"
    have v: "wf_tree ops ?v" "tree_items ?v \<noteq> []" using p(2) True by (auto dest: node_atD)
    have d: "drop (Suc (e_index p)) ts = ?v # drop (Suc (Suc (e_index p))) ts" using True by (simp add: Cons_nth_drop_Suc)
    obtain l xs where "leftmost_leaf ?v = Some l" "node_items l = Some xs" "first_opt xs = first_opt (tree_items ?v)"
      using summary_laws.tree_first_correct [OF assms(3) v(1)] by (auto simp: tree_first_def split: Option.bind_splits)
    moreover from this v(2) obtain x xs' ys where "xs = x # xs'" "tree_items ?v = x # ys"
      by (cases xs; cases "tree_items ?v") auto
    ultimately show ?thesis using p True d by (auto split: list.splits)
  next
    case False
    with path(2) have "e_index p = length ts - 1" "ts \<noteq> []" by auto
    with p(1) have "next_leaf (p # ps) = next_leaf ps" by simp
    moreover have "items_after (p # ps) = items_after ps" using False p(3) by simp
    ultimately show ?thesis using Cons.IH [OF path(1)] by (simp only:)
  qed
qed simp

lemma prev_leaf_correct:
  assumes "wf_tree ops root" "path_to ops dim root ps t" "summary_laws ops"
  shows "if items_before ps = [] then prev_leaf ps = Some None
    else \<exists>l xs. prev_leaf ps = Some (Some l) \<and> node_items l = Some xs \<and> xs \<noteq> [] \<and> last xs = last (items_before ps)"
  using assms(2)
proof (induction ps arbitrary: t)
  case (Cons p ps)
  obtain h s ts where p: "e_tree p = Internal (Suc h) s (map summary ts) ts" "\<forall>t \<in> set ts. node_at ops h t" "entry_children p = ts"
    using path_internal [OF assms(1) Cons.prems] .
  have path: "path_to ops dim root ps (e_tree p)" "e_index p < length ts" using Cons.prems p(3) by simp_all
  show ?case
  proof (cases "e_index p")
    case 0
    with p(1) Cons.IH [OF path(1)] show ?thesis by (auto simp: entry_done_def split: if_splits)
  next
    case (Suc i)
    let ?v = "ts ! i"
    have v: "wf_tree ops ?v" "tree_items ?v \<noteq> []" using p(2) path(2) Suc by (auto dest: node_atD)
    have d: "entry_done p = items_of (take i ts) @ tree_items ?v"
      using p(1) Suc path(2) by (simp add: entry_done_def take_Suc_conv_app_nth)
    obtain l xs where "rightmost_leaf ?v = Some l" "node_items l = Some xs" "last_opt xs = last_opt (tree_items ?v)"
      using summary_laws.tree_last_correct [OF assms(3) v(1)] by (auto simp: tree_last_def split: Option.bind_splits)
    moreover from this v(2) have "xs \<noteq> []" "last xs = last (tree_items ?v)" by (auto simp: last_opt_def split: if_splits)
    ultimately show ?thesis using p path(2) Suc d v(2) by simp
  qed
qed simp

context search_laws
begin

lemma neighbours_correct:
  assumes c: "wf_cursor ops c" "cursor_at ops dim c k" "c_did_seek c"
  shows "cursor_next_item c = Some (index_opt (tree_items (c_tree c)) (Suc k))"
    and "cursor_prev_item c = Some (if k = 0 then None else Some (tree_items (c_tree c) ! (k - 1)))"
proof -
  let ?root = "c_tree c"
  have wf: "wf_tree ops ?root" using c(1) by (simp add: wf_cursor_def)
  show "cursor_next_item c = Some (index_opt (tree_items ?root) (Suc k))"
    and "cursor_prev_item c = Some (if k = 0 then None else Some (tree_items ?root ! (k - 1)))"
  proof (atomize (full), cases "c_stack c")
    case Nil
    with c(2,3) have "k = length (tree_items ?root)" "c_at_end c" by (simp_all add: cursor_at_def stack_pos_def)
    with Nil c(3) tree_last_correct [OF wf]
    show "cursor_next_item c = Some (index_opt (tree_items ?root) (Suc k)) \<and>
        cursor_prev_item c = Some (if k = 0 then None else Some (tree_items ?root ! (k - 1)))"
      by (auto simp: cursor_next_item_def cursor_prev_item_def last_opt_def last_conv_nth)
  next
    case (Cons e ps)
    with c(2,3) obtain xs where e: "path_to ops dim ?root ps (e_tree e)" "node_items (e_tree e) = Some xs"
        "e_index e < length xs" "k = length (items_before (e # ps))" by (auto simp: cursor_at_def stack_pos_def stack_at_def)
    then obtain s ss where leaf: "e_tree e = Leaf s xs ss" by (cases "e_tree e") auto
    have items: "tree_items ?root = items_before ps @ xs @ items_after ps" using path_items [OF e(1)] leaf by simp
    have k: "k = length (items_before ps) + e_index e" using e(3,4) leaf by (simp add: entry_done_def)
    have next_item: "cursor_next_item c = Some (index_opt (tree_items ?root) (Suc k))"
    proof (cases "Suc (e_index e) = length xs")
      case True
      then have "index_opt (tree_items ?root) (Suc k) = first_opt (items_after ps)"
        using items k by (cases "items_after ps") (auto simp: index_opt_def nth_append)
      moreover have "xs \<noteq> []" using e(3) by auto
      ultimately show ?thesis
        using True next_leaf_correct [OF wf e(1) summary_laws_axioms] Cons c(3) e(2,3)
        by (auto simp: cursor_next_item_def split: list.splits)
    next
      case False
      moreover have "xs \<noteq> []" using e(3) by auto
      ultimately show ?thesis
        using items k e(2,3) Cons c(3) by (auto simp: cursor_next_item_def index_opt_def nth_append)
    qed
    have prev_item: "cursor_prev_item c = Some (if k = 0 then None else Some (tree_items ?root ! (k - 1)))"
    proof (cases "e_index e = 0")
      case True
      with prev_leaf_correct [OF wf e(1) summary_laws_axioms] Cons c(3) k items show ?thesis
        by (auto simp: cursor_prev_item_def nth_append last_conv_nth last_opt_def split: if_splits)
    next
      case False
      with items k e(2,3) Cons c(3) show ?thesis by (auto simp: cursor_prev_item_def nth_append)
    qed
    from next_item prev_item show "cursor_next_item c = Some (index_opt (tree_items ?root) (Suc k)) \<and>
        cursor_prev_item c = Some (if k = 0 then None else Some (tree_items ?root ! (k - 1)))" ..
  qed
qed

end

end
