(* ===== verification/Tree_Iter.thy ===== *)
theory Tree_Iter
  imports Cursor_Step
begin

text \<open>
  \<open>SumTree::iter\<close>: the iterator without positions is the forward loop of a cursor over the unit
  dimension, so successive calls return the items in order and then \<open>None\<close>.
\<close>

section \<open>The iterator loop is the forward loop\<close>

definition iter_ok :: "('t, 's) item_ops \<Rightarrow> bool \<Rightarrow> ('t, 's, unit) stack_entry list \<Rightarrow> bool" where
  "iter_ok ops d st \<longleftrightarrow> (\<forall>e \<in> set st. wf_tree ops (e_tree e)) \<and> (\<forall>e \<in> set (tl st). \<not> is_leaf (e_tree e)) \<and>
     (case st of [] \<Rightarrow> True | e # _ \<Rightarrow> is_leaf (e_tree e) \<longrightarrow> \<not> d \<longrightarrow> e_index e < length (child_summaries (e_tree e)))"

definition top_item :: "('t, 's, 'd) stack_entry list \<Rightarrow> 't option" where
  "top_item st = (case st of [] \<Rightarrow> None | e # _ \<Rightarrow> (case e_tree e of Leaf _ xs _ \<Rightarrow> index_opt xs (e_index e) | _ \<Rightarrow> None))"

lemma unit_entry [simp]: "e\<lparr>e_position := u\<rparr> = e" for e :: "('t, 's, unit) stack_entry"
  by (cases e) simp

lemma skip_nothing: "skip_summaries dim (\<lambda>_. True) e pos ss = (e, pos)"
  by (cases ss) simp_all

lemma iter_loop_forward:
  "iter_ok ops d st \<Longrightarrow> iter_loop d st = map_option (\<lambda>(st', _). (top_item st', st')) (forward_loop unit_dim (\<lambda>_. True) d st ())"
proof (induction d st rule: iter_loop.induct)
  case (1 d)
  then show ?case by (simp add: top_item_def)
next
  case (2 d e rest)
  let ?e = "if d then e else e\<lparr>e_index := e_index e + 1\<rparr>"
  have wf: "wf_tree ops (e_tree e)" using 2(4) by (simp add: iter_ok_def)
  have rest: "iter_ok ops False rest" using 2(4) by (cases rest) (auto simp: iter_ok_def)
  show ?case
  proof (cases "e_tree e")
    case (Internal h s cs ts)
    show ?thesis
    proof (cases "index_opt ts (e_index ?e)")
      case None
      with Internal rest 2(1) [OF refl Internal None] show ?thesis
        by (cases d) (simp_all add: forward_loop.simps skip_nothing Let_def)
    next
      case (Some t)
      then have t: "wf_tree ops t" "\<not> is_leaf (e_tree ?e)" using wf Internal by (auto simp: index_opt_def split: if_splits)
      have "iter_ok ops True st" if "push_entry (entry t 0 ()) (?e # rest) = Some st" for st
        using that t 2(4) Internal by (cases rest) (auto simp: iter_ok_def push_entry_def split: if_splits)
      with Internal Some 2(2) [OF refl Internal Some] show ?thesis
        by (auto simp: forward_loop.simps skip_nothing Let_def split: Option.bind_splits)
    qed
  next
    case (Leaf s xs ss)
    have ss: "length ss = length xs" using wf Leaf by simp
    show ?thesis
    proof (cases "e_index ?e < length xs")
      case True
      with Leaf ss 2(4) show ?thesis
        by (auto simp: forward_loop.simps skip_nothing Let_def top_item_def iter_ok_def)
    next
      case False
      then have "index_opt xs (e_index ?e) = None" by simp
      with Leaf ss False rest 2(4) 2(3) [OF refl Leaf this] show ?thesis
        by (auto simp: forward_loop.simps skip_nothing Let_def iter_ok_def)
    qed
  qed
qed

text \<open>The iterator has returned item \<open>k\<close>.\<close>

definition iter_at :: "('t, 's) item_ops \<Rightarrow> ('t, 's) tree_iter \<Rightarrow> nat \<Rightarrow> bool" where
  "iter_at ops it k \<longleftrightarrow> stack_at ops unit_dim (it_tree it) (it_stack it) k"

lemma lawful_unit_dim: "lawful_dim ops unit_dim"
  by (simp add: lawful_dim_def unit_dim_def)

lemma path_ancestors:
  assumes "wf_tree ops root"
  shows "path_to ops dim root ps t \<Longrightarrow> \<forall>p \<in> set ps. wf_tree ops (e_tree p) \<and> \<not> is_leaf (e_tree p)"
proof (induction ps arbitrary: t)
  case (Cons p ps)
  then have "\<not> is_leaf (e_tree p)" by (cases "e_tree p") (auto simp: entry_children_def)
  with Cons path_wf [OF assms, of dim ps "e_tree p"] show ?case by auto
qed simp

lemma stack_at_iter_ok:
  assumes "wf_tree ops root" "stack_at ops unit_dim root st k"
  shows "iter_ok ops False st"
proof -
  from assms(2) obtain e ps xs where e: "st = e # ps" "path_to ops unit_dim root ps (e_tree e)" "node_items (e_tree e) = Some xs"
      "e_index e < length xs" by (auto simp: stack_at_def)
  have "\<forall>p \<in> set ps. wf_tree ops (e_tree p) \<and> \<not> is_leaf (e_tree p)" using path_ancestors [OF assms(1) e(2)] .
  moreover have "wf_tree ops (e_tree e)" using path_wf [OF assms(1) e(2)] by simp
  ultimately show ?thesis using e by (cases "e_tree e") (auto simp: iter_ok_def)
qed

lemma forward_True:
  assumes "forward_scanned ops dim (\<lambda>_. True) root k xs res []" "k + length xs = length (tree_items root)"
  obtains st where "res = Some (st, pos_at ops dim root k)" "stack_pos ops dim root st k"
proof (cases xs)
  case Nil
  with assms that show ?thesis by (auto simp: forward_scanned_def stack_pos_def)
next
  case (Cons x ys)
  with assms(1) that show ?thesis by (auto simp: forward_scanned_def stack_pos_def stack_at_def)
qed

lemma top_item_correct:
  assumes "stack_pos ops dim root st k"
  shows "top_item st = index_opt (tree_items root) k"
proof (cases st)
  case Nil
  with assms show ?thesis by (simp add: stack_pos_def top_item_def)
next
  case (Cons e ps)
  with assms have st: "stack_at ops dim root (e # ps) k" by (simp add: stack_pos_def)
  then show ?thesis
    using stack_at_bound [OF st] Cons by (auto simp: top_item_def elim!: stack_at_item)
qed

context summary_laws
begin

lemma search_laws_unit: "search_laws ops unit_dim"
  by (intro search_laws.intro summary_laws_axioms search_laws_axioms.intro lawful_unit_dim)

text \<open>One call from the start, and one after item \<open>k\<close>.\<close>

lemma iter_next_start:
  assumes "wf_tree ops (it_tree it)" "height (it_tree it) < STACK_CAPACITY" "it_stack it = []"
  shows "\<exists>it'. iter_next it = Some (index_opt (tree_items (it_tree it)) 0, it') \<and> it_tree it' = it_tree it \<and>
    stack_pos ops unit_dim (it_tree it) (it_stack it') 0"
proof -
  let ?t = "it_tree it"
  have "\<exists>st. forward_loop unit_dim (\<lambda>_. True) True [entry ?t 0 ()] () = Some (st, ()) \<and> stack_pos ops unit_dim ?t st 0"
  proof (cases "tree_is_empty ?t")
    case True
    then obtain s ss where "?t = Leaf s [] ss" by (cases ?t) auto
    with assms(1) show ?thesis by (auto simp: forward_loop.simps stack_pos_def)
  next
    case False
    then have "node_at ops (height ?t) ?t" using assms(1) by (simp add: node_at_def)
    from search_laws.forward_tree [OF search_laws_unit this, of ?t "[]" "\<lambda>_. True" 0] assms(2)
    have "forward_scanned ops unit_dim (\<lambda>_. True) ?t 0 (tree_items ?t) (forward_loop unit_dim (\<lambda>_. True) True [entry ?t 0 ()] ()) []"
      by (simp add: covers_True)
    then show ?thesis by (rule forward_True) auto
  qed
  then obtain st where st: "forward_loop unit_dim (\<lambda>_. True) True [entry ?t 0 ()] () = Some (st, ())" "stack_pos ops unit_dim ?t st 0"
    by blast
  have "iter_ok ops True [entry ?t 0 ()]" using assms(1) by (simp add: iter_ok_def)
  with st assms(3) top_item_correct [OF st(2)] show ?thesis
    by (auto simp: iter_next_def push_entry_def STACK_CAPACITY_def iter_loop_forward simp del: iter_loop.simps)
qed

lemma iter_next_item:
  assumes "wf_tree ops (it_tree it)" "height (it_tree it) < STACK_CAPACITY" "iter_at ops it k"
  shows "\<exists>it'. iter_next it = Some (index_opt (tree_items (it_tree it)) (Suc k), it') \<and> it_tree it' = it_tree it \<and>
    stack_pos ops unit_dim (it_tree it) (it_stack it') (Suc k)"
proof -
  let ?t = "it_tree it"
  have at: "stack_at ops unit_dim ?t (it_stack it) k" using assms(3) by (simp add: iter_at_def)
  then have ne: "it_stack it \<noteq> []" by (auto simp: stack_at_def)
  from search_laws.forward_from_leaf [OF search_laws_unit assms(1,2) covers_True at]
  obtain st where st: "forward_loop unit_dim (\<lambda>_. True) False (it_stack it) () = Some (st, ())" "stack_pos ops unit_dim ?t st (Suc k)"
    using stack_at_bound [OF at] by (auto elim: forward_True)
  with ne stack_at_iter_ok [OF assms(1) at] top_item_correct [OF st(2)] show ?thesis
    by (auto simp: iter_next_def iter_loop_forward simp del: iter_loop.simps)
qed

end

section \<open>Properties\<close>

text \<open>\<open>n\<close> calls of \<open>next\<close>.\<close>

fun iter_run :: "nat \<Rightarrow> ('t, 's) tree_iter \<Rightarrow> 't option list option" where
  "iter_run 0 it = Some []"
| "iter_run (Suc n) it = do { (x, it') \<leftarrow> iter_next it; xs \<leftarrow> iter_run n it'; Some (x # xs) }"

lemma iter_run_from:
  assumes "summary_laws ops" "wf_tree ops t" "height t < STACK_CAPACITY"
  shows "it_tree it = t \<Longrightarrow> iter_at ops it k \<Longrightarrow> n = length (tree_items t) - k \<Longrightarrow>
    iter_run n it = Some (map Some (drop (Suc k) (tree_items t)) @ [None])"
proof (induction n arbitrary: it k)
  case 0
  then show ?case using stack_at_bound [of ops unit_dim t "it_stack it" k] by (simp add: iter_at_def)
next
  case (Suc n)
  obtain it' where it': "iter_next it = Some (index_opt (tree_items t) (Suc k), it')" "it_tree it' = t"
      "stack_pos ops unit_dim t (it_stack it') (Suc k)"
    using summary_laws.iter_next_item [OF assms(1), of it k] assms(2,3) Suc.prems by auto
  show ?case
  proof (cases "Suc k < length (tree_items t)")
    case True
    with it' have "iter_at ops it' (Suc k)" by (auto simp: iter_at_def stack_pos_def split: if_splits)
    moreover have "n = length (tree_items t) - Suc k" using Suc.prems(3) by simp
    ultimately have "iter_run n it' = Some (map Some (drop (Suc (Suc k)) (tree_items t)) @ [None])"
      using Suc.IH [of it' "Suc k"] it'(2) by simp
    with it'(1) True show ?thesis by (simp add: Cons_nth_drop_Suc [symmetric])
  next
    case False
    then have "n = 0" using Suc.prems(3) by simp
    with it' False show ?thesis by simp
  qed
qed

text \<open>
  C24. Iterating over a well-formed tree with \<open>SumTree::iter\<close> returns every item exactly once, in
  order, then \<open>None\<close>; none of the calls panics.
\<close>

theorem iter_returns_items:
  assumes "lawful_summary ops" "wf_tree ops t" "height t < STACK_CAPACITY"
  shows "iter_run (Suc (length (tree_items t))) (iter_new t) = Some (map Some (tree_items t) @ [None])"
proof -
  have laws: "summary_laws ops" using assms(1) by (rule summary_laws.intro)
  obtain it where it: "iter_next (iter_new t) = Some (index_opt (tree_items t) 0, it)" "it_tree it = t"
      "stack_pos ops unit_dim t (it_stack it) 0"
    using summary_laws.iter_next_start [OF laws, of "iter_new t"] assms(2,3) by (auto simp: iter_new_def)
  show ?thesis
  proof (cases "tree_items t")
    case Nil
    with it show ?thesis by simp
  next
    case (Cons x xs)
    with it(3) have "iter_at ops it 0" using it(2) by (auto simp: iter_at_def stack_pos_def split: if_splits)
    from iter_run_from [OF laws assms(2,3) it(2) this, of "length (tree_items t)"]
    have "iter_run (length (tree_items t)) it = Some (map Some (drop 1 (tree_items t)) @ [None])" by simp
    with it(1) have "iter_run (Suc (length (tree_items t))) (iter_new t) =
        Some (index_opt (tree_items t) 0 # map Some (drop 1 (tree_items t)) @ [None])" by simp
    then show ?thesis by (simp add: Cons del: iter_run.simps)
  qed
qed

theorem iter_returns_items_witness:
  "iter_run 4 (iter_new (Internal 1 6 [3, 3] [Leaf 3 [1, 2] [1, 2], Leaf 3 [3] [3]] :: (nat, nat) sum_tree)) =
     Some [Some 1, Some 2, Some 3, None]"
proof -
  let ?ops = "\<lparr>item_summary = \<lambda>x::nat. x, s_zero = 0, s_add = (+)\<rparr>"
  let ?t = "Internal 1 6 [3, 3] [Leaf 3 [1, 2] [1, 2], Leaf 3 [3] [3]] :: (nat, nat) sum_tree"
  have "lawful_summary ?ops" "wf_tree ?ops ?t" "height ?t < STACK_CAPACITY"
    by (simp_all add: lawful_summary_def summary_sum_def TREE_BASE_def STACK_CAPACITY_def)
  from iter_returns_items [OF this] show ?thesis by (simp add: eval_nat_numeral)
qed

text \<open>
  The lower bound of \<open>Iter::size_hint\<close> counts the item that was returned last: after the last
  item of the tree it is still 1, although \<open>next\<close> returns \<open>None\<close>.
\<close>

theorem iter_size_hint_off_by_one:
  assumes "lawful_summary ops" "wf_tree ops (it_tree it)" "height (it_tree it) < STACK_CAPACITY"
    and "iter_at ops it k" "Suc k = length (tree_items (it_tree it))"
  shows "iter_size_hint it = 1 \<and> (\<exists>it'. iter_next it = Some (None, it'))"
proof -
  let ?t = "it_tree it"
  obtain e ps xs where e: "it_stack it = e # ps" "path_to ops unit_dim ?t ps (e_tree e)" "node_items (e_tree e) = Some xs"
      "e_index e < length xs" "k = length (items_before (e # ps))" using assms(4) by (auto simp: iter_at_def stack_at_def)
  then obtain s ss where leaf: "e_tree e = Leaf s xs ss" by (cases "e_tree e") auto
  have "length ss = length xs" "length xs \<le> 12" using path_wf [OF assms(2) e(2)] leaf by (auto simp: TREE_BASE_def)
  moreover have "Suc (e_index e) = length xs + length (items_after ps)"
    using path_items [OF e(2)] e(4,5) leaf assms(5) by (simp add: entry_done_def)
  then have "Suc (e_index e) = length xs" using e(4) by linarith
  moreover from this have "length xs + 2 ^ 64 - e_index e = 2 ^ 64 + 1" by simp
  ultimately have "iter_size_hint it = 1" using e(1) leaf by (simp add: iter_size_hint_def)
  moreover have "\<exists>it'. iter_next it = Some (None, it')"
    using summary_laws.iter_next_item [OF summary_laws.intro [OF assms(1)] assms(2-4)] assms(5) by auto
  ultimately show ?thesis ..
qed

theorem iter_size_hint_off_by_one_witness:
  "iter_size_hint \<lparr>it_tree = Leaf 7 [7::nat] [7::nat], it_stack = [entry (Leaf 7 [7] [7]) 0 ()]\<rparr> = 1"
proof -
  let ?ops = "\<lparr>item_summary = \<lambda>x::nat. x, s_zero = 0, s_add = (+)\<rparr>"
  let ?t = "Leaf 7 [7] [7] :: (nat, nat) sum_tree"
  let ?it = "\<lparr>it_tree = ?t, it_stack = [entry ?t 0 ()]\<rparr>"
  have "lawful_summary ?ops" "wf_tree ?ops (it_tree ?it)" "height (it_tree ?it) < STACK_CAPACITY"
    by (simp_all add: lawful_summary_def summary_sum_def TREE_BASE_def STACK_CAPACITY_def)
  moreover have "iter_at ?ops ?it 0" "Suc 0 = length (tree_items (it_tree ?it))"
    by (simp_all add: iter_at_def stack_at_def entry_done_def)
  ultimately show ?thesis using iter_size_hint_off_by_one [of ?ops ?it 0] by blast
qed

end
