(* ===== verification/Cursor_Properties.thy ===== *)
theory Cursor_Properties
  imports Tree_Iter
begin

text \<open>
  The contract of the cursor as a whole, stated for any lawful summary and dimension: seeking,
  slicing, stepping and looking around, including the panic on seeking backward and the one
  state in which a forward seek does not move.
\<close>

lemma search_laws_intro: "lawful_summary ops \<Longrightarrow> lawful_dim ops dim \<Longrightarrow> search_laws ops dim"
  by (intro search_laws.intro summary_laws.intro search_laws_axioms.intro)

text \<open>
  C2. \<open>seek\<close> on a well-formed tree never panics for a target that is not before the start and whose
  comparison never increases. The cursor ends on the first item that is not before the target
  (behind it, with a right bias), its position is the sum of everything before that item, and
  the result says whether the target was hit exactly.
\<close>

theorem cursor_seek_finds:
  fixes ops :: "('t, 's) item_ops" and dim :: "('d, 's) dim_ops" and c :: "('t, 's, 'd) cursor"
  assumes "lawful_summary ops" "lawful_dim ops dim" "wf_cursor ops c" "seekable ops dim target (c_tree c) 0"
    and "k = seek_to ops dim target b (c_tree c) 0"
  shows "\<exists>c'. cursor_seek dim target b c = Some (seek_found ops dim target b (c_tree c) k, c') \<and>
    cursor_at ops dim c' k \<and> cursor_start c' = pos_at ops dim (c_tree c) k \<and>
    cursor_item c' = Some (index_opt (tree_items (c_tree c)) k) \<and>
    cursor_end dim c' = Some (pos_at ops dim (c_tree c) (if k < length (tree_items (c_tree c)) then Suc k else k))"
proof -
  obtain c' where c': "cursor_seek dim target b c = Some (seek_found ops dim target b (c_tree c) k, c')"
      "c_tree c' = c_tree c" "c_did_seek c'" "cursor_at ops dim c' k"
    using search_laws.seek_correct [OF search_laws_intro [OF assms(1,2)] assms(3-5)] by blast
  with cursor_item_correct [OF c'(4,3)] cursor_end_correct [OF c'(4,3)] cursor_at_position [OF c'(4)] assms(3)
  show ?thesis by (auto simp: wf_cursor_def cursor_start_def)
qed

theorem cursor_seek_finds_witness:
  "\<exists>c'. cursor_seek \<lparr>d_zero = 0::nat, d_add = (+)\<rparr> (ord_cmp 4) Left
      (cursor_new \<lparr>d_zero = 0, d_add = (+)\<rparr> (Internal 1 6 [3, 3] [Leaf 3 [1, 2] [1, 2], Leaf 3 [3] [3]])) = Some (False, c') \<and>
    cursor_item c' = Some (Some (3::nat)) \<and> cursor_start c' = 3"
proof -
  let ?ops = "\<lparr>item_summary = \<lambda>x::nat. x, s_zero = 0, s_add = (+)\<rparr>"
  let ?dim = "\<lparr>d_zero = 0::nat, d_add = (+)\<rparr>"
  let ?t = "Internal 1 6 [3, 3] [Leaf 3 [1, 2] [1, 2], Leaf 3 [3] [3]] :: (nat, nat) sum_tree"
  let ?c = "cursor_new ?dim ?t"
  have laws: "lawful_summary ?ops" "lawful_dim ?ops ?dim" by (simp_all add: lawful_summary_def lawful_dim_def)
  have wf: "wf_cursor ?ops ?c"
    by (simp add: wf_cursor_def cursor_new_def summary_sum_def TREE_BASE_def STACK_CAPACITY_def)
  note tree = cursor_at_new(2)
  have "seekable ?ops ?dim (ord_cmp 4) (c_tree ?c) 0"
    by (simp add: tree seekable_def pos_at_def antitone_target_def ord_cmp_def ordering_order_defs)
  moreover have "seek_to ?ops ?dim (ord_cmp 4) Left ?t 0 = 2" "seek_found ?ops ?dim (ord_cmp 4) Left ?t 2 = False"
    by (simp_all add: seek_to_def seek_found_def seek_index_def beyond_def ord_cmp_def pos_at_def eval_nat_numeral)
  ultimately show ?thesis
    using cursor_seek_finds [OF laws wf, of "ord_cmp 4" 2 Left] by (auto simp: tree pos_at_def index_opt_def)
qed

text \<open>
  C11. \<open>slice\<close> followed by \<open>suffix\<close> cuts the remaining items of a cursor in two: both trees are well
  formed and at most two levels higher than the tree they are cut from, neither call panics, the slice
  holds the items passed over and the suffix the rest, and the cursor ends behind the last item.
\<close>

theorem cursor_slice_suffix:
  fixes ops :: "('t, 's) item_ops" and dim :: "('d, 's) dim_ops" and c :: "('t, 's, 'd) cursor"
  assumes "lawful_summary ops" "lawful_dim ops dim" "wf_cursor ops c" "cursor_at ops dim c k"
    and "seekable ops dim target (c_tree c) k"
  shows "\<exists>t1 c1 t2 c2. cursor_slice ops dim target b c = Some (t1, c1) \<and> cursor_suffix ops dim c1 = Some (t2, c2) \<and>
    wf_tree ops t1 \<and> wf_tree ops t2 \<and> tree_items t1 @ tree_items t2 = drop k (tree_items (c_tree c)) \<and>
    height t1 \<le> height (c_tree c) + 2 \<and> height t2 \<le> height (c_tree c) + 2 \<and>
    length (tree_items t1) = seek_to ops dim target b (c_tree c) k - k \<and>
    cursor_at ops dim c1 (seek_to ops dim target b (c_tree c) k) \<and> cursor_at ops dim c2 (length (tree_items (c_tree c)))"
proof -
  let ?k = "seek_to ops dim target b (c_tree c) k" and ?xs = "tree_items (c_tree c)"
  have laws: "search_laws ops dim" using assms(1,2) by (rule search_laws_intro)
  obtain t1 c1 where s1: "cursor_slice ops dim target b c = Some (t1, c1)" "wf_tree ops t1" "tree_items t1 = take (?k - k) (drop k ?xs)"
      "c_tree c1 = c_tree c" "cursor_at ops dim c1 ?k" "height t1 \<le> height (c_tree c) + 2"
    using search_laws.slice_correct [OF laws assms(3-5) refl] by blast
  then have "wf_cursor ops c1" using assms(3) by (simp add: wf_cursor_def)
  then obtain t2 c2 where s2: "cursor_suffix ops dim c1 = Some (t2, c2)" "wf_tree ops t2" "tree_items t2 = drop ?k ?xs"
      "cursor_at ops dim c2 (length ?xs)" "height t2 \<le> height (c_tree c) + 2"
    using search_laws.suffix_correct [OF laws _ s1(5)] s1(4) by auto
  have k: "k \<le> ?k" "?k \<le> length ?xs" using seek_to_le cursor_at_le [OF assms(4)] by (simp_all add: seek_to_def)
  have "tree_items t1 @ tree_items t2 = drop k ?xs"
    using s1(3) s2(3) k(1) append_take_drop_id [of "?k - k" "drop k ?xs"] by simp
  with s1 s2 k show ?thesis by auto
qed

theorem cursor_slice_suffix_witness:
  "\<exists>t1 c1. cursor_slice \<lparr>item_summary = \<lambda>x::nat. x, s_zero = 0, s_add = (+)\<rparr> \<lparr>d_zero = 0::nat, d_add = (+)\<rparr> (ord_cmp 1) Right
      (cursor_new \<lparr>d_zero = 0, d_add = (+)\<rparr> (Leaf 6 [1, 2, 3] [1, 2, 3])) = Some (t1, c1) \<and> length (tree_items t1) = 1"
proof -
  let ?ops = "\<lparr>item_summary = \<lambda>x::nat. x, s_zero = 0, s_add = (+)\<rparr>"
  let ?dim = "\<lparr>d_zero = 0::nat, d_add = (+)\<rparr>"
  let ?c = "cursor_new ?dim (Leaf 6 [1, 2, 3] [1, 2, 3]) :: (nat, nat, nat) cursor"
  have laws: "lawful_summary ?ops" "lawful_dim ?ops ?dim" by (simp_all add: lawful_summary_def lawful_dim_def)
  have wf: "wf_cursor ?ops ?c" "seekable ?ops ?dim (ord_cmp 1) (c_tree ?c) 0"
    by (simp_all add: wf_cursor_def cursor_new_def summary_sum_def TREE_BASE_def STACK_CAPACITY_def
        seekable_def pos_at_def antitone_target_def ord_cmp_def ordering_order_defs)
  moreover have "seek_to ?ops ?dim (ord_cmp 1) Right (c_tree ?c) 0 = 1"
    by (simp add: cursor_new_def seek_to_def seek_index_def beyond_def ord_cmp_def pos_at_def)
  ultimately show ?thesis
    using cursor_slice_suffix [OF laws wf(1) cursor_at_new(1) wf(2), of Right] by auto
qed

text \<open>
  C32. \<open>next\<close> and \<open>prev\<close> move by one item and undo each other: from item \<open>k\<close>, \<open>next\<close> reaches item \<open>k + 1\<close>
  (or the end) and \<open>prev\<close> returns to item \<open>k\<close>. \<open>prev\<close> from the first item leaves the cursor before
  the start with position zero and no item, and \<open>next\<close> comes back to the first item.
\<close>

theorem cursor_next_prev:
  fixes ops :: "('t, 's) item_ops" and dim :: "('d, 's) dim_ops" and c :: "('t, 's, 'd) cursor"
  assumes "lawful_summary ops" "lawful_dim ops dim" "wf_cursor ops c" "cursor_at ops dim c k" "c_did_seek c"
    and "k < length (tree_items (c_tree c))"
  shows "(\<exists>c1 c2. cursor_next dim c = Some c1 \<and> cursor_at ops dim c1 (Suc k) \<and>
      cursor_prev dim c1 = Some c2 \<and> cursor_at ops dim c2 k \<and> cursor_item c2 = cursor_item c)
    \<and> (k = 0 \<longrightarrow> (\<exists>c1 c2. cursor_prev dim c = Some c1 \<and> cursor_item c1 = Some None \<and> cursor_start c1 = d_zero dim \<and>
      cursor_next dim c1 = Some c2 \<and> cursor_at ops dim c2 0 \<and> cursor_item c2 = cursor_item c))"
proof
  have laws: "search_laws ops dim" using assms(1,2) by (rule search_laws_intro)
  have ne: "\<not> tree_is_empty (c_tree c)" using assms(3,6) by (auto simp: wf_cursor_def tree_is_empty_iff)
  obtain c1 where c1: "cursor_next dim c = Some c1" "c_tree c1 = c_tree c" "c_did_seek c1" "cursor_at ops dim c1 (Suc k)"
    using search_laws.next_correct [OF laws assms(3,4)] assms(5,6) by auto
  have wf1: "wf_cursor ops c1" using assms(3) c1(2) by (simp add: wf_cursor_def)
  obtain c2 where c2: "cursor_prev dim c1 = Some c2" "c_tree c2 = c_tree c" "c_did_seek c2" "cursor_at ops dim c2 k"
    using search_laws.prev_correct [OF laws wf1 c1(4)] c1(2,3) ne by auto
  with c1 cursor_item_correct [OF assms(4,5)] cursor_item_correct [OF c2(4,3)]
  show "\<exists>c1 c2. cursor_next dim c = Some c1 \<and> cursor_at ops dim c1 (Suc k) \<and>
      cursor_prev dim c1 = Some c2 \<and> cursor_at ops dim c2 k \<and> cursor_item c2 = cursor_item c"
    by auto
  show "k = 0 \<longrightarrow> (\<exists>c1 c2. cursor_prev dim c = Some c1 \<and> cursor_item c1 = Some None \<and> cursor_start c1 = d_zero dim \<and>
      cursor_next dim c1 = Some c2 \<and> cursor_at ops dim c2 0 \<and> cursor_item c2 = cursor_item c)"
  proof
    assume "k = 0"
    then obtain p where p: "cursor_prev dim c = Some p" "c_tree p = c_tree c" "cursor_before dim p"
      using search_laws.prev_correct [OF laws assms(3,4) ne] assms(5) by auto
    have "wf_cursor ops p" using assms(3) p(2) by (simp add: wf_cursor_def)
    then obtain q where q: "cursor_next dim p = Some q" "c_tree q = c_tree c" "c_did_seek q" "cursor_at ops dim q 0"
      using search_laws.next_before [OF laws _ p(3)] p(2) by auto
    with p \<open>k = 0\<close> cursor_item_correct [OF assms(4,5)] cursor_item_correct [OF q(4,3)]
    show "\<exists>c1 c2. cursor_prev dim c = Some c1 \<and> cursor_item c1 = Some None \<and> cursor_start c1 = d_zero dim \<and>
      cursor_next dim c1 = Some c2 \<and> cursor_at ops dim c2 0 \<and> cursor_item c2 = cursor_item c"
      by (auto simp: cursor_before_def cursor_item_def cursor_start_def)
  qed
qed

theorem cursor_next_prev_witness:
  "\<exists>c c1 c2. cursor_next unit_dim (cursor_new unit_dim (Leaf 6 [1, 2, 3] [1, 2, 3 :: nat])) = Some c \<and>
    cursor_prev unit_dim c = Some c1 \<and> cursor_next unit_dim c1 = Some c2 \<and> cursor_item c2 = Some (Some (1::nat))"
proof -
  let ?ops = "\<lparr>item_summary = \<lambda>x::nat. x, s_zero = 0, s_add = (+)\<rparr>"
  let ?t = "Leaf 6 [1, 2, 3] [1, 2, 3] :: (nat, nat) sum_tree"
  have laws: "lawful_summary ?ops" "lawful_dim ?ops unit_dim" by (simp_all add: lawful_summary_def lawful_unit_dim)
  have wf: "wf_tree ?ops ?t" "height ?t < STACK_CAPACITY" by (simp_all add: summary_sum_def TREE_BASE_def STACK_CAPACITY_def)
  then have "wf_cursor ?ops (cursor_new unit_dim ?t)" by (simp add: wf_cursor_def cursor_new_def)
  from search_laws.next_correct [OF search_laws_intro [OF laws] this cursor_at_new(1)]
  obtain c where c: "cursor_next unit_dim (cursor_new unit_dim ?t) = Some c" "c_tree c = ?t" "c_did_seek c" "cursor_at ?ops unit_dim c 0"
    by (auto simp: cursor_new_def)
  then have "wf_cursor ?ops c" using wf by (simp add: wf_cursor_def)
  from cursor_next_prev [OF laws this c(4,3)] c cursor_item_correct [OF c(4,3)] show ?thesis by (auto simp: index_opt_def)
qed

text \<open>
  A filtered search moves to the nearest accepted item. If the filter never rejects a subtree
  that contains an accepted item, \<open>search_forward\<close> from item \<open>k\<close> skips exactly the rejected items
  behind \<open>k\<close>, and \<open>search_backward\<close> stops at the last accepted item before \<open>k\<close>, or before the start.
\<close>

theorem cursor_filtered_search:
  fixes ops :: "('t, 's) item_ops" and dim :: "('d, 's) dim_ops" and c :: "('t, 's, 'd) cursor"
  assumes "lawful_summary ops" "lawful_dim ops dim" "wf_cursor ops c" "cursor_at ops dim c k" "c_did_seek c"
    and "k < length (tree_items (c_tree c))" "covers ops f (c_tree c)"
  shows "(\<exists>c'. search_forward dim f c = Some c' \<and>
      cursor_item c' = Some (List.find (\<lambda>x. f (item_summary ops x)) (drop (Suc k) (tree_items (c_tree c)))))
    \<and> (\<exists>c'. search_backward dim f c = Some c' \<and>
      cursor_item c' = Some (List.find (\<lambda>x. f (item_summary ops x)) (rev (take k (tree_items (c_tree c))))))"
proof
  let ?xs = "tree_items (c_tree c)" and ?P = "\<lambda>x. f (item_summary ops x)"
  have laws: "search_laws ops dim" using assms(1,2) by (rule search_laws_intro)
  have find_skip: "List.find ?P ys = index_opt ys (skipped ops f ys)" for ys
    by (induction ys) (simp_all add: skipped_def index_opt_def)
  obtain c1 where c1: "search_forward dim f c = Some c1" "c_tree c1 = c_tree c" "c_did_seek c1"
      "cursor_at ops dim c1 (Suc k + skipped ops f (drop (Suc k) ?xs))"
    using search_laws.search_forward_correct [OF laws assms(3,7,4) refl] assms(5,6) by auto
  have "index_opt ?xs (Suc k + n) = index_opt (drop (Suc k) ?xs) n" for n by (auto simp: index_opt_def)
  with c1 cursor_item_correct [OF c1(4,3)]
  show "\<exists>c'. search_forward dim f c = Some c' \<and> cursor_item c' = Some (List.find ?P (drop (Suc k) ?xs))"
    by (auto simp: find_skip)
  have ne: "\<not> tree_is_empty (c_tree c)" using assms(3,6) by (auto simp: wf_cursor_def tree_is_empty_iff)
  let ?n = "kept ops f (take k ?xs)"
  obtain c2 where c2: "search_backward dim f c = Some c2" "c_tree c2 = c_tree c" "c_did_seek c2"
      "if ?n = 0 then cursor_before dim c2 else cursor_at ops dim c2 (?n - 1)"
    using search_laws.search_backward_correct [OF laws assms(3,7,4) ne, of ?n] assms(5) by auto
  have "cursor_item c2 = Some (List.find ?P (rev (take k ?xs)))"
  proof (cases "?n = 0")
    case True
    with c2 have "cursor_item c2 = Some None" by (simp add: cursor_before_def cursor_item_def)
    moreover have "List.find ?P (rev (take k ?xs)) = None" using True assms(6) by (simp add: find_skip kept_def)
    ultimately show ?thesis by simp
  next
    case False
    with c2 have at: "cursor_at ops dim c2 (?n - 1)" by simp
    have "?n - 1 < k" using False kept_le [of ops f "take k ?xs"] assms(6) by simp
    with False assms(6) have "List.find ?P (rev (take k ?xs)) = Some (?xs ! (?n - 1))"
      by (simp add: find_skip kept_def rev_nth index_opt_def)
    with cursor_item_correct [OF at c2(3)] c2(2) \<open>?n - 1 < k\<close> assms(6) show ?thesis by simp
  qed
  with c2(1) show "\<exists>c'. search_backward dim f c = Some c' \<and> cursor_item c' = Some (List.find ?P (rev (take k ?xs)))" by blast
qed

theorem cursor_filtered_search_witness:
  "\<exists>c c'. cursor_next unit_dim (cursor_new unit_dim (Leaf 6 [1, 2, 3] [1, 2, 3 :: nat])) = Some c \<and>
    search_forward unit_dim (\<lambda>s. 2 < s) c = Some c' \<and> cursor_item c' = Some (Some (3::nat))"
proof -
  let ?ops = "\<lparr>item_summary = \<lambda>x::nat. x, s_zero = 0, s_add = (+)\<rparr>"
  let ?t = "Leaf 6 [1, 2, 3] [1, 2, 3] :: (nat, nat) sum_tree"
  have laws: "lawful_summary ?ops" "lawful_dim ?ops unit_dim" by (simp_all add: lawful_summary_def lawful_unit_dim)
  have wf: "wf_tree ?ops ?t" "height ?t < STACK_CAPACITY" by (simp_all add: summary_sum_def TREE_BASE_def STACK_CAPACITY_def)
  then have "wf_cursor ?ops (cursor_new unit_dim ?t)" by (simp add: wf_cursor_def cursor_new_def)
  from search_laws.next_correct [OF search_laws_intro [OF laws] this cursor_at_new(1)]
  obtain c where c: "cursor_next unit_dim (cursor_new unit_dim ?t) = Some c" "c_tree c = ?t" "c_did_seek c" "cursor_at ?ops unit_dim c 0"
    by (auto simp: cursor_new_def)
  then have "wf_cursor ?ops c" using wf by (simp add: wf_cursor_def)
  from cursor_filtered_search [OF laws this c(4,3), of "\<lambda>s. 2 < s"] c show ?thesis by auto
qed

text \<open>
  C38. Seeking backward panics, and only that: from a cursor that stands on an item or at the end, or that is new and has not been
  sought yet, a forward seek whose comparison never increases panics exactly if the target is before the
  current position. The documentation of \<open>seek_forward\<close> says instead that it panics if there was no seek before; the code
  starts at the root then. One state is an exception to moving forward: after \<open>prev\<close> has run off the
  start, \<open>seek_forward\<close> does not move at all and marks the cursor as being at the end, although
  its position is zero.
\<close>

theorem cursor_seek_forward_panics:
  fixes ops :: "('t, 's) item_ops" and dim :: "('d, 's) dim_ops" and c :: "('t, 's, 'd) cursor"
  assumes "lawful_summary ops" "lawful_dim ops dim" "wf_cursor ops c"
    and "antitone_target target (positions dim (pos_at ops dim (c_tree c) k) (map (item_summary ops) (drop k (tree_items (c_tree c)))))"
  shows "(cursor_at ops dim c k \<longrightarrow> (cursor_seek_forward dim target b c = None \<longleftrightarrow> target (cursor_start c) = Less))
    \<and> (cursor_before dim c \<longrightarrow> target (d_zero dim) \<noteq> Less \<longrightarrow>
      (\<exists>found c'. cursor_seek_forward dim target b c = Some (found, c') \<and> c_at_end c' \<and>
        cursor_item c' = Some None \<and> cursor_start c' = d_zero dim))"
proof (intro conjI impI)
  assume at: "cursor_at ops dim c k"
  show "cursor_seek_forward dim target b c = None \<longleftrightarrow> target (cursor_start c) = Less"
  proof (cases "target (cursor_start c) = Less")
    case True
    then show ?thesis by (simp add: cursor_seek_forward_def seek_internal_def cursor_start_def)
  next
    case False
    then have "seekable ops dim target (c_tree c) k"
      using assms(4) cursor_at_position [OF at] by (simp add: seekable_def cursor_start_def)
    from search_laws.seek_forward_correct [OF search_laws_intro [OF assms(1,2)] assms(3) at this refl, of b] False
    show ?thesis by auto
  qed
next
  assume "cursor_before dim c" "target (d_zero dim) \<noteq> Less"
  then show "\<exists>found c'. cursor_seek_forward dim target b c = Some (found, c') \<and> c_at_end c' \<and>
      cursor_item c' = Some None \<and> cursor_start c' = d_zero dim"
    by (cases b) (auto simp: cursor_before_def cursor_seek_forward_def seek_internal_def cursor_end_def
        cursor_item_summary_def cursor_item_def cursor_start_def)
qed

theorem cursor_seek_forward_panics_witness:
  "\<exists>found c'. cursor_seek_forward \<lparr>d_zero = 0::nat, d_add = (+)\<rparr> (ord_cmp 2) Right
      \<lparr>c_tree = Leaf 3 [3] [3], c_stack = [], c_position = 0, c_did_seek = True, c_at_end = False\<rparr> = Some (found, c') \<and>
    c_at_end c' \<and> cursor_item c' = Some (None :: nat option)"
proof -
  let ?ops = "\<lparr>item_summary = \<lambda>x::nat. x, s_zero = 0, s_add = (+)\<rparr>"
  let ?dim = "\<lparr>d_zero = 0::nat, d_add = (+)\<rparr>"
  let ?c = "\<lparr>c_tree = Leaf 3 [3] [3], c_stack = [], c_position = 0, c_did_seek = True, c_at_end = False\<rparr> :: (nat, nat, nat) cursor"
  have "lawful_summary ?ops" "lawful_dim ?ops ?dim" by (simp_all add: lawful_summary_def lawful_dim_def)
  moreover have "wf_cursor ?ops ?c" by (simp add: wf_cursor_def summary_sum_def TREE_BASE_def STACK_CAPACITY_def)
  moreover have "antitone_target (ord_cmp 2) (positions ?dim (pos_at ?ops ?dim (c_tree ?c) 0) (map (item_summary ?ops) (drop 0 (tree_items (c_tree ?c)))))"
    by (simp add: antitone_target_def)
  ultimately show ?thesis
    using cursor_seek_forward_panics [of ?ops ?dim ?c "ord_cmp 2" 0 Right] by (simp add: cursor_before_def ord_cmp_def) blast
qed

text \<open>
  \<open>next_item\<close> and \<open>prev_item\<close> return the neighbours of the current item without moving the
  cursor, also across leaf boundaries and from the end of the tree.
\<close>

theorem cursor_neighbours:
  fixes ops :: "('t, 's) item_ops" and dim :: "('d, 's) dim_ops" and c :: "('t, 's, 'd) cursor"
  assumes "lawful_summary ops" "lawful_dim ops dim" "wf_cursor ops c" "cursor_at ops dim c k" "c_did_seek c"
  shows "cursor_next_item c = Some (index_opt (tree_items (c_tree c)) (Suc k))
    \<and> cursor_prev_item c = Some (if k = 0 then None else Some (tree_items (c_tree c) ! (k - 1)))"
  using search_laws.neighbours_correct [OF search_laws_intro [OF assms(1,2)] assms(3-5)] by blast

theorem cursor_neighbours_witness:
  "\<exists>c. cursor_next unit_dim (cursor_new unit_dim (Internal 1 6 [3, 3 :: nat] [Leaf 3 [3] [3], Leaf 3 [1, 2] [1, 2]])) = Some c \<and>
    cursor_next_item c = Some (Some (1::nat)) \<and> cursor_prev_item c = Some None"
proof -
  let ?ops = "\<lparr>item_summary = \<lambda>x::nat. x, s_zero = 0, s_add = (+)\<rparr>"
  let ?t = "Internal 1 6 [3, 3] [Leaf 3 [3] [3], Leaf 3 [1, 2] [1, 2]] :: (nat, nat) sum_tree"
  have laws: "lawful_summary ?ops" "lawful_dim ?ops unit_dim" by (simp_all add: lawful_summary_def lawful_unit_dim)
  have wf: "wf_tree ?ops ?t" "height ?t < STACK_CAPACITY" by (simp_all add: summary_sum_def TREE_BASE_def STACK_CAPACITY_def)
  then have "wf_cursor ?ops (cursor_new unit_dim ?t)" by (simp add: wf_cursor_def cursor_new_def)
  from search_laws.next_correct [OF search_laws_intro [OF laws] this cursor_at_new(1)]
  obtain c where c: "cursor_next unit_dim (cursor_new unit_dim ?t) = Some c" "c_tree c = ?t" "c_did_seek c" "cursor_at ?ops unit_dim c 0"
    by (auto simp: cursor_new_def)
  then have "wf_cursor ?ops c" using wf by (simp add: wf_cursor_def)
  from cursor_neighbours [OF laws this c(4,3)] c show ?thesis by (auto simp: index_opt_def)
qed

end
