(* ===== verification/Tree_Push.thy ===== *)
theory Tree_Push
  imports Tree_Search
begin

text \<open>
  Trees grown by pushing one item at a time. Only a full node is split, and it is split into halves
  of at least \<open>TREE_BASE\<close> children, so such a tree stays dense and its height logarithmic.
\<close>

section \<open>Dense trees\<close>

fun width :: "('t, 's) sum_tree \<Rightarrow> nat" where
  "width (Leaf s xs ss) = length xs"
| "width (Internal h s cs ts) = length ts"

text \<open>Every node below the root has at least \<open>TREE_BASE\<close> children.\<close>

fun dense :: "('t, 's) sum_tree \<Rightarrow> bool" where
  "dense (Leaf s xs ss) \<longleftrightarrow> True"
| "dense (Internal h s cs ts) \<longleftrightarrow> (\<forall>t \<in> set ts. dense t \<and> TREE_BASE \<le> width t)"

text \<open>The result of pushing into a node: the number of children never shrinks, and both halves of a
  split node are full enough.\<close>

definition dense_grown :: "nat \<Rightarrow> ('t, 's) sum_tree \<times> ('t, 's) sum_tree option \<Rightarrow> bool" where
  "dense_grown n res \<longleftrightarrow> (case res of
     (t, None) \<Rightarrow> dense t \<and> n \<le> width t
   | (t, Some r) \<Rightarrow> dense t \<and> TREE_BASE \<le> width t \<and> dense r \<and> TREE_BASE \<le> width r)"

lemma split_dense:
  assumes "\<forall>t \<in> set ks. dense t \<and> TREE_BASE \<le> width t" "length ks = 13"
  shows "dense_grown n (Internal h s1 c1 (take 7 ks), Some (Internal h s2 c2 (drop 7 ks)))"
  using assms by (auto simp: dense_grown_def TREE_BASE_def dest: in_set_takeD in_set_dropD)

text \<open>Pushing a leaf with a single item, which is always underflowing.\<close>

lemma push_item_dense:
  assumes "wf_tree ops t" "dense t" "\<not> tree_is_empty t" "push_tree_recursive ops t (Leaf s0 [x] ss0) = Some res"
  shows "dense_grown (width t) res"
  using assms
proof (induction t arbitrary: res)
  case (Leaf s xs ss)
  then have "length xs \<le> 12" by (simp add: TREE_BASE_def)
  show ?case
  proof (cases "length xs = 12")
    case True
    with Leaf show ?thesis by (auto simp: dense_grown_def TREE_BASE_def array_vec_def Let_def split: if_splits Option.bind_splits)
  next
    case False
    with Leaf \<open>length xs \<le> 12\<close> show ?thesis
      by (auto simp: dense_grown_def TREE_BASE_def array_vec_def Let_def split: if_splits Option.bind_splits)
  qed
next
  case (Internal h s cs ts)
  then obtain us l where ts: "ts = us @ [l]" by (cases ts rule: rev_cases) auto
  have h: "h = Suc (height l)" "h < 256" "cs = map summary ts" "length us < 12" using Internal.prems(1) by (auto simp: ts TREE_BASE_def)
  have delta: "u8_sub h 0 \<noteq> 0" using h by simp
  from Internal.prems(4) delta obtain l' split where l: "push_tree_recursive ops l (Leaf s0 [x] ss0) = Some (l', split)"
    by (simp add: ts TREE_BASE_def split: Option.bind_splits) auto
  have "dense_grown (width l) (l', split)"
    using Internal.IH [OF _ _ _ _ l] Internal.prems(1,2) by (simp add: ts)
  moreover have "TREE_BASE \<le> width l" using Internal.prems(2) by (simp add: ts)
  ultimately have l': "dense l'" "TREE_BASE \<le> width l'" "\<forall>r. split = Some r \<longrightarrow> dense r \<and> TREE_BASE \<le> width r"
    by (auto simp: dense_grown_def split: option.splits)
  have us: "\<forall>t \<in> set us. dense t \<and> TREE_BASE \<le> width t" using Internal.prems(2) by (simp add: ts)
  show ?case
  proof (cases split)
    case None
    with Internal.prems(4) delta l h l' us show ?thesis
      by (auto simp: ts dense_grown_def TREE_BASE_def array_vec_def Let_def split: if_splits)
  next
    case (Some r)
    show ?thesis
    proof (cases "length us = 11")
      case True
      with Some Internal.prems(4) delta l h have "\<exists>s1 c1 s2 c2. res =
          (Internal h s1 c1 (take 7 (us @ [l', r])), Some (Internal h s2 c2 (drop 7 (us @ [l', r]))))"
        by (auto simp: ts TREE_BASE_def array_vec_def Let_def split: if_splits)
      with split_dense [of "us @ [l', r]"] us l' Some True show ?thesis by auto
    next
      case False
      with Some Internal.prems(4) delta l h l' us show ?thesis
        by (auto simp: ts dense_grown_def TREE_BASE_def array_vec_def Let_def split: if_splits)
    qed
  qed
qed

text \<open>The number of items of a dense tree is exponential in its height.\<close>

lemma dense_items:
  "wf_tree ops t \<Longrightarrow> dense t \<Longrightarrow> \<not> tree_is_empty t \<Longrightarrow> width t * TREE_BASE ^ height t \<le> length (tree_items t)"
proof (induction t)
  case (Internal h s cs ts)
  then obtain k where k: "h = Suc k" "\<forall>t \<in> set ts. height t = k" by (cases ts) auto
  have "TREE_BASE ^ h \<le> length (tree_items t)" if "t \<in> set ts" for t
  proof -
    have "TREE_BASE * TREE_BASE ^ height t \<le> width t * TREE_BASE ^ height t" using Internal.prems(2) that by simp
    also have "\<dots> \<le> length (tree_items t)" using Internal.IH [OF that] Internal.prems that by simp
    finally show ?thesis using k that by simp
  qed
  then have "(\<Sum>t\<leftarrow>ts. TREE_BASE ^ h) \<le> (\<Sum>t\<leftarrow>ts. length (tree_items t))"
    by (intro sum_list_mono) simp
  then show ?case by (simp add: length_concat comp_def sum_list_triv)
qed simp

lemma dense_height:
  assumes "wf_tree ops t" "dense t"
  shows "height t = 0 \<or> TREE_BASE ^ height t \<le> length (tree_items t)"
proof (cases t)
  case (Internal h s cs ts)
  then have "1 \<le> width t" using assms(1) by (cases ts) auto
  then have "TREE_BASE ^ height t \<le> width t * TREE_BASE ^ height t" by simp
  also have "\<dots> \<le> length (tree_items t)" using dense_items [OF assms] Internal by simp
  finally show ?thesis ..
qed simp

context summary_laws
begin

lemma push_dense:
  assumes "wf_tree ops t" "dense t" "length (tree_items t) < TREE_BASE ^ 254"
  shows "\<exists>t'. tree_push ops x t = Some t' \<and> wf_tree ops t' \<and> dense t' \<and> tree_items t' = tree_items t @ [x]"
proof -
  let ?leaf = "Leaf (item_summary ops x) [x] [item_summary ops x]"
  have "height t < 255"
  proof (cases "height t = 0")
    case False
    with dense_height [OF assms(1,2)] assms(3) have "TREE_BASE ^ height t < TREE_BASE ^ 254" by simp
    then have "height t < 254" by (rule power_less_imp_less_exp [rotated]) (simp add: TREE_BASE_def)
    then show ?thesis by simp
  qed simp
  then obtain t' where t': "tree_push ops x t = Some t'" "wf_tree ops t'" "tree_items t' = tree_items t @ [x]"
    using push_correct [OF assms(1)] by blast
  have "dense t'"
  proof (cases "tree_is_empty t")
    case True
    then have "t' = ?leaf" using t'(1) by (cases t) (auto simp: tree_push_def tree_append_def)
    then show ?thesis by simp
  next
    case False
    then obtain a r where r: "push_tree_recursive ops t ?leaf = Some (a, r)"
        "case r of Some s \<Rightarrow> from_child_trees ops a s = Some t' | None \<Rightarrow> t' = a"
      using t'(1) by (cases t) (auto simp: tree_push_def tree_append_def split: Option.bind_splits option.splits)
    from push_item_dense [OF assms(1,2) False r(1)] r(2) show ?thesis
      by (auto simp: dense_grown_def from_child_trees_def array_vec_def TREE_BASE_def split: option.splits)
  qed
  with t' show ?thesis by blast
qed

end

section \<open>Properties\<close>

text \<open>Pushing a list of items, one call each.\<close>

fun push_all :: "('t, 's) item_ops \<Rightarrow> 't list \<Rightarrow> ('t, 's) sum_tree \<Rightarrow> ('t, 's) sum_tree option" where
  "push_all ops [] t = Some t"
| "push_all ops (x # xs) t = do { t' \<leftarrow> tree_push ops x t; push_all ops xs t' }"

lemma push_all_dense:
  assumes "summary_laws ops"
  shows "wf_tree ops t \<Longrightarrow> dense t \<Longrightarrow> length (tree_items t) + length xs \<le> TREE_BASE ^ 254 \<Longrightarrow>
    \<exists>t'. push_all ops xs t = Some t' \<and> wf_tree ops t' \<and> dense t' \<and> tree_items t' = tree_items t @ xs"
proof (induction xs arbitrary: t)
  case (Cons x xs)
  then obtain t1 where t1: "tree_push ops x t = Some t1" "wf_tree ops t1" "dense t1" "tree_items t1 = tree_items t @ [x]"
    using summary_laws.push_dense [OF assms, of t x] by auto
  with Cons.IH [of t1] Cons.prems(3) show ?case by auto
qed simp

text \<open>
  C26. A tree grown from the empty tree by pushing items one at a time holds these items in order and
  stays balanced: a tree of height \<open>h > 0\<close> has at least \<open>TREE_BASE ^ h\<close> items, so that up to
  \<open>TREE_BASE ^ 254\<close> pushes the \<open>u8\<close> height never overflows and no push panics.
\<close>

theorem push_stays_balanced:
  assumes "lawful_summary ops" "length xs \<le> TREE_BASE ^ 254"
  shows "\<exists>t. push_all ops xs (tree_new ops) = Some t \<and> wf_tree ops t \<and> tree_items t = xs \<and>
    (0 < height t \<longrightarrow> TREE_BASE ^ height t \<le> length xs)"
proof -
  have "wf_tree ops (tree_new ops)" "dense (tree_new ops)" "tree_items (tree_new ops) = []"
    by (simp_all add: tree_new_def summary_sum_def)
  with push_all_dense [OF summary_laws.intro [OF assms(1)], of "tree_new ops" xs] assms(2)
  obtain t where t: "push_all ops xs (tree_new ops) = Some t" "wf_tree ops t" "dense t" "tree_items t = xs" by auto
  with dense_height [OF t(2,3)] show ?thesis by auto
qed

theorem push_stays_balanced_witness:
  "\<exists>t. push_all \<lparr>item_summary = \<lambda>x::nat. x, s_zero = 0, s_add = (+)\<rparr> [1..<14]
      (tree_new \<lparr>item_summary = \<lambda>x::nat. x, s_zero = 0, s_add = (+)\<rparr>) = Some t \<and> tree_items t = [1..<14]"
proof -
  have "lawful_summary \<lparr>item_summary = \<lambda>x::nat. x, s_zero = 0, s_add = (+)\<rparr>" by (simp add: lawful_summary_def)
  moreover have "length [1..<14::nat] \<le> TREE_BASE ^ 254"
  proof -
    have "(6::nat) ^ 2 \<le> 6 ^ 254" by (rule power_increasing) simp_all
    then show ?thesis by (simp add: TREE_BASE_def)
  qed
  ultimately show ?thesis using push_stays_balanced by blast
qed

end
