(* ===== verification/Keyed_Tree.thy ===== *)
theory Keyed_Tree
  imports Cursor_Properties
begin

text \<open>
  Trees of keyed items (\<open>impl<T: KeyedItem> SumTree<T>\<close>): \<open>insert_or_replace\<close>, \<open>remove\<close>, \<open>edit\<close>
  and \<open>get\<close>. Under the laws of a key, which is a dimension that equals the key of the last item
  passed, a tree whose keys strictly increase behaves as an ordered association list.

  \<open>edit\<close> sorts its edits with \<open>sort_unstable_by_key\<close>; the sorting function is an argument that has
  to return a permutation with ascending keys, in any order of equal keys.
\<close>

section \<open>Operations\<close>

text \<open>\<open>key\<close> is \<open>KeyedItem::key\<close>, \<open>kdim\<close> the dimension of the key type.\<close>

definition insert_or_replace ::
  "('t, 's) item_ops \<Rightarrow> ('k::linorder, 's) dim_ops \<Rightarrow> ('t \<Rightarrow> 'k) \<Rightarrow> 't \<Rightarrow> ('t, 's) sum_tree
    \<Rightarrow> ('t option \<times> ('t, 's) sum_tree) option" where
  "insert_or_replace ops kdim key item self = do {
     (new_tree, c1) \<leftarrow> cursor_slice ops kdim (ord_cmp (key item)) Left (cursor_new kdim self);
     cursor_item \<leftarrow> cursor_item c1;
     (replaced, c2) \<leftarrow> (case cursor_item of
         Some it \<Rightarrow> if key it = key item then do { c \<leftarrow> cursor_next kdim c1; Some (Some it, c) } else Some (None, c1)
       | None \<Rightarrow> Some (None, c1));
     new_tree \<leftarrow> tree_push ops item new_tree;
     (suffix, _) \<leftarrow> cursor_suffix ops kdim c2;
     new_tree \<leftarrow> tree_append ops new_tree suffix;
     Some (replaced, new_tree)
   }"

definition tree_remove ::
  "('t, 's) item_ops \<Rightarrow> ('k::linorder, 's) dim_ops \<Rightarrow> ('t \<Rightarrow> 'k) \<Rightarrow> 'k \<Rightarrow> ('t, 's) sum_tree
    \<Rightarrow> ('t option \<times> ('t, 's) sum_tree) option" where
  "tree_remove ops kdim key k self = do {
     (new_tree, c1) \<leftarrow> cursor_slice ops kdim (ord_cmp k) Left (cursor_new kdim self);
     item \<leftarrow> cursor_item c1;
     (removed, c2) \<leftarrow> (case item of
         Some it \<Rightarrow> if key it = k then do { c \<leftarrow> cursor_next kdim c1; Some (Some it, c) } else Some (None, c1)
       | None \<Rightarrow> Some (None, c1));
     (suffix, _) \<leftarrow> cursor_suffix ops kdim c2;
     new_tree \<leftarrow> tree_append ops new_tree suffix;
     Some (removed, new_tree)
   }"

datatype ('t, 'k) tree_edit = Insert 't | Remove 'k

fun edit_key :: "('t \<Rightarrow> 'k) \<Rightarrow> ('t, 'k) tree_edit \<Rightarrow> 'k" where
  "edit_key key (Insert item) = key item"
| "edit_key key (Remove k) = k"

text \<open>The state of the loop in \<open>edit\<close>.\<close>

record ('t, 's, 'k) edit_state =
  ed_cursor :: "('t, 's, 'k) cursor"
  ed_tree :: "('t, 's) sum_tree"
  ed_buffered :: "'t list"
  ed_removed :: "'t list"

text \<open>The body of the loop: catch up with the key of the edit, drop the item it replaces, buffer what
  it inserts.\<close>

definition edit_advance ::
  "('t, 's) item_ops \<Rightarrow> ('k::linorder, 's) dim_ops \<Rightarrow> ('t \<Rightarrow> 'k) \<Rightarrow> 'k
    \<Rightarrow> ('t, 's, 'k) edit_state \<Rightarrow> (('t, 's, 'k) edit_state \<times> 't option) option" where
  "edit_advance ops kdim key new_key st = do {
     old_item \<leftarrow> cursor_item (ed_cursor st);
     case old_item of
       Some old \<Rightarrow> if key old < new_key then do {
           t1 \<leftarrow> tree_extend ops (ed_buffered st) (ed_tree st);
           (slice, c) \<leftarrow> cursor_slice ops kdim (ord_cmp new_key) Left (ed_cursor st);
           t2 \<leftarrow> tree_append ops t1 slice;
           old' \<leftarrow> cursor_item c;
           Some (st\<lparr>ed_buffered := [], ed_tree := t2, ed_cursor := c\<rparr>, old')
         } else Some (st, old_item)
     | None \<Rightarrow> Some (st, old_item)
   }"

definition edit_drop_old ::
  "('k::linorder, 's) dim_ops \<Rightarrow> ('t \<Rightarrow> 'k) \<Rightarrow> 'k \<Rightarrow> 't option
    \<Rightarrow> ('t, 's, 'k) edit_state \<Rightarrow> ('t, 's, 'k) edit_state option" where
  "edit_drop_old kdim key new_key old_item st = (case old_item of
     Some old \<Rightarrow> if key old = new_key then do {
         c \<leftarrow> cursor_next kdim (ed_cursor st);
         Some (st\<lparr>ed_removed := ed_removed st @ [old], ed_cursor := c\<rparr>)
       } else Some st
   | None \<Rightarrow> Some st)"

definition edit_step ::
  "('t, 's) item_ops \<Rightarrow> ('k::linorder, 's) dim_ops \<Rightarrow> ('t \<Rightarrow> 'k) \<Rightarrow> ('t, 'k) tree_edit
    \<Rightarrow> ('t, 's, 'k) edit_state \<Rightarrow> ('t, 's, 'k) edit_state option" where
  "edit_step ops kdim key e st = do {
     (st1, old_item) \<leftarrow> edit_advance ops kdim key (edit_key key e) st;
     st2 \<leftarrow> edit_drop_old kdim key (edit_key key e) old_item st1;
     case e of
       Insert item \<Rightarrow> Some (st2\<lparr>ed_buffered := ed_buffered st2 @ [item]\<rparr>)
     | Remove _ \<Rightarrow> Some st2
   }"

fun edit_loop ::
  "('t, 's) item_ops \<Rightarrow> ('k::linorder, 's) dim_ops \<Rightarrow> ('t \<Rightarrow> 'k) \<Rightarrow> ('t, 'k) tree_edit list
    \<Rightarrow> ('t, 's, 'k) edit_state \<Rightarrow> ('t, 's, 'k) edit_state option" where
  "edit_loop ops kdim key [] st = Some st"
| "edit_loop ops kdim key (e # es) st = do { st' \<leftarrow> edit_step ops kdim key e st; edit_loop ops kdim key es st' }"

definition sum_tree_edit ::
  "(('t, 'k) tree_edit list \<Rightarrow> ('t, 'k) tree_edit list) \<Rightarrow> ('t, 's) item_ops \<Rightarrow> ('k::linorder, 's) dim_ops
    \<Rightarrow> ('t \<Rightarrow> 'k) \<Rightarrow> ('t, 'k) tree_edit list \<Rightarrow> ('t, 's) sum_tree \<Rightarrow> ('t list \<times> ('t, 's) sum_tree) option" where
  "sum_tree_edit sort_edits ops kdim key edits self =
     (if edits = [] then Some ([], self)
      else do {
        (_, c) \<leftarrow> cursor_seek kdim (ord_cmp (d_zero kdim)) Left (cursor_new kdim self);
        st \<leftarrow> edit_loop ops kdim key (sort_edits edits)
          \<lparr>ed_cursor = c, ed_tree = tree_new ops, ed_buffered = [], ed_removed = []\<rparr>;
        new_tree \<leftarrow> tree_extend ops (ed_buffered st) (ed_tree st);
        (suffix, _) \<leftarrow> cursor_suffix ops kdim (ed_cursor st);
        new_tree \<leftarrow> tree_append ops new_tree suffix;
        Some (ed_removed st, new_tree)
      })"

definition tree_get :: "('k::linorder, 's) dim_ops \<Rightarrow> 'k \<Rightarrow> ('t, 's) sum_tree \<Rightarrow> 't option" where
  "tree_get kdim k self = (case find_exact kdim (ord_cmp k) Left self of (_, _, item) \<Rightarrow> item)"

section \<open>Ordered lists of keyed items\<close>

definition keys_sorted :: "('t \<Rightarrow> 'k::linorder) \<Rightarrow> 't list \<Rightarrow> bool" where
  "keys_sorted key xs \<longleftrightarrow> sorted_wrt (<) (map key xs)"

definition items_below :: "('t \<Rightarrow> 'k::linorder) \<Rightarrow> 'k \<Rightarrow> 't list \<Rightarrow> 't list" where
  "items_below key k xs = filter (\<lambda>x. key x < k) xs"

definition items_above :: "('t \<Rightarrow> 'k::linorder) \<Rightarrow> 'k \<Rightarrow> 't list \<Rightarrow> 't list" where
  "items_above key k xs = filter (\<lambda>x. k < key x) xs"

definition item_at :: "('t \<Rightarrow> 'k::linorder) \<Rightarrow> 'k \<Rightarrow> 't list \<Rightarrow> 't option" where
  "item_at key k xs = List.find (\<lambda>x. key x = k) xs"

lemma keys_sorted_append:
  "keys_sorted key (xs @ ys) \<longleftrightarrow> keys_sorted key xs \<and> keys_sorted key ys \<and> (\<forall>x \<in> set xs. \<forall>y \<in> set ys. key x < key y)"
  by (auto simp: keys_sorted_def sorted_wrt_append)

lemma keys_sorted_Cons:
  "keys_sorted key (x # xs) \<longleftrightarrow> (\<forall>y \<in> set xs. key x < key y) \<and> keys_sorted key xs"
  by (auto simp: keys_sorted_def)

lemma keys_sorted_Nil [simp]: "keys_sorted key []"
  by (simp add: keys_sorted_def)

lemma index_opt_drop: "index_opt xs n = first_opt (drop n xs)"
  by (cases "n < length xs") (simp_all add: Cons_nth_drop_Suc [symmetric])

text \<open>The number of leading items with smaller keys splits a sorted list in three.\<close>

lemma sorted_split:
  assumes "keys_sorted key xs" "n = length (takeWhile (\<lambda>x. key x < k) xs)"
  shows "take n xs = items_below key k xs"
    and "index_opt xs n = Some x \<Longrightarrow> key x = k \<Longrightarrow> drop (Suc n) xs = items_above key k xs \<and> item_at key k xs = Some x"
    and "(\<forall>x. index_opt xs n = Some x \<longrightarrow> key x \<noteq> k) \<Longrightarrow> drop n xs = items_above key k xs \<and> item_at key k xs = None"
    and "index_opt xs n = Some x \<Longrightarrow> k \<le> key x"
proof -
  define ys where "ys = takeWhile (\<lambda>x. key x < k) xs"
  define zs where "zs = dropWhile (\<lambda>x. key x < k) xs"
  have xs: "xs = ys @ zs" by (simp add: ys_def zs_def)
  then have take: "take n xs = ys" and drop: "drop n xs = zs" using assms(2) by (metis append_eq_conv_conj ys_def)+
  have below: "\<forall>y \<in> set ys. key y < k" by (auto simp: ys_def dest: set_takeWhileD)
  have sorted: "keys_sorted key zs" using assms(1) xs keys_sorted_append by metis
  have hd: "zs = z # zs' \<Longrightarrow> k \<le> key z" for z zs' unfolding zs_def by (metis dropWhile_eq_Cons_conv not_le)
  have idx: "index_opt xs n = first_opt zs" using index_opt_drop [of xs n] drop by simp
  have zs: "\<forall>z \<in> set zs. k \<le> key z" using sorted hd by (cases zs) (auto simp: keys_sorted_Cons)
  have find: "List.find P (us @ vs) = List.find P vs" if "\<forall>u \<in> set us. \<not> P u" for P and us vs :: "'a list"
    using that by (induction us) auto
  have filt: "items_below key k xs = ys" "items_above key k xs = items_above key k zs" "item_at key k xs = item_at key k zs"
    using below zs find [of ys "\<lambda>x. key x = k" zs]
    by (auto simp: xs items_below_def items_above_def item_at_def filter_empty_conv filter_id_conv not_less)
  show "take n xs = items_below key k xs" using take filt by simp
  show "k \<le> key x" if "index_opt xs n = Some x" using that idx hd by (cases zs) auto
  show "drop (Suc n) xs = items_above key k xs \<and> item_at key k xs = Some x" if x: "index_opt xs n = Some x" "key x = k"
  proof -
    from x idx obtain zs' where "zs = x # zs'" by (cases zs) auto
    moreover have "drop (Suc n) xs = tl (drop n xs)" by (simp add: drop_Suc tl_drop)
    ultimately show ?thesis
      unfolding filt using drop sorted x by (auto simp: items_above_def item_at_def keys_sorted_Cons filter_id_conv)
  qed
  show "drop n xs = items_above key k xs \<and> item_at key k xs = None" if "\<forall>x. index_opt xs n = Some x \<longrightarrow> key x \<noteq> k"
  proof (cases zs)
    case Nil
    then show ?thesis unfolding filt using drop by (simp add: items_above_def item_at_def)
  next
    case (Cons z zs')
    with that idx hd sorted have "\<forall>y \<in> set zs. k < key y" by (fastforce simp: keys_sorted_Cons)
    then show ?thesis unfolding filt drop by (auto simp: items_above_def item_at_def filter_id_conv find_None_iff)
  qed
qed

section \<open>Under the key laws\<close>

lemma antitone_ord_cmp: "sorted_wrt (\<le>) ps \<Longrightarrow> antitone_target (ord_cmp k) ps" for k :: "'k::linorder"
  unfolding antitone_target_def
  by (erule sorted_wrt_mono_rel [rotated]) (auto simp: ord_cmp_def ordering_order_defs)

lemma seek_index_ord_cmp:
  "seek_index (ord_cmp k) Left ps = length (takeWhile (\<lambda>p. p < k) ps)"
  "seek_index (ord_cmp k) Right ps = length (takeWhile (\<lambda>p. p \<le> k) ps)" for k :: "'k::linorder"
  by (auto simp: seek_index_def beyond_def ord_cmp_def intro!: arg_cong [of _ _ length] takeWhile_cong)

definition keyed_tree :: "('t, 's) item_ops \<Rightarrow> ('t \<Rightarrow> 'k::linorder) \<Rightarrow> ('t, 's) sum_tree \<Rightarrow> bool" where
  "keyed_tree ops key t \<longleftrightarrow> wf_tree ops t \<and> height t < STACK_CAPACITY \<and> keys_sorted key (tree_items t)"

locale keyed_laws = search_laws ops kdim
  for ops :: "('t, 's) item_ops" and kdim :: "('k::linorder, 's) dim_ops" +
  fixes key :: "'t \<Rightarrow> 'k"
  assumes key_law: "z \<le> key x \<Longrightarrow> d_add kdim z (item_summary ops x) = key x"
    and zero_le: "d_zero kdim \<le> key x"
begin

lemma positions_keys:
  "keys_sorted key xs \<Longrightarrow> \<forall>x \<in> set xs. z \<le> key x \<Longrightarrow> positions kdim z (sums ops xs) = map key xs"
proof (induction xs arbitrary: z)
  case (Cons x xs)
  then have "positions kdim (key x) (sums ops xs) = map key xs"
    by (intro Cons.IH) (auto simp: keys_sorted_Cons less_imp_le)
  with Cons.prems show ?case by (simp add: key_law)
qed simp

lemma pos_at_key:
  assumes "keys_sorted key (tree_items t)" "n < length (tree_items t)"
  shows "pos_at ops kdim t (Suc n) = key (tree_items t ! n)"
proof -
  have "pos_at ops kdim t (Suc n) = positions kdim (d_zero kdim) (sums ops (tree_items t)) ! n"
    using assms(2) by (simp add: pos_at_def nth_positions take_map)
  with assms show ?thesis by (simp add: positions_keys zero_le)
qed

lemma pos_at_le:
  assumes "keys_sorted key (tree_items t)" "x \<in> set (drop n (tree_items t))"
  shows "pos_at ops kdim t n \<le> key x"
proof (cases n)
  case 0
  then show ?thesis by (simp add: pos_at_def zero_le)
next
  case (Suc m)
  then have n: "m < length (tree_items t)" using assms(2) by (cases "m < length (tree_items t)") auto
  have "tree_items t ! m \<in> set (take n (tree_items t))" using Suc n by (auto simp: take_Suc_conv_app_nth)
  moreover have "keys_sorted key (take n (tree_items t) @ drop n (tree_items t))" using assms(1) by simp
  ultimately show ?thesis using Suc n assms pos_at_key [OF assms(1) n] keys_sorted_append by (metis less_imp_le)
qed

lemma key_positions:
  assumes "keys_sorted key (tree_items t)"
  shows "positions kdim (pos_at ops kdim t n) (sums ops (drop n (tree_items t))) = map key (drop n (tree_items t))"
proof (rule positions_keys)
  show "keys_sorted key (drop n (tree_items t))"
    using assms by (metis append_take_drop_id keys_sorted_append)
qed (use pos_at_le [OF assms] in blast)

lemma key_seekable:
  assumes "keys_sorted key (tree_items t)" "pos_at ops kdim t n \<le> k"
  shows "seekable ops kdim (ord_cmp k) t n"
proof -
  have "keys_sorted key (drop n (tree_items t))" using assms(1) by (metis append_take_drop_id keys_sorted_append)
  then have "sorted_wrt (\<le>) (map key (drop n (tree_items t)))"
    by (auto simp: keys_sorted_def elim: sorted_wrt_mono_rel [rotated])
  with assms show ?thesis
    by (auto simp: seekable_def key_positions antitone_ord_cmp)
qed

lemma key_seek_to:
  assumes "keys_sorted key (tree_items t)"
  shows "seek_to ops kdim (ord_cmp k) Left t n = n + length (takeWhile (\<lambda>x. key x < k) (drop n (tree_items t)))"
    and "seek_to ops kdim (ord_cmp k) Right t n = n + length (takeWhile (\<lambda>x. key x \<le> k) (drop n (tree_items t)))"
  using assms by (simp_all add: seek_to_def key_positions seek_index_ord_cmp takeWhile_map comp_def)

lemma room_height: "wf_cursor ops c \<Longrightarrow> height t \<le> height (c_tree c) + 2 \<Longrightarrow> height t \<le> 53"
  by (simp add: wf_cursor_def STACK_CAPACITY_def)

text \<open>Cutting a tree at a key, the common start of the keyed operations.\<close>

lemma cut_at_key:
  assumes t: "keyed_tree ops key t" and k: "d_zero kdim \<le> k"
  obtains left c1 found c2 where "cursor_slice ops kdim (ord_cmp k) Left (cursor_new kdim t) = Some (left, c1)"
    "wf_tree ops left" "height left \<le> 53" "tree_items left = items_below key k (tree_items t)"
    "cursor_item c1 = Some found" "case found of None \<Rightarrow> True | Some x \<Rightarrow> k \<le> key x"
    "(case found of Some x \<Rightarrow> if key x = k then do { c \<leftarrow> cursor_next kdim c1; Some (Some x, c) } else Some (None, c1)
       | None \<Rightarrow> Some (None, c1)) = Some (item_at key k (tree_items t), c2)"
    "wf_cursor ops c2" "c_tree c2 = t"
    "\<exists>m. cursor_at ops kdim c2 m \<and> drop m (tree_items t) = items_above key k (tree_items t)"
proof -
  let ?xs = "tree_items t"
  have t': "wf_tree ops t" "height t < STACK_CAPACITY" "keys_sorted key ?xs" using t by (simp_all add: keyed_tree_def)
  have c0: "wf_cursor ops (cursor_new kdim t)" using t' by (simp add: wf_cursor_def cursor_at_new)
  define n where "n = length (takeWhile (\<lambda>x. key x < k) ?xs)"
  note split = sorted_split [OF t'(3) n_def]
  have "seekable ops kdim (ord_cmp k) (c_tree (cursor_new kdim t)) 0"
    using key_seekable [OF t'(3), of 0] k by (simp add: cursor_at_new pos_at_def)
  from slice_correct [OF c0 cursor_at_new(1) this refl, of Left]
  obtain left c1 where s: "cursor_slice ops kdim (ord_cmp k) Left (cursor_new kdim t) = Some (left, c1)" "wf_tree ops left"
      "height left \<le> 53" "tree_items left = items_below key k ?xs" "c_tree c1 = t" "c_did_seek c1" "cursor_at ops kdim c1 n"
    using split(1) room_height [OF c0] by (auto simp: cursor_at_new key_seek_to [OF t'(3)] n_def)
  have item: "cursor_item c1 = Some (index_opt ?xs n)" using cursor_item_correct [OF s(7,6)] s(5) by simp
  have wf1: "wf_cursor ops c1" using t' s(5) by (simp add: wf_cursor_def)
  show ?thesis
  proof (cases "\<exists>x. index_opt ?xs n = Some x \<and> key x = k")
    case True
    then obtain x where x: "index_opt ?xs n = Some x" "key x = k" by blast
    then have n: "Suc n \<le> length ?xs" by (auto simp: index_opt_def split: if_splits)
    obtain c2 where "cursor_next kdim c1 = Some c2" "c_tree c2 = t" "cursor_at ops kdim c2 (Suc n)"
      using next_correct [OF wf1 s(7)] s(5,6) n by auto
    then show ?thesis
      using that [OF s(1-4) item, of c2] x split(2) [OF x] wf1 t' by (auto simp: wf_cursor_def)
  next
    case False
    then have above: "drop n ?xs = items_above key k ?xs" "item_at key k ?xs = None" using split(3) by auto
    with False s(7) wf1 s(5) split(4) show ?thesis
      using that [OF s(1-4) item, of c1] by (cases "index_opt ?xs n") auto
  qed
qed

lemma insert_or_replace_correct:
  assumes "keyed_tree ops key t"
  shows "\<exists>t'. insert_or_replace ops kdim key item t = Some (item_at key (key item) (tree_items t), t') \<and>
    wf_tree ops t' \<and> height t' \<le> 55 \<and>
    tree_items t' = items_below key (key item) (tree_items t) @ item # items_above key (key item) (tree_items t)"
proof -
  let ?k = "key item" and ?xs = "tree_items t"
  show ?thesis
  proof (rule cut_at_key [OF assms zero_le [of item]])
    fix left c1 found c2
    assume cut: "cursor_slice ops kdim (ord_cmp ?k) Left (cursor_new kdim t) = Some (left, c1)"
      "wf_tree ops left" "height left \<le> 53" "tree_items left = items_below key ?k ?xs" "cursor_item c1 = Some found"
      "(case found of Some x \<Rightarrow> if key x = ?k then do { c \<leftarrow> cursor_next kdim c1; Some (Some x, c) } else Some (None, c1)
         | None \<Rightarrow> Some (None, c1)) = Some (item_at key ?k ?xs, c2)"
      "wf_cursor ops c2" "c_tree c2 = t" "\<exists>m. cursor_at ops kdim c2 m \<and> drop m ?xs = items_above key ?k ?xs"
    obtain t1 where t1: "tree_push ops item left = Some t1" "wf_tree ops t1" "tree_items t1 = tree_items left @ [item]" "height t1 \<le> 54"
      using push_correct [OF cut(2), of item] cut(3) by auto
    obtain suf c3 where suf: "cursor_suffix ops kdim c2 = Some (suf, c3)" "wf_tree ops suf" "height suf \<le> 53"
        "tree_items suf = items_above key ?k ?xs"
      using suffix_correct [OF cut(7)] cut(8,9) room_height [OF cut(7)] by (metis (no_types, lifting))
    obtain t2 where t2: "tree_append ops t1 suf = Some t2" "wf_tree ops t2" "tree_items t2 = tree_items t1 @ tree_items suf"
        "height t2 \<le> Suc (max (height t1) (height suf))"
      using append_correct [OF t1(2) suf(2)] t1(4) suf(3) by auto
    have "insert_or_replace ops kdim key item t = Some (item_at key ?k ?xs, t2)"
      using cut(1,5,6) t1(1) suf(1) t2(1) by (simp add: insert_or_replace_def)
    with t2 t1 suf cut(4) show ?thesis by auto
  qed
qed

lemma remove_correct:
  assumes "keyed_tree ops key t" "d_zero kdim \<le> k"
  shows "\<exists>t'. tree_remove ops kdim key k t = Some (item_at key k (tree_items t), t') \<and>
    wf_tree ops t' \<and> height t' \<le> 54 \<and>
    tree_items t' = items_below key k (tree_items t) @ items_above key k (tree_items t)"
proof -
  let ?xs = "tree_items t"
  show ?thesis
  proof (rule cut_at_key [OF assms])
    fix left c1 found c2
    assume cut: "cursor_slice ops kdim (ord_cmp k) Left (cursor_new kdim t) = Some (left, c1)"
      "wf_tree ops left" "height left \<le> 53" "tree_items left = items_below key k ?xs" "cursor_item c1 = Some found"
      "(case found of Some x \<Rightarrow> if key x = k then do { c \<leftarrow> cursor_next kdim c1; Some (Some x, c) } else Some (None, c1)
         | None \<Rightarrow> Some (None, c1)) = Some (item_at key k ?xs, c2)"
      "wf_cursor ops c2" "c_tree c2 = t" "\<exists>m. cursor_at ops kdim c2 m \<and> drop m ?xs = items_above key k ?xs"
    obtain suf c3 where suf: "cursor_suffix ops kdim c2 = Some (suf, c3)" "wf_tree ops suf" "height suf \<le> 53"
        "tree_items suf = items_above key k ?xs"
      using suffix_correct [OF cut(7)] cut(8,9) room_height [OF cut(7)] by (metis (no_types, lifting))
    obtain t2 where t2: "tree_append ops left suf = Some t2" "wf_tree ops t2" "tree_items t2 = tree_items left @ tree_items suf"
        "height t2 \<le> Suc (max (height left) (height suf))"
      using append_correct [OF cut(2) suf(2)] cut(3) suf(3) by auto
    have "tree_remove ops kdim key k t = Some (item_at key k ?xs, t2)"
      using cut(1,5,6) suf(1) t2(1) by (simp add: tree_remove_def)
    with t2 suf cut(3,4) show ?thesis by auto
  qed
qed

text \<open>\<open>get\<close>: the search for an exact key.\<close>

lemma get_correct:
  assumes "keyed_tree ops key t"
  shows "tree_get kdim k t = item_at key k (tree_items t)"
proof -
  let ?xs = "tree_items t"
  have t: "wf_tree ops t" "keys_sorted key ?xs" using assms by (simp_all add: keyed_tree_def)
  define n where "n = length (takeWhile (\<lambda>x. key x < k) ?xs)"
  note split = sorted_split [OF t(2) n_def]
  have n: "n \<le> length ?xs" by (simp add: n_def length_takeWhile_le)
  show ?thesis
  proof (cases "tree_is_empty t")
    case True
    then obtain s ss where leaf: "t = Leaf s [] ss" by (cases t) auto
    with t(1) have "?xs = []" "s = s_zero ops" by (simp_all add: summary_sum_def)
    then show ?thesis by (simp add: leaf tree_get_def find_exact_def find_generic_def item_at_def Let_def)
  next
    case False
    have pos: "positions kdim (d_zero kdim) (sums ops ?xs) = map key ?xs"
      using t(2) by (intro positions_keys) (simp_all add: zero_le)
    then have anti: "antitone_target (ord_cmp k) (positions kdim (d_zero kdim) (sums ops ?xs))"
      using key_seekable [OF t(2), of 0] t(2) by (auto simp: keys_sorted_def intro!: antitone_ord_cmp elim: sorted_wrt_mono_rel [rotated])
    have idx: "seek_index (ord_cmp k) Left (map key ?xs) = n"
      by (simp add: seek_index_ord_cmp takeWhile_map comp_def n_def)
    have adv: "advance kdim (d_zero kdim) (take (Suc n) (sums ops ?xs)) = key (?xs ! n)" if "n < length ?xs"
      using pos_at_key [OF t(2) that] by (simp add: pos_at_def take_map)
    have found: "(if n < length ?xs \<and> key (?xs ! n) = k then snd (snd (find_exact kdim (ord_cmp k) Left t)) = Some (?xs ! n)
        else snd (snd (find_exact kdim (ord_cmp k) Left t)) = None)"
      using find_generic_correct [OF t(1) False anti, of True Left] pos idx adv
      by (auto simp: find_exact_def split: if_splits)
    show ?thesis
    proof (cases "n < length ?xs \<and> key (?xs ! n) = k")
      case True
      with found split(2) [of "?xs ! n"] show ?thesis by (auto simp: tree_get_def split: prod.splits)
    next
      case False
      with found split(3) show ?thesis by (auto simp: tree_get_def index_opt_def split: prod.splits if_splits)
    qed
  qed
qed

end

section \<open>Batches of edits\<close>

text \<open>What a batch of edits does to the ordered list of items.\<close>

definition edit_inserts :: "('t, 'k) tree_edit \<Rightarrow> 't list" where
  "edit_inserts e = (case e of Insert item \<Rightarrow> [item] | Remove _ \<Rightarrow> [])"

definition apply_edit :: "('t \<Rightarrow> 'k::linorder) \<Rightarrow> ('t, 'k) tree_edit \<Rightarrow> 't list \<Rightarrow> 't list" where
  "apply_edit key e xs =
     items_below key (edit_key key e) xs @ edit_inserts e @ items_above key (edit_key key e) xs"

definition edits_removed :: "('t \<Rightarrow> 'k::linorder) \<Rightarrow> ('t, 'k) tree_edit list \<Rightarrow> 't list \<Rightarrow> 't list" where
  "edits_removed key es xs = concat (map (\<lambda>e. case item_at key (edit_key key e) xs of None \<Rightarrow> [] | Some x \<Rightarrow> [x]) es)"

text \<open>The state of the loop: what has been built, and the index of the cursor.\<close>

definition edit_state_ok ::
  "('t, 's) item_ops \<Rightarrow> ('k::linorder, 's) dim_ops \<Rightarrow> ('t, 's) sum_tree \<Rightarrow> nat \<Rightarrow> nat \<Rightarrow> ('t, 's, 'k) edit_state \<Rightarrow> bool" where
  "edit_state_ok ops kdim t n m st \<longleftrightarrow>
     c_tree (ed_cursor st) = t \<and> c_did_seek (ed_cursor st) \<and> cursor_at ops kdim (ed_cursor st) m \<and>
     wf_tree ops (ed_tree st) \<and> tree_room 53 (2 * n) (ed_tree st) \<and> length (ed_buffered st) \<le> n"

definition built :: "('t, 's, 'k) edit_state \<Rightarrow> 't list" where
  "built st = tree_items (ed_tree st) @ ed_buffered st"

context keyed_laws
begin

lemma extend_room:
  assumes "wf_tree ops t" "tree_room 53 n t" "length xs < 2 ^ 64" "n \<le> 2 ^ 66"
  shows "\<exists>t'. tree_extend ops xs t = Some t' \<and> wf_tree ops t' \<and> tree_items t' = tree_items t @ xs \<and> tree_room 53 (Suc n) t'"
proof -
  have "length xs \<le> (2 * TREE_BASE) ^ Suc 17" using assms(3) by (simp add: TREE_BASE_def)
  then obtain u where u: "from_iter ops xs = Some u" "wf_tree ops u" "tree_items u = xs" "height u \<le> 17"
    using from_iter_correct [of xs 17] by auto
  with append_room [OF assms(1) u(2) _ assms(2,4)] show ?thesis by (auto simp: tree_extend_def)
qed

lemma edit_flush:
  assumes t: "keyed_tree ops key t" and st: "edit_state_ok ops kdim t n m st" "n < 2 ^ 64"
    and old: "index_opt (tree_items t) m = Some old" "key old < k"
    and ys: "ys = drop m (tree_items t)" "j = length (takeWhile (\<lambda>x. key x < k) ys)"
  shows "\<exists>t1 slice c t2. tree_extend ops (ed_buffered st) (ed_tree st) = Some t1 \<and>
    cursor_slice ops kdim (ord_cmp k) Left (ed_cursor st) = Some (slice, c) \<and>
    tree_append ops t1 slice = Some t2 \<and> cursor_item c = Some (index_opt ys j) \<and>
    wf_tree ops t2 \<and> tree_room 53 (2 * Suc n) t2 \<and> tree_items t2 = built st @ take j ys \<and>
    c_tree c = t \<and> c_did_seek c \<and> cursor_at ops kdim c (m + j)"
proof -
  have t': "wf_tree ops t" "height t < STACK_CAPACITY" "keys_sorted key (tree_items t)" using t by (simp_all add: keyed_tree_def)
  have c: "c_tree (ed_cursor st) = t" "cursor_at ops kdim (ed_cursor st) m" "wf_cursor ops (ed_cursor st)"
    using st(1) t' by (simp_all add: edit_state_ok_def wf_cursor_def)
  obtain t1 where t1: "tree_extend ops (ed_buffered st) (ed_tree st) = Some t1" "wf_tree ops t1" "tree_items t1 = built st"
      "tree_room 53 (Suc (2 * n)) t1"
    using extend_room [of "ed_tree st" "2 * n" "ed_buffered st"] st by (auto simp: edit_state_ok_def built_def)
  have m: "m < length (tree_items t)" "old = tree_items t ! m" using old(1) by (auto simp: index_opt_def split: if_splits)
  then have "old \<in> set (drop m (tree_items t))" by (metis Cons_nth_drop_Suc list.set_intros(1))
  with pos_at_le [OF t'(3)] old(2) have "pos_at ops kdim t m \<le> k" by fastforce
  from slice_correct [OF c(3,2), of "ord_cmp k" _ Left] key_seekable [OF t'(3) this] c(1)
  obtain slice d where d: "cursor_slice ops kdim (ord_cmp k) Left (ed_cursor st) = Some (slice, d)" "wf_tree ops slice"
      "height slice \<le> height t + 2" "tree_items slice = take j ys" "c_tree d = t" "c_did_seek d" "cursor_at ops kdim d (m + j)"
    by (auto simp: key_seek_to [OF t'(3)] ys)
  obtain t2 where "tree_append ops t1 slice = Some t2" "wf_tree ops t2" "tree_items t2 = built st @ take j ys" "tree_room 53 (Suc (Suc (2 * n))) t2"
    using append_room [OF t1(2) d(2) room_height [OF c(3) d(3) [folded c(1)]] t1(4)] st(2) t1(3) d(4) by auto
  moreover have "index_opt ys j = index_opt (tree_items t) (m + j)" by (auto simp: ys(1) index_opt_def)
  ultimately show ?thesis
    using t1(1) d cursor_item_correct [OF d(7,6)] by auto
qed

lemma edit_step_correct:
  assumes t: "keyed_tree ops key t" and st: "edit_state_ok ops kdim t n m st" "n < 2 ^ 64"
    and ys: "ys = drop m (tree_items t)" and k: "k = edit_key key e"
  shows "\<exists>st' m'. edit_step ops kdim key e st = Some st' \<and> edit_state_ok ops kdim t (Suc n) m' st' \<and>
    built st' = built st @ items_below key k ys @ edit_inserts e \<and> drop m' (tree_items t) = items_above key k ys \<and>
    ed_removed st' = ed_removed st @ (case item_at key k ys of None \<Rightarrow> [] | Some x \<Rightarrow> [x])"
proof -
  let ?xs = "tree_items t"
  have t': "wf_tree ops t" "height t < STACK_CAPACITY" "keys_sorted key ?xs" using t by (simp_all add: keyed_tree_def)
  have sorted: "keys_sorted key ys" using t'(3) ys by (metis append_take_drop_id keys_sorted_append)
  define j where "j = length (takeWhile (\<lambda>x. key x < k) ys)"
  note split = sorted_split [OF sorted j_def]
  have item: "cursor_item (ed_cursor st) = Some (first_opt ys)"
    using cursor_item_correct [of ops kdim "ed_cursor st" m] st(1) by (simp add: edit_state_ok_def ys index_opt_drop)
  obtain st1 where st1: "edit_advance ops kdim key k st = Some (st1, index_opt ys j)"
      "c_tree (ed_cursor st1) = t" "c_did_seek (ed_cursor st1)" "cursor_at ops kdim (ed_cursor st1) (m + j)"
      "wf_tree ops (ed_tree st1)" "tree_room 53 (2 * Suc n) (ed_tree st1)" "length (ed_buffered st1) \<le> n"
      "built st1 = built st @ items_below key k ys" "ed_removed st1 = ed_removed st"
  proof (cases "\<exists>old. first_opt ys = Some old \<and> key old < k")
    case True
    then obtain old where old: "first_opt ys = Some old" "key old < k" by blast
    then have "index_opt ?xs m = Some old" by (simp add: index_opt_drop ys)
    from edit_flush [OF t st(1,2) this old(2) ys j_def] old item that split(1) show ?thesis
      by (auto simp: built_def edit_advance_def)
  next
    case False
    then have "j = 0" using j_def by (cases ys) auto
    moreover have "items_below key k ys = []" using split(1) \<open>j = 0\<close> by simp
    moreover have "tree_room 53 (2 * Suc n) (ed_tree st)" using st(1) tree_room_mono [of 53 "2 * n" "ed_tree st" "2 * Suc n"] by (simp add: edit_state_ok_def)
    ultimately show ?thesis
      using that [of st] False st(1) item by (auto simp: edit_advance_def edit_state_ok_def index_opt_drop split: option.splits)
  qed
  have wf1: "wf_cursor ops (ed_cursor st1)" using t' st1(2) by (simp add: wf_cursor_def)
  obtain st2 m2 where st2: "edit_drop_old kdim key k (index_opt ys j) st1 = Some st2" "ed_tree st2 = ed_tree st1" "ed_buffered st2 = ed_buffered st1"
      "c_tree (ed_cursor st2) = t" "c_did_seek (ed_cursor st2)" "cursor_at ops kdim (ed_cursor st2) m2"
      "drop m2 ?xs = items_above key k ys" "ed_removed st2 = ed_removed st @ (case item_at key k ys of None \<Rightarrow> [] | Some x \<Rightarrow> [x])"
  proof (cases "\<exists>x. index_opt ys j = Some x \<and> key x = k")
    case True
    then obtain x where x: "index_opt ys j = Some x" "key x = k" by blast
    then have "m + j < length ?xs" by (auto simp: ys index_opt_def split: if_splits)
    then obtain c where "cursor_next kdim (ed_cursor st1) = Some c" "c_tree c = t" "c_did_seek c" "cursor_at ops kdim c (Suc (m + j))"
      using next_correct [OF wf1 st1(4)] st1(2,3) by auto
    moreover have "drop (Suc (m + j)) ?xs = items_above key k ys" using split(2) [OF x] by (simp add: ys add.commute)
    ultimately show ?thesis
      using that [of "st1\<lparr>ed_removed := ed_removed st1 @ [x], ed_cursor := c\<rparr>" "Suc (m + j)"] x split(2) [OF x] st1(9) by (auto simp: edit_drop_old_def)
  next
    case False
    then have "drop (m + j) ?xs = items_above key k ys" "item_at key k ys = None" using split(3) by (auto simp: ys add.commute)
    with that [of st1 "m + j"] False st1 show ?thesis by (auto simp: edit_drop_old_def split: option.splits)
  qed
  let ?st = "st2\<lparr>ed_buffered := ed_buffered st2 @ edit_inserts e\<rparr>"
  have "edit_step ops kdim key e st = Some ?st"
    using st1(1) st2(1) by (cases e) (simp_all add: edit_step_def k edit_inserts_def)
  moreover have "edit_state_ok ops kdim t (Suc n) m2 ?st"
    using st1 st2 by (cases e) (simp_all add: edit_state_ok_def edit_inserts_def)
  moreover have "built ?st = built st @ items_below key k ys @ edit_inserts e" using st1(8) st2(2,3) by (simp add: built_def)
  ultimately show ?thesis using st2(7,8) by auto
qed

end

lemma item_at_filter:
  "item_at key k (items_above key l xs) = (if l < k then item_at key k xs else None)"
  "item_at key k (items_below key l xs) = (if k < l then item_at key k xs else None)"
  by (induction xs) (auto simp: item_at_def items_above_def items_below_def)

lemma item_at_simps [simp]:
  "item_at key k [] = None"
  "item_at key k (x # xs) = (if key x = k then Some x else item_at key k xs)"
  by (simp_all add: item_at_def)

lemma item_at_append: "item_at key k (xs @ ys) = (case item_at key k xs of None \<Rightarrow> item_at key k ys | Some x \<Rightarrow> Some x)"
  by (induction xs) (auto simp: item_at_def)

lemma item_at_Some: "item_at key k xs = Some x \<Longrightarrow> x \<in> set xs \<and> key x = k"
  by (auto simp: item_at_def find_Some_iff)

lemma item_at_None: "item_at key k xs = None \<longleftrightarrow> (\<forall>x \<in> set xs. key x \<noteq> k)"
  by (auto simp: item_at_def find_None_iff)

lemma keys_sorted_apply_edit: "keys_sorted key xs \<Longrightarrow> keys_sorted key (apply_edit key e xs)"
proof -
  assume "keys_sorted key xs"
  then have "keys_sorted key (filter P xs)" for P
    by (induction xs) (auto simp: keys_sorted_Cons)
  then show ?thesis
    by (cases e) (auto simp: apply_edit_def keys_sorted_append keys_sorted_Cons edit_inserts_def items_below_def items_above_def)
qed

lemma item_at_apply_edit:
  "item_at key k (apply_edit key e xs) =
     (if k = edit_key key e then (case e of Insert x \<Rightarrow> Some x | Remove _ \<Rightarrow> None) else item_at key k xs)"
proof (cases e)
  case (Insert x)
  then show ?thesis
    by (auto simp: apply_edit_def item_at_append item_at_filter edit_inserts_def split: option.splits)
next
  case (Remove l)
  then show ?thesis
    by (auto simp: apply_edit_def item_at_append item_at_filter edit_inserts_def split: option.splits)
qed

lemma apply_edit_behind:
  assumes "\<forall>x \<in> set us. key x < edit_key key e"
  shows "apply_edit key e (us @ xs) = us @ items_below key (edit_key key e) xs @ edit_inserts e @ items_above key (edit_key key e) xs"
proof -
  have "filter (\<lambda>x. key x < edit_key key e) us = us" "filter (\<lambda>x. edit_key key e < key x) us = []"
    using assms by (auto simp: filter_id_conv filter_empty_conv)
  then show ?thesis by (simp add: apply_edit_def items_below_def items_above_def)
qed

text \<open>The edit of a batch that concerns a key.\<close>

definition edit_for :: "('t \<Rightarrow> 'k) \<Rightarrow> ('t, 'k) tree_edit list \<Rightarrow> 'k \<Rightarrow> ('t, 'k) tree_edit option" where
  "edit_for key es k = List.find (\<lambda>e. edit_key key e = k) es"

definition edited :: "('t \<Rightarrow> 'k) \<Rightarrow> ('t, 'k) tree_edit list \<Rightarrow> 'k \<Rightarrow> 't option \<Rightarrow> 't option" where
  "edited key es k old = (case edit_for key es k of
     Some (Insert x) \<Rightarrow> Some x
   | Some (Remove _) \<Rightarrow> None
   | None \<Rightarrow> old)"

lemma edited_Cons:
  "distinct (map (edit_key key) (e # es)) \<Longrightarrow>
     edited key (e # es) k (item_at key k xs) = edited key es k (item_at key k (apply_edit key e xs))"
proof -
  assume d: "distinct (map (edit_key key) (e # es))"
  then have "\<forall>e' \<in> set es. edit_key key e' \<noteq> edit_key key e" by (metis distinct.simps(2) image_eqI list.map(2) list.set_map)
  then have "edit_for key es (edit_key key e) = None" by (auto simp: edit_for_def find_None_iff)
  then show ?thesis
    by (auto simp: edited_def item_at_apply_edit) (simp_all add: edit_for_def)
qed

lemma item_at_fold:
  "distinct (map (edit_key key) es) \<Longrightarrow>
     item_at key k (fold (apply_edit key) es xs) = edited key es k (item_at key k xs)"
proof (induction es arbitrary: xs)
  case Nil
  then show ?case by (simp add: edited_def edit_for_def)
next
  case (Cons e es)
  then show ?case using edited_Cons [of key e es k xs] by simp
qed

lemma keys_sorted_fold: "keys_sorted key xs \<Longrightarrow> keys_sorted key (fold (apply_edit key) es xs)"
  by (induction es arbitrary: xs) (simp_all add: keys_sorted_apply_edit)

lemma edit_for_Some:
  "distinct (map (edit_key key) es) \<Longrightarrow> edit_for key es k = Some e \<longleftrightarrow> e \<in> set es \<and> edit_key key e = k"
  by (induction es) (auto simp: edit_for_def)

lemma edited_mset:
  assumes "mset es = mset es'" "distinct (map (edit_key key) es)"
  shows "edited key es k old = edited key es' k old"
proof -
  have "set es = set es'" using assms(1) by (rule mset_eq_setD)
  moreover have "distinct (map (edit_key key) es')"
    using assms by (metis mset_map mset_eq_imp_distinct_iff)
  ultimately have "edit_for key es k = Some e \<longleftrightarrow> edit_for key es' k = Some e" for e
    using assms(2) by (simp add: edit_for_Some)
  then have "edit_for key es k = edit_for key es' k" by (metis option.exhaust)
  then show ?thesis by (simp add: edited_def)
qed

definition valid_sort :: "('t \<Rightarrow> 'k::linorder) \<Rightarrow> (('t, 'k) tree_edit list \<Rightarrow> ('t, 'k) tree_edit list) \<Rightarrow> ('t, 'k) tree_edit list \<Rightarrow> bool" where
  "valid_sort key sort_edits es \<longleftrightarrow> mset (sort_edits es) = mset es \<and> sorted_wrt (\<le>) (map (edit_key key) (sort_edits es))"

lemma valid_sort_strict:
  assumes "valid_sort key sort_edits es" "distinct (map (edit_key key) es)"
  shows "sorted_wrt (<) (map (edit_key key) (sort_edits es))"
proof -
  have "distinct (map (edit_key key) (sort_edits es))"
    using assms by (metis valid_sort_def mset_map mset_eq_imp_distinct_iff)
  with assms(1) show ?thesis by (simp add: valid_sort_def strict_sorted_iff)
qed

context keyed_laws
begin

lemma edit_loop_correct:
  assumes t: "keyed_tree ops key t"
  shows "edit_state_ok ops kdim t n m st \<Longrightarrow> n + length es < 2 ^ 64 \<Longrightarrow> sorted_wrt (<) (map (edit_key key) es) \<Longrightarrow>
    \<forall>x \<in> set (built st). \<forall>e \<in> set es. key x < edit_key key e \<Longrightarrow>
    \<exists>st' m'. edit_loop ops kdim key es st = Some st' \<and> edit_state_ok ops kdim t (n + length es) m' st' \<and>
      built st' @ drop m' (tree_items t) = fold (apply_edit key) es (built st @ drop m (tree_items t)) \<and>
      ed_removed st' = ed_removed st @ edits_removed key es (drop m (tree_items t))"
proof (induction es arbitrary: n m st)
  case Nil
  then show ?case by (auto simp: edits_removed_def)
next
  case (Cons e es)
  let ?k = "edit_key key e" and ?ys = "drop m (tree_items t)"
  obtain st1 m1 where st1: "edit_step ops kdim key e st = Some st1" "edit_state_ok ops kdim t (Suc n) m1 st1"
      "built st1 = built st @ items_below key ?k ?ys @ edit_inserts e" "drop m1 (tree_items t) = items_above key ?k ?ys"
      "ed_removed st1 = ed_removed st @ (case item_at key ?k ?ys of None \<Rightarrow> [] | Some x \<Rightarrow> [x])"
    using edit_step_correct [OF t Cons.prems(1) _ refl refl, of e] Cons.prems(2) by auto
  have later: "\<forall>e' \<in> set es. ?k < edit_key key e'" using Cons.prems(3) by simp
  have "\<forall>x \<in> set (built st1). \<forall>e' \<in> set es. key x < edit_key key e'"
  proof -
    have "\<forall>x \<in> set (edit_inserts e). key x = ?k" by (cases e) (simp_all add: edit_inserts_def)
    with later Cons.prems(4) show ?thesis by (fastforce simp: st1(3) items_below_def)
  qed
  from Cons.IH [OF st1(2) _ _ this] Cons.prems(2,3) obtain st' m' where
    "edit_loop ops kdim key es st1 = Some st'" "edit_state_ok ops kdim t (Suc n + length es) m' st'"
    "built st' @ drop m' (tree_items t) = fold (apply_edit key) es (built st1 @ drop m1 (tree_items t))"
    "ed_removed st' = ed_removed st1 @ edits_removed key es (drop m1 (tree_items t))" by auto
  moreover have "built st1 @ drop m1 (tree_items t) = apply_edit key e (built st @ ?ys)"
    using apply_edit_behind [of "built st" key e ?ys] Cons.prems(4) st1(3,4) by simp
  moreover have "edits_removed key es (drop m1 (tree_items t)) = edits_removed key es ?ys"
    unfolding edits_removed_def st1(4) using later by (intro arg_cong [of _ _ concat] map_cong) (auto simp: item_at_filter)
  ultimately show ?case
    using st1(1,5) by (auto simp: edits_removed_def)
qed

lemma edit_correct:
  assumes t: "keyed_tree ops key t" and es: "length es < 2 ^ 64"
    and sort: "mset (sort_edits es) = mset es" "sorted_wrt (<) (map (edit_key key) (sort_edits es))"
  shows "\<exists>t'. sum_tree_edit sort_edits ops kdim key es t = Some (edits_removed key (sort_edits es) (tree_items t), t') \<and>
    wf_tree ops t' \<and> tree_items t' = fold (apply_edit key) (sort_edits es) (tree_items t)"
proof (cases "es = []")
  case True
  with sort(1) have "sort_edits es = []" by simp
  with True t show ?thesis by (simp add: sum_tree_edit_def edits_removed_def keyed_tree_def)
next
  case False
  have t': "wf_tree ops t" "height t < STACK_CAPACITY" "keys_sorted key (tree_items t)" using t by (simp_all add: keyed_tree_def)
  have len: "length (sort_edits es) = length es" using sort(1) by (rule mset_eq_length)
  have c0: "wf_cursor ops (cursor_new kdim t)" using t' by (simp add: wf_cursor_def cursor_at_new)
  have "seek_to ops kdim (ord_cmp (d_zero kdim)) Left t 0 = 0"
    using zero_le by (simp add: key_seek_to [OF t'(3)] takeWhile_eq_Nil_iff not_less)
  with seek_correct [OF c0, of "ord_cmp (d_zero kdim)" 0 Left] key_seekable [OF t'(3), of 0]
  obtain found c where c: "cursor_seek kdim (ord_cmp (d_zero kdim)) Left (cursor_new kdim t) = Some (found, c)"
      "c_tree c = t" "c_did_seek c" "cursor_at ops kdim c 0" by (auto simp: cursor_at_new pos_at_def)
  let ?st = "\<lparr>ed_cursor = c, ed_tree = tree_new ops, ed_buffered = [], ed_removed = []\<rparr>"
  have "edit_state_ok ops kdim t 0 0 ?st"
    using c by (simp add: edit_state_ok_def tree_new_def summary_sum_def tree_room_def spine_room_def)
  from edit_loop_correct [OF t this _ sort(2)] es len
  obtain st m where st: "edit_loop ops kdim key (sort_edits es) ?st = Some st" "edit_state_ok ops kdim t (length es) m st"
      "built st @ drop m (tree_items t) = fold (apply_edit key) (sort_edits es) (tree_items t)"
      "ed_removed st = edits_removed key (sort_edits es) (tree_items t)"
    by (auto simp: built_def tree_new_def)
  obtain t1 where t1: "tree_extend ops (ed_buffered st) (ed_tree st) = Some t1" "wf_tree ops t1" "tree_items t1 = built st"
      "tree_room 53 (Suc (2 * length es)) t1"
    using extend_room [of "ed_tree st" "2 * length es" "ed_buffered st"] st(2) es by (auto simp: edit_state_ok_def built_def)
  have wf: "wf_cursor ops (ed_cursor st)" "cursor_at ops kdim (ed_cursor st) m" "c_tree (ed_cursor st) = t"
    using st(2) t' by (simp_all add: edit_state_ok_def wf_cursor_def)
  obtain suf c3 where suf: "cursor_suffix ops kdim (ed_cursor st) = Some (suf, c3)" "wf_tree ops suf" "height suf \<le> 53"
      "tree_items suf = drop m (tree_items t)"
    using suffix_correct [OF wf(1,2)] wf(3) room_height [OF wf(1)] by (metis (no_types, lifting))
  obtain t2 where "tree_append ops t1 suf = Some t2" "wf_tree ops t2" "tree_items t2 = tree_items t1 @ tree_items suf"
    using append_room [OF t1(2) suf(2,3) t1(4)] es by auto
  with False c(1) st t1 suf show ?thesis by (auto simp: sum_tree_edit_def)
qed

text \<open>A batch of insertions with distinct keys overrides the items of these keys, whatever the order in
  which the unstable sort returns the edits.\<close>

lemma edit_insert_items:
  assumes t: "keyed_tree ops key t" and xs: "length xs < 2 ^ 64" "distinct (map key xs)"
    and sort: "valid_sort key sort_edits (map Insert xs)"
  shows "\<exists>removed t'. sum_tree_edit sort_edits ops kdim key (map Insert xs) t = Some (removed, t') \<and> wf_tree ops t' \<and>
    keys_sorted key (tree_items t') \<and>
    (\<forall>k. item_at key k (tree_items t') = (case item_at key k xs of Some x \<Rightarrow> Some x | None \<Rightarrow> item_at key k (tree_items t)))"
proof -
  let ?es = "map Insert xs :: ('t, 'k) tree_edit list"
  have "map (edit_key key) ?es = map key xs" by simp
  with xs(2) have d: "distinct (map (edit_key key) ?es)" by metis
  note strict = valid_sort_strict [OF sort d]
  have perm: "mset (sort_edits ?es) = mset ?es" using sort by (simp add: valid_sort_def)
  obtain t' where t': "sum_tree_edit sort_edits ops kdim key ?es t = Some (edits_removed key (sort_edits ?es) (tree_items t), t')"
      "wf_tree ops t'" "tree_items t' = fold (apply_edit key) (sort_edits ?es) (tree_items t)"
    using edit_correct [OF t, of ?es sort_edits] xs(1) perm strict by auto
  have sorted: "keys_sorted key (tree_items t')" using t t'(3) by (simp add: keyed_tree_def keys_sorted_fold)
  have "item_at key k (tree_items t') = (case item_at key k xs of Some x \<Rightarrow> Some x | None \<Rightarrow> item_at key k (tree_items t))" for k
  proof -
    have ds: "distinct (map (edit_key key) (sort_edits ?es))" using strict strict_sorted_iff by blast
    have "item_at key k (tree_items t') = edited key ?es k (item_at key k (tree_items t))"
      unfolding t'(3) item_at_fold [OF ds] by (rule edited_mset [OF perm ds])
    moreover have "edit_for key (map Insert ys) k = map_option Insert (item_at key k ys)" for ys
      by (induction ys) (auto simp: edit_for_def)
    ultimately show ?thesis by (simp add: edited_def split: option.splits)
  qed
  with t' sorted show ?thesis by auto
qed

end

text \<open>Ordered lists are determined by their lookups.\<close>

lemma keys_sorted_eqI:
  assumes "keys_sorted key xs" "keys_sorted key ys" "\<And>k. item_at key k xs = item_at key k ys"
  shows "xs = ys"
proof -
  have mem: "x \<in> set zs \<longleftrightarrow> item_at key (key x) zs = Some x" if "keys_sorted key zs" for x and zs :: "'a list"
    using that by (induction zs) (auto simp: keys_sorted_Cons dest: item_at_Some)
  have "set xs = set ys" using mem [OF assms(1)] mem [OF assms(2)] assms(3) by (metis subsetI subset_antisym)
  then have keys: "map key xs = map key ys"
    using assms(1,2) by (intro sorted_distinct_set_unique) (auto simp: keys_sorted_def strict_sorted_iff)
  have "inj_on key (set xs)" using assms(1) by (simp add: keys_sorted_def strict_sorted_iff distinct_map)
  with keys \<open>set xs = set ys\<close> show ?thesis by (intro map_inj_on [of key xs ys]) simp_all
qed

end
