(* ===== verification/Tree_Map.thy ===== *)
theory Tree_Map
  imports Keyed_Tree Tree_Push "HOL-Library.Option_ord"
begin

text \<open>
  \<open>TreeMap\<close> and \<open>TreeSet\<close> of \<open>crates/sum_tree/src/tree_map.rs\<close>: ordered maps stored as a tree of
  entries whose summary is the greatest key so far. Every operation is characterised by its
  effect on the finite map the tree denotes.

  \<open>MapKey\<close> and \<open>MapKeyRef\<close> are both an optional key, \<open>None\<close> below every key; a \<open>MapSeekTarget\<close> is its
  function \<open>cmp_cursor\<close>.
\<close>

section \<open>Entries and keys\<close>

record ('k, 'v) map_entry =
  me_key :: 'k
  me_value :: 'v

definition map_key :: "('k, 'v) map_entry \<Rightarrow> 'k option" where
  "map_key e = Some (me_key e)"

definition map_ops :: "(('k, 'v) map_entry, 'k option) item_ops" where
  "map_ops = \<lparr>item_summary = map_key, s_zero = None, s_add = (\<lambda>_ s. s)\<rparr>"

definition map_dim :: "('k option, 'k option) dim_ops" where
  "map_dim = \<lparr>d_zero = None, d_add = (\<lambda>_ s. s)\<rparr>"

definition key_target :: "'k::linorder \<Rightarrow> 'k option seek_target" where
  "key_target k = ord_cmp (Some k)"

definition adaptor_target :: "('k \<Rightarrow> ordering) \<Rightarrow> 'k option seek_target" where
  "adaptor_target cmp_cursor loc = (case loc of Some key \<Rightarrow> cmp_cursor key | None \<Rightarrow> Greater)"

type_synonym ('k, 'v) tree_map = "(('k, 'v) map_entry, 'k option) sum_tree"

definition map_entry_of :: "'k \<times> 'v \<Rightarrow> ('k, 'v) map_entry" where
  "map_entry_of kv = \<lparr>me_key = fst kv, me_value = snd kv\<rparr>"

section \<open>Operations\<close>

definition from_ordered_entries :: "('k \<times> 'v) list \<Rightarrow> ('k, 'v) tree_map option" where
  "from_ordered_entries entries = from_iter map_ops (map map_entry_of entries)"

definition map_is_empty :: "('k, 'v) tree_map \<Rightarrow> bool" where
  "map_is_empty m = tree_is_empty m"

definition map_get :: "'k::linorder \<Rightarrow> ('k, 'v) tree_map \<Rightarrow> 'v option" where
  "map_get key m = (case find map_dim (key_target key) Left m of
     (_, _, Some item) \<Rightarrow> if Some key = map_key item then Some (me_value item) else None
   | (_, _, None) \<Rightarrow> None)"

definition contains_key :: "'k::linorder \<Rightarrow> ('k, 'v) tree_map \<Rightarrow> bool" where
  "contains_key key m \<longleftrightarrow> map_get key m \<noteq> None"

definition map_insert :: "'k::linorder \<Rightarrow> 'v \<Rightarrow> ('k, 'v) tree_map \<Rightarrow> ('k, 'v) tree_map option" where
  "map_insert key v m = do {
     (_, m') \<leftarrow> insert_or_replace map_ops map_dim map_key (map_entry_of (key, v)) m;
     Some m'
   }"

definition map_insert_or_replace ::
  "'k::linorder \<Rightarrow> 'v \<Rightarrow> ('k, 'v) tree_map \<Rightarrow> ('v option \<times> ('k, 'v) tree_map) option" where
  "map_insert_or_replace key v m = do {
     (replaced, m') \<leftarrow> insert_or_replace map_ops map_dim map_key (map_entry_of (key, v)) m;
     Some (map_option me_value replaced, m')
   }"

type_synonym ('k, 'v) map_edit = "(('k, 'v) map_entry, 'k option) tree_edit"

definition map_extend ::
  "(('k, 'v) map_edit list \<Rightarrow> ('k, 'v) map_edit list) \<Rightarrow> ('k::linorder \<times> 'v) list \<Rightarrow> ('k, 'v) tree_map
    \<Rightarrow> ('k, 'v) tree_map option" where
  "map_extend sort_edits kvs m = do {
     (_, m') \<leftarrow> sum_tree_edit sort_edits map_ops map_dim map_key (map (\<lambda>kv. Insert (map_entry_of kv)) kvs) m;
     Some m'
   }"

definition map_clear :: "('k, 'v) tree_map \<Rightarrow> ('k, 'v) tree_map" where
  "map_clear m = tree_new map_ops"

definition map_remove :: "'k::linorder \<Rightarrow> ('k, 'v) tree_map \<Rightarrow> ('v option \<times> ('k, 'v) tree_map) option" where
  "map_remove key m = do {
     (new_tree, c1) \<leftarrow> cursor_slice map_ops map_dim (key_target key) Left (cursor_new map_dim m);
     end \<leftarrow> cursor_end map_dim c1;
     (removed, c2) \<leftarrow> (if key_target key end = Equal then do {
         x \<leftarrow> cursor_item c1;
         item \<leftarrow> x;
         c \<leftarrow> cursor_next map_dim c1;
         Some (Some (me_value item), c)
       } else Some (None, c1));
     (suffix, _) \<leftarrow> cursor_suffix map_ops map_dim c2;
     new_tree \<leftarrow> tree_append map_ops new_tree suffix;
     Some (removed, new_tree)
   }"

definition map_remove_range ::
  "('k \<Rightarrow> ordering) \<Rightarrow> ('k \<Rightarrow> ordering) \<Rightarrow> ('k, 'v) tree_map \<Rightarrow> ('k, 'v) tree_map option" where
  "map_remove_range start stop m = do {
     (new_tree, c1) \<leftarrow> cursor_slice map_ops map_dim (adaptor_target start) Left (cursor_new map_dim m);
     (_, c2) \<leftarrow> cursor_seek map_dim (adaptor_target stop) Left c1;
     (suffix, _) \<leftarrow> cursor_suffix map_ops map_dim c2;
     tree_append map_ops new_tree suffix
   }"

definition entry_pair :: "('k, 'v) map_entry \<Rightarrow> 'k \<times> 'v" where
  "entry_pair e = (me_key e, me_value e)"

definition map_closest :: "'k::linorder \<Rightarrow> ('k, 'v) tree_map \<Rightarrow> ('k \<times> 'v) option option" where
  "map_closest key m = do {
     (_, c1) \<leftarrow> cursor_seek map_dim (key_target key) Right (cursor_new map_dim m);
     c2 \<leftarrow> cursor_prev map_dim c1;
     x \<leftarrow> cursor_item c2;
     Some (map_option entry_pair x)
   }"

text \<open>Draining an iterator: the cursor's own, and \<open>Iter\<close>.\<close>

partial_function (option) collect_cursor ::
  "('d, 's) dim_ops \<Rightarrow> ('t, 's, 'd) cursor \<Rightarrow> 't list \<Rightarrow> 't list option" where
  "collect_cursor dim c acc = do {
     (x, c') \<leftarrow> cursor_iter_next dim c;
     case x of None \<Rightarrow> Some acc | Some item \<Rightarrow> collect_cursor dim c' (acc @ [item])
   }"

partial_function (option) collect_iter :: "('t, 's) tree_iter \<Rightarrow> 't list \<Rightarrow> 't list option" where
  "collect_iter it acc = do {
     (x, it') \<leftarrow> iter_next it;
     case x of None \<Rightarrow> Some acc | Some item \<Rightarrow> collect_iter it' (acc @ [item])
   }"

definition map_iter_from :: "'k::linorder \<Rightarrow> ('k, 'v) tree_map \<Rightarrow> ('k \<times> 'v) list option" where
  "map_iter_from from m = do {
     (_, c) \<leftarrow> cursor_seek map_dim (key_target from) Left (cursor_new map_dim m);
     items \<leftarrow> collect_cursor map_dim c [];
     Some (map entry_pair items)
   }"

definition map_update ::
  "'k::linorder \<Rightarrow> ('v \<Rightarrow> 'v \<times> 'r) \<Rightarrow> ('k, 'v) tree_map \<Rightarrow> ('r option \<times> ('k, 'v) tree_map) option" where
  "map_update key f m = do {
     (new_tree, c1) \<leftarrow> cursor_slice map_ops map_dim (key_target key) Left (cursor_new map_dim m);
     end \<leftarrow> cursor_end map_dim c1;
     (res, new_tree, c2) \<leftarrow> (if key_target key end = Equal then do {
         x \<leftarrow> cursor_item c1;
         item \<leftarrow> x;
         let (v, r) = f (me_value item);
         new_tree \<leftarrow> tree_push map_ops (item\<lparr>me_value := v\<rparr>) new_tree;
         c \<leftarrow> cursor_next map_dim c1;
         Some (Some r, new_tree, c)
       } else Some (None, new_tree, c1));
     (suffix, _) \<leftarrow> cursor_suffix map_ops map_dim c2;
     new_tree \<leftarrow> tree_append map_ops new_tree suffix;
     Some (res, new_tree)
   }"

partial_function (option) retain_loop ::
  "('k \<Rightarrow> 'v \<Rightarrow> bool) \<Rightarrow> (('k, 'v) map_entry, 'k option, 'k option) cursor \<Rightarrow> ('k, 'v) tree_map \<Rightarrow> ('k, 'v) tree_map option" where
  "retain_loop p c new_map = do {
     x \<leftarrow> cursor_item c;
     case x of
       None \<Rightarrow> Some new_map
     | Some item \<Rightarrow> do {
         new_map \<leftarrow> (if p (me_key item) (me_value item) then tree_push map_ops item new_map else Some new_map);
         c' \<leftarrow> cursor_next map_dim c;
         retain_loop p c' new_map
       }
   }"

definition map_retain :: "('k \<Rightarrow> 'v \<Rightarrow> bool) \<Rightarrow> ('k, 'v) tree_map \<Rightarrow> ('k, 'v) tree_map option" where
  "map_retain p m = do {
     c \<leftarrow> cursor_next map_dim (cursor_new map_dim m);
     retain_loop p c (tree_new map_ops)
   }"

definition map_iter :: "('k, 'v) tree_map \<Rightarrow> ('k \<times> 'v) list option" where
  "map_iter m = do { items \<leftarrow> collect_iter (iter_new m) []; Some (map entry_pair items) }"

definition map_values :: "('k, 'v) tree_map \<Rightarrow> 'v list option" where
  "map_values m = do { items \<leftarrow> collect_iter (iter_new m) []; Some (map me_value items) }"

definition map_first :: "('k, 'v) tree_map \<Rightarrow> ('k \<times> 'v) option option" where
  "map_first m = do { x \<leftarrow> tree_first m; Some (map_option entry_pair x) }"

definition map_last :: "('k, 'v) tree_map \<Rightarrow> ('k \<times> 'v) option option" where
  "map_last m = do { x \<leftarrow> tree_last m; Some (map_option entry_pair x) }"

definition map_insert_tree ::
  "(('k, 'v) map_edit list \<Rightarrow> ('k, 'v) map_edit list) \<Rightarrow> ('k::linorder, 'v) tree_map \<Rightarrow> ('k, 'v) tree_map
    \<Rightarrow> ('k, 'v) tree_map option" where
  "map_insert_tree sort_edits other m = do {
     kvs \<leftarrow> map_iter other;
     (_, m') \<leftarrow> sum_tree_edit sort_edits map_ops map_dim map_key (map (\<lambda>kv. Insert (map_entry_of kv)) kvs) m;
     Some m'
   }"

text \<open>\<open>TreeSet\<close> is a map to the unit type.\<close>

type_synonym 'k tree_set = "('k, unit) tree_map"

definition set_from_ordered_entries :: "'k list \<Rightarrow> 'k tree_set option" where
  "set_from_ordered_entries ks = from_ordered_entries (map (\<lambda>k. (k, ())) ks)"

definition set_insert :: "'k::linorder \<Rightarrow> 'k tree_set \<Rightarrow> 'k tree_set option" where
  "set_insert k s = map_insert k () s"

definition set_remove :: "'k::linorder \<Rightarrow> 'k tree_set \<Rightarrow> (bool \<times> 'k tree_set) option" where
  "set_remove k s = do { (removed, s') \<leftarrow> map_remove k s; Some (removed \<noteq> None, s') }"

definition set_extend ::
  "(('k, unit) map_edit list \<Rightarrow> ('k, unit) map_edit list) \<Rightarrow> 'k::linorder list \<Rightarrow> 'k tree_set \<Rightarrow> 'k tree_set option" where
  "set_extend sort_edits ks s = map_extend sort_edits (map (\<lambda>k. (k, ())) ks) s"

definition set_contains :: "'k::linorder \<Rightarrow> 'k tree_set \<Rightarrow> bool" where
  "set_contains k s \<longleftrightarrow> map_get k s \<noteq> None"

definition set_iter :: "'k tree_set \<Rightarrow> 'k list option" where
  "set_iter s = do { kvs \<leftarrow> map_iter s; Some (map fst kvs) }"

definition set_iter_from :: "'k::linorder \<Rightarrow> 'k tree_set \<Rightarrow> 'k list option" where
  "set_iter_from k s = do { kvs \<leftarrow> map_iter_from k s; Some (map fst kvs) }"

section \<open>Draining iterators\<close>

context search_laws
begin

lemma collect_cursor_correct:
  assumes "wf_cursor ops c" "cursor_at ops dim c k"
  shows "collect_cursor dim c acc = Some (acc @ drop k (tree_items (c_tree c)))"
  using assms
proof (induction "length (tree_items (c_tree c)) - k" arbitrary: c k acc)
  case 0
  then have "k = length (tree_items (c_tree c))" using cursor_at_le [OF 0(3)] by simp
  with cursor_iter_next_correct [OF 0(2,3)] show ?case by (subst collect_cursor.simps) auto
next
  case (Suc n)
  then have k: "k < length (tree_items (c_tree c))" by simp
  obtain c' where c': "cursor_iter_next dim c = Some (Some (tree_items (c_tree c) ! k), c')" "c_tree c' = c_tree c"
      "cursor_at ops dim c' (Suc k)"
    using cursor_iter_next_correct [OF Suc.prems] k by (auto simp: index_opt_def)
  then have "collect_cursor dim c' (acc @ [tree_items (c_tree c) ! k]) = Some ((acc @ [tree_items (c_tree c) ! k]) @ drop (Suc k) (tree_items (c_tree c)))"
    using Suc.hyps(1) [of c' "Suc k"] Suc.hyps(2) Suc.prems(1) by (simp add: wf_cursor_def)
  with c' k show ?case by (subst collect_cursor.simps) (simp add: Cons_nth_drop_Suc)
qed

end

context summary_laws
begin

lemma collect_iter_at:
  assumes "wf_tree ops (it_tree it)" "height (it_tree it) < STACK_CAPACITY" "iter_at ops it k"
  shows "collect_iter it acc = Some (acc @ drop (Suc k) (tree_items (it_tree it)))"
  using assms
proof (induction "length (tree_items (it_tree it)) - Suc k" arbitrary: it k acc)
  case 0
  then obtain it' where "iter_next it = Some (None, it')" using iter_next_item [OF 0(2-4)] by (auto simp: index_opt_def)
  with 0(1) show ?case by (subst collect_iter.simps) simp
next
  case (Suc n)
  then have k: "Suc k < length (tree_items (it_tree it))" by simp
  obtain it' where it': "iter_next it = Some (Some (tree_items (it_tree it) ! Suc k), it')" "it_tree it' = it_tree it"
      "iter_at ops it' (Suc k)"
    using iter_next_item [OF Suc.prems] k by (auto simp: index_opt_def iter_at_def stack_pos_def split: if_splits)
  then have "collect_iter it' (acc @ [tree_items (it_tree it) ! Suc k]) =
      Some ((acc @ [tree_items (it_tree it) ! Suc k]) @ drop (Suc (Suc k)) (tree_items (it_tree it)))"
    using Suc.hyps(1) [of it' "Suc k"] Suc.hyps(2) Suc.prems(1,2) by simp
  with it' k show ?case by (subst collect_iter.simps) (simp add: Cons_nth_drop_Suc)
qed

lemma collect_iter_correct:
  assumes "wf_tree ops t" "height t < STACK_CAPACITY"
  shows "collect_iter (iter_new t) [] = Some (tree_items t)"
proof -
  obtain it where it: "iter_next (iter_new t) = Some (index_opt (tree_items t) 0, it)" "it_tree it = t"
      "stack_pos ops unit_dim t (it_stack it) 0"
    using iter_next_start [of "iter_new t"] assms by (auto simp: iter_new_def)
  show ?thesis
  proof (cases "tree_items t")
    case Nil
    with it(1) show ?thesis by (subst collect_iter.simps) simp
  next
    case (Cons x xs)
    with it have "iter_at ops it 0" by (auto simp: iter_at_def stack_pos_def split: if_splits)
    with it(1,2) Cons collect_iter_at [of it 0 "[x]"] assms show ?thesis by (subst collect_iter.simps) simp
  qed
qed

end

context keyed_laws
begin

text \<open>At a cut, the end of the cursor equals the key exactly if there is an item with that key.\<close>

lemma cut_end:
  assumes t: "keyed_tree ops key t" and k: "d_zero kdim < k"
    and s: "cursor_slice ops kdim (ord_cmp k) Left (cursor_new kdim t) = Some (left, c1)" "cursor_item c1 = Some found"
  shows "\<exists>e. cursor_end kdim c1 = Some e \<and> (ord_cmp k e = Equal \<longleftrightarrow> (\<exists>x. found = Some x \<and> key x = k))"
proof -
  let ?xs = "tree_items t"
  have t': "wf_tree ops t" "height t < STACK_CAPACITY" "keys_sorted key ?xs" using t by (simp_all add: keyed_tree_def)
  have c0: "wf_cursor ops (cursor_new kdim t)" using t' by (simp add: wf_cursor_def cursor_at_new)
  define n where "n = length (takeWhile (\<lambda>x. key x < k) ?xs)"
  have "seekable ops kdim (ord_cmp k) (c_tree (cursor_new kdim t)) 0"
    using key_seekable [OF t'(3), of 0] k by (simp add: cursor_at_new pos_at_def)
  from slice_correct [OF c0 cursor_at_new(1) this refl, of Left] s(1)
  have c1: "c_tree c1 = t" "c_did_seek c1" "cursor_at ops kdim c1 n"
    by (auto simp: cursor_at_new key_seek_to [OF t'(3)] n_def)
  have found: "found = index_opt ?xs n" using cursor_item_correct [OF c1(3,2)] c1(1) s(2) by simp
  have e: "cursor_end kdim c1 = Some (pos_at ops kdim t (if n < length ?xs then Suc n else n))"
    using cursor_end_correct [OF c1(3,2)] c1(1) t'(1) by simp
  show ?thesis
  proof (cases "n < length ?xs")
    case True
    then show ?thesis using e found pos_at_key [OF t'(3) True] by (auto simp: ord_cmp_def)
  next
    case False
    then have n: "n = length ?xs" using length_takeWhile_le [of "\<lambda>x. key x < k" ?xs] by (simp add: n_def)
    then have "takeWhile (\<lambda>x. key x < k) ?xs = ?xs" by (metis n_def take_all_iff order_refl takeWhile_eq_take)
    then have below: "\<forall>x \<in> set ?xs. key x < k" by (simp add: takeWhile_eq_all_conv)
    have "pos_at ops kdim t n < k"
    proof (cases n)
      case 0
      with k show ?thesis by (simp add: pos_at_def)
    next
      case (Suc m)
      with n below pos_at_key [OF t'(3), of m] show ?thesis by auto
    qed
    with False e found show ?thesis by (auto simp: ord_cmp_def)
  qed
qed

end

section \<open>The laws for map entries\<close>

interpretation tm: keyed_laws map_ops map_dim "map_key :: ('k::linorder, 'v) map_entry \<Rightarrow> 'k option"
  by unfold_locales (simp_all add: lawful_summary_def lawful_dim_def map_ops_def map_dim_def)

text \<open>A cursor over a map may summarise the greatest key it passes, or nothing.\<close>

interpretation tm_last_key: summary_out_laws "map_ops :: (('k::linorder, 'v) map_entry, 'k option) item_ops" map_dim map_dim
  by unfold_locales (simp add: lawful_dim_def map_ops_def map_dim_def)

interpretation tm_unit: summary_out_laws "map_ops :: (('k::linorder, 'v) map_entry, 'k option) item_ops" map_dim unit_dim
  by unfold_locales (simp add: lawful_dim_def unit_dim_def)

text \<open>The finite map a tree denotes, and the invariant: a well-formed tree with ascending keys that
  a cursor can walk.\<close>

definition map_of_tree :: "('k::linorder, 'v) tree_map \<Rightarrow> 'k \<Rightarrow> 'v option" where
  "map_of_tree m k = map_option me_value (item_at map_key (Some k) (tree_items m))"

definition sorted_map :: "('k::linorder, 'v) tree_map \<Rightarrow> bool" where
  "sorted_map m \<longleftrightarrow> wf_tree map_ops m \<and> keys_sorted map_key (tree_items m)"

abbreviation map_ok :: "('k::linorder, 'v) tree_map \<Rightarrow> bool" where
  "map_ok m \<equiv> keyed_tree map_ops map_key m"

section \<open>The operations on well-formed maps\<close>

lemma map_key_simps [simp]: "map_key (map_entry_of (k, v)) = Some k" "me_value (map_entry_of (k, v)) = v"
    "me_key (map_entry_of kv) = fst kv"
  by (simp_all add: map_key_def map_entry_of_def)

lemma key_positive: "d_zero map_dim < Some k" "d_zero map_dim \<le> Some k"
  by (simp_all add: map_dim_def)

lemma map_ok_sorted: "map_ok m \<Longrightarrow> sorted_map m"
  by (simp add: keyed_tree_def sorted_map_def)

lemma map_of_edit:
  "tree_items m' = apply_edit map_key e (tree_items m) \<Longrightarrow> map_of_tree m' k =
     (if Some k = edit_key map_key e then (case e of Insert x \<Rightarrow> Some (me_value x) | Remove _ \<Rightarrow> None) else map_of_tree m k)"
  by (auto simp: map_of_tree_def item_at_apply_edit split: tree_edit.splits)

lemma map_get_correct:
  assumes "map_ok m"
  shows "map_get k m = map_of_tree m k"
proof -
  let ?xs = "tree_items m"
  have t: "wf_tree map_ops m" "keys_sorted map_key ?xs" using assms by (simp_all add: keyed_tree_def)
  define n where "n = length (takeWhile (\<lambda>x. map_key x < Some k) ?xs)"
  note split = sorted_split [OF t(2) n_def]
  have item: "snd (snd (find map_dim (key_target k) Left m)) = index_opt ?xs n"
  proof (cases "tree_is_empty m")
    case True
    then obtain s ss where leaf: "m = Leaf s [] ss" by (cases m) auto
    with t(1) show ?thesis by (simp add: find_def find_generic_def Let_def n_def)
  next
    case False
    have pos: "positions map_dim (d_zero map_dim) (sums map_ops ?xs) = map map_key ?xs"
      using t(2) by (intro tm.positions_keys) (simp_all add: tm.zero_le)
    then have anti: "antitone_target (key_target k) (positions map_dim (d_zero map_dim) (sums map_ops ?xs))"
      using t(2) by (auto simp: key_target_def keys_sorted_def intro!: antitone_ord_cmp elim: sorted_wrt_mono_rel [rotated])
    have "seek_index (key_target k) Left (map map_key ?xs) = n"
      by (simp add: key_target_def seek_index_ord_cmp takeWhile_map comp_def n_def)
    with tm.find_generic_correct [OF t(1) False anti, of False Left] pos show ?thesis
      by (auto simp: find_def index_opt_def split: if_splits)
  qed
  then have "map_get k m = (case index_opt ?xs n of Some x \<Rightarrow> if map_key x = Some k then Some (me_value x) else None | None \<Rightarrow> None)"
    by (auto simp: map_get_def split: prod.splits option.splits)
  then show ?thesis using split(2,3) by (cases "index_opt ?xs n") (auto simp: map_of_tree_def)
qed

lemma map_insert_correct:
  assumes "map_ok m"
  shows "\<exists>m'. map_insert_or_replace k v m = Some (map_of_tree m k, m') \<and> map_insert k v m = Some m' \<and>
    sorted_map m' \<and> tree_items m' = apply_edit map_key (Insert (map_entry_of (k, v))) (tree_items m)"
proof -
  let ?e = "map_entry_of (k, v)"
  obtain m' where m': "insert_or_replace map_ops map_dim map_key ?e m = Some (item_at map_key (Some k) (tree_items m), m')"
      "wf_tree map_ops m'" "tree_items m' = apply_edit map_key (Insert ?e) (tree_items m)"
    using tm.insert_or_replace_correct [OF assms, of ?e] by (auto simp: apply_edit_def edit_inserts_def)
  moreover have "keys_sorted map_key (tree_items m')"
    using m'(3) assms by (simp add: keys_sorted_apply_edit keyed_tree_def)
  ultimately show ?thesis by (simp add: map_insert_or_replace_def map_insert_def map_of_tree_def sorted_map_def)
qed

text \<open>\<open>remove\<close> and \<open>update\<close> test the end of the cursor instead of the item; it comes to the same.\<close>

lemma map_remove_correct:
  assumes "map_ok m"
  shows "\<exists>m'. map_remove k m = Some (map_of_tree m k, m') \<and> sorted_map m' \<and>
    tree_items m' = apply_edit map_key (Remove (Some k)) (tree_items m)"
proof -
  let ?k = "Some k"
  obtain m' where m': "tree_remove map_ops map_dim map_key ?k m = Some (item_at map_key ?k (tree_items m), m')"
      "wf_tree map_ops m'" "tree_items m' = apply_edit map_key (Remove ?k) (tree_items m)"
    using tm.remove_correct [OF assms key_positive(2), of k] by (auto simp: apply_edit_def edit_inserts_def)
  have "map_remove k m = Some (map_of_tree m k, m')"
  proof (rule tm.cut_at_key [OF assms key_positive(2), of k])
    fix left c1 found c2
    assume cut: "cursor_slice map_ops map_dim (ord_cmp ?k) Left (cursor_new map_dim m) = Some (left, c1)" "cursor_item c1 = Some found"
      "(case found of Some x \<Rightarrow> if map_key x = ?k then do { c \<leftarrow> cursor_next map_dim c1; Some (Some x, c) } else Some (None, c1)
         | None \<Rightarrow> Some (None, c1)) = Some (item_at map_key ?k (tree_items m), c2)"
    obtain e where e: "cursor_end map_dim c1 = Some e" "ord_cmp ?k e = Equal \<longleftrightarrow> (\<exists>x. found = Some x \<and> map_key x = ?k)"
      using tm.cut_end [OF assms key_positive(1) cut(1,2)] by blast
    from m'(1) cut e show ?thesis
      by (cases "\<exists>x. found = Some x \<and> map_key x = ?k")
        (auto simp: map_remove_def tree_remove_def key_target_def map_of_tree_def split: Option.bind_splits option.splits dest: sym)
  qed
  moreover have "keys_sorted map_key (tree_items m')" using m'(3) assms by (simp add: keys_sorted_apply_edit keyed_tree_def)
  ultimately show ?thesis using m' by (auto simp: sorted_map_def)
qed

lemma map_update_correct:
  assumes "map_ok m"
  shows "\<exists>m'. map_update k f m = Some (map_option (snd \<circ> f) (map_of_tree m k), m') \<and> sorted_map m' \<and>
    map_of_tree m' = (map_of_tree m)(k := map_option (fst \<circ> f) (map_of_tree m k))"
proof (rule tm.cut_at_key [OF assms key_positive(2), of k])
  let ?k = "Some k" and ?xs = "tree_items m"
  fix left c1 found c2
  assume cut: "cursor_slice map_ops map_dim (ord_cmp ?k) Left (cursor_new map_dim m) = Some (left, c1)"
    "wf_tree map_ops left" "height left \<le> 53" "tree_items left = items_below map_key ?k ?xs" "cursor_item c1 = Some found"
    "(case found of Some x \<Rightarrow> if map_key x = ?k then do { c \<leftarrow> cursor_next map_dim c1; Some (Some x, c) } else Some (None, c1)
       | None \<Rightarrow> Some (None, c1)) = Some (item_at map_key ?k ?xs, c2)"
    "wf_cursor map_ops c2" "c_tree c2 = m" "\<exists>n. cursor_at map_ops map_dim c2 n \<and> drop n ?xs = items_above map_key ?k ?xs"
  have sorted: "keys_sorted map_key ?xs" using assms by (simp add: keyed_tree_def)
  obtain e where e: "cursor_end map_dim c1 = Some e" "ord_cmp ?k e = Equal \<longleftrightarrow> (\<exists>x. found = Some x \<and> map_key x = ?k)"
    using tm.cut_end [OF assms key_positive(1) cut(1,5)] by blast
  obtain suf c3 where suf: "cursor_suffix map_ops map_dim c2 = Some (suf, c3)" "wf_tree map_ops suf" "height suf \<le> 53"
      "tree_items suf = items_above map_key ?k ?xs"
    using tm.suffix_correct [OF cut(7)] cut(8,9) tm.room_height [OF cut(7)] by (metis (no_types, lifting))
  show ?thesis
  proof (cases "item_at map_key ?k ?xs")
    case None
    obtain m' where m': "tree_append map_ops left suf = Some m'" "wf_tree map_ops m'" "tree_items m' = apply_edit map_key (Remove ?k) ?xs"
      using tm.append_correct [OF cut(2) suf(2)] cut(3,4) suf(3,4) by (auto simp: apply_edit_def edit_inserts_def)
    from None cut(6) have "\<not> (\<exists>x. found = Some x \<and> map_key x = ?k)" "c2 = c1"
      by (auto split: option.splits if_splits Option.bind_splits)
    with None m'(1) cut(1) e suf(1) have "map_update k f m = Some (None, m')" by (simp add: map_update_def key_target_def)
    moreover have "map_of_tree m' = map_of_tree m"
      using None by (auto simp: fun_eq_iff map_of_edit [OF m'(3)]) (simp add: map_of_tree_def)
    ultimately show ?thesis
      using None m' sorted by (auto simp: sorted_map_def keys_sorted_apply_edit map_of_tree_def fun_eq_iff)
  next
    case (Some x)
    let ?y = "x\<lparr>me_value := fst (f (me_value x))\<rparr>"
    have x: "map_key x = ?k" "map_key ?y = ?k" using item_at_Some [OF Some] by (simp_all add: map_key_def)
    obtain t1 where t1: "tree_push map_ops ?y left = Some t1" "wf_tree map_ops t1" "tree_items t1 = tree_items left @ [?y]" "height t1 \<le> 54"
      using tm.push_correct [OF cut(2), of ?y] cut(3) by auto
    obtain m' where m': "tree_append map_ops t1 suf = Some m'" "wf_tree map_ops m'" "tree_items m' = apply_edit map_key (Insert ?y) ?xs"
      using tm.append_correct [OF t1(2) suf(2)] t1(3,4) cut(4) suf(3,4) x(2) by (auto simp: apply_edit_def edit_inserts_def)
    from Some cut(6) have "found = Some x" "cursor_next map_dim c1 = Some c2"
      by (auto split: option.splits if_splits Option.bind_splits)
    with x m'(1) t1(1) cut(1,5) e suf(1) have "map_update k f m = Some (Some (snd (f (me_value x))), m')"
      by (simp add: map_update_def key_target_def split_def)
    moreover have "map_of_tree m' = (map_of_tree m)(k := Some (fst (f (me_value x))))"
      using x(2) by (auto simp: fun_eq_iff map_of_edit [OF m'(3)])
    ultimately show ?thesis
      using Some m' sorted by (auto simp: sorted_map_def keys_sorted_apply_edit) (simp_all add: map_of_tree_def)
  qed
qed

lemma sorted_keys_filter:
  assumes "keys_sorted map_key xs"
  shows "dropWhile (\<lambda>e. map_key e < Some k) xs = filter (\<lambda>e. k \<le> me_key e) xs"
    and "takeWhile (\<lambda>e. map_key e \<le> Some k) xs = filter (\<lambda>e. me_key e \<le> k) xs"
proof -
  have sorted: "sorted_wrt (\<lambda>x y. me_key x < me_key y) xs"
    using assms by (simp add: keys_sorted_def sorted_wrt_map map_key_def)
  have "sorted_wrt (\<lambda>x y. me_key y < k \<longrightarrow> me_key x < k) xs" "sorted_wrt (\<lambda>x y. me_key y \<le> k \<longrightarrow> me_key x \<le> k) xs"
    using sorted by (auto elim!: sorted_wrt_mono_rel [rotated])
  from sorted_filter(2) [OF this(1)] sorted_filter(1) [OF this(2)]
  show "dropWhile (\<lambda>e. map_key e < Some k) xs = filter (\<lambda>e. k \<le> me_key e) xs"
    and "takeWhile (\<lambda>e. map_key e \<le> Some k) xs = filter (\<lambda>e. me_key e \<le> k) xs"
    by (simp_all add: map_key_def not_less)
qed

text \<open>Seeking in a map: the index is the number of leading entries before the target.\<close>

definition before_target :: "('k \<Rightarrow> ordering) \<Rightarrow> ('k, 'v) map_entry \<Rightarrow> bool" where
  "before_target f e \<longleftrightarrow> f (me_key e) = Greater"

lemma antitone_before:
  assumes "antitone_target f (map me_key xs)"
  shows "sorted_wrt (\<lambda>x y. before_target f y \<longrightarrow> before_target f x) xs"
proof -
  have "a = Greater" if "Greater \<le> a" for a :: ordering using that by (cases a) (simp_all add: ordering_order_defs)
  with assms show ?thesis
    by (auto simp: antitone_target_def sorted_wrt_map before_target_def elim!: sorted_wrt_mono_rel [rotated])
qed

lemma adaptor_seek:
  assumes "keys_sorted map_key (tree_items m)" "antitone_target f (map me_key (tree_items m))"
  shows "seekable map_ops map_dim (adaptor_target f) m 0"
    and "seek_to map_ops map_dim (adaptor_target f) Left m 0 = length (takeWhile (before_target f) (tree_items m))"
proof -
  have pos: "positions map_dim (pos_at map_ops map_dim m 0) (sums map_ops (drop 0 (tree_items m))) = map map_key (tree_items m)"
    using tm.key_positions [OF assms(1), of 0] by simp
  have "antitone_target (adaptor_target f) (map map_key (tree_items m))"
    using assms(2) by (simp add: antitone_target_def sorted_wrt_map adaptor_target_def map_key_def)
  moreover have "adaptor_target f (pos_at map_ops map_dim m 0) = Greater" by (simp add: pos_at_def map_dim_def adaptor_target_def)
  ultimately show "seekable map_ops map_dim (adaptor_target f) m 0" using pos by (simp add: seekable_def)
  have "takeWhile (\<lambda>e. beyond (adaptor_target f (map_key e)) Left) (tree_items m) = takeWhile (before_target f) (tree_items m)"
    by (rule takeWhile_cong) (auto simp: beyond_def adaptor_target_def map_key_def before_target_def)
  then show "seek_to map_ops map_dim (adaptor_target f) Left m 0 = length (takeWhile (before_target f) (tree_items m))"
    using pos by (simp add: seek_to_def seek_index_def takeWhile_map comp_def)
qed

lemma map_remove_range_correct:
  assumes m: "map_ok m" and f: "antitone_target start (map me_key (tree_items m))" "antitone_target stop (map me_key (tree_items m))"
  shows "\<exists>m'. map_remove_range start stop m = Some m' \<and> wf_tree map_ops m' \<and>
    tree_items m' = filter (before_target start) (tree_items m) @ filter (\<lambda>e. \<not> before_target stop e) (tree_items m)"
proof -
  note filters = sorted_filter(1) [OF antitone_before [OF f(1)]] sorted_filter(2) [OF antitone_before [OF f(2)]]
  have t: "wf_tree map_ops m" "height m < STACK_CAPACITY" "keys_sorted map_key (tree_items m)" using m by (simp_all add: keyed_tree_def)
  have c0: "wf_cursor map_ops (cursor_new map_dim m)" using t by (simp add: wf_cursor_def cursor_at_new)
  have len: "take (length (takeWhile P xs)) xs = takeWhile P xs" "drop (length (takeWhile P xs)) xs = dropWhile P xs" for P and xs :: "'c list"
    by (simp_all add: takeWhile_eq_take [symmetric] dropWhile_eq_drop [symmetric])
  obtain left c1 where s: "cursor_slice map_ops map_dim (adaptor_target start) Left (cursor_new map_dim m) = Some (left, c1)"
      "wf_tree map_ops left" "height left \<le> 53" "tree_items left = takeWhile (before_target start) (tree_items m)" "c_tree c1 = m"
    using tm.slice_correct [OF c0 cursor_at_new(1), of "adaptor_target start" _ Left] adaptor_seek [OF t(3) f(1)] tm.room_height [OF c0]
    by (auto simp: cursor_at_new len)
  have c1: "wf_cursor map_ops c1" using t s(5) by (simp add: wf_cursor_def)
  obtain found c2 where k: "cursor_seek map_dim (adaptor_target stop) Left c1 = Some (found, c2)" "c_tree c2 = m"
      "cursor_at map_ops map_dim c2 (length (takeWhile (before_target stop) (tree_items m)))"
    using tm.seek_correct [OF c1, of "adaptor_target stop" _ Left] adaptor_seek [OF t(3) f(2)] s(5) by auto
  have c2: "wf_cursor map_ops c2" using t k(2) by (simp add: wf_cursor_def)
  from tm.suffix_correct [OF c2 k(3)] obtain suf c3 where suf: "cursor_suffix map_ops map_dim c2 = Some (suf, c3)" "wf_tree map_ops suf"
      "height suf \<le> 53" "tree_items suf = dropWhile (before_target stop) (tree_items m)"
    using k(2) tm.room_height [OF c2] by (auto simp: len)
  show ?thesis
    using tm.append_correct [OF s(2) suf(2)] s suf k(1)
    by (auto simp: map_remove_range_def filters)
qed

lemma map_iter_from_correct:
  assumes m: "map_ok m"
  shows "map_iter_from k m = Some (map entry_pair (filter (\<lambda>e. k \<le> me_key e) (tree_items m)))"
proof -
  have t: "wf_tree map_ops m" "height m < STACK_CAPACITY" "keys_sorted map_key (tree_items m)" using m by (simp_all add: keyed_tree_def)
  have c0: "wf_cursor map_ops (cursor_new map_dim m)" using t by (simp add: wf_cursor_def cursor_at_new)
  define n where "n = length (takeWhile (\<lambda>x. map_key x < Some k) (tree_items m))"
  have "drop n (tree_items m) = filter (\<lambda>e. k \<le> me_key e) (tree_items m)"
    using sorted_keys_filter(1) [OF t(3)] by (simp add: n_def dropWhile_eq_drop [symmetric])
  moreover obtain found c where "cursor_seek map_dim (key_target k) Left (cursor_new map_dim m) = Some (found, c)" "c_tree c = m"
      "cursor_at map_ops map_dim c n"
    using tm.seek_correct [OF c0, of "key_target k" _ Left] tm.key_seekable [OF t(3), of 0 "Some k"] tm.key_seek_to(1) [OF t(3), of "Some k" 0]
    by (auto simp: cursor_at_new key_target_def n_def pos_at_def map_dim_def)
  ultimately show ?thesis
    using tm.collect_cursor_correct [of c n "[]"] t by (simp add: map_iter_from_def wf_cursor_def)
qed

lemma map_closest_correct:
  assumes m: "map_ok m"
  shows "map_closest k m = Some (map_option entry_pair (last_opt (filter (\<lambda>e. me_key e \<le> k) (tree_items m))))"
proof -
  let ?xs = "tree_items m"
  have t: "wf_tree map_ops m" "height m < STACK_CAPACITY" "keys_sorted map_key ?xs" using m by (simp_all add: keyed_tree_def)
  have c0: "wf_cursor map_ops (cursor_new map_dim m)" using t by (simp add: wf_cursor_def cursor_at_new)
  define n where "n = length (takeWhile (\<lambda>x. map_key x \<le> Some k) ?xs)"
  have le: "filter (\<lambda>e. me_key e \<le> k) ?xs = take n ?xs"
    using sorted_keys_filter(2) [OF t(3), of k] takeWhile_eq_take [of "\<lambda>x. map_key x \<le> Some k" ?xs] by (simp add: n_def)
  obtain found c where c: "cursor_seek map_dim (key_target k) Right (cursor_new map_dim m) = Some (found, c)" "c_tree c = m" "c_did_seek c"
      "cursor_at map_ops map_dim c n"
    using tm.seek_correct [OF c0, of "key_target k" _ Right] tm.key_seekable [OF t(3), of 0 "Some k"] tm.key_seek_to(2) [OF t(3), of "Some k" 0]
    by (auto simp: cursor_at_new key_target_def n_def pos_at_def map_dim_def)
  have wf: "wf_cursor map_ops c" using t c(2) by (simp add: wf_cursor_def)
  have n: "n \<le> length ?xs" by (simp add: n_def length_takeWhile_le)
  show ?thesis
  proof (cases "tree_is_empty m")
    case True
    then have "?xs = []" using t(1) by (simp add: tree_is_empty_iff)
    moreover obtain c' where "cursor_prev map_dim c = Some c'" "c_tree c' = m" "c_did_seek c'" "cursor_at map_ops map_dim c' 0"
      using tm.search_backward_empty [OF c(4)] True t(1) c(2) unfolding cursor_prev_def by blast
    ultimately show ?thesis using c(1) cursor_item_correct [of map_ops map_dim c' 0] by (simp add: map_closest_def)
  next
    case False
    with tm.prev_correct [OF wf c(4)] c(2,3) obtain c' where c': "cursor_prev map_dim c = Some c'" "c_tree c' = m" "c_did_seek c'"
        "if n = 0 then cursor_before map_dim c' else cursor_at map_ops map_dim c' (n - 1)" by auto
    show ?thesis
    proof (cases n)
      case 0
      with c c' le show ?thesis by (simp add: map_closest_def cursor_before_def cursor_item_def)
    next
      case (Suc j)
      with c' cursor_item_correct [of map_ops map_dim c' j] n have "cursor_item c' = Some (Some (?xs ! j))" by simp
      moreover have "last_opt (take n ?xs) = Some (?xs ! j)" using Suc n by (simp add: take_Suc_conv_app_nth)
      ultimately show ?thesis using c(1) c'(1) le by (simp add: map_closest_def)
    qed
  qed
qed

text \<open>\<open>retain\<close> rebuilds the map by pushes; a tree that a cursor can walk has few enough entries for
  that.\<close>

lemma wf_items_bound: "wf_tree ops t \<Longrightarrow> length (tree_items t) \<le> (2 * TREE_BASE) ^ Suc (height t)"
proof (induction t)
  case (Internal h s cs ts)
  then have "length (tree_items t) \<le> (2 * TREE_BASE) ^ h" if "t \<in> set ts" for t
    using Internal.IH [OF that] Internal.prems that by auto
  then have "(\<Sum>t\<leftarrow>ts. length (tree_items t)) \<le> (\<Sum>t\<leftarrow>ts. (2 * TREE_BASE) ^ h)" by (intro sum_list_mono) simp
  also have "\<dots> = length ts * (2 * TREE_BASE) ^ h" by (simp add: sum_list_triv)
  also have "\<dots> \<le> (2 * TREE_BASE) ^ Suc h" using Internal.prems by simp
  finally show ?case by (simp add: length_concat comp_def)
qed (simp add: TREE_BASE_def)

lemma walkable_items_bound:
  assumes "wf_tree ops t" "height t < STACK_CAPACITY"
  shows "length (tree_items t) < TREE_BASE ^ 254"
proof -
  have "length (tree_items t) \<le> 12 ^ Suc (height t)" using wf_items_bound [OF assms(1)] by (simp add: TREE_BASE_def)
  also have "\<dots> \<le> 12 ^ 16" using assms(2) by (intro power_increasing) (simp_all add: STACK_CAPACITY_def)
  also have "\<dots> < (6::nat) ^ 40" by simp
  also have "\<dots> \<le> 6 ^ 254" by (rule power_increasing) simp_all
  finally show ?thesis by (simp add: TREE_BASE_def)
qed

lemma retain_loop_correct:
  fixes c :: "(('k::linorder, 'v) map_entry, 'k option, 'k option) cursor"
  assumes "wf_cursor map_ops c" "cursor_at map_ops map_dim c k" "c_did_seek c"
    and "wf_tree map_ops acc" "dense acc" "length (tree_items acc) + (length (tree_items (c_tree c)) - k) < TREE_BASE ^ 254"
  shows "\<exists>m'. retain_loop p c acc = Some m' \<and> wf_tree map_ops m' \<and>
    tree_items m' = tree_items acc @ filter (\<lambda>e. p (me_key e) (me_value e)) (drop k (tree_items (c_tree c)))"
  using assms
proof (induction "length (tree_items (c_tree c)) - k" arbitrary: c k acc)
  case 0
  then have "k = length (tree_items (c_tree c))" using cursor_at_le [OF 0(3)] by simp
  with cursor_item_correct [OF 0(3,4)] 0(5) show ?case by (subst retain_loop.simps) simp
next
  case (Suc n)
  let ?xs = "tree_items (c_tree c)"
  have k: "k < length ?xs" using Suc.hyps(2) by simp
  define e where "e = ?xs ! k"
  define keep where "keep = p (me_key e) (me_value e)"
  obtain c' where c': "cursor_next map_dim c = Some c'" "c_tree c' = c_tree c" "c_did_seek c'" "cursor_at map_ops map_dim c' (Suc k)"
    using tm.next_correct [OF Suc.prems(1,2)] Suc.prems(3) k by auto
  obtain acc' where acc': "(if keep then tree_push map_ops e acc else Some acc) = Some acc'" "wf_tree map_ops acc'" "dense acc'"
      "tree_items acc' = tree_items acc @ (if keep then [e] else [])"
    using tm.push_dense [OF Suc.prems(4,5), of e] Suc.prems(4-6) by (cases keep) auto
  have "wf_cursor map_ops c'" using Suc.prems(1) c'(2) by (simp add: wf_cursor_def)
  moreover have "length (tree_items acc') + (length (tree_items (c_tree c')) - Suc k) < TREE_BASE ^ 254"
    using Suc.prems(6) k c'(2) acc'(4) by auto
  moreover have "n = length (tree_items (c_tree c')) - Suc k" using Suc.hyps(2) c'(2) by simp
  ultimately obtain m' where "retain_loop p c' acc' = Some m'" "wf_tree map_ops m'"
      "tree_items m' = tree_items acc' @ filter (\<lambda>e. p (me_key e) (me_value e)) (drop (Suc k) ?xs)"
    using Suc.hyps(1) [of c' "Suc k" acc'] c' acc'(2,3) by auto
  moreover have "drop k ?xs = e # drop (Suc k) ?xs" using k by (simp add: e_def Cons_nth_drop_Suc)
  moreover have "cursor_item c = Some (Some e)" using cursor_item_correct [OF Suc.prems(2,3)] k by (simp add: e_def)
  ultimately show ?case
    using acc'(1,4) c'(1) by (subst retain_loop.simps) (simp add: keep_def split: if_splits)
qed

lemma map_retain_correct:
  fixes m :: "('k::linorder, 'v) tree_map"
  assumes "map_ok m"
  shows "\<exists>m'. map_retain p m = Some m' \<and> sorted_map m' \<and> tree_items m' = filter (\<lambda>e. p (me_key e) (me_value e)) (tree_items m)"
proof -
  have t: "wf_tree map_ops m" "height m < STACK_CAPACITY" "keys_sorted map_key (tree_items m)" using assms by (simp_all add: keyed_tree_def)
  have c0: "wf_cursor map_ops (cursor_new map_dim m)" using t by (simp add: wf_cursor_def cursor_at_new)
  obtain c where c: "cursor_next map_dim (cursor_new map_dim m) = Some c" "c_tree c = m" "c_did_seek c" "cursor_at map_ops map_dim c 0"
    using tm.next_correct [OF c0 cursor_at_new(1)] cursor_at_new(2) by (auto simp: cursor_new_def)
  have "wf_cursor map_ops c" using t c(2) by (simp add: wf_cursor_def)
  moreover have "wf_tree map_ops (tree_new map_ops :: ('k, 'v) tree_map)" "dense (tree_new map_ops :: ('k, 'v) tree_map)"
      "tree_items (tree_new map_ops :: ('k, 'v) tree_map) = []"
    by (simp_all add: tree_new_def summary_sum_def)
  ultimately obtain m' where "retain_loop p c (tree_new map_ops) = Some m'" "wf_tree map_ops m'"
      "tree_items m' = filter (\<lambda>e. p (me_key e) (me_value e)) (tree_items m)"
    using retain_loop_correct [of c 0 "tree_new map_ops" p] c walkable_items_bound [OF t(1,2)] by auto
  moreover have "keys_sorted map_key (filter q (tree_items m))" for q
    using t(3) by (auto simp: keys_sorted_def sorted_wrt_map sorted_wrt_filter)
  ultimately show ?thesis using c(1) by (auto simp: map_retain_def sorted_map_def)
qed

lemma map_iter_correct:
  assumes "map_ok m"
  shows "map_iter m = Some (map entry_pair (tree_items m))" "map_values m = Some (map me_value (tree_items m))"
    "map_first m = Some (map_option entry_pair (first_opt (tree_items m)))"
    "map_last m = Some (map_option entry_pair (last_opt (tree_items m)))"
  using assms tm.collect_iter_correct [of m] tm.tree_first_correct [of m] tm.tree_last_correct [of m]
  by (simp_all add: keyed_tree_def map_iter_def map_values_def map_first_def map_last_def)

text \<open>\<open>extend\<close>: a batch of insertions with distinct keys.\<close>

lemma map_extend_correct:
  assumes m: "map_ok m" and kvs: "distinct (map fst kvs)" "length kvs < 2 ^ 64"
    and sort: "valid_sort map_key sort_edits (map (\<lambda>kv. Insert (map_entry_of kv)) kvs)"
  shows "\<exists>m'. map_extend sort_edits kvs m = Some m' \<and> sorted_map m' \<and> map_of_tree m' = map_of_tree m ++ map_of kvs"
proof -
  let ?xs = "map map_entry_of kvs :: ('a, 'b) map_entry list"
  have es: "map (\<lambda>kv. Insert (map_entry_of kv)) kvs = map Insert ?xs" by simp
  have "map map_key ?xs = map Some (map fst kvs)" by (simp add: map_key_def)
  then have d: "distinct (map map_key ?xs)" using kvs(1) by (metis distinct_map inj_Some)
  obtain removed m' where m': "sum_tree_edit sort_edits map_ops map_dim map_key (map Insert ?xs) m = Some (removed, m')" "wf_tree map_ops m'"
      "keys_sorted map_key (tree_items m')"
      "\<forall>k. item_at map_key k (tree_items m') = (case item_at map_key k ?xs of Some x \<Rightarrow> Some x | None \<Rightarrow> item_at map_key k (tree_items m))"
    using tm.edit_insert_items [OF m _ d sort [unfolded es]] kvs(2) by auto
  have "item_at map_key (Some k) (map map_entry_of ys) = map_option (\<lambda>v. map_entry_of (k, v)) (map_of ys k)" for k and ys :: "('a \<times> 'b) list"
    by (induction ys) (auto simp: map_key_def)
  then have "map_of_tree m' = map_of_tree m ++ map_of kvs"
    using m'(4) by (auto simp: fun_eq_iff map_of_tree_def map_add_def split: option.splits)
  with m' show ?thesis by (simp add: map_extend_def sorted_map_def comp_def)
qed

end
