(* ===== verification/Tree_Map_Props.thy ===== *)
theory Tree_Map_Props
  imports Tree_Map
begin

text \<open>
  The contracts of \<open>TreeMap\<close> and \<open>TreeSet\<close> over the finite map (set) a tree denotes, the round trip
  through ordered entries, and the two calls that break the order of the keys.
\<close>

text \<open>A map with two entries, for the witnesses.\<close>

definition two_entries :: "(nat, nat) tree_map" where
  "two_entries = Leaf (Some 3) [map_entry_of (1, 10), map_entry_of (3, 30)] [Some 1, Some 3]"

lemma two_entries_ok: "map_ok two_entries" "tree_items two_entries = [map_entry_of (1, 10), map_entry_of (3, 30)]"
  by (simp_all add: two_entries_def keyed_tree_def map_ops_def summary_sum_def TREE_BASE_def STACK_CAPACITY_def keys_sorted_def)

lemma two_entries_map: "map_of_tree two_entries k = (if k = 1 then Some 10 else if k = 3 then Some 30 else None)"
  by (auto simp: map_of_tree_def two_entries_ok)

text \<open>
  C6. \<open>TreeMap\<close> implements a finite map: on a map with ascending keys \<open>get\<close> and \<open>contains_key\<close> are lookups,
  \<open>insert\<close> and \<open>insert_or_replace\<close> update one key and return the value that was replaced, \<open>remove\<close>
  deletes one key and returns its value, \<open>update\<close> applies a function to the value of a present key
  and does nothing for an absent one. None of them panics and the keys stay ascending.
\<close>

theorem tree_map_refines_map:
  assumes "map_ok m"
  shows "map_get k m = map_of_tree m k
    \<and> (contains_key k m \<longleftrightarrow> k \<in> dom (map_of_tree m))
    \<and> (\<exists>m'. map_insert_or_replace k v m = Some (map_of_tree m k, m') \<and> map_insert k v m = Some m' \<and>
          sorted_map m' \<and> map_of_tree m' = (map_of_tree m)(k \<mapsto> v))
    \<and> (\<exists>m'. map_remove k m = Some (map_of_tree m k, m') \<and> sorted_map m' \<and> map_of_tree m' = (map_of_tree m)(k := None))
    \<and> (\<exists>m'. map_update k f m = Some (map_option (snd \<circ> f) (map_of_tree m k), m') \<and> sorted_map m' \<and>
          map_of_tree m' = (map_of_tree m)(k := map_option (fst \<circ> f) (map_of_tree m k)))"
proof (intro conjI)
  show get: "map_get k m = map_of_tree m k" by (rule map_get_correct [OF assms])
  show "contains_key k m \<longleftrightarrow> k \<in> dom (map_of_tree m)" by (auto simp: contains_key_def get)
  obtain m1 where m1: "map_insert_or_replace k v m = Some (map_of_tree m k, m1)" "map_insert k v m = Some m1" "sorted_map m1"
      "tree_items m1 = apply_edit map_key (Insert (map_entry_of (k, v))) (tree_items m)"
    using map_insert_correct [OF assms] by blast
  then have "map_of_tree m1 = (map_of_tree m)(k \<mapsto> v)" by (auto simp: fun_eq_iff map_of_edit [OF m1(4)])
  with m1 show "\<exists>m'. map_insert_or_replace k v m = Some (map_of_tree m k, m') \<and> map_insert k v m = Some m' \<and>
      sorted_map m' \<and> map_of_tree m' = (map_of_tree m)(k \<mapsto> v)" by blast
  obtain m2 where m2: "map_remove k m = Some (map_of_tree m k, m2)" "sorted_map m2"
      "tree_items m2 = apply_edit map_key (Remove (Some k)) (tree_items m)"
    using map_remove_correct [OF assms] by blast
  then have "map_of_tree m2 = (map_of_tree m)(k := None)" by (auto simp: fun_eq_iff map_of_edit [OF m2(3)])
  with m2 show "\<exists>m'. map_remove k m = Some (map_of_tree m k, m') \<and> sorted_map m' \<and> map_of_tree m' = (map_of_tree m)(k := None)"
    by blast
  show "\<exists>m'. map_update k f m = Some (map_option (snd \<circ> f) (map_of_tree m k), m') \<and> sorted_map m' \<and>
      map_of_tree m' = (map_of_tree m)(k := map_option (fst \<circ> f) (map_of_tree m k))"
    by (rule map_update_correct [OF assms])
qed

theorem tree_map_refines_map_witness:
  "map_get 3 two_entries = Some 30 \<and> (\<exists>m'. map_insert_or_replace 3 7 two_entries = Some (Some 30, m') \<and> map_of_tree m' 3 = Some 7)"
  using tree_map_refines_map [OF two_entries_ok(1), of 3 7 "\<lambda>v. (v, v)"] by (auto simp: two_entries_map)

text \<open>
  The ordered queries of a \<open>TreeMap\<close>: \<open>iter\<close> and \<open>values\<close> return all entries in the order of the
  keys, \<open>iter_from\<close> those from a key on, \<open>closest\<close> the entry with the greatest key not above the
  given one, \<open>first\<close> and \<open>last\<close> the ends. All iterations end.
\<close>

theorem tree_map_ordered_queries:
  assumes "map_ok m"
  shows "map_iter m = Some (map entry_pair (tree_items m))
    \<and> map_values m = Some (map me_value (tree_items m))
    \<and> sorted_wrt (<) (map me_key (tree_items m))
    \<and> map_iter_from k m = Some (map entry_pair (filter (\<lambda>e. k \<le> me_key e) (tree_items m)))
    \<and> map_closest k m = Some (map_option entry_pair (last_opt (filter (\<lambda>e. me_key e \<le> k) (tree_items m))))
    \<and> map_first m = Some (map_option entry_pair (first_opt (tree_items m)))
    \<and> map_last m = Some (map_option entry_pair (last_opt (tree_items m)))"
  using map_iter_correct [OF assms] map_iter_from_correct [OF assms] map_closest_correct [OF assms] assms
  by (simp add: keyed_tree_def keys_sorted_def sorted_wrt_map map_key_def)

theorem tree_map_ordered_queries_witness:
  "map_closest 2 two_entries = Some (Some (1, 10)) \<and> map_iter_from 2 two_entries = Some [(3, 30)]"
  using tree_map_ordered_queries [OF two_entries_ok(1), of 2] by (simp add: two_entries_ok(2) entry_pair_def map_entry_of_def last_opt_def)

text \<open>
  C34. \<open>retain\<close> always ends, keeps exactly the entries the predicate accepts and leaves a well-formed map
  with ascending keys.
\<close>

theorem tree_map_retain:
  assumes "map_ok m"
  shows "\<exists>m'. map_retain p m = Some m' \<and> sorted_map m' \<and> tree_items m' = filter (\<lambda>e. p (me_key e) (me_value e)) (tree_items m)"
  by (rule map_retain_correct [OF assms])

theorem tree_map_retain_witness:
  "\<exists>m'. map_retain (\<lambda>k v. 20 < v) two_entries = Some m' \<and> tree_items m' = [map_entry_of (3, 30)]"
  using tree_map_retain [OF two_entries_ok(1), of "\<lambda>k v. 20 < v"] by (auto simp: two_entries_ok(2))

text \<open>
  \<open>remove_range\<close> with a start that is not behind its end removes exactly the entries that are not
  before the start and are before the end.
\<close>

theorem tree_map_remove_range:
  assumes "map_ok m" "antitone_target start (map me_key (tree_items m))" "antitone_target stop (map me_key (tree_items m))"
    and "\<forall>k. start k = Greater \<longrightarrow> stop k = Greater"
  shows "\<exists>m'. map_remove_range start stop m = Some m' \<and> sorted_map m' \<and>
    tree_items m' = filter (\<lambda>e. start (me_key e) = Greater \<or> stop (me_key e) \<noteq> Greater) (tree_items m)"
proof -
  let ?xs = "tree_items m"
  obtain m' where m': "map_remove_range start stop m = Some m'" "wf_tree map_ops m'"
      "tree_items m' = filter (before_target start) ?xs @ filter (\<lambda>e. \<not> before_target stop e) ?xs"
    using map_remove_range_correct [OF assms(1-3)] by blast
  have "filter P xs @ filter (\<lambda>e. \<not> Q e) xs = filter (\<lambda>e. P e \<or> \<not> Q e) xs"
    if "sorted_wrt (\<lambda>x y. Q y \<longrightarrow> Q x) xs" "\<forall>e. P e \<longrightarrow> Q e" for P Q and xs :: "('a, 'b) map_entry list"
    using that by (induction xs) (auto simp: filter_empty_conv)
  with antitone_before [OF assms(3)] assms(4) m'(3)
  have items: "tree_items m' = filter (\<lambda>e. before_target start e \<or> \<not> before_target stop e) ?xs"
    by (simp add: before_target_def)
  moreover have "keys_sorted map_key (filter q ?xs)" for q
    using assms(1) by (auto simp: keyed_tree_def keys_sorted_def sorted_wrt_map sorted_wrt_filter)
  ultimately show ?thesis using m' by (auto simp: sorted_map_def before_target_def)
qed

theorem tree_map_remove_range_witness:
  "\<exists>m'. map_remove_range (ord_cmp 2) (ord_cmp 4) two_entries = Some m' \<and> tree_items m' = [map_entry_of (1, 10)]"
proof -
  have "antitone_target (ord_cmp (k::nat)) (map me_key (tree_items two_entries))" for k
    by (rule antitone_ord_cmp) (simp add: two_entries_ok(2))
  then show ?thesis
    using tree_map_remove_range [OF two_entries_ok(1), of "ord_cmp 2" "ord_cmp 4"] by (auto simp: two_entries_ok(2))
qed

text \<open>
  \<open>remove_range\<close> with a start behind its end does not remove nothing: every entry between the two
  ends up twice in the tree, and the keys are no longer ascending.
\<close>

theorem tree_map_remove_range_reversed:
  assumes "map_ok m" "antitone_target start (map me_key (tree_items m))" "antitone_target stop (map me_key (tree_items m))"
    and "e \<in> set (tree_items m)" "start (me_key e) = Greater" "stop (me_key e) \<noteq> Greater"
  shows "\<exists>m'. map_remove_range start stop m = Some m' \<and> count (mset (tree_items m')) e = 2 \<and> \<not> sorted_map m'"
proof -
  let ?xs = "tree_items m"
  obtain m' where m': "map_remove_range start stop m = Some m'"
      "tree_items m' = filter (before_target start) ?xs @ filter (\<lambda>e. \<not> before_target stop e) ?xs"
    using map_remove_range_correct [OF assms(1-3)] by blast
  have "distinct (map map_key ?xs)" using assms(1) strict_sorted_iff by (auto simp: keyed_tree_def keys_sorted_def)
  then have "distinct ?xs" by (simp add: distinct_map)
  with assms(4-6) have "count (mset (tree_items m')) e = 2"
    by (simp add: m'(2) before_target_def distinct_count_atmost_1)
  moreover have "\<not> sorted_map m'"
  proof
    assume "sorted_map m'"
    then have "distinct (map map_key (tree_items m'))" using strict_sorted_iff by (auto simp: sorted_map_def keys_sorted_def)
    then have "distinct (tree_items m')" by (simp add: distinct_map)
    with \<open>count (mset (tree_items m')) e = 2\<close> show False by (simp add: distinct_count_atmost_1 split: if_splits)
  qed
  ultimately show ?thesis using m'(1) by blast
qed

theorem tree_map_remove_range_reversed_witness:
  "\<exists>m'. map_remove_range (ord_cmp 2) (ord_cmp 0) two_entries = Some m' \<and> count (mset (tree_items m')) (map_entry_of (1, 10)) = 2"
proof -
  have "antitone_target (ord_cmp (k::nat)) (map me_key (tree_items two_entries))" for k
    by (rule antitone_ord_cmp) (simp add: two_entries_ok(2))
  then show ?thesis
    using tree_map_remove_range_reversed [OF two_entries_ok(1), of "ord_cmp 2" "ord_cmp 0" "map_entry_of (1, 10)"]
    by (auto simp: two_entries_ok(2))
qed

text \<open>
  A map built from entries with ascending keys is well formed, and iterating over it returns these
  entries; so does iterating over the keys of a \<open>TreeSet\<close>.
\<close>

theorem tree_map_from_ordered_entries:
  assumes "sorted_wrt (<) (map fst kvs)" "length kvs \<le> 12 ^ 16" "sorted_wrt (<) ks" "length ks \<le> 12 ^ 16"
  shows "(\<exists>m. from_ordered_entries kvs = Some m \<and> map_ok m \<and> map_iter m = Some kvs \<and> map_of_tree m = map_of kvs)
    \<and> (\<exists>s. set_from_ordered_entries ks = Some s \<and> map_ok s \<and> set_iter s = Some ks)"
proof -
  have entries: "\<exists>m. from_ordered_entries kvs = Some m \<and> map_ok m \<and> map_iter m = Some kvs \<and> map_of_tree m = map_of kvs"
    if "sorted_wrt (<) (map fst kvs)" "length kvs \<le> 12 ^ 16" for kvs :: "('k::linorder \<times> 'w) list"
  proof -
    let ?es = "map map_entry_of kvs :: ('k, 'w) map_entry list"
    have "length ?es \<le> (2 * TREE_BASE) ^ Suc 15" using that(2) by (simp add: TREE_BASE_def)
    from tm.from_iter_correct [OF this] obtain m where m: "from_iter map_ops ?es = Some m" "wf_tree map_ops m"
        "tree_items m = ?es" "height m \<le> 15" by auto
    have "map map_key ?es = map Some (map fst kvs)" by (simp add: map_key_def)
    then have "keys_sorted map_key ?es" using that(1) by (simp add: keys_sorted_def sorted_wrt_map del: map_map)
    with m have ok: "map_ok m" by (simp add: keyed_tree_def STACK_CAPACITY_def)
    moreover have "map entry_pair ?es = kvs" by (induction kvs) (simp_all add: entry_pair_def map_entry_of_def)
    moreover have "map_option me_value (item_at map_key (Some k) (map map_entry_of ys)) = map_of ys k" for ys :: "('k \<times> 'w) list" and k
      by (induction ys) (auto simp: map_key_def map_entry_of_def)
    ultimately show ?thesis
      using m map_iter_correct(1) [OF ok] by (auto simp: from_ordered_entries_def map_of_tree_def fun_eq_iff)
  qed
  have unit: "map fst (map (\<lambda>k. (k, ())) ks) = ks" by (simp add: comp_def)
  with entries [of "map (\<lambda>k. (k, ())) ks"] assms(3,4)
  have "\<exists>s. set_from_ordered_entries ks = Some s \<and> map_ok s \<and> set_iter s = Some ks"
    by (auto simp: set_from_ordered_entries_def set_iter_def simp del: map_map)
  with entries [OF assms(1,2)] show ?thesis by blast
qed

theorem tree_map_from_ordered_entries_witness:
  "\<exists>m. from_ordered_entries [(1::nat, ''a''), (4, ''b'')] = Some m \<and> map_iter m = Some [(1, ''a''), (4, ''b'')]"
  using tree_map_from_ordered_entries [of "[(1::nat, ''a''), (4, ''b'')]" "[1::nat]"] by auto

text \<open>
  C33. \<open>extend\<close> with distinct keys overrides the map with the given entries, whatever order the unstable
  sort gives to its edits, and the keys stay ascending. The entries are collected into a vector, so there
  are fewer than \<open>2 ^ 64\<close> of them; the map is a well-formed tree within the capacity of the cursor's stack.
\<close>

theorem tree_map_extend:
  assumes "map_ok m" "distinct (map fst kvs)" "length kvs < 2 ^ 64"
    and "valid_sort map_key sort_edits (map (\<lambda>kv. Insert (map_entry_of kv)) kvs)"
  shows "\<exists>m'. map_extend sort_edits kvs m = Some m' \<and> sorted_map m' \<and> map_of_tree m' = map_of_tree m ++ map_of kvs"
  by (rule map_extend_correct [OF assms])

theorem tree_map_extend_witness:
  "\<exists>m'. map_extend rev [(4, 40), (2, 20)] two_entries = Some m' \<and> map_of_tree m' 2 = Some 20 \<and> map_of_tree m' 3 = Some 30"
proof -
  have "valid_sort map_key rev (map (\<lambda>kv. Insert (map_entry_of kv)) [(4::nat, 40::nat), (2, 20)])"
    by (simp add: valid_sort_def)
  from tree_map_extend [OF two_entries_ok(1) _ _ this] show ?thesis by (auto simp: two_entries_map)
qed

text \<open>
  \<open>extend\<close> does not replace a key it has inserted itself: extending the empty map keeps every entry
  given, duplicates included, and a repeated key leaves a map whose keys are not ascending.
\<close>

theorem tree_map_extend_duplicates:
  assumes "kvs \<noteq> []" "length kvs \<le> 12 ^ 16" "\<not> distinct (map fst kvs)"
    and "sort_edits (map (\<lambda>kv. Insert (map_entry_of kv)) kvs) = map (\<lambda>kv. Insert (map_entry_of kv)) kvs"
  shows "\<exists>m'. map_extend sort_edits kvs (tree_new map_ops) = Some m' \<and> tree_items m' = map map_entry_of kvs \<and> \<not> sorted_map m'"
proof -
  let ?es = "map (\<lambda>kv. Insert (map_entry_of kv)) kvs" and ?t = "tree_new map_ops :: ('a, 'b) tree_map"
  have t: "wf_tree map_ops ?t" "height ?t < STACK_CAPACITY" "tree_items ?t = []"
    by (simp_all add: tree_new_def summary_sum_def STACK_CAPACITY_def)
  then have c0: "wf_cursor map_ops (cursor_new map_dim ?t)" by (simp add: wf_cursor_def cursor_at_new)
  have "seekable map_ops map_dim (ord_cmp (d_zero map_dim)) (c_tree (cursor_new map_dim ?t)) 0"
    by (simp add: seekable_def cursor_at_new t pos_at_def antitone_target_def)
  from tm.seek_correct [OF c0 this refl, of Left] obtain found c where
    c: "cursor_seek map_dim (ord_cmp (d_zero map_dim)) Left (cursor_new map_dim ?t) = Some (found, c)" "c_tree c = ?t" "c_did_seek c"
      "cursor_at map_ops map_dim c 0"
    by (auto simp: cursor_at_new seek_to_def seek_index_def t)
  have item: "cursor_item c = Some None" using cursor_item_correct [OF c(4,3)] c(2) t(3) by simp
  have loop: "edit_loop map_ops map_dim map_key (map (\<lambda>kv. Insert (map_entry_of kv)) ys) st =
      Some (st\<lparr>ed_buffered := ed_buffered st @ map map_entry_of ys\<rparr>)" if "ed_cursor st = c" for ys and st :: "(('a, 'b) map_entry, 'a option, 'a option) edit_state"
    using that item by (induction ys arbitrary: st) (auto simp: edit_step_def edit_advance_def edit_drop_old_def)
  have "length (map map_entry_of kvs) \<le> (2 * TREE_BASE) ^ Suc 15" using assms(2) by (simp add: TREE_BASE_def)
  from tm.extend_correct [OF t(1) _ this] obtain t1 where t1: "tree_extend map_ops (map map_entry_of kvs) ?t = Some t1" "wf_tree map_ops t1"
      "tree_items t1 = map map_entry_of kvs" "height t1 \<le> 16"
    using t(2,3) by (auto simp: tree_new_def)
  have wf: "wf_cursor map_ops c" using t c(2) by (simp add: wf_cursor_def)
  from tm.suffix_correct [OF wf c(4)] obtain suf d where suf: "cursor_suffix map_ops map_dim c = Some (suf, d)" "wf_tree map_ops suf"
      "height suf \<le> 53" "tree_items suf = []" using c(2) t(3) tm.room_height [OF wf] by auto
  from tm.append_correct [OF t1(2) suf(2)] t1(4) suf(3)
  obtain m' where "tree_append map_ops t1 suf = Some m'" "wf_tree map_ops m'" "tree_items m' = map map_entry_of kvs"
    using t1(3) suf(4) by auto
  moreover have "\<not> sorted_map m'" if "tree_items m' = map map_entry_of kvs" for m'
  proof
    assume "sorted_map m'"
    then have "distinct (map map_key (map map_entry_of kvs))" using strict_sorted_iff that by (auto simp: sorted_map_def keys_sorted_def)
    moreover have "map map_key (map map_entry_of kvs) = map Some (map fst kvs)" by (simp add: map_key_def)
    ultimately show False using assms(3) by (metis distinct_map)
  qed
  ultimately show ?thesis
    using c(1) loop [of "\<lparr>ed_cursor = c, ed_tree = ?t, ed_buffered = [], ed_removed = []\<rparr>" kvs] assms(1,4) t1(1) suf(1)
    by (auto simp: map_extend_def sum_tree_edit_def)
qed

theorem tree_map_extend_duplicates_witness:
  "\<exists>m'. map_extend (\<lambda>es. es) [(1::nat, ''a''), (1, ''b'')] (tree_new map_ops) = Some m' \<and>
    tree_items m' = [map_entry_of (1, ''a''), map_entry_of (1, ''b'')]"
  using tree_map_extend_duplicates [of "[(1::nat, ''a''), (1, ''b'')]" "\<lambda>es. es"] by auto

text \<open>
  \<open>TreeSet\<close> implements a finite set: membership, insertion, removal (with the result whether the key
  was there) and ordered iteration act on the set of its keys.
\<close>

theorem tree_set_refines_set:
  fixes s :: "'k::linorder tree_set"
  assumes "map_ok s"
  shows "(set_contains k s \<longleftrightarrow> k \<in> dom (map_of_tree s))
    \<and> (\<exists>s'. set_insert k s = Some s' \<and> sorted_map s' \<and> dom (map_of_tree s') = insert k (dom (map_of_tree s)))
    \<and> (\<exists>s'. set_remove k s = Some (k \<in> dom (map_of_tree s), s') \<and> sorted_map s' \<and> dom (map_of_tree s') = dom (map_of_tree s) - {k})
    \<and> set_iter_from k s = Some (filter (\<lambda>j. k \<le> j) (map me_key (tree_items s)))
    \<and> set (map me_key (tree_items s)) = dom (map_of_tree s)"
proof (intro conjI)
  show "set_contains k s \<longleftrightarrow> k \<in> dom (map_of_tree s)" by (auto simp: set_contains_def map_get_correct [OF assms])
  obtain s1 where s1: "map_insert k () s = Some s1" "sorted_map s1" "tree_items s1 = apply_edit map_key (Insert (map_entry_of (k, ()))) (tree_items s)"
    using map_insert_correct [OF assms] by blast
  then show "\<exists>s'. set_insert k s = Some s' \<and> sorted_map s' \<and> dom (map_of_tree s') = insert k (dom (map_of_tree s))"
    by (auto simp: set_insert_def dom_def map_of_edit [OF s1(3)])
  obtain s2 where s2: "map_remove k s = Some (map_of_tree s k, s2)" "sorted_map s2" "tree_items s2 = apply_edit map_key (Remove (Some k)) (tree_items s)"
    using map_remove_correct [OF assms] by blast
  then show "\<exists>s'. set_remove k s = Some (k \<in> dom (map_of_tree s), s') \<and> sorted_map s' \<and> dom (map_of_tree s') = dom (map_of_tree s) - {k}"
    by (auto simp: set_remove_def dom_def map_of_edit [OF s2(3)])
  show "set_iter_from k s = Some (filter (\<lambda>j. k \<le> j) (map me_key (tree_items s)))"
    by (simp add: set_iter_from_def map_iter_from_correct [OF assms] entry_pair_def filter_map comp_def)
  have "item_at map_key (Some k) xs \<noteq> None \<longleftrightarrow> k \<in> me_key ` set xs" for k and xs :: "('k, unit) map_entry list"
    by (auto simp: item_at_None map_key_def)
  then show "set (map me_key (tree_items s)) = dom (map_of_tree s)" by (force simp: dom_def map_of_tree_def)
qed

theorem tree_set_refines_set_witness:
  "\<exists>s'. set_remove 5 (Leaf (Some 5) [map_entry_of (5::nat, ())] [Some 5]) = Some (True, s')"
proof -
  let ?s = "Leaf (Some 5) [map_entry_of (5::nat, ())] [Some 5] :: nat tree_set"
  have "map_ok ?s" by (simp add: keyed_tree_def map_ops_def summary_sum_def TREE_BASE_def STACK_CAPACITY_def keys_sorted_def)
  moreover have "5 \<in> dom (map_of_tree ?s)" by (simp add: map_of_tree_def dom_def)
  ultimately show ?thesis using tree_set_refines_set [of ?s 5] by auto
qed

end
