(* ===== verification/Undo_Map.thy ===== *)
theory Undo_Map
  imports Keyed_Tree Clock
begin

text \<open>
  \<open>crates/text/src/undo_map.rs\<close>: how often each edit has been undone. An undo operation carries a new
  count for every edit it toggles; the entries of all undo operations are kept under the pair of
  edit and undo timestamps, and an edit is undone if the greatest count recorded for it is odd.

  The counts of an undo operation are a \<open>HashMap\<close>; its iteration order is unspecified, so it is an
  association list in an arbitrary order.
\<close>

section \<open>Keys and entries\<close>

datatype undo_map_key = UndoMapKey (uk_edit_id: lamport) (uk_undo_id: lamport)

text \<open>The derived order compares the fields one after the other.\<close>

instantiation undo_map_key :: linorder
begin

definition less_eq_undo_map_key :: "undo_map_key \<Rightarrow> undo_map_key \<Rightarrow> bool" where
  "less_eq_undo_map_key a b \<longleftrightarrow>
     uk_edit_id a < uk_edit_id b \<or> (uk_edit_id a = uk_edit_id b \<and> uk_undo_id a \<le> uk_undo_id b)"

definition less_undo_map_key :: "undo_map_key \<Rightarrow> undo_map_key \<Rightarrow> bool" where
  "less_undo_map_key a b \<longleftrightarrow>
     uk_edit_id a < uk_edit_id b \<or> (uk_edit_id a = uk_edit_id b \<and> uk_undo_id a < uk_undo_id b)"

instance
  by standard (auto simp: less_eq_undo_map_key_def less_undo_map_key_def undo_map_key.expand)

end

record undo_map_entry =
  ue_key :: undo_map_key
  ue_undo_count :: u32

definition undo_ops :: "(undo_map_entry, undo_map_key) item_ops" where
  "undo_ops = \<lparr>item_summary = ue_key, s_zero = UndoMapKey LAMPORT_MIN LAMPORT_MIN, s_add = max\<rparr>"

definition undo_dim :: "(undo_map_key, undo_map_key) dim_ops" where
  "undo_dim = \<lparr>d_zero = UndoMapKey LAMPORT_MIN LAMPORT_MIN, d_add = max\<rparr>"

type_synonym undo_map = "(undo_map_entry, undo_map_key) sum_tree"

record undo_operation =
  uo_timestamp :: lamport
  uo_version :: global
  uo_counts :: "(lamport \<times> u32) list"

section \<open>Operations\<close>

definition undo_entry :: "lamport \<Rightarrow> lamport \<times> u32 \<Rightarrow> undo_map_entry" where
  "undo_entry ts ec = \<lparr>ue_key = UndoMapKey (fst ec) ts, ue_undo_count = snd ec\<rparr>"

definition undo_insert ::
  "((undo_map_entry, undo_map_key) tree_edit list \<Rightarrow> (undo_map_entry, undo_map_key) tree_edit list)
    \<Rightarrow> undo_operation \<Rightarrow> undo_map \<Rightarrow> undo_map option" where
  "undo_insert sort_edits undo m = do {
     let edits = map Insert (map (undo_entry (uo_timestamp undo)) (uo_counts undo));
     (_, m') \<leftarrow> sum_tree_edit sort_edits undo_ops undo_dim ue_key edits m;
     Some m'
   }"

text \<open>The loops of \<open>undo_count\<close> and \<open>was_undone\<close>, which differ in the entries they accept.\<close>

partial_function (option) undo_count_loop ::
  "(lamport \<Rightarrow> bool) \<Rightarrow> lamport \<Rightarrow> (undo_map_entry, undo_map_key, undo_map_key) cursor \<Rightarrow> u32 \<Rightarrow> u32 option" where
  "undo_count_loop accept edit_id c undo_count = do {
     (x, c') \<leftarrow> cursor_iter_next undo_dim c;
     case x of
       None \<Rightarrow> Some undo_count
     | Some e \<Rightarrow>
         if uk_edit_id (ue_key e) \<noteq> edit_id then Some undo_count
         else undo_count_loop accept edit_id c'
           (if accept (uk_undo_id (ue_key e)) then max undo_count (ue_undo_count e) else undo_count)
   }"

definition undo_count :: "lamport \<Rightarrow> undo_map \<Rightarrow> u32 option" where
  "undo_count edit_id m = do {
     (_, c) \<leftarrow> cursor_seek undo_dim (ord_cmp (UndoMapKey edit_id LAMPORT_MIN)) Left (cursor_new undo_dim m);
     undo_count_loop (\<lambda>_. True) edit_id c 0
   }"

definition is_undone :: "lamport \<Rightarrow> undo_map \<Rightarrow> bool option" where
  "is_undone edit_id m = do { n \<leftarrow> undo_count edit_id m; Some (n mod 2 = 1) }"

definition was_undone :: "lamport \<Rightarrow> global \<Rightarrow> undo_map \<Rightarrow> bool option" where
  "was_undone edit_id version m = do {
     (_, c) \<leftarrow> cursor_seek undo_dim (ord_cmp (UndoMapKey edit_id LAMPORT_MIN)) Left (cursor_new undo_dim m);
     n \<leftarrow> undo_count_loop (observed version) edit_id c 0;
     Some (n mod 2 = 1)
   }"

section \<open>The laws for undo entries\<close>

lemma lamport_min_le: "LAMPORT_MIN \<le> t"
  unfolding not_less [symmetric]
  by (auto simp: lamport_less_iff LAMPORT_MIN_def less_replica_id_def)

lemma undo_zero_le: "UndoMapKey LAMPORT_MIN LAMPORT_MIN \<le> k"
  using lamport_min_le by (auto simp: less_eq_undo_map_key_def le_less)

interpretation um: keyed_laws undo_ops undo_dim ue_key
  by unfold_locales
    (simp_all add: lawful_summary_def lawful_dim_def undo_ops_def undo_dim_def undo_zero_le max.assoc max_absorb2)

section \<open>Counting\<close>

text \<open>The greatest accepted count of an edit.\<close>

definition greatest_count :: "(lamport \<Rightarrow> bool) \<Rightarrow> lamport \<Rightarrow> undo_map_entry list \<Rightarrow> u32" where
  "greatest_count accept edit_id es = foldl (\<lambda>n e. max n (ue_undo_count e)) 0
     (filter (\<lambda>e. uk_edit_id (ue_key e) = edit_id \<and> accept (uk_undo_id (ue_key e))) es)"

lemma undo_count_loop_correct:
  assumes "wf_cursor undo_ops c" "cursor_at undo_ops undo_dim c k"
  shows "undo_count_loop accept edit_id c n = Some (foldl (\<lambda>n e. max n (ue_undo_count e)) n
    (filter (\<lambda>e. accept (uk_undo_id (ue_key e))) (takeWhile (\<lambda>e. uk_edit_id (ue_key e) = edit_id) (drop k (tree_items (c_tree c))))))"
  using assms
proof (induction "length (tree_items (c_tree c)) - k" arbitrary: c k n)
  case 0
  then have "k = length (tree_items (c_tree c))" using cursor_at_le [OF 0(3)] by simp
  with um.cursor_iter_next_correct [OF 0(2,3)] show ?case by (subst undo_count_loop.simps) auto
next
  case (Suc m)
  let ?xs = "tree_items (c_tree c)"
  have k: "k < length ?xs" using Suc.hyps(2) by simp
  obtain c' where c': "cursor_iter_next undo_dim c = Some (Some (?xs ! k), c')" "c_tree c' = c_tree c" "cursor_at undo_ops undo_dim c' (Suc k)"
    using um.cursor_iter_next_correct [OF Suc.prems] k by (auto simp: index_opt_def)
  have "wf_cursor undo_ops c'" "m = length (tree_items (c_tree c')) - Suc k" using Suc.prems(1) Suc.hyps(2) c'(2) by (simp_all add: wf_cursor_def)
  from Suc.hyps(1) [OF this(2,1) c'(3)] c' k show ?case
    by (subst undo_count_loop.simps) (simp add: Cons_nth_drop_Suc [symmetric])
qed

lemma undo_less_start: "a < UndoMapKey edit_id LAMPORT_MIN \<longleftrightarrow> uk_edit_id a < edit_id"
  using lamport_min_le [of "uk_undo_id a"] by (auto simp: less_undo_map_key_def)

lemma entries_of_edit:
  assumes "keys_sorted ue_key xs"
  shows "takeWhile (\<lambda>e. uk_edit_id (ue_key e) = edit_id) (dropWhile (\<lambda>e. uk_edit_id (ue_key e) < edit_id) xs) =
    filter (\<lambda>e. uk_edit_id (ue_key e) = edit_id) xs"
proof -
  have "sorted_wrt (\<lambda>x y. uk_edit_id (ue_key x) \<le> uk_edit_id (ue_key y)) xs"
    using assms by (auto simp: keys_sorted_def sorted_wrt_map less_undo_map_key_def elim!: sorted_wrt_mono_rel [rotated])
  then have "sorted_wrt (\<lambda>x y. uk_edit_id (ue_key y) < edit_id \<longrightarrow> uk_edit_id (ue_key x) < edit_id) xs"
      "sorted_wrt (\<lambda>x y. uk_edit_id (ue_key y) \<le> edit_id \<longrightarrow> uk_edit_id (ue_key x) \<le> edit_id) xs"
    by (auto elim!: sorted_wrt_mono_rel [rotated])
  note drop = sorted_filter(2) [OF this(1)] and le = this(2)
  let ?ys = "filter (\<lambda>e. \<not> uk_edit_id (ue_key e) < edit_id) xs"
  have "sorted_wrt (\<lambda>x y. uk_edit_id (ue_key y) \<le> edit_id \<longrightarrow> uk_edit_id (ue_key x) \<le> edit_id) ?ys"
    by (rule sorted_wrt_filter [OF le])
  then have "takeWhile (\<lambda>e. uk_edit_id (ue_key e) \<le> edit_id) ?ys = filter (\<lambda>e. uk_edit_id (ue_key e) \<le> edit_id) ?ys"
    by (rule sorted_filter(1))
  moreover have "takeWhile (\<lambda>e. uk_edit_id (ue_key e) = edit_id) ?ys = takeWhile (\<lambda>e. uk_edit_id (ue_key e) \<le> edit_id) ?ys"
    by (rule takeWhile_cong) auto
  moreover have "filter (\<lambda>e. uk_edit_id (ue_key e) \<le> edit_id) ?ys = filter (\<lambda>e. uk_edit_id (ue_key e) = edit_id) xs"
    by (auto intro!: filter_cong)
  ultimately show ?thesis unfolding drop by simp
qed

lemma seek_edit:
  assumes "keyed_tree undo_ops ue_key m"
  shows "\<exists>c. cursor_seek undo_dim (ord_cmp (UndoMapKey edit_id LAMPORT_MIN)) Left (cursor_new undo_dim m) = Some c \<and>
    undo_count_loop accept edit_id (snd c) 0 = Some (greatest_count accept edit_id (tree_items m))"
proof -
  let ?k = "UndoMapKey edit_id LAMPORT_MIN" and ?xs = "tree_items m"
  have t: "wf_tree undo_ops m" "height m < STACK_CAPACITY" "keys_sorted ue_key ?xs" using assms by (simp_all add: keyed_tree_def)
  have c0: "wf_cursor undo_ops (cursor_new undo_dim m)" using t by (simp add: wf_cursor_def cursor_at_new)
  have "pos_at undo_ops undo_dim m 0 \<le> ?k" by (simp add: pos_at_def undo_dim_def undo_zero_le)
  from um.seek_correct [OF c0, of "ord_cmp ?k" _ Left] um.key_seekable [OF t(3) this]
  obtain found c where c: "cursor_seek undo_dim (ord_cmp ?k) Left (cursor_new undo_dim m) = Some (found, c)" "c_tree c = m"
      "cursor_at undo_ops undo_dim c (length (takeWhile (\<lambda>x. ue_key x < ?k) ?xs))"
    by (auto simp: cursor_at_new um.key_seek_to [OF t(3)])
  have "wf_cursor undo_ops c" using t c(2) by (simp add: wf_cursor_def)
  from undo_count_loop_correct [OF this c(3)] c(2)
  have "undo_count_loop accept edit_id c 0 = Some (greatest_count accept edit_id ?xs)"
    by (simp add: dropWhile_eq_drop [symmetric] undo_less_start entries_of_edit [OF t(3)] greatest_count_def conj_commute)
  with c(1) show ?thesis by auto
qed

lemma undo_counts_correct:
  assumes "keyed_tree undo_ops ue_key m"
  shows "undo_count edit_id m = Some (greatest_count (\<lambda>_. True) edit_id (tree_items m))"
    and "is_undone edit_id m = Some (odd (unat (greatest_count (\<lambda>_. True) edit_id (tree_items m))))"
    and "was_undone edit_id version m = Some (odd (unat (greatest_count (observed version) edit_id (tree_items m))))"
proof -
  have odd: "n mod 2 = 1 \<longleftrightarrow> odd (unat n)" for n :: u32
  proof -
    have "n mod 2 = 1 \<longleftrightarrow> unat (n mod 2) = unat (1 :: u32)" by (simp only: word_eq_iff_unsigned)
    then show ?thesis by (simp add: unat_mod odd_iff_mod_2_eq_one)
  qed
  show "undo_count edit_id m = Some (greatest_count (\<lambda>_. True) edit_id (tree_items m))"
    using seek_edit [OF assms, of edit_id "\<lambda>_. True"] by (auto simp: undo_count_def)
  then show "is_undone edit_id m = Some (odd (unat (greatest_count (\<lambda>_. True) edit_id (tree_items m))))"
    by (simp add: is_undone_def odd)
  show "was_undone edit_id version m = Some (odd (unat (greatest_count (observed version) edit_id (tree_items m))))"
    using seek_edit [OF assms, of edit_id "observed version"] by (auto simp: was_undone_def odd)
qed

text \<open>The greatest count does not depend on the order of the entries.\<close>

lemma greatest_count_Max:
  "greatest_count accept edit_id es =
     Max (insert 0 {ue_undo_count e | e. e \<in> set es \<and> uk_edit_id (ue_key e) = edit_id \<and> accept (uk_undo_id (ue_key e))})"
proof -
  have fold: "foldl (\<lambda>n e. max n (ue_undo_count e)) n ys = Max (insert n (ue_undo_count ` set ys))" for n and ys :: "undo_map_entry list"
  proof (induction ys arbitrary: n)
    case (Cons y ys)
    then show ?case by (cases "ys = []") (simp_all add: max.assoc)
  qed simp
  show ?thesis unfolding greatest_count_def fold by (rule arg_cong [of _ _ Max]) auto
qed

section \<open>Inserting\<close>

abbreviation undo_edits :: "undo_operation \<Rightarrow> (undo_map_entry, undo_map_key) tree_edit list" where
  "undo_edits undo \<equiv> map Insert (map (undo_entry (uo_timestamp undo)) (uo_counts undo))"

text \<open>What the map records for an edit and an undo operation, and what an operation records.\<close>

definition recorded :: "undo_map_entry list \<Rightarrow> undo_map_key \<Rightarrow> u32 option" where
  "recorded es k = map_option ue_undo_count (item_at ue_key k es)"

definition op_counts :: "undo_operation \<Rightarrow> undo_map_key \<Rightarrow> u32 option" where
  "op_counts undo k = (if uk_undo_id k = uo_timestamp undo then map_of (uo_counts undo) (uk_edit_id k) else None)"

definition valid_undo ::
  "((undo_map_entry, undo_map_key) tree_edit list \<Rightarrow> (undo_map_entry, undo_map_key) tree_edit list) \<Rightarrow> undo_operation \<Rightarrow> bool" where
  "valid_undo sort_edits undo \<longleftrightarrow> distinct (map fst (uo_counts undo)) \<and> length (uo_counts undo) < 2 ^ 64 \<and>
     valid_sort ue_key sort_edits (undo_edits undo)"

lemma recorded_entries: "recorded (map (undo_entry (uo_timestamp undo)) (uo_counts undo)) = op_counts undo"
proof
  fix k :: undo_map_key
  have "map_option ue_undo_count (item_at ue_key k (map (undo_entry ts) cs)) =
      (if uk_undo_id k = ts then map_of cs (uk_edit_id k) else None)" for ts cs
    by (induction cs) (auto simp: undo_entry_def)
  then show "recorded (map (undo_entry (uo_timestamp undo)) (uo_counts undo)) k = op_counts undo k"
    by (simp add: recorded_def op_counts_def)
qed

lemma undo_insert_correct:
  assumes m: "keyed_tree undo_ops ue_key m" and undo: "valid_undo sort_edits undo"
  shows "\<exists>m'. undo_insert sort_edits undo m = Some m' \<and> wf_tree undo_ops m' \<and> keys_sorted ue_key (tree_items m') \<and>
    recorded (tree_items m') = recorded (tree_items m) ++ op_counts undo"
proof -
  let ?xs = "map (undo_entry (uo_timestamp undo)) (uo_counts undo)"
  have "map ue_key ?xs = map (\<lambda>i. UndoMapKey i (uo_timestamp undo)) (map fst (uo_counts undo))" by (simp add: undo_entry_def)
  moreover have "inj_on (\<lambda>i. UndoMapKey i (uo_timestamp undo)) A" for A by (rule inj_onI) simp
  ultimately have "distinct (map ue_key ?xs)" using undo by (metis distinct_map valid_undo_def)
  with um.edit_insert_items [OF m, of ?xs sort_edits] undo obtain removed m' where
    m': "sum_tree_edit sort_edits undo_ops undo_dim ue_key (undo_edits undo) m = Some (removed, m')" "wf_tree undo_ops m'"
      "keys_sorted ue_key (tree_items m')"
      "\<forall>k. item_at ue_key k (tree_items m') = (case item_at ue_key k ?xs of Some x \<Rightarrow> Some x | None \<Rightarrow> item_at ue_key k (tree_items m))"
    by (auto simp: valid_undo_def)
  then have "recorded (tree_items m') k = (recorded (tree_items m) ++ recorded ?xs) k" for k
    by (auto simp: recorded_def map_add_def split: option.splits)
  then have "recorded (tree_items m') = recorded (tree_items m) ++ op_counts undo" by (auto simp: recorded_entries)
  with m' show ?thesis by (simp add: undo_insert_def)
qed

lemma greatest_count_recorded:
  assumes "keys_sorted ue_key es"
  shows "greatest_count accept edit_id es = Max (insert 0 {c. \<exists>u. recorded es (UndoMapKey edit_id u) = Some c \<and> accept u})"
proof -
  have mem: "e \<in> set es \<Longrightarrow> item_at ue_key (ue_key e) es = Some e" for e
    using assms by (induction es) (auto simp: keys_sorted_Cons)
  have "{ue_undo_count e | e. e \<in> set es \<and> uk_edit_id (ue_key e) = edit_id \<and> accept (uk_undo_id (ue_key e))} =
      {c. \<exists>u. recorded es (UndoMapKey edit_id u) = Some c \<and> accept u}" (is "?L = ?R")
  proof (rule set_eqI)
    fix c
    show "c \<in> ?L \<longleftrightarrow> c \<in> ?R"
    proof
      assume "c \<in> ?L"
      then obtain e where e: "e \<in> set es" "c = ue_undo_count e" "uk_edit_id (ue_key e) = edit_id" "accept (uk_undo_id (ue_key e))" by blast
      then have "UndoMapKey edit_id (uk_undo_id (ue_key e)) = ue_key e" by (cases "ue_key e") simp
      with mem [OF e(1)] e show "c \<in> ?R" by (auto simp: recorded_def intro!: exI [of _ "uk_undo_id (ue_key e)"])
    next
      assume "c \<in> ?R"
      then obtain u e where "item_at ue_key (UndoMapKey edit_id u) es = Some e" "c = ue_undo_count e" "accept u"
        by (auto simp: recorded_def)
      with item_at_Some [OF this(1)] show "c \<in> ?L" by force
    qed
  qed
  then show ?thesis unfolding greatest_count_Max by simp
qed

lemma finite_recorded: "finite {c. \<exists>u. recorded es (UndoMapKey i u) = Some c \<and> accept u}"
  by (rule finite_subset [of _ "ue_undo_count ` set es"]) (auto simp: recorded_def dest!: item_at_Some)

lemma greatest_count_insert:
  assumes "keys_sorted ue_key es" "keys_sorted ue_key es'" "recorded es' = recorded es ++ op_counts undo"
    and fresh: "\<forall>i. recorded es (UndoMapKey i (uo_timestamp undo)) = None"
  shows "greatest_count accept edit_id es' = (case map_of (uo_counts undo) edit_id of
      Some c \<Rightarrow> if accept (uo_timestamp undo) then max (greatest_count accept edit_id es) c else greatest_count accept edit_id es
    | None \<Rightarrow> greatest_count accept edit_id es)"
proof -
  let ?S = "{c. \<exists>u. recorded es (UndoMapKey edit_id u) = Some c \<and> accept u}"
  have new: "recorded es' (UndoMapKey edit_id u) =
      (if u = uo_timestamp undo then map_of (uo_counts undo) edit_id else recorded es (UndoMapKey edit_id u))" for u
    using fresh by (auto simp: assms(3) map_add_def op_counts_def split: option.splits)
  have "{c. \<exists>u. recorded es' (UndoMapKey edit_id u) = Some c \<and> accept u} =
      ?S \<union> {c. map_of (uo_counts undo) edit_id = Some c \<and> accept (uo_timestamp undo)}"
    unfolding new using fresh by auto (metis option.distinct(1))
  moreover have "Max (insert 0 (insert c ?S)) = max (Max (insert 0 ?S)) c" for c
  proof -
    have "Max (insert 0 (insert c ?S)) = Max (insert c (insert 0 ?S))" by (rule arg_cong [of _ _ Max]) blast
    also have "\<dots> = max c (Max (insert 0 ?S))" by (rule Max_insert) (simp_all add: finite_recorded)
    finally show ?thesis by (simp add: max.commute)
  qed
  moreover have "?S \<union> {d. map_of (uo_counts undo) edit_id = Some d \<and> accept (uo_timestamp undo)} =
      (case map_of (uo_counts undo) edit_id of Some c \<Rightarrow> if accept (uo_timestamp undo) then insert c ?S else ?S | None \<Rightarrow> ?S)"
    by (auto split: option.splits)
  ultimately show ?thesis
    unfolding greatest_count_recorded [OF assms(1)] greatest_count_recorded [OF assms(2)]
    by (cases "map_of (uo_counts undo) edit_id"; cases "accept (uo_timestamp undo)") (simp_all only: option.case if_True if_False)
qed

section \<open>Properties\<close>

text \<open>An undo map with one entry and an undo operation, for the witnesses.\<close>

definition one_undo :: undo_map where
  "one_undo = Leaf (UndoMapKey (Lamport 4 LOCAL) (Lamport 6 LOCAL))
     [undo_entry (Lamport 6 LOCAL) (Lamport 4 LOCAL, 1)] [UndoMapKey (Lamport 4 LOCAL) (Lamport 6 LOCAL)]"

definition some_undo :: "u32 \<Rightarrow> lamport \<Rightarrow> undo_operation" where
  "some_undo c ts = \<lparr>uo_timestamp = ts, uo_version = global_new, uo_counts = [(Lamport 4 LOCAL, c)]\<rparr>"

lemma one_undo_ok: "keyed_tree undo_ops ue_key one_undo" "tree_items one_undo = [undo_entry (Lamport 6 LOCAL) (Lamport 4 LOCAL, 1)]"
  using undo_zero_le by (simp_all add: one_undo_def keyed_tree_def undo_ops_def summary_sum_def undo_entry_def TREE_BASE_def
      STACK_CAPACITY_def keys_sorted_def max_absorb2)

lemma some_undo_ok: "valid_undo (\<lambda>es. es) (some_undo c ts)"
  by (simp add: valid_undo_def some_undo_def valid_sort_def)

text \<open>
  C35. \<open>undo_count\<close> returns the greatest count recorded for the edit, 0 if there is none; \<open>is_undone\<close> is
  its parity, and \<open>was_undone\<close> the parity of the greatest count among the undo operations a version
  has observed. The scan over the tree always ends.
\<close>

theorem undo_count_greatest:
  assumes "keyed_tree undo_ops ue_key m"
  shows "undo_count edit_id m = Some (Max (insert 0 {c. \<exists>u. recorded (tree_items m) (UndoMapKey edit_id u) = Some c}))
    \<and> is_undone edit_id m = Some (odd (unat (Max (insert 0 {c. \<exists>u. recorded (tree_items m) (UndoMapKey edit_id u) = Some c}))))
    \<and> was_undone edit_id version m =
        Some (odd (unat (Max (insert 0 {c. \<exists>u. recorded (tree_items m) (UndoMapKey edit_id u) = Some c \<and> observed version u}))))"
proof -
  have "keys_sorted ue_key (tree_items m)" using assms by (simp add: keyed_tree_def)
  note count = greatest_count_recorded [OF this]
  from undo_counts_correct [OF assms, of edit_id] show ?thesis by (simp add: count)
qed

theorem undo_count_greatest_witness:
  "undo_count (Lamport 4 LOCAL) one_undo = Some 1"
proof -
  have rec: "recorded (tree_items one_undo) (UndoMapKey (Lamport 4 LOCAL) u) = (if u = Lamport 6 LOCAL then Some 1 else None)" for u
    by (simp add: recorded_def one_undo_ok(2) undo_entry_def)
  then have "{c. \<exists>u. recorded (tree_items one_undo) (UndoMapKey (Lamport 4 LOCAL) u) = Some c} = {1}" by auto
  with undo_count_greatest [OF one_undo_ok(1), of "Lamport 4 LOCAL"] show ?thesis by simp
qed

text \<open>
  Inserting an undo operation with a fresh timestamp raises the count of exactly the edits it names to
  at least the count it carries, and leaves the counts of all other edits; the tree stays well formed
  with ascending keys.
\<close>

theorem undo_insert_raises_counts:
  assumes "keyed_tree undo_ops ue_key m" "valid_undo sort_edits undo"
    and "\<forall>e \<in> set (tree_items m). uk_undo_id (ue_key e) \<noteq> uo_timestamp undo"
  shows "\<exists>m'. undo_insert sort_edits undo m = Some m' \<and> wf_tree undo_ops m' \<and> keys_sorted ue_key (tree_items m') \<and>
    (\<forall>edit_id. greatest_count (\<lambda>_. True) edit_id (tree_items m') =
      (case map_of (uo_counts undo) edit_id of
         Some c \<Rightarrow> max (greatest_count (\<lambda>_. True) edit_id (tree_items m)) c
       | None \<Rightarrow> greatest_count (\<lambda>_. True) edit_id (tree_items m)))"
proof -
  obtain m' where m': "undo_insert sort_edits undo m = Some m'" "wf_tree undo_ops m'" "keys_sorted ue_key (tree_items m')"
      "recorded (tree_items m') = recorded (tree_items m) ++ op_counts undo"
    using undo_insert_correct [OF assms(1,2)] by blast
  have fresh: "\<forall>i. recorded (tree_items m) (UndoMapKey i (uo_timestamp undo)) = None"
    using assms(3) by (fastforce simp: recorded_def item_at_None)
  have sorted: "keys_sorted ue_key (tree_items m)" using assms(1) by (simp add: keyed_tree_def)
  from m' greatest_count_insert [OF sorted m'(3,4) fresh, of "\<lambda>_. True"] show ?thesis by (simp split: option.splits)
qed

theorem undo_insert_raises_counts_witness:
  "\<exists>m'. undo_insert (\<lambda>es. es) (some_undo 2 (Lamport 9 LOCAL)) one_undo = Some m' \<and>
    greatest_count (\<lambda>_. True) (Lamport 4 LOCAL) (tree_items m') = 2"
proof -
  have "\<forall>e \<in> set (tree_items one_undo). uk_undo_id (ue_key e) \<noteq> uo_timestamp (some_undo 2 (Lamport 9 LOCAL))"
    by (simp add: one_undo_ok(2) undo_entry_def some_undo_def)
  from undo_insert_raises_counts [OF one_undo_ok(1) some_undo_ok this] show ?thesis
    by (auto simp: some_undo_def one_undo_ok(2) greatest_count_def undo_entry_def max_def)
qed

lemma recorded_eq_items:
  assumes "keys_sorted ue_key xs" "keys_sorted ue_key ys" "recorded xs = recorded ys"
  shows "xs = ys"
proof (rule keys_sorted_eqI [OF assms(1,2)])
  fix k
  have rec: "map_option ue_undo_count (item_at ue_key k xs) = map_option ue_undo_count (item_at ue_key k ys)"
    using fun_cong [OF assms(3), of k] by (simp add: recorded_def)
  show "item_at ue_key k xs = item_at ue_key k ys"
  proof (cases "item_at ue_key k xs")
    case None
    with rec show ?thesis by simp
  next
    case (Some e)
    with rec obtain e' where e': "item_at ue_key k ys = Some e'" "ue_undo_count e = ue_undo_count e'"
      by (cases "item_at ue_key k ys") auto
    moreover have "ue_key e = ue_key e'" using item_at_Some [OF Some] item_at_Some [OF e'(1)] by simp
    ultimately have "e = e'" by simp
    with Some e'(1) show ?thesis by simp
  qed
qed

text \<open>
  C8. Undo operations converge. Inserting either of two operations with different timestamps returns a map; as
  long as the trees stay within the capacity of the cursor's stack, inserting the other one returns too,
  and both orders leave the same entries, so the undo count of every edit, whether it is undone, and whether
  it was undone at a version, are the same. The edits of one operation are distinct (they are the keys of a
  hash map), there are fewer than \<open>2 ^ 64\<close> of them, and the sort of \<open>SumTree::edit\<close> returns a sorted
  permutation.
\<close>

theorem undo_insert_commute:
  assumes "keyed_tree undo_ops ue_key m" "valid_undo sort_edits u1" "valid_undo sort_edits u2" "uo_timestamp u1 \<noteq> uo_timestamp u2"
  shows "\<exists>m1 m2. undo_insert sort_edits u1 m = Some m1 \<and> undo_insert sort_edits u2 m = Some m2 \<and>
    (height m1 < STACK_CAPACITY \<longrightarrow> height m2 < STACK_CAPACITY \<longrightarrow>
      (\<exists>m12 m21. undo_insert sort_edits u2 m1 = Some m12 \<and> undo_insert sort_edits u1 m2 = Some m21 \<and>
        tree_items m12 = tree_items m21 \<and>
        (height m12 < STACK_CAPACITY \<longrightarrow> height m21 < STACK_CAPACITY \<longrightarrow>
          (\<forall>edit_id version. undo_count edit_id m12 = undo_count edit_id m21 \<and> undo_count edit_id m12 \<noteq> None \<and>
            is_undone edit_id m12 = is_undone edit_id m21 \<and> was_undone edit_id version m12 = was_undone edit_id version m21))))"
proof -
  obtain m1 where m1: "undo_insert sort_edits u1 m = Some m1" "wf_tree undo_ops m1" "keys_sorted ue_key (tree_items m1)"
      "recorded (tree_items m1) = recorded (tree_items m) ++ op_counts u1"
    using undo_insert_correct [OF assms(1,2)] by blast
  obtain m2 where m2: "undo_insert sort_edits u2 m = Some m2" "wf_tree undo_ops m2" "keys_sorted ue_key (tree_items m2)"
      "recorded (tree_items m2) = recorded (tree_items m) ++ op_counts u2"
    using undo_insert_correct [OF assms(1,3)] by blast
  have "\<exists>m12 m21. undo_insert sort_edits u2 m1 = Some m12 \<and> undo_insert sort_edits u1 m2 = Some m21 \<and>
        tree_items m12 = tree_items m21 \<and>
        (height m12 < STACK_CAPACITY \<longrightarrow> height m21 < STACK_CAPACITY \<longrightarrow>
          (\<forall>edit_id version. undo_count edit_id m12 = undo_count edit_id m21 \<and> undo_count edit_id m12 \<noteq> None \<and>
            is_undone edit_id m12 = is_undone edit_id m21 \<and> was_undone edit_id version m12 = was_undone edit_id version m21))"
    if h: "height m1 < STACK_CAPACITY" "height m2 < STACK_CAPACITY"
  proof -
    have ok: "keyed_tree undo_ops ue_key m1" "keyed_tree undo_ops ue_key m2" using m1 m2 h by (simp_all add: keyed_tree_def)
    obtain m12 where m12: "undo_insert sort_edits u2 m1 = Some m12" "wf_tree undo_ops m12" "keys_sorted ue_key (tree_items m12)"
        "recorded (tree_items m12) = recorded (tree_items m1) ++ op_counts u2"
      using undo_insert_correct [OF ok(1) assms(3)] by blast
    obtain m21 where m21: "undo_insert sort_edits u1 m2 = Some m21" "wf_tree undo_ops m21" "keys_sorted ue_key (tree_items m21)"
        "recorded (tree_items m21) = recorded (tree_items m2) ++ op_counts u1"
      using undo_insert_correct [OF ok(2) assms(2)] by blast
    have "op_counts u1 ++ op_counts u2 = op_counts u2 ++ op_counts u1"
      using assms(4) by (auto simp: fun_eq_iff map_add_def op_counts_def split: option.splits)
    then have "recorded (tree_items m12) = recorded (tree_items m21)"
      unfolding m12(4) m21(4) m1(4) m2(4) by (metis map_add_assoc)
    with m12(3) m21(3) have items: "tree_items m12 = tree_items m21" by (rule recorded_eq_items)
    moreover have "undo_count edit_id m12 = undo_count edit_id m21 \<and> undo_count edit_id m12 \<noteq> None \<and>
        is_undone edit_id m12 = is_undone edit_id m21 \<and> was_undone edit_id version m12 = was_undone edit_id version m21"
      if "height m12 < STACK_CAPACITY" "height m21 < STACK_CAPACITY" for edit_id version
    proof -
      have "keyed_tree undo_ops ue_key m12" "keyed_tree undo_ops ue_key m21" using m12 m21 that by (simp_all add: keyed_tree_def)
      then show ?thesis by (simp add: undo_counts_correct items)
    qed
    ultimately show ?thesis using m12(1) m21(1) by blast
  qed
  with m1(1) m2(1) show ?thesis by blast
qed

lemma first_undo:
  "undo_insert (\<lambda>es. es) (some_undo 1 (Lamport 9 LOCAL)) (tree_new undo_ops) =
     Some (Leaf (UndoMapKey (Lamport 4 LOCAL) (Lamport 9 LOCAL))
       [undo_entry (Lamport 9 LOCAL) (Lamport 4 LOCAL, 1)] [UndoMapKey (Lamport 4 LOCAL) (Lamport 9 LOCAL)])"
  "undo_insert (\<lambda>es. es) (some_undo 2 (Lamport 7 AGENT)) (tree_new undo_ops) =
     Some (Leaf (UndoMapKey (Lamport 4 LOCAL) (Lamport 7 AGENT))
       [undo_entry (Lamport 7 AGENT) (Lamport 4 LOCAL, 2)] [UndoMapKey (Lamport 4 LOCAL) (Lamport 7 AGENT)])"
  by code_simp+

theorem undo_insert_commute_witness:
  "\<exists>m1 m2 m12 m21. undo_insert (\<lambda>es. es) (some_undo 1 (Lamport 9 LOCAL)) (tree_new undo_ops) = Some m1 \<and>
    undo_insert (\<lambda>es. es) (some_undo 2 (Lamport 7 AGENT)) (tree_new undo_ops) = Some m2 \<and>
    undo_insert (\<lambda>es. es) (some_undo 2 (Lamport 7 AGENT)) m1 = Some m12 \<and>
    undo_insert (\<lambda>es. es) (some_undo 1 (Lamport 9 LOCAL)) m2 = Some m21 \<and> tree_items m12 = tree_items m21"
proof -
  have "keyed_tree undo_ops ue_key (tree_new undo_ops)"
    by (simp add: keyed_tree_def tree_new_def summary_sum_def STACK_CAPACITY_def)
  moreover have "uo_timestamp (some_undo 1 (Lamport 9 LOCAL)) \<noteq> uo_timestamp (some_undo 2 (Lamport 7 AGENT))"
    by (simp add: some_undo_def LOCAL_def AGENT_def)
  ultimately obtain m1 m2 where m: "undo_insert (\<lambda>es. es) (some_undo 1 (Lamport 9 LOCAL)) (tree_new undo_ops) = Some m1"
      "undo_insert (\<lambda>es. es) (some_undo 2 (Lamport 7 AGENT)) (tree_new undo_ops) = Some m2"
      "height m1 < STACK_CAPACITY \<longrightarrow> height m2 < STACK_CAPACITY \<longrightarrow>
        (\<exists>m12 m21. undo_insert (\<lambda>es. es) (some_undo 2 (Lamport 7 AGENT)) m1 = Some m12 \<and>
          undo_insert (\<lambda>es. es) (some_undo 1 (Lamport 9 LOCAL)) m2 = Some m21 \<and> tree_items m12 = tree_items m21)"
    using undo_insert_commute [OF _ some_undo_ok some_undo_ok, of "tree_new undo_ops"] by blast
  moreover have "height m1 < STACK_CAPACITY" "height m2 < STACK_CAPACITY"
    using m(1,2) first_undo by (auto simp: STACK_CAPACITY_def)
  ultimately show ?thesis by blast
qed

end
