(* ===== verification/Locator.thy ===== *)
theory Locator
  imports Tree_Search "HOL-Library.List_Lexorder"
begin

text \<open>
  \<open>crates/text/src/locator.rs\<close>: identifiers of fragments, ordered lexicographically. \<open>between\<close> finds a
  new identifier between two others by walking over their digits, the left one continued with
  \<open>u64::MIN\<close> and the right one with \<open>u64::MAX\<close>.
\<close>

section \<open>Locators\<close>

datatype locator = Locator (digits: "u64 list")

text \<open>The derived order is that of the digit sequences.\<close>

instantiation locator :: linorder
begin

definition less_eq_locator :: "locator \<Rightarrow> locator \<Rightarrow> bool" where
  "less_eq_locator a b \<longleftrightarrow> digits a \<le> digits b"

definition less_locator :: "locator \<Rightarrow> locator \<Rightarrow> bool" where
  "less_locator a b \<longleftrightarrow> digits a < digits b"

instance
  by standard (auto simp: less_eq_locator_def less_locator_def locator.expand)

end

definition locator_min :: locator where
  "locator_min = Locator [0]"

definition locator_max :: locator where
  "locator_max = Locator [- 1]"

text \<open>\<open>assign\<close> resizes the receiver, with zeros where it grows, and copies the digits;
  \<open>copy_from_slice\<close> panics if the lengths differ.\<close>

definition copy_from_slice :: "'a list \<Rightarrow> 'a list \<Rightarrow> 'a list option" where
  "copy_from_slice dst src = (if length dst = length src then Some src else None)"

definition locator_assign :: "locator \<Rightarrow> locator \<Rightarrow> locator option" where
  "locator_assign self other = do {
     ds \<leftarrow> copy_from_slice (resize (digits self) (length (digits other)) 0) (digits other);
     Some (Locator ds)
   }"

definition saturating_sub :: "'a::len word \<Rightarrow> 'a word \<Rightarrow> 'a word" where
  "saturating_sub a b = (if b \<le> a then a - b else 0)"

definition between_mid :: "u64 \<Rightarrow> u64 \<Rightarrow> u64" where
  "between_mid l r = l + drop_bit 48 (saturating_sub r l)"

lemma between_mid_nat:
  "unat (between_mid l r) = unat l + (unat r - unat l) div 2 ^ 48"
proof -
  have d: "unat (drop_bit 48 (saturating_sub r l)) = (unat r - unat l) div 2 ^ 48"
    by (auto simp: saturating_sub_def drop_bit_eq_div unat_div_distrib unat_sub word_le_nat_alt)
  have "(unat r - unat l) div 2 ^ 48 \<le> unat r - unat l" by (rule div_le_dividend)
  moreover have "unat l < 2 ^ LENGTH(64)" "unat r < 2 ^ LENGTH(64)" by (rule unsigned_less)+
  ultimately have "unat l + (unat r - unat l) div 2 ^ 48 < 2 ^ 64" by simp
  with d show ?thesis by (simp add: between_mid_def unat_word_ariths)
qed

lemma mid_zero: "0 < between_mid 0 (- 1)"
  by (simp add: word_less_nat_alt between_mid_nat unsigned_minus_1_eq_mask mask_eq_exp_minus_1)

text \<open>The loop over the digits. It ends at the latest when both sequences are used up, because then the
  digits are 0 and \<open>u64::MAX\<close>.\<close>

definition first_or :: "'a \<Rightarrow> 'a list \<Rightarrow> 'a" where
  "first_or x xs = (case xs of [] \<Rightarrow> x | y # _ \<Rightarrow> y)"

function between_loop :: "u64 list \<Rightarrow> u64 list \<Rightarrow> u64 list" where
  "between_loop ls rs =
     (let l = first_or 0 ls; mid = between_mid l (first_or (- 1) rs)
      in if l < mid then [mid] else mid # between_loop (tl ls) (tl rs))"
  by pat_completeness auto

termination
proof (relation "measure (\<lambda>(ls, rs). length ls + length rs)")
  fix ls rs :: "u64 list" and l mid :: u64
  assume l: "l = first_or 0 ls" and mid: "mid = between_mid l (first_or (- 1) rs)" and le: "\<not> l < mid"
  have "ls \<noteq> [] \<or> rs \<noteq> []"
  proof (rule ccontr)
    assume "\<not> (ls \<noteq> [] \<or> rs \<noteq> [])"
    then have "mid = between_mid 0 (- 1)" "l = 0" using l mid by (simp_all add: first_or_def)
    with mid_zero le show False by simp
  qed
  then show "((tl ls, tl rs), ls, rs) \<in> measure (\<lambda>(ls, rs). length ls + length rs)"
    by (cases ls; cases rs) auto
qed simp

declare between_loop.simps [simp del]

definition locator_between :: "locator \<Rightarrow> locator \<Rightarrow> locator" where
  "locator_between lhs rhs = Locator (between_loop (digits lhs) (digits rhs))"

definition locator_len :: "locator \<Rightarrow> nat" where
  "locator_len l = length (digits l)"

definition locator_is_empty :: "locator \<Rightarrow> bool" where
  "locator_is_empty l \<longleftrightarrow> locator_len l = 0"

definition locator_ops :: "(locator, locator) item_ops" where
  "locator_ops = \<lparr>item_summary = \<lambda>l. l, s_zero = locator_min, s_add = \<lambda>self s. the (locator_assign self s)\<rparr>"

lemma locator_assign_total: "locator_assign self other = Some other"
  by (simp add: locator_assign_def copy_from_slice_def)

interpretation loc: summary_laws locator_ops
  by unfold_locales (simp add: lawful_summary_def locator_ops_def locator_assign_total)

section \<open>The order of new locators\<close>

lemma between_mid_bounds:
  "l \<le> between_mid l r" "l < r \<Longrightarrow> between_mid l r < r" "r \<le> l \<Longrightarrow> between_mid l r = l"
proof -
  show "l \<le> between_mid l r" by (simp add: word_le_nat_alt between_mid_nat)
  show "between_mid l r < r" if "l < r"
  proof -
    from that have d: "0 < unat r - unat l" by (simp add: word_less_nat_alt)
    then have "(unat r - unat l) div 2 ^ 48 < unat r - unat l" by (intro div_less_dividend) simp_all
    then show ?thesis using d by (simp add: word_less_nat_alt between_mid_nat)
  qed
  show "between_mid l r = l" if "r \<le> l"
    using that by (simp add: word_unat_eq_iff between_mid_nat word_le_nat_alt)
qed

text \<open>The result keeps the left digits up to its last digit, which is greater.\<close>

lemma between_greater: "ls < between_loop ls rs"
proof (induction ls rs rule: between_loop.induct)
  case (1 ls rs)
  let ?l = "first_or 0 ls" and ?m = "between_mid (first_or 0 ls) (first_or (- 1) rs)"
  show ?case
  proof (cases "?l < ?m")
    case True
    then show ?thesis by (subst between_loop.simps) (cases ls; simp add: first_or_def Let_def)
  next
    case False
    then have "?m = ?l" using between_mid_bounds(1) [of ?l] by (simp add: order.antisym not_less)
    with False 1 [OF refl refl] show ?thesis by (subst between_loop.simps) (cases ls; simp add: first_or_def Let_def)
  qed
qed

text \<open>The result is below the right locator unless that one only adds zeros to the left one.\<close>

lemma between_less:
  "ls < rs \<Longrightarrow> \<not> (\<exists>n. rs = ls @ replicate n 0) \<Longrightarrow> between_loop ls rs < rs"
proof (induction ls rs rule: between_loop.induct)
  case (1 ls rs)
  let ?l = "first_or 0 ls" and ?m = "between_mid (first_or 0 ls) (first_or (- 1) rs)"
  from "1.prems"(1) obtain r rs' where rs: "rs = r # rs'" by (cases rs) auto
  have lr: "?l \<le> r" using "1.prems"(1) by (cases ls) (auto simp: rs first_or_def)
  show ?case
  proof (cases "?l < r")
    case True
    then have "?m < r" using between_mid_bounds(2) [of ?l r] by (simp add: rs first_or_def)
    then show ?thesis by (subst between_loop.simps) (simp add: rs Let_def)
  next
    case False
    with lr have l: "?l = r" by simp
    then have m: "?m = r" using between_mid_bounds(3) [of r ?l] by (simp add: rs first_or_def)
    have tail: "tl ls < tl rs" "\<not> (\<exists>n. tl rs = tl ls @ replicate n 0)"
    proof -
      show "tl ls < tl rs"
      proof (cases ls)
        case Nil
        with l "1.prems"(2) have "rs' \<noteq> []" by (auto simp: rs first_or_def dest: spec [of _ "Suc 0"])
        with Nil show ?thesis by (cases rs') (simp_all add: rs)
      next
        case (Cons a as)
        with l "1.prems"(1) show ?thesis by (simp add: rs first_or_def)
      qed
      show "\<not> (\<exists>n. tl rs = tl ls @ replicate n 0)"
      proof
        assume "\<exists>n. tl rs = tl ls @ replicate n 0"
        then obtain n where "rs' = tl ls @ replicate n 0" by (auto simp: rs)
        then have "rs = ls @ replicate (if ls = [] then Suc n else n) 0" using l by (cases ls) (auto simp: rs first_or_def)
        with "1.prems"(2) show False by blast
      qed
    qed
    from "1.IH" [OF refl refl _ tail] l m show ?thesis by (subst between_loop.simps) (simp add: rs Let_def)
  qed
qed

text \<open>In the exceptional case the result is above the right locator.\<close>

lemma between_zeros: "between_loop ls (ls @ replicate n 0) = ls @ replicate n 0 @ [2 ^ 16 - 1]"
proof (induction ls)
  case Nil
  have m: "between_mid 0 (- 1) = 2 ^ 16 - 1"
    by (simp add: word_unat_eq_iff between_mid_nat unsigned_minus_1_eq_mask mask_eq_exp_minus_1)
  show ?case
  proof (induction n)
    case 0
    show ?case by (subst between_loop.simps) (simp add: first_or_def m Let_def)
  next
    case (Suc n)
    then show ?case by (subst between_loop.simps) (simp add: first_or_def Let_def between_mid_bounds(3))
  qed
next
  case (Cons l ls)
  then show ?case by (subst between_loop.simps) (simp add: first_or_def Let_def between_mid_bounds(3))
qed

lemma between_length: "length (between_loop ls rs) \<le> Suc (max (length ls) (length rs))"
proof (induction ls rs rule: between_loop.induct)
  case (1 ls rs)
  let ?l = "first_or 0 ls" and ?m = "between_mid (first_or 0 ls) (first_or (- 1) rs)"
  show ?case
  proof (cases "?l < ?m")
    case True
    then show ?thesis by (subst between_loop.simps) (simp add: Let_def)
  next
    case False
    then have "ls \<noteq> [] \<or> rs \<noteq> []" using mid_zero by (auto simp: first_or_def)
    with False 1 [OF refl refl] show ?thesis
      by (subst between_loop.simps) (cases ls; cases rs; simp add: Let_def first_or_def)
  qed
qed

lemma between_last: "between_loop ls rs \<noteq> [] \<and> last (between_loop ls rs) \<noteq> 0"
proof (induction ls rs rule: between_loop.induct)
  case (1 ls rs)
  let ?l = "first_or 0 ls" and ?m = "between_mid (first_or 0 ls) (first_or (- 1) rs)"
  show ?case
  proof (cases "?l < ?m")
    case True
    then show ?thesis by (subst (1 2) between_loop.simps) (auto simp: Let_def)
  next
    case False
    with 1 [OF refl refl] show ?thesis by (subst (1 2) between_loop.simps) (simp add: Let_def)
  qed
qed

text \<open>The locators the program creates: the two ends, and those with a last digit other than 0.\<close>

definition valid_locator :: "locator \<Rightarrow> bool" where
  "valid_locator l \<longleftrightarrow> l = locator_min \<or> (digits l \<noteq> [] \<and> last (digits l) \<noteq> 0)"

lemma valid_not_zeros:
  assumes "valid_locator lhs" "valid_locator rhs" "lhs < rhs"
  shows "\<not> (\<exists>n. digits rhs = digits lhs @ replicate n 0)"
proof
  assume "\<exists>n. digits rhs = digits lhs @ replicate n 0"
  then obtain n where n: "digits rhs = digits lhs @ replicate n 0" by blast
  moreover have "n \<noteq> 0" using n assms(3) by (cases n) (simp_all add: less_locator_def)
  ultimately have "last (digits rhs) = 0" by simp
  with assms(2) have "digits rhs = [0]" by (auto simp: valid_locator_def locator_min_def)
  with n \<open>n \<noteq> 0\<close> have "digits lhs = []" by (cases "digits lhs") auto
  with assms(1) show False by (auto simp: valid_locator_def locator_min_def)
qed

lemma min_less_max: "locator_min < locator_max"
  by (simp add: less_locator_def locator_min_def locator_max_def word_less_nat_alt unsigned_minus_1_eq_mask mask_eq_exp_minus_1)

section \<open>Properties\<close>

text \<open>
  C25. \<open>Locator::between\<close> makes the order of locators dense: the result is above the left locator for any
  arguments, and lies below the right one exactly if the right one is not the left one followed
  by zeros. It has at most one digit more than the longer argument, and the sum that computes a
  digit never overflows.
\<close>

theorem locator_between_dense:
  assumes "lhs < rhs"
  shows "lhs < locator_between lhs rhs
    \<and> (locator_between lhs rhs < rhs \<longleftrightarrow> \<not> (\<exists>n. digits rhs = digits lhs @ replicate n 0))
    \<and> locator_len (locator_between lhs rhs) \<le> Suc (max (locator_len lhs) (locator_len rhs))
    \<and> unat (between_mid l r) = unat l + unat (drop_bit 48 (saturating_sub r l))"
proof (intro conjI)
  show "lhs < locator_between lhs rhs" by (simp add: less_locator_def locator_between_def between_greater)
  have "\<not> (xs @ [y] < xs)" for xs and y :: u64 by (induction xs) simp_all
  then have "\<not> between_loop ls (ls @ replicate n 0) < ls @ replicate n 0" for ls n
    using between_zeros [of ls n] by (metis append_assoc)
  then show "locator_between lhs rhs < rhs \<longleftrightarrow> \<not> (\<exists>n. digits rhs = digits lhs @ replicate n 0)"
    using between_less [of "digits lhs" "digits rhs"] assms by (auto simp: less_locator_def locator_between_def)
  show "locator_len (locator_between lhs rhs) \<le> Suc (max (locator_len lhs) (locator_len rhs))"
    by (simp add: locator_len_def locator_between_def between_length)
  show "unat (between_mid l r) = unat l + unat (drop_bit 48 (saturating_sub r l))"
    by (auto simp: between_mid_nat saturating_sub_def drop_bit_eq_div unat_div_distrib unat_sub word_le_nat_alt)
qed

theorem locator_between_dense_witness:
  "locator_min < locator_between locator_min locator_max \<and> locator_between (Locator [1]) (Locator [1, 0]) > Locator [1, 0]"
proof
  from locator_between_dense [OF min_less_max] show "locator_min < locator_between locator_min locator_max" by blast
  have "Locator [1] < Locator [1, 0]" by (simp add: less_locator_def)
  from locator_between_dense [OF this] have "\<not> locator_between (Locator [1]) (Locator [1, 0]) < Locator [1, 0]"
    by (auto intro!: exI [of _ "Suc 0"])
  moreover have "locator_between (Locator [1]) (Locator [1, 0]) \<noteq> Locator [1, 0]"
    using between_zeros [of "[1]" 1] by (simp add: locator_between_def)
  ultimately show "locator_between (Locator [1]) (Locator [1, 0]) > Locator [1, 0]" by simp
qed

text \<open>
  The locators that \<open>between\<close> creates from the two ends are closed under \<open>between\<close>: every new locator is
  valid again and lies strictly between any two valid ones, so fragments can always be inserted
  between two others.
\<close>

theorem locator_between_valid:
  assumes "valid_locator lhs" "valid_locator rhs" "lhs < rhs"
  shows "lhs < locator_between lhs rhs \<and> locator_between lhs rhs < rhs \<and> valid_locator (locator_between lhs rhs)"
proof (intro conjI)
  show "lhs < locator_between lhs rhs" by (simp add: less_locator_def locator_between_def between_greater)
  show "locator_between lhs rhs < rhs"
    using between_less [of "digits lhs" "digits rhs"] valid_not_zeros [OF assms] assms(3)
    by (simp add: less_locator_def locator_between_def)
  show "valid_locator (locator_between lhs rhs)"
    using between_last by (simp add: valid_locator_def locator_between_def)
qed

theorem locator_between_valid_witness:
  "locator_between locator_min locator_max < locator_max \<and> valid_locator (locator_between locator_min locator_max)"
proof -
  have "valid_locator locator_min" "valid_locator locator_max" by (simp_all add: valid_locator_def locator_max_def)
  from locator_between_valid [OF this min_less_max] show ?thesis by blast
qed

text \<open>Appending in sequence: every locator is created between the previous one and the maximum.\<close>

fun appended :: "nat \<Rightarrow> locator" where
  "appended 0 = locator_min"
| "appended (Suc n) = locator_between (appended n) locator_max"

text \<open>
  Appending in sequence keeps locators at a single digit for at least \<open>2 ^ 47\<close> appends.
\<close>

theorem sequential_appends_depth_one:
  assumes "n \<le> 2 ^ 47"
  shows "locator_len (appended n) = 1"
proof -
  have "\<exists>x. appended n = Locator [x] \<and> unat x \<le> n * (2 ^ 16 - 1)"
    using assms
  proof (induction n)
    case (Suc n)
    then obtain x where x: "appended n = Locator [x]" "unat x \<le> n * (2 ^ 16 - 1)" by auto
    let ?m = "between_mid x (- 1)"
    have m: "unat ?m = unat x + (2 ^ 64 - 1 - unat x) div 2 ^ 48"
      by (simp add: between_mid_nat unsigned_minus_1_eq_mask mask_eq_exp_minus_1)
    have "(2 ^ 64 - 1 - unat x) div 2 ^ 48 \<le> (2 ^ 64 - 1) div 2 ^ 48" by (intro div_le_mono) simp
    then have "unat ?m \<le> Suc n * (2 ^ 16 - 1)" using x(2) m by simp
    moreover have "2 ^ 48 \<le> 2 ^ 64 - 1 - unat x" using x(2) Suc.prems by simp
    then have "0 < (2 ^ 64 - 1 - unat x) div 2 ^ 48" by (simp add: div_greater_zero_iff)
    then have "x < ?m" using m by (simp add: word_less_nat_alt)
    then have "appended (Suc n) = Locator [?m]"
      by (simp add: x(1) locator_between_def locator_max_def) (subst between_loop.simps, simp add: first_or_def Let_def)
    ultimately show ?case by blast
  qed (simp add: locator_min_def)
  then show ?thesis by (auto simp: locator_len_def)
qed

theorem sequential_appends_depth_one_witness: "locator_len (appended 100000) = 1"
  by (rule sequential_appends_depth_one) simp

end
