(* ===== verification/History.thy ===== *)
theory History
  imports Tree_Map Undo_Map
begin

text \<open>
  The undo history of a buffer (\<open>HistoryEntry\<close>, \<open>Transaction\<close>, \<open>History\<close> in \<open>crates/text/src/text.rs\<close>).
  Every method is a function on the history record; \<open>None\<close> is a failed assertion or an unwrap of a
  missing value. A \<open>Vec\<close> used as a stack has its top at the end of the list.

  An \<open>Instant\<close> and a \<open>Duration\<close> are numbers of nanoseconds; the difference of two instants saturates
  at zero, as the subtraction of natural numbers does. The rope of the base text is not used here
  and stays a type parameter.
\<close>

section \<open>Data\<close>

type_synonym instant = nat
type_synonym duration = nat
type_synonym transaction_id = lamport

record edit_operation =
  eo_timestamp :: lamport
  eo_version :: global
  eo_ranges :: "(u64 \<times> u64) list"
  eo_new_text :: "string list"

datatype operation = OpEdit edit_operation | OpUndo undo_operation

fun op_timestamp :: "operation \<Rightarrow> lamport" where
  "op_timestamp (OpEdit edit) = eo_timestamp edit"
| "op_timestamp (OpUndo undo) = uo_timestamp undo"

definition op_replica_id :: "operation \<Rightarrow> replica_id" where
  "op_replica_id op = ts_replica (op_timestamp op)"

fun as_edit :: "operation \<Rightarrow> edit_operation option" where
  "as_edit (OpEdit edit) = Some edit"
| "as_edit _ = None"

definition is_edit :: "operation \<Rightarrow> bool" where
  "is_edit op \<longleftrightarrow> (case op of OpEdit _ \<Rightarrow> True | _ \<Rightarrow> False)"

record transaction =
  tx_id :: transaction_id
  tx_edit_ids :: "lamport list"
  tx_start :: global

definition tx_merge_in :: "transaction \<Rightarrow> transaction \<Rightarrow> transaction" where
  "tx_merge_in self other = self\<lparr>tx_edit_ids := tx_edit_ids self @ tx_edit_ids other\<rparr>"

record history_entry =
  he_transaction :: transaction
  first_edit_at :: instant
  last_edit_at :: instant
  suppress_grouping :: bool

definition transaction_id :: "history_entry \<Rightarrow> transaction_id" where
  "transaction_id e = tx_id (he_transaction e)"

record 'rope history =
  base_text :: 'rope
  operations :: "(lamport, operation) tree_map"
  undo_stack :: "history_entry list"
  redo_stack :: "history_entry list"
  transaction_depth :: nat
  group_interval :: duration

definition history_new :: "'rope \<Rightarrow> 'rope history" where
  "history_new text = \<lparr>base_text = text, operations = tree_new map_ops, undo_stack = [], redo_stack = [],
     transaction_depth = 0, group_interval = 300000000\<rparr>"

section \<open>Operations and transactions\<close>

definition history_push :: "operation \<Rightarrow> 'rope history \<Rightarrow> 'rope history option" where
  "history_push op h = do { ops \<leftarrow> map_insert (op_timestamp op) op (operations h); Some (h\<lparr>operations := ops\<rparr>) }"

definition new_entry :: "transaction \<Rightarrow> instant \<Rightarrow> history_entry" where
  "new_entry tx now = \<lparr>he_transaction = tx, first_edit_at = now, last_edit_at = now, suppress_grouping = False\<rparr>"

definition start_transaction ::
  "global \<Rightarrow> instant \<Rightarrow> lamport \<Rightarrow> 'rope history \<Rightarrow> transaction_id option \<times> lamport \<times> 'rope history" where
  "start_transaction start now clk h =
     (let h = h\<lparr>transaction_depth := transaction_depth h + 1\<rparr> in
      if transaction_depth h = 1 then
        let (tid, clk) = tick clk in
        (Some tid, clk, h\<lparr>undo_stack := undo_stack h @ [new_entry \<lparr>tx_id = tid, tx_edit_ids = [], tx_start = start\<rparr> now]\<rparr>)
      else (None, clk, h))"

definition end_transaction :: "instant \<Rightarrow> 'rope history \<Rightarrow> (history_entry option \<times> 'rope history) option" where
  "end_transaction now h = do {
     rust_assert (transaction_depth h \<noteq> 0);
     let h = h\<lparr>transaction_depth := transaction_depth h - 1\<rparr>;
     if transaction_depth h = 0 then do {
       e \<leftarrow> last_opt (undo_stack h);
       if tx_edit_ids (he_transaction e) = [] then Some (None, h\<lparr>undo_stack := butlast (undo_stack h)\<rparr>)
       else do {
         let e = e\<lparr>last_edit_at := now\<rparr>;
         Some (Some e, h\<lparr>redo_stack := [], undo_stack := butlast (undo_stack h) @ [e]\<rparr>)
       }
     } else Some (None, h)
   }"

text \<open>\<open>group\<close> and \<open>group_until\<close> walk down from the top of the stack and count the entries to merge.\<close>

fun group_count :: "duration \<Rightarrow> history_entry \<Rightarrow> history_entry list \<Rightarrow> nat" where
  "group_count interval e [] = 0"
| "group_count interval e (p # ps) =
     (if \<not> suppress_grouping p \<and> first_edit_at e - last_edit_at p < interval then Suc (group_count interval p ps) else 0)"

fun group_until_count :: "transaction_id \<Rightarrow> history_entry list \<Rightarrow> nat \<Rightarrow> nat option" where
  "group_until_count tid [] n = None"
| "group_until_count tid (e # es) n =
     (if transaction_id e = tid then Some n else if suppress_grouping e then None else group_until_count tid es (n + 1))"

definition merge_entries :: "history_entry \<Rightarrow> history_entry list \<Rightarrow> history_entry" where
  "merge_entries e es =
     (let e = e\<lparr>he_transaction := (he_transaction e)\<lparr>tx_edit_ids :=
        tx_edit_ids (he_transaction e) @ concat (map (\<lambda>x. tx_edit_ids (he_transaction x)) es)\<rparr>\<rparr>
      in case last_opt es of Some l \<Rightarrow> e\<lparr>last_edit_at := last_edit_at l\<rparr> | None \<Rightarrow> e)"

definition group_trailing :: "nat \<Rightarrow> 'rope history \<Rightarrow> (transaction_id option \<times> 'rope history) option" where
  "group_trailing n h = do {
     rust_assert (n \<le> length (undo_stack h));
     let new_len = length (undo_stack h) - n;
     let keep = take new_len (undo_stack h);
     let merge = drop new_len (undo_stack h);
     let keep = (case last_opt keep of Some e \<Rightarrow> butlast keep @ [merge_entries e merge] | None \<Rightarrow> keep);
     Some (map_option transaction_id (last_opt keep), h\<lparr>undo_stack := keep\<rparr>)
   }"

definition group :: "'rope history \<Rightarrow> (transaction_id option \<times> 'rope history) option" where
  "group h = group_trailing
     (case rev (undo_stack h) of [] \<Rightarrow> 0 | e # ps \<Rightarrow> group_count (group_interval h) e ps) h"

definition group_until :: "transaction_id \<Rightarrow> 'rope history \<Rightarrow> 'rope history option" where
  "group_until tid h = (case group_until_count tid (rev (undo_stack h)) 0 of
     Some n \<Rightarrow> do { (_, h') \<leftarrow> group_trailing n h; Some h' }
   | None \<Rightarrow> Some h)"

definition finalize_last_transaction :: "'rope history \<Rightarrow> transaction option \<times> 'rope history" where
  "finalize_last_transaction h = (case last_opt (undo_stack h) of
     Some e \<Rightarrow> (Some (he_transaction e), h\<lparr>undo_stack := butlast (undo_stack h) @ [e\<lparr>suppress_grouping := True\<rparr>]\<rparr>)
   | None \<Rightarrow> (None, h))"

definition push_transaction :: "transaction \<Rightarrow> instant \<Rightarrow> 'rope history \<Rightarrow> 'rope history option" where
  "push_transaction tx now h = do {
     rust_assert (transaction_depth h = 0);
     Some (h\<lparr>undo_stack := undo_stack h @ [new_entry tx now]\<rparr>)
   }"

definition push_empty_transaction ::
  "global \<Rightarrow> instant \<Rightarrow> lamport \<Rightarrow> 'rope history \<Rightarrow> (transaction_id \<times> lamport \<times> 'rope history) option" where
  "push_empty_transaction start now clk h = do {
     rust_assert (transaction_depth h = 0);
     let (tid, clk) = tick clk;
     Some (tid, clk, h\<lparr>undo_stack := undo_stack h @ [new_entry \<lparr>tx_id = tid, tx_edit_ids = [], tx_start = start\<rparr> now]\<rparr>)
   }"

definition push_undo :: "lamport \<Rightarrow> 'rope history \<Rightarrow> 'rope history option" where
  "push_undo op_id h = do {
     rust_assert (transaction_depth h \<noteq> 0);
     case map_get op_id (operations h) of
       Some (OpEdit _) \<Rightarrow> do {
         e \<leftarrow> last_opt (undo_stack h);
         let e = e\<lparr>he_transaction := (he_transaction e)\<lparr>tx_edit_ids := tx_edit_ids (he_transaction e) @ [op_id]\<rparr>\<rparr>;
         Some (h\<lparr>undo_stack := butlast (undo_stack h) @ [e]\<rparr>)
       }
     | _ \<Rightarrow> Some h
   }"

section \<open>Moving between the stacks\<close>

definition pop_undo :: "'rope history \<Rightarrow> (history_entry option \<times> 'rope history) option" where
  "pop_undo h = do {
     rust_assert (transaction_depth h = 0);
     case last_opt (undo_stack h) of
       Some e \<Rightarrow> Some (Some e, h\<lparr>undo_stack := butlast (undo_stack h), redo_stack := redo_stack h @ [e]\<rparr>)
     | None \<Rightarrow> Some (None, h)
   }"

definition pop_redo :: "'rope history \<Rightarrow> (history_entry option \<times> 'rope history) option" where
  "pop_redo h = do {
     rust_assert (transaction_depth h = 0);
     case last_opt (redo_stack h) of
       Some e \<Rightarrow> Some (Some e, h\<lparr>redo_stack := butlast (redo_stack h), undo_stack := undo_stack h @ [e]\<rparr>)
     | None \<Rightarrow> Some (None, h)
   }"

definition remove_from_undo :: "transaction_id \<Rightarrow> 'rope history \<Rightarrow> (history_entry option \<times> 'rope history) option" where
  "remove_from_undo tid h = do {
     rust_assert (transaction_depth h = 0);
     case rposition (\<lambda>e. transaction_id e = tid) (undo_stack h) of
       Some ix \<Rightarrow> Some (Some (undo_stack h ! ix),
         h\<lparr>undo_stack := remove_at ix (undo_stack h), redo_stack := redo_stack h @ [undo_stack h ! ix]\<rparr>)
     | None \<Rightarrow> Some (None, h)
   }"

definition remove_from_undo_until :: "transaction_id \<Rightarrow> 'rope history \<Rightarrow> (history_entry list \<times> 'rope history) option" where
  "remove_from_undo_until tid h = do {
     rust_assert (transaction_depth h = 0);
     let start_len = length (redo_stack h);
     let h = (case rposition (\<lambda>e. transaction_id e = tid) (undo_stack h) of
         Some ix \<Rightarrow> h\<lparr>redo_stack := redo_stack h @ rev (drop ix (undo_stack h)), undo_stack := take ix (undo_stack h)\<rparr>
       | None \<Rightarrow> h);
     Some (drop start_len (redo_stack h), h)
   }"

definition remove_from_redo :: "transaction_id \<Rightarrow> 'rope history \<Rightarrow> (history_entry list \<times> 'rope history) option" where
  "remove_from_redo tid h = do {
     rust_assert (transaction_depth h = 0);
     let start_len = length (undo_stack h);
     let h = (case rposition (\<lambda>e. transaction_id e = tid) (redo_stack h) of
         Some ix \<Rightarrow> h\<lparr>undo_stack := undo_stack h @ rev (drop ix (redo_stack h)), redo_stack := take ix (redo_stack h)\<rparr>
       | None \<Rightarrow> h);
     Some (drop start_len (undo_stack h), h)
   }"

definition forget :: "transaction_id \<Rightarrow> 'rope history \<Rightarrow> (transaction option \<times> 'rope history) option" where
  "forget tid h = do {
     rust_assert (transaction_depth h = 0);
     case rposition (\<lambda>e. transaction_id e = tid) (undo_stack h) of
       Some ix \<Rightarrow> Some (Some (he_transaction (undo_stack h ! ix)), h\<lparr>undo_stack := remove_at ix (undo_stack h)\<rparr>)
     | None \<Rightarrow> (case rposition (\<lambda>e. transaction_id e = tid) (redo_stack h) of
         Some ix \<Rightarrow> Some (Some (he_transaction (redo_stack h ! ix)), h\<lparr>redo_stack := remove_at ix (redo_stack h)\<rparr>)
       | None \<Rightarrow> Some (None, h))
   }"

definition find_transaction :: "transaction_id \<Rightarrow> 'rope history \<Rightarrow> transaction option" where
  "find_transaction tid h = (case List.find (\<lambda>e. transaction_id e = tid) (rev (undo_stack h)) of
     Some e \<Rightarrow> Some (he_transaction e)
   | None \<Rightarrow> map_option he_transaction (List.find (\<lambda>e. transaction_id e = tid) (rev (redo_stack h))))"

text \<open>\<open>transaction_mut\<close> with the change its caller makes through the reference.\<close>

definition entry_map :: "(transaction \<Rightarrow> transaction) \<Rightarrow> history_entry \<Rightarrow> history_entry" where
  "entry_map f e = e\<lparr>he_transaction := f (he_transaction e)\<rparr>"

definition transaction_mut :: "transaction_id \<Rightarrow> (transaction \<Rightarrow> transaction) \<Rightarrow> 'rope history \<Rightarrow> 'rope history" where
  "transaction_mut tid f h = (case rposition (\<lambda>e. transaction_id e = tid) (undo_stack h) of
     Some ix \<Rightarrow> h\<lparr>undo_stack := (undo_stack h)[ix := entry_map f (undo_stack h ! ix)]\<rparr>
   | None \<Rightarrow> (case rposition (\<lambda>e. transaction_id e = tid) (redo_stack h) of
       Some ix \<Rightarrow> h\<lparr>redo_stack := (redo_stack h)[ix := entry_map f (redo_stack h ! ix)]\<rparr>
     | None \<Rightarrow> h))"

definition merge_transactions :: "transaction_id \<Rightarrow> transaction_id \<Rightarrow> 'rope history \<Rightarrow> 'rope history option" where
  "merge_transactions tid destination h = do {
     (tx, h) \<leftarrow> forget tid h;
     case tx of
       Some tx \<Rightarrow> Some (transaction_mut destination (\<lambda>d. d\<lparr>tx_edit_ids := tx_edit_ids d @ tx_edit_ids tx\<rparr>) h)
     | None \<Rightarrow> Some h
   }"

end
