(* ===== verification/History_Props.thy ===== *)
theory History_Props
  imports History
begin

text \<open>
  The history as a state machine: its invariant, what grouping does to the edits, and the round trips
  between the undo and the redo stack.
\<close>

section \<open>Positions and stacks\<close>

lemma rposition_append:
  assumes "p x" "\<forall>y \<in> set ys. \<not> p y"
  shows "rposition p (xs @ x # ys) = Some (length xs)"
proof -
  have "rposition p (xs @ x # ys) \<noteq> None" using assms(1) by (auto simp: rposition_None)
  then obtain i where i: "rposition p (xs @ x # ys) = Some i" by blast
  then have b: "i < length (xs @ x # ys)" "p ((xs @ x # ys) ! i)"
    "\<forall>j. i < j \<longrightarrow> j < length (xs @ x # ys) \<longrightarrow> \<not> p ((xs @ x # ys) ! j)"
    using rposition_Some [OF i] by blast+
  have "\<not> i < length xs" using b(3) assms(1) by (auto dest!: spec [of _ "length xs"])
  moreover have "\<not> length xs < i"
  proof
    assume "length xs < i"
    then have "(xs @ x # ys) ! i \<in> set ys" using b(1) by (auto simp: nth_append nth_Cons')
    with assms(2) b(2) show False by blast
  qed
  ultimately show ?thesis using i by simp
qed

lemma rposition_id:
  "transaction_id e \<notin> transaction_id ` set es \<Longrightarrow> rposition (\<lambda>x. transaction_id x = transaction_id e) (xs @ e # es) = Some (length xs)"
  by (rule rposition_append) (auto simp: image_iff)

section \<open>The state machine\<close>

text \<open>One call of a method of the history; calls that panic have no successor.\<close>

inductive history_step :: "'rope history \<Rightarrow> 'rope history \<Rightarrow> bool" where
  push: "history_push op h = Some h' \<Longrightarrow> history_step h h'"
| start: "start_transaction start now clk h = (r, clk', h') \<Longrightarrow> history_step h h'"
| stop: "end_transaction now h = Some (r, h') \<Longrightarrow> history_step h h'"
| group: "group h = Some (r, h') \<Longrightarrow> history_step h h'"
| group_until: "group_until tid h = Some h' \<Longrightarrow> history_step h h'"
| finalize: "finalize_last_transaction h = (r, h') \<Longrightarrow> history_step h h'"
| push_transaction: "push_transaction tx now h = Some h' \<Longrightarrow> history_step h h'"
| push_empty: "push_empty_transaction start now clk h = Some (tid, clk', h') \<Longrightarrow> history_step h h'"
| push_undo: "push_undo op_id h = Some h' \<Longrightarrow> history_step h h'"
| pop_undo: "pop_undo h = Some (r, h') \<Longrightarrow> history_step h h'"
| pop_redo: "pop_redo h = Some (r, h') \<Longrightarrow> history_step h h'"
| remove_undo: "remove_from_undo tid h = Some (r, h') \<Longrightarrow> history_step h h'"
| remove_undo_until: "remove_from_undo_until tid h = Some (es, h') \<Longrightarrow> history_step h h'"
| remove_redo: "remove_from_redo tid h = Some (es, h') \<Longrightarrow> history_step h h'"
| forget: "forget tid h = Some (t, h') \<Longrightarrow> history_step h h'"
| merge: "merge_transactions tid destination h = Some h' \<Longrightarrow> history_step h h'"

inductive history_reachable :: "'rope history \<Rightarrow> bool" where
  init: "history_reachable (history_new text)"
| step: "history_reachable h \<Longrightarrow> history_step h h' \<Longrightarrow> history_reachable h'"

text \<open>An open transaction has an entry on the undo stack.\<close>

definition history_ok :: "'rope history \<Rightarrow> bool" where
  "history_ok h \<longleftrightarrow> (transaction_depth h \<noteq> 0 \<longrightarrow> undo_stack h \<noteq> [])"

lemma group_count_less: "group_count interval e ps \<le> length ps"
  by (induction ps arbitrary: e) simp_all

lemma group_until_count_less: "group_until_count tid es n = Some m \<Longrightarrow> n \<le> m \<and> m < n + length es"
  by (induction es arbitrary: n) (fastforce split: if_splits)+

lemma merge_entries_id: "transaction_id (merge_entries e es) = transaction_id e"
  by (simp add: merge_entries_def transaction_id_def Let_def split: option.splits)

lemma group_trailing_split:
  assumes "undo_stack h = pre @ e # post"
  shows "group_trailing (length post) h = Some (Some (transaction_id e), h\<lparr>undo_stack := pre @ [merge_entries e post]\<rparr>)"
  using assms by (simp add: group_trailing_def merge_entries_id)

lemma stack_split:
  assumes "n < length xs"
  obtains pre e post where "xs = pre @ e # post" "length post = n"
proof
  show "xs = take (length xs - Suc n) xs @ xs ! (length xs - Suc n) # drop (Suc (length xs - Suc n)) xs"
    using assms by (intro id_take_nth_drop) simp
  show "length (drop (Suc (length xs - Suc n)) xs) = n" using assms by simp
qed

lemma group_trailing_total:
  assumes "n < length (undo_stack h)"
  shows "\<exists>tid h'. group_trailing n h = Some (Some tid, h') \<and> undo_stack h' \<noteq> [] \<and> transaction_depth h' = transaction_depth h"
proof -
  obtain pre e post where st: "undo_stack h = pre @ e # post" and n: "length post = n" using stack_split [OF assms] by metis
  from group_trailing_split [OF st] show ?thesis unfolding n by auto
qed

definition group_amount :: "'rope history \<Rightarrow> nat" where
  "group_amount h = (case rev (undo_stack h) of [] \<Rightarrow> 0 | e # ps \<Rightarrow> group_count (group_interval h) e ps)"

lemma group_alt: "group h = group_trailing (group_amount h) h"
  by (simp add: group_def group_amount_def)

lemma group_amount_less: "undo_stack h \<noteq> [] \<Longrightarrow> group_amount h < length (undo_stack h)"
proof -
  assume "undo_stack h \<noteq> []"
  then obtain es e where st: "undo_stack h = es @ [e]" by (cases "undo_stack h" rule: rev_cases) auto
  then show ?thesis using group_count_less [of "group_interval h" e "rev es"] by (simp add: group_amount_def)
qed

lemma group_empty: "undo_stack h = [] \<Longrightarrow> group h = Some (None, h\<lparr>undo_stack := []\<rparr>)"
  by (simp add: group_def group_trailing_def)

lemma history_ok_group:
  assumes "history_ok h"
  shows "group h = Some (r, h') \<Longrightarrow> history_ok h'" "group_until tid h = Some h' \<Longrightarrow> history_ok h'"
proof -
  show "history_ok h'" if "group h = Some (r, h')"
  proof (cases "undo_stack h = []")
    case True
    with assms that show ?thesis by (auto simp: group_empty history_ok_def)
  next
    case False
    from group_trailing_total [OF group_amount_less [OF this]] that show ?thesis by (auto simp: group_alt history_ok_def)
  qed
  show "history_ok h'" if "group_until tid h = Some h'"
  proof (cases "group_until_count tid (rev (undo_stack h)) 0")
    case None
    with that assms show ?thesis by (simp add: group_until_def)
  next
    case (Some n)
    with group_until_count_less [OF Some] group_trailing_total [of n h] that show ?thesis
      by (auto simp: group_until_def history_ok_def)
  qed
qed

text \<open>The methods that require that no transaction is open leave none open.\<close>

lemma closed_methods:
  "push_transaction tx now h = Some h' \<Longrightarrow> transaction_depth h' = 0"
  "push_empty_transaction start now clk h = Some (tid, clk', h') \<Longrightarrow> transaction_depth h' = 0"
  "pop_undo h = Some (r, h') \<Longrightarrow> transaction_depth h' = 0"
  "pop_redo h = Some (r, h') \<Longrightarrow> transaction_depth h' = 0"
  "remove_from_undo tid h = Some (r, h') \<Longrightarrow> transaction_depth h' = 0"
  "remove_from_undo_until tid h = Some (es, h') \<Longrightarrow> transaction_depth h' = 0"
  "remove_from_redo tid h = Some (es, h') \<Longrightarrow> transaction_depth h' = 0"
  "forget tid h = Some (t, h') \<Longrightarrow> transaction_depth h' = 0"
  by (auto simp: push_transaction_def push_empty_transaction_def pop_undo_def pop_redo_def remove_from_undo_def
      remove_from_undo_until_def remove_from_redo_def forget_def Let_def split_def split: Option.bind_splits option.splits)

lemma transaction_mut_depth: "transaction_depth (transaction_mut tid f h) = transaction_depth h"
  by (simp add: transaction_mut_def split: option.splits)

lemma merge_closed: "merge_transactions tid destination h = Some h' \<Longrightarrow> transaction_depth h' = 0"
  by (auto simp: merge_transactions_def transaction_mut_depth closed_methods(8) split: Option.bind_splits option.splits)

lemma history_ok_step: "history_step h h' \<Longrightarrow> history_ok h \<Longrightarrow> history_ok h'"
proof (induction rule: history_step.induct)
  case (push op h h')
  then show ?case by (auto simp: history_ok_def history_push_def split: Option.bind_splits)
next
  case (start start now clk h r clk' h')
  then show ?case by (auto simp: history_ok_def start_transaction_def Let_def split_def split: if_splits)
next
  case (stop now h r h')
  then show ?case by (auto simp: history_ok_def end_transaction_def Let_def split: if_splits Option.bind_splits)
next
  case (group h r h')
  then show ?case using history_ok_group(1) by blast
next
  case (group_until tid h h')
  then show ?case using history_ok_group(2) by blast
next
  case (finalize h r h')
  then show ?case by (auto simp: history_ok_def finalize_last_transaction_def split: option.splits)
next
  case (push_undo op_id h h')
  then show ?case by (auto simp: history_ok_def push_undo_def Let_def split: Option.bind_splits option.splits operation.splits)
qed (auto simp: history_ok_def dest: closed_methods merge_closed)

lemma history_reachable_ok: "history_reachable h \<Longrightarrow> history_ok h"
proof (induction rule: history_reachable.induct)
  case (init t)
  show ?case by (simp add: history_ok_def history_new_def)
next
  case (step h h')
  then show ?case using history_ok_step by blast
qed

section \<open>Grouping\<close>

text \<open>Entry \<open>i\<close> of a stack is close enough to its successor to be merged with it.\<close>

definition chained :: "duration \<Rightarrow> history_entry list \<Rightarrow> nat \<Rightarrow> bool" where
  "chained interval st i \<longleftrightarrow> \<not> suppress_grouping (st ! i) \<and> first_edit_at (st ! Suc i) - last_edit_at (st ! i) < interval"

lemma group_count_chain:
  assumes "n = group_count interval e (rev es)"
  shows "\<forall>i. length es - n \<le> i \<longrightarrow> i < length es \<longrightarrow> chained interval (es @ [e]) i"
    and "n < length es \<Longrightarrow> \<not> chained interval (es @ [e]) (length es - Suc n)"
proof -
  have "(\<forall>i. length es - n \<le> i \<longrightarrow> i < length es \<longrightarrow> chained interval (es @ [e]) i) \<and>
      (n < length es \<longrightarrow> \<not> chained interval (es @ [e]) (length es - Suc n))"
    using assms
  proof (induction es arbitrary: e n rule: rev_induct)
    case (snoc p ps)
    have shift: "chained interval ((ps @ [p]) @ [e]) i = chained interval (ps @ [p]) i" if "i < length ps" for i
      using that by (simp add: chained_def nth_append)
    have top: "chained interval ((ps @ [p]) @ [e]) (length ps) \<longleftrightarrow>
        \<not> suppress_grouping p \<and> first_edit_at e - last_edit_at p < interval"
      by (simp add: chained_def nth_append)
    show ?case
    proof (cases "\<not> suppress_grouping p \<and> first_edit_at e - last_edit_at p < interval")
      case True
      define m where "m = group_count interval p (rev ps)"
      have n: "n = Suc m" using snoc.prems True by (simp add: m_def)
      have m: "m \<le> length ps" using group_count_less [of interval p "rev ps"] by (simp add: m_def)
      note IH = snoc.IH [OF m_def]
      have "chained interval ((ps @ [p]) @ [e]) i" if "length ps - m \<le> i" "i < Suc (length ps)" for i
        using that IH True top shift by (cases "i = length ps") auto
      moreover have "\<not> chained interval ((ps @ [p]) @ [e]) (length ps - Suc m)" if "m < length ps"
        using that IH shift [of "length ps - Suc m"] by simp
      ultimately show ?thesis using n by simp
    next
      case False
      then have "n = 0" using snoc.prems by simp
      with False top show ?thesis by simp
    qed
  qed simp
  then show "\<forall>i. length es - n \<le> i \<longrightarrow> i < length es \<longrightarrow> chained interval (es @ [e]) i"
    and "n < length es \<Longrightarrow> \<not> chained interval (es @ [e]) (length es - Suc n)" by blast+
qed

definition stack_edits :: "history_entry list \<Rightarrow> lamport list" where
  "stack_edits st = concat (map (\<lambda>e. tx_edit_ids (he_transaction e)) st)"

lemma stack_edits_simps [simp]:
  "stack_edits [] = []" "stack_edits (e # es) = tx_edit_ids (he_transaction e) @ stack_edits es"
  "stack_edits (es @ fs) = stack_edits es @ stack_edits fs"
  by (simp_all add: stack_edits_def)

lemma merge_entries_edits: "tx_edit_ids (he_transaction (merge_entries e es)) = tx_edit_ids (he_transaction e) @ stack_edits es"
  by (simp add: merge_entries_def stack_edits_def Let_def split: option.splits)

section \<open>Calls inside a transaction\<close>

text \<open>
  The calls a client can make while a transaction is open, apart from the grouping of finished entries: nested
  transactions, recording operations and edits, and finalizing the last transaction. Every other method
  panics then. \<open>tx_run\<close> makes a sequence of them during which the transaction stays open; \<open>tx_edits\<close> lists the edits
  it records in order and \<open>tx_nesting\<close> counts the nested transactions it leaves open.
\<close>

datatype tx_call = StartNested global instant lamport | EndNested instant | PushOperation operation
  | PushUndo lamport | FinalizeLast

fun tx_call_run :: "tx_call \<Rightarrow> 'rope history \<Rightarrow> 'rope history option" where
  "tx_call_run (StartNested start now clk) h = Some (snd (snd (start_transaction start now clk h)))"
| "tx_call_run (EndNested now) h = map_option snd (end_transaction now h)"
| "tx_call_run (PushOperation op) h = history_push op h"
| "tx_call_run (PushUndo op_id) h = push_undo op_id h"
| "tx_call_run FinalizeLast h = Some (snd (finalize_last_transaction h))"

fun tx_run :: "tx_call list \<Rightarrow> 'rope history \<Rightarrow> 'rope history option" where
  "tx_run [] h = Some h"
| "tx_run (c # cs) h = do { h \<leftarrow> tx_call_run c h; rust_assert (transaction_depth h \<noteq> 0); tx_run cs h }"

fun tx_edits :: "tx_call list \<Rightarrow> 'rope history \<Rightarrow> lamport list" where
  "tx_edits [] h = []"
| "tx_edits (c # cs) h =
     (case c of PushUndo op_id \<Rightarrow> (case map_get op_id (operations h) of Some (OpEdit _) \<Rightarrow> [op_id] | _ \<Rightarrow> []) | _ \<Rightarrow> []) @
     (case tx_call_run c h of Some h' \<Rightarrow> tx_edits cs h' | None \<Rightarrow> [])"

fun tx_nesting :: "tx_call list \<Rightarrow> int" where
  "tx_nesting [] = 0"
| "tx_nesting (c # cs) = (case c of StartNested _ _ _ \<Rightarrow> 1 | EndNested _ \<Rightarrow> - 1 | _ \<Rightarrow> 0) + tx_nesting cs"

text \<open>The entry of the open transaction is on top of the stacks it was opened on.\<close>

definition open_on_top :: "history_entry list \<Rightarrow> history_entry list \<Rightarrow> transaction \<Rightarrow> instant \<Rightarrow> 'rope history \<Rightarrow> bool" where
  "open_on_top us rs tx now h \<longleftrightarrow> (\<exists>e. undo_stack h = us @ [e] \<and> he_transaction e = tx \<and> first_edit_at e = now) \<and>
     redo_stack h = rs \<and> transaction_depth h \<noteq> 0"

lemma tx_call_on_top:
  assumes "open_on_top us rs tx now h" "tx_call_run c h = Some h'" "transaction_depth h' \<noteq> 0"
  shows "open_on_top us rs (tx\<lparr>tx_edit_ids := tx_edit_ids tx @ tx_edits [c] h\<rparr>) now h'"
    "int (transaction_depth h') = int (transaction_depth h) + tx_nesting [c]"
  using assms
  by (cases c; auto simp: open_on_top_def start_transaction_def end_transaction_def history_push_def push_undo_def
      finalize_last_transaction_def Let_def split_def split: if_splits Option.bind_splits option.splits operation.splits)+

lemma tx_run_on_top:
  "open_on_top us rs tx now h \<Longrightarrow> tx_run cs h = Some h' \<Longrightarrow>
    open_on_top us rs (tx\<lparr>tx_edit_ids := tx_edit_ids tx @ tx_edits cs h\<rparr>) now h' \<and>
    int (transaction_depth h') = int (transaction_depth h) + tx_nesting cs"
proof (induction cs arbitrary: tx h)
  case (Cons c cs)
  obtain h1 where h1: "tx_call_run c h = Some h1" "transaction_depth h1 \<noteq> 0" "tx_run cs h1 = Some h'"
    using Cons.prems(2) by (auto split: Option.bind_splits)
  note on = tx_call_on_top [OF Cons.prems(1) h1(1,2)]
  from Cons.IH [OF on(1) h1(3)] on(2) h1(1) show ?case by simp
qed simp

lemma start_on_top:
  assumes "transaction_depth h = 0" "start_transaction start now clk h = (r, clk', h1)"
  shows "r = Some (fst (tick clk)) \<and> clk' = snd (tick clk) \<and> transaction_depth h1 = 1 \<and>
    open_on_top (undo_stack h) (redo_stack h) \<lparr>tx_id = fst (tick clk), tx_edit_ids = [], tx_start = start\<rparr> now h1"
  using assms by (auto simp: start_transaction_def open_on_top_def new_entry_def Let_def split_def)

lemma transaction_effect:
  assumes "open_on_top us rs \<lparr>tx_id = tid, tx_edit_ids = ids, tx_start = start\<rparr> now h" "transaction_depth h = 1"
  shows "\<exists>e h'. end_transaction t h = Some (e, h') \<and> transaction_depth h' = 0 \<and> (
      if ids = [] then e = None \<and> undo_stack h' = us \<and> redo_stack h' = rs
      else redo_stack h' = [] \<and> (\<exists>f. e = Some f \<and> undo_stack h' = us @ [f] \<and>
        he_transaction f = \<lparr>tx_id = tid, tx_edit_ids = ids, tx_start = start\<rparr> \<and> first_edit_at f = now \<and> last_edit_at f = t))"
proof -
  obtain e where "undo_stack h = us @ [e]" "he_transaction e = \<lparr>tx_id = tid, tx_edit_ids = ids, tx_start = start\<rparr>"
      "first_edit_at e = now" "redo_stack h = rs"
    using assms(1) by (auto simp: open_on_top_def)
  then show ?thesis using assms(2) by (cases "ids = []") (simp_all add: end_transaction_def Let_def)
qed

section \<open>Merging transactions\<close>

definition entries :: "'rope history \<Rightarrow> history_entry list" where
  "entries h = undo_stack h @ redo_stack h"

abbreviation distinct_ids :: "'rope history \<Rightarrow> bool" where
  "distinct_ids h \<equiv> distinct (map transaction_id (entries h))"

lemma same_id: "distinct (map transaction_id es) \<Longrightarrow> e \<in> set es \<Longrightarrow> f \<in> set es \<Longrightarrow> transaction_id e = transaction_id f \<Longrightarrow> e = f"
  by (simp add: distinct_map inj_on_def)

lemma find_mem: "List.find P xs = Some x \<Longrightarrow> x \<in> set xs \<and> P x"
  by (auto simp: find_Some_iff)

lemma find_transaction_iff:
  assumes "distinct_ids h"
  shows "find_transaction tid h = Some tx \<longleftrightarrow> (\<exists>e \<in> set (entries h). transaction_id e = tid \<and> he_transaction e = tx)"
    and "find_transaction tid h = None \<longleftrightarrow> tid \<notin> transaction_id ` set (entries h)"
proof -
  have none: "find_transaction tid h = None \<longleftrightarrow> tid \<notin> transaction_id ` set (entries h)"
    by (auto simp: find_transaction_def entries_def find_None_iff dest!: find_mem split: option.splits)
  have some: "\<exists>e \<in> set (entries h). transaction_id e = tid \<and> he_transaction e = x" if "find_transaction tid h = Some x" for x
    using that by (auto simp: find_transaction_def entries_def dest!: find_mem split: option.splits)
  show "find_transaction tid h = Some tx \<longleftrightarrow> (\<exists>e \<in> set (entries h). transaction_id e = tid \<and> he_transaction e = tx)"
  proof
    assume "\<exists>e \<in> set (entries h). transaction_id e = tid \<and> he_transaction e = tx"
    then obtain e where e: "e \<in> set (entries h)" "transaction_id e = tid" "he_transaction e = tx" by blast
    then have "find_transaction tid h \<noteq> None" using none by blast
    then obtain x f where "find_transaction tid h = Some x" "f \<in> set (entries h)" "transaction_id f = tid" "he_transaction f = x"
      using some by blast
    with same_id [OF assms e(1) this(2)] e show "find_transaction tid h = Some tx" by simp
  qed (rule some)
  from none show "find_transaction tid h = None \<longleftrightarrow> tid \<notin> transaction_id ` set (entries h)" .
qed

lemma forget_entry:
  assumes "transaction_depth h = 0" "distinct_ids h" "f \<in> set (entries h)" "transaction_id f = tid"
  shows "\<exists>h'. forget tid h = Some (Some (he_transaction f), h') \<and> distinct_ids h' \<and> set (entries h') = set (entries h) - {f} \<and>
    map transaction_id (undo_stack h') = remove1 tid (map transaction_id (undo_stack h)) \<and>
    map transaction_id (redo_stack h') = remove1 tid (map transaction_id (redo_stack h))"
proof (cases "f \<in> set (undo_stack h)")
  case True
  then obtain p q where st: "undo_stack h = p @ f # q" by (auto dest: split_list)
  let ?h = "h\<lparr>undo_stack := p @ q\<rparr>"
  have id: "tid \<notin> transaction_id ` set p" "tid \<notin> transaction_id ` set q" "tid \<notin> transaction_id ` set (redo_stack h)"
    using assms(2,4) st by (auto simp: entries_def)
  have "forget tid h = Some (Some (he_transaction f), ?h)"
    using assms(1,4) st id(2) rposition_id [of f q p] by (simp add: forget_def remove_at_def)
  moreover have "set (entries ?h) = set (entries h) - {f}" "distinct_ids ?h" using id assms(2,4) st by (auto simp: entries_def)
  moreover have "remove1 tid (map transaction_id (undo_stack h)) = map transaction_id (p @ q)"
    "remove1 tid (map transaction_id (redo_stack h)) = map transaction_id (redo_stack h)"
    using id assms(4) st by (simp_all add: remove1_append remove1_idem)
  ultimately show ?thesis by (intro exI [of _ ?h]) simp
next
  case False
  then obtain p q where st: "redo_stack h = p @ f # q" using assms(3) by (auto simp: entries_def dest: split_list)
  let ?h = "h\<lparr>redo_stack := p @ q\<rparr>"
  have id: "tid \<notin> transaction_id ` set p" "tid \<notin> transaction_id ` set q" "tid \<notin> transaction_id ` set (undo_stack h)"
    using assms(2,4) st by (auto simp: entries_def)
  have "rposition (\<lambda>e. transaction_id e = tid) (undo_stack h) = None" using id(3) by (auto simp: rposition_None)
  then have "forget tid h = Some (Some (he_transaction f), ?h)"
    using assms(1,4) st id(2) rposition_id [of f q p] by (simp add: forget_def remove_at_def)
  moreover have "set (entries ?h) = set (entries h) - {f}" "distinct_ids ?h" using id assms(2,4) st by (auto simp: entries_def)
  moreover have "remove1 tid (map transaction_id (redo_stack h)) = map transaction_id (p @ q)"
    "remove1 tid (map transaction_id (undo_stack h)) = map transaction_id (undo_stack h)"
    using id assms(4) st by (simp_all add: remove1_append remove1_idem)
  ultimately show ?thesis by (intro exI [of _ ?h]) simp
qed

lemma transaction_mut_entry:
  assumes "distinct_ids h" "e \<in> set (entries h)" "transaction_id e = tid" "\<And>t. tx_id (g t) = tx_id t" "h' = transaction_mut tid g h"
  shows "distinct_ids h' \<and> set (entries h') = insert (entry_map g e) (set (entries h) - {e}) \<and>
    map transaction_id (undo_stack h') = map transaction_id (undo_stack h) \<and>
    map transaction_id (redo_stack h') = map transaction_id (redo_stack h)"
proof -
  have keep: "transaction_id (entry_map g e) = tid" using assms(3,4) by (simp add: entry_map_def transaction_id_def)
  show ?thesis
  proof (cases "e \<in> set (undo_stack h)")
    case True
    then obtain p q where st: "undo_stack h = p @ e # q" by (auto dest: split_list)
    have id: "tid \<notin> transaction_id ` set p" "tid \<notin> transaction_id ` set q" "tid \<notin> transaction_id ` set (redo_stack h)"
      using assms(1,3) st by (auto simp: entries_def)
    have "h' = h\<lparr>undo_stack := p @ entry_map g e # q\<rparr>"
      using assms(3,5) st id(2) rposition_id [of e q p] by (simp add: transaction_mut_def)
    moreover have "e \<notin> set p \<union> set q \<union> set (redo_stack h)" using id assms(3) by blast
    ultimately show ?thesis using id keep assms(1,3) st by (auto simp: entries_def)
  next
    case False
    then obtain p q where st: "redo_stack h = p @ e # q" using assms(2) by (auto simp: entries_def dest: split_list)
    have id: "tid \<notin> transaction_id ` set p" "tid \<notin> transaction_id ` set q" "tid \<notin> transaction_id ` set (undo_stack h)"
      using assms(1,3) st by (auto simp: entries_def)
    have "rposition (\<lambda>e. transaction_id e = tid) (undo_stack h) = None" using id(3) by (auto simp: rposition_None)
    then have "h' = h\<lparr>redo_stack := p @ entry_map g e # q\<rparr>"
      using assms(3,5) st id(2) rposition_id [of e q p] by (simp add: transaction_mut_def)
    moreover have "e \<notin> set p \<union> set q \<union> set (undo_stack h)" using id assms(3) by blast
    ultimately show ?thesis using id keep assms(1,3) st by (auto simp: entries_def)
  qed
qed

lemma transaction_mut_missing: "tid \<notin> transaction_id ` set (entries h) \<Longrightarrow> transaction_mut tid g h = h"
  by (auto simp: transaction_mut_def entries_def rposition_None split: option.splits dest!: rposition_Some)


lemma find_transaction_same:
  assumes "distinct_ids h" "distinct_ids h'" "\<And>e. transaction_id e = tid \<Longrightarrow> e \<in> set (entries h') \<longleftrightarrow> e \<in> set (entries h)"
  shows "find_transaction tid h' = find_transaction tid h"
proof -
  have "(\<exists>e \<in> set (entries h'). transaction_id e = tid \<and> he_transaction e = x) \<longleftrightarrow>
      (\<exists>e \<in> set (entries h). transaction_id e = tid \<and> he_transaction e = x)" for x
    using assms(3) by blast
  then have "find_transaction tid h' = Some x \<longleftrightarrow> find_transaction tid h = Some x" for x
    unfolding find_transaction_iff(1) [OF assms(1)] find_transaction_iff(1) [OF assms(2)] .
  then show ?thesis by (metis option.exhaust)
qed

section \<open>Properties\<close>



text \<open>
  C36. Grouping after a transaction merges exactly the maximal run of entries at the top of the undo stack
  in which every entry allows grouping and ended less than the interval before the next one began.
  The merged entry keeps the identifier of the first one and the edits of all in order, so no edit
  is lost or reordered.
\<close>

theorem history_group_merges_run:
  assumes "undo_stack h \<noteq> []" "st = undo_stack h"
  shows "\<exists>pre e post h'. st = pre @ e # post \<and> group h = Some (Some (transaction_id e), h') \<and>
    undo_stack h' = pre @ [merge_entries e post] \<and> stack_edits (undo_stack h') = stack_edits st \<and>
    (\<forall>i. length pre \<le> i \<longrightarrow> Suc i < length st \<longrightarrow> chained (group_interval h) st i) \<and>
    (pre \<noteq> [] \<longrightarrow> \<not> chained (group_interval h) st (length pre - 1))"
proof -
  obtain pre e post where split: "undo_stack h = pre @ e # post" and post: "length post = group_amount h"
    using stack_split [OF group_amount_less [OF assms(1)]] by metis
  obtain es top where top: "undo_stack h = es @ [top]" using assms(1) by (cases "undo_stack h" rule: rev_cases) auto
  then have n: "length post = group_count (group_interval h) top (rev es)" using post by (simp add: group_amount_def)
  have len: "length es = length pre + length post" using split top by (metis add_Suc_right length_Cons length_append length_append_singleton nat.inject)
  note chain = group_count_chain [OF n]
  have "\<forall>i. length pre \<le> i \<longrightarrow> Suc i < length st \<longrightarrow> chained (group_interval h) st i"
    using chain(1) len top assms(2) by simp
  moreover have "pre \<noteq> [] \<longrightarrow> \<not> chained (group_interval h) st (length pre - 1)"
    using chain(2) len top assms(2) by simp
  ultimately show ?thesis
    using group_trailing_split [OF split] split assms(2) unfolding group_alt post [symmetric]
    by (intro exI [of _ pre] exI [of _ e] exI [of _ post] exI [of _ "h\<lparr>undo_stack := pre @ [merge_entries e post]\<rparr>"])
      (simp add: merge_entries_edits)
qed

theorem history_group_merges_run_witness:
  "\<exists>h'. group ((history_new ())\<lparr>undo_stack :=
      [new_entry \<lparr>tx_id = Lamport 1 LOCAL, tx_edit_ids = [Lamport 2 LOCAL], tx_start = global_new\<rparr> 10,
       new_entry \<lparr>tx_id = Lamport 3 LOCAL, tx_edit_ids = [Lamport 4 LOCAL], tx_start = global_new\<rparr> 20]\<rparr>) =
    Some (Some (Lamport 1 LOCAL), h') \<and> stack_edits (undo_stack h') = [Lamport 2 LOCAL, Lamport 4 LOCAL]"
proof -
  let ?a = "new_entry \<lparr>tx_id = Lamport 1 LOCAL, tx_edit_ids = [Lamport 2 LOCAL], tx_start = global_new\<rparr> 10"
  let ?b = "new_entry \<lparr>tx_id = Lamport 3 LOCAL, tx_edit_ids = [Lamport 4 LOCAL], tx_start = global_new\<rparr> 20"
  let ?h = "(history_new ())\<lparr>undo_stack := [?a, ?b]\<rparr>"
  have "undo_stack ?h \<noteq> []" by simp
  from history_group_merges_run [OF this refl] obtain pre e post h' where g: "undo_stack ?h = pre @ e # post"
      "group ?h = Some (Some (transaction_id e), h')" "stack_edits (undo_stack h') = stack_edits (undo_stack ?h)"
      "pre \<noteq> [] \<longrightarrow> \<not> chained (group_interval ?h) (undo_stack ?h) (length pre - 1)" by blast
  have "chained (group_interval ?h) (undo_stack ?h) 0" by (simp add: chained_def history_new_def new_entry_def)
  then have "length pre \<noteq> 1" using g(4) by fastforce
  then have "pre = []" using g(1) by (auto simp: Cons_eq_append_conv)
  with g show ?thesis by (auto simp: new_entry_def transaction_id_def)
qed

text \<open>
  C28. Undoing and redoing are inverse on the stacks. \<open>pop_redo\<close> takes back \<open>pop_undo\<close> and the other way
  around, and undoing down to a transaction is taken back by redoing up to the one that was on
  top of the undo stack, if the transactions moved have distinct identifiers.
\<close>

theorem history_undo_redo_roundtrip:
  assumes "transaction_depth h = 0"
  shows "(\<forall>e h'. pop_undo h = Some (Some e, h') \<longrightarrow> pop_redo h' = Some (Some e, h))
    \<and> (\<forall>e h'. pop_redo h = Some (Some e, h') \<longrightarrow> pop_undo h' = Some (Some e, h))
    \<and> (\<forall>pre e es. undo_stack h = pre @ e # es \<longrightarrow> distinct (map transaction_id (e # es)) \<longrightarrow>
        (\<exists>h'. remove_from_undo_until (transaction_id e) h = Some (rev (e # es), h') \<and>
           remove_from_redo (transaction_id (last (e # es))) h' = Some (e # es, h)))"
proof (intro conjI allI impI)
  show "pop_redo h' = Some (Some e, h)" if "pop_undo h = Some (Some e, h')" for e h'
    using that assms by (auto simp: pop_undo_def pop_redo_def last_opt_def split: if_splits)
  show "pop_undo h' = Some (Some e, h)" if "pop_redo h = Some (Some e, h')" for e h'
    using that assms by (auto simp: pop_undo_def pop_redo_def last_opt_def split: if_splits)
next
  fix pre e es
  assume st: "undo_stack h = pre @ e # es" and d: "distinct (map transaction_id (e # es))"
  obtain fs f where fs: "e # es = fs @ [f]" by (cases "e # es" rule: rev_cases) auto
  let ?h = "h\<lparr>redo_stack := redo_stack h @ rev (e # es), undo_stack := pre\<rparr>"
  have "rposition (\<lambda>x. transaction_id x = transaction_id e) (pre @ e # es) = Some (length pre)"
    using d by (intro rposition_id) simp
  then have undo: "remove_from_undo_until (transaction_id e) h = Some (rev (e # es), ?h)"
    using assms st by (simp add: remove_from_undo_until_def)
  have "distinct (map transaction_id (fs @ [f]))" using d fs by metis
  then have "rposition (\<lambda>x. transaction_id x = transaction_id f) (redo_stack h @ f # rev fs) = Some (length (redo_stack h))"
    by (intro rposition_id) simp
  then have "remove_from_redo (transaction_id f) ?h = Some (fs @ [f], h)"
    using assms st unfolding fs by (simp add: remove_from_redo_def)
  with undo fs show "\<exists>h'. remove_from_undo_until (transaction_id e) h = Some (rev (e # es), h') \<and>
      remove_from_redo (transaction_id (last (e # es))) h' = Some (e # es, h)" by (metis last_snoc)
qed

theorem history_undo_redo_roundtrip_witness:
  "\<exists>h'. pop_undo ((history_new ())\<lparr>undo_stack := [new_entry \<lparr>tx_id = Lamport 1 LOCAL, tx_edit_ids = [], tx_start = global_new\<rparr> 10]\<rparr>) =
      Some (Some (new_entry \<lparr>tx_id = Lamport 1 LOCAL, tx_edit_ids = [], tx_start = global_new\<rparr> 10), h') \<and>
    (\<exists>h''. pop_redo h' = Some (Some (new_entry \<lparr>tx_id = Lamport 1 LOCAL, tx_edit_ids = [], tx_start = global_new\<rparr> 10), h''))"
proof -
  let ?e = "new_entry \<lparr>tx_id = Lamport 1 LOCAL, tx_edit_ids = [], tx_start = global_new\<rparr> 10"
  let ?h = "(history_new ())\<lparr>undo_stack := [?e]\<rparr>"
  have d: "transaction_depth ?h = 0" by (simp add: history_new_def)
  then obtain h' where "pop_undo ?h = Some (Some ?e, h')" by (simp add: pop_undo_def)
  with history_undo_redo_roundtrip [OF d] show ?thesis by blast
qed

text \<open>
  C37. \<open>merge_transactions\<close>, wherever the two transactions are on the undo and the redo stack and in whatever order, if the
  identifiers on the stacks are distinct and no transaction is open: the transaction is removed, the edits of it are added to the end of
  the edits of the destination, and every other transaction and the order of the entries stay as they were. If the
  destination does not exist, or is the transaction itself, this is the same as forgetting the transaction: its
  edits can no longer be undone.
\<close>

theorem history_merge_transactions:
  assumes "transaction_depth h = 0" "distinct (map transaction_id (undo_stack h @ redo_stack h))"
    and "find_transaction tid h = Some tx"
  shows "\<exists>h'. merge_transactions tid destination h = Some h' \<and> find_transaction tid h' = None \<and>
      (\<forall>x. x \<noteq> tid \<longrightarrow> find_transaction x h' = (if x = destination
        then map_option (\<lambda>d. d\<lparr>tx_edit_ids := tx_edit_ids d @ tx_edit_ids tx\<rparr>) (find_transaction x h) else find_transaction x h)) \<and>
      map transaction_id (undo_stack h') = remove1 tid (map transaction_id (undo_stack h)) \<and>
      map transaction_id (redo_stack h') = remove1 tid (map transaction_id (redo_stack h))"
proof -
  have d: "distinct_ids h" using assms(2) by (simp add: entries_def)
  obtain f where f: "f \<in> set (entries h)" "transaction_id f = tid" "he_transaction f = tx" using assms(3) find_transaction_iff [OF d] by blast
  obtain h1 where h1: "forget tid h = Some (Some tx, h1)" "distinct_ids h1" "set (entries h1) = set (entries h) - {f}"
    "map transaction_id (undo_stack h1) = remove1 tid (map transaction_id (undo_stack h))"
    "map transaction_id (redo_stack h1) = remove1 tid (map transaction_id (redo_stack h))"
    using forget_entry [OF assms(1) d f(1,2)] f(3) by blast
  have other: "e \<in> set (entries h1) \<longleftrightarrow> e \<in> set (entries h)" if "transaction_id e \<noteq> tid" for e using that f(2) h1(3) by auto
  have gone: "tid \<notin> transaction_id ` set (entries h1)" using h1(3) same_id [OF d f(1)] f(2) by auto
  let ?g = "\<lambda>d. d\<lparr>tx_edit_ids := tx_edit_ids d @ tx_edit_ids tx\<rparr>"
  let ?h = "transaction_mut destination ?g h1"
  have m: "merge_transactions tid destination h = Some ?h" using h1(1) by (simp add: merge_transactions_def)
  show ?thesis
  proof (cases "destination \<in> transaction_id ` set (entries h1)")
    case False
    then have "?h = h1" by (rule transaction_mut_missing)
    moreover have "find_transaction destination h = None" if "destination \<noteq> tid" using False that other by (auto simp: find_transaction_iff(2) [OF d])
    moreover have "find_transaction x h1 = find_transaction x h" if "x \<noteq> tid" for x
      using that other by (intro find_transaction_same [OF d h1(2)]) blast
    ultimately show ?thesis using m h1 gone find_transaction_iff(2) [OF h1(2)] by auto
  next
    case True
    then obtain e where e: "e \<in> set (entries h1)" "transaction_id e = destination" by blast
    have ne: "destination \<noteq> tid" using True gone by blast
    have mt: "distinct_ids ?h" "set (entries ?h) = insert (entry_map ?g e) (set (entries h1) - {e})"
      "map transaction_id (undo_stack ?h) = map transaction_id (undo_stack h1)"
      "map transaction_id (redo_stack ?h) = map transaction_id (redo_stack h1)"
      using transaction_mut_entry [OF h1(2) e _ refl, of ?g] by simp_all
    have k: "transaction_id (entry_map ?g e) = destination" "he_transaction (entry_map ?g e) = ?g (he_transaction e)"
      using e(2) by (simp_all add: entry_map_def transaction_id_def)
    have "find_transaction destination h = Some (he_transaction e)" using e other [of e] ne find_transaction_iff(1) [OF d] by auto
    moreover have "find_transaction destination ?h = Some (?g (he_transaction e))" using mt(2) k find_transaction_iff(1) [OF mt(1)] by auto
    moreover have "find_transaction tid ?h = None" using mt(2) gone ne k(1) find_transaction_iff(2) [OF mt(1)] by auto
    moreover have "find_transaction x ?h = find_transaction x h" if "x \<noteq> tid" "x \<noteq> destination" for x
      using that other k(1) e(2) mt(2) by (intro find_transaction_same [OF d mt(1)]) auto
    ultimately show ?thesis using m mt(3,4) h1(4,5) by auto
  qed
qed

theorem history_merge_transactions_witness:
  "\<exists>h'. merge_transactions (Lamport 3 LOCAL) (Lamport 1 LOCAL) ((history_new ())\<lparr>undo_stack :=
      [new_entry \<lparr>tx_id = Lamport 3 LOCAL, tx_edit_ids = [Lamport 4 LOCAL], tx_start = global_new\<rparr> 20], redo_stack :=
      [new_entry \<lparr>tx_id = Lamport 1 LOCAL, tx_edit_ids = [Lamport 2 LOCAL], tx_start = global_new\<rparr> 10]\<rparr>) = Some h' \<and>
    find_transaction (Lamport 3 LOCAL) h' = None \<and>
    find_transaction (Lamport 1 LOCAL) h' = Some \<lparr>tx_id = Lamport 1 LOCAL, tx_edit_ids = [Lamport 2 LOCAL, Lamport 4 LOCAL], tx_start = global_new\<rparr>"
proof -
  let ?a = "new_entry \<lparr>tx_id = Lamport 1 LOCAL, tx_edit_ids = [Lamport 2 LOCAL], tx_start = global_new\<rparr> 10"
  let ?b = "new_entry \<lparr>tx_id = Lamport 3 LOCAL, tx_edit_ids = [Lamport 4 LOCAL], tx_start = global_new\<rparr> 20"
  let ?h = "(history_new ())\<lparr>undo_stack := [?b], redo_stack := [?a]\<rparr>"
  have h: "transaction_depth ?h = 0" "distinct (map transaction_id (undo_stack ?h @ redo_stack ?h))"
    "find_transaction (Lamport 3 LOCAL) ?h = Some (he_transaction ?b)" "find_transaction (Lamport 1 LOCAL) ?h = Some (he_transaction ?a)"
    by (simp_all add: history_new_def transaction_id_def new_entry_def find_transaction_def)
  obtain h' where h': "merge_transactions (Lamport 3 LOCAL) (Lamport 1 LOCAL) ?h = Some h'" "find_transaction (Lamport 3 LOCAL) h' = None"
      "\<forall>x. x \<noteq> Lamport 3 LOCAL \<longrightarrow> find_transaction x h' = (if x = Lamport 1 LOCAL
        then map_option (\<lambda>d. d\<lparr>tx_edit_ids := tx_edit_ids d @ tx_edit_ids (he_transaction ?b)\<rparr>) (find_transaction x ?h) else find_transaction x ?h)"
    using history_merge_transactions [OF h(1-3), of "Lamport 1 LOCAL"] by blast
  have "find_transaction (Lamport 1 LOCAL) h' = Some \<lparr>tx_id = Lamport 1 LOCAL, tx_edit_ids = [Lamport 2 LOCAL, Lamport 4 LOCAL], tx_start = global_new\<rparr>"
    using spec [OF h'(3), of "Lamport 1 LOCAL"] h(4) by (simp add: new_entry_def)
  with h'(1,2) show ?thesis by blast
qed

end
