(* ===== verification/Patch.thy ===== *)
theory Patch
  imports Prelude
begin

text \<open>
  \<open>crates/text/src/patch.rs\<close>, \<open>Edit\<close> of \<open>text.rs\<close> and \<open>subscription.rs\<close>. A patch is a sequence of edits,
  each replacing a range of an old text by a range of a new one. Positions are natural numbers
  (\<open>usize\<close>); a subtraction that would underflow is a panic.
\<close>

section \<open>Edits\<close>

record 'd range =
  r_start :: 'd
  r_end :: 'd

abbreviation range :: "'d \<Rightarrow> 'd \<Rightarrow> 'd range" where
  "range s e \<equiv> \<lparr>r_start = s, r_end = e\<rparr>"

record 'd text_edit =
  old :: "'d range"
  new :: "'d range"

abbreviation edit :: "'d range \<Rightarrow> 'd range \<Rightarrow> 'd text_edit" where
  "edit o' n \<equiv> \<lparr>old = o', new = n\<rparr>"

definition edit_is_empty :: "'d text_edit \<Rightarrow> bool" where
  "edit_is_empty e \<longleftrightarrow> r_start (old e) = r_end (old e) \<and> r_start (new e) = r_end (new e)"

definition usize_sub :: "nat \<Rightarrow> nat \<Rightarrow> nat option" where
  "usize_sub a b = (if b \<le> a then Some (a - b) else None)"

definition old_len :: "nat text_edit \<Rightarrow> nat option" where
  "old_len e = usize_sub (r_end (old e)) (r_start (old e))"

definition new_len :: "nat text_edit \<Rightarrow> nat option" where
  "new_len e = usize_sub (r_end (new e)) (r_start (new e))"

definition edit_flatten :: "('a \<times> 'b) text_edit \<Rightarrow> 'a text_edit \<times> 'b text_edit" where
  "edit_flatten e =
     (edit (range (fst (r_start (old e))) (fst (r_end (old e)))) (range (fst (r_start (new e))) (fst (r_end (new e)))),
      edit (range (snd (r_start (old e))) (snd (r_end (old e)))) (range (snd (r_start (new e))) (snd (r_end (new e)))))"

section \<open>Patches\<close>

type_synonym 'd patch = "'d text_edit list"

text \<open>The debug assertions of \<open>Patch::new\<close>.\<close>

fun separated :: "'d::linorder patch \<Rightarrow> bool" where
  "separated (e # f # es) \<longleftrightarrow> r_end (old e) < r_start (old f) \<and> r_end (new e) < r_start (new f) \<and> separated (f # es)"
| "separated _ \<longleftrightarrow> True"

definition patch_new :: "'d::linorder patch \<Rightarrow> 'd patch option" where
  "patch_new es = do { rust_assert (separated es); Some es }"

definition patch_invert :: "'d patch \<Rightarrow> 'd patch" where
  "patch_invert p = map (\<lambda>e. edit (new e) (old e)) p"

definition patch_clear :: "'d patch \<Rightarrow> 'd patch" where
  "patch_clear p = []"

definition patch_is_empty :: "'d patch \<Rightarrow> bool" where
  "patch_is_empty p \<longleftrightarrow> p = []"

definition push_maybe_empty :: "'d::linorder text_edit \<Rightarrow> 'd patch \<Rightarrow> 'd patch" where
  "push_maybe_empty e p = (case last_opt p of
     Some l \<Rightarrow>
       if r_start (old e) \<le> r_end (old l)
       then butlast p @ [edit (range (r_start (old l)) (r_end (old e))) (range (r_start (new l)) (r_end (new e)))]
       else p @ [e]
   | None \<Rightarrow> p @ [e])"

definition patch_push :: "'d::linorder text_edit \<Rightarrow> 'd patch \<Rightarrow> 'd patch" where
  "patch_push e p = (if edit_is_empty e then p else push_maybe_empty e p)"

section \<open>Composition\<close>

text \<open>The state of the loop: what is left of the two patches, the positions reached in the oldest and the
  newest text, and the patch composed so far.\<close>

record compose_state =
  olds :: "nat patch"
  news :: "nat patch"
  old_start :: nat
  new_start :: nat
  composed :: "nat patch"

text \<open>Pushing an edit that starts at the current positions and moving them to its end.\<close>

definition emit :: "nat \<Rightarrow> nat \<Rightarrow> compose_state \<Rightarrow> compose_state" where
  "emit old_end new_end st = st\<lparr>composed := patch_push (edit (range (old_start st) old_end) (range (new_start st) new_end)) (composed st),
     old_start := old_end, new_start := new_end\<rparr>"

definition catch_up :: "nat \<Rightarrow> compose_state \<Rightarrow> compose_state" where
  "catch_up n st = st\<lparr>old_start := old_start st + n, new_start := new_start st + n\<rparr>"

definition push_old :: "nat text_edit \<Rightarrow> compose_state \<Rightarrow> compose_state option" where
  "push_old o' st = do {
     catchup \<leftarrow> usize_sub (r_start (old o')) (old_start st);
     let st = catch_up catchup st;
     ol \<leftarrow> old_len o';
     nl \<leftarrow> new_len o';
     Some ((emit (old_start st + ol) (new_start st + nl) st)\<lparr>olds := tl (olds st)\<rparr>)
   }"

definition push_new :: "nat text_edit \<Rightarrow> compose_state \<Rightarrow> compose_state option" where
  "push_new n st = do {
     catchup \<leftarrow> usize_sub (r_start (new n)) (new_start st);
     let st = catch_up catchup st;
     ol \<leftarrow> old_len n;
     nl \<leftarrow> new_len n;
     Some ((emit (old_start st + ol) (new_start st + nl) st)\<lparr>news := tl (news st)\<rparr>)
   }"

text \<open>Two edits that intersect: first bring both to the same start, then push the one that ends first.\<close>

definition align_edits ::
  "nat text_edit \<Rightarrow> nat text_edit \<Rightarrow> compose_state \<Rightarrow> (nat text_edit \<times> nat text_edit \<times> compose_state) option" where
  "align_edits o' n st =
     (if r_start (new o') < r_start (old n) then do {
        catchup \<leftarrow> usize_sub (r_start (old o')) (old_start st);
        let st = catch_up catchup st;
        overshoot \<leftarrow> usize_sub (r_start (old n)) (r_start (new o'));
        let old_end = min (old_start st + overshoot) (r_end (old o'));
        let new_end = new_start st + overshoot;
        Some (edit (range old_end (r_end (old o'))) (range (r_start (new o') + overshoot) (r_end (new o'))), n,
          emit old_end new_end st)
      } else do {
        catchup \<leftarrow> usize_sub (r_start (new n)) (new_start st);
        let st = catch_up catchup st;
        overshoot \<leftarrow> usize_sub (r_start (new o')) (r_start (old n));
        let old_end = old_start st + overshoot;
        let new_end = min (new_start st + overshoot) (r_end (new n));
        Some (o', edit (range (r_start (old n) + overshoot) (r_end (old n))) (range new_end (r_end (new n))),
          emit old_end new_end st)
      })"

definition push_overlap :: "nat text_edit \<Rightarrow> nat text_edit \<Rightarrow> compose_state \<Rightarrow> compose_state option" where
  "push_overlap o' n st =
     (if r_end (old n) < r_end (new o') then do {
        ol \<leftarrow> old_len o';
        nol \<leftarrow> old_len n;
        nl \<leftarrow> new_len n;
        let old_end = old_start st + min ol nol;
        let new_end = new_start st + nl;
        Some ((emit old_end new_end st)\<lparr>
          olds := edit (range old_end (r_end (old o'))) (range (r_end (old n)) (r_end (new o'))) # tl (olds st),
          news := tl (news st)\<rparr>)
      } else do {
        ol \<leftarrow> old_len o';
        onl \<leftarrow> new_len o';
        nl \<leftarrow> new_len n;
        let old_end = old_start st + ol;
        let new_end = new_start st + min onl nl;
        Some ((emit old_end new_end st)\<lparr>
          news := edit (range (r_end (new o')) (r_end (old n))) (range new_end (r_end (new n))) # tl (news st),
          olds := tl (olds st)\<rparr>)
      })"

text \<open>One iteration; \<open>Inl\<close> is the end of the loop.\<close>

definition compose_step :: "compose_state \<Rightarrow> (nat patch + compose_state) option" where
  "compose_step st = (case (olds st, news st) of
     (o' # _, []) \<Rightarrow> map_option Inr (push_old o' st)
   | ([], n # _) \<Rightarrow> map_option Inr (push_new n st)
   | (o' # _, n # _) \<Rightarrow>
       if r_end (new o') < r_start (old n) then map_option Inr (push_old o' st)
       else if r_end (old n) < r_start (new o') then map_option Inr (push_new n st)
       else do {
         (o1, n1, st1) \<leftarrow> align_edits o' n st;
         st2 \<leftarrow> push_overlap o1 n1 st1;
         Some (Inr st2)
       }
   | ([], []) \<Rightarrow> Some (Inl (composed st)))"

partial_function (option) compose_loop :: "compose_state \<Rightarrow> nat patch option" where
  "compose_loop st = do {
     r \<leftarrow> compose_step st;
     case r of Inl p \<Rightarrow> Some p | Inr st' \<Rightarrow> compose_loop st'
   }"

definition patch_compose :: "nat patch \<Rightarrow> nat patch \<Rightarrow> nat patch option" where
  "patch_compose p q = compose_loop \<lparr>olds = p, news = q, old_start = 0, new_start = 0, composed = []\<rparr>"

section \<open>Translating positions\<close>

text \<open>\<open>binary_search_by\<close> over the starts of the edits. On ascending starts its result is determined: the
  index with that start, or the number of smaller ones.\<close>

datatype search_result = Found nat | Insert_at nat

definition search_old_start :: "'d::linorder \<Rightarrow> 'd patch \<Rightarrow> search_result" where
  "search_old_start pos p =
     (let n = length (takeWhile (\<lambda>e. r_start (old e) < pos) p) in
      if n < length p \<and> r_start (old (p ! n)) = pos then Found n else Insert_at n)"

definition old_to_new :: "nat patch \<Rightarrow> nat \<Rightarrow> nat" where
  "old_to_new p pos =
     (let at = (\<lambda>ix. case index_opt p ix of
          Some e \<Rightarrow> if r_end (old e) \<le> pos then r_end (new e) + (pos - r_end (old e)) else r_start (new e)
        | None \<Rightarrow> pos)
      in case search_old_start pos p of Found ix \<Rightarrow> at ix | Insert_at ix \<Rightarrow> if ix = 0 then pos else at (ix - 1))"

definition edit_for_old_position :: "nat patch \<Rightarrow> nat \<Rightarrow> nat text_edit" where
  "edit_for_old_position p pos =
     (let at = (\<lambda>ix. case index_opt p ix of
          Some e \<Rightarrow>
            if r_end (old e) < pos then
              (let translated = r_end (new e) + (pos - r_end (old e)) in edit (range pos pos) (range translated translated))
            else e
        | None \<Rightarrow> edit (range pos pos) (range pos pos))
      in case search_old_start pos p of
        Found ix \<Rightarrow> at ix
      | Insert_at ix \<Rightarrow> if ix = 0 then edit (range pos pos) (range pos pos) else at (ix - 1))"

section \<open>Subscriptions\<close>

text \<open>A topic holds weak references to the patches of its subscriptions; the store gives the patch of every
  subscription that has not been dropped.\<close>

record topic =
  subscriptions :: "nat list"
  patches :: "nat \<Rightarrow> nat patch option"

definition subscribe :: "nat \<Rightarrow> topic \<Rightarrow> topic" where
  "subscribe fresh t = t\<lparr>patches := (patches t)(fresh \<mapsto> []), subscriptions := subscriptions t @ [fresh]\<rparr>"

fun publish_all :: "nat patch \<Rightarrow> nat list \<Rightarrow> (nat \<Rightarrow> nat patch option) \<Rightarrow> (nat list \<times> (nat \<Rightarrow> nat patch option)) option" where
  "publish_all edits [] store = Some ([], store)"
| "publish_all edits (s # ss) store = (case store s of
     Some patch \<Rightarrow> do {
       patch' \<leftarrow> patch_compose patch edits;
       (ss', store') \<leftarrow> publish_all edits ss (store(s \<mapsto> patch'));
       Some (s # ss', store')
     }
   | None \<Rightarrow> publish_all edits ss store)"

definition publish :: "nat patch \<Rightarrow> topic \<Rightarrow> topic option" where
  "publish edits t = do {
     (ss, store) \<leftarrow> publish_all edits (subscriptions t) (patches t);
     Some (t\<lparr>subscriptions := ss, patches := store\<rparr>)
   }"

definition consume :: "nat \<Rightarrow> topic \<Rightarrow> (nat patch \<times> topic) option" where
  "consume s t = (case patches t s of
     Some patch \<Rightarrow> Some (patch, t\<lparr>patches := (patches t)(s \<mapsto> [])\<rparr>)
   | None \<Rightarrow> None)"

end
