(* ===== verification/Patch_Props.thy ===== *)
theory Patch_Props
  imports Patch
begin

text \<open>
  What a patch means: it relates an old text to a new one if the texts agree outside the edits.
  Composition is composition of these relations, inversion is their converse.
\<close>

section \<open>Patches as relations between texts\<close>

text \<open>The patch relates what follows position \<open>i\<close> of the old text to what follows position \<open>j\<close> of the new
  one.\<close>

fun patch_rel :: "nat \<Rightarrow> nat \<Rightarrow> nat patch \<Rightarrow> 'c list \<Rightarrow> 'c list \<Rightarrow> bool" where
  "patch_rel i j [] a b \<longleftrightarrow> a = b"
| "patch_rel i j (e # es) a b \<longleftrightarrow>
     i \<le> r_start (old e) \<and> r_start (old e) \<le> r_end (old e) \<and> r_end (old e) \<le> i + length a \<and>
     j \<le> r_start (new e) \<and> r_start (new e) \<le> r_end (new e) \<and> r_end (new e) \<le> j + length b \<and>
     r_start (old e) - i = r_start (new e) - j \<and>
     take (r_start (old e) - i) a = take (r_start (new e) - j) b \<and>
     patch_rel (r_end (old e)) (r_end (new e)) es (drop (r_end (old e) - i) a) (drop (r_end (new e) - j) b)"

text \<open>The same with the pieces of the texts made explicit.\<close>

definition edit_at :: "nat \<Rightarrow> nat \<Rightarrow> nat \<Rightarrow> nat \<Rightarrow> nat text_edit \<Rightarrow> bool" where
  "edit_at i k j l e \<longleftrightarrow> old e = range i (i + k) \<and> new e = range j (j + l)"

lemma edit_at_simps:
  assumes "edit_at i k j l e"
  shows "r_start (old e) = i" "r_end (old e) = i + k" "r_start (new e) = j" "r_end (new e) = j + l"
    "old_len e = Some k" "new_len e = Some l"
  using assms by (auto simp: edit_at_def old_len_def new_len_def usize_sub_def)

lemma edit_atI: "i' = i + k \<Longrightarrow> j' = j + l \<Longrightarrow> edit_at i k j l (edit (range i i') (range j j'))"
  by (simp add: edit_at_def)

lemma patch_rel_ConsI:
  assumes "edit_at (i + length u) (length x) (j + length u) (length y) e"
    and "patch_rel (i + length u + length x) (j + length u + length y) es a b"
  shows "patch_rel i j (e # es) (u @ x @ a) (u @ y @ b)"
  using assms by (simp add: edit_at_simps [OF assms(1)])

lemma patch_rel_ConsE:
  assumes "patch_rel i j (e # es) a b"
  obtains u x y a' b' where "a = u @ x @ a'" "b = u @ y @ b'"
    "edit_at (i + length u) (length x) (j + length u) (length y) e"
    "patch_rel (i + length u + length x) (j + length u + length y) es a' b'"
proof -
  define k where "k = r_start (old e) - i"
  define m where "m = r_end (old e) - r_start (old e)"
  define n where "n = r_end (new e) - r_start (new e)"
  have p: "r_start (old e) = i + k" "r_start (new e) = j + k" "r_end (old e) = i + k + m" "r_end (new e) = j + k + n"
      "k + m \<le> length a" "k + n \<le> length b" "take k a = take k b"
    using assms by (auto simp: k_def m_def n_def)
  have "patch_rel (r_end (old e)) (r_end (new e)) es (drop (r_end (old e) - i) a) (drop (r_end (new e) - j) b)" using assms by simp
  then have rest: "patch_rel (i + k + m) (j + k + n) es (drop (k + m) a) (drop (k + n) b)" by (simp add: p(3,4))
  have pieces: "xs = take k xs @ take l (drop k xs) @ drop (k + l) xs" for xs :: "'b list" and l
    by (metis add.commute append_take_drop_id drop_drop)
  show ?thesis
  proof (rule that)
    show "a = take k a @ take m (drop k a) @ drop (k + m) a" by (rule pieces)
    show "b = take k a @ take n (drop k b) @ drop (k + n) b" unfolding p(7) by (rule pieces)
    show "edit_at (i + length (take k a)) (length (take m (drop k a))) (j + length (take k a)) (length (take n (drop k b))) e"
      using p(1-6) by (simp add: edit_at_def)
    show "patch_rel (i + length (take k a) + length (take m (drop k a))) (j + length (take k a) + length (take n (drop k b))) es
        (drop (k + m) a) (drop (k + n) b)"
      using p(5,6) rest by simp
  qed
qed

lemma patch_rel_invert: "patch_rel i j p a b \<Longrightarrow> patch_rel j i (patch_invert p) b a"
  by (induction p arbitrary: i j a b) (auto simp: patch_invert_def)

lemma patch_invert_invert [simp]: "patch_invert (patch_invert p) = p" for p :: "'d patch"
proof -
  have "edit (old e) (new e) = e" for e :: "'d text_edit" by (cases e) simp
  then show ?thesis unfolding patch_invert_def map_map comp_def by (intro map_idI) simp
qed

declare patch_rel.simps(2) [simp del]

text \<open>A common prefix before the first edit can be split off.\<close>

lemma patch_rel_skip:
  assumes "patch_rel i j es (w @ a) b" "es = [] \<or> i + length w \<le> r_start (old (hd es))"
  obtains b' where "b = w @ b'" "patch_rel (i + length w) (j + length w) es a b'"
proof (cases es)
  case Nil
  with assms(1) that [of a] show ?thesis by simp
next
  case (Cons e es')
  obtain u x y a' b' where r: "w @ a = u @ x @ a'" "b = u @ y @ b'"
      "edit_at (i + length u) (length x) (j + length u) (length y) e"
      "patch_rel (i + length u + length x) (j + length u + length y) es' a' b'"
    using assms(1) [unfolded Cons] by (rule patch_rel_ConsE)
  have "length w \<le> length u" using assms(2) Cons edit_at_simps(1) [OF r(3)] by simp
  with r(1) obtain v where v: "u = w @ v" "a = v @ x @ a'" by (auto simp: append_eq_append_conv2)
  have "patch_rel (i + length w) (j + length w) (e # es') (v @ x @ a') (v @ y @ b')"
    using r(3,4) v(1) by (intro patch_rel_ConsI) (simp_all add: add.assoc)
  with that [of "v @ y @ b'"] r(2) v Cons show ?thesis by simp
qed

lemma patch_rel_append: "patch_rel i j es a b \<Longrightarrow> patch_rel i j es (a @ w) (b @ w)"
proof (induction es arbitrary: i j a b)
  case (Cons e es)
  obtain u x y a' b' where r: "a = u @ x @ a'" "b = u @ y @ b'"
      "edit_at (i + length u) (length x) (j + length u) (length y) e"
      "patch_rel (i + length u + length x) (j + length u + length y) es a' b'"
    using Cons.prems by (rule patch_rel_ConsE)
  from Cons.IH [OF r(4)] r(3) have "patch_rel i j (e # es) (u @ x @ (a' @ w)) (u @ y @ (b' @ w))" by (intro patch_rel_ConsI)
  with r show ?case by simp
qed simp

text \<open>Pushing an edit at the end, which merges it with a last edit that it touches.\<close>

lemma push_maybe_empty_Cons:
  "es \<noteq> [] \<Longrightarrow> push_maybe_empty e (f # es) = f # push_maybe_empty e es"
  by (simp add: push_maybe_empty_def last_opt_def)

lemma patch_rel_push_maybe_empty:
  assumes "patch_rel i j es a b" "edit_at (i + length a) (length x) (j + length b) (length y) e"
  shows "patch_rel i j (push_maybe_empty e es) (a @ x) (b @ y)"
  using assms
proof (induction es arbitrary: i j a b)
  case Nil
  then have "patch_rel i j (e # []) (a @ x @ []) (a @ y @ [])" by (intro patch_rel_ConsI) simp_all
  with Nil show ?case by (simp add: push_maybe_empty_def)
next
  case (Cons f es)
  obtain u p q a' b' where r: "a = u @ p @ a'" "b = u @ q @ b'"
      "edit_at (i + length u) (length p) (j + length u) (length q) f"
      "patch_rel (i + length u + length p) (j + length u + length q) es a' b'"
    using Cons.prems(1) by (rule patch_rel_ConsE)
  show ?case
  proof (cases "es = []")
    case False
    have "patch_rel (i + length u + length p) (j + length u + length q) (push_maybe_empty e es) (a' @ x) (b' @ y)"
      using Cons.prems(2) r(1,2) by (intro Cons.IH [OF r(4)]) (simp add: add.assoc)
    then have "patch_rel i j (f # push_maybe_empty e es) (u @ p @ a' @ x) (u @ q @ b' @ y)" by (rule patch_rel_ConsI [OF r(3)])
    with False r(1,2) show ?thesis by (simp add: push_maybe_empty_Cons)
  next
    case True
    with r(4) have b': "b' = a'" by simp
    show ?thesis
    proof (cases "a' = []")
      case True
      let ?m = "edit (range (r_start (old f)) (r_end (old e))) (range (r_start (new f)) (r_end (new e)))"
      have "patch_rel i j (?m # []) (u @ (p @ x) @ []) (u @ (q @ y) @ [])"
        using r Cons.prems(2) True b'
        by (intro patch_rel_ConsI) (auto simp: edit_at_simps [OF r(3)] edit_at_simps [OF Cons.prems(2)] add.assoc intro!: edit_atI)
      moreover have "push_maybe_empty e (f # es) = [?m]"
        using \<open>es = []\<close> r True by (simp add: push_maybe_empty_def edit_at_simps [OF r(3)] edit_at_simps [OF Cons.prems(2)])
      ultimately show ?thesis using r(1,2) True b' by simp
    next
      case False
      have "patch_rel (i + length u + length p) (j + length u + length q) (e # []) (a' @ x @ []) (a' @ y @ [])"
        using Cons.prems(2) r(1,2) b' by (intro patch_rel_ConsI) (simp_all add: add.assoc)
      then have "patch_rel i j (f # e # []) (u @ p @ a' @ x) (u @ q @ a' @ y)" by (intro patch_rel_ConsI [OF r(3)]) simp
      moreover have "push_maybe_empty e (f # es) = [f, e]"
        using \<open>es = []\<close> r(1) False by (simp add: push_maybe_empty_def edit_at_simps [OF r(3)] edit_at_simps [OF Cons.prems(2)])
      ultimately show ?thesis using r(1,2) b' by simp
    qed
  qed
qed

lemma patch_rel_push:
  assumes "patch_rel i j es a b" "edit_at (i + length a) (length x) (j + length b) (length y) e"
  shows "patch_rel i j (patch_push e es) (a @ x) (b @ y)"
proof (cases "edit_is_empty e")
  case True
  then have "x = []" "y = []" using edit_at_simps [OF assms(2)] by (simp_all add: edit_is_empty_def)
  with True assms(1) show ?thesis by (simp add: patch_push_def)
next
  case False
  with patch_rel_push_maybe_empty [OF assms] show ?thesis by (simp add: patch_push_def)
qed

text \<open>The result has a gap between any two edits.\<close>

lemma patch_rel_ends:
  assumes "patch_rel i j (es @ [e]) a b"
  shows "\<exists>n. i + length a = r_end (old e) + n \<and> j + length b = r_end (new e) + n"
  using assms
proof (induction es arbitrary: i j a b)
  case Nil
  then have "patch_rel i j (e # []) a b" by simp
  then obtain u x y a' b' where r: "a = u @ x @ a'" "b = u @ y @ b'"
      "edit_at (i + length u) (length x) (j + length u) (length y) e"
      "patch_rel (i + length u + length x) (j + length u + length y) [] a' b'"
    by (rule patch_rel_ConsE)
  then show ?case by (auto simp: edit_at_simps [OF r(3)])
next
  case (Cons f es)
  then have "patch_rel i j (f # (es @ [e])) a b" by simp
  then obtain u x y a' b' where r: "a = u @ x @ a'" "b = u @ y @ b'"
      "patch_rel (i + length u + length x) (j + length u + length y) (es @ [e]) a' b'"
    by (rule patch_rel_ConsE)
  from Cons.IH [OF r(3)] r(1,2) show ?case by (simp add: add.assoc)
qed

lemma separated_snoc:
  "separated (es @ [e, f]) \<longleftrightarrow> separated (es @ [e]) \<and> r_end (old e) < r_start (old f) \<and> r_end (new e) < r_start (new f)"
proof (induction es)
  case (Cons g es)
  then show ?case by (cases es) auto
qed simp

lemma separated_push:
  assumes "separated es" "patch_rel i j es a b" "edit_at (i + length a) k (j + length b) l e"
  shows "separated (patch_push e es)"
proof (cases es rule: rev_cases)
  case Nil
  then show ?thesis by (simp add: patch_push_def push_maybe_empty_def)
next
  case (snoc fs f)
  obtain n where n: "i + length a = r_end (old f) + n" "j + length b = r_end (new f) + n"
    using patch_rel_ends assms(2) snoc by blast
  show ?thesis
  proof (cases "n = 0")
    case True
    let ?m = "edit (range (r_start (old f)) (r_end (old e))) (range (r_start (new f)) (r_end (new e)))"
    have "separated (fs @ [?m])"
      using assms(1) snoc by (cases fs rule: rev_cases) (auto simp: separated_snoc)
    with assms(1) snoc n True show ?thesis
      by (simp add: patch_push_def push_maybe_empty_def edit_at_simps [OF assms(3)])
  next
    case False
    with assms(1) snoc n show ?thesis
      by (simp add: patch_push_def push_maybe_empty_def edit_at_simps [OF assms(3)] separated_snoc)
  qed
qed

section \<open>Composition\<close>

text \<open>What has been composed relates the prefixes already read.\<close>

definition composed_to :: "'c list \<Rightarrow> 'c list \<Rightarrow> compose_state \<Rightarrow> bool" where
  "composed_to P Q st \<longleftrightarrow> old_start st = length P \<and> new_start st = length Q \<and>
     patch_rel 0 0 (composed st) P Q \<and> separated (composed st)"

text \<open>The loop invariant: there is a middle text between what is left of the old and of the new text.\<close>

definition compose_inv :: "'c list \<Rightarrow> 'c list \<Rightarrow> compose_state \<Rightarrow> bool" where
  "compose_inv A C st \<longleftrightarrow> (\<exists>P Q a b c m. A = P @ a \<and> C = Q @ c \<and> composed_to P Q st \<and>
     patch_rel (length P) m (olds st) a b \<and> patch_rel m (length Q) (news st) b c)"

lemma composed_to_catch_up: "composed_to P Q st \<Longrightarrow> composed_to (P @ u) (Q @ u) (catch_up (length u) st)"
  by (simp add: composed_to_def catch_up_def patch_rel_append)

lemma composed_to_emit:
  "composed_to P Q st \<Longrightarrow> i = length P + length x \<Longrightarrow> j = length Q + length y \<Longrightarrow> composed_to (P @ x) (Q @ y) (emit i j st)"
  by (auto simp: composed_to_def emit_def intro!: patch_rel_push separated_push edit_atI)

lemma state_rest [simp]:
  "olds (emit i j st) = olds st" "news (emit i j st) = news st" "olds (catch_up n st) = olds st" "news (catch_up n st) = news st"
  "composed_to P Q (st\<lparr>olds := os\<rparr>) = composed_to P Q st" "composed_to P Q (st\<lparr>news := ns\<rparr>) = composed_to P Q st"
  by (simp_all add: emit_def catch_up_def composed_to_def)

lemma composed_to_start: "composed_to P Q st \<Longrightarrow> old_start st = length P" "composed_to P Q st \<Longrightarrow> new_start st = length Q"
  by (simp_all add: composed_to_def)

text \<open>The two edits of the middle text that are next start at the same place.\<close>

definition aligned :: "'c list \<Rightarrow> 'c list \<Rightarrow> nat text_edit \<Rightarrow> nat text_edit \<Rightarrow> nat patch \<Rightarrow> nat patch \<Rightarrow> compose_state \<Rightarrow> bool" where
  "aligned A C o1 n1 os ns st \<longleftrightarrow> (\<exists>P Q x y z w a b b' c m. A = P @ x @ a \<and> C = Q @ w @ c \<and> composed_to P Q st \<and> y @ b = z @ b' \<and>
     edit_at (length P) (length x) m (length y) o1 \<and> edit_at m (length z) (length Q) (length w) n1 \<and>
     patch_rel (length P + length x) (m + length y) os a b \<and> patch_rel (m + length z) (length Q + length w) ns b' c)"

lemma alignedI:
  assumes "composed_to P Q st" "A = P @ x @ a" "C = Q @ w @ c" "y @ b = z @ b'"
    and "edit_at (length P) (length x) m (length y) o1" "edit_at m (length z) (length Q) (length w) n1"
    and "patch_rel (length P + length x) (m + length y) os a b" "patch_rel (m + length z) (length Q + length w) ns b' c"
  shows "aligned A C o1 n1 os ns st"
  unfolding aligned_def using assms by blast

lemma push_old_inv:
  assumes "compose_inv A C st" "olds st = o' # os" "news st = [] \<or> r_end (new o') < r_start (old (hd (news st)))"
  shows "\<exists>st'. push_old o' st = Some st' \<and> compose_inv A C st' \<and> olds st' = os \<and> news st' = news st"
proof -
  obtain P Q a b c m where i: "A = P @ a" "C = Q @ c" "composed_to P Q st" "patch_rel (length P) m (o' # os) a b"
      "patch_rel m (length Q) (news st) b c"
    using assms(1,2) by (auto simp: compose_inv_def)
  obtain u x y a' b' where r: "a = u @ x @ a'" "b = u @ y @ b'" "edit_at (length P + length u) (length x) (m + length u) (length y) o'"
      "patch_rel (length P + length u + length x) (m + length u + length y) os a' b'"
    using i(4) by (rule patch_rel_ConsE)
  note e = edit_at_simps [OF r(3)]
  obtain c' where c: "c = (u @ y) @ c'" "patch_rel (m + length (u @ y)) (length Q + length (u @ y)) (news st) b' c'"
    by (rule patch_rel_skip [of m "length Q" "news st" "u @ y" b' c]) (use i(5) r(2) assms(3) e in auto)
  let ?st = "emit (length P + length u + length x) (length Q + length u + length y) (catch_up (length u) st)"
  have to: "composed_to ((P @ u) @ x) ((Q @ u) @ y) ?st"
    by (rule composed_to_emit [OF composed_to_catch_up [OF i(3)]]) simp_all
  have "usize_sub (r_start (old o')) (old_start st) = Some (length u)"
    using composed_to_start [OF i(3)] e by (simp add: usize_sub_def)
  moreover have "old_start (catch_up (length u) st) = length P + length u" "new_start (catch_up (length u) st) = length Q + length u"
    using composed_to_start [OF i(3)] by (simp_all add: catch_up_def)
  ultimately have "push_old o' st = Some (?st\<lparr>olds := os\<rparr>)"
    using e assms(2) by (simp add: push_old_def Let_def)
  moreover have "compose_inv A C (?st\<lparr>olds := os\<rparr>)"
    unfolding compose_inv_def using i(1,2) r(1,4) c to
    by (intro exI [of _ "(P @ u) @ x"] exI [of _ "(Q @ u) @ y"] exI [of _ a'] exI [of _ b'] exI [of _ c'] exI [of _ "m + length u + length y"])
      (simp add: add.assoc)
  ultimately show ?thesis by simp
qed

lemma push_new_inv:
  assumes "compose_inv A C st" "news st = n # ns" "olds st = [] \<or> r_end (old n) < r_start (new (hd (olds st)))"
  shows "\<exists>st'. push_new n st = Some st' \<and> compose_inv A C st' \<and> news st' = ns \<and> olds st' = olds st"
proof -
  obtain P Q a b c m where i: "A = P @ a" "C = Q @ c" "composed_to P Q st" "patch_rel (length P) m (olds st) a b"
      "patch_rel m (length Q) (n # ns) b c"
    using assms(1,2) by (auto simp: compose_inv_def)
  obtain u x y b' c' where r: "b = u @ x @ b'" "c = u @ y @ c'" "edit_at (m + length u) (length x) (length Q + length u) (length y) n"
      "patch_rel (m + length u + length x) (length Q + length u + length y) ns b' c'"
    using i(5) by (rule patch_rel_ConsE)
  note e = edit_at_simps [OF r(3)]
  have inv: "patch_rel m (length P) (patch_invert (olds st)) ((u @ x) @ b') a" using patch_rel_invert [OF i(4)] r(1) by simp
  have before: "patch_invert (olds st) = [] \<or> m + length (u @ x) \<le> r_start (old (hd (patch_invert (olds st))))"
    using assms(3) e by (cases "olds st") (auto simp: patch_invert_def)
  obtain a' where a: "a = (u @ x) @ a'" "patch_rel (m + length (u @ x)) (length P + length (u @ x)) (patch_invert (olds st)) b' a'"
    by (rule patch_rel_skip [OF inv before])
  have olds: "patch_rel (length P + length (u @ x)) (m + length (u @ x)) (olds st) a' b'" using patch_rel_invert [OF a(2)] by simp
  let ?st = "emit (length P + length u + length x) (length Q + length u + length y) (catch_up (length u) st)"
  have to: "composed_to ((P @ u) @ x) ((Q @ u) @ y) ?st"
    by (rule composed_to_emit [OF composed_to_catch_up [OF i(3)]]) simp_all
  have "usize_sub (r_start (new n)) (new_start st) = Some (length u)"
    using composed_to_start [OF i(3)] e by (simp add: usize_sub_def)
  moreover have "old_start (catch_up (length u) st) = length P + length u" "new_start (catch_up (length u) st) = length Q + length u"
    using composed_to_start [OF i(3)] by (simp_all add: catch_up_def)
  ultimately have "push_new n st = Some (?st\<lparr>news := ns\<rparr>)"
    using e assms(2) by (simp add: push_new_def Let_def)
  moreover have "compose_inv A C (?st\<lparr>news := ns\<rparr>)"
    unfolding compose_inv_def using i(1,2) r(2,4) a(1) olds to
    by (intro exI [of _ "(P @ u) @ x"] exI [of _ "(Q @ u) @ y"] exI [of _ a'] exI [of _ b'] exI [of _ c'] exI [of _ "m + length u + length x"])
      (simp add: add.assoc)
  ultimately show ?thesis by simp
qed

lemma append_prefix:
  assumes "xs @ ys = us @ vs" "length us \<le> length xs"
  obtains ws where "xs = us @ ws" "ws @ ys = vs"
  using assms by (metis append_eq_append_conv_if append_eq_conv_conj append_take_drop_id)

lemma align_inv:
  assumes "compose_inv A C st" "olds st = o' # os" "news st = n # ns"
    and "r_start (old n) \<le> r_end (new o')" "r_start (new o') \<le> r_end (old n)"
  shows "\<exists>o1 n1 st'. align_edits o' n st = Some (o1, n1, st') \<and> aligned A C o1 n1 os ns st' \<and> olds st' = olds st \<and> news st' = news st"
proof -
  obtain P Q a b c m where i: "A = P @ a" "C = Q @ c" "composed_to P Q st" "patch_rel (length P) m (o' # os) a b"
      "patch_rel m (length Q) (n # ns) b c"
    using assms(1-3) by (auto simp: compose_inv_def)
  obtain u x y a' b' where r: "a = u @ x @ a'" "b = u @ y @ b'" "edit_at (length P + length u) (length x) (m + length u) (length y) o'"
      "patch_rel (length P + length u + length x) (m + length u + length y) os a' b'"
    using i(4) by (rule patch_rel_ConsE)
  obtain v z w b'' c' where q: "b = v @ z @ b''" "c = v @ w @ c'" "edit_at (m + length v) (length z) (length Q + length v) (length w) n"
      "patch_rel (m + length v + length z) (length Q + length v + length w) ns b'' c'"
    using i(5) by (rule patch_rel_ConsE)
  note eo = edit_at_simps [OF r(3)] and en = edit_at_simps [OF q(3)] and start = composed_to_start [OF i(3)]
  show ?thesis
  proof (cases "length u < length v")
    case True
    then obtain y1 where y1: "v = u @ y1" "y1 @ z @ b'' = y @ b'"
      using append_prefix [of v "z @ b''" u "y @ b'"] r(2) q(1) by auto
    then have "length y1 \<le> length y" using assms(4) eo en by simp
    then obtain y2 where y2: "y = y1 @ y2" "y2 @ b' = z @ b''" using append_prefix [of y b' y1 "z @ b''"] y1(2) by metis
    define x1 x2 where "x1 = take (length y1) x" and "x2 = drop (length y1) x"
    have x: "x = x1 @ x2" "length x1 = min (length y1) (length x)" by (simp_all add: x1_def x2_def)
    let ?st = "emit (length P + length u + length x1) (length Q + length u + length y1) (catch_up (length u) st)"
    let ?o = "edit (range (length P + length u + length x1) (length P + length u + length x)) (range (m + length v) (m + length u + length y))"
    have "min (length P + length u + length y1) (length P + length u + length x) = length P + length u + length x1" using x(2) by simp
    then have "align_edits o' n st = Some (?o, n, ?st)"
      using True eo en start y1(1) by (simp add: align_edits_def Let_def usize_sub_def catch_up_def add.assoc)
    moreover have "composed_to ((P @ u) @ x1) ((Q @ u) @ y1) ?st"
      by (rule composed_to_emit [OF composed_to_catch_up [OF i(3)]]) simp_all
    then have "aligned A C ?o n os ns ?st"
    proof (rule alignedI [where x = x2 and a = a' and w = w and c = c' and y = y2 and b = b' and z = z and b' = b'' and m = "m + length v"])
      show "A = ((P @ u) @ x1) @ x2 @ a'" using i(1) r(1) x(1) by simp
      show "C = ((Q @ u) @ y1) @ w @ c'" using i(2) q(2) y1(1) by simp
      show "y2 @ b' = z @ b''" by (rule y2(2))
      show "edit_at (length ((P @ u) @ x1)) (length x2) (m + length v) (length y2) ?o" using x(1) y1(1) y2(1) by (simp add: edit_at_def)
      show "edit_at (m + length v) (length z) (length ((Q @ u) @ y1)) (length w) n" using q(3) y1(1) by (simp add: add.assoc)
      show "patch_rel (length ((P @ u) @ x1) + length x2) (m + length v + length y2) os a' b'"
        using r(4) x(1) y1(1) y2(1) by (simp add: add.assoc)
      show "patch_rel (m + length v + length z) (length ((Q @ u) @ y1) + length w) ns b'' c'" using q(4) y1(1) by (simp add: add.assoc)
    qed
    ultimately show ?thesis by simp
  next
    case False
    then obtain z1 where z1: "u = v @ z1" "z1 @ y @ b' = z @ b''"
      using append_prefix [of u "y @ b'" v "z @ b''"] r(2) q(1) by auto
    then have "length z1 \<le> length z" using assms(5) eo en by simp
    then obtain z2 where z2: "z = z1 @ z2" "z2 @ b'' = y @ b'" using append_prefix [of z b'' z1 "y @ b'"] z1(2) by metis
    define w1 w2 where "w1 = take (length z1) w" and "w2 = drop (length z1) w"
    have w: "w = w1 @ w2" "length w1 = min (length z1) (length w)" by (simp_all add: w1_def w2_def)
    let ?st = "emit (length P + length v + length z1) (length Q + length v + length w1) (catch_up (length v) st)"
    let ?n = "edit (range (m + length u) (m + length v + length z)) (range (length Q + length v + length w1) (length Q + length v + length w))"
    have "min (length Q + length v + length z1) (length Q + length v + length w) = length Q + length v + length w1" using w(2) by simp
    then have "align_edits o' n st = Some (o', ?n, ?st)"
      using False eo en start z1(1) by (simp add: align_edits_def Let_def usize_sub_def catch_up_def add.assoc)
    moreover have "composed_to ((P @ v) @ z1) ((Q @ v) @ w1) ?st"
      by (rule composed_to_emit [OF composed_to_catch_up [OF i(3)]]) simp_all
    then have "aligned A C o' ?n os ns ?st"
    proof (rule alignedI [where x = x and a = a' and w = w2 and c = c' and y = y and b = b' and z = z2 and b' = b'' and m = "m + length u"])
      show "A = ((P @ v) @ z1) @ x @ a'" using i(1) r(1) z1(1) by simp
      show "C = ((Q @ v) @ w1) @ w2 @ c'" using i(2) q(2) w(1) by simp
      show "y @ b' = z2 @ b''" by (rule z2(2) [symmetric])
      show "edit_at (length ((P @ v) @ z1)) (length x) (m + length u) (length y) o'" using r(3) z1(1) by (simp add: add.assoc)
      show "edit_at (m + length u) (length z2) (length ((Q @ v) @ w1)) (length w2) ?n" using w(1) z1(1) z2(1) by (simp add: edit_at_def)
      show "patch_rel (length ((P @ v) @ z1) + length x) (m + length u + length y) os a' b'" using r(4) z1(1) by (simp add: add.assoc)
      show "patch_rel (m + length u + length z2) (length ((Q @ v) @ w1) + length w2) ns b'' c'"
        using q(4) w(1) z1(1) z2(1) by (simp add: add.assoc)
    qed
    ultimately show ?thesis by simp
  qed
qed

lemma overlap_inv:
  assumes "aligned A C o1 n1 os ns st" "olds st = o' # os" "news st = n # ns"
  shows "\<exists>st'. push_overlap o1 n1 st = Some st' \<and> compose_inv A C st' \<and>
    length (olds st') + length (news st') < length (olds st) + length (news st)"
proof -
  obtain P Q x y z w a b b' c m where i: "A = P @ x @ a" "C = Q @ w @ c" "composed_to P Q st" "y @ b = z @ b'"
      "edit_at (length P) (length x) m (length y) o1" "edit_at m (length z) (length Q) (length w) n1"
      "patch_rel (length P + length x) (m + length y) os a b" "patch_rel (m + length z) (length Q + length w) ns b' c"
    using assms(1) unfolding aligned_def by (elim exE conjE) (rule that)
  note eo = edit_at_simps [OF i(5)] and en = edit_at_simps [OF i(6)] and start = composed_to_start [OF i(3)]
  show ?thesis
  proof (cases "length z < length y")
    case True
    with i(4) obtain y2 where y2: "y = z @ y2" "b' = y2 @ b" by (auto simp: append_eq_append_conv2)
    define x1 x2 where "x1 = take (length z) x" and "x2 = drop (length z) x"
    have x: "x = x1 @ x2" "length x1 = min (length x) (length z)" by (auto simp: x1_def x2_def)
    let ?st = "emit (length P + length x1) (length Q + length w) st"
    let ?o = "edit (range (length P + length x1) (length P + length x)) (range (m + length z) (m + length y))"
    let ?st' = "?st\<lparr>olds := ?o # os, news := ns\<rparr>"
    have "push_overlap o1 n1 st = Some ?st'" using True eo en start x(2) assms(2,3) by (simp add: push_overlap_def Let_def)
    moreover have "composed_to (P @ x1) (Q @ w) ?st" by (rule composed_to_emit [OF i(3)]) simp_all
    moreover have "patch_rel (length (P @ x1)) (m + length z) (?o # os) ([] @ x2 @ a) ([] @ y2 @ b)"
      using i(7) x(1) y2 by (intro patch_rel_ConsI) (auto simp: add.assoc intro!: edit_atI)
    ultimately have "compose_inv A C ?st'"
      unfolding compose_inv_def using i(1,2,8) x(1) y2
      by (intro exI [of _ "P @ x1"] exI [of _ "Q @ w"] exI [of _ "x2 @ a"] exI [of _ "y2 @ b"] exI [of _ c] exI [of _ "m + length z"]) simp
    with \<open>push_overlap o1 n1 st = Some ?st'\<close> assms(2,3) show ?thesis by simp
  next
    case False
    with i(4) obtain z2 where z2: "z = y @ z2" "b = z2 @ b'" by (auto simp: append_eq_append_conv2)
    define w1 w2 where "w1 = take (length y) w" and "w2 = drop (length y) w"
    have w: "w = w1 @ w2" "length w1 = min (length y) (length w)" by (auto simp: w1_def w2_def)
    let ?st = "emit (length P + length x) (length Q + length w1) st"
    let ?n = "edit (range (m + length y) (m + length z)) (range (length Q + length w1) (length Q + length w))"
    let ?st' = "?st\<lparr>news := ?n # ns, olds := os\<rparr>"
    have "push_overlap o1 n1 st = Some ?st'" using False eo en start w(2) assms(2,3) by (simp add: push_overlap_def Let_def)
    moreover have "composed_to (P @ x) (Q @ w1) ?st" by (rule composed_to_emit [OF i(3)]) simp_all
    moreover have "patch_rel (m + length y) (length (Q @ w1)) (?n # ns) ([] @ z2 @ b') ([] @ w2 @ c)"
      using i(8) w(1) z2 by (intro patch_rel_ConsI) (auto simp: add.assoc intro!: edit_atI)
    ultimately have "compose_inv A C ?st'"
      unfolding compose_inv_def using i(1,2,7) w(1) z2
      by (intro exI [of _ "P @ x"] exI [of _ "Q @ w1"] exI [of _ a] exI [of _ "z2 @ b'"] exI [of _ "w2 @ c"] exI [of _ "m + length y"]) simp
    with \<open>push_overlap o1 n1 st = Some ?st'\<close> assms(2,3) show ?thesis by simp
  qed
qed

lemma compose_step_inv:
  assumes "compose_inv A C st"
  shows "(\<exists>p. compose_step st = Some (Inl p) \<and> patch_rel 0 0 p A C \<and> separated p) \<or>
    (\<exists>st'. compose_step st = Some (Inr st') \<and> compose_inv A C st' \<and>
       length (olds st') + length (news st') < length (olds st) + length (news st))"
proof (cases "olds st")
  case Nil
  show ?thesis
  proof (cases "news st")
    case news: Nil
    from assms obtain P Q a b c m where i: "A = P @ a" "C = Q @ c" "composed_to P Q st"
        "patch_rel (length P) m (olds st) a b" "patch_rel m (length Q) (news st) b c"
      unfolding compose_inv_def by (elim exE conjE) (rule that)
    with Nil news have "a = c" by simp
    with i(1-3) have "patch_rel 0 0 (composed st) A C" "separated (composed st)"
      using patch_rel_append [of 0 0 "composed st" P Q c] by (simp_all add: composed_to_def)
    with Nil news show ?thesis by (simp add: compose_step_def)
  next
    case (Cons n ns)
    with push_new_inv [OF assms Cons] Nil show ?thesis by (auto simp: compose_step_def)
  qed
next
  case olds: (Cons o' os)
  show ?thesis
  proof (cases "news st")
    case Nil
    with push_old_inv [OF assms olds] olds show ?thesis by (auto simp: compose_step_def)
  next
    case news: (Cons n ns)
    consider "r_end (new o') < r_start (old n)" | "\<not> r_end (new o') < r_start (old n)" "r_end (old n) < r_start (new o')"
      | "r_start (old n) \<le> r_end (new o')" "r_start (new o') \<le> r_end (old n)" by linarith
    then show ?thesis
    proof cases
      case 1
      with push_old_inv [OF assms olds] olds news show ?thesis by (auto simp: compose_step_def)
    next
      case 2
      with push_new_inv [OF assms news] olds news show ?thesis by (auto simp: compose_step_def)
    next
      case 3
      obtain o1 n1 st1 where al: "align_edits o' n st = Some (o1, n1, st1)" "aligned A C o1 n1 os ns st1" "olds st1 = olds st" "news st1 = news st"
        using align_inv [OF assms olds news 3] by blast
      from overlap_inv [OF al(2)] al olds news obtain st2 where "push_overlap o1 n1 st1 = Some st2" "compose_inv A C st2"
          "length (olds st2) + length (news st2) < length (olds st) + length (news st)" by auto
      with 3 al(1) olds news show ?thesis by (simp add: compose_step_def)
    qed
  qed
qed

lemma compose_loop_correct:
  "compose_inv A C st \<Longrightarrow> \<exists>p. compose_loop st = Some p \<and> patch_rel 0 0 p A C \<and> separated p"
proof (induction "length (olds st) + length (news st)" arbitrary: st rule: less_induct)
  case less
  from compose_step_inv [OF less.prems] show ?case
  proof
    assume "\<exists>p. compose_step st = Some (Inl p) \<and> patch_rel 0 0 p A C \<and> separated p"
    then show ?thesis by (subst compose_loop.simps) auto
  next
    assume "\<exists>st'. compose_step st = Some (Inr st') \<and> compose_inv A C st' \<and>
       length (olds st') + length (news st') < length (olds st) + length (news st)"
    then obtain st' where st': "compose_step st = Some (Inr st')" "compose_inv A C st'"
        "length (olds st') + length (news st') < length (olds st) + length (news st)" by blast
    from less.hyps [OF st'(3,2)] st'(1) show ?thesis by (subst compose_loop.simps) simp
  qed
qed

lemma patch_compose_correct:
  assumes "patch_rel 0 0 p A B" "patch_rel 0 0 q B C"
  shows "\<exists>r. patch_compose p q = Some r \<and> patch_rel 0 0 r A C \<and> separated r"
proof -
  have "compose_inv A C \<lparr>olds = p, news = q, old_start = 0, new_start = 0, composed = []\<rparr>"
    unfolding compose_inv_def composed_to_def using assms
    by (intro exI [of _ "[]"] exI [of _ A] exI [of _ B] exI [of _ C] exI [of _ 0]) simp
  from compose_loop_correct [OF this] show ?thesis by (simp add: patch_compose_def)
qed


section \<open>Positions\<close>

text \<open>The value an edit gives to a position that is not before it.\<close>

definition edit_value :: "nat text_edit \<Rightarrow> nat \<Rightarrow> nat" where
  "edit_value e pos = (if r_end (old e) \<le> pos then r_end (new e) + (pos - r_end (old e)) else r_start (new e))"

text \<open>The last edit that starts at or before a position decides.\<close>

definition edits_upto :: "nat \<Rightarrow> nat patch \<Rightarrow> nat patch" where
  "edits_upto pos p = takeWhile (\<lambda>e. r_start (old e) \<le> pos) p"

definition ascending :: "nat patch \<Rightarrow> bool" where
  "ascending p \<longleftrightarrow> sorted_wrt (\<lambda>e f. r_start (old e) < r_start (old f)) p"

lemma search_edits_upto:
  assumes "ascending p"
  shows "case search_old_start pos p of
      Found ix \<Rightarrow> edits_upto pos p = take (Suc ix) p \<and> ix < length p \<and> r_start (old (p ! ix)) = pos
    | Insert_at ix \<Rightarrow> edits_upto pos p = take ix p \<and> ix \<le> length p"
proof -
  define ts where "ts = takeWhile (\<lambda>e. r_start (old e) < pos) p"
  define rs where "rs = dropWhile (\<lambda>e. r_start (old e) < pos) p"
  have p: "p = ts @ rs" by (simp add: ts_def rs_def)
  have le: "\<forall>e \<in> set ts. r_start (old e) \<le> pos" by (auto simp: ts_def dest: set_takeWhileD)
  then have upto: "edits_upto pos p = ts @ takeWhile (\<lambda>e. r_start (old e) \<le> pos) rs" by (simp add: p edits_upto_def takeWhile_append2)
  have rs_asc: "ascending rs" using assms by (simp add: ascending_def p sorted_wrt_append)
  show ?thesis
  proof (cases rs)
    case Nil
    have "search_old_start pos p = Insert_at (length ts)"
      unfolding search_old_start_def Let_def ts_def [symmetric] by (simp add: p Nil)
    then show ?thesis using upto by (simp add: p Nil)
  next
    case (Cons e es)
    then have ge: "pos \<le> r_start (old e)" unfolding rs_def by (metis dropWhile_eq_Cons_conv not_less)
    have n: "search_old_start pos p = (if r_start (old e) = pos then Found (length ts) else Insert_at (length ts))"
      unfolding search_old_start_def Let_def ts_def [symmetric] by (simp add: p Cons)
    show ?thesis
    proof (cases "r_start (old e) = pos")
      case True
      have "takeWhile (\<lambda>e. r_start (old e) \<le> pos) es = []"
        using rs_asc True unfolding Cons by (cases es) (simp_all add: ascending_def)
      with n upto True show ?thesis by (simp add: p Cons)
    next
      case False
      with n upto ge show ?thesis by (simp add: p Cons)
    qed
  qed
qed

lemma old_to_new_upto:
  assumes "ascending p"
  shows "old_to_new p pos = (case last_opt (edits_upto pos p) of Some e \<Rightarrow> edit_value e pos | None \<Rightarrow> pos)"
proof (cases "search_old_start pos p")
  case (Found ix)
  with search_edits_upto [OF assms, of pos] show ?thesis
    by (simp add: old_to_new_def edit_value_def take_Suc_conv_app_nth)
next
  case (Insert_at ix)
  with search_edits_upto [OF assms, of pos] show ?thesis
    by (cases ix) (simp_all add: old_to_new_def edit_value_def take_Suc_conv_app_nth)
qed

lemma edit_for_position_upto:
  assumes "ascending p"
  shows "edit_for_old_position p pos = (case last_opt (edits_upto pos p) of
      Some e \<Rightarrow> if r_end (old e) < pos then edit (range pos pos) (range (edit_value e pos) (edit_value e pos)) else e
    | None \<Rightarrow> edit (range pos pos) (range pos pos))"
proof (cases "search_old_start pos p")
  case (Found ix)
  with search_edits_upto [OF assms, of pos] show ?thesis
    by (simp add: edit_for_old_position_def edit_value_def take_Suc_conv_app_nth Let_def)
next
  case (Insert_at ix)
  with search_edits_upto [OF assms, of pos] show ?thesis
    by (cases ix) (simp_all add: edit_for_old_position_def edit_value_def take_Suc_conv_app_nth Let_def)
qed

text \<open>A patch that relates two texts and separates its edits has ascending starts.\<close>

lemma patch_rel_start: "patch_rel i j p a b \<Longrightarrow> e \<in> set p \<Longrightarrow> i \<le> r_start (old e) \<and> r_start (old e) \<le> r_end (old e)"
proof (induction p arbitrary: i j a b)
  case (Cons f p)
  obtain u x y a' b' where "a = u @ x @ a'" "b = u @ y @ b'" and r: "edit_at (i + length u) (length x) (j + length u) (length y) f"
      "patch_rel (i + length u + length x) (j + length u + length y) p a' b'"
    using Cons.prems(1) by (rule patch_rel_ConsE)
  from Cons.IH [OF r(2)] Cons.prems(2) edit_at_simps [OF r(1)] show ?case by fastforce
qed simp

lemma patch_rel_ascending:
  "patch_rel i j p a b \<Longrightarrow> separated p \<Longrightarrow> ascending p \<and> (\<forall>e \<in> set (tl p). r_end (old (hd p)) < r_start (old e))"
proof (induction p arbitrary: i j a b)
  case (Cons f p)
  obtain u x y a' b' where "a = u @ x @ a'" "b = u @ y @ b'" and r: "edit_at (i + length u) (length x) (j + length u) (length y) f"
      "patch_rel (i + length u + length x) (j + length u + length y) p a' b'"
    using Cons.prems(1) by (rule patch_rel_ConsE)
  have p: "separated p" "p \<noteq> [] \<Longrightarrow> r_end (old f) < r_start (old (hd p))" using Cons.prems(2) by (cases p; simp)+
  note IH = Cons.IH [OF r(2) p(1)]
  have gap: "r_end (old f) < r_start (old e)" if "e \<in> set p" for e
  proof -
    from that obtain g gs where g: "p = g # gs" by (cases p) auto
    have "r_end (old f) < r_start (old g)" using p(2) g by simp
    moreover have "r_start (old g) \<le> r_start (old e)"
      using IH that patch_rel_start [OF r(2), of g] unfolding g by fastforce
    ultimately show ?thesis by simp
  qed
  moreover have "r_start (old f) \<le> r_end (old f)" using edit_at_simps [OF r(1)] by simp
  ultimately have "\<forall>e \<in> set p. r_start (old f) < r_start (old e)" by (meson le_less_trans)
  with gap IH show ?case by (simp add: ascending_def)
qed (simp add: ascending_def)

text \<open>The text at a position outside the edits is found at the translated position.\<close>

definition translated :: "nat \<Rightarrow> nat patch \<Rightarrow> nat \<Rightarrow> nat" where
  "translated d p pos = (case last_opt (edits_upto pos p) of Some e \<Rightarrow> edit_value e pos | None \<Rightarrow> d)"

lemma translated_Cons:
  "translated d (e # es) pos = (if r_start (old e) \<le> pos then translated (edit_value e pos) es pos else d)"
  by (simp add: translated_def edits_upto_def last_opt_def)

lemma translated_text:
  assumes "patch_rel i j p a b" "separated p" "i \<le> pos" "pos < i + length a"
    and "\<forall>e \<in> set p. \<not> (r_start (old e) \<le> pos \<and> pos < r_end (old e))" "d = j + (pos - i)"
  shows "j \<le> translated d p pos \<and> translated d p pos < j + length b \<and> b ! (translated d p pos - j) = a ! (pos - i)"
  using assms
proof (induction p arbitrary: i j a b d)
  case Nil
  then show ?case by (auto simp: translated_def edits_upto_def)
next
  case (Cons e es)
  obtain u x y a' b' where r: "a = u @ x @ a'" "b = u @ y @ b'" "edit_at (i + length u) (length x) (j + length u) (length y) e"
      "patch_rel (i + length u + length x) (j + length u + length y) es a' b'"
    using Cons.prems(1) by (rule patch_rel_ConsE)
  note e = edit_at_simps [OF r(3)]
  have sep: "separated es" using Cons.prems(2) by (cases es) auto
  show ?case
  proof (cases "r_start (old e) \<le> pos")
    case False
    then have "pos - i < length u" using Cons.prems(3) e by simp
    with False Cons.prems(3,6) r(1,2) show ?thesis by (auto simp: translated_Cons nth_append)
  next
    case True
    then have ge: "i + length u + length x \<le> pos" using Cons.prems(5) e by auto
    then have v: "edit_value e pos = j + length u + length y + (pos - (i + length u + length x))" using e by (simp add: edit_value_def)
    have lt: "pos < i + length u + length x + length a'" using Cons.prems(4) r(1) by simp
    have no: "\<forall>e \<in> set es. \<not> (r_start (old e) \<le> pos \<and> pos < r_end (old e))" using Cons.prems(5) by simp
    let ?t = "translated (edit_value e pos) es pos"
    have t: "j + length u + length y \<le> ?t" "?t < j + length u + length y + length b'"
        "b' ! (?t - (j + length u + length y)) = a' ! (pos - (i + length u + length x))"
      using Cons.IH [OF r(4) sep ge lt no v] by blast+
    have skip: "(v @ w @ s) ! (n - m) = s ! (n - (m + length v + length w))" if "m + length v + length w \<le> n" for v w s :: "'a list" and m n
    proof -
      from le_Suc_ex [OF that] obtain k where k: "n = m + length v + length w + k" by blast
      have "(v @ w @ s) ! (length v + (length w + k)) = s ! k" by (simp only: nth_append_length_plus)
      with k show ?thesis by (simp add: add.assoc)
    qed
    have "b ! (?t - j) = b' ! (?t - (j + length u + length y))" unfolding r(2) by (rule skip [OF t(1)])
    moreover have "a ! (pos - i) = a' ! (pos - (i + length u + length x))" unfolding r(1) by (rule skip [OF ge])
    ultimately show ?thesis using True t r(2) by (simp add: translated_Cons)
  qed
qed

section \<open>Properties\<close>

text \<open>
  C7. \<open>Patch::compose\<close> implements the composition of text changes: if the first patch turns text \<open>A\<close> into \<open>B\<close>
  and the second one \<open>B\<close> into \<open>C\<close>, then the loop ends without an underflow and the composed patch
  turns \<open>A\<close> into \<open>C\<close>; there is a gap between any two of its edits, as \<open>Patch::new\<close> requires.
\<close>

theorem patch_compose_composes:
  assumes "patch_rel 0 0 p A B" "patch_rel 0 0 q B C"
  shows "\<exists>r. patch_compose p q = Some r \<and> patch_rel 0 0 r A C \<and> patch_new r = Some r"
  using patch_compose_correct [OF assms] by (auto simp: patch_new_def)

theorem patch_compose_composes_witness:
  "\<exists>r. patch_compose [edit (range 1 3) (range 1 2)] [edit (range 0 2) (range 0 3)] = Some r \<and> patch_rel 0 0 r ''abcd'' ''xyzd''"
proof -
  have "patch_rel 0 0 [edit (range 1 3) (range 1 2)] ''abcd'' ''azd''" "patch_rel 0 0 [edit (range 0 2) (range 0 3)] ''azd'' ''xyzd''"
    by (simp_all add: patch_rel.simps)
  from patch_compose_composes [OF this] show ?thesis by blast
qed

text \<open>
  C30. Inverting a patch turns the change around, and inverting twice gives the patch back.
\<close>

theorem patch_invert_roundtrip:
  fixes p :: "nat patch" and A B :: "'c list"
  shows "patch_invert (patch_invert p) = p \<and> (patch_rel 0 0 (patch_invert p) B A \<longleftrightarrow> patch_rel 0 0 p A B)"
  using patch_rel_invert [of 0 0 p A B] patch_rel_invert [of 0 0 "patch_invert p" B A] by auto

theorem patch_invert_roundtrip_witness:
  "patch_rel 0 0 (patch_invert [edit (range 1 3) (range 1 2)]) ''azd'' ''abcd''"
  using patch_invert_roundtrip [of "[edit (range 1 3) (range 1 2)]" "''azd''" "''abcd''"] by (simp add: patch_rel.simps)

text \<open>
  C29. A position of the old text that no edit covers is translated by \<open>old_to_new\<close> to the place of the same
  character in the new text; \<open>edit_for_old_position\<close> returns for it an edit that touches it in the
  old text, or an empty one at the translated position.
\<close>

theorem patch_translates_positions:
  assumes "patch_rel 0 0 p A B" "separated p" "pos < length A"
    and "\<forall>e \<in> set p. \<not> (r_start (old e) \<le> pos \<and> pos < r_end (old e))"
  shows "old_to_new p pos < length B \<and> B ! old_to_new p pos = A ! pos
    \<and> (edit_for_old_position p pos \<in> set p \<and> r_end (old (edit_for_old_position p pos)) = pos \<or>
       edit_for_old_position p pos = edit (range pos pos) (range (old_to_new p pos) (old_to_new p pos)))"
proof -
  have asc: "ascending p" using patch_rel_ascending [OF assms(1,2)] by blast
  have t: "old_to_new p pos = translated pos p pos" by (simp add: old_to_new_upto [OF asc] translated_def)
  have "old_to_new p pos < length B \<and> B ! old_to_new p pos = A ! pos"
    using translated_text [OF assms(1,2), of pos pos] assms(3,4) by (simp add: t)
  moreover have "edit_for_old_position p pos \<in> set p \<and> r_end (old (edit_for_old_position p pos)) = pos \<or>
       edit_for_old_position p pos = edit (range pos pos) (range (old_to_new p pos) (old_to_new p pos))"
  proof (cases "last_opt (edits_upto pos p)")
    case None
    then show ?thesis by (simp add: old_to_new_upto [OF asc] edit_for_position_upto [OF asc])
  next
    case (Some e)
    then have e: "e \<in> set (edits_upto pos p)" by (auto simp: last_opt_def split: if_splits)
    then have "e \<in> set p" "r_start (old e) \<le> pos" by (auto simp: edits_upto_def dest: set_takeWhileD)
    moreover from this assms(4) have "r_end (old e) \<le> pos" by auto
    ultimately show ?thesis using Some by (auto simp: old_to_new_upto [OF asc] edit_for_position_upto [OF asc])
  qed
  ultimately show ?thesis by blast
qed

theorem patch_translates_positions_witness:
  "''azd'' ! old_to_new [edit (range 1 3) (range 1 2)] 3 = CHR ''d''"
proof -
  have "patch_rel 0 0 [edit (range 1 3) (range 1 2)] ''abcd'' ''azd''" by (simp add: patch_rel.simps)
  from patch_translates_positions [OF this, of 3] show ?thesis by simp
qed

text \<open>
  Publishing a change to a topic composes it onto the patch of every live subscription and forgets the
  dropped ones: a subscription whose patch led from text \<open>A\<close> to the current text then leads from \<open>A\<close>
  to the changed text, and consuming it starts again from there.
\<close>

theorem publish_updates_subscriptions:
  assumes "\<forall>s p. patches t s = Some p \<longrightarrow> patch_rel 0 0 p (seen s) B" "patch_rel 0 0 edits B C" "distinct (subscriptions t)"
  shows "\<exists>t'. publish edits t = Some t' \<and>
    subscriptions t' = filter (\<lambda>s. patches t s \<noteq> None) (subscriptions t) \<and>
    (\<forall>s \<in> set (subscriptions t'). \<exists>p t''. patches t' s = Some p \<and> patch_rel 0 0 p (seen s) C \<and>
       consume s t' = Some (p, t'') \<and> patches t'' s = Some []) \<and>
    (\<forall>s. s \<notin> set (subscriptions t) \<longrightarrow> patches t' s = patches t s)"
proof -
  have all: "\<exists>store'. publish_all edits ss store = Some (filter (\<lambda>s. store s \<noteq> None) ss, store') \<and>
      (\<forall>s \<in> set ss. store s \<noteq> None \<longrightarrow> (\<exists>p. store' s = Some p \<and> patch_rel 0 0 p (seen s) C)) \<and>
      (\<forall>s. s \<notin> set ss \<longrightarrow> store' s = store s)"
    if "distinct ss" "\<forall>s \<in> set ss. \<forall>p. store s = Some p \<longrightarrow> patch_rel 0 0 p (seen s) B" for ss store
    using that
  proof (induction ss arbitrary: store)
    case (Cons s ss)
    show ?case
    proof (cases "store s")
      case None
      with Cons.IH [of store] Cons.prems show ?thesis by auto
    next
      case (Some p)
      then have "patch_rel 0 0 p (seen s) B" using Cons.prems(2) by simp
      then obtain q where q: "patch_compose p edits = Some q" "patch_rel 0 0 q (seen s) C"
        using patch_compose_correct [OF _ assms(2)] by blast
      have prems: "distinct ss" "\<forall>r \<in> set ss. \<forall>p. (store(s \<mapsto> q)) r = Some p \<longrightarrow> patch_rel 0 0 p (seen r) B"
        using Cons.prems by auto
      from Cons.IH [OF this] obtain store' where st: "publish_all edits ss (store(s \<mapsto> q)) = Some (filter (\<lambda>r. (store(s \<mapsto> q)) r \<noteq> None) ss, store')"
          "\<forall>r \<in> set ss. (store(s \<mapsto> q)) r \<noteq> None \<longrightarrow> (\<exists>p. store' r = Some p \<and> patch_rel 0 0 p (seen r) C)"
          "\<forall>r. r \<notin> set ss \<longrightarrow> store' r = (store(s \<mapsto> q)) r" by blast
      have "filter (\<lambda>r. (store(s \<mapsto> q)) r \<noteq> None) ss = filter (\<lambda>r. store r \<noteq> None) ss"
        using Cons.prems(1) by (intro filter_cong) auto
      with Some q st Cons.prems(1) show ?thesis by auto
    qed
  qed simp
  from all [OF assms(3), of "patches t"] assms(1) obtain store' where
    "publish_all edits (subscriptions t) (patches t) = Some (filter (\<lambda>s. patches t s \<noteq> None) (subscriptions t), store')"
    "\<forall>s \<in> set (subscriptions t). patches t s \<noteq> None \<longrightarrow> (\<exists>p. store' s = Some p \<and> patch_rel 0 0 p (seen s) C)"
    "\<forall>s. s \<notin> set (subscriptions t) \<longrightarrow> store' s = patches t s" by blast
  then show ?thesis by (fastforce simp: publish_def consume_def)
qed

theorem publish_updates_subscriptions_witness:
  "\<exists>t'. publish [edit (range 1 3) (range 1 2)] (subscribe 7 \<lparr>subscriptions = [], patches = Map.empty\<rparr>) = Some t' \<and> subscriptions t' = [7]"
proof -
  let ?t = "subscribe 7 \<lparr>subscriptions = [], patches = Map.empty\<rparr>"
  have "\<forall>s p. patches ?t s = Some p \<longrightarrow> patch_rel 0 0 p ''abcd'' ''abcd''" "distinct (subscriptions ?t)"
    by (auto simp: subscribe_def split: if_splits)
  moreover have "patch_rel 0 0 [edit (range 1 3) (range 1 2)] ''abcd'' ''azd''" by (simp add: patch_rel.simps)
  ultimately show ?thesis
    using publish_updates_subscriptions [of ?t "\<lambda>_. ''abcd''" "''abcd''" "[edit (range 1 3) (range 1 2)]" "''azd''"]
    by (auto simp: subscribe_def)
qed

end
