(* ===== verification/Selection.thy ===== *)
theory Selection
  imports Prelude
begin

text \<open>
  \<open>crates/text/src/selection.rs\<close>: a selection is a range of positions with a direction; the head is the
  end that moves. The floating point numbers of the goal are only stored, so their types are
  parameters.
\<close>

datatype ('f64, 'f32) selection_goal =
    NoGoal
  | HorizontalPosition 'f64
  | HorizontalRange 'f64 'f64
  | WrappedHorizontalPosition "u32 \<times> 'f32"

record ('t, 'g) selection =
  sel_id :: nat
  sel_start :: 't
  sel_end :: 't
  sel_reversed :: bool
  sel_goal :: 'g

section \<open>Operations\<close>

definition head :: "('t, 'g) selection \<Rightarrow> 't" where
  "head s = (if sel_reversed s then sel_start s else sel_end s)"

definition tail :: "('t, 'g) selection \<Rightarrow> 't" where
  "tail s = (if sel_reversed s then sel_end s else sel_start s)"

definition map_selection :: "('t \<Rightarrow> 's) \<Rightarrow> ('t, 'g) selection \<Rightarrow> ('s, 'g) selection" where
  "map_selection f s = \<lparr>sel_id = sel_id s, sel_start = f (sel_start s), sel_end = f (sel_end s),
     sel_reversed = sel_reversed s, sel_goal = sel_goal s\<rparr>"

definition collapse_to :: "'t \<Rightarrow> 'g \<Rightarrow> ('t, 'g) selection \<Rightarrow> ('t, 'g) selection" where
  "collapse_to point new_goal s = s\<lparr>sel_start := point, sel_end := point, sel_goal := new_goal, sel_reversed := False\<rparr>"

definition selection_is_empty :: "('t, 'g) selection \<Rightarrow> bool" where
  "selection_is_empty s \<longleftrightarrow> sel_start s = sel_end s"

definition set_head :: "'t::linorder \<Rightarrow> 'g \<Rightarrow> ('t, 'g) selection \<Rightarrow> ('t, 'g) selection" where
  "set_head h new_goal s =
     (let s = (if ord_cmp h (tail s) < Equal
        then (let s = (if \<not> sel_reversed s then s\<lparr>sel_end := sel_start s, sel_reversed := True\<rparr> else s)
              in s\<lparr>sel_start := h\<rparr>)
        else (let s = (if sel_reversed s then s\<lparr>sel_start := sel_end s, sel_reversed := False\<rparr> else s)
              in s\<lparr>sel_end := h\<rparr>))
      in s\<lparr>sel_goal := new_goal\<rparr>)"

definition set_tail :: "'t::linorder \<Rightarrow> 'g \<Rightarrow> ('t, 'g) selection \<Rightarrow> ('t, 'g) selection" where
  "set_tail t new_goal s =
     (let s = (if ord_cmp t (head s) \<le> Equal
        then (let s = (if sel_reversed s then s\<lparr>sel_end := sel_start s, sel_reversed := False\<rparr> else s)
              in s\<lparr>sel_start := t\<rparr>)
        else (let s = (if \<not> sel_reversed s then s\<lparr>sel_start := sel_end s, sel_reversed := True\<rparr> else s)
              in s\<lparr>sel_end := t\<rparr>))
      in s\<lparr>sel_goal := new_goal\<rparr>)"

definition set_head_tail :: "'t::linorder \<Rightarrow> 't \<Rightarrow> 'g \<Rightarrow> ('t, 'g) selection \<Rightarrow> ('t, 'g) selection" where
  "set_head_tail h t new_goal s =
     (let s = (if h < t then s\<lparr>sel_reversed := True, sel_start := h, sel_end := t\<rparr>
        else s\<lparr>sel_reversed := False, sel_start := t, sel_end := h\<rparr>)
      in s\<lparr>sel_goal := new_goal\<rparr>)"

definition swap_head_tail :: "('t, 'g) selection \<Rightarrow> ('t, 'g) selection" where
  "swap_head_tail s = (if sel_reversed s then s\<lparr>sel_reversed := False\<rparr>
     else s\<lparr>sel_start := sel_end s, sel_end := sel_start s\<rparr>)"

definition selection_range :: "('t, 'g) selection \<Rightarrow> 't \<times> 't" where
  "selection_range s = (sel_start s, sel_end s)"

definition selection_len :: "(nat, 'g) selection \<Rightarrow> nat option" where
  "selection_len s = do { rust_assert (sel_start s \<le> sel_end s); Some (sel_end s - sel_start s) }"

definition selection_equals :: "('t, 'g) selection \<Rightarrow> 't \<times> 't \<Rightarrow> bool" where
  "selection_equals s r \<longleftrightarrow> sel_start s = fst r \<and> sel_end s = snd r"

section \<open>Properties\<close>

text \<open>The invariant of a selection: its range is ordered, and only a non-empty one is reversed.\<close>

definition selection_ok :: "('t::linorder, 'g) selection \<Rightarrow> bool" where
  "selection_ok s \<longleftrightarrow> sel_start s \<le> sel_end s \<and> (sel_reversed s \<longrightarrow> sel_start s < sel_end s)"

text \<open>
  C39. \<open>set_head\<close> moves the head and keeps the tail, \<open>set_tail\<close> moves the tail and keeps the head,
  \<open>set_head_tail\<close> sets both and \<open>collapse_to\<close> makes both equal; each of them sets the goal and leaves
  a selection with an ordered range that is reversed only if it is not empty.
\<close>

theorem selection_moves_ends:
  fixes s :: "('t::linorder, 'g) selection"
  assumes "selection_ok s"
  shows "head (set_head h g s) = h \<and> tail (set_head h g s) = tail s \<and> selection_ok (set_head h g s)
    \<and> tail (set_tail t g s) = t \<and> head (set_tail t g s) = head s \<and> selection_ok (set_tail t g s)
    \<and> head (set_head_tail h t g s) = h \<and> tail (set_head_tail h t g s) = t \<and> selection_ok (set_head_tail h t g s)
    \<and> head (collapse_to h g s) = h \<and> tail (collapse_to h g s) = h \<and> selection_ok (collapse_to h g s)
    \<and> sel_goal (set_head h g s) = g \<and> sel_goal (set_tail t g s) = g \<and> sel_id (set_head h g s) = sel_id s"
proof (intro conjI)
  have less: "ord_cmp a b < Equal \<longleftrightarrow> a < b" "ord_cmp a b \<le> Equal \<longleftrightarrow> a \<le> b" for a b :: 't
    by (auto simp: ord_cmp_def ordering_order_defs)
  note defs = head_def tail_def collapse_to_def set_head_def set_tail_def set_head_tail_def selection_ok_def Let_def less
  show "head (set_head h g s) = h" "tail (set_head h g s) = tail s" "head (set_tail t g s) = head s" "tail (set_tail t g s) = t"
    by (auto simp: defs)
  show "selection_ok (set_head h g s)" "selection_ok (set_tail t g s)" "selection_ok (set_head_tail h t g s)" "selection_ok (collapse_to h g s)"
    using assms by (auto simp: defs)
  show "head (set_head_tail h t g s) = h" "tail (set_head_tail h t g s) = t" "head (collapse_to h g s) = h" "tail (collapse_to h g s) = h"
    by (auto simp: defs)
  show "sel_goal (set_head h g s) = g" "sel_goal (set_tail t g s) = g" "sel_id (set_head h g s) = sel_id s" by (auto simp: defs)
qed

theorem selection_moves_ends_witness:
  "head (set_head 2 () \<lparr>sel_id = 0, sel_start = 5::nat, sel_end = 9, sel_reversed = False, sel_goal = ()\<rparr>) = 2"
  using selection_moves_ends [of "\<lparr>sel_id = 0, sel_start = 5::nat, sel_end = 9, sel_reversed = False, sel_goal = ()\<rparr>" 2 "()"]
  by (simp add: selection_ok_def)

text \<open>\<open>swap_head_tail\<close> exchanges head and tail, but on a forward selection it does so by exchanging
  start and end instead of reversing the direction, which leaves a range whose start is behind its
  end.\<close>

theorem swap_head_tail_breaks_range:
  fixes s :: "(nat, 'g) selection"
  assumes "selection_ok s" "sel_start s \<noteq> sel_end s" "\<not> sel_reversed s"
  shows "head (swap_head_tail s) = tail s \<and> tail (swap_head_tail s) = head s \<and>
    \<not> selection_ok (swap_head_tail s) \<and> selection_len (swap_head_tail s) = None"
  using assms by (auto simp: head_def tail_def swap_head_tail_def selection_ok_def selection_len_def)

theorem swap_head_tail_breaks_range_witness:
  "selection_len (swap_head_tail \<lparr>sel_id = 0, sel_start = 5, sel_end = 9, sel_reversed = False, sel_goal = ()\<rparr>) = None"
  using swap_head_tail_breaks_range [of "\<lparr>sel_id = 0, sel_start = 5, sel_end = 9, sel_reversed = False, sel_goal = ()\<rparr>"]
  by (simp add: selection_ok_def)

end
