(* ===== verification/Text_Point.thy ===== *)
theory Text_Point
  imports Prelude
begin

text \<open>
  \<open>crates/rope/src/point.rs\<close>: positions in a text as row and column. Adding a point to another one is
  concatenation of the texts they measure, so \<open>+\<close> resets the column when rows are crossed. Rows and
  columns are 32-bit words and wrap around, as in a release build (a debug build panics on overflow and
  when the subtrahend is greater). The operations are polymorphic in the type of rows and columns:
  the properties here are about 32-bit words, the rope uses them at the natural numbers, where they
  agree as long as nothing overflows. A text is its list of bytes.
\<close>

unbundle bit_operations_syntax

section \<open>Points\<close>

type_synonym str = "u8 list"

record 'n point =
  row :: 'n
  column :: 'n

definition Point :: "'n \<Rightarrow> 'n \<Rightarrow> 'n point" where
  "Point r c = \<lparr>row = r, column = c\<rparr>"

text \<open>The comparison on 64-bit targets packs both fields into one word.\<close>

definition point_key :: "u32 point \<Rightarrow> u64" where
  "point_key p = push_bit 32 (ucast (row p)) OR ucast (column p)"

definition point_cmp :: "u32 point \<Rightarrow> u32 point \<Rightarrow> ordering" where
  "point_cmp a b = ord_cmp (point_key a) (point_key b)"

text \<open>On 32-bit targets it compares the fields.\<close>

definition point_cmp_fields :: "'n::linorder point \<Rightarrow> 'n point \<Rightarrow> ordering" where
  "point_cmp_fields a b = (case ord_cmp (row a) (row b) of Equal \<Rightarrow> ord_cmp (column a) (column b) | c \<Rightarrow> c)"

definition POINT_MAX :: "u32 point" where
  "POINT_MAX = Point (- 1) (- 1)"

definition point_zero :: "'n::zero point" where
  "point_zero = Point 0 0"

definition row_range :: "'n \<times> 'n \<Rightarrow> 'n::zero point \<times> 'n point" where
  "row_range r = (Point (fst r) 0, Point (snd r) 0)"

definition point_is_zero :: "'n::zero point \<Rightarrow> bool" where
  "point_is_zero p \<longleftrightarrow> row p = 0 \<and> column p = 0"

definition point_add :: "'n::{zero, plus} point \<Rightarrow> 'n point \<Rightarrow> 'n point" where
  "point_add a b = (if row b = 0 then Point (row a) (column a + column b) else Point (row a + row b) (column b))"

definition point_sub :: "'n::{zero, minus} point \<Rightarrow> 'n point \<Rightarrow> 'n point" where
  "point_sub a b = (if row a = row b then Point 0 (column a - column b) else Point (row a - row b) (column a))"

definition point_add_assign :: "'n::{zero, plus} point \<Rightarrow> 'n point \<Rightarrow> 'n point" where
  "point_add_assign self other = (if row other = 0 then self\<lparr>column := column self + column other\<rparr>
     else self\<lparr>row := row self + row other, column := column other\<rparr>)"

definition point_saturating_sub :: "u32 point \<Rightarrow> u32 point \<Rightarrow> u32 point" where
  "point_saturating_sub a b = (if point_cmp a b = Less then point_zero else point_sub a b)"

text \<open>\<open>split('\n')\<close>: the pieces between newlines, at least one.\<close>

fun split_newline :: "str \<Rightarrow> str list" where
  "split_newline [] = [[]]"
| "split_newline (c # cs) =
     (if c = 10 then [] # split_newline cs
      else case split_newline cs of [] \<Rightarrow> [[c]] | l # ls \<Rightarrow> (c # l) # ls)"

definition parse_str :: "str \<Rightarrow> 'n::semiring_1 point" where
  "parse_str s = foldl (\<lambda>p (r, line). p\<lparr>row := of_nat r, column := of_nat (length line)\<rparr>) point_zero
     (enumerate 0 (split_newline s))"

section \<open>Order\<close>

lemma Point_sel [simp]: "row (Point r c) = r" "column (Point r c) = c"
  by (simp_all add: Point_def)

lemma point_eq_iff: "p = q \<longleftrightarrow> row p = row q \<and> column p = column q" for p q :: "'n point"
  by (cases p; cases q) auto

lemma unat_point_key: "unat (point_key p) = unat (row p) * 2 ^ 32 + unat (column p)"
proof -
  let ?r = "ucast (row p) :: u64" and ?c = "ucast (column p) :: u64"
  have r: "unat ?r = unat (row p)" "unat ?c = unat (column p)"
    by (simp_all add: unsigned_ucast_eq take_bit_nat_eq_self unsigned_less [THEN less_le_trans])
  have lt: "unat (row p) < 2 ^ LENGTH(32)" "unat (column p) < 2 ^ LENGTH(32)" by (rule unsigned_less)+
  have "and (push_bit 32 ?r) ?c = 0"
    by (rule bit_word_eqI) (auto simp: bit_simps dest: bit_imp_le_length)
  then have "point_key p = ?r * 2 ^ 32 + ?c"
    by (simp add: point_key_def disjunctive_add_eq_or push_bit_eq_mult)
  moreover have "unat (row p) * 2 ^ 32 + unat (column p) < 2 ^ 64" using lt by simp
  ultimately show ?thesis using r lt by (simp add: unat_word_ariths)
qed

lemma point_key_less: "point_key a < point_key b \<longleftrightarrow> row a < row b \<or> (row a = row b \<and> column a < column b)"
proof -
  have lt: "unat (column a) < 2 ^ LENGTH(32)" "unat (column b) < 2 ^ LENGTH(32)" by (rule unsigned_less)+
  have lex: "x * n + y < x' * n + y' \<longleftrightarrow> x < x' \<or> (x = x' \<and> y < y')" if "y < n" "y' < n" for x y x' y' n :: nat
  proof (cases x x' rule: linorder_cases)
    case less
    then have "Suc x * n \<le> x' * n" by (intro mult_right_mono) simp_all
    with that less show ?thesis by simp
  next
    case greater
    then have "Suc x' * n \<le> x * n" by (intro mult_right_mono) simp_all
    with that greater show ?thesis by simp
  qed simp
  show ?thesis
    using lex [of "unat (column a)" "2 ^ 32" "unat (column b)" "unat (row a)" "unat (row b)"] lt
    by (auto simp: word_less_nat_alt unat_point_key word_unat_eq_iff)
qed

lemma point_key_eq: "point_key a = point_key b \<longleftrightarrow> a = b"
proof
  assume "point_key a = point_key b"
  then have "\<not> point_key a < point_key b" "\<not> point_key b < point_key a" by simp_all
  then show "a = b" unfolding point_key_less by (auto simp: point_eq_iff)
qed simp

lemma point_cmp_lexicographic:
  "point_cmp a b = point_cmp_fields a b"
  by (auto simp: point_cmp_def point_cmp_fields_def ord_cmp_def point_key_less point_key_eq point_eq_iff)

lemma point_cmp_less: "point_cmp a b = Less \<longleftrightarrow> row a < row b \<or> (row a = row b \<and> column a < column b)"
  by (simp add: point_cmp_def point_key_less)

section \<open>Concatenation of texts\<close>

lemma split_newline_neq_Nil [simp]: "split_newline s \<noteq> []"
  by (induction s) (auto split: list.splits)

lemma split_newline_append:
  "split_newline (s @ t) =
     butlast (split_newline s) @ (last (split_newline s) @ hd (split_newline t)) # tl (split_newline t)"
proof (induction s)
  case Nil
  then show ?case by simp
next
  case (Cons c s)
  obtain l ls where "split_newline s = l # ls" by (cases "split_newline s") auto
  with Cons.IH show ?case by (cases ls) auto
qed

text \<open>The row of a text is the number of its newlines and the column the length of its last line.\<close>

definition newlines :: "str \<Rightarrow> nat" where
  "newlines s = length (split_newline s) - 1"

definition last_line :: "str \<Rightarrow> str" where
  "last_line s = last (split_newline s)"

lemma newlines_simps [simp]:
  "newlines [] = 0" "newlines (c # s) = (if c = 10 then Suc (newlines s) else newlines s)"
  by (auto simp: newlines_def Suc_leI split: list.splits)

lemma newlines_append: "newlines (s @ t) = newlines s + newlines t"
  by (induction s) auto

lemma last_line_append: "last_line (s @ t) = (if newlines t = 0 then last_line s @ last_line t else last_line t)"
proof -
  obtain l ls where "split_newline t = l # ls" by (cases "split_newline t") auto
  then show ?thesis by (auto simp: last_line_def newlines_def split_newline_append)
qed

lemma parse_fold:
  "ls \<noteq> [] \<Longrightarrow> foldl (\<lambda>p (r, line). p\<lparr>row := of_nat r, column := of_nat (length line)\<rparr>) p0 (enumerate k ls)
     = Point (of_nat (k + (length ls - 1))) (of_nat (length (last ls)))"
by (cases ls rule: rev_exhaust) (simp_all add: enumerate_append_eq Point_def)

lemma parse_str_eq: "parse_str s = Point (of_nat (newlines s)) (of_nat (length (last_line s)))"
  by (simp add: parse_str_def parse_fold newlines_def last_line_def)

lemma word_of_nat_eq_0: "n < 2 ^ 32 \<Longrightarrow> (word_of_nat n :: u32) = 0 \<longleftrightarrow> n = 0"
  by (simp add: word_unat_eq_iff unat_of_nat)

lemma point_add_assoc:
  fixes a b c :: "'n::canonically_ordered_monoid_add point"
  shows "point_add (point_add a b) c = point_add a (point_add b c)"
  by (auto simp: point_add_def add.assoc)

text \<open>
  Points measure texts. The position \<open>parse_str\<close> computes for a text is the number of its newlines and
  the number of bytes after the last one, both modulo \<open>2 ^ 32\<close>, and the position of a concatenation
  \<open>s @ t\<close> is the sum of the two positions: \<open>+\<close> and \<open>+=\<close> are what the length of the concatenation needs,
  for every \<open>s\<close> and every \<open>t\<close> with fewer than \<open>2 ^ 32\<close> newlines, the wrap-around of \<open>s\<close> included.
\<close>

theorem point_parse_append:
  assumes "length (filter (\<lambda>c. c = 10) t) < 2 ^ 32"
  shows "(parse_str (s @ t) :: u32 point) = point_add (parse_str s) (parse_str t)
    \<and> point_add_assign (parse_str s) (parse_str t) = (parse_str (s @ t) :: u32 point)
    \<and> row (parse_str t) = (word_of_nat (length (filter (\<lambda>c. c = 10) t)) :: u32)
    \<and> (10 \<notin> set u \<longrightarrow> parse_str (s @ 10 # u) = (Point (row (parse_str s) + 1) (word_of_nat (length u)) :: u32 point))"
proof (intro conjI impI)
  have n: "length (filter (\<lambda>c. c = 10) t) = newlines t" for t by (induction t) auto
  have z: "(word_of_nat (newlines t) :: u32) = 0 \<longleftrightarrow> newlines t = 0" using assms n word_of_nat_eq_0 by simp
  show eq: "(parse_str (s @ t) :: u32 point) = point_add (parse_str s) (parse_str t)"
    by (auto simp: parse_str_eq point_add_def newlines_append last_line_append z)
  show "point_add_assign (parse_str s) (parse_str t) = (parse_str (s @ t) :: u32 point)"
    by (simp add: eq point_add_assign_def point_add_def point_eq_iff)
  show "row (parse_str t) = (word_of_nat (length (filter (\<lambda>c. c = 10) t)) :: u32)" by (simp add: n parse_str_eq)
  assume u: "10 \<notin> set u"
  then have "newlines u = 0" and "last_line u = u" by (induction u) (auto simp: last_line_def newlines_def split: list.splits)
  moreover have "last_line (10 # u) = last_line u" by (simp add: last_line_def)
  ultimately show "parse_str (s @ 10 # u) = (Point (row (parse_str s) + 1) (word_of_nat (length u)) :: u32 point)"
    by (simp add: parse_str_eq newlines_append last_line_append add.commute)
qed

theorem point_parse_append_witness:
  "parse_str ([97, 98] @ 10 # [99, 100, 101]) = (Point 1 3 :: u32 point)
   \<and> parse_str ([97, 98] @ 10 # [99, 100, 101]) = point_add (parse_str [97, 98] :: u32 point) (parse_str (10 # [99, 100, 101]))"
  using point_parse_append [of "10 # [99, 100, 101]" "[97, 98]" "[99, 100, 101]"] by (auto simp: parse_str_eq newlines_def)

text \<open>
  Differences of points undo sums: with the wrap-around of 32-bit words, \<open>(a + b) - a = b\<close> and
  \<open>a + (b - a) = b\<close> for all points, and \<open>+=\<close> is \<open>+\<close>. The packed 64-bit comparison is the lexicographic
  comparison that 32-bit targets use, \<open>Point::MAX\<close> is the greatest point, and \<open>saturating_sub\<close> is the
  difference cut off at zero: added to the smaller point it gives the greater of the two.
\<close>

theorem point_add_sub_roundtrip:
  "point_sub (point_add a b) a = (b :: u32 point)
   \<and> point_add a (point_sub b a) = b
   \<and> point_add_assign a b = point_add a b
   \<and> point_cmp a b = point_cmp_fields a b
   \<and> point_cmp POINT_MAX a \<noteq> Less
   \<and> point_add b (point_saturating_sub a b) = (if point_cmp a b = Less then b else a)
   \<and> (point_is_zero (point_saturating_sub a b) \<longleftrightarrow> point_cmp a b \<noteq> Greater)"
proof (intro conjI)
  show add_sub: "point_add a (point_sub b a) = b" for a b :: "u32 point" by (auto simp: point_add_def point_sub_def point_eq_iff)
  show "point_sub (point_add a b) a = b" by (auto simp: point_add_def point_sub_def point_eq_iff)
  show "point_add_assign a b = point_add a b" by (simp add: point_add_assign_def point_add_def point_eq_iff)
  show "point_cmp a b = point_cmp_fields a b"
    by (rule point_cmp_lexicographic)
  have "x \<le> - 1" for x :: u32 by (rule word_order.extremum)
  then show "point_cmp POINT_MAX a \<noteq> Less"
    by (auto simp: point_cmp_less POINT_MAX_def not_less)
  show "point_add b (point_saturating_sub a b) = (if point_cmp a b = Less then b else a)"
    by (simp add: point_saturating_sub_def add_sub) (simp add: point_add_def point_zero_def point_eq_iff)
  have "point_is_zero (point_sub a b) \<longleftrightarrow> a = b"
    by (auto simp: point_is_zero_def point_sub_def point_eq_iff)
  then show "point_is_zero (point_saturating_sub a b) \<longleftrightarrow> point_cmp a b \<noteq> Greater"
    by (auto simp: point_saturating_sub_def point_cmp_def point_is_zero_def point_zero_def point_key_eq)
qed

end
