(* ===== verification/Utf8.thy ===== *)
theory Utf8
  imports Text_Point
begin

text \<open>
  Texts as \<open>str\<close> has them: lists of bytes that are UTF-8 encoded, and the operations of the standard library on
  byte positions that the rope uses. \<open>valid_utf8\<close> asks for a lead byte followed by as many continuation
  bytes as the lead byte announces; it does not exclude overlong forms or surrogates, so what is
  proved of valid texts holds for every \<open>str\<close>.
\<close>

section \<open>Bytes and characters\<close>

definition is_utf8_char_boundary :: "u8 \<Rightarrow> bool" where
  "is_utf8_char_boundary b \<longleftrightarrow> - 0x40 \<le> sint b"

definition utf8_len :: "u8 \<Rightarrow> nat" where
  "utf8_len b = (if b < 0x80 then 1 else if b < 0xE0 then 2 else if b < 0xF0 then 3 else 4)"

text \<open>\<open>str::chars\<close>: the encoded characters.\<close>

function str_chars :: "str \<Rightarrow> str list" where
  "str_chars [] = []"
| "str_chars (b # bs) = take (utf8_len b) (b # bs) # str_chars (drop (utf8_len b) (b # bs))"
  by pat_completeness auto
termination by (relation "measure length") (simp_all add: utf8_len_def)

definition valid_char :: "str \<Rightarrow> bool" where
  "valid_char c \<longleftrightarrow> (case c of [] \<Rightarrow> False | b # bs \<Rightarrow>
     is_utf8_char_boundary b \<and> length c = utf8_len b \<and> (\<forall>b' \<in> set bs. \<not> is_utf8_char_boundary b'))"

definition valid_utf8 :: "str \<Rightarrow> bool" where
  "valid_utf8 s \<longleftrightarrow> (\<forall>c \<in> set (str_chars s). valid_char c)"

text \<open>\<open>char::len_utf8\<close>, \<open>char::len_utf16\<close> and comparison with a newline.\<close>

definition char_len_utf16 :: "str \<Rightarrow> nat" where
  "char_len_utf16 c = (if 0xF0 \<le> hd c then 2 else 1)"

abbreviation newline :: str where
  "newline \<equiv> [10]"

section \<open>Positions\<close>

definition str_is_char_boundary :: "str \<Rightarrow> nat \<Rightarrow> bool" where
  "str_is_char_boundary s i \<longleftrightarrow> i = 0 \<or> i = length s \<or> (i < length s \<and> is_utf8_char_boundary (s ! i))"

definition str_split_at :: "str \<Rightarrow> nat \<Rightarrow> (str \<times> str) option" where
  "str_split_at s i = (if str_is_char_boundary s i then Some (take i s, drop i s) else None)"

definition str_slice :: "str \<Rightarrow> nat \<Rightarrow> nat \<Rightarrow> str option" where
  "str_slice s i j = (if i \<le> j \<and> str_is_char_boundary s i \<and> str_is_char_boundary s j
     then Some (take (j - i) (drop i s)) else None)"

fun boundary_below :: "str \<Rightarrow> nat \<Rightarrow> nat" where
  "boundary_below s 0 = 0"
| "boundary_below s (Suc i) = (if is_utf8_char_boundary (s ! Suc i) then Suc i else boundary_below s i)"

definition str_floor_char_boundary :: "str \<Rightarrow> nat \<Rightarrow> nat" where
  "str_floor_char_boundary s i = (if length s \<le> i then length s else boundary_below s i)"

definition str_ceil_char_boundary :: "str \<Rightarrow> nat \<Rightarrow> nat" where
  "str_ceil_char_boundary s i =
     (if length s \<le> i then length s else i + length (takeWhile (\<lambda>b. \<not> is_utf8_char_boundary b) (drop i s)))"

section \<open>Valid texts\<close>

lemma boundary_iff: "is_utf8_char_boundary b \<longleftrightarrow> b < 0x80 \<or> 0xC0 \<le> b"
proof -
  let ?u = "uint b"
  have u: "0 \<le> ?u" "?u < 256" using uint_lt2p [of b] by simp_all
  then have "?u div 128 = 0 \<and> ?u < 128 \<or> ?u div 128 = 1 \<and> 128 \<le> ?u" by linarith
  then have bit: "bit ?u 7 \<longleftrightarrow> 128 \<le> ?u" by (auto simp: bit_iff_odd)
  have "sint b = take_bit 8 ?u - 2 ^ 8 * of_bool (bit ?u 7)"
    using signed_take_bit_eq_take_bit_minus [of 7 ?u] by (simp add: sint_uint)
  also have "take_bit 8 ?u = ?u" using u by (simp add: take_bit_int_eq_self)
  finally have "sint b = ?u - (if 128 \<le> ?u then 256 else 0)" by (simp add: bit)
  then have "- 64 \<le> sint b \<longleftrightarrow> ?u < 128 \<or> 192 \<le> ?u" using u by (split if_splits; linarith)
  then show ?thesis by (simp add: is_utf8_char_boundary_def word_less_def word_le_def)
qed

lemma utf8_len_pos [simp]: "0 < utf8_len b"
  by (simp add: utf8_len_def)

lemma str_chars_concat: "concat (str_chars s) = s"
  by (induction s rule: str_chars.induct) simp_all

lemma str_chars_append_char: "valid_char c \<Longrightarrow> str_chars (c @ s) = c # str_chars s"
proof (cases c)
  case (Cons b bs)
  assume "valid_char c"
  with Cons have "utf8_len b = length (b # bs)" by (simp add: valid_char_def)
  then show ?thesis using Cons by simp
qed (simp add: valid_char_def)

lemma str_chars_concat_valid: "\<forall>c \<in> set cs. valid_char c \<Longrightarrow> str_chars (concat cs) = cs"
  by (induction cs) (simp_all add: str_chars_append_char)

lemma valid_utf8E:
  assumes "valid_utf8 s"
  obtains cs where "s = concat cs" "str_chars s = cs" "\<forall>c \<in> set cs. valid_char c"
  using assms str_chars_concat [of s] by (metis valid_utf8_def)

lemma valid_utf8_concat [intro]: "\<forall>c \<in> set cs. valid_char c \<Longrightarrow> valid_utf8 (concat cs)"
  by (simp add: valid_utf8_def str_chars_concat_valid)

lemma valid_utf8_Nil [simp]: "valid_utf8 []"
  by (simp add: valid_utf8_def)

lemma str_chars_append: "valid_utf8 s \<Longrightarrow> str_chars (s @ t) = str_chars s @ str_chars t"
proof -
  assume "valid_utf8 s"
  then obtain cs where cs: "s = concat cs" "str_chars s = cs" "\<forall>c \<in> set cs. valid_char c" by (rule valid_utf8E)
  have "str_chars (concat cs @ t) = cs @ str_chars t" using cs(3) by (induction cs) (simp_all add: str_chars_append_char)
  with cs show ?thesis by simp
qed

lemma valid_utf8_append: "valid_utf8 s \<Longrightarrow> valid_utf8 (s @ t) \<longleftrightarrow> valid_utf8 t"
  by (auto simp: valid_utf8_def str_chars_append)

lemma valid_char_boundary: "valid_char c \<Longrightarrow> i < length c \<Longrightarrow> is_utf8_char_boundary (c ! i) \<longleftrightarrow> i = 0"
  by (cases c; cases i) (auto simp: valid_char_def)

lemma valid_char_nonempty: "valid_char c \<Longrightarrow> c \<noteq> []"
  by (auto simp: valid_char_def)

text \<open>A boundary of a valid text separates two valid texts.\<close>

lemma valid_split:
  assumes "valid_utf8 s" "str_is_char_boundary s i"
  shows "valid_utf8 (take i s)" "valid_utf8 (drop i s)"
proof -
  have "valid_utf8 (take i (concat cs)) \<and> valid_utf8 (drop i (concat cs))"
    if "\<forall>c \<in> set cs. valid_char c" "str_is_char_boundary (concat cs) i" for cs
    using that
  proof (induction cs arbitrary: i)
    case (Cons c cs)
    then have c: "valid_char c" by simp
    show ?case
    proof (cases "i < length c")
      case True
      with Cons.prems c have "i = 0"
        using valid_char_boundary [OF c True] by (auto simp: str_is_char_boundary_def nth_append)
      with Cons.prems show ?thesis by (auto intro: valid_utf8_concat [of "c # cs", simplified])
    next
      case False
      then have "str_is_char_boundary (concat cs) (i - length c)"
        using Cons.prems(2) by (auto simp: str_is_char_boundary_def nth_append)
      then have IH: "valid_utf8 (take (i - length c) (concat cs))" "valid_utf8 (drop (i - length c) (concat cs))"
        using Cons by simp_all
      moreover have "valid_utf8 c" using valid_utf8_concat [of "[c]"] c by simp
      ultimately show ?thesis using False by (simp add: valid_utf8_append)
    qed
  qed simp
  with assms show "valid_utf8 (take i s)" "valid_utf8 (drop i s)" by (metis valid_utf8E)+
qed

lemma valid_hd: "valid_utf8 s \<Longrightarrow> s \<noteq> [] \<Longrightarrow> is_utf8_char_boundary (hd s)"
  by (cases s) (auto simp: valid_utf8_def valid_char_def utf8_len_def split: if_splits)

end
