(* ===== verification/Bit_Select.thy ===== *)
theory Bit_Select
  imports Prelude
begin

text \<open>
  Bit operations of the primitive integer types as \<open>crates/rope/src/chunk.rs\<close> uses them, and the selection of
  the n-th set bit of a 128-bit word. \<open>nth_set_bit_u64\<close> counts the ones of a word in parallel (pairs,
  nibbles, bytes, halves) and walks down these counts without branching; it is proved to return the
  position with exactly \<open>n - 1\<close> ones below it.
\<close>

unbundle bit_operations_syntax

type_synonym u128 = "128 word"

section \<open>Primitive operations\<close>

definition count_ones :: "'a::len word \<Rightarrow> nat" where
  "count_ones w = length (filter (bit w) [0..<LENGTH('a)])"

definition trailing_zeros :: "'a::len word \<Rightarrow> nat" where
  "trailing_zeros w = length (takeWhile (\<lambda>i. \<not> bit w i) [0..<LENGTH('a)])"

definition leading_zeros :: "'a::len word \<Rightarrow> nat" where
  "leading_zeros w = length (takeWhile (\<lambda>i. \<not> bit w i) (rev [0..<LENGTH('a)]))"

text \<open>\<open>unbounded_shl\<close> and \<open>unbounded_shr\<close> are \<open>push_bit\<close> and \<open>drop_bit\<close>. The plain shifts take the amount modulo
  the width, as a release build does.\<close>

definition shl :: "u128 \<Rightarrow> nat \<Rightarrow> u128" where
  "shl w k = push_bit (k mod 128) w"

definition shr :: "u128 \<Rightarrow> nat \<Rightarrow> u128" where
  "shr w k = drop_bit (k mod 128) w"

section \<open>The n-th set bit\<close>

text \<open>The statements after each \<open>let t\<close>: the block shrinks to the half that holds the bit.\<close>

definition select_step :: "nat \<Rightarrow> u64 \<Rightarrow> u64 \<times> u64 \<Rightarrow> u64 \<times> u64" where
  "select_step k t sn = (case sn of (s, n) \<Rightarrow>
     (s - drop_bit k ((t - n) AND 256), n - (t AND drop_bit 8 (t - n))))"

definition shift_by :: "u64 \<Rightarrow> u64 \<Rightarrow> u64" where
  "shift_by x s = drop_bit (unat s) x"

definition nth_set_bit_u64 :: "u64 \<Rightarrow> u64 \<Rightarrow> u64" where
  "nth_set_bit_u64 v n = (
     let v = word_reverse v;
         a = v - (drop_bit 1 v AND (- 1) div 3);
         b = (a AND (- 1) div 5) + (drop_bit 2 a AND (- 1) div 5);
         c = (b + drop_bit 4 b) AND (- 1) div 0x11;
         d = (c + drop_bit 8 c) AND (- 1) div 0x101;
         t = drop_bit 32 d + drop_bit 48 d;
         (s, n) = select_step 3 t (64, n);
         t = shift_by d (s - 16) AND 0xff;
         (s, n) = select_step 4 t (s, n);
         t = shift_by c (s - 8) AND 0xf;
         (s, n) = select_step 5 t (s, n);
         t = shift_by b (s - 4) AND 0x7;
         (s, n) = select_step 6 t (s, n);
         t = shift_by a (s - 2) AND 0x3;
         (s, n) = select_step 7 t (s, n);
         t = shift_by v (s - 1) AND 0x1;
         (s, n) = select_step 8 t (s, n)
     in 65 - s - 1)"

definition nth_set_bit :: "u128 \<Rightarrow> nat \<Rightarrow> nat" where
  "nth_set_bit v n = (
     let low = ucast v :: u64;
         high = ucast (drop_bit 64 v) :: u64;
         low_count = count_ones low
     in if low_count < n then 64 + unat (nth_set_bit_u64 high (word_of_nat (n - low_count)))
        else unat (nth_set_bit_u64 low (word_of_nat n)))"

section \<open>Ranks\<close>

definition rank :: "'a::len word \<Rightarrow> nat \<Rightarrow> nat" where
  "rank w i = length (filter (bit w) [0..<i])"

lemma rank_simps [simp]: "rank w 0 = 0" "rank w (Suc i) = rank w i + of_bool (bit w i)"
  by (simp_all add: rank_def)

lemma rank_le: "rank w i \<le> i"
  by (induction i) (auto simp: of_bool_def)

lemma rank_mono: "i \<le> j \<Longrightarrow> rank w i \<le> rank w j"
  by (induction j) (auto simp: le_Suc_eq of_bool_def)

lemma rank_cong: "(\<And>j. j < i \<Longrightarrow> bit v j = bit w j) \<Longrightarrow> rank v i = rank w i"
  by (induction i) auto

lemma count_ones_rank: "count_ones w = rank w LENGTH('a)" for w :: "'a::len word"
  by (simp add: count_ones_def rank_def)

section \<open>Fields\<close>

text \<open>A word as a list of fields of \<open>w\<close> bits, the lowest first.\<close>

definition fields :: "nat \<Rightarrow> nat list \<Rightarrow> nat" where
  "fields w xs = horner_sum (\<lambda>x. x) (2 ^ w) xs"

lemma fields_simps [simp]: "fields w [] = 0" "fields w (x # xs) = x + 2 ^ w * fields w xs"
  by (simp_all add: fields_def)

abbreviation narrow :: "nat \<Rightarrow> nat list \<Rightarrow> bool" where
  "narrow w xs \<equiv> (\<forall>x \<in> set xs. x < 2 ^ w)"

lemma bit_add_shifted:
  fixes x y :: nat
  assumes "x < 2 ^ w"
  shows "bit (x + 2 ^ w * y) i \<longleftrightarrow> (if i < w then bit x i else bit y (i - w))"
proof -
  have b: "\<not> bit x i" if "w \<le> i" for i
  proof -
    have "x < 2 ^ i" using assms that by (meson less_le_trans one_le_numeral power_increasing)
    then show ?thesis by (simp add: bit_iff_odd)
  qed
  have d: "and x (push_bit w y) = 0"
    by (rule bit_eqI) (use b in \<open>auto simp: bit_simps not_le\<close>)
  have "x + 2 ^ w * y = or x (push_bit w y)"
    using disjunctive_add_eq_or [OF d] by (simp add: push_bit_eq_mult mult.commute)
  then show ?thesis using b by (auto simp: bit_simps not_le)
qed

lemma bit_fields:
  "narrow w xs \<Longrightarrow> 0 < w \<Longrightarrow> bit (fields w xs) i \<longleftrightarrow> i div w < length xs \<and> bit (xs ! (i div w)) (i mod w)"
proof (induction xs arbitrary: i)
  case (Cons x xs)
  show ?case
  proof (cases "i < w")
    case True
    with Cons.prems show ?thesis by (simp add: bit_add_shifted)
  next
    case False
    then have "i div w = Suc ((i - w) div w)" "i mod w = (i - w) mod w"
      using Cons.prems(2) by (simp_all add: le_div_geq le_mod_geq)
    with False Cons show ?thesis by (simp add: bit_add_shifted)
  qed
qed simp

lemma fields_less: "narrow w xs \<Longrightarrow> fields w xs < 2 ^ (w * length xs)"
proof (induction xs)
  case (Cons x xs)
  then have "fields w xs + 1 \<le> 2 ^ (w * length xs)" by simp
  then have "2 ^ w * (fields w xs + 1) \<le> 2 ^ w * 2 ^ (w * length xs)" by (rule mult_left_mono) simp
  with Cons.prems show ?case by (simp add: power_add algebra_simps)
qed simp

lemma drop_fields: "narrow w xs \<Longrightarrow> drop_bit (w * k) (fields w xs) = fields w (drop k xs)"
proof (induction k arbitrary: xs)
  case (Suc k)
  show ?case
  proof (cases xs)
    case (Cons x ys)
    with Suc.prems have "drop_bit w (fields w xs) = fields w ys" by (simp add: drop_bit_eq_div)
    with Suc Cons show ?thesis by (simp add: drop_bit_drop_bit [symmetric] add.commute [of w])
  qed simp
qed simp

lemma take_fields: "narrow w xs \<Longrightarrow> xs \<noteq> [] \<Longrightarrow> take_bit w (fields w xs) = hd xs"
  by (cases xs) (simp_all add: take_bit_eq_mod)

fun evens :: "'a list \<Rightarrow> 'a list" where
  "evens (x # y # zs) = x # evens zs"
| "evens zs = zs"

fun odds :: "'a list \<Rightarrow> 'a list" where
  "odds (x # y # zs) = y # odds zs"
| "odds zs = []"

fun pair_sums :: "nat list \<Rightarrow> nat list" where
  "pair_sums (x # y # zs) = (x + y) # pair_sums zs"
| "pair_sums zs = zs"

text \<open>The mask that keeps the lower half of every field.\<close>

definition half_mask :: "nat \<Rightarrow> nat \<Rightarrow> nat" where
  "half_mask w n = fields (2 * w) (replicate n (2 ^ w - 1))"

lemma and_half_mask:
  assumes "narrow w xs" "length xs = 2 * n"
  shows "and (fields w xs) (half_mask w n) = fields (2 * w) (evens xs)"
  using assms
proof (induction xs arbitrary: n rule: evens.induct)
  case (1 x y zs)
  then obtain m where n: "n = Suc m" "length zs = 2 * m" by (cases n) auto
  have x: "x < 2 ^ w" "y < 2 ^ w" using 1 by auto
  have "(2 :: nat) ^ (2 * w) = 2 ^ w * 2 ^ w" by (simp add: mult_2 power_add)
  then have eq: "fields w (x # y # zs) = (x + 2 ^ w * y) + 2 ^ (2 * w) * fields w zs"
    by (simp add: algebra_simps)
  have xy: "x + 2 ^ w * y < 2 ^ (2 * w)" using fields_less [of "[x, y]" w] x by (simp add: mult_2)
  have m: "half_mask w n = (2 ^ w - 1) + 2 ^ (2 * w) * half_mask w m" by (simp add: half_mask_def n)
  have w2: "(2::nat) ^ w \<le> 2 ^ (2 * w)" by (rule power_increasing) simp_all
  then have mw: "(2::nat) ^ w - 1 < 2 ^ (2 * w)" by (rule less_le_trans [rotated]) simp
  have IH: "and (fields w zs) (half_mask w m) = fields (2 * w) (evens zs)" using 1 n by simp
  have "and (fields w (x # y # zs)) (half_mask w n) = x + 2 ^ (2 * w) * and (fields w zs) (half_mask w m)"
  proof (rule bit_eqI)
    fix i
    have x2: "x < 2 ^ (2 * w)" using x(1) w2 by (rule less_le_trans)
    have k: "bit ((2::nat) ^ w - 1) i \<longleftrightarrow> i < w" using bit_mask_iff [of w i, where ?'a = nat] by (simp add: mask_eq_exp_minus_1)
    have "bit x i \<Longrightarrow> i < w" using x(1) by (metis bit_take_bit_iff take_bit_nat_eq_self_iff)
    then show "bit (and (fields w (x # y # zs)) (half_mask w n)) i =
        bit (x + 2 ^ (2 * w) * and (fields w zs) (half_mask w m)) i"
      unfolding eq m bit_and_iff bit_add_shifted [OF xy] bit_add_shifted [OF mw] bit_add_shifted [OF x2] k
      using bit_add_shifted [OF x(1), of y i] by (auto simp: bit_and_iff)
  qed
  then show ?case by (simp only: IH) simp
qed auto


section \<open>Counting in parallel\<close>

lemma fields_add: "length xs = length ys \<Longrightarrow> fields w xs + fields w ys = fields w (map2 (+) xs ys)"
proof (induction xs ys rule: list_induct2)
  case (Cons x xs y ys)
  show ?case by (simp flip: Cons.IH) (simp add: algebra_simps)
qed simp

lemma length_halves:
  "length (evens xs) = (length xs + 1) div 2" "length (odds xs) = length xs div 2"
  "length (pair_sums xs) = (length xs + 1) div 2"
proof -
  show "length (evens xs) = (length xs + 1) div 2" by (induction xs rule: evens.induct) auto
  show "length (odds xs) = length xs div 2" by (induction xs rule: odds.induct) auto
  show "length (pair_sums xs) = (length xs + 1) div 2" by (induction xs rule: pair_sums.induct) auto
qed

lemma nth_pair_sums: "2 * j + 1 < length xs \<Longrightarrow> pair_sums xs ! j = xs ! (2 * j) + xs ! (2 * j + 1)"
  by (induction xs arbitrary: j rule: pair_sums.induct) (auto simp: nth_Cons' gr0_conv_Suc)

lemma pair_sums_odds: "even (length xs) \<Longrightarrow> fields 1 xs = fields 2 (pair_sums xs) + fields 2 (odds xs)"
  by (induction xs rule: pair_sums.induct) auto

lemma evens_shifted: "even (length xs) \<Longrightarrow> evens (map2 (+) xs (tl xs @ [z])) = pair_sums xs"
proof (induction xs rule: pair_sums.induct)
  case (1 x y zs)
  then show ?case by (cases zs) auto
qed auto

lemma pair_sums_evens_odds: "even (length xs) \<Longrightarrow> pair_sums xs = map2 (+) (evens xs) (odds xs)"
  by (induction xs rule: pair_sums.induct) auto

lemma narrow_pair_sums: "\<forall>x \<in> set xs. x \<le> m \<Longrightarrow> \<forall>x \<in> set (pair_sums xs). x \<le> 2 * m"
  by (induction xs rule: pair_sums.induct) auto


lemma evens_tl: "even (length xs) \<Longrightarrow> xs \<noteq> [] \<Longrightarrow> evens (tl xs @ [z]) = odds xs"
proof (induction xs rule: odds.induct)
  case (1 x y zs)
  then show ?case by (cases zs) auto
qed auto

lemma fields_snoc_0: "fields w (xs @ [0]) = fields w xs"
  by (induction xs) simp_all

lemma fields_le_less: "\<forall>x \<in> set xs. x \<le> m \<Longrightarrow> m < 2 ^ w \<Longrightarrow> w * length xs = 64 \<Longrightarrow> fields w xs < 2 ^ 64"
  using fields_less [of xs w] le_less_trans [of _ m "2 ^ w"] by fastforce

lemma unat_add_less: "unat x + unat y < 2 ^ 64 \<Longrightarrow> unat (x + y) = unat x + unat y" for x y :: "64 word"
  by (simp add: unat_word_ariths)

lemma half_mask_closed: "(2 ^ w + 1) * half_mask w n + 1 = 2 ^ (2 * w * n)"
proof (induction n)
  case (Suc n)
  have sq: "(2::nat) ^ (2 * w) = 2 ^ w * 2 ^ w" by (simp add: mult_2 power_add)
  have h: "half_mask w (Suc n) = (2 ^ w - 1) + 2 ^ (2 * w) * half_mask w n" by (simp add: half_mask_def)
  have "(2 ^ w + 1) * half_mask w (Suc n) + 1 = (2 ^ w + 1) * (2 ^ w - 1) + 1 + 2 ^ (2 * w) * ((2 ^ w + 1) * half_mask w n)"
    by (simp add: h algebra_simps)
  also have "(2 ^ w + 1) * (2 ^ w - 1) + 1 = (2 :: nat) ^ (2 * w)" unfolding sq by (simp add: algebra_simps)
  also have "2 ^ (2 * w) + 2 ^ (2 * w) * ((2 ^ w + 1) * half_mask w n) = 2 ^ (2 * w) * ((2 ^ w + 1) * half_mask w n + 1)"
    by (simp add: algebra_simps)
  also note Suc
  finally show ?case by (simp add: power_add)
qed (simp add: half_mask_def)

lemma masks:
  "unat ((- 1) div 3 :: 64 word) = half_mask 1 32" "unat ((- 1) div 5 :: 64 word) = half_mask 2 16"
  "unat ((- 1) div 0x11 :: 64 word) = half_mask 4 8" "unat ((- 1) div 0x101 :: 64 word) = half_mask 8 4"
  using half_mask_closed [of 1 32] half_mask_closed [of 2 16] half_mask_closed [of 4 8] half_mask_closed [of 8 4]
  by (simp_all add: unat_div_distrib unsigned_minus_1_eq_mask mask_eq_exp_minus_1)

definition bit_list :: "64 word \<Rightarrow> nat list" where
  "bit_list v = map (\<lambda>i. of_bool (bit v i)) [0..<64]"

lemma unat_bit_list: "unat v = fields 1 (bit_list v)"
proof -
  have "take_bit 64 (unat v) = horner_sum of_bool 2 (map (bit (unat v)) [0..<64])"
    by (rule horner_sum_bit_eq_take_bit [symmetric])
  moreover have "take_bit 64 (unat v) = unat v" using unsigned_less [of v, where ?'a = nat] by (simp add: take_bit_nat_eq_self)
  moreover have "horner_sum of_bool 2 (map P is) = fields 1 (map (\<lambda>i. of_bool (P i)) is)" for P and "is" :: "nat list"
    by (induction "is") simp_all
  ultimately show ?thesis by (simp add: bit_list_def bit_unsigned_iff)
qed

lemma unat_and: "unat (x AND y) = and (unat x) (unat y)" for x y :: "'a::len word"
  by (rule bit_eqI) (simp add: bit_simps)

lemma unat_drop_bit: "unat (drop_bit k x) = drop_bit k (unat x)" for x :: "'a::len word"
  by (rule bit_eqI) (auto simp: bit_simps dest: bit_imp_le_length)

lemma set_map2_add: "\<forall>x \<in> set xs. x \<le> m \<Longrightarrow> \<forall>y \<in> set ys. y \<le> k \<Longrightarrow> \<forall>z \<in> set (map2 (+) xs ys). z \<le> m + (k::nat)"
  by (auto dest: set_zip_leftD set_zip_rightD intro: add_mono)

lemma drop_one_field: "narrow w xs \<Longrightarrow> xs \<noteq> [] \<Longrightarrow> drop_bit w (fields w xs) = fields w (tl xs @ [0])"
  using drop_fields [of xs w 1] by (simp add: fields_snoc_0 drop_Suc)

lemma fold_pairs:
  assumes x: "unat (x :: 64 word) = fields w xs" and xs: "\<forall>x \<in> set xs. x \<le> m" "2 * m < 2 ^ w" "length xs = 2 * n" "w * length xs = 64"
    and mk: "unat mk = half_mask w n"
  shows "unat ((x + drop_bit w x) AND mk) = fields (2 * w) (pair_sums xs)"
proof -
  let ?ys = "map2 (+) xs (tl xs @ [0])"
  have ne: "xs \<noteq> []" and len: "length ?ys = length xs" using xs(4) by auto
  have narrow: "narrow w xs" using xs(1,2) by auto
  have "\<forall>y \<in> set (tl xs @ [0]). y \<le> m" using xs(1) by (auto dest: list.set_sel(2) [OF ne])
  then have ys: "\<forall>y \<in> set ?ys. y \<le> 2 * m" using set_map2_add [OF xs(1), of "tl xs @ [0]" m] by (simp only: mult_2)
  then have ysn: "narrow w ?ys" using xs(2) by auto
  have sum: "unat x + unat (drop_bit w x) = fields w ?ys"
    using fields_add [of xs "tl xs @ [0]"] ne by (simp add: x unat_drop_bit drop_one_field [OF narrow ne])
  have "fields w ?ys < 2 ^ 64" using fields_le_less [OF ys xs(2)] len xs(4) by simp
  then have "unat (x + drop_bit w x) = fields w ?ys" using unat_add_less [of x "drop_bit w x"] sum by simp
  then have "unat ((x + drop_bit w x) AND mk) = fields (2 * w) (evens ?ys)"
    using and_half_mask [OF ysn, of n] len xs(3) by (simp add: unat_and mk)
  then show ?thesis using evens_shifted [of xs 0] xs(3) by simp
qed

lemma add_pairs:
  assumes x: "unat (x :: 64 word) = fields w xs" and xs: "\<forall>x \<in> set xs. x \<le> m" "m < 2 ^ w" "2 * m < 2 ^ (2 * w)" "length xs = 2 * n" "w * length xs = 64"
    and mk: "unat mk = half_mask w n"
  shows "unat ((x AND mk) + (drop_bit w x AND mk)) = fields (2 * w) (pair_sums xs)"
proof -
  have ne: "xs \<noteq> []" and ev: "even (length xs)" using xs(4,5) by auto
  then have len: "length (tl xs @ [0]) = 2 * n" using xs(4) by (cases xs) auto
  have narrow: "narrow w xs" using xs(1,2) by auto
  then have narrow2: "narrow w (tl xs @ [0])" by (auto dest: list.set_sel(2) [OF ne])
  have e: "unat (x AND mk) = fields (2 * w) (evens xs)"
    using and_half_mask [OF narrow xs(4)] by (simp add: unat_and mk x)
  have o: "unat (drop_bit w x AND mk) = fields (2 * w) (odds xs)"
    using and_half_mask [OF narrow2 len] evens_tl [OF ev ne, of 0]
    by (simp add: unat_and mk x unat_drop_bit drop_one_field [OF narrow ne])
  have "fields (2 * w) (evens xs) + fields (2 * w) (odds xs) = fields (2 * w) (pair_sums xs)"
    using fields_add [of "evens xs" "odds xs" "2 * w"] pair_sums_evens_odds [OF ev] xs(4) by (simp add: length_halves)
  moreover have "fields (2 * w) (pair_sums xs) < 2 ^ 64"
    using xs(4,5) by (intro fields_le_less [OF narrow_pair_sums [OF xs(1)] xs(3)]) (simp add: length_halves)
  ultimately show ?thesis using unat_add_less [of "x AND mk" "drop_bit w x AND mk"] e o by simp
qed

lemma sub_pairs:
  assumes "unat mk = half_mask 1 32"
  shows "unat (v - (drop_bit 1 v AND mk)) = fields 2 (pair_sums (bit_list v))"
proof -
  let ?b = "bit_list v"
  have b: "length ?b = 2 * 32" "?b \<noteq> []" by (simp_all add: bit_list_def)
  have narrow: "narrow 1 ?b" by (auto simp: bit_list_def)
  then have narrow2: "narrow 1 (tl ?b @ [0])" by (auto dest: list.set_sel(2) [OF b(2)])
  have o: "unat (drop_bit 1 v AND mk) = fields 2 (odds ?b)"
    using and_half_mask [OF narrow2, of 32] evens_tl [of ?b 0] b
    by (simp add: unat_and assms unat_bit_list [of v] unat_drop_bit drop_one_field [OF narrow b(2), simplified])
  have "unat v = fields 2 (pair_sums ?b) + fields 2 (odds ?b)"
    using pair_sums_odds [of ?b] b by (simp add: unat_bit_list [of v])
  with o show ?thesis by (simp add: unat_sub word_le_nat_alt)
qed


section \<open>Selection\<close>

lemma and_exp: "w AND 2 ^ k = (if bit w k then 2 ^ k else 0)" for w :: "'a::len word"
  by (rule bit_word_eqI) (auto simp: bit_and_iff bit_exp_iff)

lemma select_step_word:
  fixes t n :: "64 word"
  assumes t: "unat t = lo + 65536 * hi" "lo < 256" "hi < 256" and n: "1 \<le> unat n" "unat n \<le> 64"
  shows "(t - n) AND 256 = (if lo < unat n then 256 else 0)"
    and "t AND drop_bit 8 (t - n) = (if lo < unat n then word_of_nat lo else 0)"
proof -
  have "\<exists>q. unat (t - n) = (if lo < unat n then 65536 + lo - unat n else lo - unat n) + 65536 * q \<and>
      (lo < unat n \<longrightarrow> hi \<noteq> 0 \<longrightarrow> q < 256) \<and> (\<not> lo < unat n \<longrightarrow> q < 256)"
  proof (cases "lo < unat n")
    case True
    show ?thesis
    proof (cases hi)
      case 0
      have "unat (t - n) = 2 ^ 64 + lo - unat n" using True t n 0 by (simp add: unat_sub_if_size word_le_nat_alt word_size)
      then have "unat (t - n) = (65536 + lo - unat n) + 65536 * (2 ^ 48 - 1)" using n by simp
      then show ?thesis using 0 True by (intro exI [of _ "2 ^ 48 - 1"]) simp
    next
      case (Suc q)
      have "unat (t - n) = lo + 65536 * hi - unat n" using t n Suc by (simp add: unat_sub word_le_nat_alt)
      then show ?thesis using Suc True n t by (intro exI [of _ q]) simp
    qed
  next
    case False
    then have "unat (t - n) = (lo - unat n) + 65536 * hi" using t by (simp add: unat_sub word_le_nat_alt)
    then show ?thesis using False t by (intro exI [of _ hi]) simp
  qed
  then obtain q where q: "unat (t - n) = (if lo < unat n then 65536 + lo - unat n else lo - unat n) + 65536 * q"
    "lo < unat n \<Longrightarrow> hi \<noteq> 0 \<Longrightarrow> q < 256" "\<not> lo < unat n \<Longrightarrow> q < 256" by blast
  let ?less = "lo < unat n"
  have drop: "drop_bit 8 (unat (t - n)) = (if ?less then 255 + 256 * q else 256 * q)"
  proof (cases ?less)
    case True
    then have "unat (t - n) = (256 + lo - unat n) + 256 * (255 + 256 * q)" using q(1) n by simp
    moreover have "256 + lo - unat n < 256" using True n by simp
    ultimately show ?thesis using True by (simp add: drop_bit_eq_div)
  next
    case False
    then have "unat (t - n) = (lo - unat n) + 256 * (256 * q)" "lo - unat n < 256" using q(1) t by simp_all
    then show ?thesis using False by (simp add: drop_bit_eq_div)
  qed
  have "bit (t - n) 8 \<longleftrightarrow> bit (unat (t - n)) 8" by (simp add: bit_unsigned_iff)
  then have "bit (t - n) 8 \<longleftrightarrow> ?less" unfolding bit_iff_odd_drop_bit drop by simp
  moreover have "w AND 256 = (if bit w 8 then 256 else 0)" for w :: "64 word"
    using and_exp [of w 8] by simp
  ultimately show "(t - n) AND 256 = (if ?less then 256 else 0)" by simp
  have hi: "\<not> bit x i" if "x < 256" "8 \<le> i" for x i :: nat
  proof -
    have "take_bit 8 x = x" using that(1) by (simp add: take_bit_nat_eq_self)
    with that(2) show ?thesis by (metis bit_take_bit_iff not_le)
  qed
  have "and (lo + 2 ^ 16 * hi) (drop_bit 8 (unat (t - n))) = (if ?less then lo else 0)"
  proof (rule bit_eqI)
    fix i
    have "lo < 2 ^ 16" using t(2) by simp
    then have l: "bit (lo + 2 ^ 16 * hi) i \<longleftrightarrow> (if i < 16 then bit lo i else bit hi (i - 16))" by (rule bit_add_shifted)
    have m: "bit ((if ?less then 255 else 0) + 2 ^ 8 * q) i \<longleftrightarrow> (if i < 8 then ?less else bit q (i - 8))"
      using bit_add_shifted [of "if ?less then 255 else 0" 8 q i] bit_mask_iff [of 8 i, where ?'a = nat] by (simp add: mask_eq_exp_minus_1)
    show "bit (and (lo + 2 ^ 16 * hi) (drop_bit 8 (unat (t - n)))) i \<longleftrightarrow> bit (if ?less then lo else 0) i"
      using l m drop q(2,3) t(2,3) hi [of lo i] hi [of q "i - 8"]
      by (cases ?less; cases "hi = 0") (auto simp: bit_and_iff)
  qed
  then have "unat (t AND drop_bit 8 (t - n)) = (if ?less then lo else 0)"
    using t(1) by (simp add: unat_and unat_drop_bit)
  then show "t AND drop_bit 8 (t - n) = (if ?less then word_of_nat lo else 0)"
    using t(2) by (simp add: word_unat_eq_iff unsigned_of_nat take_bit_nat_eq_self)
qed


text \<open>The number of ones between two positions, and the invariant of the search: the bit in question is
  the \<open>n\<close>-th one from the top of the block of size \<open>w\<close> that ends at \<open>s\<close>.\<close>

definition span :: "nat list \<Rightarrow> nat \<Rightarrow> nat \<Rightarrow> nat" where
  "span xs l h = (\<Sum>i = l..<h. xs ! i)"

lemma span_split: "l \<le> m \<Longrightarrow> m \<le> h \<Longrightarrow> span xs l h = span xs l m + span xs m h"
  by (simp add: span_def sum.atLeastLessThan_concat)

lemma span_le: "\<forall>i < h. xs ! i \<le> 1 \<Longrightarrow> span xs l h \<le> h - l"
  using sum_bounded_above [of "{l..<h}" "(!) xs" 1] by (simp add: span_def)

definition select_inv :: "nat list \<Rightarrow> nat \<Rightarrow> nat \<Rightarrow> 64 word \<times> 64 word \<Rightarrow> bool" where
  "select_inv xs k w sn \<longleftrightarrow> (case sn of (s, n) \<Rightarrow>
     w \<le> unat s \<and> w dvd unat s \<and> unat s \<le> 64 \<and> 1 \<le> unat n \<and> unat n \<le> 64 \<and>
     span xs (unat s) 64 + unat n = k \<and> unat n \<le> span xs (unat s - w) (unat s))"

lemma select_step_inv:
  assumes inv: "select_inv xs k (2 * w) (s, n)" and xs: "\<forall>i < 64. xs ! i \<le> 1"
    and t: "unat t = span xs (unat s - w) (unat s) + 65536 * hi" "hi < 256"
    and d: "drop_bit d 256 = (word_of_nat w :: 64 word)" "w \<le> 32"
  shows "select_inv xs k w (select_step d t (s, n))"
proof -
  let ?l = "span xs (unat s - w) (unat s)"
  have s: "2 * w \<le> unat s" "2 * w dvd unat s" "unat s \<le> 64" "1 \<le> unat n" "unat n \<le> 64"
    "span xs (unat s) 64 + unat n = k" "unat n \<le> span xs (unat s - 2 * w) (unat s)"
    using inv by (simp_all add: select_inv_def)
  have "?l \<le> unat s - (unat s - w)" using xs s(3) by (intro span_le) simp
  then have l: "?l < 256" using d(2) by simp
  note step = select_step_word [OF t(1) l t(2) s(4,5)]
  have dvd: "w dvd unat s" using s(2) by (rule dvd_mult_right)
  show ?thesis
  proof (cases "?l < unat n")
    case True
    have "unat (s - word_of_nat w) = unat s - w"
      using s(1,3) by (simp add: unat_sub word_le_nat_alt unsigned_of_nat take_bit_nat_eq_self)
    moreover have "unat (n - word_of_nat ?l) = unat n - ?l"
      using True l s(5) by (simp add: unat_sub word_le_nat_alt unsigned_of_nat take_bit_nat_eq_self)
    moreover have "span xs (unat s - w) 64 = ?l + span xs (unat s) 64" using s(3) by (intro span_split) simp_all
    moreover have "span xs (unat s - 2 * w) (unat s) = span xs (unat s - 2 * w) (unat s - w) + ?l" by (intro span_split) simp_all
    moreover have "unat s - w - w = unat s - 2 * w" by simp
    moreover have "w dvd unat s - w" using dvd by (simp add: dvd_diff_nat)
    moreover have "select_step d t (s, n) = (s - word_of_nat w, n - word_of_nat ?l)"
      using True step d(1) by (simp only: select_step_def prod.case if_True)
    ultimately show ?thesis using True s by (simp add: select_inv_def) linarith
  next
    case False
    then have "select_step d t (s, n) = (s, n)" using step by (simp only: select_step_def prod.case) simp
    moreover have "span xs (unat s - 2 * w) (unat s) = span xs (unat s - 2 * w) (unat s - w) + ?l" by (intro span_split) simp_all
    ultimately show ?thesis using False s dvd by (simp add: select_inv_def)
  qed
qed

lemma field_at:
  assumes "unat (x :: 64 word) = fields w xs" "\<forall>y \<in> set xs. y < 2 ^ m" "m \<le> w" "unat s = w * Suc j" "j < length xs" "w \<le> 64"
    and mk: "unat mk = 2 ^ m - 1"
  shows "unat (shift_by x (s - word_of_nat w) AND mk) = xs ! j"
proof -
  have n: "narrow w xs" using assms(2,3) by (meson less_le_trans one_le_numeral power_increasing)
  have "unat (s - word_of_nat w) = w * j" using assms(4,6) by (simp add: unat_sub word_le_nat_alt unsigned_of_nat take_bit_nat_eq_self)
  then have "unat (shift_by x (s - word_of_nat w)) = fields w (drop j xs)"
    using drop_fields [OF n, of j] assms(1) by (simp add: shift_by_def unat_drop_bit)
  also have "\<dots> = xs ! j + 2 ^ w * fields w (drop (Suc j) xs)" using assms(5) by (simp add: Cons_nth_drop_Suc [symmetric])
  finally have sh: "unat (shift_by x (s - word_of_nat w)) = xs ! j + 2 ^ w * fields w (drop (Suc j) xs)" .
  have "unat mk = mask m" using mk by (simp add: mask_eq_exp_minus_1)
  moreover have "take_bit m (xs ! j + 2 ^ w * z) = xs ! j" for z
  proof -
    have "2 ^ w * z = 2 ^ m * (2 ^ (w - m) * z)" using assms(3) by (simp flip: power_add mult.assoc)
    then show ?thesis using assms(2,5) by (simp only: take_bit_eq_mod mod_mult_self2) simp
  qed
  ultimately show ?thesis using sh by (simp add: unat_and flip: take_bit_eq_mask)
qed


definition blocks :: "nat \<Rightarrow> nat list \<Rightarrow> nat list \<Rightarrow> bool" where
  "blocks w bs xs \<longleftrightarrow> w * length xs = 64 \<and> (\<forall>j < length xs. xs ! j = span bs (w * j) (w * Suc j))"

lemma blocks_pair_sums:
  assumes "blocks w bs xs" "even (length xs)"
  shows "blocks (2 * w) bs (pair_sums xs)"
proof -
  obtain n where n: "length xs = 2 * n" using assms(2) by blast
  have "pair_sums xs ! j = span bs (2 * w * j) (2 * w * Suc j)" if "j < n" for j
  proof -
    have "pair_sums xs ! j = span bs (w * (2 * j)) (w * Suc (2 * j)) + span bs (w * Suc (2 * j)) (w * Suc (Suc (2 * j)))"
      using assms(1) n that nth_pair_sums [of j xs] by (simp add: blocks_def)
    also have "\<dots> = span bs (w * (2 * j)) (w * Suc (Suc (2 * j)))" by (rule span_split [symmetric]) simp_all
    finally show ?thesis by (simp add: algebra_simps)
  qed
  then show ?thesis using assms(1) n by (simp add: blocks_def length_halves)
qed

lemma blocks_bound:
  assumes "blocks w bs xs" "\<forall>i < 64. bs ! i \<le> 1"
  shows "\<forall>x \<in> set xs. x \<le> w"
proof
  fix x assume "x \<in> set xs"
  then obtain j where j: "j < length xs" "x = xs ! j" by (auto simp: in_set_conv_nth)
  then have "w * Suc j \<le> w * length xs" by (intro mult_le_mono2) simp
  then have "span bs (w * j) (w * Suc j) \<le> w * Suc j - w * j" using assms by (intro span_le) (auto simp: blocks_def)
  with assms j show "x \<le> w" by (simp add: blocks_def)
qed

lemma select_stage:
  assumes inv: "select_inv bs k (2 * w) (s, n)" and bs: "\<forall>i < 64. bs ! i \<le> 1"
    and x: "unat x = fields w xs" "blocks w bs xs" and w: "w < 2 ^ m" "m \<le> w" "w \<le> 32" "0 < w"
    and c: "drop_bit d 256 = sw" "sw = word_of_nat w" "unat mk = 2 ^ m - 1"
  shows "select_inv bs k w (select_step d (shift_by x (s - sw) AND mk) (s, n))"
proof -
  have s: "2 * w \<le> unat s" "w dvd unat s" "unat s \<le> 64" using inv by (auto simp: select_inv_def intro: dvd_mult_right)
  then obtain i where i: "unat s = w * i" by blast
  with s(1) w(4) obtain j where j: "unat s = w * Suc j" by (cases i) auto
  have "\<forall>y \<in> set xs. y < 2 ^ m" using blocks_bound [OF x(2) bs] w(1) by auto
  moreover have "j < length xs"
  proof -
    have "w * Suc j \<le> w * length xs" using j s(3) x(2) by (simp add: blocks_def)
    then show ?thesis using w(4) by (simp only: mult_le_cancel1) simp
  qed
  ultimately have "unat (shift_by x (s - sw) AND mk) = xs ! j"
    unfolding c(2) using w c(3) j by (intro field_at [OF x(1)]) auto
  also have "\<dots> = span bs (unat s - w) (unat s)" using x(2) j \<open>j < length xs\<close> by (simp add: blocks_def)
  finally show ?thesis using c w by (intro select_step_inv [OF inv bs, where hi = 0]) simp_all
qed


lemma bit_list_le: "\<forall>i < 64. bit_list v ! i \<le> 1"
  by (simp add: bit_list_def)

lemma span_reverse: "m \<le> 64 \<Longrightarrow> span (bit_list (word_reverse v)) (64 - m) 64 = rank v m"
proof (induction m)
  case (Suc m)
  let ?b = "bit_list (word_reverse v)"
  have "span ?b (64 - Suc m) 64 = span ?b (64 - Suc m) (64 - m) + span ?b (64 - m) 64" by (intro span_split) simp_all
  moreover have "{64 - Suc m..<64 - m} = {63 - m}" using Suc.prems by auto
  then have "span ?b (64 - Suc m) (64 - m) = of_bool (bit v m)"
    using Suc.prems by (simp add: span_def bit_list_def bit_word_reverse_iff)
  ultimately show ?case using Suc by simp
qed (simp add: span_def)

lemma nth_set_bit_u64_correct:
  assumes n: "1 \<le> unat n" "unat n \<le> rank v 64"
  shows "\<exists>p. unat (nth_set_bit_u64 v n) = p \<and> p < 64 \<and> bit v p \<and> Suc (rank v p) = unat n"
proof -
  define r where "r = word_reverse v"
  define bs where "bs = bit_list r"
  define a where "a = r - (drop_bit 1 r AND (- 1) div 3)"
  define b where "b = (a AND (- 1) div 5) + (drop_bit 2 a AND (- 1) div 5)"
  define c where "c = (b + drop_bit 4 b) AND (- 1) div 0x11"
  define d where "d = (c + drop_bit 8 c) AND (- 1) div 0x101"
  define A where "A = pair_sums bs"
  define B where "B = pair_sums A"
  define C where "C = pair_sums B"
  define D where "D = pair_sums C"
  have bs: "\<forall>i < 64. bs ! i \<le> 1" unfolding bs_def by (rule bit_list_le)
  have len: "length bs = 64" "length A = 32" "length B = 16" "length C = 8" "length D = 4"
    by (simp_all add: bs_def A_def B_def C_def D_def bit_list_def length_halves)
  have blk1: "blocks 1 bs bs" by (simp add: blocks_def len span_def)
  have blk2: "blocks 2 bs A" using blocks_pair_sums [OF blk1] len by (simp add: A_def)
  have blk4: "blocks 4 bs B" using blocks_pair_sums [OF blk2] len by (simp add: B_def)
  have blk8: "blocks 8 bs C" using blocks_pair_sums [OF blk4] len by (simp add: C_def)
  have blk16: "blocks 16 bs D" using blocks_pair_sums [OF blk8] len by (simp add: D_def)
  have ur: "unat r = fields 1 bs" by (simp add: bs_def unat_bit_list)
  have ua: "unat a = fields 2 A" using sub_pairs [OF masks(1)] by (simp add: a_def A_def bs_def)
  have ub: "unat b = fields 4 B"
    using add_pairs [OF ua blocks_bound [OF blk2 bs], of 16, OF _ _ _ _ masks(2)] len by (simp add: b_def B_def)
  have uc: "unat c = fields 8 C"
    using fold_pairs [OF ub blocks_bound [OF blk4 bs], of 8, OF _ _ _ masks(3)] len by (simp add: c_def C_def)
  have ud: "unat d = fields 16 D"
    using fold_pairs [OF uc blocks_bound [OF blk8 bs], of 4, OF _ _ _ masks(4)] len by (simp add: d_def D_def)
  define t where "t = drop_bit 32 d + drop_bit 48 d"
  define s1 where "s1 = select_step 3 t (64, n)"
  define s2 where "s2 = select_step 4 (shift_by d (fst s1 - 16) AND 0xff) s1"
  define s3 where "s3 = select_step 5 (shift_by c (fst s2 - 8) AND 0xf) s2"
  define s4 where "s4 = select_step 6 (shift_by b (fst s3 - 4) AND 0x7) s3"
  define s5 where "s5 = select_step 7 (shift_by a (fst s4 - 2) AND 0x3) s4"
  define s6 where "s6 = select_step 8 (shift_by r (fst s5 - 1) AND 0x1) s5"
  have res: "nth_set_bit_u64 v n = 65 - fst s6 - 1"
    unfolding nth_set_bit_u64_def Let_def r_def [symmetric] a_def [symmetric] b_def [symmetric] c_def [symmetric] d_def [symmetric]
      t_def [symmetric] s1_def [symmetric] by (simp only: split_def prod.collapse s2_def s3_def s4_def s5_def s6_def)
  have "select_inv bs (unat n) 64 (64, n)"
    using n span_reverse [of 64 v] rank_le [of v 64] by (simp add: select_inv_def span_def bs_def r_def)
  moreover have "unat t = span bs 32 64 + 65536 * (D ! 3)"
  proof -
    have dn: "narrow 16 D" using blocks_bound [OF blk16 bs] by auto
    have "drop 2 D = [D ! 2, D ! 3]" "drop 3 D = [D ! 3]" using Cons_nth_drop_Suc [of 2 D] Cons_nth_drop_Suc [of 3 D] len(5) by simp_all
    then have "unat (drop_bit 32 d) = D ! 2 + 65536 * (D ! 3)" "unat (drop_bit 48 d) = D ! 3"
      using drop_fields [OF dn, of 2] drop_fields [OF dn, of 3] by (simp_all add: unat_drop_bit ud)
    moreover have "D ! 2 = span bs 32 48" "D ! 3 = span bs 48 64" using blk16 len(5) by (simp_all add: blocks_def)
    moreover have "D ! 2 \<le> 16" "D ! 3 \<le> 16" using blocks_bound [OF blk16 bs] len(5) by simp_all
    ultimately show ?thesis
      using unat_add_less [of "drop_bit 32 d" "drop_bit 48 d"] span_split [of 32 48 64 bs] by (simp add: t_def)
  qed
  moreover have "D ! 3 < 256" using blocks_bound [OF blk16 bs] len(5) by (auto dest!: bspec [of _ _ "D ! 3"])
  ultimately have "select_inv bs (unat n) 32 s1"
    unfolding s1_def by (intro select_step_inv [where hi = "D ! 3"] bs) simp_all
  then have "select_inv bs (unat n) (2 * 16) (fst s1, snd s1)" by simp
  then have "select_inv bs (unat n) 16 (select_step 4 (shift_by d (fst s1 - 16) AND 0xff) (fst s1, snd s1))"
    by (rule select_stage [OF _ bs ud blk16, where m = 8]) simp_all
  then have "select_inv bs (unat n) 16 s2" by (simp only: s2_def prod.collapse)
  then have "select_inv bs (unat n) (2 * 8) (fst s2, snd s2)" by simp
  then have "select_inv bs (unat n) 8 (select_step 5 (shift_by c (fst s2 - 8) AND 0xf) (fst s2, snd s2))"
    by (rule select_stage [OF _ bs uc blk8, where m = 4]) simp_all
  then have "select_inv bs (unat n) 8 s3" by (simp only: s3_def prod.collapse)
  then have "select_inv bs (unat n) (2 * 4) (fst s3, snd s3)" by simp
  then have "select_inv bs (unat n) 4 (select_step 6 (shift_by b (fst s3 - 4) AND 0x7) (fst s3, snd s3))"
    by (rule select_stage [OF _ bs ub blk4, where m = 3]) simp_all
  then have "select_inv bs (unat n) 4 s4" by (simp only: s4_def prod.collapse)
  then have "select_inv bs (unat n) (2 * 2) (fst s4, snd s4)" by simp
  then have "select_inv bs (unat n) 2 (select_step 7 (shift_by a (fst s4 - 2) AND 0x3) (fst s4, snd s4))"
    by (rule select_stage [OF _ bs ua blk2, where m = 2]) simp_all
  then have "select_inv bs (unat n) 2 s5" by (simp only: s5_def prod.collapse)
  then have "select_inv bs (unat n) (2 * 1) (fst s5, snd s5)" by simp
  then have "select_inv bs (unat n) 1 (select_step 8 (shift_by r (fst s5 - 1) AND 0x1) (fst s5, snd s5))"
    by (rule select_stage [OF _ bs ur blk1, where m = 1]) simp_all
  then have "select_inv bs (unat n) 1 s6" by (simp only: s6_def prod.collapse)
  then obtain s m where inv: "s6 = (s, m)" "1 \<le> unat s" "unat s \<le> 64" "1 \<le> unat m" "span bs (unat s) 64 + unat m = unat n"
      "unat m \<le> span bs (unat s - 1) (unat s)"
    by (cases s6) (auto simp: select_inv_def)
  have "{unat s - 1..<unat s} = {unat s - 1}" using inv(2) by auto
  then have m: "unat m \<le> bs ! (unat s - 1)" using inv(6) by (simp add: span_def)
  also have le1: "bs ! (unat s - 1) \<le> 1" using bs inv(3) by simp
  finally have "unat m = 1" using inv(4) by simp
  with m inv(2,3) have "bit r (unat s - 1)" by (cases "bit r (unat s - 1)") (simp_all add: bs_def bit_list_def)
  then have "bit v (64 - unat s)" using inv(2,3) by (simp add: r_def bit_word_reverse_iff)
  moreover have "rank v (64 - unat s) = span bs (unat s) 64"
    using span_reverse [of "64 - unat s" v] inv(3) by (simp add: bs_def r_def)
  moreover have "unat (65 - s - 1) = 64 - unat s"
  proof -
    have "unat (65 - s) = 65 - unat s" using inv(2,3) by (simp add: unat_sub word_le_nat_alt)
    then show ?thesis using inv(3) by (simp add: unat_sub word_le_nat_alt)
  qed
  ultimately show ?thesis
    using inv(2,5) \<open>unat m = 1\<close> by (simp add: res inv(1))
qed


lemma nth_set_bit_correct:
  assumes "1 \<le> n" "n \<le> count_ones v"
  shows "nth_set_bit v n < 128 \<and> bit v (nth_set_bit v n) \<and> Suc (rank v (nth_set_bit v n)) = n"
proof -
  let ?low = "ucast v :: u64" and ?high = "ucast (drop_bit 64 v) :: u64"
  have low: "rank ?low i = rank v i" if "i \<le> 64" for i using that by (intro rank_cong) (simp add: bit_ucast_iff)
  have high: "rank v (64 + i) = rank v 64 + rank ?high i" if "i \<le> 64" for i
    using that
  proof (induction i)
    case (Suc i)
    have "rank v (64 + Suc i) = rank v (64 + i) + of_bool (bit v (64 + i))" using rank_simps(2) [of v "64 + i"] by simp
    with Suc show ?case by (simp add: bit_ucast_iff bit_drop_bit_eq)
  qed simp
  have c: "count_ones ?low = rank v 64" "count_ones v = rank v 64 + rank ?high 64"
    using low [of 64] high [of 64] by (simp_all add: count_ones_rank)
  have n: "n \<le> 128" using assms(2) rank_le [of v 128] by (simp add: count_ones_rank)
  have u: "unat (word_of_nat k :: u64) = k" if "k \<le> 128" for k using that by (simp add: unsigned_of_nat take_bit_nat_eq_self)
  show ?thesis
  proof (cases "count_ones ?low < n")
    case True
    define m where "m = n - count_ones ?low"
    have m: "1 \<le> m" "m \<le> rank ?high 64" "m \<le> 128" using True n c assms(2) by (simp_all add: m_def)
    obtain p where p: "unat (nth_set_bit_u64 ?high (word_of_nat m)) = p" "p < 64" "bit ?high p" "Suc (rank ?high p) = m"
      using nth_set_bit_u64_correct [of "word_of_nat m" ?high] m u [OF m(3)] by auto
    then have "nth_set_bit v n = 64 + p" using True by (simp only: nth_set_bit_def Let_def m_def if_True)
    moreover have "bit v (64 + p)" using p(2,3) by (simp add: bit_ucast_iff bit_drop_bit_eq)
    ultimately show ?thesis using p high [of p] c True by (simp add: m_def)
  next
    case False
    then have "1 \<le> unat (word_of_nat n :: u64)" "unat (word_of_nat n :: u64) \<le> rank ?low 64"
      using n c assms(1) low [of 64] by (simp_all add: u)
    from nth_set_bit_u64_correct [OF this] obtain p where p: "unat (nth_set_bit_u64 ?low (word_of_nat n)) = p"
      "p < 64" "bit ?low p" "Suc (rank ?low p) = n" using n by (auto simp: u)
    then show ?thesis using False low [of p] by (simp add: nth_set_bit_def Let_def bit_ucast_iff)
  qed
qed


lemma nth_ones:
  fixes w :: "'a::len word"
  assumes "bit w p" "p < LENGTH('a)"
  shows "filter (bit w) [0..<LENGTH('a)] ! rank w p = p" "rank w p < count_ones w"
proof -
  have "[0..<LENGTH('a)] = [0..<p] @ p # [Suc p..<LENGTH('a)]"
    using assms(2) upt_conv_Cons [of p "LENGTH('a)"] upt_add_eq_append [of 0 p "LENGTH('a) - p"] by (simp del: upt_rec_numeral upt_conv_Cons)
  then have "filter (bit w) [0..<LENGTH('a)] = filter (bit w) [0..<p] @ p # filter (bit w) [Suc p..<LENGTH('a)]"
    using assms(1) by simp
  then show "filter (bit w) [0..<LENGTH('a)] ! rank w p = p" "rank w p < count_ones w"
    by (simp_all add: rank_def count_ones_def nth_append)
qed

section \<open>Property\<close>

text \<open>
  C23. \<open>nth_set_bit\<close> selects: for every \<open>n\<close> between 1 and the number of ones of a 128-bit word it returns the
  \<open>n\<close>-th entry of the ascending list of the positions of the ones. The parallel bit counts never
  overflow into a neighbouring field and the branch-free comparison by bit 8 of a wrapping
  difference is right for every block.
\<close>

theorem nth_set_bit_selects:
  assumes "1 \<le> n" "n \<le> count_ones v"
  shows "nth_set_bit v n = filter (bit v) [0..<128] ! (n - 1)"
proof -
  have p: "nth_set_bit v n < 128" "bit v (nth_set_bit v n)" "n - 1 = rank v (nth_set_bit v n)"
    using nth_set_bit_correct [OF assms] by auto
  show ?thesis unfolding p(3) using nth_ones(1) [OF p(2)] p(1) by simp
qed

theorem nth_set_bit_selects_witness:
  "nth_set_bit 0x30000000000000010 3 = 65"
proof -
  have "count_ones (0x30000000000000010 :: u128) = 3" "filter (bit (0x30000000000000010 :: u128)) [0..<128] ! 2 = 65"
    by code_simp+
  then show ?thesis using nth_set_bit_selects [of 3 "0x30000000000000010"] by simp
qed

end
