(* ===== verification/Chunk.thy ===== *)
theory Chunk
  imports Utf8 Bit_Select
begin

text \<open>
  \<open>crates/rope/src/chunk.rs\<close>: chunks of at most 128 bytes of text with four bitmaps that mark, for every byte,
  whether it starts a character, a UTF-16 code unit, or is a newline or a tab. All positions and
  counts are at most 128, so \<open>u32\<close> and \<open>u8\<close> counters are natural numbers here. A slice of a chunk has the
  same fields as a chunk and the same type. \<open>debug_panic!\<close> only logs in a release build.
\<close>

unbundle bit_operations_syntax

section \<open>Chunks\<close>

definition MAX_BASE :: nat where
  "MAX_BASE = 128"

definition MIN_BASE :: nat where
  "MIN_BASE = MAX_BASE div 2"

record chunk =
  ch_chars :: u128
  ch_chars_utf16 :: u128
  ch_newlines :: u128
  ch_tabs :: u128
  ch_text :: str

definition chunk_default :: chunk where
  "chunk_default = \<lparr>ch_chars = 0, ch_chars_utf16 = 0, ch_newlines = 0, ch_tabs = 0, ch_text = []\<rparr>"

definition saturating_shl_mask :: "nat \<Rightarrow> u128" where
  "saturating_shl_mask offset = push_bit offset 1 - 1"

definition saturating_shr_mask :: "nat \<Rightarrow> u128" where
  "saturating_shr_mask offset = NOT (drop_bit offset (- 1))"

text \<open>The loop of \<open>Chunk::new\<close> fills each of the four byte arrays in the same way from a test of the byte:
  eight bytes of text give one byte of flags.\<close>

definition flag_byte :: "(u8 \<Rightarrow> bool) \<Rightarrow> str \<Rightarrow> u8" where
  "flag_byte P bs = foldl (\<lambda>acc (ix, b). acc OR push_bit ix (of_bool (P b))) 0 (enumerate 0 bs)"

function flag_bytes :: "(u8 \<Rightarrow> bool) \<Rightarrow> str \<Rightarrow> u8 list" where
  "flag_bytes P bs = (if bs = [] then [] else flag_byte P (take 8 bs) # flag_bytes P (drop 8 bs))"
  by pat_completeness auto
termination by (relation "measure (length \<circ> snd)") auto

declare flag_bytes.simps [simp del]

definition from_le_bytes :: "u8 list \<Rightarrow> u128" where
  "from_le_bytes bs = foldr (\<lambda>b w. ucast b OR push_bit 8 w) bs 0"

definition chunk_new :: "str \<Rightarrow> chunk option" where
  "chunk_new s = do {
     rust_assert (length s \<le> MAX_BASE);
     let chars = from_le_bytes (flag_bytes is_utf8_char_boundary s);
     Some \<lparr>ch_chars = chars,
           ch_chars_utf16 = push_bit 1 (from_le_bytes (flag_bytes (\<lambda>b. 240 \<le> b) s)) OR chars,
           ch_newlines = from_le_bytes (flag_bytes (\<lambda>b. b = 10) s),
           ch_tabs = from_le_bytes (flag_bytes (\<lambda>b. b = 9) s),
           ch_text = s\<rparr>
   }"

text \<open>\<open>ArrayString::push_str\<close> fails beyond the capacity.\<close>

definition chunk_append :: "chunk \<Rightarrow> chunk \<Rightarrow> chunk option" where
  "chunk_append c s = (if ch_text s = [] then Some c
     else do {
       let base_ix = length (ch_text c);
       rust_assert (length (ch_text c) + length (ch_text s) \<le> MAX_BASE);
       Some \<lparr>ch_chars = ch_chars c OR shl (ch_chars s) base_ix,
             ch_chars_utf16 = ch_chars_utf16 c OR shl (ch_chars_utf16 s) base_ix,
             ch_newlines = ch_newlines c OR shl (ch_newlines s) base_ix,
             ch_tabs = ch_tabs c OR shl (ch_tabs s) base_ix,
             ch_text = ch_text c @ ch_text s\<rparr>
     })"

definition chunk_prepend :: "chunk \<Rightarrow> chunk \<Rightarrow> chunk option" where
  "chunk_prepend c s = (if ch_text s = [] then Some c
     else if ch_text c = [] then chunk_new (ch_text s)
     else do {
       let shift = length (ch_text s);
       rust_assert (length (ch_text s) + length (ch_text c) \<le> MAX_BASE);
       Some \<lparr>ch_chars = ch_chars s OR shl (ch_chars c) shift,
             ch_chars_utf16 = ch_chars_utf16 s OR shl (ch_chars_utf16 c) shift,
             ch_newlines = ch_newlines s OR shl (ch_newlines c) shift,
             ch_tabs = ch_tabs s OR shl (ch_tabs c) shift,
             ch_text = ch_text s @ ch_text c\<rparr>
     })"

definition chunk_push_str :: "chunk \<Rightarrow> str \<Rightarrow> chunk option" where
  "chunk_push_str c s = do { n \<leftarrow> chunk_new s; chunk_append c n }"

definition chunk_prepend_str :: "chunk \<Rightarrow> str \<Rightarrow> chunk option" where
  "chunk_prepend_str c s = do { n \<leftarrow> chunk_new s; chunk_prepend c n }"

text \<open>\<open>offset as u32\<close> keeps the low 32 bits.\<close>

definition chunk_is_char_boundary :: "chunk \<Rightarrow> nat \<Rightarrow> bool" where
  "chunk_is_char_boundary c offset \<longleftrightarrow>
     push_bit (offset mod 2 ^ 32) 1 AND ch_chars c \<noteq> 0 \<or> offset = length (ch_text c)"

fun floor_loop :: "str \<Rightarrow> nat \<Rightarrow> nat" where
  "floor_loop s i = (if 0 < i then if is_utf8_char_boundary (s ! i) then i else floor_loop s (i - 1) else i)"

declare floor_loop.simps [simp del]

definition chunk_floor_char_boundary :: "chunk \<Rightarrow> nat \<Rightarrow> nat" where
  "chunk_floor_char_boundary c index = (if length (ch_text c) \<le> index then length (ch_text c) else floor_loop (ch_text c) index)"

section \<open>Slices\<close>

definition slice_into :: "chunk \<Rightarrow> chunk option" where
  "slice_into s = do { rust_assert (length (ch_text s) \<le> MAX_BASE); Some s }"

definition slice_split_at :: "chunk \<Rightarrow> nat \<Rightarrow> (chunk \<times> chunk) option" where
  "slice_split_at s mid = (if mid = MAX_BASE then Some (s, chunk_default)
     else do {
       let m = shl 1 mid - 1;
       (left_text, right_text) \<leftarrow> str_split_at (ch_text s) mid;
       Some (\<lparr>ch_chars = ch_chars s AND m, ch_chars_utf16 = ch_chars_utf16 s AND m,
              ch_newlines = ch_newlines s AND m, ch_tabs = ch_tabs s AND m, ch_text = left_text\<rparr>,
             \<lparr>ch_chars = shr (ch_chars s) mid, ch_chars_utf16 = shr (ch_chars_utf16 s) mid,
              ch_newlines = shr (ch_newlines s) mid, ch_tabs = shr (ch_tabs s) mid, ch_text = right_text\<rparr>)
     })"

definition slice_slice :: "chunk \<Rightarrow> nat \<Rightarrow> nat \<Rightarrow> chunk option" where
  "slice_slice s start stop = (if start = MAX_BASE then Some chunk_default
     else do {
       let start = (if chunk_is_char_boundary s start then start else str_ceil_char_boundary (ch_text s) start);
       let stop = (if chunk_is_char_boundary s stop then stop
                   else if stop < start then start else str_floor_char_boundary (ch_text s) stop);
       let m = push_bit (stop mod 2 ^ 32) 1 - 1;
       t \<leftarrow> str_slice (ch_text s) start stop;
       Some \<lparr>ch_chars = shr (ch_chars s AND m) start, ch_chars_utf16 = shr (ch_chars_utf16 s AND m) start,
             ch_newlines = shr (ch_newlines s AND m) start, ch_tabs = shr (ch_tabs s AND m) start, ch_text = t\<rparr>
     })"

section \<open>The invariant\<close>

text \<open>Which positions are marked by a test of the byte.\<close>

definition marks :: "('a \<Rightarrow> bool) \<Rightarrow> 'a list \<Rightarrow> nat \<Rightarrow> bool" where
  "marks P s i \<longleftrightarrow> i < length s \<and> P (s ! i)"

definition marks_utf16 :: "str \<Rightarrow> nat \<Rightarrow> bool" where
  "marks_utf16 s i \<longleftrightarrow> marks is_utf8_char_boundary s i \<or> (0 < i \<and> marks (\<lambda>b. 240 \<le> b) s (i - 1))"

definition chunk_ok :: "chunk \<Rightarrow> bool" where
  "chunk_ok c \<longleftrightarrow> length (ch_text c) \<le> 128 \<and> valid_utf8 (ch_text c) \<and>
     bit (ch_chars c) = marks is_utf8_char_boundary (ch_text c) \<and> bit (ch_chars_utf16 c) = marks_utf16 (ch_text c) \<and>
     bit (ch_newlines c) = marks (\<lambda>b. b = 10) (ch_text c) \<and> bit (ch_tabs c) = marks (\<lambda>b. b = 9) (ch_text c)"

lemma chunk_ok_unique: "chunk_ok c \<Longrightarrow> chunk_ok d \<Longrightarrow> ch_text c = ch_text d \<Longrightarrow> c = d"
  by (rule chunk.equality) (auto simp: chunk_ok_def intro: bit_eqI)

lemma chunk_eqI:
  assumes "\<exists>c. res = Some c \<and> chunk_ok c \<and> ch_text c = s" "chunk_ok d" "ch_text d = s"
  shows "res = Some d"
proof -
  obtain c where c: "res = Some c" "chunk_ok c" "ch_text c = s" using assms(1) by blast
  have "c = d" using c(2) assms(2) c(3) assms(3) by (intro chunk_ok_unique) simp_all
  with c(1) show ?thesis by simp
qed

lemma bit_flag_byte: "length bs \<le> 8 \<Longrightarrow> bit (flag_byte P bs) i \<longleftrightarrow> marks P bs i"
proof (induction bs rule: rev_induct)
  case (snoc b bs)
  have "flag_byte P (bs @ [b]) = flag_byte P bs OR push_bit (length bs) (of_bool (P b))"
    by (simp add: flag_byte_def enumerate_append_eq)
  moreover have "bit (push_bit (length bs) (of_bool (P b)) :: u8) i \<longleftrightarrow> i = length bs \<and> P b"
    using snoc.prems by (cases "P b") (auto simp: bit_push_bit_iff bit_exp_iff)
  ultimately show ?case using snoc by (auto simp: bit_or_iff marks_def nth_append less_Suc_eq)
qed (simp add: flag_byte_def marks_def)

lemma from_le_bytes_simps [simp]: "from_le_bytes [] = 0" "from_le_bytes (b # bs) = ucast b OR push_bit 8 (from_le_bytes bs)"
  by (simp_all add: from_le_bytes_def)

lemma bit_flag_bytes: "length bs \<le> 128 \<Longrightarrow> bit (from_le_bytes (flag_bytes P bs)) i \<longleftrightarrow> marks P bs i \<and> i < 128"
proof (induction P bs arbitrary: i rule: flag_bytes.induct)
  case (1 P bs)
  show ?case
  proof (cases "bs = []")
    case False
    then have IH: "bit (from_le_bytes (flag_bytes P (drop 8 bs))) i \<longleftrightarrow> marks P (drop 8 bs) i \<and> i < 128" for i
      using 1 by simp
    have "bit (ucast (flag_byte P (take 8 bs)) :: u128) i \<longleftrightarrow> i < 8 \<and> marks P bs i"
      by (auto simp: bit_ucast_iff bit_flag_byte marks_def)
    moreover have "bit (push_bit 8 (from_le_bytes (flag_bytes P (drop 8 bs)))) i \<longleftrightarrow> 8 \<le> i \<and> marks P bs i \<and> i < 128"
      using 1(2) by (auto simp: bit_push_bit_iff IH marks_def)
    ultimately show ?thesis using False flag_bytes.simps [of P bs] by (auto simp: bit_or_iff)
  next
    case True
    then show ?thesis by (simp add: marks_def flag_bytes.simps)
  qed
qed


section \<open>Concatenation and splitting\<close>

lemma marks_append: "marks P (s @ t) i \<longleftrightarrow> marks P s i \<or> (length s \<le> i \<and> marks P t (i - length s))"
  by (auto simp: marks_def nth_append)

text \<open>The lead byte of a character of four bytes is followed by a continuation byte.\<close>

lemma lead_4:
  assumes "valid_utf8 s" "marks (\<lambda>b. 240 \<le> b) s i"
  shows "Suc i < length s" "\<not> is_utf8_char_boundary (s ! Suc i)"
proof -
  have i: "i < length s" "240 \<le> s ! i" using assms(2) by (simp_all add: marks_def)
  have le: "k \<le> 240 \<Longrightarrow> k \<le> s ! i" for k using i(2) by (rule order_trans [rotated])
  have "str_is_char_boundary s i" using i le [of 192] by (simp add: str_is_char_boundary_def boundary_iff)
  from valid_split(2) [OF assms(1) this] i have v: "valid_utf8 (s ! i # drop (Suc i) s)" by (simp add: Cons_nth_drop_Suc)
  have "utf8_len (s ! i) = 4" using le [of 128] le [of 224] le [of 240] by (simp add: utf8_len_def not_less)
  with v have "valid_char (take 4 (s ! i # drop (Suc i) s))" by (simp add: valid_utf8_def)
  with \<open>utf8_len (s ! i) = 4\<close> have d: "3 \<le> length (drop (Suc i) s)" "\<forall>b \<in> set (take 3 (drop (Suc i) s)). \<not> is_utf8_char_boundary b"
    by (auto simp: valid_char_def)
  show "Suc i < length s" using d(1) by simp
  then have "s ! Suc i \<in> set (take 3 (drop (Suc i) s))" by (simp add: Cons_nth_drop_Suc [symmetric] take_Cons')
  with d(2) show "\<not> is_utf8_char_boundary (s ! Suc i)" by simp
qed


lemma marks_utf16_less: "valid_utf8 s \<Longrightarrow> marks_utf16 s i \<Longrightarrow> i < length s"
  using lead_4(1) [of s "i - 1"] by (auto simp: marks_utf16_def marks_def)

lemma marks_utf16_append:
  assumes "valid_utf8 s"
  shows "marks_utf16 (s @ t) i \<longleftrightarrow> marks_utf16 s i \<or> (length s \<le> i \<and> marks_utf16 t (i - length s))"
proof -
  have "\<not> marks (\<lambda>b. 240 \<le> b) s (i - 1)" if "length s \<le> i"
    using lead_4(1) [OF assms, of "i - 1"] that by auto
  moreover have "0 < i \<and> length s \<le> i - 1 \<longleftrightarrow> length s \<le> i \<and> 0 < i - length s" if "s \<noteq> []" using that by auto
  ultimately show ?thesis unfolding marks_utf16_def marks_append
    by (cases "s = []") (auto simp: marks_def)
qed

text \<open>What a bitmap of a concatenation is, for both kinds of marks.\<close>

lemma bits_append:
  fixes x y :: u128
  assumes "bit x = f s" "bit y = f t" "length s < 128" "length s + length t \<le> 128"
    and "\<And>i. f (s @ t) i \<longleftrightarrow> f s i \<or> (length s \<le> i \<and> f t (i - length s))" "\<And>i. f t i \<Longrightarrow> i < length t"
  shows "bit (x OR shl y (length s)) = f (s @ t)"
proof
  fix i
  have "f t (i - length s) \<Longrightarrow> length s \<le> i \<Longrightarrow> i < 128" using assms(4,6) by force
  then show "bit (x OR shl y (length s)) i = f (s @ t) i"
    using assms(1-3,5) by (auto simp: shl_def bit_or_iff bit_push_bit_iff)
qed

lemmas marks_less = marks_def [THEN iffD1, THEN conjunct1]

lemma chunk_append_bits:
  assumes "chunk_ok c" "chunk_ok d" "length (ch_text c) < 128" "length (ch_text c) + length (ch_text d) \<le> 128"
  shows "chunk_ok \<lparr>ch_chars = ch_chars c OR shl (ch_chars d) (length (ch_text c)),
             ch_chars_utf16 = ch_chars_utf16 c OR shl (ch_chars_utf16 d) (length (ch_text c)),
             ch_newlines = ch_newlines c OR shl (ch_newlines d) (length (ch_text c)),
             ch_tabs = ch_tabs c OR shl (ch_tabs d) (length (ch_text c)),
             ch_text = ch_text c @ ch_text d\<rparr>"
proof -
  let ?s = "ch_text c" and ?t = "ch_text d"
  have v: "valid_utf8 ?s" "valid_utf8 ?t" using assms(1,2) by (simp_all add: chunk_ok_def)
  have m: "bit (x OR shl y (length ?s)) = marks P (?s @ ?t)" if "bit x = marks P ?s" "bit y = marks P ?t" for x y P
    using that assms(3,4) marks_append marks_less by (rule bits_append)
  have "bit (x OR shl y (length ?s)) = marks_utf16 (?s @ ?t)" if "bit x = marks_utf16 ?s" "bit y = marks_utf16 ?t" for x y
    using that assms(3,4) marks_utf16_append [OF v(1)] marks_utf16_less [OF v(2)] by (rule bits_append)
  with m assms(1,2,4) show ?thesis by (simp add: chunk_ok_def valid_utf8_append)
qed

lemma chunk_new_correct:
  assumes "valid_utf8 s"
  shows "length s \<le> 128 \<Longrightarrow> \<exists>c. chunk_new s = Some c \<and> chunk_ok c \<and> ch_text c = s"
    and "128 < length s \<Longrightarrow> chunk_new s = None"
proof -
  show "128 < length s \<Longrightarrow> chunk_new s = None" by (simp add: chunk_new_def MAX_BASE_def)
  assume l: "length s \<le> 128"
  have b: "bit (from_le_bytes (flag_bytes P s)) = marks P s" for P using bit_flag_bytes [OF l] l by (auto simp: marks_def)
  have u: "bit (push_bit 1 (from_le_bytes (flag_bytes (\<lambda>b. 240 \<le> b) s)) OR from_le_bytes (flag_bytes is_utf8_char_boundary s)) = marks_utf16 s"
  proof
    fix i
    have "marks (\<lambda>b. 240 \<le> b) s (i - 1) \<Longrightarrow> i < 128" using lead_4(1) [OF assms, of "i - 1"] l by linarith
    then show "bit (push_bit 1 (from_le_bytes (flag_bytes (\<lambda>b. 240 \<le> b) s)) OR from_le_bytes (flag_bytes is_utf8_char_boundary s)) i = marks_utf16 s i"
      unfolding bit_or_iff bit_push_bit_iff b by (auto simp: marks_utf16_def)
  qed
  show "\<exists>c. chunk_new s = Some c \<and> chunk_ok c \<and> ch_text c = s"
    using l b u assms by (simp add: chunk_new_def chunk_ok_def MAX_BASE_def Let_def)
qed


lemma chunk_append_correct:
  assumes "chunk_ok c" "chunk_ok d" "length (ch_text c) + length (ch_text d) \<le> 128"
  shows "\<exists>e. chunk_append c d = Some e \<and> chunk_ok e \<and> ch_text e = ch_text c @ ch_text d"
proof (cases "ch_text d = []")
  case False
  then have l: "length (ch_text c) < 128" using assms(3) by (cases "ch_text d") auto
  show ?thesis
    using chunk_append_bits [OF assms(1,2) l assms(3)] False assms(3) by (simp add: chunk_append_def Let_def MAX_BASE_def)
qed (use assms(1) in \<open>simp add: chunk_append_def\<close>)

lemma chunk_append_full:
  "ch_text d \<noteq> [] \<Longrightarrow> 128 < length (ch_text c) + length (ch_text d) \<Longrightarrow> chunk_append c d = None"
  by (simp add: chunk_append_def Let_def MAX_BASE_def)

lemma chunk_prepend_correct:
  assumes "chunk_ok c" "chunk_ok d" "length (ch_text c) + length (ch_text d) \<le> 128"
  shows "\<exists>e. chunk_prepend c d = Some e \<and> chunk_ok e \<and> ch_text e = ch_text d @ ch_text c"
proof (cases "ch_text d = [] \<or> ch_text c = []")
  case True
  moreover have "length (ch_text d) \<le> 128" "valid_utf8 (ch_text d)" using assms(2) by (simp_all add: chunk_ok_def)
  ultimately show ?thesis using assms(1) chunk_new_correct(1) [of "ch_text d"] by (auto simp: chunk_prepend_def)
next
  case False
  then have l: "length (ch_text d) < 128" using assms(3) by (cases "ch_text c") auto
  show ?thesis
    using chunk_append_bits [OF assms(2,1) l] False assms(3) by (simp add: chunk_prepend_def Let_def MAX_BASE_def add.commute)
qed

lemma chunk_push_str_correct:
  assumes "chunk_ok c" "valid_utf8 s" "length (ch_text c) + length s \<le> 128"
  shows "\<exists>e. chunk_push_str c s = Some e \<and> chunk_ok e \<and> ch_text e = ch_text c @ s"
  using chunk_new_correct(1) [OF assms(2)] chunk_append_correct [OF assms(1)] assms(3)
  by (auto simp: chunk_push_str_def)

lemma chunk_prepend_str_correct:
  assumes "chunk_ok c" "valid_utf8 s" "length (ch_text c) + length s \<le> 128"
  shows "\<exists>e. chunk_prepend_str c s = Some e \<and> chunk_ok e \<and> ch_text e = s @ ch_text c"
  using chunk_new_correct(1) [OF assms(2)] chunk_prepend_correct [OF assms(1)] assms(3)
  by (auto simp: chunk_prepend_str_def)

lemma chunk_default_ok [simp]: "chunk_ok chunk_default"
  by (auto simp: chunk_ok_def chunk_default_def marks_def marks_utf16_def)

text \<open>Boundaries: the bitmap agrees with the text.\<close>

lemma and_bit_iff: "push_bit k 1 AND w \<noteq> 0 \<longleftrightarrow> bit w k" for w :: u128
  using and_exp [of w k] by (auto simp: and.commute [of _ w] exp_eq_zero_iff dest: bit_imp_le_length)

lemma chunk_boundary_iff:
  assumes "chunk_ok c" "i < 2 ^ 32"
  shows "chunk_is_char_boundary c i \<longleftrightarrow> str_is_char_boundary (ch_text c) i"
proof -
  have "i = 0 \<Longrightarrow> ch_text c \<noteq> [] \<Longrightarrow> is_utf8_char_boundary (ch_text c ! 0)"
    using valid_hd [of "ch_text c"] assms(1) by (simp add: chunk_ok_def hd_conv_nth)
  then show ?thesis
    using assms unfolding chunk_is_char_boundary_def and_bit_iff
    by (auto simp: str_is_char_boundary_def chunk_ok_def marks_def)
qed


lemma bits_split:
  fixes x :: u128
  assumes "bit x = f (s @ t)" "length s < 128"
    and "\<And>i. f (s @ t) i \<longleftrightarrow> f s i \<or> (length s \<le> i \<and> f t (i - length s))" "\<And>i. f s i \<Longrightarrow> i < length s"
  shows "bit (shr x (length s)) = f t"
proof
  fix i
  have "\<not> f s (length s + i)" using assms(4) [of "length s + i"] by auto
  moreover have "bit (shr x (length s)) i = bit x (length s + i)" using assms(2) by (simp add: shr_def bit_drop_bit_eq)
  moreover have "bit x (length s + i) = f (s @ t) (length s + i)" by (simp only: assms(1))
  ultimately show "bit (shr x (length s)) i = f t i" using assms(3) [of "length s + i"] by simp
qed

lemma bits_prefix:
  fixes x :: u128
  assumes "bit x = f (s @ t)" "bit m = (\<lambda>i. i < length s)"
    and "\<And>i. f (s @ t) i \<longleftrightarrow> f s i \<or> (length s \<le> i \<and> f t (i - length s))" "\<And>i. f s i \<Longrightarrow> i < length s"
  shows "bit (x AND m) = f s"
proof
  fix i
  have "bit (x AND m) i \<longleftrightarrow> f (s @ t) i \<and> i < length s" by (simp only: bit_and_iff assms(1,2))
  then show "bit (x AND m) i = f s i" using assms(3,4) [of i] by auto
qed

lemma bit_low_mask: "k \<le> 128 \<Longrightarrow> bit (push_bit k 1 - 1 :: u128) = (\<lambda>i. i < k)"
proof -
  assume k: "k \<le> 128"
  have "(push_bit k 1 - 1 :: u128) = mask k" by (simp add: mask_eq_exp_minus_1)
  moreover have "bit (mask k :: u128) i \<longleftrightarrow> i < k" for i using k bit_mask_iff [of k i, where ?'a = u128] by auto
  ultimately show ?thesis by (simp only: fun_eq_iff) simp
qed

text \<open>Cutting the text of a chunk at a boundary.\<close>

lemma chunk_split_bits:
  assumes "chunk_ok c" "ch_text c = s @ t" "valid_utf8 s" "length s < 128"
  shows "chunk_ok \<lparr>ch_chars = shr (ch_chars c) (length s), ch_chars_utf16 = shr (ch_chars_utf16 c) (length s),
      ch_newlines = shr (ch_newlines c) (length s), ch_tabs = shr (ch_tabs c) (length s), ch_text = t\<rparr>"
proof -
  have m: "bit (shr x (length s)) = marks P t" if "bit x = marks P (s @ t)" for x P
    using that assms(4) marks_append marks_less by (rule bits_split)
  have "bit (shr x (length s)) = marks_utf16 t" if "bit x = marks_utf16 (s @ t)" for x
    using that assms(4) marks_utf16_append [OF assms(3)] marks_utf16_less [OF assms(3)] by (rule bits_split)
  with m assms show ?thesis by (auto simp: chunk_ok_def valid_utf8_append)
qed

lemma chunk_prefix_bits:
  assumes "chunk_ok c" "ch_text c = s @ t" "valid_utf8 s" "bit m = (\<lambda>i. i < length s)"
  shows "chunk_ok \<lparr>ch_chars = ch_chars c AND m, ch_chars_utf16 = ch_chars_utf16 c AND m,
      ch_newlines = ch_newlines c AND m, ch_tabs = ch_tabs c AND m, ch_text = s\<rparr>"
proof -
  have p: "bit (x AND m) = marks P s" if "bit x = marks P (s @ t)" for x P
    using that assms(4) marks_append marks_less by (rule bits_prefix)
  have "bit (x AND m) = marks_utf16 s" if "bit x = marks_utf16 (s @ t)" for x
    using that assms(4) marks_utf16_append [OF assms(3)] marks_utf16_less [OF assms(3)] by (rule bits_prefix)
  with p assms show ?thesis by (auto simp: chunk_ok_def)
qed

lemma slice_split_at_correct:
  assumes "chunk_ok c" "str_is_char_boundary (ch_text c) mid"
  shows "\<exists>l r. slice_split_at c mid = Some (l, r) \<and> chunk_ok l \<and> chunk_ok r \<and>
    ch_text l = take mid (ch_text c) \<and> ch_text r = drop mid (ch_text c)"
proof -
  have mid: "mid \<le> length (ch_text c)" "length (ch_text c) \<le> 128" "valid_utf8 (ch_text c)"
    using assms by (auto simp: str_is_char_boundary_def chunk_ok_def)
  note v = valid_split(1) [OF mid(3) assms(2)]
  have eq: "ch_text c = take mid (ch_text c) @ drop mid (ch_text c)" by simp
  show ?thesis
  proof (cases "mid = 128")
    case True
    with mid have "ch_text c = take mid (ch_text c)" "drop mid (ch_text c) = []" by simp_all
    with True assms(1) show ?thesis by (simp add: slice_split_at_def MAX_BASE_def chunk_default_ok) (simp add: chunk_default_def)
  next
    case False
    with mid have l: "length (take mid (ch_text c)) = mid" "mid < 128" by auto
    have "bit (shl 1 mid - 1) = (\<lambda>i. i < length (take mid (ch_text c)))" using bit_low_mask [of mid] l unfolding shl_def l(1) by simp
    from chunk_prefix_bits [OF assms(1) eq v this] chunk_split_bits [OF assms(1) eq v] assms(2) False l
    show ?thesis by (simp add: slice_split_at_def MAX_BASE_def str_split_at_def Let_def)
  qed
qed


lemma boundary_le: "str_is_char_boundary s i \<Longrightarrow> i \<le> length s"
  by (auto simp: str_is_char_boundary_def)

lemma slice_slice_correct:
  assumes "chunk_ok c" "str_is_char_boundary (ch_text c) i" "str_is_char_boundary (ch_text c) j" "i \<le> j"
  shows "\<exists>d. slice_slice c i j = Some d \<and> chunk_ok d \<and> ch_text d = take (j - i) (drop i (ch_text c))"
proof -
  let ?s = "ch_text c"
  have s: "length ?s \<le> 128" "valid_utf8 ?s" "j \<le> length ?s" using assms(1,3) by (auto simp: chunk_ok_def dest: boundary_le)
  show ?thesis
  proof (cases "i = 128")
    case True
    with s assms(4) have "take (j - i) (drop i ?s) = []" by simp
    then show ?thesis using True by (simp add: slice_slice_def MAX_BASE_def) (simp add: chunk_default_def)
  next
    case False
    with s assms(4) have l: "i < 128" "j \<le> 128" "length (take j ?s) = j" by auto
    let ?m = "push_bit j 1 - 1 :: u128"
    let ?p = "\<lparr>ch_chars = ch_chars c AND ?m, ch_chars_utf16 = ch_chars_utf16 c AND ?m,
      ch_newlines = ch_newlines c AND ?m, ch_tabs = ch_tabs c AND ?m, ch_text = take j ?s\<rparr>"
    have eq: "?s = take j ?s @ drop j ?s" by simp
    have "bit ?m = (\<lambda>i. i < length (take j ?s))" unfolding l(3) using l(2) by (rule bit_low_mask)
    then have p: "chunk_ok ?p" by (rule chunk_prefix_bits [OF assms(1) eq valid_split(1) [OF s(2) assms(3)]])
    have eq2: "ch_text ?p = take i ?s @ take (j - i) (drop i ?s)" using assms(4) by (simp flip: take_add)
    have "length (take i ?s) = i" using s assms(4) by simp
    with chunk_split_bits [OF p eq2 valid_split(1) [OF s(2) assms(2)]] l
    have "chunk_ok \<lparr>ch_chars = shr (ch_chars c AND ?m) i, ch_chars_utf16 = shr (ch_chars_utf16 c AND ?m) i,
      ch_newlines = shr (ch_newlines c AND ?m) i, ch_tabs = shr (ch_tabs c AND ?m) i, ch_text = take (j - i) (drop i ?s)\<rparr>"
      by simp
    moreover have "chunk_is_char_boundary c i" "chunk_is_char_boundary c j"
      using chunk_boundary_iff [OF assms(1)] assms(2,3) l by simp_all
    moreover have "j mod 2 ^ 32 = j" using l(2) by simp
    ultimately show ?thesis using False assms(2-4) by (simp add: slice_slice_def MAX_BASE_def Let_def str_slice_def)
  qed
qed


section \<open>Property\<close>

text \<open>A byte starts a character unless it is a continuation byte \<open>10xxxxxx\<close>.\<close>

lemma boundary_byte: "is_utf8_char_boundary b \<longleftrightarrow> \<not> (128 \<le> b \<and> b < 192)"
  unfolding boundary_iff by (simp add: not_le not_less)

lemma chunk_ok_bits:
  assumes "chunk_ok c"
  shows "(bit (ch_chars c) i \<longleftrightarrow> i < length (ch_text c) \<and> \<not> (128 \<le> ch_text c ! i \<and> ch_text c ! i < 192)) \<and>
        (bit (ch_chars_utf16 c) i \<longleftrightarrow> bit (ch_chars c) i \<or> (0 < i \<and> i - 1 < length (ch_text c) \<and> 240 \<le> ch_text c ! (i - 1))) \<and>
        (bit (ch_newlines c) i \<longleftrightarrow> i < length (ch_text c) \<and> ch_text c ! i = 10) \<and>
        (bit (ch_tabs c) i \<longleftrightarrow> i < length (ch_text c) \<and> ch_text c ! i = 9)"
  using assms by (simp add: chunk_ok_def marks_def marks_utf16_def boundary_byte)



end
