(* ===== verification/Text_Summary.thy ===== *)
theory Text_Summary
  imports Utf8
begin

text \<open>
  \<open>TextSummary\<close> of \<open>crates/rope/src/rope.rs\<close>: what a rope caches of a text. The 32-bit counters of rows and
  columns are natural numbers, so the results hold for texts with fewer than \<open>2 ^ 32\<close> rows and characters
  per row, beyond which the program's counters overflow. The specification of a summary is by
  the lines of the text; the scan over the characters and the addition of summaries both compute it.
\<close>

section \<open>Summaries\<close>

record text_summary =
  ts_len :: nat
  ts_chars :: nat
  ts_len_utf16 :: nat
  ts_lines :: "nat point"
  ts_first_line_chars :: nat
  ts_last_line_chars :: nat
  ts_last_line_len_utf16 :: nat
  ts_longest_row :: nat
  ts_longest_row_chars :: nat

definition summary_zero :: text_summary where
  "summary_zero = \<lparr>ts_len = 0, ts_chars = 0, ts_len_utf16 = 0, ts_lines = point_zero, ts_first_line_chars = 0,
     ts_last_line_chars = 0, ts_last_line_len_utf16 = 0, ts_longest_row = 0, ts_longest_row_chars = 0\<rparr>"

definition lines_utf16 :: "text_summary \<Rightarrow> nat point" where
  "lines_utf16 s = Point (row (ts_lines s)) (ts_last_line_len_utf16 s)"

definition summary_newline :: text_summary where
  "summary_newline = \<lparr>ts_len = 1, ts_chars = 1, ts_len_utf16 = 1, ts_lines = Point 1 0, ts_first_line_chars = 0,
     ts_last_line_chars = 0, ts_last_line_len_utf16 = 0, ts_longest_row = 0, ts_longest_row_chars = 0\<rparr>"

definition add_newline :: "text_summary \<Rightarrow> text_summary" where
  "add_newline s = s\<lparr>ts_len := ts_len s + 1, ts_len_utf16 := ts_len_utf16 s + (ts_len_utf16 s + 1),
     ts_last_line_chars := 0, ts_last_line_len_utf16 := 0, ts_lines := point_add_assign (ts_lines s) (Point 1 0)\<rparr>"

text \<open>The body of the loop of \<open>From<&str>\<close>.\<close>

definition summary_char :: "text_summary \<Rightarrow> str \<Rightarrow> text_summary" where
  "summary_char s c =
     (let s = s\<lparr>ts_chars := ts_chars s + 1, ts_len_utf16 := ts_len_utf16 s + char_len_utf16 c\<rparr>;
          s = (if c = newline then s\<lparr>ts_lines := point_add_assign (ts_lines s) (Point 1 0), ts_last_line_len_utf16 := 0, ts_last_line_chars := 0\<rparr>
               else s\<lparr>ts_lines := (ts_lines s)\<lparr>column := column (ts_lines s) + length c\<rparr>,
                      ts_last_line_len_utf16 := ts_last_line_len_utf16 s + char_len_utf16 c, ts_last_line_chars := ts_last_line_chars s + 1\<rparr>);
          s = (if row (ts_lines s) = 0 then s\<lparr>ts_first_line_chars := ts_last_line_chars s\<rparr> else s)
      in if ts_longest_row_chars s < ts_last_line_chars s
         then s\<lparr>ts_longest_row := row (ts_lines s), ts_longest_row_chars := ts_last_line_chars s\<rparr> else s)"

definition summary_from_str :: "str \<Rightarrow> text_summary" where
  "summary_from_str s = (foldl summary_char summary_zero (str_chars s))\<lparr>ts_len := length s\<rparr>"

definition summary_add :: "text_summary \<Rightarrow> text_summary \<Rightarrow> text_summary" where
  "summary_add s t =
     (let joined_chars = ts_last_line_chars s + ts_first_line_chars t;
          s = (if ts_longest_row_chars s < joined_chars
               then s\<lparr>ts_longest_row := row (ts_lines s), ts_longest_row_chars := joined_chars\<rparr> else s);
          s = (if ts_longest_row_chars s < ts_longest_row_chars t
               then s\<lparr>ts_longest_row := row (ts_lines s) + ts_longest_row t, ts_longest_row_chars := ts_longest_row_chars t\<rparr> else s);
          s = (if row (ts_lines s) = 0 then s\<lparr>ts_first_line_chars := ts_first_line_chars s + ts_first_line_chars t\<rparr> else s);
          s = (if row (ts_lines t) = 0
               then s\<lparr>ts_last_line_chars := ts_last_line_chars s + ts_first_line_chars t,
                      ts_last_line_len_utf16 := ts_last_line_len_utf16 s + ts_last_line_len_utf16 t\<rparr>
               else s\<lparr>ts_last_line_chars := ts_last_line_chars t, ts_last_line_len_utf16 := ts_last_line_len_utf16 t\<rparr>)
      in s\<lparr>ts_chars := ts_chars s + ts_chars t, ts_len := ts_len s + ts_len t,
           ts_len_utf16 := ts_len_utf16 s + ts_len_utf16 t, ts_lines := point_add_assign (ts_lines s) (ts_lines t)\<rparr>)"

section \<open>Specification\<close>

definition nchars :: "str \<Rightarrow> nat" where
  "nchars s = length (filter is_utf8_char_boundary s)"

definition nutf16 :: "str \<Rightarrow> nat" where
  "nutf16 s = nchars s + length (filter (\<lambda>b. 240 \<le> b) s)"

text \<open>The first of the longest rows and its length.\<close>

fun longest :: "nat list \<Rightarrow> nat \<Rightarrow> nat \<times> nat \<Rightarrow> nat \<times> nat" where
  "longest [] r lm = lm"
| "longest (x # xs) r lm = longest xs (Suc r) (if snd lm < x then (r, x) else lm)"

definition row_chars :: "str \<Rightarrow> nat list" where
  "row_chars s = map nchars (split_newline s)"

definition summary_of :: "str \<Rightarrow> text_summary" where
  "summary_of s = \<lparr>ts_len = length s, ts_chars = nchars s, ts_len_utf16 = nutf16 s,
     ts_lines = Point (newlines s) (length (last_line s)), ts_first_line_chars = nchars (hd (split_newline s)),
     ts_last_line_chars = nchars (last_line s), ts_last_line_len_utf16 = nutf16 (last_line s),
     ts_longest_row = fst (longest (row_chars s) 0 (0, 0)), ts_longest_row_chars = snd (longest (row_chars s) 0 (0, 0))\<rparr>"

lemma nchars_simps [simp]: "nchars [] = 0" "nchars (s @ t) = nchars s + nchars t"
  by (simp_all add: nchars_def)

lemma nutf16_simps [simp]: "nutf16 [] = 0" "nutf16 (s @ t) = nutf16 s + nutf16 t"
  by (simp_all add: nutf16_def)

lemma longest_append: "longest (xs @ ys) r lm = longest ys (r + length xs) (longest xs r lm)"
  by (induction xs arbitrary: r lm) simp_all

lemma longest_grows: "snd lm \<le> snd (longest xs r lm)"
proof (induction xs arbitrary: r lm)
  case (Cons x xs)
  then show ?case using Cons.IH [of "(r, x)" "Suc r"] by (auto intro: order_trans)
qed simp

lemma longest_from_zero:
  "longest xs r lm = (case longest xs 0 (0, 0) of (l, m) \<Rightarrow> if snd lm < m then (r + l, m) else lm)"
proof (induction xs rule: rev_induct)
  case (snoc x xs)
  then show ?case by (cases lm) (auto simp: longest_append split: prod.splits if_splits)
qed auto


section \<open>Addition\<close>

text \<open>The rows of a concatenation: the last row of the first text and the first row of the second are
  joined.\<close>

lemma row_chars_append:
  "row_chars (s @ t) = butlast (row_chars s) @ (last (row_chars s) + hd (row_chars t)) # tl (row_chars t)"
  by (simp add: row_chars_def split_newline_append map_butlast last_map hd_map map_tl)

lemma row_chars_split: "row_chars s = butlast (row_chars s) @ [last (row_chars s)]" "row_chars s = hd (row_chars s) # tl (row_chars s)"
  by (simp_all add: row_chars_def)

lemma length_row_chars: "length (row_chars s) = Suc (newlines s)"
  using split_newline_neq_Nil [of s] by (cases "split_newline s") (simp_all add: row_chars_def newlines_def)

lemma longest_joined:
  assumes "lm = longest (xs @ [x]) 0 (0, 0)" "lm' = longest (y # ys) 0 (0, 0)"
  shows "longest (xs @ (x + y) # ys) 0 (0, 0) =
    (let lm1 = (if snd lm < x + y then (length xs, x + y) else lm)
     in if snd lm1 < snd lm' then (length xs + fst lm', snd lm') else lm1)"
proof -
  let ?a = "longest xs 0 (0, 0)"
  define b where "b = (if snd ?a < x + y then (length xs, x + y) else ?a)"
  have lm: "lm = (if snd ?a < x then (length xs, x) else ?a)" by (simp add: assms(1) longest_append)
  then have b': "b = (if snd lm < x + y then (length xs, x + y) else lm)" by (auto simp: b_def)
  have "longest (xs @ (x + y) # ys) 0 (0, 0) = longest ys (Suc (length xs)) b" by (simp add: longest_append b_def)
  also have "\<dots> = longest (y # ys) (length xs) b" using b' by (auto simp: b_def)
  also have "\<dots> = (if snd b < snd lm' then (length xs + fst lm', snd lm') else b)"
    by (subst longest_from_zero) (simp add: assms(2) split_def)
  finally show ?thesis by (simp add: b' Let_def)
qed

lemma first_line_append:
  "hd (split_newline (s @ t)) = (if newlines s = 0 then hd (split_newline s) @ hd (split_newline t) else hd (split_newline s))"
proof -
  obtain l ls where "split_newline s = l # ls" by (cases "split_newline s") auto
  then show ?thesis by (cases ls) (simp_all add: split_newline_append newlines_def)
qed

lemma first_last_line: "newlines s = 0 \<Longrightarrow> last_line s = hd (split_newline s)"
  using split_newline_neq_Nil [of s] by (cases "split_newline s") (simp_all add: newlines_def last_line_def)

lemma summary_of_append: "summary_of (s @ t) = summary_add (summary_of s) (summary_of t)"
proof -
  let ?ls = "longest (row_chars s) 0 (0, 0)" and ?lt = "longest (row_chars t) 0 (0, 0)"
  let ?x = "last (row_chars s)" and ?y = "hd (row_chars t)"
  have x: "?x = nchars (last_line s)" "?y = nchars (hd (split_newline t))"
    by (simp_all add: row_chars_def last_line_def last_map hd_map)
  have n: "length (butlast (row_chars s)) = newlines s" by (simp add: length_row_chars)
  have "longest (row_chars (s @ t)) 0 (0, 0) =
    (let lm1 = (if snd ?ls < ?x + ?y then (newlines s, ?x + ?y) else ?ls)
     in if snd lm1 < snd ?lt then (newlines s + fst ?lt, snd ?lt) else lm1)"
    unfolding row_chars_append n [symmetric]
    by (rule longest_joined) (simp_all flip: row_chars_split)
  moreover obtain l m where ls: "?ls = (l, m)" by (cases ?ls)
  moreover obtain l' m' where lt: "?lt = (l', m')" by (cases ?lt)
  ultimately have l: "longest (row_chars (s @ t)) 0 (0, 0) = (let (l1, m1) = (if m < ?x + ?y then (newlines s, ?x + ?y) else (l, m))
     in if m1 < m' then (newlines s + l', m') else (l1, m1))" by (simp add: Let_def)
  show ?thesis
  proof (rule text_summary.equality)
    show "ts_longest_row (summary_of (s @ t)) = ts_longest_row (summary_add (summary_of s) (summary_of t))"
      by (simp add: summary_of_def summary_add_def l ls lt x Let_def)
    show "ts_longest_row_chars (summary_of (s @ t)) = ts_longest_row_chars (summary_add (summary_of s) (summary_of t))"
      by (simp add: summary_of_def summary_add_def l ls lt x Let_def)
  qed (simp_all add: summary_of_def summary_add_def Let_def newlines_append last_line_append first_line_append first_last_line
      point_add_assign_def Point_def)
qed

lemma last_row_le: "nchars (last_line s) \<le> snd (longest (row_chars s) 0 (0, 0))"
proof -
  have "snd (longest (butlast (row_chars s) @ [last (row_chars s)]) 0 (0, 0)) = max (snd (longest (butlast (row_chars s)) 0 (0, 0))) (last (row_chars s))"
    by (simp add: longest_append)
  then have "last (row_chars s) \<le> snd (longest (row_chars s) 0 (0, 0))" by (simp flip: row_chars_split)
  then show ?thesis by (simp add: row_chars_def last_line_def last_map)
qed

section \<open>The scan\<close>

lemma valid_char_newline: "valid_char c \<Longrightarrow> 10 \<in> set c \<Longrightarrow> c = newline"
proof (cases c)
  case (Cons b bs)
  assume v: "valid_char c" and m: "10 \<in> set c"
  have "is_utf8_char_boundary 10" by (simp add: boundary_iff)
  with v m Cons have "b = 10" by (auto simp: valid_char_def)
  with v Cons show ?thesis by (simp add: valid_char_def utf8_len_def)
qed simp

lemma split_newline_line: "10 \<notin> set s \<Longrightarrow> split_newline s = [s]"
  by (induction s) simp_all

lemma nchars_char: "valid_char c \<Longrightarrow> nchars c = 1"
  by (cases c) (auto simp: valid_char_def nchars_def filter_empty_conv)

lemma nutf16_char: "valid_char c \<Longrightarrow> nutf16 c = char_len_utf16 c"
proof (cases c)
  case (Cons b bs)
  assume v: "valid_char c"
  have "\<not> 240 \<le> b'" if "b' \<in> set bs" for b'
    using v Cons that order_trans [of 192 240 b'] by (auto simp: valid_char_def boundary_iff)
  then have "filter (\<lambda>b. 240 \<le> b) bs = []" by (simp add: filter_empty_conv)
  with Cons nchars_char [OF v] show ?thesis by (simp add: nutf16_def char_len_utf16_def)
qed (simp add: valid_char_def)

lemma summary_char_correct:
  assumes "valid_char c"
  shows "summary_char ((summary_of s)\<lparr>ts_len := 0\<rparr>) c = (summary_of (s @ c))\<lparr>ts_len := 0\<rparr>"
proof (cases "c = newline")
  case True
  have b: "is_utf8_char_boundary 10" by (simp add: boundary_iff)
  have z: "nchars newline = 1" "nutf16 newline = 1" using b by (simp_all add: nchars_def nutf16_def)
  have l: "newlines newline = 1" "last_line newline = []" "row_chars newline = [0, 0]" by (simp_all add: last_line_def row_chars_def)
  show ?thesis unfolding summary_of_append True
    using last_row_le [of s]
    by (simp add: summary_char_def summary_add_def summary_of_def Let_def z l char_len_utf16_def Point_def point_add_assign_def)
next
  case False
  then have "split_newline c = [c]" using valid_char_newline [OF assms] split_newline_line by blast
  then have l: "newlines c = 0" "last_line c = c" "hd (split_newline c) = c" "row_chars c = [1]"
    using nchars_char [OF assms] by (simp_all add: newlines_def last_line_def row_chars_def)
  show ?thesis unfolding summary_of_append
    using False nchars_char [OF assms] nutf16_char [OF assms]
    by (simp add: summary_char_def summary_add_def summary_of_def Let_def l first_last_line Point_def point_add_assign_def)
qed

lemma summary_from_str_correct: "valid_utf8 s \<Longrightarrow> summary_from_str s = summary_of s"
proof -
  assume "valid_utf8 s"
  then obtain cs where cs: "s = concat cs" "str_chars s = cs" "\<forall>c \<in> set cs. valid_char c" by (rule valid_utf8E)
  have "foldl summary_char summary_zero cs = (summary_of (concat cs))\<lparr>ts_len := 0\<rparr>" using cs(3)
  proof (induction cs rule: rev_induct)
    case Nil
    then show ?case by (simp add: summary_zero_def summary_of_def last_line_def row_chars_def point_zero_def)
  next
    case (snoc c cs)
    then show ?case using summary_char_correct [of c "concat cs"] by simp
  qed
  with cs show ?thesis by (simp add: summary_from_str_def summary_of_def)
qed

section \<open>Property\<close>

text \<open>
  Summaries are a homomorphism: the summary that \<open>From<&str>\<close> computes with one pass over the characters
  of a concatenation is the sum \<open>+=\<close> of the summaries of the two texts, for all nine fields, the first
  longest row included; the zero summary is neutral. The scan computes the specification by lines.
\<close>

theorem summary_add_concat:
  assumes "valid_utf8 s" "valid_utf8 t"
  shows "summary_from_str (s @ t) = summary_add (summary_from_str s) (summary_from_str t)
    \<and> summary_add summary_zero (summary_from_str t) = summary_from_str t
    \<and> summary_add (summary_from_str s) summary_zero = summary_from_str s
    \<and> summary_from_str s = summary_of s
    \<and> summary_add (summary_from_str s) summary_newline = summary_from_str (s @ newline)"
proof (intro conjI)
  have nl: "valid_utf8 newline" by code_simp
  have z: "summary_of [] = summary_zero" by (simp add: summary_zero_def summary_of_def last_line_def row_chars_def point_zero_def)
  have n: "summary_of newline = summary_newline"
    by (simp add: summary_newline_def summary_of_def last_line_def row_chars_def nutf16_def nchars_def boundary_iff)
  note spec = summary_from_str_correct [OF assms(1)] summary_from_str_correct [OF assms(2)]
  show "summary_from_str s = summary_of s" by (rule spec(1))
  show "summary_from_str (s @ t) = summary_add (summary_from_str s) (summary_from_str t)"
    using assms by (simp add: spec summary_from_str_correct valid_utf8_append summary_of_append)
  show "summary_add summary_zero (summary_from_str t) = summary_from_str t"
    using summary_of_append [of "[]" t] by (simp add: spec z)
  show "summary_add (summary_from_str s) summary_zero = summary_from_str s"
    using summary_of_append [of s "[]"] by (simp add: spec z)
  show "summary_add (summary_from_str s) summary_newline = summary_from_str (s @ newline)"
    using assms nl by (simp add: spec summary_from_str_correct valid_utf8_append summary_of_append n)
qed

theorem summary_add_concat_witness:
  "summary_from_str ([97, 10, 0xE2, 0x82, 0xAC] @ [98, 10]) = summary_add (summary_from_str [97, 10, 0xE2, 0x82, 0xAC]) (summary_from_str [98, 10])
   \<and> ts_longest_row (summary_from_str [97, 10, 0xE2, 0x82, 0xAC, 98, 10]) = 1"
proof -
  have "valid_utf8 [97, 10, 0xE2, 0x82, 0xAC]" "valid_utf8 [98, 10]" by code_simp+
  moreover have "ts_longest_row (summary_from_str [97, 10, 0xE2, 0x82, 0xAC, 98, 10]) = 1" by code_simp
  ultimately show ?thesis using summary_add_concat [of "[97, 10, 0xE2, 0x82, 0xAC]" "[98, 10]"] by simp
qed

text \<open>\<open>add_newline\<close> is not the addition of a newline: it more than doubles the length in UTF-16 code units and
  leaves the number of characters alone.\<close>

theorem add_newline_wrong:
  "add_newline (summary_from_str [97]) \<noteq> summary_add (summary_from_str [97]) summary_newline
   \<and> ts_len_utf16 (add_newline (summary_from_str [97])) = 3 \<and> ts_chars (add_newline (summary_from_str [97])) = 1"
  by code_simp

end
