(* ===== verification/Chunk_Text.thy ===== *)
theory Chunk_Text
  imports Chunk Text_Summary
begin

text \<open>
  The measures and position conversions of \<open>ChunkSlice\<close> (\<open>crates/rope/src/chunk.rs\<close>), which work on the bitmaps
  only. They are compared with the same notions on the text: rows, columns and UTF-16 offsets of the
  prefix up to a byte offset.
\<close>

unbundle bit_operations_syntax

section \<open>Measures\<close>

definition slice_len :: "chunk \<Rightarrow> nat" where
  "slice_len c = length (ch_text c)"

definition slice_len_utf16 :: "chunk \<Rightarrow> nat" where
  "slice_len_utf16 c = count_ones (ch_chars_utf16 c)"

definition slice_lines :: "chunk \<Rightarrow> nat point" where
  "slice_lines c = Point (count_ones (ch_newlines c)) (leading_zeros (ch_newlines c) - (128 - length (ch_text c)))"

definition slice_first_line_chars :: "chunk \<Rightarrow> nat" where
  "slice_first_line_chars c = count_ones (ch_chars c AND saturating_shl_mask (trailing_zeros (ch_newlines c)))"

definition slice_last_line_chars :: "chunk \<Rightarrow> nat" where
  "slice_last_line_chars c = count_ones (ch_chars c AND saturating_shr_mask (leading_zeros (ch_newlines c)))"

definition slice_last_line_len_utf16 :: "chunk \<Rightarrow> nat" where
  "slice_last_line_len_utf16 c = count_ones (ch_chars_utf16 c AND saturating_shr_mask (leading_zeros (ch_newlines c)))"

text \<open>The loop of \<open>longest_row\<close>, over what is left of the bitmaps, the total, the row, and the longest row so
  far with its length.\<close>

lemma trailing_zeros_less: "w \<noteq> 0 \<Longrightarrow> trailing_zeros w < LENGTH('a)" for w :: "'a::len word"
proof -
  assume "w \<noteq> 0"
  then obtain i where "bit w i" by (auto simp: bit_eq_iff)
  moreover have "i < LENGTH('a)" using \<open>bit w i\<close> by (rule bit_imp_le_length)
  ultimately have "takeWhile (\<lambda>i. \<not> bit w i) [0..<LENGTH('a)] \<noteq> [0..<LENGTH('a)]" by (auto simp: takeWhile_eq_all_conv)
  then have "\<not> length [0..<LENGTH('a)] \<le> length (takeWhile (\<lambda>i. \<not> bit w i) [0..<LENGTH('a)])" by (metis take_all takeWhile_eq_take)
  then show ?thesis by (simp add: trailing_zeros_def)
qed

lemma shr_decreases: "w \<noteq> 0 \<Longrightarrow> unat (shr (shr w (trailing_zeros w)) 1) < unat w"
proof -
  assume w: "w \<noteq> 0"
  have "unat (shr (shr w (trailing_zeros w)) 1) \<le> unat w div 2"
    unfolding shr_def unat_drop_bit by (simp add: drop_bit_eq_div div_le_mono)
  also have "\<dots> < unat w" using w by (simp add: unat_gt_0)
  finally show ?thesis .
qed

function longest_row_loop :: "u128 \<Rightarrow> u128 \<Rightarrow> nat \<Rightarrow> nat \<Rightarrow> nat \<Rightarrow> nat \<Rightarrow> nat \<times> nat \<times> nat" where
  "longest_row_loop chars nls total_chars r longest_row longest_row_chars =
     (if 0 < nls then
        let newline_ix = trailing_zeros nls;
            n = count_ones (chars AND (shl 1 newline_ix - 1));
            (longest_row', longest_row_chars') =
              (if longest_row_chars < n then (r, n) else (longest_row, longest_row_chars))
        in longest_row_loop (shr (shr chars newline_ix) 1) (shr (shr nls newline_ix) 1)
             (total_chars + n + 1) (r + 1) longest_row' longest_row_chars'
      else
        let n = count_ones chars
        in if longest_row_chars < n then (total_chars + n, r, n)
           else (total_chars + n, longest_row, longest_row_chars))"
  by pat_completeness auto
termination
  by (relation "measure (\<lambda>(chars, nls, _). unat nls)") (auto simp: shr_decreases [unfolded One_nat_def] simp flip: word_neq_0_conv)

declare longest_row_loop.simps [simp del]

definition slice_longest_row :: "chunk \<Rightarrow> nat \<times> nat \<times> nat" where
  "slice_longest_row c = longest_row_loop (ch_chars c) (ch_newlines c) 0 0 0 0"

definition slice_text_summary :: "chunk \<Rightarrow> text_summary" where
  "slice_text_summary c = (case slice_longest_row c of (chars, longest_row, longest_row_chars) \<Rightarrow>
     \<lparr>ts_len = slice_len c, ts_chars = chars, ts_len_utf16 = slice_len_utf16 c, ts_lines = slice_lines c,
      ts_first_line_chars = slice_first_line_chars c, ts_last_line_chars = slice_last_line_chars c,
      ts_last_line_len_utf16 = slice_last_line_len_utf16 c, ts_longest_row = longest_row, ts_longest_row_chars = longest_row_chars\<rparr>)"

section \<open>Positions\<close>

definition slice_offset_to_point :: "chunk \<Rightarrow> nat \<Rightarrow> nat point option" where
  "slice_offset_to_point c offset = do {
     let m = push_bit (offset mod 2 ^ 32) 1 - 1;
     let r = count_ones (ch_newlines c AND m);
     let newline_ix = 128 - leading_zeros (ch_newlines c AND m);
     rust_assert (newline_ix \<le> offset);
     Some (Point r (offset - newline_ix))
   }"

definition slice_offset_range_for_row :: "chunk \<Rightarrow> nat \<Rightarrow> nat \<times> nat" where
  "slice_offset_range_for_row c r =
     (let row_start = (if 0 < r then nth_set_bit (ch_newlines c) r + 1 else 0);
          row_len = (if row_start = MAX_BASE then 0
                     else min (trailing_zeros (shr (ch_newlines c) row_start)) (length (ch_text c) - row_start))
      in (row_start, row_start + row_len))"

definition slice_point_to_offset :: "chunk \<Rightarrow> nat point \<Rightarrow> nat" where
  "slice_point_to_offset c p = (if row (slice_lines c) < row p then slice_len c
     else (case slice_offset_range_for_row c (row p) of (start, stop) \<Rightarrow>
       if stop - start < column p then stop else start + column p))"

definition slice_offset_to_offset_utf16 :: "chunk \<Rightarrow> nat \<Rightarrow> nat" where
  "slice_offset_to_offset_utf16 c offset = count_ones (ch_chars_utf16 c AND (push_bit (offset mod 2 ^ 32) 1 - 1))"

definition slice_point_to_offset_utf16 :: "chunk \<Rightarrow> nat point \<Rightarrow> nat" where
  "slice_point_to_offset_utf16 c p = (if row (slice_lines c) < row p then slice_len_utf16 c
     else slice_offset_to_offset_utf16 c (slice_point_to_offset c p))"

definition slice_offset_utf16_to_offset :: "chunk \<Rightarrow> nat \<Rightarrow> nat option" where
  "slice_offset_utf16_to_offset c target = (if target = 0 then Some 0
     else do {
       let ix = nth_set_bit (ch_chars_utf16 c) target + 1;
       if ix = MAX_BASE then Some MAX_BASE
       else do {
         rust_assert (ix \<le> length (ch_text c));
         Some (ix + min (trailing_zeros (shr (ch_chars_utf16 c) ix)) (length (ch_text c) - ix))
       }
     })"

definition slice_offset_to_point_utf16 :: "chunk \<Rightarrow> nat \<Rightarrow> nat point" where
  "slice_offset_to_point_utf16 c offset =
     (let m = saturating_shl_mask (offset mod 2 ^ 32);
          r = count_ones (ch_newlines c AND m);
          newline_ix = 128 - leading_zeros (ch_newlines c AND m);
          col = (if newline_ix = MAX_BASE then 0 else count_ones (shr (ch_chars_utf16 c AND m) newline_ix))
      in Point r col)"

definition slice_point_to_point_utf16 :: "chunk \<Rightarrow> nat point \<Rightarrow> nat point" where
  "slice_point_to_point_utf16 c p = slice_offset_to_point_utf16 c (slice_point_to_offset c p)"

section \<open>Tabs\<close>

record tabs =
  tb_tabs :: u128
  tb_chars :: u128

definition slice_tabs :: "chunk \<Rightarrow> tabs" where
  "slice_tabs c = \<lparr>tb_tabs = ch_tabs c, tb_chars = ch_chars c\<rparr>"

definition tabs_next :: "tabs \<Rightarrow> (nat \<times> nat) option \<times> tabs" where
  "tabs_next t = (if tb_tabs t = 0 then (None, t)
     else let tab_offset = trailing_zeros (tb_tabs t);
              char_offset = count_ones (tb_chars t AND (shl 1 tab_offset - 1))
          in (Some (tab_offset, char_offset), t\<lparr>tb_tabs := tb_tabs t XOR shl 1 tab_offset\<rparr>))"


section \<open>Counting marks\<close>

lemma rank_beyond: "128 \<le> k \<Longrightarrow> rank w k = rank w 128" for w :: u128
proof (induction k rule: dec_induct)
  case (step n)
  then show ?case using bit_imp_le_length [of w n] by auto
qed simp

lemma count_masked:
  fixes w m :: u128
  assumes "\<And>i. bit m i \<longleftrightarrow> i < k \<and> i < 128"
  shows "count_ones (w AND m) = rank w k"
proof -
  have "rank (w AND m) j = rank w (min j k)" if "j \<le> 128" for j
    using that
  proof (induction j)
    case (Suc j)
    then show ?case by (cases "j < k") (simp_all add: bit_and_iff assms min_def)
  qed simp
  then show ?thesis using rank_beyond [of k w] by (cases "k \<le> 128") (simp_all add: count_ones_rank min_def)
qed

lemma count_low: "count_ones (w AND (push_bit k 1 - 1)) = rank w k" for w :: u128
proof (rule count_masked)
  fix i
  show "bit (push_bit k 1 - 1 :: u128) i \<longleftrightarrow> i < k \<and> i < 128"
  proof (cases "k \<le> 128")
    case True
    then show ?thesis using bit_low_mask [OF True] by auto
  next
    case False
    then have "push_bit k (1 :: u128) = 0" by (simp add: exp_eq_zero_iff)
    then have "push_bit k 1 - 1 = (- 1 :: u128)" by (simp only: diff_0)
    then show ?thesis using False by (simp only:) auto
  qed
qed

lemma rank_marks: "bit w = marks P s \<Longrightarrow> rank w k = length (filter P (take k s))"
proof (induction k)
  case (Suc k)
  then show ?case by (cases "k < length s") (simp_all add: marks_def take_Suc_conv_app_nth)
qed simp

lemma count_marks: "bit w = marks P s \<Longrightarrow> length s \<le> 128 \<Longrightarrow> count_ones w = length (filter P s)" for w :: u128
  using rank_marks [of w P s 128] by (simp add: count_ones_rank)

lemma trailing_zeros_eq:
  fixes w :: "'a::len word"
  shows "bit w i \<Longrightarrow> (\<And>j. j < i \<Longrightarrow> \<not> bit w j) \<Longrightarrow> trailing_zeros w = i" and "trailing_zeros (0 :: 'a word) = LENGTH('a)"
proof -
  show "trailing_zeros (0 :: 'a word) = LENGTH('a)" by (simp add: trailing_zeros_def takeWhile_eq_all_conv [THEN iffD2])
  assume i: "bit w i" "\<And>j. j < i \<Longrightarrow> \<not> bit w j"
  then have "i < LENGTH('a)" by (auto dest: bit_imp_le_length)
  then have "[0..<LENGTH('a)] = [0..<i] @ i # [Suc i..<LENGTH('a)]"
    using upt_add_eq_append [of 0 i "LENGTH('a) - i"] upt_conv_Cons [of i "LENGTH('a)"] by (simp del: upt_conv_Cons)
  then have "takeWhile (\<lambda>i. \<not> bit w i) [0..<LENGTH('a)] = [0..<i]"
    using i by (simp add: takeWhile_append)
  then show "trailing_zeros w = i" by (simp add: trailing_zeros_def)
qed

lemma leading_zeros_eq:
  fixes w :: "'a::len word"
  shows "bit w i \<Longrightarrow> (\<And>j. i < j \<Longrightarrow> \<not> bit w j) \<Longrightarrow> leading_zeros w = LENGTH('a) - Suc i" and "leading_zeros (0 :: 'a word) = LENGTH('a)"
proof -
  show "leading_zeros (0 :: 'a word) = LENGTH('a)" by (simp add: leading_zeros_def takeWhile_eq_all_conv [THEN iffD2])
  assume i: "bit w i" "\<And>j. i < j \<Longrightarrow> \<not> bit w j"
  then have "i < LENGTH('a)" by (auto dest: bit_imp_le_length)
  then have "[0..<LENGTH('a)] = [0..<i] @ i # [Suc i..<LENGTH('a)]"
    using upt_add_eq_append [of 0 i "LENGTH('a) - i"] upt_conv_Cons [of i "LENGTH('a)"] by (simp del: upt_conv_Cons)
  then have "takeWhile (\<lambda>i. \<not> bit w i) (rev [0..<LENGTH('a)]) = rev [Suc i..<LENGTH('a)]"
    using i by (simp add: takeWhile_append)
  then show "leading_zeros w = LENGTH('a) - Suc i" by (simp add: leading_zeros_def)
qed

lemma trailing_marks:
  fixes w :: u128
  assumes "bit w = marks P s" "length s \<le> 128"
  shows "trailing_zeros w = (if \<exists>b \<in> set s. P b then length (takeWhile (\<lambda>b. \<not> P b) s) else 128)"
proof (cases "\<exists>b \<in> set s. P b")
  case True
  let ?n = "length (takeWhile (\<lambda>b. \<not> P b) s)"
  have "?n < length s" using True by (metis length_takeWhile_le le_neq_implies_less takeWhile_eq_all_conv takeWhile_eq_take take_all_iff order_refl)
  then have "bit w ?n" using assms(1) nth_length_takeWhile [of "\<lambda>b. \<not> P b" s] by (simp add: marks_def)
  moreover have "\<not> bit w j" if "j < ?n" for j using that assms(1) nth_mem [OF that] by (auto simp: marks_def takeWhile_nth dest: set_takeWhileD)
  ultimately show ?thesis using True trailing_zeros_eq(1) [of w ?n] by simp
next
  case False
  then have "w = 0" by (intro bit_eqI) (simp add: assms(1) marks_def)
  with False show ?thesis by (simp add: trailing_zeros_eq)
qed


text \<open>The last line of a text: everything after its last newline.\<close>

lemma last_line_split:
  "newlines s = 0 \<Longrightarrow> last_line s = s \<and> 10 \<notin> set s" "0 < newlines s \<Longrightarrow> \<exists>a. s = a @ 10 # last_line s" "10 \<notin> set (last_line s)"
proof -
  have "(newlines s = 0 \<longrightarrow> last_line s = s \<and> 10 \<notin> set s) \<and> (0 < newlines s \<longrightarrow> (\<exists>a. s = a @ 10 # last_line s)) \<and> 10 \<notin> set (last_line s)"
  proof (induction s rule: rev_induct)
    case (snoc b s)
    have b: "last_line [b] = (if b = 10 then [] else [b])" by (simp add: last_line_def)
    show ?case
    proof (cases "b = 10")
      case False
      with snoc b show ?thesis by (auto simp: newlines_append last_line_append)
    qed (use b in \<open>auto simp: newlines_append last_line_append\<close>)
  qed (simp add: last_line_def)
  then show "newlines s = 0 \<Longrightarrow> last_line s = s \<and> 10 \<notin> set s" "0 < newlines s \<Longrightarrow> \<exists>a. s = a @ 10 # last_line s" "10 \<notin> set (last_line s)"
    by blast+
qed

lemma newlines_count: "newlines s = length (filter (\<lambda>b. b = 10) s)"
  by (induction s) simp_all

lemma last_line_drop: "last_line s = drop (length s - length (last_line s)) s" "length (last_line s) \<le> length s"
proof -
  have "last_line s = drop (length s - length (last_line s)) s \<and> length (last_line s) \<le> length s"
  proof (cases "newlines s = 0")
    case False
    then obtain a where a: "s = a @ 10 # last_line s" using last_line_split(2) by blast
    have "length s = Suc (length a) + length (last_line s)" using arg_cong [OF a, of length] by simp
    moreover have "drop (Suc (length a)) s = last_line s" by (subst a) simp
    ultimately show ?thesis by simp
  qed (simp add: last_line_split(1))
  then show "last_line s = drop (length s - length (last_line s)) s" "length (last_line s) \<le> length s" by blast+
qed

lemma leading_newlines:
  fixes w :: u128
  assumes "bit w = marks (\<lambda>b. b = 10) s" "length s \<le> 128"
  shows "leading_zeros w = 128 - (length s - length (last_line s))"
proof (cases "newlines s = 0")
  case True
  then have l: "last_line s = s" "10 \<notin> set s" using last_line_split(1) by blast+
  then have "w = 0" by (intro bit_eqI) (auto simp: assms(1) marks_def dest: nth_mem)
  then show ?thesis using l by (simp add: leading_zeros_eq)
next
  case False
  then obtain a where s: "s = a @ 10 # last_line s" using last_line_split(2) by blast
  let ?l = "last_line s"
  have len: "length s = Suc (length a + length ?l)" using arg_cong [OF s, of length] by simp
  have "bit w (length a)" using len by (subst assms(1), subst s) (simp add: marks_def)
  moreover have "\<not> bit w j" if "length a < j" for j
  proof
    assume "bit w j"
    then have j: "j < length s" "s ! j = 10" by (simp_all add: assms(1) marks_def)
    have "s ! j = ?l ! (j - Suc (length a))" using that by (subst s) (simp add: nth_append nth_Cons')
    then have "10 \<in> set ?l" using j len that by (metis diff_less_mono Suc_leI add_Suc diff_add_inverse nth_mem)
    then show False using last_line_split(3) by blast
  qed
  ultimately have "leading_zeros w = 128 - Suc (length a)" using leading_zeros_eq(1) [of w "length a"] by simp
  then show ?thesis using len by simp
qed


lemma count_high:
  fixes w :: u128
  assumes "k \<le> 128"
  shows "count_ones (w AND saturating_shr_mask (128 - k)) = count_ones w - rank w k"
proof -
  define m where "m = drop_bit (128 - k) (- 1 :: u128)"
  have m: "bit m i \<longleftrightarrow> i < k \<and> i < 128" for i using assms by (auto simp: m_def bit_mask_iff)
  have "rank (w AND NOT m) j + rank (w AND m) j = rank w j" if "j \<le> 128" for j
    using that by (induction j) (auto simp: bit_and_iff bit_not_iff)
  then have "count_ones (w AND NOT m) + count_ones (w AND m) = count_ones w" by (simp add: count_ones_rank)
  then show ?thesis using count_masked [of m k w] m by (simp add: saturating_shr_mask_def m_def)
qed

lemma rank_utf16:
  assumes "bit w = marks_utf16 s" "valid_utf8 s"
  shows "rank w k = nchars (take k s) + length (filter (\<lambda>b. 240 \<le> b) (take (k - 1) s))"
proof (induction k)
  case (Suc k)
  have step: "nchars (take (Suc k) s) = nchars (take k s) + of_bool (marks is_utf8_char_boundary s k)"
    by (cases "k < length s") (simp_all add: marks_def take_Suc_conv_app_nth nchars_def)
  show ?case
  proof (cases k)
    case 0
    with step Suc assms(1) show ?thesis by (simp add: marks_utf16_def)
  next
    case (Suc j)
    have lead: "length (filter (\<lambda>b. 240 \<le> b) (take k s)) = length (filter (\<lambda>b. 240 \<le> b) (take j s)) + of_bool (marks (\<lambda>b. 240 \<le> b) s j)"
      by (cases "j < length s") (simp_all add: Suc marks_def take_Suc_conv_app_nth)
    have "\<not> (marks is_utf8_char_boundary s k \<and> marks (\<lambda>b. 240 \<le> b) s j)"
      using lead_4 [OF assms(2), of j] by (auto simp: Suc marks_def)
    then have "of_bool (bit w k) = (of_bool (marks is_utf8_char_boundary s k) + of_bool (marks (\<lambda>b. 240 \<le> b) s j) :: nat)"
      by (auto simp: assms(1) marks_utf16_def Suc)
    with Suc.IH step lead Suc show ?thesis by simp
  qed
qed simp

text \<open>At a character boundary this is the number of code units of the prefix.\<close>

lemma rank_utf16_boundary:
  assumes "bit w = marks_utf16 s" "valid_utf8 s" "str_is_char_boundary s k"
  shows "rank w k = nutf16 (take k s)"
proof (cases k)
  case (Suc j)
  have "j < length s" using boundary_le [OF assms(3)] Suc by simp
  moreover have "\<not> 240 \<le> s ! j"
    using lead_4 [OF assms(2), of j] assms(3) \<open>j < length s\<close> by (auto simp: Suc marks_def str_is_char_boundary_def)
  ultimately show ?thesis using rank_utf16 [OF assms(1,2), of k] by (simp add: Suc nutf16_def take_Suc_conv_app_nth)
qed simp

lemma count_utf16: "bit w = marks_utf16 s \<Longrightarrow> valid_utf8 s \<Longrightarrow> length s \<le> 128 \<Longrightarrow> count_ones w = nutf16 s" for w :: u128
proof -
  assume a: "bit w = marks_utf16 s" "valid_utf8 s" "length s \<le> 128"
  have "rank w (length s) = nutf16 s" using rank_utf16_boundary [OF a(1,2), of "length s"] by (simp add: str_is_char_boundary_def)
  moreover have "rank w k = rank w (length s)" if "length s \<le> k" for k
    using that
  proof (induction k rule: dec_induct)
    case (step k)
    have "\<not> bit w k" using marks_utf16_less [OF a(2), of k] step(1) by (auto simp: a(1))
    with step(3) show ?case by simp
  qed simp
  from this [OF a(3)] have "rank w 128 = rank w (length s)" .
  ultimately show ?thesis by (simp add: count_ones_rank)
qed

section \<open>Measures of a chunk\<close>

lemma chunk_okD:
  assumes "chunk_ok c"
  shows "length (ch_text c) \<le> 128" "valid_utf8 (ch_text c)" "bit (ch_chars c) = marks is_utf8_char_boundary (ch_text c)"
    "bit (ch_chars_utf16 c) = marks_utf16 (ch_text c)" "bit (ch_newlines c) = marks (\<lambda>b. b = 10) (ch_text c)"
    "bit (ch_tabs c) = marks (\<lambda>b. b = 9) (ch_text c)"
  using assms by (simp_all add: chunk_ok_def)

text \<open>The start of the last line is a boundary.\<close>

lemma last_line_boundary:
  assumes "valid_utf8 s"
  shows "str_is_char_boundary s (length s - length (last_line s))"
proof (cases "newlines s = 0")
  case False
  then obtain a where a: "s = (a @ [10]) @ last_line s" using last_line_split(2) by fastforce
  have len: "length s - length (last_line s) = Suc (length a)" using arg_cong [OF a, of length] by simp
  have "str_is_char_boundary s (length a)" by (subst a) (simp add: str_is_char_boundary_def boundary_iff nth_append)
  from valid_split(2) [OF assms this] have "valid_utf8 ([10] @ last_line s)" by (subst (asm) a) simp
  moreover have "valid_utf8 [10]" by code_simp
  ultimately have "valid_utf8 (last_line s)" by (simp only: valid_utf8_append)
  show ?thesis
  proof (cases "last_line s = []")
    case False
    then have "is_utf8_char_boundary (s ! Suc (length a))"
      using valid_hd [OF \<open>valid_utf8 (last_line s)\<close>] by (subst a) (simp add: nth_append hd_conv_nth)
    moreover have "Suc (length a) < length s" using False arg_cong [OF a, of length] by simp
    ultimately show ?thesis by (simp add: len str_is_char_boundary_def)
  qed (simp add: str_is_char_boundary_def)
qed (simp add: last_line_split(1) str_is_char_boundary_def)


text \<open>The loop of \<open>longest_row\<close>, for any bitmaps: the rows are what lies between the marked newlines.\<close>

fun split_on :: "('a \<Rightarrow> bool) \<Rightarrow> 'a list \<Rightarrow> 'a list list" where
  "split_on Q [] = [[]]"
| "split_on Q (x # xs) = (if Q x then [] # split_on Q xs else (x # hd (split_on Q xs)) # tl (split_on Q xs))"

lemma split_on_neq_Nil [simp]: "split_on Q xs \<noteq> []"
  by (induction xs) simp_all

lemma split_on_row: "\<forall>x \<in> set xs. \<not> Q x \<Longrightarrow> split_on Q xs = [xs]"
  by (induction xs) simp_all

lemma split_on_append: "\<forall>x \<in> set xs. \<not> Q x \<Longrightarrow> Q y \<Longrightarrow> split_on Q (xs @ y # ys) = xs # split_on Q ys"
  by (induction xs) simp_all

lemma split_on_newline: "split_on (\<lambda>b. b = 10) s = split_newline s"
  by (induction s) (auto split: list.splits)

lemma longest_row_loop_rows:
  "bit chars = marks P s \<Longrightarrow> bit nls = marks Q s \<Longrightarrow> length s \<le> 128 \<Longrightarrow>
   longest_row_loop chars nls n r l m =
     (n + length (filter (\<lambda>x. P x \<or> Q x) s), longest (map (\<lambda>xs. length (filter P xs)) (split_on Q s)) r (l, m))"
proof (induction "length s" arbitrary: s chars nls n r l m rule: less_induct)
  case less
  show ?case
  proof (cases "\<exists>x \<in> set s. Q x")
    case False
    then have "nls = 0" by (intro bit_eqI) (auto simp: less.prems(2) marks_def)
    moreover have "filter (\<lambda>x. P x \<or> Q x) s = filter P s" using False by (auto intro: filter_cong)
    ultimately show ?thesis
      using False count_marks [OF less.prems(1,3)] by (subst longest_row_loop.simps) (simp add: split_on_row Let_def)
  next
    case True
    then obtain a x t where s: "s = a @ x # t" "Q x" "\<forall>y \<in> set a. \<not> Q y" by (metis split_list_first_prop)
    have tz: "trailing_zeros nls = length a"
      using trailing_marks [OF less.prems(2,3)] True s by (simp add: takeWhile_append)
    have pos: "0 < nls" using True trailing_zeros_eq(2) [where ?'a = 128] tz less.prems(3) s by (auto simp: word_gt_0)
    have len: "length a < 128" "length t < length s" "length t \<le> 128" using less.prems(3) by (simp_all add: s)
    have drop: "bit (shr (shr w (length a)) 1) = marks R t" if "bit w = marks R s" for w R
    proof
      fix i
      have "bit (shr (shr w (length a)) 1) i = bit w (length a + Suc i)" using len(1) by (simp add: shr_def bit_drop_bit_eq)
      then show "bit (shr (shr w (length a)) 1) i = marks R t i" by (simp add: that marks_def s nth_append)
    qed
    have "count_ones (chars AND (shl 1 (length a) - 1)) = length (filter P a)"
      using count_low [of chars "length a"] rank_marks [OF less.prems(1), of "length a"] len(1) by (simp add: shl_def s)
    moreover have "filter (\<lambda>x. P x \<or> Q x) a = filter P a" using s(3) by (auto intro: filter_cong)
    ultimately show ?thesis
      using less.hyps [OF len(2) drop [OF less.prems(1)] drop [OF less.prems(2)] len(3)] pos s(2) split_on_append [OF s(3,2)]
      by (subst longest_row_loop.simps) (simp add: tz Let_def s(1))
  qed
qed

lemma longest_row_loop_correct:
  assumes "bit chars = marks is_utf8_char_boundary s" "bit nls = marks (\<lambda>b. b = 10) s" "length s \<le> 128"
  shows "longest_row_loop chars nls n r l m = (n + nchars s, longest (row_chars s) r (l, m))"
proof -
  have "filter (\<lambda>b. is_utf8_char_boundary b \<or> b = 10) s = filter is_utf8_char_boundary s"
    by (intro filter_cong) (auto simp: boundary_iff)
  then show ?thesis
    using longest_row_loop_rows [OF assms] by (simp add: nchars_def [abs_def] row_chars_def split_on_newline)
qed

lemma slice_lines_correct: "chunk_ok c \<Longrightarrow> slice_lines c = Point (newlines (ch_text c)) (length (last_line (ch_text c)))"
  using chunk_okD [of c] count_marks [of "ch_newlines c" "\<lambda>b. b = 10" "ch_text c"] leading_newlines [of "ch_newlines c"] last_line_drop(2) [of "ch_text c"]
  by (simp add: slice_lines_def newlines_count)

lemma slice_text_summary_correct:
  assumes "chunk_ok c"
  shows "slice_text_summary c = summary_of (ch_text c)"
proof -
  let ?s = "ch_text c"
  note ok = chunk_okD [OF assms]
  let ?k = "length ?s - length (last_line ?s)"
  have k: "?k \<le> 128" "drop ?k ?s = last_line ?s" using ok(1) last_line_drop [of ?s] by auto
  have lz: "leading_zeros (ch_newlines c) = 128 - ?k" by (rule leading_newlines [OF ok(5,1)])
  have split: "?s = take ?k ?s @ last_line ?s" using k(2) append_take_drop_id [of ?k ?s] by simp
  have first: "hd (split_newline ?s) = (if 10 \<in> set ?s then takeWhile (\<lambda>b. b \<noteq> 10) ?s else ?s)" 
  proof (cases "10 \<in> set ?s")
    case True
    then obtain a t where "?s = a @ 10 # t" "10 \<notin> set a" by (meson split_list_first)
    then show ?thesis by (simp add: split_newline_append split_newline_line takeWhile_append)
  qed (simp add: split_newline_line)
  show ?thesis
  proof (rule text_summary.equality)
    have "count_ones (ch_chars c AND saturating_shl_mask n) = rank (ch_chars c) n" for n
      using count_low [of "ch_chars c" n] by (simp add: saturating_shl_mask_def)
    moreover have "rank (ch_chars c) n = nchars (take n ?s)" for n using rank_marks [OF ok(3)] by (simp add: nchars_def)
    ultimately show "ts_first_line_chars (slice_text_summary c) = ts_first_line_chars (summary_of ?s)"
      using trailing_marks [OF ok(5,1)] ok(1) first
      by (auto simp: slice_text_summary_def summary_of_def slice_first_line_chars_def takeWhile_eq_take [symmetric] split: prod.splits)
    have "count_ones (ch_chars c) = nchars (take ?k ?s) + nchars (last_line ?s)"
      using count_marks [OF ok(3,1)] arg_cong [OF split, of nchars] by (simp add: nchars_def)
    then have "slice_last_line_chars c = nchars (last_line ?s)"
      using count_high [OF k(1), of "ch_chars c"] rank_marks [OF ok(3), of ?k] by (simp add: slice_last_line_chars_def lz nchars_def)
    then show "ts_last_line_chars (slice_text_summary c) = ts_last_line_chars (summary_of ?s)"
      by (simp add: slice_text_summary_def summary_of_def split: prod.splits)
    have "count_ones (ch_chars_utf16 c) = nutf16 (take ?k ?s) + nutf16 (last_line ?s)"
      using count_utf16 [OF ok(4,2,1)] arg_cong [OF split, of nutf16] by simp
    then have "slice_last_line_len_utf16 c = nutf16 (last_line ?s)"
      using count_high [OF k(1), of "ch_chars_utf16 c"] rank_utf16_boundary [OF ok(4,2) last_line_boundary [OF ok(2)]]
      by (simp add: slice_last_line_len_utf16_def lz)
    then show "ts_last_line_len_utf16 (slice_text_summary c) = ts_last_line_len_utf16 (summary_of ?s)"
      by (simp add: slice_text_summary_def summary_of_def split: prod.splits)
  qed (use longest_row_loop_correct [OF ok(3,5,1), of 0 0 0 0] slice_lines_correct [OF assms] count_utf16 [OF ok(4,2,1)] in
      \<open>simp_all add: slice_text_summary_def slice_longest_row_def summary_of_def slice_len_def slice_len_utf16_def split_def\<close>)
qed


section \<open>Offsets and points\<close>

text \<open>The position of a byte offset, in bytes and in UTF-16 code units.\<close>

definition point_at :: "str \<Rightarrow> nat \<Rightarrow> nat point" where
  "point_at s i = Point (newlines (take i s)) (length (last_line (take i s)))"

definition point_utf16_at :: "str \<Rightarrow> nat \<Rightarrow> nat point" where
  "point_utf16_at s i = Point (newlines (take i s)) (nutf16 (last_line (take i s)))"

lemma point_at_parse: "point_at s i = parse_str (take i s)"
  by (simp add: point_at_def parse_str_eq)

lemma newlines_prefix:
  assumes "chunk_ok c" "i \<le> length (ch_text c)"
  shows "count_ones (ch_newlines c AND (push_bit (i mod 2 ^ 32) 1 - 1)) = newlines (take i (ch_text c))"
    and "128 - leading_zeros (ch_newlines c AND (push_bit (i mod 2 ^ 32) 1 - 1)) = i - length (last_line (take i (ch_text c)))"
proof -
  let ?s = "ch_text c" and ?m = "push_bit i 1 - 1 :: u128"
  note ok = chunk_okD [OF assms(1)]
  have i: "i \<le> 128" "i mod 2 ^ 32 = i" "length (take i ?s) = i" using assms(2) ok(1) by simp_all
  have eq: "bit (ch_newlines c) = marks (\<lambda>b. b = 10) (take i ?s @ drop i ?s)" using ok(5) by simp
  have m: "bit ?m = (\<lambda>j. j < length (take i ?s))" unfolding i(3) using i(1) by (rule bit_low_mask)
  have b: "bit (ch_newlines c AND ?m) = marks (\<lambda>b. b = 10) (take i ?s)" using eq m marks_append marks_less by (rule bits_prefix)
  then show "count_ones (ch_newlines c AND (push_bit (i mod 2 ^ 32) 1 - 1)) = newlines (take i ?s)"
    unfolding i(2) using count_marks [OF b] i by (simp add: newlines_count)
  have "i - length (last_line (take i ?s)) \<le> 128" using i(1) by simp
  then show "128 - leading_zeros (ch_newlines c AND (push_bit (i mod 2 ^ 32) 1 - 1)) = i - length (last_line (take i ?s))"
    unfolding i(2) using leading_newlines [OF b] i by simp
qed

lemma slice_offset_to_point_correct:
  assumes "chunk_ok c" "i \<le> length (ch_text c)"
  shows "slice_offset_to_point c i = Some (point_at (ch_text c) i)"
proof -
  have "length (last_line (take i (ch_text c))) \<le> i" using last_line_drop(2) [of "take i (ch_text c)"] assms(2) by simp
  then show ?thesis unfolding slice_offset_to_point_def Let_def newlines_prefix [OF assms] by (simp add: point_at_def)
qed

lemma rank_inj: "bit w p \<Longrightarrow> bit w q \<Longrightarrow> rank w p = rank w q \<Longrightarrow> p = q"
proof (rule ccontr)
  assume a: "bit w p" "bit w q" "rank w p = rank w q" "p \<noteq> q"
  have "rank w p < rank w q" if "p < q" "bit w p" for p q using rank_mono [of "Suc p" q w] that by simp
  with a show False by (metis less_irrefl linorder_neqE_nat)
qed

lemma nth_set_bit_eq: "bit v p \<Longrightarrow> p < 128 \<Longrightarrow> nth_set_bit v (Suc (rank v p)) = p"
proof -
  assume p: "bit v p" "p < 128"
  then have "Suc (rank v p) \<le> count_ones v" using nth_ones(2) [of v p] by simp
  then have q: "bit v (nth_set_bit v (Suc (rank v p)))" "rank v (nth_set_bit v (Suc (rank v p))) = rank v p"
    using nth_set_bit_correct [of "Suc (rank v p)" v] by auto
  show ?thesis by (rule rank_inj [OF q(1) p(1) q(2)])
qed

text \<open>Where a row lies in the text.\<close>

lemma row_split:
  "r \<le> newlines s \<Longrightarrow> \<exists>a b. s = a @ split_newline s ! r @ b \<and> newlines a = r \<and> last_line a = [] \<and>
     (b = [] \<or> hd b = 10) \<and> 10 \<notin> set (split_newline s ! r)"
proof (induction "length s" arbitrary: s r rule: less_induct)
  case less
  show ?case
  proof (cases "10 \<in> set s")
    case False
    moreover have "newlines s = 0" using False by (auto simp: newlines_count filter_empty_conv)
    ultimately show ?thesis using less.prems by (intro exI [of _ "[]"]) (simp add: split_newline_line last_line_def)
  next
    case True
    then obtain l t where s: "s = l @ 10 # t" "10 \<notin> set l" by (meson split_list_first)
    have l: "newlines l = 0" using s(2) by (auto simp: newlines_count filter_empty_conv)
    have rows: "split_newline s = l # split_newline t" using s by (simp add: split_newline_append split_newline_line)
    show ?thesis
    proof (cases r)
      case 0
      with rows s show ?thesis by (intro exI [of _ "[]"] exI [of _ "10 # t"]) (simp add: last_line_def)
    next
      case (Suc q)
      then have "q \<le> newlines t" using less.prems s l by (simp add: newlines_append)
      then obtain a b where "t = a @ split_newline t ! q @ b" "newlines a = q" "last_line a = []" "b = [] \<or> hd b = 10" "10 \<notin> set (split_newline t ! q)"
        using less.hyps [of t q] s by auto
      moreover have "last_line (l @ 10 # a) = last_line (10 # a)" "last_line (10 # a) = last_line a"
        by (simp_all add: last_line_append) (simp_all add: last_line_def)
      ultimately show ?thesis
        using Suc rows s l by (intro exI [of _ "l @ 10 # a"] exI [of _ b]) (simp add: newlines_append)
    qed
  qed
qed


lemma shr_marks:
  assumes "bit w = marks P s" "k < 128"
  shows "bit (shr w k) = marks P (drop k s)"
proof
  fix i
  have "bit (shr w k) i = bit w (k + i)" using assms(2) by (simp add: shr_def bit_drop_bit_eq)
  also have "\<dots> = marks P (drop k s) i" unfolding assms(1) marks_def by (cases "k + i < length s") auto
  finally show "bit (shr w k) i = marks P (drop k s) i" .
qed

lemma slice_row_range_correct:
  assumes "chunk_ok c" "ch_text c = a @ l @ b" "last_line a = []" "b = [] \<or> hd b = 10" "10 \<notin> set l"
  shows "slice_offset_range_for_row c (newlines a) = (length a, length a + length l)"
proof -
  let ?s = "ch_text c"
  note ok = chunk_okD [OF assms(1)]
  have start: "(if 0 < newlines a then nth_set_bit (ch_newlines c) (newlines a) + 1 else 0) = length a"
  proof (cases "newlines a = 0")
    case True
    then show ?thesis using last_line_split(1) [of a] assms(3) by simp
  next
    case False
    then obtain a' where a': "a = a' @ [10]" using last_line_split(2) [of a] assms(3) by auto
    have bit: "bit (ch_newlines c) (length a')" by (simp add: ok(5) marks_def assms(2) a' nth_append)
    have "rank (ch_newlines c) (length a') = newlines a'" using rank_marks [OF ok(5), of "length a'"] by (simp add: assms(2) a' newlines_count)
    then have "newlines a = Suc (rank (ch_newlines c) (length a'))" by (simp add: a' newlines_append)
    moreover have "length a' < 128" using ok(1) by (simp add: assms(2) a')
    ultimately show ?thesis using nth_set_bit_eq [OF bit] a' by simp
  qed
  have len: "(if length a = MAX_BASE then 0 else min (trailing_zeros (shr (ch_newlines c) (length a))) (length ?s - length a)) = length l"
  proof (cases "length a = 128")
    case True
    then show ?thesis using ok(1) by (simp add: assms(2) MAX_BASE_def)
  next
    case False
    then have a: "length a < 128" using ok(1) by (simp add: assms(2))
    have b: "bit (shr (ch_newlines c) (length a)) = marks (\<lambda>b. b = 10) (l @ b)" using shr_marks [OF ok(5) a] by (simp add: assms(2))
    have "length (l @ b) \<le> 128" using ok(1) by (simp add: assms(2))
    note tz = trailing_marks [OF b this]
    show ?thesis
    proof (cases b)
      case Nil
      then show ?thesis using tz assms(5) False ok(1) by (auto simp: assms(2) MAX_BASE_def)
    next
      case (Cons x xs)
      with assms(4) have "x = 10" by simp
      then have "trailing_zeros (shr (ch_newlines c) (length a)) = length l" using tz assms(5) Cons by (simp add: takeWhile_append)
      then show ?thesis using False by (simp add: assms(2) MAX_BASE_def)
    qed
  qed
  show ?thesis unfolding slice_offset_range_for_row_def start Let_def len by simp
qed

text \<open>A point beyond the text is clipped to the end of its row, or to the end of the text.\<close>

definition clip_to_text :: "str \<Rightarrow> nat point \<Rightarrow> nat point" where
  "clip_to_text s p = (if newlines s < row p then point_at s (length s)
     else Point (row p) (min (column p) (length (split_newline s ! row p))))"

lemma slice_point_to_offset_correct:
  assumes "chunk_ok c"
  shows "slice_point_to_offset c p \<le> length (ch_text c)" "point_at (ch_text c) (slice_point_to_offset c p) = clip_to_text (ch_text c) p"
proof -
  let ?s = "ch_text c" and ?o = "slice_point_to_offset c p"
  have "?o \<le> length ?s \<and> point_at ?s ?o = clip_to_text ?s p"
  proof (cases "newlines ?s < row p")
    case True
    then show ?thesis by (simp add: slice_point_to_offset_def slice_lines_correct [OF assms] clip_to_text_def slice_len_def)
  next
    case False
    define l where "l = split_newline ?s ! row p"
    obtain a b where s: "?s = a @ l @ b" "newlines a = row p" "last_line a = []" "b = [] \<or> hd b = 10" "10 \<notin> set l"
      using row_split [of "row p" ?s] False by (auto simp: l_def)
    have "slice_offset_range_for_row c (row p) = (length a, length a + length l)"
      using slice_row_range_correct [OF assms s(1,3-5)] s(2) by simp
    then have o: "?o = length a + min (column p) (length l)"
      using False by (auto simp: slice_point_to_offset_def slice_lines_correct [OF assms])
    have t: "take ?o ?s = a @ take (column p) l" by (simp add: o s(1) min_def)
    have "10 \<notin> set (take (column p) l)" using s(5) by (auto dest: in_set_takeD)
    then have "newlines (take (column p) l) = 0" by (auto simp: newlines_count filter_empty_conv)
    then have "newlines (take ?o ?s) = row p" "last_line (take ?o ?s) = take (column p) l"
      using s(2,3) last_line_split(1) by (simp_all add: t newlines_append last_line_append)
    then have "point_at ?s ?o = clip_to_text ?s p" using False by (simp add: point_at_def clip_to_text_def l_def min.commute)
    moreover have "?o \<le> length ?s" using o arg_cong [OF s(1), of length] by simp
    ultimately show ?thesis by blast
  qed
  then show "?o \<le> length ?s" "point_at ?s ?o = clip_to_text ?s p" by blast+
qed

text \<open>Positions determine offsets.\<close>

lemma point_at_inj:
  assumes "point_at s i = point_at s j" "i \<le> length s" "j \<le> length s"
  shows "i = j"
proof -
  have less: "point_at s i \<noteq> point_at s j" if "i < j" "j \<le> length s" for i j
  proof
    assume eq: "point_at s i = point_at s j"
    have t: "take j s = take i s @ take (j - i) (drop i s)" using that(1) by (simp flip: take_add)
    then have "newlines (take (j - i) (drop i s)) = 0" using eq by (simp add: point_at_def newlines_append point_eq_iff)
    then have "length (last_line (take j s)) = length (last_line (take i s)) + (j - i)"
      using t that last_line_split(1) [of "take (j - i) (drop i s)"] by (simp add: last_line_append)
    moreover have "length (last_line (take j s)) = length (last_line (take i s))" using eq by (simp add: point_at_def point_eq_iff)
    ultimately show False using that(1) by simp
  qed
  with assms show ?thesis by (metis linorder_neqE_nat)
qed

text \<open>The row of a position starts with what precedes the position in it.\<close>

lemma row_prefix: "split_newline s ! newlines (take i s) = last_line (take i s) @ hd (split_newline (drop i s))"
  using split_newline_append [of "take i s" "drop i s"] by (simp add: newlines_def last_line_def nth_append)

lemma slice_point_roundtrip:
  assumes "chunk_ok c" "i \<le> length (ch_text c)"
  shows "slice_point_to_offset c (point_at (ch_text c) i) = i"
proof -
  let ?s = "ch_text c" and ?p = "point_at (ch_text c) i"
  have nl: "newlines ?s = row ?p + newlines (drop i ?s)"
    using newlines_append [of "take i ?s" "drop i ?s"] by (simp add: point_at_def)
  have "clip_to_text ?s ?p = ?p"
    using nl row_prefix [of ?s i] by (simp add: clip_to_text_def point_at_def point_eq_iff)
  then show ?thesis
    using slice_point_to_offset_correct [OF assms(1), of ?p] assms(2) by (intro point_at_inj [of ?s]) simp_all
qed

section \<open>UTF-16 offsets\<close>

lemma slice_to_utf16_correct:
  assumes "chunk_ok c" "str_is_char_boundary (ch_text c) i"
  shows "slice_offset_to_offset_utf16 c i = nutf16 (take i (ch_text c))"
proof -
  note ok = chunk_okD [OF assms(1)]
  have "i mod 2 ^ 32 = i" using boundary_le [OF assms(2)] ok(1) by simp
  then show ?thesis
    using count_low [of "ch_chars_utf16 c" i] rank_utf16_boundary [OF ok(4,2) assms(2)]
    by (simp add: slice_offset_to_offset_utf16_def)
qed

text \<open>The last marked position before one with a positive rank.\<close>

lemma rank_pred:
  "rank w k = Suc n \<Longrightarrow> \<exists>q<k. bit w q \<and> rank w q = n \<and> (\<forall>j. q < j \<and> j < k \<longrightarrow> \<not> bit w j)"
proof (induction k)
  case (Suc k)
  show ?case
  proof (cases "bit w k")
    case False
    with Suc obtain q where "q < k" "bit w q" "rank w q = n" "\<forall>j. q < j \<and> j < k \<longrightarrow> \<not> bit w j" by auto
    with False show ?thesis by (metis less_SucE less_SucI)
  qed (use Suc.prems in \<open>auto intro!: exI [of _ k]\<close>)
qed simp

text \<open>A stop of a text is a position where a code unit starts, or its end.\<close>

definition utf16_stop :: "str \<Rightarrow> nat \<Rightarrow> bool" where
  "utf16_stop s i \<longleftrightarrow> i = length s \<or> marks_utf16 s i"

lemma boundary_stop: "valid_utf8 s \<Longrightarrow> str_is_char_boundary s i \<Longrightarrow> utf16_stop s i"
  using valid_hd [of s] by (cases "s = []") (auto simp: utf16_stop_def str_is_char_boundary_def marks_utf16_def marks_def hd_conv_nth)

lemma stop_exists:
  assumes "bit w = marks_utf16 s" "valid_utf8 s" "n \<le> nutf16 s"
  shows "\<exists>i \<le> length s. rank w i = n \<and> utf16_stop s i"
proof (cases "n = nutf16 s")
  case True
  have "str_is_char_boundary s (length s)" by (simp add: str_is_char_boundary_def)
  from rank_utf16_boundary [OF assms(1,2) this] True show ?thesis by (intro exI [of _ "length s"]) (simp add: utf16_stop_def)
next
  case False
  have "str_is_char_boundary s (length s)" by (simp add: str_is_char_boundary_def)
  from rank_utf16_boundary [OF assms(1,2) this] have total: "rank w (length s) = nutf16 s" by simp
  have "n < rank w k \<Longrightarrow> \<exists>i<k. bit w i \<and> rank w i = n" for k
  proof (induction k)
    case (Suc k)
    show ?case
    proof (cases "n < rank w k")
      case False
      then have "bit w k" "rank w k = n" using Suc.prems by (cases "bit w k"; simp)+
      then show ?thesis by blast
    qed (use Suc.IH less_SucI in blast)
  qed simp
  from this [of "length s"] obtain i where "i < length s" "bit w i" "rank w i = n" using total False assms(3) by auto
  then show ?thesis using assms(1) by (auto intro!: exI [of _ i] simp: utf16_stop_def)
qed

lemma stop_unique:
  assumes "bit w = marks_utf16 s" "valid_utf8 s" "utf16_stop s i" "utf16_stop s j" "rank w i = rank w j"
  shows "i = j"
proof (rule ccontr)
  assume "i \<noteq> j"
  have less: "rank w i < rank w j" if "i < j" "utf16_stop s i" "utf16_stop s j" for i j
  proof -
    have "j \<le> length s" using that(3) marks_utf16_less [OF assms(2), of j] by (auto simp: utf16_stop_def)
    then have "bit w i" using that assms(1) by (auto simp: utf16_stop_def)
    then show ?thesis using rank_mono [of "Suc i" j w] that(1) by simp
  qed
  with assms(3-5) \<open>i \<noteq> j\<close> show False by (metis less_irrefl linorder_neqE_nat)
qed

lemma slice_from_utf16_correct:
  assumes "chunk_ok c" "i \<le> length (ch_text c)" "utf16_stop (ch_text c) i"
  shows "slice_offset_utf16_to_offset c (rank (ch_chars_utf16 c) i) = Some i"
proof (cases "rank (ch_chars_utf16 c) i")
  case 0
  note ok = chunk_okD [OF assms(1)]
  have "utf16_stop (ch_text c) 0" by (rule boundary_stop [OF ok(2)]) (simp add: str_is_char_boundary_def)
  then have "i = 0" using stop_unique [OF ok(4,2) assms(3)] 0 by simp
  then show ?thesis by (simp add: slice_offset_utf16_to_offset_def)
next
  case (Suc n)
  let ?s = "ch_text c" and ?w = "ch_chars_utf16 c"
  note ok = chunk_okD [OF assms(1)]
  obtain q where q: "q < i" "bit ?w q" "rank ?w q = n" "\<forall>j. q < j \<and> j < i \<longrightarrow> \<not> bit ?w j" using rank_pred [OF Suc] by blast
  have "q < 128" using q(1) assms(2) ok(1) by simp
  with q have ix: "nth_set_bit ?w (Suc n) + 1 = Suc q" using nth_set_bit_eq [OF q(2)] by simp
  show ?thesis
  proof (cases "Suc q = 128")
    case True
    then have "i = 128" using q(1) assms(2) ok(1) by simp
    with True ix Suc show ?thesis by (simp add: slice_offset_utf16_to_offset_def MAX_BASE_def)
  next
    case False
    let ?v = "shr ?w (Suc q)"
    have v: "bit ?v j = bit ?w (Suc q + j)" for j using False \<open>q < 128\<close> by (simp add: shr_def bit_drop_bit_eq)
    have "Suc q + min (trailing_zeros ?v) (length ?s - Suc q) = i"
    proof (cases "i = length ?s")
      case True
      then have "\<not> bit ?v j" for j
        using q(4) marks_utf16_less [OF ok(2), of "Suc q + j"] by (auto simp: v ok(4))
      then have "?v = 0" by (intro bit_eqI) simp
      then show ?thesis using True q(1) ok(1) by (simp add: trailing_zeros_eq)
    next
      case False
      then have "bit ?w i" using assms(3) ok(4) by (simp add: utf16_stop_def)
      then have "trailing_zeros ?v = i - Suc q" using q(1,4) by (intro trailing_zeros_eq(1)) (simp_all add: v)
      then show ?thesis using q(1) assms(2) by simp
    qed
    then show ?thesis
      using False ix Suc q(1) assms(2) by (simp add: slice_offset_utf16_to_offset_def MAX_BASE_def Let_def rust_assert_def)
  qed
qed

lemma slice_utf16_roundtrip:
  assumes "chunk_ok c" "str_is_char_boundary (ch_text c) i"
  shows "slice_offset_utf16_to_offset c (nutf16 (take i (ch_text c))) = Some i"
proof -
  note ok = chunk_okD [OF assms(1)]
  show ?thesis
    using slice_from_utf16_correct [OF assms(1) boundary_le [OF assms(2)] boundary_stop [OF ok(2) assms(2)]]
      rank_utf16_boundary [OF ok(4,2) assms(2)] by simp
qed

lemma slice_point_utf16_correct:
  assumes "chunk_ok c" "str_is_char_boundary (ch_text c) i"
  shows "slice_offset_to_point_utf16 c i = point_utf16_at (ch_text c) i"
proof -
  let ?s = "ch_text c" and ?w = "ch_chars_utf16 c"
  note ok = chunk_okD [OF assms(1)]
  have i: "i \<le> length ?s" by (rule boundary_le [OF assms(2)])
  let ?m = "push_bit (i mod 2 ^ 32) 1 - 1 :: u128"
  have m: "saturating_shl_mask (i mod 2 ^ 32) = ?m" "i mod 2 ^ 32 = i" using i ok(1) by (simp_all add: saturating_shl_mask_def)
  let ?t = "take i ?s"
  let ?k = "i - length (last_line ?t)"
  have t: "valid_utf8 ?t" "length ?t = i" using valid_split(1) [OF ok(2) assms(2)] i by simp_all
  have k: "str_is_char_boundary ?t ?k" "length (take ?k ?t) = ?k" "?t = take ?k ?t @ last_line ?t"
    using last_line_boundary [OF t(1)] t(2) last_line_drop(1) [of ?t] append_take_drop_id [of ?k ?t] by simp_all
  have v: "valid_utf8 (take ?k ?t)" "valid_utf8 (last_line ?t)"
    using valid_split [OF t(1) k(1)] last_line_drop(1) [of ?t] t(2) by simp_all
  have eq: "bit ?w = marks_utf16 (?t @ drop i ?s)" using ok(4) by simp
  have "bit ?m = (\<lambda>j. j < length ?t)" unfolding m(2) t(2) using i ok(1) by (intro bit_low_mask) simp
  with eq have "bit (?w AND ?m) = marks_utf16 ?t" using marks_utf16_append [OF t(1)] marks_utf16_less [OF t(1)] by (rule bits_prefix)
  then have b: "bit (?w AND ?m) = marks_utf16 (take ?k ?t @ last_line ?t)" using k(3) by simp
  have "(if ?k = 128 then 0 else count_ones (shr (?w AND ?m) ?k)) = nutf16 (last_line ?t)"
  proof (cases "?k = 128")
    case True
    then have "last_line ?t = []" using last_line_drop(1) [of ?t] t(2) i ok(1) by (metis diff_is_0_eq diff_le_self drop_all dual_order.trans le_antisym)
    with True show ?thesis by simp
  next
    case False
    then have "length (take ?k ?t) < 128" using k(2) i ok(1) by simp
    with b have "bit (shr (?w AND ?m) (length (take ?k ?t))) = marks_utf16 (last_line ?t)"
      using marks_utf16_append [OF v(1)] marks_utf16_less [OF v(1)] by (rule bits_split)
    moreover have "length (last_line ?t) \<le> 128" using last_line_drop(2) [of ?t] t(2) i ok(1) by simp
    ultimately show ?thesis using count_utf16 [OF _ v(2)] False k(2) by metis
  qed
  then show ?thesis
    unfolding slice_offset_to_point_utf16_def m(1) Let_def newlines_prefix [OF assms(1) i] MAX_BASE_def by (simp add: point_utf16_at_def)
qed

section \<open>Tabs\<close>

text \<open>All positions the iterator yields.\<close>

fun tabs_collect :: "nat \<Rightarrow> tabs \<Rightarrow> (nat \<times> nat) list" where
  "tabs_collect 0 t = []"
| "tabs_collect (Suc n) t = (case tabs_next t of (None, _) \<Rightarrow> [] | (Some p, t') \<Rightarrow> p # tabs_collect n t')"

lemma tabs_next_bits:
  assumes "tb_tabs t \<noteq> 0"
  shows "\<exists>i. bit (tb_tabs t) i \<and> (\<forall>j<i. \<not> bit (tb_tabs t) j) \<and>
    tabs_next t = (Some (i, rank (tb_chars t) i), t\<lparr>tb_tabs := tb_tabs t XOR shl 1 i\<rparr>) \<and>
    (\<forall>j. bit (tb_tabs t XOR shl 1 i) j \<longleftrightarrow> bit (tb_tabs t) j \<and> j \<noteq> i)"
proof -
  define i where "i = (LEAST j. bit (tb_tabs t) j)"
  obtain k where "bit (tb_tabs t) k" using assms by (auto simp: bit_eq_iff)
  then have i: "bit (tb_tabs t) i" "\<And>j. j < i \<Longrightarrow> \<not> bit (tb_tabs t) j"
    using LeastI [of "bit (tb_tabs t)"] not_less_Least by (auto simp: i_def)
  then have tz: "trailing_zeros (tb_tabs t) = i" by (rule trailing_zeros_eq(1))
  have "i < 128" using bit_imp_le_length [OF i(1)] by simp
  then have shl: "shl (1 :: u128) i = push_bit i 1" by (simp add: shl_def)
  have bit: "bit (tb_tabs t XOR shl 1 i) j \<longleftrightarrow> bit (tb_tabs t) j \<and> j \<noteq> i" for j
    using i(1) \<open>i < 128\<close> by (auto simp: shl bit_xor_iff bit_push_bit_iff bit_1_iff simp del: push_bit_of_1)
  moreover have "tabs_next t = (Some (i, rank (tb_chars t) i), t\<lparr>tb_tabs := tb_tabs t XOR shl 1 i\<rparr>)"
    using assms count_low [of "tb_chars t" i] unfolding tabs_next_def tz shl Let_def by simp
  ultimately show ?thesis using i by blast
qed

lemma tabs_collect_correct:
  fixes t :: tabs
  assumes "\<And>j. bit (tb_tabs t) j \<longleftrightarrow> k \<le> j \<and> bit w j" "k \<le> 128" "128 - k < n"
  shows "tabs_collect n t = [(j, rank (tb_chars t) j). j \<leftarrow> [k..<128], bit w j]"
  using assms
proof (induction n arbitrary: t k)
  case (Suc n)
  show ?case
  proof (cases "tb_tabs t = 0")
    case True
    then have "\<not> bit w j" if "k \<le> j" for j using Suc.prems(1) [of j] that by simp
    then show ?thesis using True by (auto simp: tabs_next_def)
  next
    case False
    then obtain i where i: "bit (tb_tabs t) i" "\<And>j. j < i \<Longrightarrow> \<not> bit (tb_tabs t) j"
      "tabs_next t = (Some (i, rank (tb_chars t) i), t\<lparr>tb_tabs := tb_tabs t XOR shl 1 i\<rparr>)"
      "\<And>j. bit (tb_tabs t XOR shl 1 i) j \<longleftrightarrow> bit (tb_tabs t) j \<and> j \<noteq> i"
      using tabs_next_bits by blast
    have "i < 128" using bit_imp_le_length [OF i(1)] by simp
    have "k \<le> i" "bit w i" using i(1) Suc.prems(1) by auto
    let ?t = "t\<lparr>tb_tabs := tb_tabs t XOR shl 1 i\<rparr>"
    have "bit (tb_tabs ?t) j \<longleftrightarrow> Suc i \<le> j \<and> bit w j" for j
      using i(2) [of j] i(4) [of j] Suc.prems(1) [of j] \<open>k \<le> i\<close> by (cases j i rule: linorder_cases) auto
    then have step: "tabs_collect n ?t = [(j, rank (tb_chars t) j). j \<leftarrow> [Suc i..<128], bit w j]"
      using Suc.IH [of ?t "Suc i"] Suc.prems(3) \<open>i < 128\<close> \<open>k \<le> i\<close> by (simp cong: if_cong)
    have "[k..<128] = [k..<i] @ i # [Suc i..<128]"
      using upt_add_eq_append [of k i "128 - i"] upt_conv_Cons [of i 128] \<open>k \<le> i\<close> \<open>i < 128\<close> by (simp del: upt_conv_Cons)
    moreover have "[(j, rank (tb_chars t) j). j \<leftarrow> [k..<i], bit w j] = []" using i(2) Suc.prems(1) by auto
    ultimately show ?thesis using i(3) step \<open>bit w i\<close> by simp
  qed
qed simp

section \<open>Properties\<close>

text \<open>A text with a character of four bytes, a tab and a newline, on which the properties are evaluated.\<close>

definition sample_text :: str where
  "sample_text = [97, 0xF0, 0x9F, 0x98, 0x80, 9, 10, 99]"

lemma sample_text_facts:
  "valid_utf8 sample_text" "length sample_text \<le> MAX_BASE" "\<exists>c. chunk_new sample_text = Some c"
  "summary_from_str sample_text = \<lparr>ts_len = 8, ts_chars = 5, ts_len_utf16 = 6, ts_lines = Point 1 1, ts_first_line_chars = 3,
     ts_last_line_chars = 1, ts_last_line_len_utf16 = 1, ts_longest_row = 0, ts_longest_row_chars = 3\<rparr>"
proof -
  show v: "valid_utf8 sample_text" by code_simp
  show l: "length sample_text \<le> MAX_BASE" by code_simp
  show "\<exists>c. chunk_new sample_text = Some c" using chunk_new_correct [OF v] l by (auto simp: MAX_BASE_def)
  show "summary_from_str sample_text = \<lparr>ts_len = 8, ts_chars = 5, ts_len_utf16 = 6, ts_lines = Point 1 1, ts_first_line_chars = 3,
     ts_last_line_chars = 1, ts_last_line_len_utf16 = 1, ts_longest_row = 0, ts_longest_row_chars = 3\<rparr>" by code_simp
qed


text \<open>
  C17. The summary of a chunk computed from its bitmaps (population counts, leading and trailing zeros and the
  loop of \<open>longest_row\<close>) is the summary that \<open>TextSummary::from(&str)\<close> computes by scanning the characters of
  the text, for every valid text that fits in a chunk; its line extent is the one \<open>Point::parse_str\<close> finds.
\<close>

theorem chunk_summary_from_bitmaps:
  assumes "valid_utf8 s" "length s \<le> MAX_BASE" "chunk_new s = Some c"
  shows "slice_text_summary c = summary_from_str s \<and> slice_lines c = parse_str s"
proof -
  have c: "chunk_ok c" "ch_text c = s" using chunk_new_correct [of s] assms by (auto simp: MAX_BASE_def)
  then show ?thesis
    using slice_text_summary_correct [OF c(1)] slice_lines_correct [OF c(1)] summary_from_str_correct [OF assms(1)]
    by (simp add: parse_str_eq)
qed

theorem chunk_summary_from_bitmaps_witness:
  "\<exists>c. chunk_new sample_text = Some c \<and> ts_len_utf16 (slice_text_summary c) = 6 \<and> slice_lines c = Point 1 1"
proof -
  obtain c where c: "chunk_new sample_text = Some c" using sample_text_facts(3) by blast
  have "parse_str sample_text = (Point 1 1 :: nat point)" by code_simp
  with chunk_summary_from_bitmaps [OF sample_text_facts(1,2) c] c show ?thesis by (simp add: sample_text_facts(4))
qed

text \<open>
  C18. Byte offsets and points of a chunk. Every offset of the text has the point of the text before it,
  as \<open>Point::parse_str\<close> finds it, and that point leads back to the offset. A point outside the text leads to an offset
  of the text: the end of the row when the column is too large, the end of the text when the row is.
\<close>

theorem chunk_point_roundtrip:
  assumes "valid_utf8 s" "length s \<le> MAX_BASE" "chunk_new s = Some c"
  shows "(\<forall>i \<le> length s. slice_offset_to_point c i = Some (parse_str (take i s)) \<and>
           slice_point_to_offset c (parse_str (take i s)) = i) \<and>
         (\<forall>p. slice_point_to_offset c p \<le> length s \<and>
           slice_offset_to_point c (slice_point_to_offset c p) = Some (clip_to_text s p))"
proof -
  have c: "chunk_ok c" "ch_text c = s" using chunk_new_correct [of s] assms by (auto simp: MAX_BASE_def)
  show ?thesis
    using slice_offset_to_point_correct [OF c(1)] slice_point_roundtrip [OF c(1)] slice_point_to_offset_correct [OF c(1)]
    by (simp add: c(2) point_at_parse)
qed

theorem chunk_point_roundtrip_witness:
  "\<exists>c. chunk_new sample_text = Some c \<and> slice_offset_to_point c 8 = Some (Point 1 1) \<and> slice_point_to_offset c (Point 1 1) = 8 \<and>
     slice_offset_to_point c (slice_point_to_offset c (Point 0 50)) = Some (Point 0 6)"
proof -
  obtain c where c: "chunk_new sample_text = Some c" using sample_text_facts(3) by blast
  have "length sample_text = 8" "parse_str (take 8 sample_text) = (Point 1 1 :: nat point)" "clip_to_text sample_text (Point 0 50) = Point 0 6" by code_simp+
  with chunk_point_roundtrip [OF sample_text_facts(1,2) c] c show ?thesis by (metis order_refl)
qed

text \<open>
  C19. UTF-16 positions of a chunk. At every character boundary the UTF-16 offset is the number of code units of
  the text before it, the conversion back by selecting a set bit gives the boundary again, and the UTF-16 point counts
  rows and the code units of the row. The tab iterator yields, in ascending order, the byte offset of every tab
  and the number of characters before it.
\<close>

theorem chunk_utf16_roundtrip:
  assumes "valid_utf8 s" "length s \<le> MAX_BASE" "chunk_new s = Some c"
  shows "(\<forall>i. str_is_char_boundary s i \<longrightarrow>
           slice_offset_to_offset_utf16 c i = nutf16 (take i s) \<and>
           slice_offset_utf16_to_offset c (nutf16 (take i s)) = Some i \<and>
           slice_offset_to_point_utf16 c i = point_utf16_at s i) \<and>
         tabs_collect 129 (slice_tabs c) = [(i, nchars (take i s)). i \<leftarrow> [0..<length s], s ! i = 9]"
proof -
  have c: "chunk_ok c" "ch_text c = s" using chunk_new_correct [of s] assms by (auto simp: MAX_BASE_def)
  note ok = chunk_okD [OF c(1)]
  have "[(i, rank (ch_chars c) i). i \<leftarrow> [0..<128], bit (ch_tabs c) i] = [(i, nchars (take i s)). i \<leftarrow> [0..<128], bit (ch_tabs c) i]"
    by (simp only: rank_marks [OF ok(3)] nchars_def c(2))
  also have "\<dots> = [(i, nchars (take i s)). i \<leftarrow> [0..<length s], bit (ch_tabs c) i] @ [(i, nchars (take i s)). i \<leftarrow> [length s..<128], bit (ch_tabs c) i]"
    using upt_add_eq_append [of 0 "length s" "128 - length s"] assms(2) by (simp add: MAX_BASE_def)
  also have "\<dots> = [(i, nchars (take i s)). i \<leftarrow> [0..<length s], s ! i = 9]"
  proof -
    have "map (\<lambda>i. if bit (ch_tabs c) i then [(i, nchars (take i s))] else []) [0..<length s] =
        map (\<lambda>i. if s ! i = 9 then [(i, nchars (take i s))] else []) [0..<length s]"
      by (rule map_cong [OF refl]) (simp add: ok(6) marks_def c(2))
    moreover have "concat (map (\<lambda>i. if bit (ch_tabs c) i then [(i, nchars (take i s))] else []) [length s..<128]) = []"
      by (auto simp: ok(6) marks_def c(2))
    ultimately show ?thesis by (simp only: append_Nil2)
  qed
  finally have "tabs_collect 129 (slice_tabs c) = [(i, nchars (take i s)). i \<leftarrow> [0..<length s], s ! i = 9]"
    using tabs_collect_correct [of "slice_tabs c" 0 "ch_tabs c" 129] by (simp add: slice_tabs_def cong: if_cong)
  then show ?thesis
    using slice_to_utf16_correct [OF c(1)] slice_utf16_roundtrip [OF c(1)] slice_point_utf16_correct [OF c(1)] by (simp add: c(2))
qed

theorem chunk_utf16_roundtrip_witness:
  "\<exists>c. chunk_new sample_text = Some c \<and> slice_offset_to_offset_utf16 c 5 = 3 \<and> slice_offset_utf16_to_offset c 3 = Some 5 \<and>
     tabs_collect 129 (slice_tabs c) = [(5, 2)]"
proof -
  obtain c where c: "chunk_new sample_text = Some c" using sample_text_facts(3) by blast
  have "str_is_char_boundary sample_text 5" "nutf16 (take 5 sample_text) = 3"
    "[(i, nchars (take i sample_text)). i \<leftarrow> [0..<length sample_text], sample_text ! i = 9] = [(5, 2)]" by code_simp+
  with chunk_utf16_roundtrip [OF sample_text_facts(1,2) c] c show ?thesis by auto
qed

end
