(* ===== verification/Chunk_Clip.thy ===== *)
theory Chunk_Clip
  imports Sum_Tree Chunk_Text
begin

text \<open>
  Positions that may lie inside a character or beyond a row: the clipping conversions of \<open>ChunkSlice\<close>
  (\<open>crates/rope/src/chunk.rs\<close>). The grapheme boundaries of the \<open>unicode-segmentation\<close> crate are a parameter of
  \<open>clip_point\<close>.
\<close>

unbundle bit_operations_syntax

section \<open>Clipping\<close>

text \<open>The loops that move an offset to a character boundary.\<close>

function back_to_boundary :: "str \<Rightarrow> nat \<Rightarrow> nat" where
  "back_to_boundary s i = (if str_is_char_boundary s i then i else back_to_boundary s (i - 1))"
  by pat_completeness auto
termination by (relation "measure snd") (auto simp: str_is_char_boundary_def)

declare back_to_boundary.simps [simp del]

partial_function (option) forward_to_boundary :: "str \<Rightarrow> nat \<Rightarrow> nat option" where
  "forward_to_boundary s i = (if str_is_char_boundary s i then Some i else forward_to_boundary s (i + 1))"

definition slice_clip_offset_utf16 :: "chunk \<Rightarrow> nat \<Rightarrow> bias \<Rightarrow> nat option" where
  "slice_clip_offset_utf16 c target b = (if target = 0 then Some 0
     else if slice_len_utf16 c \<le> target then Some (slice_len_utf16 c)
     else do {
       offset \<leftarrow> slice_offset_utf16_to_offset c target;
       offset' \<leftarrow> (if b = Left then Some (back_to_boundary (ch_text c) offset) else forward_to_boundary (ch_text c) offset);
       Some (slice_offset_to_offset_utf16 c offset')
     })"

definition slice_row :: "chunk \<Rightarrow> nat \<Rightarrow> chunk option" where
  "slice_row c r = (case slice_offset_range_for_row c r of (start, stop) \<Rightarrow> slice_slice c start stop)"

definition slice_clip_point_utf16 :: "chunk \<Rightarrow> nat point \<Rightarrow> bias \<Rightarrow> nat point option" where
  "slice_clip_point_utf16 c p b = (if row (slice_lines c) < row p
     then Some (Point (row (slice_lines c)) (slice_last_line_len_utf16 c))
     else do {
       line \<leftarrow> slice_row c (row p);
       col \<leftarrow> slice_clip_offset_utf16 line (column p) b;
       Some (Point (row p) col)
     })"

definition slice_point_utf16_to_offset :: "chunk \<Rightarrow> nat point \<Rightarrow> nat option" where
  "slice_point_utf16_to_offset c p = (if row (slice_lines c) < row p then Some (slice_len c)
     else case slice_offset_range_for_row c (row p) of (start, stop) \<Rightarrow> do {
       line \<leftarrow> slice_slice c start stop;
       if slice_last_line_len_utf16 line < column p then Some stop
       else if 0 < column p then do {
         n \<leftarrow> slice_offset_utf16_to_offset line (column p);
         let offset = start + n;
         Some (if str_is_char_boundary (ch_text c) offset then offset else back_to_boundary (ch_text c) (offset - 1))
       }
       else Some start
     })"

definition slice_unclipped_point_utf16_to_point :: "chunk \<Rightarrow> nat point \<Rightarrow> nat point option" where
  "slice_unclipped_point_utf16_to_point c p = (if row (slice_lines c) < row p then Some (slice_lines c)
     else do {
       line \<leftarrow> slice_row c (row p);
       if column p = 0 then Some (Point (row p) 0)
       else if slice_len_utf16 line \<le> column p then Some (Point (row p) (slice_len line))
       else do {
         col \<leftarrow> slice_offset_utf16_to_offset line (column p);
         Some (Point (row p) (back_to_boundary (ch_text line) col))
       }
     })"

text \<open>The loop of \<open>clip_point\<close>; going left of the first column or right without end has no result.\<close>

partial_function (option) clip_column :: "(str \<Rightarrow> nat \<Rightarrow> bool) \<Rightarrow> chunk \<Rightarrow> bias \<Rightarrow> nat \<Rightarrow> nat option" where
  "clip_column grapheme line b col =
     (if chunk_is_char_boundary line col \<and> grapheme (ch_text line) col then Some col
      else if b = Left then (if col = 0 then None else clip_column grapheme line b (col - 1))
      else clip_column grapheme line b (col + 1))"

definition slice_clip_point :: "(str \<Rightarrow> nat \<Rightarrow> bool) \<Rightarrow> chunk \<Rightarrow> nat point \<Rightarrow> bias \<Rightarrow> nat point option" where
  "slice_clip_point grapheme c p b = (if row (slice_lines c) < row p then Some (slice_lines c)
     else do {
       line \<leftarrow> slice_row c (row p);
       if column p = 0 then Some p
       else if slice_len line \<le> column p then Some (Point (row p) (slice_len line))
       else if ch_text line ! (column p - 1) < 128 \<and> ch_text line ! column p < 128 then Some (Point (row p) (column p))
       else do {
         col \<leftarrow> clip_column grapheme line b (column p);
         Some (Point (row p) col)
       }
     })"

section \<open>Nearest boundaries\<close>

lemma back_to_boundary_correct:
  "str_is_char_boundary s (back_to_boundary s i) \<and> back_to_boundary s i \<le> i \<and>
   (\<forall>j \<le> i. str_is_char_boundary s j \<longrightarrow> j \<le> back_to_boundary s i)"
proof (induction s i rule: back_to_boundary.induct)
  case (1 s i)
  show ?case
  proof (cases "str_is_char_boundary s i")
    case False
    then have "i \<noteq> 0" by (auto simp: str_is_char_boundary_def)
    with False 1 show ?thesis by (subst (1 2 3) back_to_boundary.simps) (auto, metis Suc_pred le_SucE)
  qed (auto simp: back_to_boundary.simps [of s i])
qed

lemma forward_to_boundary_correct:
  "i \<le> length s \<Longrightarrow> \<exists>k. forward_to_boundary s i = Some k \<and> str_is_char_boundary s k \<and> i \<le> k \<and>
     (\<forall>j \<ge> i. str_is_char_boundary s j \<longrightarrow> k \<le> j)"
proof (induction "length s - i" arbitrary: i rule: less_induct)
  case less
  show ?case
  proof (cases "str_is_char_boundary s i")
    case True
    then show ?thesis by (auto simp: forward_to_boundary.simps [of s i])
  next
    case False
    then have "i \<noteq> length s" by (auto simp: str_is_char_boundary_def)
    with less.prems have "length s - Suc i < length s - i" "Suc i \<le> length s" by auto
    from less.hyps [OF this] obtain k where k: "forward_to_boundary s (Suc i) = Some k" "str_is_char_boundary s k" "Suc i \<le> k"
      "\<forall>j \<ge> Suc i. str_is_char_boundary s j \<longrightarrow> k \<le> j" by blast
    have "k \<le> j" if "i \<le> j" "str_is_char_boundary s j" for j using that k(4) False by (cases "j = i") auto
    with k False show ?thesis by (subst forward_to_boundary.simps) auto
  qed
qed

text \<open>Where a stop lies among the boundaries.\<close>

lemma stop_order:
  assumes "bit w = marks_utf16 s" "valid_utf8 s" "utf16_stop s i" "str_is_char_boundary s j"
  shows "nutf16 (take j s) \<le> rank w i \<longleftrightarrow> j \<le> i" "rank w i \<le> nutf16 (take j s) \<longleftrightarrow> i \<le> j"
proof -
  have j: "rank w j = nutf16 (take j s)" "utf16_stop s j"
    using rank_utf16_boundary [OF assms(1,2,4)] boundary_stop [OF assms(2,4)] by simp_all
  have mono: "a \<le> b \<Longrightarrow> rank w a \<le> rank w b" for a b by (rule rank_mono)
  have strict: "rank w a \<noteq> rank w b" if "a \<noteq> b" "utf16_stop s a" "utf16_stop s b" for a b
    using stop_unique [OF assms(1,2) that(2,3)] that(1) by blast
  show "nutf16 (take j s) \<le> rank w i \<longleftrightarrow> j \<le> i" "rank w i \<le> nutf16 (take j s) \<longleftrightarrow> i \<le> j"
    using mono [of i j] mono [of j i] strict [of i j] j assms(3) by (metis le_antisym nat_le_linear)+
qed

lemma slice_from_utf16:
  assumes "chunk_ok c" "n \<le> nutf16 (ch_text c)"
  shows "\<exists>i. slice_offset_utf16_to_offset c n = Some i \<and> i \<le> length (ch_text c) \<and> utf16_stop (ch_text c) i \<and> rank (ch_chars_utf16 c) i = n"
proof -
  note ok = chunk_okD [OF assms(1)]
  obtain i where "i \<le> length (ch_text c)" "rank (ch_chars_utf16 c) i = n" "utf16_stop (ch_text c) i"
    using stop_exists [OF ok(4,2) assms(2)] by blast
  with slice_from_utf16_correct [OF assms(1)] show ?thesis by blast
qed

text \<open>The boundary an UTF-16 offset is clipped to: the last one not after it, or the first one not before it,
  if there is one.\<close>

definition clips_to :: "str \<Rightarrow> bias \<Rightarrow> nat \<Rightarrow> nat \<Rightarrow> bool" where
  "clips_to s b n k \<longleftrightarrow> str_is_char_boundary s k \<and>
     (if nutf16 s \<le> n then k = length s
      else if b = Left then nutf16 (take k s) \<le> n \<and> (\<forall>j \<in> {k<..<length s}. str_is_char_boundary s j \<longrightarrow> n < nutf16 (take j s))
      else n \<le> nutf16 (take k s) \<and> (\<forall>j \<in> {0..<k}. str_is_char_boundary s j \<longrightarrow> nutf16 (take j s) < n))"

lemma clips_to_stop:
  assumes "bit w = marks_utf16 s" "valid_utf8 s" "utf16_stop s i" "rank w i = n" "n < nutf16 s"
    and "str_is_char_boundary s k" "b = Left \<Longrightarrow> k \<le> i \<and> (\<forall>j \<le> i. str_is_char_boundary s j \<longrightarrow> j \<le> k)"
    "b \<noteq> Left \<Longrightarrow> i \<le> k \<and> (\<forall>j \<ge> i. str_is_char_boundary s j \<longrightarrow> k \<le> j)"
  shows "clips_to s b n k"
  using stop_order [OF assms(1-3)] assms(4-8) unfolding clips_to_def
  by (auto simp: not_le [symmetric])

lemma clips_to_unique: "clips_to s b n k \<Longrightarrow> clips_to s b n k' \<Longrightarrow> k = k'"
  unfolding clips_to_def
  by (cases k k' rule: linorder_cases; cases "k = length s"; cases "k' = length s") (auto split: if_splits dest: boundary_le simp: le_less)

lemma clips_to_boundary:
  fixes w :: u128
  assumes "bit w = marks_utf16 s" "valid_utf8 s" "str_is_char_boundary s i" "clips_to s b (nutf16 (take i s)) k"
  shows "k = i"
proof -
  have i: "rank w i = nutf16 (take i s)" "utf16_stop s i" "i \<le> length s"
    using rank_utf16_boundary [OF assms(1-3)] boundary_stop [OF assms(2,3)] boundary_le [OF assms(3)] by simp_all
  have k: "str_is_char_boundary s k" "k \<le> length s" using assms(4) boundary_le by (auto simp: clips_to_def)
  have len: "str_is_char_boundary s (length s)" by (simp add: str_is_char_boundary_def)
  show ?thesis
    using stop_order [OF assms(1,2) i(2) k(1)] stop_order [OF assms(1,2) i(2) len] stop_order [OF assms(1,2) i(2) assms(3)] assms(3,4) i k(2)
    unfolding clips_to_def by (auto split: if_splits simp: not_le [symmetric] intro: le_antisym)
qed

lemma row_stop_clip:
  fixes w :: u128
  assumes "bit w = marks_utf16 s" "valid_utf8 s" "i \<le> length s" "utf16_stop s i" "rank w i = n" "n \<le> nutf16 s" "clips_to s Left n k"
  shows "k = back_to_boundary s i \<and> (n = nutf16 s \<longrightarrow> k = length s)"
proof (cases "n = nutf16 s")
  case True
  have len: "str_is_char_boundary s (length s)" by (simp add: str_is_char_boundary_def)
  then have "i = length s"
    using rank_utf16_boundary [OF assms(1,2)] stop_unique [OF assms(1,2,4), of "length s"] True assms(5) by (simp add: utf16_stop_def)
  then show ?thesis using True assms(7) len back_to_boundary.simps [of s i] by (simp add: clips_to_def)
next
  case False
  have "clips_to s Left n (back_to_boundary s i)"
    using back_to_boundary_correct [of s i] False assms(6) by (intro clips_to_stop [OF assms(1,2,4,5)]) auto
  with False assms(7) show ?thesis using clips_to_unique by blast
qed

lemma slice_clip_offset_utf16_correct:
  assumes "chunk_ok c"
  shows "\<exists>k. slice_clip_offset_utf16 c n b = Some (nutf16 (take k (ch_text c))) \<and> clips_to (ch_text c) b n k"
proof -
  let ?s = "ch_text c" and ?w = "ch_chars_utf16 c"
  note ok = chunk_okD [OF assms]
  have total: "slice_len_utf16 c = nutf16 ?s" using count_utf16 [OF ok(4,2,1)] by (simp add: slice_len_utf16_def)
  have ends: "str_is_char_boundary ?s 0" "str_is_char_boundary ?s (length ?s)" by (simp_all add: str_is_char_boundary_def)
  consider "nutf16 ?s \<le> n" | "n = 0" "n < nutf16 ?s" | "0 < n" "n < nutf16 ?s" by linarith
  then show ?thesis
  proof cases
    case 1
    then show ?thesis using ends by (intro exI [of _ "length ?s"]) (auto simp: slice_clip_offset_utf16_def total clips_to_def)
  next
    case 2
    have "utf16_stop ?s 0" by (rule boundary_stop [OF ok(2) ends(1)])
    then have "clips_to ?s b n 0" using 2 ends by (intro clips_to_stop [OF ok(4,2)]) auto
    with 2 show ?thesis by (intro exI [of _ 0]) (simp add: slice_clip_offset_utf16_def)
  next
    case 3
    then obtain i where i: "slice_offset_utf16_to_offset c n = Some i" "i \<le> length ?s" "utf16_stop ?s i" "rank ?w i = n"
      using slice_from_utf16 [OF assms, of n] by auto
    obtain k where k: "(if b = Left then Some (back_to_boundary ?s i) else forward_to_boundary ?s i) = Some k" "str_is_char_boundary ?s k"
      "b = Left \<longrightarrow> k \<le> i \<and> (\<forall>j \<le> i. str_is_char_boundary ?s j \<longrightarrow> j \<le> k)"
      "b \<noteq> Left \<longrightarrow> i \<le> k \<and> (\<forall>j \<ge> i. str_is_char_boundary ?s j \<longrightarrow> k \<le> j)"
      using back_to_boundary_correct [of ?s i] forward_to_boundary_correct [OF i(2)] by (cases "b = Left") auto
    have "clips_to ?s b n k" using clips_to_stop [OF ok(4,2) i(3,4) 3(2) k(2)] k(3,4) by blast
    moreover have "slice_clip_offset_utf16 c n b = Some (nutf16 (take k ?s))"
      using 3 i(1) k(1) slice_to_utf16_correct [OF assms k(2)] by (simp add: slice_clip_offset_utf16_def total)
    ultimately show ?thesis by blast
  qed
qed

section \<open>Rows\<close>

text \<open>The row of a chunk, its place in the text, and the chunk that \<open>slice\<close> cuts out for it.\<close>

lemma row_boundaries:
  assumes "valid_utf8 (a @ l @ b)" "last_line a = []" "b = [] \<or> hd b = 10" "10 \<notin> set l"
  shows "str_is_char_boundary (a @ l @ b) (length a)" "str_is_char_boundary (a @ l @ b) (length a + length l)"
proof -
  let ?s = "a @ l @ b"
  show stop: "str_is_char_boundary ?s (length a + length l)"
    using assms(3) by (cases b) (auto simp: str_is_char_boundary_def boundary_iff nth_append)
  have v: "valid_utf8 (a @ l)" using valid_split(1) [OF assms(1) stop] by simp
  have "newlines l = 0" using assms(4) by (auto simp: newlines_count filter_empty_conv)
  then have "last_line (a @ l) = l" using assms(2) last_line_split(1) [of l] by (simp add: last_line_append)
  then have "str_is_char_boundary (a @ l) (length a)" using last_line_boundary [OF v] by simp
  then show "str_is_char_boundary ?s (length a)"
    using stop by (cases l) (auto simp: str_is_char_boundary_def nth_append split: if_splits)
qed

lemma slice_row_correct:
  assumes "chunk_ok c" "r \<le> newlines (ch_text c)"
  obtains a b line where "ch_text c = a @ ch_text line @ b" "slice_offset_range_for_row c r = (length a, length a + length (ch_text line))"
    "slice_slice c (length a) (length a + length (ch_text line)) = Some line" "slice_row c r = Some line" "chunk_ok line"
    "ch_text line = split_newline (ch_text c) ! r" "newlines a = r" "last_line a = []" "10 \<notin> set (ch_text line)"
    "str_is_char_boundary (ch_text c) (length a)" "str_is_char_boundary (ch_text c) (length a + length (ch_text line))"
proof -
  note ok = chunk_okD [OF assms(1)]
  obtain a b where s: "ch_text c = a @ split_newline (ch_text c) ! r @ b" "newlines a = r" "last_line a = []" "b = [] \<or> hd b = 10"
    "10 \<notin> set (split_newline (ch_text c) ! r)" using row_split [OF assms(2)] by blast
  define l where "l = split_newline (ch_text c) ! r"
  note s' = s [folded l_def]
  have range: "slice_offset_range_for_row c r = (length a, length a + length l)"
    using slice_row_range_correct [OF assms(1) s'(1,3-5)] s'(2) by simp
  have bd: "str_is_char_boundary (ch_text c) (length a)" "str_is_char_boundary (ch_text c) (length a + length l)"
    using row_boundaries [of a l b] ok(2) s' by simp_all
  have "take (length a + length l - length a) (drop (length a) (ch_text c)) = l" by (subst s'(1)) simp
  then obtain line where line: "slice_slice c (length a) (length a + length l) = Some line" "chunk_ok line" "ch_text line = l"
    using slice_slice_correct [OF assms(1) bd] by auto
  show thesis
    by (rule that [of a line b]) (use s' range bd line in \<open>simp_all add: slice_row_def l_def\<close>)
qed

text \<open>Boundaries of a row are those of the text within it.\<close>

lemma row_boundary_iff:
  assumes "str_is_char_boundary (a @ l @ b) (length a)" "str_is_char_boundary (a @ l @ b) (length a + length l)" "j \<le> length l"
  shows "str_is_char_boundary (a @ l @ b) (length a + j) \<longleftrightarrow> str_is_char_boundary l j"
proof -
  consider "j = 0" | "j = length l" | "0 < j" "j < length l" using assms(3) by linarith
  then show ?thesis using assms(1,2) by cases (simp_all add: str_is_char_boundary_def nth_append)
qed

lemma back_to_boundary_row:
  assumes "str_is_char_boundary (a @ l @ b) (length a)" "str_is_char_boundary (a @ l @ b) (length a + length l)" "i \<le> length l"
  shows "back_to_boundary (a @ l @ b) (length a + i) = length a + back_to_boundary l i"
proof -
  let ?s = "a @ l @ b"
  let ?K = "back_to_boundary ?s (length a + i)"
  note s = back_to_boundary_correct [of ?s "length a + i"] and l = back_to_boundary_correct [of l i]
  have "length a + back_to_boundary l i \<le> ?K" using s l row_boundary_iff [OF assms(1,2)] assms(3) by auto
  moreover have "length a \<le> ?K" using s assms(1) by simp
  then obtain j where j: "?K = length a + j" by (meson le_Suc_ex)
  have "str_is_char_boundary l j" using j s row_boundary_iff [OF assms(1,2), of j] assms(3) by auto
  then have "j \<le> back_to_boundary l i" using j s l by auto
  ultimately show ?thesis using j by simp
qed

lemma row_positions:
  assumes "newlines a = r" "last_line a = []" "10 \<notin> set l" "k \<le> length l"
  shows "point_at (a @ l @ b) (length a + k) = Point r k" "point_utf16_at (a @ l @ b) (length a + k) = Point r (nutf16 (take k l))"
proof -
  have "newlines (take k l) = 0" using assms(3) by (auto simp: newlines_count filter_empty_conv dest: in_set_takeD)
  then show "point_at (a @ l @ b) (length a + k) = Point r k" "point_utf16_at (a @ l @ b) (length a + k) = Point r (nutf16 (take k l))"
    using assms last_line_split(1) [of "take k l"] by (simp_all add: point_at_def point_utf16_at_def newlines_append last_line_append)
qed

lemma slice_point_utf16_row:
  assumes "chunk_ok c" "row p \<le> newlines (ch_text c)"
  obtains a l b k where "ch_text c = a @ l @ b" "slice_point_utf16_to_offset c p = Some (length a + k)"
    "str_is_char_boundary (ch_text c) (length a + k)" "clips_to l Left (column p) k" "k \<le> length l"
    "slice_clip_point_utf16 c p Left = Some (Point (row p) (nutf16 (take k l)))"
    "slice_unclipped_point_utf16_to_point c p = Some (Point (row p) k)"
    "newlines a = row p" "last_line a = []" "10 \<notin> set l" "valid_utf8 l" "\<exists>line. chunk_ok line \<and> ch_text line = l"
    "str_is_char_boundary (ch_text c) (length a)" "str_is_char_boundary (ch_text c) (length a + length l)" "l = split_newline (ch_text c) ! row p"
proof -
  note ok = chunk_okD [OF assms(1)]
  obtain a b line where r: "ch_text c = a @ ch_text line @ b" "slice_offset_range_for_row c (row p) = (length a, length a + length (ch_text line))"
    "slice_slice c (length a) (length a + length (ch_text line)) = Some line" "slice_row c (row p) = Some line" "chunk_ok line"
    "ch_text line = split_newline (ch_text c) ! row p" "newlines a = row p" "last_line a = []" "10 \<notin> set (ch_text line)"
    "str_is_char_boundary (ch_text c) (length a)" "str_is_char_boundary (ch_text c) (length a + length (ch_text line))"
    using slice_row_correct [OF assms] .
  let ?l = "ch_text line"
  note lok = chunk_okD [OF r(5)]
  have le: "\<not> row (slice_lines c) < row p" using assms(2) slice_lines_correct [OF assms(1)] by simp
  have total: "slice_len_utf16 line = nutf16 ?l" using count_utf16 [OF lok(4,2,1)] by (simp add: slice_len_utf16_def)
  have "newlines ?l = 0" using r(9) by (auto simp: newlines_count filter_empty_conv)
  then have last: "slice_last_line_len_utf16 line = nutf16 ?l"
    using slice_text_summary_correct [OF r(5)] last_line_split(1) [of ?l]
    by (simp add: slice_text_summary_def summary_of_def split: prod.splits)
  obtain k where k: "slice_clip_offset_utf16 line (column p) Left = Some (nutf16 (take k ?l))" "clips_to ?l Left (column p) k"
    using slice_clip_offset_utf16_correct [OF r(5)] by blast
  have kb: "str_is_char_boundary ?l k" "k \<le> length ?l" using k(2) boundary_le by (auto simp: clips_to_def)
  have "slice_point_utf16_to_offset c p = Some (length a + k) \<and> slice_unclipped_point_utf16_to_point c p = Some (Point (row p) k)"
  proof -
    consider "nutf16 ?l < column p" | "column p = 0" | "0 < column p" "column p \<le> nutf16 ?l" by linarith
    then show ?thesis
    proof cases
      case 1
      then have "k = length ?l" using k(2) by (simp add: clips_to_def)
      then show ?thesis
        using 1 le r(2-4) last total by (simp add: slice_point_utf16_to_offset_def slice_unclipped_point_utf16_to_point_def slice_len_def)
    next
      case 2
      have "str_is_char_boundary ?l 0" by (simp add: str_is_char_boundary_def)
      then have "k = 0" using clips_to_boundary [OF lok(4,2), of 0 Left k] k(2) 2 by simp
      then show ?thesis
        using 2 le r(2-4) by (simp add: slice_point_utf16_to_offset_def slice_unclipped_point_utf16_to_point_def)
    next
      case 3
      obtain i where i: "slice_offset_utf16_to_offset line (column p) = Some i" "i \<le> length ?l" "utf16_stop ?l i" "rank (ch_chars_utf16 line) i = column p"
        using slice_from_utf16 [OF r(5) 3(2)] by blast
      have k_eq: "k = back_to_boundary ?l i" "column p = nutf16 ?l \<Longrightarrow> k = length ?l"
        using row_stop_clip [OF lok(4,2) i(2-4) 3(2) k(2)] by blast+
      have "(if str_is_char_boundary (ch_text c) (length a + i) then length a + i else back_to_boundary (ch_text c) (length a + i - 1)) = length a + k"
        using back_to_boundary_row [of a ?l b i] r(10,11) i(2) back_to_boundary.simps [of "ch_text c" "length a + i"]
        by (simp only: r(1) k_eq(1) [symmetric])
      then show ?thesis
        using 3 le r(2-4) last total i(1) k_eq
        by (auto simp: slice_point_utf16_to_offset_def slice_unclipped_point_utf16_to_point_def slice_len_def Let_def)
    qed
  qed
  then have offset: "slice_point_utf16_to_offset c p = Some (length a + k)" and unclipped: "slice_unclipped_point_utf16_to_point c p = Some (Point (row p) k)"
    by simp_all
  have boundary: "str_is_char_boundary (ch_text c) (length a + k)" using row_boundary_iff [of a ?l b k] r(1,10,11) kb by simp
  have clipped: "slice_clip_point_utf16 c p Left = Some (Point (row p) (nutf16 (take k ?l)))"
    using r(4) k(1) le by (simp add: slice_clip_point_utf16_def)
  show thesis by (rule that [OF r(1) offset boundary k(2) kb(2) clipped unclipped r(7-9) lok(2) _ r(10,11,6)]) (use r(5) in blast)
qed

lemma slice_point_utf16_roundtrip:
  assumes "chunk_ok c" "str_is_char_boundary (ch_text c) i"
  shows "slice_point_utf16_to_offset c (point_utf16_at (ch_text c) i) = Some i"
proof -
  let ?s = "ch_text c" and ?p = "point_utf16_at (ch_text c) i"
  have i: "i \<le> length ?s" by (rule boundary_le [OF assms(2)])
  have "row ?p \<le> newlines ?s" using newlines_append [of "take i ?s" "drop i ?s"] by (simp add: point_utf16_at_def)
  then obtain a l b k where r: "?s = a @ l @ b" "slice_point_utf16_to_offset c ?p = Some (length a + k)"
    "clips_to l Left (column ?p) k" "newlines a = row ?p" "last_line a = []" "10 \<notin> set l" "\<exists>line. chunk_ok line \<and> ch_text line = l"
    "str_is_char_boundary ?s (length a)" "str_is_char_boundary ?s (length a + length l)" "l = split_newline ?s ! row ?p"
    using slice_point_utf16_row [OF assms(1)] by metis
  have l: "length (last_line (take i ?s)) \<le> length l" using row_prefix [of ?s i] r(10) by (simp add: point_utf16_at_def)
  let ?j = "length (last_line (take i ?s))"
  have "point_at ?s (length a + ?j) = point_at ?s i"
    using row_positions(1) [OF r(4-6) l, of b] r(1) by (simp add: point_at_def point_utf16_at_def)
  moreover have "length a + ?j \<le> length ?s" using arg_cong [OF r(1), of length] l by simp
  ultimately have i_eq: "i = length a + ?j" using i point_at_inj by metis
  then have j: "str_is_char_boundary l ?j" using row_boundary_iff [of a l b ?j] assms(2) r(1,8,9) l by metis
  have "?p = Point (row ?p) (nutf16 (take ?j l))"
    using arg_cong [OF i_eq, of "point_utf16_at ?s"] row_positions(2) [OF r(4-6) l, of b] unfolding r(1) [symmetric] by (rule trans)
  then have "column ?p = nutf16 (take ?j l)" by (simp add: point_eq_iff)
  then have clips: "clips_to l Left (nutf16 (take ?j l)) k" using r(3) by simp
  obtain line where "chunk_ok line" "ch_text line = l" using r(7) by blast
  with clips j have "k = ?j" using clips_to_boundary [OF chunk_okD(4,2) [OF \<open>chunk_ok line\<close>], of ?j Left k] by simp
  then show ?thesis using r(2) i_eq by metis
qed

section \<open>Grapheme clusters\<close>

text \<open>A position where a cursor may stop: a character boundary that is a grapheme boundary.\<close>

definition grapheme_stop :: "(str \<Rightarrow> nat \<Rightarrow> bool) \<Rightarrow> str \<Rightarrow> nat \<Rightarrow> bool" where
  "grapheme_stop grapheme s i \<longleftrightarrow> str_is_char_boundary s i \<and> grapheme s i"

text \<open>The nearest stop on one side of a column.\<close>

definition nearest_stop :: "(str \<Rightarrow> nat \<Rightarrow> bool) \<Rightarrow> str \<Rightarrow> bias \<Rightarrow> nat \<Rightarrow> nat \<Rightarrow> bool" where
  "nearest_stop grapheme s b i k \<longleftrightarrow> grapheme_stop grapheme s k \<and>
     (if b = Left then k \<le> i \<and> (\<forall>j \<in> {k<..i}. \<not> grapheme_stop grapheme s j)
      else i \<le> k \<and> (\<forall>j \<in> {i..<k}. \<not> grapheme_stop grapheme s j))"

lemma nearest_stop_refl: "grapheme_stop grapheme s i \<Longrightarrow> nearest_stop grapheme s b i i"
  by (simp add: nearest_stop_def)

lemma nearest_stop_unique: "nearest_stop grapheme s b i k \<Longrightarrow> nearest_stop grapheme s b i k' \<Longrightarrow> k = k'"
  unfolding nearest_stop_def by (cases k k' rule: linorder_cases) (auto split: if_splits)

lemma clip_column_left:
  assumes "chunk_ok line" "grapheme (ch_text line) 0" "i \<le> length (ch_text line)"
  shows "\<exists>k. clip_column grapheme line Left i = Some k \<and> nearest_stop grapheme (ch_text line) Left i k"
  using assms(3)
proof (induction i)
  case 0
  have "grapheme_stop grapheme (ch_text line) 0" using assms(2) by (simp add: grapheme_stop_def str_is_char_boundary_def)
  then show ?case using chunk_boundary_iff [OF assms(1), of 0]
    by (intro exI [of _ 0]) (simp add: clip_column.simps [of _ _ _ 0] nearest_stop_refl, simp add: grapheme_stop_def)
next
  case (Suc i)
  let ?s = "ch_text line"
  have "chunk_is_char_boundary line (Suc i) \<longleftrightarrow> str_is_char_boundary ?s (Suc i)"
    using chunk_boundary_iff [OF assms(1), of "Suc i"] Suc.prems chunk_okD(1) [OF assms(1)] by simp
  then have step: "clip_column grapheme line Left (Suc i) = (if grapheme_stop grapheme ?s (Suc i) then Some (Suc i) else clip_column grapheme line Left i)"
    by (simp add: clip_column.simps [of _ _ _ "Suc i"] grapheme_stop_def)
  show ?case
  proof (cases "grapheme_stop grapheme ?s (Suc i)")
    case False
    obtain k where "clip_column grapheme line Left i = Some k" "nearest_stop grapheme ?s Left i k" using Suc by auto
    with False step show ?thesis by (auto simp: nearest_stop_def le_Suc_eq)
  qed (simp add: step nearest_stop_refl)
qed

lemma clip_column_right:
  assumes "chunk_ok line" "grapheme (ch_text line) (length (ch_text line))" "i \<le> length (ch_text line)"
  shows "\<exists>k. clip_column grapheme line Right i = Some k \<and> nearest_stop grapheme (ch_text line) Right i k"
  using assms(3)
proof (induction "length (ch_text line) - i" arbitrary: i)
  case 0
  then have i: "i = length (ch_text line)" by simp
  have "grapheme_stop grapheme (ch_text line) i" using assms(2) by (simp add: i grapheme_stop_def str_is_char_boundary_def)
  moreover have "chunk_is_char_boundary line i" by (simp add: i chunk_is_char_boundary_def)
  ultimately show ?case
    by (intro exI [of _ i]) (simp add: clip_column.simps [of _ _ _ i] nearest_stop_refl, simp add: grapheme_stop_def)
next
  case (Suc n)
  let ?s = "ch_text line"
  have "chunk_is_char_boundary line i \<longleftrightarrow> str_is_char_boundary ?s i"
    using chunk_boundary_iff [OF assms(1), of i] Suc.prems chunk_okD(1) [OF assms(1)] by simp
  then have step: "clip_column grapheme line Right i = (if grapheme_stop grapheme ?s i then Some i else clip_column grapheme line Right (Suc i))"
    by (simp add: clip_column.simps [of _ _ _ i] grapheme_stop_def)
  show ?case
  proof (cases "grapheme_stop grapheme ?s i")
    case False
    have "n = length ?s - Suc i" "Suc i \<le> length ?s" using Suc.hyps(2) Suc.prems by linarith+
    from Suc.hyps(1) [OF this] obtain k where k: "clip_column grapheme line Right (Suc i) = Some k" "nearest_stop grapheme ?s Right (Suc i) k" by blast
    have "\<not> grapheme_stop grapheme ?s j" if "j \<in> {i..<k}" for j
      using that False k(2) by (cases "j = i") (simp_all add: nearest_stop_def)
    then have "nearest_stop grapheme ?s Right i k" using k(2) by (simp add: nearest_stop_def)
    with k(1) False step show ?thesis by simp
  qed (simp add: step nearest_stop_refl)
qed

lemma slice_clip_point_row:
  assumes "chunk_ok c" "row p \<le> newlines (ch_text c)" "l = split_newline (ch_text c) ! row p"
    and ends: "grapheme l 0" "grapheme l (length l)"
    and ascii: "\<And>i. 0 < i \<Longrightarrow> i < length l \<Longrightarrow> l ! (i - 1) < 128 \<Longrightarrow> l ! i < 128 \<Longrightarrow> l ! i \<noteq> 10 \<Longrightarrow> grapheme l i"
  shows "\<exists>k. slice_clip_point grapheme c p b = Some (Point (row p) k) \<and> nearest_stop grapheme l b (min (column p) (length l)) k"
proof -
  obtain line where r: "slice_row c (row p) = Some line" "chunk_ok line" "ch_text line = l" "10 \<notin> set l"
    using slice_row_correct [OF assms(1,2)] assms(3) by metis
  have le: "\<not> row (slice_lines c) < row p" using assms(2) slice_lines_correct [OF assms(1)] by simp
  have stops: "grapheme_stop grapheme l 0" "grapheme_stop grapheme l (length l)" using ends by (simp_all add: grapheme_stop_def str_is_char_boundary_def)
  consider "column p = 0" | "0 < column p" "length l \<le> column p"
    | "0 < column p" "column p < length l" "l ! (column p - 1) < 128 \<and> l ! column p < 128"
    | "0 < column p" "column p < length l" "\<not> (l ! (column p - 1) < 128 \<and> l ! column p < 128)" by linarith
  then show ?thesis
  proof cases
    case 1
    then show ?thesis using le r stops nearest_stop_refl by (auto simp: slice_clip_point_def point_eq_iff)
  next
    case 2
    then show ?thesis using le r stops nearest_stop_refl by (auto simp: slice_clip_point_def slice_len_def min_def)
  next
    case 3
    have "l ! column p \<noteq> 10" using 3(2) r(4) by (metis nth_mem)
    then have "grapheme_stop grapheme l (column p)"
      using ascii 3 by (simp add: grapheme_stop_def str_is_char_boundary_def boundary_iff)
    then show ?thesis using 3 le r nearest_stop_refl by (auto simp: slice_clip_point_def slice_len_def)
  next
    case 4
    have "\<exists>k. clip_column grapheme line b (column p) = Some k \<and> nearest_stop grapheme l b (column p) k"
      using clip_column_left [OF r(2)] clip_column_right [OF r(2)] ends 4(2) r(3) by (cases b) auto
    then show ?thesis using 4 le r by (auto simp: slice_clip_point_def slice_len_def)
  qed
qed

section \<open>Properties\<close>

lemma slice_clip_point_utf16_correct:
  assumes "chunk_ok c"
  shows "if newlines (ch_text c) < row p then slice_clip_point_utf16 c p b = Some (point_utf16_at (ch_text c) (length (ch_text c)))
    else \<exists>k. clips_to (split_newline (ch_text c) ! row p) b (column p) k \<and>
      slice_clip_point_utf16 c p b = Some (Point (row p) (nutf16 (take k (split_newline (ch_text c) ! row p))))"
proof (cases "newlines (ch_text c) < row p")
  case True
  have "slice_last_line_len_utf16 c = nutf16 (last_line (ch_text c))"
    using slice_text_summary_correct [OF assms] by (simp add: slice_text_summary_def summary_of_def split: prod.splits)
  with True show ?thesis using slice_lines_correct [OF assms] by (simp add: slice_clip_point_utf16_def point_utf16_at_def)
next
  case False
  then have le: "row p \<le> newlines (ch_text c)" by simp
  obtain line where line: "slice_row c (row p) = Some line" "chunk_ok line" "ch_text line = split_newline (ch_text c) ! row p"
    using slice_row_correct [OF assms le] by metis
  from slice_clip_offset_utf16_correct [OF line(2), of "column p" b] line False slice_lines_correct [OF assms]
  show ?thesis by (auto simp: slice_clip_point_utf16_def)
qed

text \<open>
  Clipping UTF-16 positions. \<open>clip_offset_utf16\<close> always ends at a character boundary: the last one not after the
  given offset when biased to the left, the first one not before it when biased to the right, the end of the text
  for an offset beyond it. \<open>clip_point_utf16\<close> does the same in the row of the point, and goes to the end of the text for a row
  beyond the last. For every point, \<open>point_utf16_to_offset\<close>, \<open>clip_point_utf16\<close> to the left and
  \<open>unclipped_point_utf16_to_point\<close> describe the same boundary of the text, and at a boundary
  \<open>point_utf16_to_offset\<close> inverts \<open>offset_to_point_utf16\<close>.
\<close>

theorem chunk_clip_utf16:
  assumes "valid_utf8 s" "length s \<le> MAX_BASE" "chunk_new s = Some c"
  shows "(\<forall>n b. \<exists>k. slice_clip_offset_utf16 c n b = Some (nutf16 (take k s)) \<and> clips_to s b n k) \<and>
    (\<forall>p b. if newlines s < row p then slice_clip_point_utf16 c p b = Some (point_utf16_at s (length s))
       else \<exists>k. clips_to (split_newline s ! row p) b (column p) k \<and>
         slice_clip_point_utf16 c p b = Some (Point (row p) (nutf16 (take k (split_newline s ! row p))))) \<and>
    (\<forall>p. \<exists>i. str_is_char_boundary s i \<and> slice_point_utf16_to_offset c p = Some i \<and>
       slice_clip_point_utf16 c p Left = Some (slice_offset_to_point_utf16 c i) \<and>
       slice_unclipped_point_utf16_to_point c p = slice_offset_to_point c i) \<and>
    (\<forall>i. str_is_char_boundary s i \<longrightarrow> slice_point_utf16_to_offset c (slice_offset_to_point_utf16 c i) = Some i)"
proof (intro conjI allI impI)
  have c: "chunk_ok c" "ch_text c = s" using chunk_new_correct [of s] assms by (auto simp: MAX_BASE_def)
  show "\<exists>k. slice_clip_offset_utf16 c n b = Some (nutf16 (take k s)) \<and> clips_to s b n k" for n b
    using slice_clip_offset_utf16_correct [OF c(1)] c(2) by simp
  show "if newlines s < row p then slice_clip_point_utf16 c p b = Some (point_utf16_at s (length s))
       else \<exists>k. clips_to (split_newline s ! row p) b (column p) k \<and>
         slice_clip_point_utf16 c p b = Some (Point (row p) (nutf16 (take k (split_newline s ! row p))))" for p b
    using slice_clip_point_utf16_correct [OF c(1)] unfolding c(2) .
  show "slice_point_utf16_to_offset c (slice_offset_to_point_utf16 c i) = Some i" if "str_is_char_boundary s i" for i
    using slice_point_utf16_roundtrip [OF c(1)] slice_point_utf16_correct [OF c(1)] that c(2) by simp
  fix p :: "nat point"
  have pos: "slice_offset_to_point_utf16 c i = point_utf16_at s i" "slice_offset_to_point c i = Some (point_at s i)" if "str_is_char_boundary s i" for i
    using that boundary_le [OF that] slice_point_utf16_correct [OF c(1)] slice_offset_to_point_correct [OF c(1)] c(2) by simp_all
  show "\<exists>i. str_is_char_boundary s i \<and> slice_point_utf16_to_offset c p = Some i \<and>
       slice_clip_point_utf16 c p Left = Some (slice_offset_to_point_utf16 c i) \<and>
       slice_unclipped_point_utf16_to_point c p = slice_offset_to_point c i"
  proof (cases "newlines s < row p")
    case True
    have len: "str_is_char_boundary s (length s)" by (simp add: str_is_char_boundary_def)
    have "slice_last_line_len_utf16 c = nutf16 (last_line s)"
      using slice_text_summary_correct [OF c(1)] c(2) by (simp add: slice_text_summary_def summary_of_def split: prod.splits)
    then show ?thesis
      using True pos [OF len] len slice_lines_correct [OF c(1)] c(2)
      by (intro exI [of _ "length s"]) (simp add: slice_point_utf16_to_offset_def slice_clip_point_utf16_def
          slice_unclipped_point_utf16_to_point_def slice_len_def point_utf16_at_def point_at_def)
  next
    case False
    then have "row p \<le> newlines (ch_text c)" using c(2) by simp
    then obtain a l b k where r: "s = a @ l @ b" "slice_point_utf16_to_offset c p = Some (length a + k)" "str_is_char_boundary s (length a + k)"
      "k \<le> length l" "slice_clip_point_utf16 c p Left = Some (Point (row p) (nutf16 (take k l)))"
      "slice_unclipped_point_utf16_to_point c p = Some (Point (row p) k)" "newlines a = row p" "last_line a = []" "10 \<notin> set l"
      using slice_point_utf16_row [OF c(1), of p] c(2) by metis
    show ?thesis using pos [OF r(3)] row_positions [OF r(7-9,4), of b] r(1-3,5,6) by (intro exI [of _ "length a + k"]) simp
  qed
qed

theorem chunk_clip_utf16_witness:
  "\<exists>c. chunk_new sample_text = Some c \<and> slice_clip_offset_utf16 c 2 Left = Some 1 \<and> slice_clip_offset_utf16 c 2 Right = Some 3 \<and>
     slice_point_utf16_to_offset c (slice_offset_to_point_utf16 c 5) = Some 5"
proof -
  obtain c where c: "chunk_new sample_text = Some c" using sample_text_facts(3) by blast
  note clip = chunk_clip_utf16 [OF sample_text_facts(1,2) c]
  have sets: "{1<..<length sample_text} = {2, 3, 4, 5, 6, 7}" "{0..<5} = {0, 1, 2, 3, 4 :: nat}" by (auto simp: sample_text_def)
  have k: "clips_to sample_text Left 2 1" "clips_to sample_text Right 2 5"
    using sets by (simp_all add: clips_to_def sample_text_def str_is_char_boundary_def boundary_iff nutf16_def nchars_def)
  have n: "nutf16 (take 1 sample_text) = 1" "nutf16 (take 5 sample_text) = 3" "str_is_char_boundary sample_text 5" by code_simp+
  have off: "\<exists>k. slice_clip_offset_utf16 c 2 b = Some (nutf16 (take k sample_text)) \<and> clips_to sample_text b 2 k" for b
    using clip by blast
  have "slice_clip_offset_utf16 c 2 Left = Some 1" using off [of Left] clips_to_unique [OF k(1)] n(1) by auto
  moreover have "slice_clip_offset_utf16 c 2 Right = Some 3" using off [of Right] clips_to_unique [OF k(2)] n(2) by auto
  ultimately show ?thesis using clip n(3) c by blast
qed

text \<open>
  C20. Clipping a point to grapheme clusters, for every segmentation in which the two ends of a row are boundaries and so is
  every position between two ASCII bytes of which the second is no newline. A point on a row of the
  chunk is moved to the nearest boundary of its row on the chosen side, a column beyond the row to its end, and a point
  below the last row to the end of the text; the search always ends.
\<close>

theorem chunk_clip_point:
  assumes "valid_utf8 s" "length s \<le> MAX_BASE" "chunk_new s = Some c"
    and "\<And>l. grapheme l 0 \<and> grapheme l (length l)"
    and "\<And>l i. 0 < i \<Longrightarrow> i < length l \<Longrightarrow> l ! (i - 1) < 128 \<Longrightarrow> l ! i < 128 \<Longrightarrow> l ! i \<noteq> 10 \<Longrightarrow> grapheme l i"
  shows "if newlines s < row p then slice_clip_point grapheme c p b = slice_offset_to_point c (length s)
    else \<exists>k. slice_clip_point grapheme c p b = Some (Point (row p) k) \<and>
           nearest_stop grapheme (split_newline s ! row p) b (min (column p) (length (split_newline s ! row p))) k"
proof -
  have c: "chunk_ok c" "ch_text c = s" using chunk_new_correct [of s] assms(1-3) by (auto simp: MAX_BASE_def)
  show ?thesis
  proof (cases "newlines s < row p")
    case True
    then show ?thesis
      using slice_offset_to_point_correct [OF c(1), of "length s"] slice_lines_correct [OF c(1)] c(2)
      by (simp add: slice_clip_point_def point_at_def)
  next
    case False
    then have "row p \<le> newlines (ch_text c)" using c(2) by simp
    from slice_clip_point_row [OF c(1) this refl, of grapheme b] assms(4,5) False c(2) show ?thesis by simp
  qed
qed

theorem chunk_clip_point_witness:
  "\<exists>c. chunk_new sample_text = Some c \<and> slice_clip_point str_is_char_boundary c (Point 0 3) Left = Some (Point 0 1) \<and>
     slice_clip_point str_is_char_boundary c (Point 0 3) Right = Some (Point 0 5) \<and>
     slice_clip_point str_is_char_boundary c (Point 7 0) Left = slice_offset_to_point c 8"
proof -
  obtain c where c: "chunk_new sample_text = Some c" using sample_text_facts(3) by blast
  have g: "str_is_char_boundary l 0 \<and> str_is_char_boundary l (length l)" for l by (simp add: str_is_char_boundary_def)
  have a: "0 < i \<Longrightarrow> i < length l \<Longrightarrow> l ! (i - 1) < 128 \<Longrightarrow> l ! i < 128 \<Longrightarrow> l ! i \<noteq> 10 \<Longrightarrow> str_is_char_boundary l i" for l i
    by (simp add: str_is_char_boundary_def boundary_iff)
  note clip = chunk_clip_point [OF sample_text_facts(1,2) c g a]
  have row: "newlines sample_text = 1" "split_newline sample_text ! 0 = [97, 0xF0, 0x9F, 0x98, 0x80, 9]" "length sample_text = 8" by code_simp+
  have three: "Suc (Suc (Suc 0)) = 3" by simp
  have near: "nearest_stop str_is_char_boundary [97, 0xF0, 0x9F, 0x98, 0x80, 9] Left 3 1" "nearest_stop str_is_char_boundary [97, 0xF0, 0x9F, 0x98, 0x80, 9] Right 3 5"
    by code_simp+
  have "slice_clip_point str_is_char_boundary c (Point 0 3) Left = Some (Point 0 1)" "slice_clip_point str_is_char_boundary c (Point 0 3) Right = Some (Point 0 5)"
    using clip [of "Point 0 3" Left] clip [of "Point 0 3" Right] nearest_stop_unique [OF near(1)] nearest_stop_unique [OF near(2)]
    by (auto simp: row three)
  moreover have "slice_clip_point str_is_char_boundary c (Point 7 0) Left = slice_offset_to_point c 8"
    using clip [of "Point 7 0" Left] by (simp add: row)
  ultimately show ?thesis using c by blast
qed

end
