(* ===== verification/Chunk_Summary.thy ===== *)
theory Chunk_Summary
  imports Chunk_Text Cursor_Properties
begin

text \<open>
  \<open>ChunkSummary\<close> and the text dimensions of \<open>crates/rope/src/rope.rs\<close>. Adding text summaries is associative with the default
  summary as unit only on summaries that some text can have; \<open>ts_ok\<close> describes them, and \<open>chunk_summary\<close> is the
  type of the summaries with that property. The bitmaps of every chunk have it, so that the sum
  tree of chunks and each of its dimensions satisfy the laws of the sum tree.
\<close>

unbundle bit_operations_syntax

section \<open>Summaries of texts\<close>

definition ts_ok :: "text_summary \<Rightarrow> bool" where
  "ts_ok s \<longleftrightarrow> ts_first_line_chars s \<le> ts_longest_row_chars s \<and> ts_last_line_chars s \<le> ts_longest_row_chars s \<and>
     (ts_longest_row_chars s = ts_first_line_chars s \<longrightarrow> ts_longest_row s = 0) \<and>
     (row (ts_lines s) = 0 \<longrightarrow> ts_last_line_chars s = ts_first_line_chars s \<and> ts_longest_row_chars s = ts_first_line_chars s)"

lemma summary_add_fields:
  "ts_len (summary_add s t) = ts_len s + ts_len t"
  "ts_chars (summary_add s t) = ts_chars s + ts_chars t"
  "ts_len_utf16 (summary_add s t) = ts_len_utf16 s + ts_len_utf16 t"
  "ts_lines (summary_add s t) = point_add_assign (ts_lines s) (ts_lines t)"
  "ts_first_line_chars (summary_add s t) = (if row (ts_lines s) = 0 then ts_first_line_chars s + ts_first_line_chars t else ts_first_line_chars s)"
  "ts_last_line_chars (summary_add s t) = (if row (ts_lines t) = 0 then ts_last_line_chars s + ts_first_line_chars t else ts_last_line_chars t)"
  "ts_last_line_len_utf16 (summary_add s t) = (if row (ts_lines t) = 0 then ts_last_line_len_utf16 s + ts_last_line_len_utf16 t else ts_last_line_len_utf16 t)"
  "ts_longest_row_chars (summary_add s t) = max (max (ts_longest_row_chars s) (ts_last_line_chars s + ts_first_line_chars t)) (ts_longest_row_chars t)"
  "ts_longest_row (summary_add s t) =
     (if max (ts_longest_row_chars s) (ts_last_line_chars s + ts_first_line_chars t) < ts_longest_row_chars t then row (ts_lines s) + ts_longest_row t
      else if ts_longest_row_chars s < ts_last_line_chars s + ts_first_line_chars t then row (ts_lines s) else ts_longest_row s)"
  by (simp_all add: summary_add_def Let_def)

lemma point_add_fields:
  fixes p q :: "nat point"
  shows "row (point_add_assign p q) = row p + row q"
    "column (point_add_assign p q) = (if row q = 0 then column p + column q else column q)"
  by (simp_all add: point_add_assign_def)

lemma summary_add_ok: "ts_ok s \<Longrightarrow> ts_ok t \<Longrightarrow> ts_ok (summary_add s t)"
  unfolding ts_ok_def summary_add_fields point_add_fields by (auto simp: max_def)

lemma summary_zero_ok: "ts_ok summary_zero"
  by (simp add: ts_ok_def summary_zero_def point_zero_def)

lemma summary_zero_add: "ts_ok s \<Longrightarrow> summary_add summary_zero s = s"
  by (rule text_summary.equality)
    (auto simp: summary_add_fields ts_ok_def summary_zero_def point_zero_def point_add_fields point_eq_iff max_def)

text \<open>Of several rows with their lengths, the first of the longest ones.\<close>

definition longer :: "nat \<times> nat \<Rightarrow> nat \<times> nat \<Rightarrow> nat \<times> nat" where
  "longer a b = (if snd a < snd b then b else a)"

lemma longer_assoc: "longer (longer a b) c = longer a (longer b c)"
  by (auto simp: longer_def)

definition shift_row :: "nat \<Rightarrow> nat \<times> nat \<Rightarrow> nat \<times> nat" where
  "shift_row r a = (r + fst a, snd a)"

lemma shift_row_simps: "shift_row r (longer a b) = longer (shift_row r a) (shift_row r b)" "shift_row r (i, m) = (r + i, m)"
    "shift_row r (shift_row q a) = shift_row (r + q) a" "shift_row 0 a = a"
  by (simp_all add: shift_row_def longer_def)

abbreviation longest_of :: "text_summary \<Rightarrow> nat \<times> nat" where
  "longest_of s \<equiv> (ts_longest_row s, ts_longest_row_chars s)"

lemma summary_add_longest:
  "longest_of (summary_add s t) = longer (longer (longest_of s) (row (ts_lines s), ts_last_line_chars s + ts_first_line_chars t))
     (shift_row (row (ts_lines s)) (longest_of t))"
  unfolding summary_add_fields longer_def shift_row_def by (simp add: max_def)

lemma summary_add_longest_assoc:
  assumes "ts_ok t"
  shows "longest_of (summary_add (summary_add s t) u) = longest_of (summary_add s (summary_add t u))"
proof (cases "row (ts_lines t) = 0")
  case True
  with assms have t: "ts_last_line_chars t = ts_first_line_chars t" "ts_longest_row_chars t = ts_first_line_chars t" "ts_longest_row t = 0"
    by (simp_all add: ts_ok_def)
  let ?r = "row (ts_lines s)" and ?l = "ts_last_line_chars s" and ?f = "ts_first_line_chars t" and ?g = "ts_first_line_chars u"
  have "longest_of (summary_add (summary_add s t) u) = longer (longer (longer (longer (longest_of s) (?r, ?l + ?f)) (?r, ?f)) (?r, ?l + ?f + ?g))
      (shift_row ?r (longest_of u))"
    unfolding summary_add_longest by (simp add: summary_add_fields(4,6) point_add_fields True t shift_row_simps)
  also have "\<dots> = longer (longer (longest_of s) (?r, ?l + (?f + ?g))) (longer (longer (?r, ?f) (?r, ?f + ?g)) (shift_row ?r (longest_of u)))"
    by (simp add: longer_def)
  also have "\<dots> = longest_of (summary_add s (summary_add t u))"
    unfolding summary_add_longest by (simp add: summary_add_fields(5) True t shift_row_simps)
  finally show ?thesis .
next
  case False
  then show ?thesis
    unfolding summary_add_longest by (simp add: summary_add_fields(4-6) point_add_fields shift_row_simps longer_assoc add.assoc)
qed

lemma summary_add_assoc:
  assumes "ts_ok s" "ts_ok t" "ts_ok u"
  shows "summary_add (summary_add s t) u = summary_add s (summary_add t u)"
  using summary_add_longest_assoc [OF assms(2), of s u] assms
  by (intro text_summary.equality) (auto simp: summary_add_fields(1-7) point_add_fields point_eq_iff ts_ok_def)

section \<open>Summaries of chunks\<close>

lemma longest_bounds:
  assumes "xs \<noteq> []"
  shows "hd xs \<le> snd (longest xs 0 (0, 0))" "last xs \<le> snd (longest xs 0 (0, 0))"
    "snd (longest xs 0 (0, 0)) = hd xs \<Longrightarrow> fst (longest xs 0 (0, 0)) = 0" "length xs = 1 \<Longrightarrow> snd (longest xs 0 (0, 0)) = hd xs"
proof -
  obtain x ys where xs: "xs = x # ys" using assms by (cases xs) auto
  have start: "longest xs 0 (0, 0) = longest ys 1 (0, x)" by (simp add: xs)
  show "hd xs \<le> snd (longest xs 0 (0, 0))" using longest_grows [of "(0, x)" ys 1] by (simp add: xs)
  show "snd (longest xs 0 (0, 0)) = hd xs \<Longrightarrow> fst (longest xs 0 (0, 0)) = 0"
    using longest_from_zero [of ys 1 "(0, x)"] by (auto simp: xs split: prod.splits if_splits)
  show "length xs = 1 \<Longrightarrow> snd (longest xs 0 (0, 0)) = hd xs" by (simp add: xs)
  show "last xs \<le> snd (longest xs 0 (0, 0))"
    using longest_append [of "butlast xs" "[last xs]" 0 "(0, 0)"] assms by simp
qed

text \<open>The first and the last part of a list that is split.\<close>

lemma split_on_hd: "hd (split_on Q xs) = takeWhile (\<lambda>x. \<not> Q x) xs"
  by (induction xs) simp_all

lemma split_on_last: "last (split_on Q xs) = rev (takeWhile (\<lambda>x. \<not> Q x) (rev xs))"
proof (induction xs)
  case (Cons x xs)
  show ?case
  proof (cases "\<exists>y \<in> set xs. Q y")
    case True
    then obtain y where "y \<in> set (rev xs)" "\<not> \<not> Q y" by auto
    then have "takeWhile (\<lambda>x. \<not> Q x) (rev xs @ [x]) = takeWhile (\<lambda>x. \<not> Q x) (rev xs)" by (rule takeWhile_append1)
    moreover have "tl (split_on Q xs) \<noteq> []" using True by (induction xs) auto
    ultimately show ?thesis using Cons by (simp add: last_tl)
  next
    case False
    then have "split_on Q xs = [xs]" by (simp add: split_on_row)
    moreover have "takeWhile (\<lambda>x. \<not> Q x) (rev xs @ [x]) = rev xs @ takeWhile (\<lambda>x. \<not> Q x) [x]" using False by (intro takeWhile_append2) auto
    ultimately show ?thesis by simp
  qed
qed simp

lemma split_on_length: "length (split_on Q xs) = Suc (length (filter Q xs))"
  by (induction xs) simp_all

lemma bit_marks_upt: "bit w = marks (bit w) [0..<128]" for w :: u128
proof
  fix i
  show "bit w i = marks (bit w) [0..<128] i" using bit_imp_le_length [of w i] by (cases "i < 128") (auto simp: marks_def)
qed

lemma slice_text_summary_ok: "ts_ok (slice_text_summary c)"
proof -
  let ?P = "bit (ch_chars c)" and ?Q = "bit (ch_newlines c)"
  let ?rows = "map (\<lambda>xs. length (filter ?P xs)) (split_on ?Q [0..<128])"
  have loop: "snd (slice_longest_row c) = longest ?rows 0 (0, 0)"
    using longest_row_loop_rows [OF bit_marks_upt bit_marks_upt, of "ch_chars c" "ch_newlines c" 0 0 0 0] by (simp add: slice_longest_row_def)
  have rank: "rank (ch_chars c) k = length (filter ?P (take k [0..<128]))" for k by (rule rank_marks [OF bit_marks_upt])
  have first: "slice_first_line_chars c = hd ?rows"
    using count_low [of "ch_chars c" "trailing_zeros (ch_newlines c)"] rank
    by (simp add: slice_first_line_chars_def saturating_shl_mask_def hd_map split_on_hd trailing_zeros_def takeWhile_eq_take [symmetric])
  have last: "slice_last_line_chars c = last ?rows"
  proof -
    let ?n = "leading_zeros (ch_newlines c)"
    have n: "?n \<le> 128" using length_takeWhile_le [of _ "rev [0..<128]"] by (simp add: leading_zeros_def)
    have "takeWhile (\<lambda>i. \<not> ?Q i) (rev [0..<128]) = take ?n (rev [0..<128])" by (simp add: leading_zeros_def takeWhile_eq_take [symmetric])
    then have "last (split_on ?Q [0..<128]) = drop (128 - ?n) [0..<128]" by (simp only: split_on_last rev_take rev_rev_ident) simp
    moreover have "slice_last_line_chars c = count_ones (ch_chars c) - rank (ch_chars c) (128 - ?n)"
      using count_high [of "128 - ?n" "ch_chars c"] n by (simp add: slice_last_line_chars_def)
    moreover have "count_ones (ch_chars c) = length (filter ?P (take (128 - ?n) [0..<128] @ drop (128 - ?n) [0..<128]))"
      using count_marks [OF bit_marks_upt, of "ch_chars c"] by (simp only: append_take_drop_id) simp
    ultimately show ?thesis by (simp add: rank last_map)
  qed
  have row: "row (slice_lines c) = length ?rows - 1"
    using count_marks [OF bit_marks_upt, of "ch_newlines c"] by (simp add: slice_lines_def split_on_length)
  have ne: "?rows \<noteq> []" by simp
  have one: "row (slice_lines c) = 0 \<Longrightarrow> length ?rows = 1" unfolding row by (simp add: split_on_length)
  have "row (slice_lines c) = 0 \<Longrightarrow> last ?rows = hd ?rows" using one by (metis One_nat_def length_Suc_conv length_0_conv last.simps list.sel(1))
  then show ?thesis
    using longest_bounds [OF ne] one first last loop unfolding ts_ok_def slice_text_summary_def by (auto simp: split_def simp del: length_map)
qed

text \<open>\<open>ChunkSummary\<close> and its operations.\<close>

typedef chunk_summary = "{s. ts_ok s}"
  morphisms cs_text ChunkSummary
  using summary_zero_ok by blast

setup_lifting type_definition_chunk_summary

lift_definition chunk_summary_zero :: chunk_summary is summary_zero
  by (rule summary_zero_ok)

lift_definition chunk_summary_add :: "chunk_summary \<Rightarrow> chunk_summary \<Rightarrow> chunk_summary" is summary_add
  by (rule summary_add_ok)

lift_definition chunk_summary_of :: "chunk \<Rightarrow> chunk_summary" is slice_text_summary
  by (rule slice_text_summary_ok)

definition chunk_ops :: "(chunk, chunk_summary) item_ops" where
  "chunk_ops = \<lparr>item_summary = chunk_summary_of, s_zero = chunk_summary_zero, s_add = chunk_summary_add\<rparr>"

section \<open>Dimensions\<close>

definition len_dim :: "(nat, chunk_summary) dim_ops" where
  "len_dim = \<lparr>d_zero = 0, d_add = (\<lambda>d s. d + ts_len (cs_text s))\<rparr>"

definition utf16_dim :: "(nat, chunk_summary) dim_ops" where
  "utf16_dim = \<lparr>d_zero = 0, d_add = (\<lambda>d s. d + ts_len_utf16 (cs_text s))\<rparr>"

definition point_dim :: "(nat point, chunk_summary) dim_ops" where
  "point_dim = \<lparr>d_zero = point_zero, d_add = (\<lambda>d s. point_add_assign d (ts_lines (cs_text s)))\<rparr>"

definition point_utf16_dim :: "(nat point, chunk_summary) dim_ops" where
  "point_utf16_dim = \<lparr>d_zero = point_zero, d_add = (\<lambda>d s. point_add_assign d (lines_utf16 (cs_text s)))\<rparr>"

text \<open>\<open>Dimensions\<close>: two dimensions at once.\<close>

definition pair_dim :: "('a, 's) dim_ops \<Rightarrow> ('b, 's) dim_ops \<Rightarrow> ('a \<times> 'b, 's) dim_ops" where
  "pair_dim a b = \<lparr>d_zero = (d_zero a, d_zero b), d_add = (\<lambda>d s. (d_add a (fst d) s, d_add b (snd d) s))\<rparr>"

lemma lawful_chunks: "lawful_summary chunk_ops"
proof -
  have "chunk_summary_add (chunk_summary_add a b) c = chunk_summary_add a (chunk_summary_add b c)" for a b c
    by transfer (simp add: summary_add_assoc)
  moreover have "chunk_summary_add chunk_summary_zero a = a" for a by transfer (simp add: summary_zero_add)
  ultimately show ?thesis by (simp add: lawful_summary_def chunk_ops_def)
qed

lemma lawful_pair_dim: "lawful_dim ops a \<Longrightarrow> lawful_dim ops b \<Longrightarrow> lawful_dim ops (pair_dim a b)"
  by (simp add: lawful_dim_def pair_dim_def)

lemma nat_point_add_assoc: "point_add_assign (point_add_assign p q) r = point_add_assign p (point_add_assign q r)" for p q r :: "nat point"
  by (simp add: point_eq_iff point_add_fields)

lemma lawful_text_dims:
  "lawful_dim chunk_ops len_dim" "lawful_dim chunk_ops utf16_dim" "lawful_dim chunk_ops point_dim" "lawful_dim chunk_ops point_utf16_dim"
proof -
  have f: "cs_text (chunk_summary_add a b) = summary_add (cs_text a) (cs_text b)" for a b by (simp add: chunk_summary_add.rep_eq)
  show "lawful_dim chunk_ops len_dim" "lawful_dim chunk_ops utf16_dim" "lawful_dim chunk_ops point_dim"
    by (simp_all add: lawful_dim_def chunk_ops_def len_dim_def utf16_dim_def point_dim_def f summary_add_fields(1-4) nat_point_add_assoc add.assoc)
  have "lines_utf16 (summary_add s t) = point_add_assign (lines_utf16 s) (lines_utf16 t)" for s t
    by (simp add: lines_utf16_def point_eq_iff summary_add_fields point_add_fields)
  then show "lawful_dim chunk_ops point_utf16_dim"
    by (simp add: lawful_dim_def chunk_ops_def point_utf16_dim_def f nat_point_add_assoc)
qed

interpretation ch: summary_laws chunk_ops
  by unfold_locales (rule lawful_chunks)

interpretation ch_len: search_laws chunk_ops len_dim
  by unfold_locales (rule lawful_text_dims)

end
