(* ===== verification/Rope.thy ===== *)
theory Rope
  imports Chunk_Clip Chunk_Summary
begin

text \<open>
  The rope of \<open>crates/rope/src/rope.rs\<close>: a sum tree of chunks, with pushing, appending, slicing and replacing, and its
  cursor. A rope is its tree of chunks, the one field of the struct. The closures given to \<open>update_last\<close> and
  \<open>update_first\<close> also change a captured text and may panic; they return the new chunk together with that text.
\<close>

type_synonym rope = "(chunk, chunk_summary) sum_tree"

definition rope_new :: rope where
  "rope_new = tree_new chunk_ops"

definition rope_len :: "rope \<Rightarrow> nat" where
  "rope_len t = extent len_dim t"

definition rope_is_empty :: "rope \<Rightarrow> bool" where
  "rope_is_empty t \<longleftrightarrow> rope_len t = 0"

definition rope_summary :: "rope \<Rightarrow> text_summary" where
  "rope_summary t = cs_text (summary t)"

definition update_last_chunk :: "(chunk \<Rightarrow> (chunk \<times> 'r) option) \<Rightarrow> 'r \<Rightarrow> rope \<Rightarrow> (rope \<times> 'r) option" where
  "update_last_chunk f r t = do {
     l \<leftarrow> tree_last t;
     (c, r') \<leftarrow> (case l of Some c \<Rightarrow> f c | None \<Rightarrow> Some (chunk_default, r));
     t' \<leftarrow> update_last chunk_ops (\<lambda>_. c) t;
     Some (t', r')
   }"

section \<open>Pushing text\<close>

definition push_split :: "nat \<Rightarrow> str \<Rightarrow> nat option" where
  "push_split last_len text = (if last_len + length text \<le> MAX_BASE then Some (length text)
     else forward_to_boundary text (min (MIN_BASE - last_len) (length text)))"

definition NUM_CHUNKS :: nat where
  "NUM_CHUNKS = 4"

definition PARALLEL_THRESHOLD :: nat where
  "PARALLEL_THRESHOLD = 84 * (2 * TREE_BASE)"

text \<open>The loop that cuts a text into pieces of at most \<open>MAX_BASE\<close> bytes, shared by \<open>push\<close> and \<open>push_large\<close>.\<close>

partial_function (option) cut_pieces :: "str \<Rightarrow> str list option" where
  "cut_pieces text = (if text = [] then Some []
     else do {
       (piece, remainder) \<leftarrow> str_split_at text (back_to_boundary text (min MAX_BASE (length text)));
       pieces \<leftarrow> cut_pieces remainder;
       Some (piece # pieces)
     })"

definition push_large :: "rope \<Rightarrow> str \<Rightarrow> rope option" where
  "push_large t text = do {
     new_chunks \<leftarrow> cut_pieces text;
     chunks \<leftarrow> map_opt chunk_new new_chunks;
     if PARALLEL_THRESHOLD \<le> length new_chunks then tree_par_extend chunk_ops chunks t
     else tree_extend chunk_ops chunks t
   }"

definition rope_push :: "rope \<Rightarrow> str \<Rightarrow> rope option" where
  "rope_push t text = do {
     (t, text) \<leftarrow> update_last_chunk (\<lambda>last_chunk. do {
         split_ix \<leftarrow> push_split (length (ch_text last_chunk)) text;
         (suffix, remainder) \<leftarrow> str_split_at text split_ix;
         last_chunk \<leftarrow> chunk_push_str last_chunk suffix;
         Some (last_chunk, remainder)
       }) text t;
     if text = [] then Some t
     else if NUM_CHUNKS * MAX_BASE - NUM_CHUNKS * 4 < length text then push_large t text
     else do {
       new_chunks \<leftarrow> cut_pieces text;
       rust_assert (length new_chunks \<le> NUM_CHUNKS);
       chunks \<leftarrow> map_opt chunk_new new_chunks;
       tree_extend chunk_ops chunks t
     }
   }"

definition rope_from :: "str \<Rightarrow> rope option" where
  "rope_from text = rope_push rope_new text"

section \<open>Appending\<close>

partial_function (option) forward_in_chunk :: "chunk \<Rightarrow> nat \<Rightarrow> nat option" where
  "forward_in_chunk c i = (if chunk_is_char_boundary c i then Some i else forward_in_chunk c (i + 1))"

definition push_chunk_split :: "nat \<Rightarrow> chunk \<Rightarrow> nat option" where
  "push_chunk_split last_len c = (if last_len + slice_len c \<le> MAX_BASE then Some (slice_len c)
     else forward_in_chunk c (min (MIN_BASE - last_len) (slice_len c)))"

definition push_chunk :: "rope \<Rightarrow> chunk \<Rightarrow> rope option" where
  "push_chunk t c = do {
     (t, c) \<leftarrow> update_last_chunk (\<lambda>last_chunk. do {
         split_ix \<leftarrow> push_chunk_split (length (ch_text last_chunk)) c;
         (suffix, remainder) \<leftarrow> slice_split_at c split_ix;
         last_chunk \<leftarrow> chunk_append last_chunk suffix;
         Some (last_chunk, remainder)
       }) c t;
     if ch_text c \<noteq> [] then do { c \<leftarrow> slice_into c; tree_push chunk_ops c t }
     else Some t
   }"

definition rope_append :: "rope \<Rightarrow> rope \<Rightarrow> rope option" where
  "rope_append t other = do {
     first \<leftarrow> tree_first other;
     case first of
       None \<Rightarrow> tree_append chunk_ops t other
     | Some c \<Rightarrow> do {
         l \<leftarrow> tree_last t;
         if (case l of Some lc \<Rightarrow> length (ch_text lc) < MIN_BASE | None \<Rightarrow> False) \<or> length (ch_text c) < MIN_BASE
         then do {
           t \<leftarrow> push_chunk t c;
           chunks \<leftarrow> cursor_next unit_dim (cursor_new unit_dim other);
           chunks \<leftarrow> cursor_next unit_dim chunks;
           (suffix, _) \<leftarrow> cursor_suffix chunk_ops unit_dim chunks;
           tree_append chunk_ops t suffix
         }
         else tree_append chunk_ops t other
       }
   }"

definition rope_push_front :: "rope \<Rightarrow> str \<Rightarrow> rope option" where
  "rope_push_front t text = (if text = [] then Some t
     else if rope_is_empty t then rope_push t text
     else do {
       first \<leftarrow> tree_first t;
       case first of
         Some c \<Rightarrow>
           if length (ch_text c) + length text \<le> MAX_BASE then do {
             c' \<leftarrow> chunk_prepend_str c text;
             update_first chunk_ops (\<lambda>_. c') t
           } else do { front \<leftarrow> rope_from text; rope_append front t }
       | None \<Rightarrow> do { front \<leftarrow> rope_from text; rope_append front t }
     })"

section \<open>The cursor\<close>

record rope_cursor =
  rc_rope :: rope
  rc_chunks :: "(chunk, chunk_summary, nat) cursor"
  rc_offset :: nat

definition rope_cursor_new :: "rope \<Rightarrow> nat \<Rightarrow> rope_cursor option" where
  "rope_cursor_new t offset = do {
     (_, chunks) \<leftarrow> cursor_seek len_dim (ord_cmp offset) Right (cursor_new len_dim t);
     Some \<lparr>rc_rope = t, rc_chunks = chunks, rc_offset = offset\<rparr>
   }"

definition rope_cursor_seek_forward :: "rope_cursor \<Rightarrow> nat \<Rightarrow> rope_cursor option" where
  "rope_cursor_seek_forward c end_offset = do {
     rust_assert (rc_offset c \<le> end_offset);
     rust_assert (end_offset \<le> rope_len (rc_rope c));
     (_, chunks) \<leftarrow> cursor_seek_forward len_dim (ord_cmp end_offset) Right (rc_chunks c);
     Some (c\<lparr>rc_chunks := chunks, rc_offset := end_offset\<rparr>)
   }"

definition rope_cursor_slice :: "rope_cursor \<Rightarrow> nat \<Rightarrow> (rope \<times> rope_cursor) option" where
  "rope_cursor_slice c end_offset = do {
     rust_assert (rc_offset c \<le> end_offset);
     rust_assert (end_offset \<le> rope_len (rc_rope c));
     let chunks = rc_chunks c;
     item \<leftarrow> cursor_item chunks;
     chunk_end \<leftarrow> cursor_end len_dim chunks;
     slice \<leftarrow> (case item of
         Some start_chunk \<Rightarrow> do {
           rust_assert (cursor_start chunks \<le> rc_offset c);
           let start_ix = rc_offset c - cursor_start chunks;
           let end_ix = min end_offset chunk_end - cursor_start chunks;
           piece \<leftarrow> slice_slice start_chunk start_ix end_ix;
           push_chunk rope_new piece
         }
       | None \<Rightarrow> Some rope_new);
     (slice, chunks) \<leftarrow> (if chunk_end < end_offset then do {
         chunks \<leftarrow> cursor_next len_dim chunks;
         (middle, chunks) \<leftarrow> cursor_slice chunk_ops len_dim (ord_cmp end_offset) Right chunks;
         slice \<leftarrow> rope_append slice middle;
         item \<leftarrow> cursor_item chunks;
         slice \<leftarrow> (case item of
             Some end_chunk \<Rightarrow> do {
               rust_assert (cursor_start chunks \<le> end_offset);
               let end_ix = end_offset - cursor_start chunks;
               piece \<leftarrow> slice_slice end_chunk 0 end_ix;
               push_chunk slice piece
             }
           | None \<Rightarrow> Some slice);
         Some (slice, chunks)
       } else Some (slice, chunks));
     Some (slice, c\<lparr>rc_chunks := chunks, rc_offset := end_offset\<rparr>)
   }"

definition rope_cursor_suffix :: "rope_cursor \<Rightarrow> rope option" where
  "rope_cursor_suffix c = do {
     (suffix, _) \<leftarrow> rope_cursor_slice c (extent len_dim (rc_rope c));
     Some suffix
   }"

section \<open>Slicing and replacing\<close>

definition rope_slice :: "rope \<Rightarrow> nat \<Rightarrow> nat \<Rightarrow> rope option" where
  "rope_slice t start stop = do {
     c \<leftarrow> rope_cursor_new t 0;
     c \<leftarrow> rope_cursor_seek_forward c start;
     (s, _) \<leftarrow> rope_cursor_slice c stop;
     Some s
   }"

definition rope_replace :: "rope \<Rightarrow> nat \<Rightarrow> nat \<Rightarrow> str \<Rightarrow> rope option" where
  "rope_replace t start stop text = do {
     c \<leftarrow> rope_cursor_new t 0;
     (prefix, c) \<leftarrow> rope_cursor_slice c start;
     new_rope \<leftarrow> rope_append rope_new prefix;
     c \<leftarrow> rope_cursor_seek_forward c stop;
     new_rope \<leftarrow> rope_push new_rope text;
     suffix \<leftarrow> rope_cursor_suffix c;
     rope_append new_rope suffix
   }"

end
