(* ===== verification/Rope_Props.thy ===== *)
theory Rope_Props
  imports Rope
begin

text \<open>
  What the rope operations do to the text. Every operation is related to the concatenation of the texts of the
  chunks; none of them panics on valid arguments.
\<close>

section \<open>The invariant\<close>

lemma base_sizes: "MAX_BASE = 128" "MIN_BASE = 64"
  by (simp_all add: MAX_BASE_def MIN_BASE_def)

definition rope_ok :: "rope \<Rightarrow> bool" where
  "rope_ok t \<longleftrightarrow> wf_tree chunk_ops t \<and> (\<forall>c \<in> set (tree_items t). chunk_ok c)"

definition chunks_text :: "chunk list \<Rightarrow> str" where
  "chunks_text cs = concat (map ch_text cs)"

definition rope_text :: "rope \<Rightarrow> str" where
  "rope_text t = chunks_text (tree_items t)"

text \<open>What \<open>check_invariants\<close> asserts: only the last chunk may be small.\<close>

definition thick :: "chunk list \<Rightarrow> bool" where
  "thick cs \<longleftrightarrow> (\<forall>c \<in> set cs. MIN_BASE \<le> length (ch_text c) + 3)"

definition filled :: "chunk list \<Rightarrow> bool" where
  "filled cs \<longleftrightarrow> thick (butlast cs)"

lemma chunks_text_simps [simp]:
  "chunks_text [] = []" "chunks_text (c # cs) = ch_text c @ chunks_text cs" "chunks_text (cs @ ds) = chunks_text cs @ chunks_text ds"
  by (simp_all add: chunks_text_def)

lemma thick_simps [simp]:
  "thick []" "thick (c # cs) \<longleftrightarrow> MIN_BASE \<le> length (ch_text c) + 3 \<and> thick cs" "thick (cs @ ds) \<longleftrightarrow> thick cs \<and> thick ds"
  by (auto simp: thick_def)

lemma filled_simps [simp]: "filled []" "filled [c]" "filled (cs @ [c]) \<longleftrightarrow> thick cs"
  by (simp_all add: filled_def)

lemma filled_append: "ds \<noteq> [] \<Longrightarrow> filled (cs @ ds) \<longleftrightarrow> thick cs \<and> filled ds"
  by (simp add: filled_def butlast_append)

lemma thick_filled: "thick cs \<Longrightarrow> filled cs"
  by (auto simp: filled_def thick_def dest: in_set_butlastD)

lemma chunks_text_valid: "\<forall>c \<in> set cs. chunk_ok c \<Longrightarrow> valid_utf8 (chunks_text cs)"
  by (induction cs) (auto simp: valid_utf8_append chunk_ok_def)

lemma rope_text_valid: "rope_ok t \<Longrightarrow> valid_utf8 (rope_text t)"
  using chunks_text_valid by (auto simp: rope_ok_def rope_text_def)

lemma rope_new_ok: "rope_ok rope_new" "rope_text rope_new = []" "tree_items rope_new = []" "height rope_new = 0"
  by (simp_all add: rope_ok_def rope_text_def rope_new_def tree_new_def summary_sum_def)

text \<open>The cached summary is the summary of the text.\<close>

lemma sum_chunks: "\<forall>c \<in> set cs. chunk_ok c \<Longrightarrow> cs_text (summary_sum chunk_ops (map chunk_summary_of cs)) = summary_of (chunks_text cs)"
proof (induction cs rule: rev_induct)
  case Nil
  have "summary_of [] = summary_zero" by (simp add: summary_of_def summary_zero_def point_zero_def row_chars_def last_line_def newlines_def)
  then show ?case by (simp add: summary_sum_def chunk_ops_def chunk_summary_zero.rep_eq)
next
  case (snoc c cs)
  then show ?case
    by (simp add: summary_sum_def chunk_ops_def chunk_summary_add.rep_eq chunk_summary_of.rep_eq slice_text_summary_correct summary_of_append)
qed

lemma rope_summary_correct: "rope_ok t \<Longrightarrow> rope_summary t = summary_of (rope_text t)"
  using ch.summary_items [of t] sum_chunks [of "tree_items t"]
  by (simp add: rope_summary_def rope_text_def rope_ok_def chunk_ops_def)

lemma rope_len_correct: "rope_ok t \<Longrightarrow> rope_len t = length (rope_text t)"
  using rope_summary_correct [of t] by (simp add: rope_len_def extent_def len_dim_def rope_summary_def summary_of_def)

section \<open>Boundaries\<close>

lemma concat_boundary: "valid_utf8 b \<Longrightarrow> str_is_char_boundary (a @ b) (length a)"
  using valid_hd [of b] by (cases b) (auto simp: str_is_char_boundary_def nth_append)

lemma boundary_shift:
  assumes "valid_utf8 b" "j \<le> length b"
  shows "str_is_char_boundary (a @ b) (length a + j) \<longleftrightarrow> str_is_char_boundary b j"
  using row_boundary_iff [of a b "[]" j] concat_boundary [OF assms(1), of a] assms(2) by (simp add: str_is_char_boundary_def)

text \<open>Characters have at most four bytes.\<close>

lemma boundary_near:
  assumes "valid_utf8 s" "i \<le> length s"
  shows "\<exists>j. i \<le> j \<and> j \<le> i + 3 \<and> str_is_char_boundary s j" "\<exists>j \<le> i. i \<le> j + 3 \<and> str_is_char_boundary s j"
proof -
  have "(\<exists>j. i \<le> j \<and> j \<le> i + 3 \<and> str_is_char_boundary (concat cs) j) \<and> (\<exists>j \<le> i. i \<le> j + 3 \<and> str_is_char_boundary (concat cs) j)"
    if "\<forall>c \<in> set cs. valid_char c" "i \<le> length (concat cs)" for cs i
    using that
  proof (induction cs arbitrary: i)
    case Nil
    then show ?case by (auto simp: str_is_char_boundary_def)
  next
    case (Cons c cs)
    have c: "length c \<le> 4" using Cons.prems(1) by (auto simp: valid_char_def utf8_len_def split: list.splits if_splits)
    have v: "valid_utf8 (concat cs)" using Cons.prems(1) by (intro valid_utf8_concat) simp
    have z: "str_is_char_boundary (concat (c # cs)) 0" "str_is_char_boundary (concat (c # cs)) (length c)"
      using concat_boundary [OF v, of c] by (simp_all add: str_is_char_boundary_def)
    show ?case
    proof (cases "i < length c")
      case True
      then show ?thesis using z c by (cases "i = 0") (auto intro: exI [of _ "length c"] exI [of _ 0])
    next
      case False
      then obtain j k where "i - length c \<le> j" "j \<le> i - length c + 3" "str_is_char_boundary (concat cs) j"
        "k \<le> i - length c" "i - length c \<le> k + 3" "str_is_char_boundary (concat cs) k"
        using Cons.IH [of "i - length c"] Cons.prems by (metis concat.simps(2) le_diff_conv2 length_append diff_le_mono diff_add_inverse list.set_intros(2))
      with False boundary_shift [OF v] boundary_le show ?thesis
        by (intro conjI exI [of _ "length c + j"] exI [of _ "length c + k"]) auto
    qed
  qed
  with assms show "\<exists>j. i \<le> j \<and> j \<le> i + 3 \<and> str_is_char_boundary s j" "\<exists>j \<le> i. i \<le> j + 3 \<and> str_is_char_boundary s j"
    by (metis valid_utf8E)+
qed

text \<open>Where a text is cut that is pushed behind a chunk of \<open>a\<close> bytes.\<close>

definition cut_at :: "nat \<Rightarrow> str \<Rightarrow> nat \<Rightarrow> bool" where
  "cut_at a s k \<longleftrightarrow> str_is_char_boundary s k \<and> a + k \<le> 128 \<and>
     (if a + length s \<le> 128 then k = length s else if a < 64 then 64 \<le> a + k \<and> k + 62 \<le> length s else k = 0)"

lemma cut_at_forward:
  assumes "valid_utf8 s" "a \<le> 128" "128 < a + length s" "forward_to_boundary s (min (64 - a) (length s)) = Some k"
  shows "cut_at a s k"
proof -
  let ?i = "min (64 - a) (length s)"
  have k: "str_is_char_boundary s k" "?i \<le> k" "\<forall>j \<ge> ?i. str_is_char_boundary s j \<longrightarrow> k \<le> j"
    using forward_to_boundary_correct [of ?i s] assms(4) by auto
  obtain j where "?i \<le> j" "j \<le> ?i + 3" "str_is_char_boundary s j" using boundary_near(1) [OF assms(1), of ?i] by auto
  then have "k \<le> ?i + 3" using k(3) by (meson le_trans)
  moreover have "64 \<le> a \<Longrightarrow> k = 0" using k(3) by (auto simp: str_is_char_boundary_def)
  ultimately show ?thesis using k(1,2) assms(2,3) by (auto simp: cut_at_def min_def split: if_splits)
qed

lemma push_split_correct:
  assumes "valid_utf8 s" "a \<le> 128"
  shows "\<exists>k. push_split a s = Some k \<and> cut_at a s k"
proof (cases "a + length s \<le> 128")
  case True
  then show ?thesis by (simp add: push_split_def MAX_BASE_def cut_at_def str_is_char_boundary_def)
next
  case False
  then have far: "128 < a + length s" by simp
  obtain k where "forward_to_boundary s (min (64 - a) (length s)) = Some k"
    using forward_to_boundary_correct [of "min (64 - a) (length s)" s] by auto
  with False cut_at_forward [OF assms far this] show ?thesis by (simp add: push_split_def base_sizes)
qed

section \<open>Pushing\<close>

lemma update_last_chunk_correct:
  assumes "wf_tree chunk_ops t"
  shows "tree_items t = [] \<Longrightarrow> \<exists>t'. update_last_chunk f r t = Some (t', r) \<and> wf_tree chunk_ops t' \<and> height t' = height t \<and> tree_items t' = []"
    and "tree_items t = cs @ [c] \<Longrightarrow> f c = Some (d, r') \<Longrightarrow>
      \<exists>t'. update_last_chunk f r t = Some (t', r') \<and> wf_tree chunk_ops t' \<and> height t' = height t \<and> tree_items t' = cs @ [d]"
  using ch.tree_last_correct [OF assms] ch.update_last_correct [OF assms, of "\<lambda>_. chunk_default"] ch.update_last_correct [OF assms, of "\<lambda>_. d"]
  by (auto simp: update_last_chunk_def last_opt_def)

text \<open>The text that goes to the last chunk and the rest; \<open>push\<close> and \<open>push_chunk\<close> agree up to here.\<close>

definition pushed :: "rope \<Rightarrow> str \<Rightarrow> rope \<Rightarrow> str \<Rightarrow> bool" where
  "pushed t s t' rest \<longleftrightarrow> rope_ok t' \<and> height t' = height t \<and> valid_utf8 rest \<and> length rest \<le> length s \<and> rope_text t @ s = rope_text t' @ rest \<and>
     (filled (tree_items t) \<longrightarrow> (if rest = [] then filled (tree_items t') else thick (tree_items t'))) \<and>
     (filled (tree_items t) \<and> MIN_BASE \<le> length s + 3 \<longrightarrow> (if rest = [] then thick (tree_items t') else MIN_BASE \<le> length rest + 3))"

lemma update_last_pushed:
  assumes t: "rope_ok t" and s: "valid_utf8 s" "g r = s" "Q r"
    and f: "\<And>c. chunk_ok c \<Longrightarrow> \<exists>k d r. cut_at (length (ch_text c)) s k \<and> f c = Some (d, r) \<and> chunk_ok d \<and>
      ch_text d = ch_text c @ take k s \<and> g r = drop k s \<and> Q r"
  shows "\<exists>t' r'. update_last_chunk f r t = Some (t', r') \<and> pushed t s t' (g r') \<and> Q r'"
proof (cases "tree_items t" rule: rev_cases)
  case Nil
  then obtain t' where t': "update_last_chunk f r t = Some (t', r)" "wf_tree chunk_ops t'" "height t' = height t" "tree_items t' = []"
    using update_last_chunk_correct(1) [of t f r] t by (auto simp: rope_ok_def)
  have "pushed t s t' s" using t' Nil s by (simp add: pushed_def rope_ok_def rope_text_def)
  with t'(1) s show ?thesis by blast
next
  case (snoc cs c)
  have c: "chunk_ok c" "length (ch_text c) \<le> 128" using t snoc by (auto simp: rope_ok_def chunk_ok_def)
  obtain k d r' where k: "cut_at (length (ch_text c)) s k" and d: "f c = Some (d, r')" "chunk_ok d" "ch_text d = ch_text c @ take k s" "g r' = drop k s" "Q r'"
    using f [OF c(1)] by blast
  have kb: "str_is_char_boundary s k" "k \<le> length s" using k boundary_le by (auto simp: cut_at_def)
  obtain t' where t': "update_last_chunk f r t = Some (t', r')" "wf_tree chunk_ops t'" "height t' = height t" "tree_items t' = cs @ [d]"
    using update_last_chunk_correct(2) [where f = f and c = c, OF _ snoc d(1), of r] t by (auto simp: rope_ok_def)
  have "pushed t s t' (drop k s)"
    unfolding pushed_def
  proof (intro conjI impI)
    show "rope_ok t'" using t' d(2) t snoc by (auto simp: rope_ok_def)
    show "valid_utf8 (drop k s)" using valid_split(2) [OF s(1) kb(1)] .
    show "rope_text t @ s = rope_text t' @ drop k s" using t'(4) snoc d(3) by (simp add: rope_text_def)
    have len: "length (ch_text d) = length (ch_text c) + k" using d(3) kb(2) by simp
    show "filled (tree_items t) \<Longrightarrow> if drop k s = [] then filled (tree_items t') else thick (tree_items t')"
      using k len t'(4) snoc by (auto simp: cut_at_def base_sizes split: if_splits)
    show "filled (tree_items t) \<and> MIN_BASE \<le> length s + 3 \<Longrightarrow> if drop k s = [] then thick (tree_items t') else MIN_BASE \<le> length (drop k s) + 3"
      using k len t'(4) snoc by (auto simp: cut_at_def base_sizes split: if_splits)
  qed (use t'(3) in simp_all)
  with t'(1) d(4,5) show ?thesis by auto
qed

lemma forward_in_chunk_eq:
  "chunk_ok c \<Longrightarrow> i \<le> length (ch_text c) \<Longrightarrow> forward_in_chunk c i = forward_to_boundary (ch_text c) i"
proof (induction "length (ch_text c) - i" arbitrary: i rule: less_induct)
  case less
  have b: "chunk_is_char_boundary c i \<longleftrightarrow> str_is_char_boundary (ch_text c) i"
    using chunk_boundary_iff [OF less.prems(1), of i] chunk_okD(1) [OF less.prems(1)] less.prems(2) by simp
  show ?case
  proof (cases "str_is_char_boundary (ch_text c) i")
    case False
    then have "i \<noteq> length (ch_text c)" by (auto simp: str_is_char_boundary_def)
    then have "length (ch_text c) - Suc i < length (ch_text c) - i" "Suc i \<le> length (ch_text c)" using less.prems(2) by auto
    from less.hyps [OF this(1) less.prems(1) this(2)] False b show ?thesis
      by (simp add: forward_in_chunk.simps [of c i] forward_to_boundary.simps [of _ i])
  qed (simp add: b forward_in_chunk.simps [of c i] forward_to_boundary.simps [of _ i])
qed

lemma push_chunk_split_correct: "chunk_ok c \<Longrightarrow> push_chunk_split a c = push_split a (ch_text c)"
  by (simp add: push_chunk_split_def push_split_def slice_len_def forward_in_chunk_eq)

lemma push_chunk_correct:
  assumes "rope_ok t" "chunk_ok c" "height t < 255"
  shows "\<exists>t'. push_chunk t c = Some t' \<and> rope_ok t' \<and> rope_text t' = rope_text t @ ch_text c \<and> height t' \<le> Suc (height t) \<and>
    (filled (tree_items t) \<longrightarrow> filled (tree_items t')) \<and> (filled (tree_items t) \<and> MIN_BASE \<le> length (ch_text c) + 3 \<longrightarrow> thick (tree_items t'))"
proof -
  let ?f = "\<lambda>last_chunk. do {
         split_ix \<leftarrow> push_chunk_split (length (ch_text last_chunk)) c;
         (suffix, remainder) \<leftarrow> slice_split_at c split_ix;
         last_chunk \<leftarrow> chunk_append last_chunk suffix;
         Some (last_chunk, remainder)
       }"
  note ok = chunk_okD [OF assms(2)]
  have step: "\<exists>k d r. cut_at (length (ch_text l)) (ch_text c) k \<and> ?f l = Some (d, r) \<and> chunk_ok d \<and>
      ch_text d = ch_text l @ take k (ch_text c) \<and> ch_text r = drop k (ch_text c) \<and> chunk_ok r" if l: "chunk_ok l" for l
  proof -
    obtain k where k: "push_split (length (ch_text l)) (ch_text c) = Some k" "cut_at (length (ch_text l)) (ch_text c) k"
      using push_split_correct [OF ok(2)] chunk_okD(1) [OF l] by blast
    obtain x y where xy: "slice_split_at c k = Some (x, y)" "chunk_ok x" "chunk_ok y" "ch_text x = take k (ch_text c)" "ch_text y = drop k (ch_text c)"
      using slice_split_at_correct [OF assms(2), of k] k(2) by (auto simp: cut_at_def)
    obtain e where e: "chunk_append l x = Some e" "chunk_ok e" "ch_text e = ch_text l @ ch_text x"
      using chunk_append_correct [OF l xy(2)] k(2) xy(4) boundary_le [of "ch_text c" k] by (auto simp: cut_at_def)
    have "?f l = Some (e, y)" using k(1) xy(1) e(1) push_chunk_split_correct [OF assms(2)] by simp
    with k(2) xy e show ?thesis by auto
  qed
  have "\<exists>t1 d. update_last_chunk ?f c t = Some (t1, d) \<and> pushed t (ch_text c) t1 (ch_text d) \<and> chunk_ok d"
    by (rule update_last_pushed [where g = ch_text and Q = chunk_ok, OF assms(1) ok(2) refl assms(2)]) (rule step)
  then obtain t1 d where t1: "update_last_chunk ?f c t = Some (t1, d)" "pushed t (ch_text c) t1 (ch_text d)" "chunk_ok d" by blast
  have t1': "rope_ok t1" "height t1 = height t" using t1(2) by (simp_all add: pushed_def)
  show ?thesis
  proof (cases "ch_text d = []")
    case True
    then show ?thesis using t1 by (auto simp: push_chunk_def pushed_def)
  next
    case False
    have "slice_into d = Some d" using chunk_okD(1) [OF t1(3)] by (simp add: slice_into_def MAX_BASE_def)
    moreover obtain t2 where t2: "tree_push chunk_ops d t1 = Some t2" "wf_tree chunk_ops t2" "tree_items t2 = tree_items t1 @ [d]" "height t2 \<le> Suc (height t1)"
      using ch.push_correct [of t1 d] t1' assms(3) by (auto simp: rope_ok_def)
    ultimately have eq: "push_chunk t c = Some t2" using t1(1) False by (simp add: push_chunk_def)
    have "rope_ok t2" using t2 t1' t1(3) by (auto simp: rope_ok_def)
    moreover have "rope_text t2 = rope_text t1 @ ch_text d" using t2(3) by (simp add: rope_text_def)
    ultimately show ?thesis using eq t1(2) t2(3,4) t1'(2) False by (auto simp: pushed_def)
  qed
qed

section \<open>Cutting a text into chunks\<close>

lemma cut_pieces_correct:
  "valid_utf8 s \<Longrightarrow> \<exists>ps. cut_pieces s = Some ps \<and> concat ps = s \<and> (\<forall>p \<in> set ps. valid_utf8 p \<and> length p \<le> 128 \<and> p \<noteq> []) \<and>
     (\<forall>p \<in> set (butlast ps). 125 \<le> length p)"
proof (induction "length s" arbitrary: s rule: less_induct)
  case less
  show ?case
  proof (cases "s = []")
    case False
    let ?i = "min 128 (length s)"
    let ?k = "back_to_boundary s ?i"
    note bk = back_to_boundary_correct [of s ?i]
    obtain j where "j \<le> ?i" "?i \<le> j + 3" "str_is_char_boundary s j" using boundary_near(2) [OF less.prems, of ?i] by auto
    then have near: "?i \<le> ?k + 3" using bk by (meson add_le_mono1 order_trans)
    have whole: "length s \<le> 128 \<Longrightarrow> ?k = length s" using bk by (auto simp: str_is_char_boundary_def intro: le_antisym)
    have "0 < length s" using False by simp
    then have k: "0 < ?k" "?k \<le> 128" "?k \<le> length s" "128 < length s \<Longrightarrow> 125 \<le> ?k" using near whole bk by (cases "length s \<le> 128", simp_all)+
    have v: "valid_utf8 (take ?k s)" "valid_utf8 (drop ?k s)" using valid_split [OF less.prems] bk by blast+
    obtain ps where ps: "cut_pieces (drop ?k s) = Some ps" "concat ps = drop ?k s" "\<forall>p \<in> set ps. valid_utf8 p \<and> length p \<le> 128 \<and> p \<noteq> []"
      "\<forall>p \<in> set (butlast ps). 125 \<le> length p"
      using less.hyps [OF _ v(2)] k(1) \<open>0 < length s\<close> by auto
    have nil: "length s \<le> 128 \<Longrightarrow> ps = []" using ps(2,3) whole by (cases ps) auto
    have "cut_pieces s = Some (take ?k s # ps)"
      using False ps(1) bk by (subst cut_pieces.simps) (simp add: str_split_at_def MAX_BASE_def)
    moreover have "\<forall>p \<in> set (butlast (take ?k s # ps)). 125 \<le> length p"
      using ps(4) k(3,4) nil by (cases "length s \<le> 128") (auto simp: min_def)
    ultimately show ?thesis using ps(2,3) v(1) k by auto
  qed (simp add: cut_pieces.simps)
qed

lemma pieces_count: "\<forall>p \<in> set ps. p \<noteq> [] \<Longrightarrow> \<forall>p \<in> set (butlast ps). 125 \<le> length p \<Longrightarrow> ps \<noteq> [] \<Longrightarrow>
    125 * (length ps - 1) < length (concat ps)"
proof (induction ps)
  case (Cons p ps)
  then show ?case by (cases "ps = []") (auto simp: Suc_le_eq neq_Nil_conv)
qed simp

lemma chunks_of_pieces:
  "\<forall>p \<in> set ps. valid_utf8 p \<and> length p \<le> 128 \<Longrightarrow>
    \<exists>cs. map_opt chunk_new ps = Some cs \<and> map ch_text cs = ps \<and> (\<forall>c \<in> set cs. chunk_ok c)"
proof (induction ps)
  case (Cons p ps)
  then obtain cs where "map_opt chunk_new ps = Some cs" "map ch_text cs = ps" "\<forall>c \<in> set cs. chunk_ok c" by auto
  moreover obtain c where "chunk_new p = Some c" "chunk_ok c" "ch_text c = p" using chunk_new_correct [of p] Cons.prems by auto
  ultimately show ?case by auto
qed simp

lemma cut_chunks:
  assumes "valid_utf8 s"
  shows "\<exists>ps cs. cut_pieces s = Some ps \<and> map_opt chunk_new ps = Some cs \<and> (\<forall>c \<in> set cs. chunk_ok c) \<and> chunks_text cs = s \<and>
    filled cs \<and> length ps \<le> length s \<and> length cs = length ps \<and> (length s \<le> 496 \<longrightarrow> length ps \<le> NUM_CHUNKS)"
proof -
  obtain ps where ps: "cut_pieces s = Some ps" "concat ps = s" "\<forall>p \<in> set ps. valid_utf8 p \<and> length p \<le> 128 \<and> p \<noteq> []"
    "\<forall>p \<in> set (butlast ps). 125 \<le> length p" using cut_pieces_correct [OF assms] by blast
  obtain cs where cs: "map_opt chunk_new ps = Some cs" "map ch_text cs = ps" "\<forall>c \<in> set cs. chunk_ok c"
    using chunks_of_pieces [of ps] ps(3) by auto
  have "thick (butlast cs)" using ps(4) unfolding cs(2) [symmetric] by (auto simp: thick_def base_sizes simp flip: map_butlast)
  moreover have "length cs = length ps" unfolding cs(2) [symmetric] by simp
  moreover have "ps \<noteq> [] \<Longrightarrow> 125 * (length ps - 1) < length s" using pieces_count [of ps] ps(2-4) by simp
  ultimately show ?thesis using ps(1,2) cs
    by (cases "ps = []") (auto simp: filled_def chunks_text_def NUM_CHUNKS_def)
qed

lemma rope_push_correct:
  assumes "rope_ok t" "valid_utf8 s" "height t < 255" "length s \<le> (2 * TREE_BASE) ^ Suc j" "j < 255"
  shows "\<exists>t'. rope_push t s = Some t' \<and> rope_ok t' \<and> rope_text t' = rope_text t @ s \<and> height t' \<le> Suc (max (height t) j) \<and>
    (filled (tree_items t) \<longrightarrow> filled (tree_items t'))"
proof -
  let ?f = "\<lambda>last_chunk. do {
         split_ix \<leftarrow> push_split (length (ch_text last_chunk)) s;
         (suffix, remainder) \<leftarrow> str_split_at s split_ix;
         last_chunk \<leftarrow> chunk_push_str last_chunk suffix;
         Some (last_chunk, remainder)
       }"
  have step: "\<exists>k d r. cut_at (length (ch_text l)) s k \<and> ?f l = Some (d, r) \<and> chunk_ok d \<and>
      ch_text d = ch_text l @ take k s \<and> r = drop k s \<and> True" if l: "chunk_ok l" for l
  proof -
    obtain k where k: "push_split (length (ch_text l)) s = Some k" "cut_at (length (ch_text l)) s k"
      using push_split_correct [OF assms(2)] chunk_okD(1) [OF l] by blast
    have b: "str_is_char_boundary s k" "length (ch_text l) + k \<le> 128" using k(2) by (simp_all add: cut_at_def)
    obtain e where e: "chunk_push_str l (take k s) = Some e" "chunk_ok e" "ch_text e = ch_text l @ take k s"
      using chunk_push_str_correct [OF l valid_split(1) [OF assms(2) b(1)]] b(2) boundary_le [OF b(1)] by auto
    with k b(1) show ?thesis by (auto simp: str_split_at_def)
  qed
  have "\<exists>t1 r. update_last_chunk ?f s t = Some (t1, r) \<and> pushed t s t1 r \<and> True"
    by (rule update_last_pushed [where g = "\<lambda>r. r" and Q = "\<lambda>_. True", OF assms(1,2) refl TrueI]) (rule step)
  then obtain t1 r where t1: "update_last_chunk ?f s t = Some (t1, r)" "pushed t s t1 r" by blast
  have p: "rope_ok t1" "height t1 = height t" "valid_utf8 r" "rope_text t @ s = rope_text t1 @ r" using t1(2) by (simp_all add: pushed_def)
  show ?thesis
  proof (cases "r = []")
    case True
    then show ?thesis using t1 p by (auto simp: rope_push_def pushed_def)
  next
    case False
    obtain ps cs where cs: "cut_pieces r = Some ps" "map_opt chunk_new ps = Some cs" "\<forall>c \<in> set cs. chunk_ok c" "chunks_text cs = r"
      "filled cs" "length ps \<le> length r" "length cs = length ps" "length r \<le> 496 \<longrightarrow> length ps \<le> NUM_CHUNKS"
      using cut_chunks [OF p(3)] by blast
    have "length r \<le> length s" using t1(2) by (simp add: pushed_def)
    then have "length cs \<le> (2 * TREE_BASE) ^ Suc j" using cs(6,7) assms(4) by linarith
    then obtain t2 where t2: "tree_extend chunk_ops cs t1 = Some t2" "wf_tree chunk_ops t2" "tree_items t2 = tree_items t1 @ cs"
      "height t2 \<le> Suc (max (height t1) j)"
      using ch.extend_correct [of t1 cs j] p(1,2) assms(3,5) by (auto simp: rope_ok_def)
    have eq: "rope_push t s = Some t2"
      using t1(1) False cs t2(1) [unfolded tree_extend_def] by (simp add: rope_push_def push_large_def tree_par_extend_def ch.from_par_iter_eq tree_extend_def NUM_CHUNKS_def MAX_BASE_def)
    have "rope_ok t2" "rope_text t2 = rope_text t1 @ r" using t2 p(1) cs(3,4) by (auto simp: rope_ok_def rope_text_def)
    moreover have "filled (tree_items t) \<Longrightarrow> filled (tree_items t2)"
      using t1(2) t2(3) False cs(4,5) by (cases "cs = []") (auto simp: pushed_def filled_append)
    ultimately show ?thesis using eq p t2(4) by auto
  qed
qed

end
