(* ===== verification/Summary_Width.thy ===== *)
theory Summary_Width
  imports Rope_Props
begin

text \<open>
  The 32-bit counters of \<open>TextSummary\<close> and \<open>Point\<close> (\<open>crates/rope/src/rope.rs\<close>, \<open>point.rs\<close>) with the wrap-around of a release build
  written out, and the reason why the rope may be modelled with natural numbers: on texts of fewer than \<open>2 ^ 32\<close>
  bytes no addition of two counters wraps, so every summary cached in the tree, every position summed up by a
  search and every scan of a text has the value the natural numbers give. Longer texts do wrap, and the comparisons of the
  longest rows then differ; the properties of rows and columns assume the bound.
\<close>

section \<open>Wrapping operations\<close>

definition wrap32 :: "nat \<Rightarrow> nat" where
  "wrap32 n = n mod 2 ^ 32"

definition point_add_assign_u32 :: "nat point \<Rightarrow> nat point \<Rightarrow> nat point" where
  "point_add_assign_u32 self other = (if row other = 0 then self\<lparr>column := wrap32 (column self + column other)\<rparr>
     else self\<lparr>row := wrap32 (row self + row other), column := column other\<rparr>)"

definition summary_add_u32 :: "text_summary \<Rightarrow> text_summary \<Rightarrow> text_summary" where
  "summary_add_u32 s t =
     (let joined_chars = wrap32 (ts_last_line_chars s + ts_first_line_chars t);
          s = (if ts_longest_row_chars s < joined_chars
               then s\<lparr>ts_longest_row := row (ts_lines s), ts_longest_row_chars := joined_chars\<rparr> else s);
          s = (if ts_longest_row_chars s < ts_longest_row_chars t
               then s\<lparr>ts_longest_row := wrap32 (row (ts_lines s) + ts_longest_row t), ts_longest_row_chars := ts_longest_row_chars t\<rparr> else s);
          s = (if row (ts_lines s) = 0 then s\<lparr>ts_first_line_chars := wrap32 (ts_first_line_chars s + ts_first_line_chars t)\<rparr> else s);
          s = (if row (ts_lines t) = 0
               then s\<lparr>ts_last_line_chars := wrap32 (ts_last_line_chars s + ts_first_line_chars t),
                      ts_last_line_len_utf16 := wrap32 (ts_last_line_len_utf16 s + ts_last_line_len_utf16 t)\<rparr>
               else s\<lparr>ts_last_line_chars := ts_last_line_chars t, ts_last_line_len_utf16 := ts_last_line_len_utf16 t\<rparr>)
      in s\<lparr>ts_chars := ts_chars s + ts_chars t, ts_len := ts_len s + ts_len t,
           ts_len_utf16 := ts_len_utf16 s + ts_len_utf16 t, ts_lines := point_add_assign_u32 (ts_lines s) (ts_lines t)\<rparr>)"

definition summary_char_u32 :: "text_summary \<Rightarrow> str \<Rightarrow> text_summary" where
  "summary_char_u32 s c =
     (let s = s\<lparr>ts_chars := ts_chars s + 1, ts_len_utf16 := ts_len_utf16 s + char_len_utf16 c\<rparr>;
          s = (if c = newline then s\<lparr>ts_lines := point_add_assign_u32 (ts_lines s) (Point 1 0), ts_last_line_len_utf16 := 0, ts_last_line_chars := 0\<rparr>
               else s\<lparr>ts_lines := (ts_lines s)\<lparr>column := wrap32 (column (ts_lines s) + wrap32 (length c))\<rparr>,
                      ts_last_line_len_utf16 := wrap32 (ts_last_line_len_utf16 s + wrap32 (char_len_utf16 c)),
                      ts_last_line_chars := wrap32 (ts_last_line_chars s + 1)\<rparr>);
          s = (if row (ts_lines s) = 0 then s\<lparr>ts_first_line_chars := ts_last_line_chars s\<rparr> else s)
      in if ts_longest_row_chars s < ts_last_line_chars s
         then s\<lparr>ts_longest_row := row (ts_lines s), ts_longest_row_chars := ts_last_line_chars s\<rparr> else s)"

definition summary_from_str_u32 :: "str \<Rightarrow> text_summary" where
  "summary_from_str_u32 s = (foldl summary_char_u32 summary_zero (str_chars s))\<lparr>ts_len := length s\<rparr>"

text \<open>The summaries cached in a tree, as the wrapping addition computes them from the children.\<close>

fun cached_u32 :: "rope \<Rightarrow> bool" where
  "cached_u32 (Leaf s is ss) \<longleftrightarrow> cs_text s = foldl summary_add_u32 summary_zero (map cs_text ss)"
| "cached_u32 (Internal h s cs ts) \<longleftrightarrow> cs_text s = foldl summary_add_u32 summary_zero (map cs_text cs) \<and> (\<forall>t \<in> set ts. cached_u32 t)"

section \<open>Counters of short texts\<close>

lemma wrap32_id [simp]: "n < 2 ^ 32 \<Longrightarrow> wrap32 n = n"
  by (simp add: wrap32_def)

lemma nchars_le: "nchars s \<le> length s"
  by (simp add: nchars_def)

lemma nutf16_le:
  assumes "valid_utf8 s"
  shows "nutf16 s \<le> length s"
proof -
  obtain cs where cs: "s = concat cs" "\<forall>c \<in> set cs. valid_char c" using assms by (rule valid_utf8E)
  have "nutf16 c \<le> length c" if "valid_char c" for c
  proof (cases c)
    case (Cons b bs)
    have "240 \<le> b \<Longrightarrow> utf8_len b = 4" by (auto simp: utf8_len_def word_le_nat_alt word_less_nat_alt)
    then show ?thesis using that nutf16_char [OF that] Cons by (auto simp: valid_char_def char_len_utf16_def)
  qed (use that in \<open>simp add: valid_char_def\<close>)
  then have "nutf16 (concat cs) \<le> length (concat cs)" using cs(2) by (induction cs) (auto intro: add_mono)
  then show ?thesis by (simp add: cs(1))
qed

lemma row_le_text: "r \<le> newlines s \<Longrightarrow> length (split_newline s ! r) \<le> length s"
proof -
  assume "r \<le> newlines s"
  then obtain a b where "s = a @ split_newline s ! r @ b" using row_split by blast
  from arg_cong [OF this, of length] show ?thesis by simp
qed

lemma last_line_le: "length (last_line s) \<le> length s"
  using row_le_text [of "newlines s" s] last_conv_nth [of "split_newline s"] by (simp add: newlines_def last_line_def)

lemma first_line_le: "length (hd (split_newline s)) \<le> length s"
  using row_le_text [of 0 s] by (simp add: hd_conv_nth)

lemma newlines_le: "newlines s \<le> length s"
  by (simp add: newlines_count)

lemma longest_row_less: "l < r + length xs \<Longrightarrow> fst (longest xs r (l, m)) < r + length xs"
proof (induction xs arbitrary: r l m)
  case (Cons x xs)
  from Cons.IH [of r "Suc r" x] Cons.IH [of l "Suc r" m] Cons.prems show ?case by simp
qed simp

lemma longest_row_le: "fst (longest (row_chars s) 0 (0, 0)) \<le> newlines s"
  using longest_row_less [of 0 0 "row_chars s" 0] by (simp add: row_chars_def newlines_def)

text \<open>The rows of a valid text are valid.\<close>

lemma valid_rows:
  assumes "valid_utf8 s" "r \<le> newlines s"
  shows "valid_utf8 (split_newline s ! r)"
proof -
  obtain a b where s: "s = a @ split_newline s ! r @ b" "last_line a = []" "b = [] \<or> hd b = 10" "10 \<notin> set (split_newline s ! r)"
    using row_split [OF assms(2)] by blast
  define l where "l = split_newline s ! r"
  note s' = s [folded l_def]
  have bd: "str_is_char_boundary (a @ l @ b) (length a)" "str_is_char_boundary (a @ l @ b) (length a + length l)"
    using row_boundaries [of a l b] assms(1) s' by simp_all
  have v: "valid_utf8 (a @ l @ b)" using assms(1) s'(1) by simp
  have "valid_utf8 a" "valid_utf8 (a @ l)" using valid_split(1) [OF v bd(1)] valid_split(1) [OF v bd(2)] by simp_all
  moreover have "valid_utf8 (l @ b)" using valid_split(2) [OF v bd(1)] by simp
  moreover have "str_is_char_boundary (l @ b) (length l)"
    using s'(3) by (cases b) (auto simp: str_is_char_boundary_def boundary_iff nth_append)
  ultimately have "valid_utf8 l" using valid_split(1) [of "l @ b" "length l"] by simp
  then show ?thesis by (simp add: l_def)
qed

lemma valid_last_line: "valid_utf8 s \<Longrightarrow> valid_utf8 (last_line s)"
  using valid_rows [of s "newlines s"] last_conv_nth [of "split_newline s"] by (simp add: newlines_def last_line_def)

section \<open>Sums of summaries\<close>

lemma point_add_fits:
  assumes "length a + length b < 2 ^ 32"
  shows "point_add_assign_u32 (Point (newlines a) (length (last_line a))) (Point (newlines b) (length (last_line b))) =
    Point (newlines (a @ b)) (length (last_line (a @ b)))"
proof -
  have "newlines a + newlines b < 2 ^ 32" "length (last_line a) + length (last_line b) < 2 ^ 32"
    using assms newlines_le [of a] newlines_le [of b] last_line_le [of a] last_line_le [of b] by linarith+
  then show ?thesis by (simp add: point_add_assign_u32_def newlines_append last_line_append Point_def)
qed

lemma point_add_utf16_fits:
  assumes "length a + length b < 2 ^ 32" "valid_utf8 a" "valid_utf8 b"
  shows "point_add_assign_u32 (Point (newlines a) (nutf16 (last_line a))) (Point (newlines b) (nutf16 (last_line b))) =
    Point (newlines (a @ b)) (nutf16 (last_line (a @ b)))"
proof -
  have "nutf16 (last_line s) \<le> length s" if "valid_utf8 s" for s
    using nutf16_le [OF valid_last_line [OF that]] last_line_le [of s] by linarith
  from this [OF assms(2)] this [OF assms(3)]
  have "newlines a + newlines b < 2 ^ 32" "nutf16 (last_line a) + nutf16 (last_line b) < 2 ^ 32"
    using assms(1) newlines_le [of a] newlines_le [of b] by linarith+
  then show ?thesis by (simp add: point_add_assign_u32_def newlines_append last_line_append Point_def)
qed

lemma summary_add_u32_eq:
  assumes "ts_last_line_chars s + ts_first_line_chars t < 2 ^ 32" "ts_first_line_chars s + ts_first_line_chars t < 2 ^ 32"
    and "row (ts_lines s) + ts_longest_row t < 2 ^ 32" "ts_last_line_len_utf16 s + ts_last_line_len_utf16 t < 2 ^ 32"
    and "point_add_assign_u32 (ts_lines s) (ts_lines t) = point_add_assign (ts_lines s) (ts_lines t)"
  shows "summary_add_u32 s t = summary_add s t"
  using assms
  by (cases "ts_longest_row_chars s < ts_last_line_chars s + ts_first_line_chars t"; cases "row (ts_lines s) = 0"; cases "row (ts_lines t) = 0")
    (simp_all add: summary_add_u32_def summary_add_def Let_def)

lemma summary_add_fits:
  assumes "length a + length b < 2 ^ 32" "valid_utf8 a" "valid_utf8 b"
  shows "summary_add_u32 (summary_of a) (summary_of b) = summary_of (a @ b)"
  unfolding summary_of_append
proof (rule summary_add_u32_eq)
  have u: "nutf16 (last_line s) \<le> length s" if "valid_utf8 s" for s
    using nutf16_le [OF valid_last_line [OF that]] last_line_le [of s] by linarith
  have n: "nchars (last_line s) \<le> length s" "nchars (hd (split_newline s)) \<le> length s" for s
    using nchars_le [of "last_line s"] nchars_le [of "hd (split_newline s)"] last_line_le [of s] first_line_le [of s] by linarith+
  show "ts_last_line_chars (summary_of a) + ts_first_line_chars (summary_of b) < 2 ^ 32"
    "ts_first_line_chars (summary_of a) + ts_first_line_chars (summary_of b) < 2 ^ 32"
    "ts_last_line_len_utf16 (summary_of a) + ts_last_line_len_utf16 (summary_of b) < 2 ^ 32"
    using assms(1) n [of a] n [of b] u [OF assms(2)] u [OF assms(3)] by (simp_all add: summary_of_def)
  show "row (ts_lines (summary_of a)) + ts_longest_row (summary_of b) < 2 ^ 32"
    using assms(1) newlines_le [of a] newlines_le [of b] longest_row_le [of b] by (simp add: summary_of_def)
  show "point_add_assign_u32 (ts_lines (summary_of a)) (ts_lines (summary_of b)) = point_add_assign (ts_lines (summary_of a)) (ts_lines (summary_of b))"
    using point_add_fits [OF assms(1)] by (simp add: summary_of_def point_add_assign_def newlines_append last_line_append Point_def)
qed

text \<open>The scan: every prefix of the text is short.\<close>

lemma summary_char_u32_eq:
  assumes "c \<noteq> newline \<Longrightarrow> column (ts_lines s) + length c < 2 ^ 32 \<and> ts_last_line_len_utf16 s + char_len_utf16 c < 2 ^ 32 \<and> ts_last_line_chars s + 1 < 2 ^ 32"
    and "row (ts_lines s) + 1 < 2 ^ 32"
  shows "summary_char_u32 s c = summary_char s c"
proof -
  have p: "point_add_assign_u32 (ts_lines s) (Point 1 0) = point_add_assign (ts_lines s) (Point 1 0)"
    using assms(2) by (simp add: point_add_assign_u32_def point_add_assign_def)
  show ?thesis
  proof (cases "c = newline")
    case True
    then show ?thesis by (simp add: summary_char_u32_def summary_char_def p [simplified])
  next
    case False
    from assms(1) [OF this] have "wrap32 (length c) = length c" "wrap32 (char_len_utf16 c) = char_len_utf16 c"
      "wrap32 (column (ts_lines s) + length c) = column (ts_lines s) + length c"
      "wrap32 (ts_last_line_len_utf16 s + char_len_utf16 c) = ts_last_line_len_utf16 s + char_len_utf16 c"
      "wrap32 (ts_last_line_chars s + 1) = ts_last_line_chars s + 1"
      by simp_all
    with False show ?thesis by (simp add: summary_char_u32_def summary_char_def Let_def)
  qed
qed

lemma summary_from_str_fits:
  assumes "valid_utf8 s" "length s < 2 ^ 32"
  shows "summary_from_str_u32 s = summary_of s"
proof -
  obtain cs where cs: "s = concat cs" "str_chars s = cs" "\<forall>c \<in> set cs. valid_char c" using assms(1) by (rule valid_utf8E)
  have "foldl summary_char_u32 summary_zero ds = foldl summary_char summary_zero ds \<and>
      foldl summary_char summary_zero ds = (summary_of (concat ds))\<lparr>ts_len := 0\<rparr>"
    if "\<forall>c \<in> set ds. valid_char c" "length (concat ds) < 2 ^ 32" for ds
    using that
  proof (induction ds rule: rev_induct)
    case Nil
    then show ?case by (simp add: summary_zero_def summary_of_def last_line_def row_chars_def point_zero_def)
  next
    case (snoc c ds)
    let ?t = "concat ds"
    have c: "valid_char c" "1 \<le> length c" using snoc.prems(1) by (auto simp: valid_char_def Suc_le_eq)
    have len: "length ?t + length c < 2 ^ 32" using snoc.prems(2) by simp
    have v: "valid_utf8 ?t" "valid_utf8 c" using snoc.prems(1) using valid_utf8_concat [of "[c]"] by auto
    have b: "newlines ?t \<le> length ?t" "length (last_line ?t) \<le> length ?t" "nutf16 (last_line ?t) \<le> length ?t" "nchars (last_line ?t) \<le> length ?t"
      "char_len_utf16 c \<le> length c"
      using newlines_le [of ?t] last_line_le [of ?t] nutf16_le [OF valid_last_line [OF v(1)]] nchars_le [of "last_line ?t"]
        nutf16_le [OF v(2)] nutf16_char [OF c(1)] by linarith+
    have "summary_char_u32 ((summary_of ?t)\<lparr>ts_len := 0\<rparr>) c = summary_char ((summary_of ?t)\<lparr>ts_len := 0\<rparr>) c"
      by (rule summary_char_u32_eq) (use b c(2) len in \<open>simp_all add: summary_of_def\<close>)
    with snoc summary_char_correct [OF c(1), of ?t] show ?case by simp
  qed
  with cs assms(2) show ?thesis by (simp add: summary_from_str_u32_def summary_of_def)
qed

section \<open>The cached summaries of a rope\<close>

lemma foldl_summaries:
  assumes "\<forall>x \<in> set xs. valid_utf8 x" "length (concat xs) < 2 ^ 32"
  shows "foldl summary_add_u32 summary_zero (map summary_of xs) = summary_of (concat xs)"
  using assms
proof (induction xs rule: rev_induct)
  case Nil
  then show ?case by (simp add: summary_zero_def summary_of_def last_line_def row_chars_def point_zero_def)
next
  case (snoc x xs)
  have "valid_utf8 (concat ys)" if "\<forall>y \<in> set ys. valid_utf8 y" for ys
    using that by (induction ys) (auto simp: valid_utf8_append)
  with snoc.prems(1) have "valid_utf8 (concat xs)" by simp
  with snoc summary_add_fits [of "concat xs" x] show ?case by simp
qed

lemma tree_text_summary:
  assumes "wf_tree chunk_ops t" "\<forall>c \<in> set (tree_items t). chunk_ok c"
  shows "cs_text (summary t) = summary_of (chunks_text (tree_items t))"
  using ch.summary_items [OF assms(1)] sum_chunks [OF assms(2)] by (simp add: chunk_ops_def)

lemma cached_fits:
  "wf_tree chunk_ops t \<Longrightarrow> \<forall>c \<in> set (tree_items t). chunk_ok c \<Longrightarrow> length (chunks_text (tree_items t)) < 2 ^ 32 \<Longrightarrow> cached_u32 t"
proof (induction t)
  case (Leaf s cs ss)
  have "map cs_text ss = map summary_of (map ch_text cs)"
    using Leaf.prems(1,2) by (simp add: chunk_ops_def chunk_summary_of.rep_eq slice_text_summary_correct)
  moreover have "cs_text s = summary_of (concat (map ch_text cs))" using tree_text_summary [OF Leaf.prems(1,2)] by (simp add: chunks_text_def)
  moreover have "\<forall>x \<in> set (map ch_text cs). valid_utf8 x" using Leaf.prems(2) by (auto simp: chunk_ok_def)
  ultimately show ?case using foldl_summaries [of "map ch_text cs"] Leaf.prems(3) by (simp add: chunks_text_def)
next
  case (Internal h s cs ts)
  let ?x = "\<lambda>t. chunks_text (tree_items t)"
  have sub: "wf_tree chunk_ops t \<and> (\<forall>c \<in> set (tree_items t). chunk_ok c)" if "t \<in> set ts" for t
    using Internal.prems(1,2) that by auto
  have con: "concat (map ?x ts) = chunks_text (concat (map tree_items ts))" by (induction ts) simp_all
  have short: "length (concat (map ?x ts)) < 2 ^ 32" using Internal.prems(3) con by simp
  have "length (?x t) \<le> length (concat (map ?x ts))" if "t \<in> set ts" for t
    using that by (auto simp: length_concat intro!: member_le_sum_list)
  then have kids: "\<forall>t \<in> set ts. cached_u32 t" using Internal.IH sub short by (meson le_less_trans)
  have "map cs_text cs = map summary_of (map ?x ts)" using Internal.prems(1) sub tree_text_summary by auto
  moreover have "cs_text s = summary_of (concat (map ?x ts))" using tree_text_summary [OF Internal.prems(1,2)] con by simp
  moreover have "\<forall>x \<in> set (map ?x ts). valid_utf8 x" using sub chunks_text_valid by auto
  ultimately show ?case using foldl_summaries [of "map ?x ts"] short kids by simp
qed

text \<open>The positions of the chunks, summed up by a search.\<close>

lemma chunk_points_fit:
  assumes "\<forall>c \<in> set cs. chunk_ok c" "length (chunks_text cs) < 2 ^ 32"
  shows "foldl point_add_assign_u32 point_zero (map (\<lambda>c. ts_lines (slice_text_summary c)) cs) = ts_lines (summary_of (chunks_text cs))"
    and "foldl point_add_assign_u32 point_zero (map (\<lambda>c. lines_utf16 (slice_text_summary c)) cs) = lines_utf16 (summary_of (chunks_text cs))"
proof -
  have "foldl point_add_assign_u32 point_zero (map (\<lambda>c. ts_lines (slice_text_summary c)) cs) = ts_lines (summary_of (chunks_text cs)) \<and>
      foldl point_add_assign_u32 point_zero (map (\<lambda>c. lines_utf16 (slice_text_summary c)) cs) = lines_utf16 (summary_of (chunks_text cs))"
    using assms
  proof (induction cs rule: rev_induct)
    case (snoc c cs)
    have c: "chunk_ok c" "valid_utf8 (ch_text c)" "valid_utf8 (chunks_text cs)" using snoc.prems(1) chunks_text_valid [of cs] by (auto simp: chunk_ok_def)
    have len: "length (chunks_text cs) + length (ch_text c) < 2 ^ 32" using snoc.prems(2) by simp
    from snoc point_add_fits [OF len] point_add_utf16_fits [OF len c(3,2)] slice_text_summary_correct [OF c(1)] show ?case
      by (simp add: summary_of_def lines_utf16_def)
  qed (simp add: summary_of_def point_zero_def last_line_def lines_utf16_def)
  then show "foldl point_add_assign_u32 point_zero (map (\<lambda>c. ts_lines (slice_text_summary c)) cs) = ts_lines (summary_of (chunks_text cs))"
    "foldl point_add_assign_u32 point_zero (map (\<lambda>c. lines_utf16 (slice_text_summary c)) cs) = lines_utf16 (summary_of (chunks_text cs))" by blast+
qed

end
