(* ===== verification/Rope_Edit.thy ===== *)
theory Rope_Edit
  imports Keyed_Tree Summary_Width
begin

text \<open>
  Appending ropes, the rope cursor, and the slices and replacements made with it. A rope cursor stands at an offset of
  the text; its chunk cursor stands on a chunk that touches this offset.
\<close>

interpretation ch_unit: search_laws chunk_ops unit_dim
  by unfold_locales (rule lawful_unit_dim)

section \<open>Appending\<close>

text \<open>A rope as the result of an operation: in order, with the given text, no higher than \<open>h\<close>, and filled if \<open>f\<close> holds.\<close>

definition rope_with :: "rope \<Rightarrow> str \<Rightarrow> nat \<Rightarrow> bool \<Rightarrow> bool" where
  "rope_with t s h f \<longleftrightarrow> rope_ok t \<and> rope_text t = s \<and> height t \<le> h \<and> (f \<longrightarrow> filled (tree_items t))"

lemma rest_of_rope:
  assumes "wf_tree chunk_ops t" "height t < STACK_CAPACITY" "tree_items t = c # cs"
  shows "\<exists>c1 c2 r c3. cursor_next unit_dim (cursor_new unit_dim t) = Some c1 \<and> cursor_next unit_dim c1 = Some c2 \<and>
    cursor_suffix chunk_ops unit_dim c2 = Some (r, c3) \<and> wf_tree chunk_ops r \<and> tree_items r = cs \<and> height r \<le> height t + 2"
proof -
  let ?c = "cursor_new unit_dim t :: (chunk, chunk_summary, unit) cursor"
  have c0: "wf_cursor chunk_ops ?c" "\<not> c_did_seek ?c" "c_tree ?c = t" using assms(1,2) by (simp_all add: wf_cursor_def cursor_new_def)
  obtain c1 where c1: "cursor_next unit_dim ?c = Some c1" "c_tree c1 = t" "c_did_seek c1" "cursor_at chunk_ops unit_dim c1 0"
    using ch_unit.next_correct [OF c0(1) cursor_at_new(1)] c0(2,3) by auto
  have w1: "wf_cursor chunk_ops c1" using assms(1,2) c1(2) by (simp add: wf_cursor_def)
  obtain c2 where c2: "cursor_next unit_dim c1 = Some c2" "c_tree c2 = t" "cursor_at chunk_ops unit_dim c2 (Suc 0)"
    using ch_unit.next_correct [OF w1 c1(4)] c1(2,3) assms(3) by auto
  have "wf_cursor chunk_ops c2" using assms(1,2) c2(2) by (simp add: wf_cursor_def)
  from ch_unit.suffix_correct [OF this c2(3)] c1(1) c2 assms(3) show ?thesis by auto
qed

lemma rope_append_correct:
  assumes "rope_ok a" "rope_ok b" "height a < 254" "height b < STACK_CAPACITY"
  shows "\<exists>t. rope_append a b = Some t \<and>
    rope_with t (rope_text a @ rope_text b) (max (height a + 1) (height b + 2) + 1) (filled (tree_items a) \<and> filled (tree_items b))"
proof -
  have wf: "wf_tree chunk_ops a" "wf_tree chunk_ops b" using assms(1,2) by (simp_all add: rope_ok_def)
  note first = ch.tree_first_correct [OF wf(2)] and last = ch.tree_last_correct [OF wf(1)]
  show ?thesis
  proof (cases "\<exists>c cs. tree_items b = c # cs \<and> ((\<exists>l. last_opt (tree_items a) = Some l \<and> length (ch_text l) < MIN_BASE) \<or> length (ch_text c) < MIN_BASE)")
    case True
    then obtain c cs where b: "tree_items b = c # cs"
      "(\<exists>l. last_opt (tree_items a) = Some l \<and> length (ch_text l) < MIN_BASE) \<or> length (ch_text c) < MIN_BASE" by blast
    have ok: "chunk_ok c" "\<forall>d \<in> set cs. chunk_ok d" using assms(2) b(1) by (auto simp: rope_ok_def)
    obtain t where t: "push_chunk a c = Some t" "rope_ok t" "rope_text t = rope_text a @ ch_text c" "height t \<le> Suc (height a)"
      "filled (tree_items a) \<longrightarrow> filled (tree_items t)" "filled (tree_items a) \<and> MIN_BASE \<le> length (ch_text c) + 3 \<longrightarrow> thick (tree_items t)"
      using push_chunk_correct [OF assms(1) ok(1)] assms(3) by auto
    obtain c1 c2 r c3 where r: "cursor_next unit_dim (cursor_new unit_dim b) = Some c1" "cursor_next unit_dim c1 = Some c2"
      "cursor_suffix chunk_ops unit_dim c2 = Some (r, c3)" "wf_tree chunk_ops r" "tree_items r = cs" "height r \<le> height b + 2"
      using rest_of_rope [OF wf(2) assms(4) b(1)] by blast
    have h: "height t < 255" "height r < 255" using t(4) r(6) assms(3,4) by (simp_all add: STACK_CAPACITY_def)
    obtain u where u: "tree_append chunk_ops t r = Some u" "wf_tree chunk_ops u" "tree_items u = tree_items t @ cs" "height u \<le> Suc (max (height t) (height r))"
      using ch.append_correct [of t r] t(2) r(4,5) h by (auto simp: rope_ok_def)
    have "rope_append a b = Some u"
      using b t(1) r(1-3) u(1) by (auto simp: rope_append_def first last first_opt_def split: option.splits)
    moreover have "rope_ok u" "rope_text u = rope_text a @ rope_text b" using u t(2,3) ok b(1) by (auto simp: rope_ok_def rope_text_def)
    moreover have "height u \<le> max (height a + 1) (height b + 2) + 1" using u(4) t(4) r(6) by linarith
    moreover have "filled (tree_items u)" if "filled (tree_items a)" "filled (tree_items b)"
      using u(3) t(5,6) b(1) that by (cases "cs = []") (auto simp: filled_append [of _ "[c]", simplified] filled_append)
    ultimately show ?thesis by (auto simp: rope_with_def)
  next
    case False
    have h: "height a < 255" "height b < 255" using assms(3,4) by (simp_all add: STACK_CAPACITY_def)
    obtain u where u: "tree_append chunk_ops a b = Some u" "wf_tree chunk_ops u" "tree_items u = tree_items a @ tree_items b" "height u \<le> Suc (max (height a) (height b))"
      using ch.append_correct [OF wf h] by blast
    have "rope_append a b = Some u"
      using False u(1) by (cases "tree_items b") (auto simp: rope_append_def first last first_opt_def split: option.splits)
    moreover have "rope_ok u" "rope_text u = rope_text a @ rope_text b" using u assms(1,2) by (auto simp: rope_ok_def rope_text_def)
    moreover have "filled (tree_items u)" if "filled (tree_items a)" "filled (tree_items b)"
    proof (cases "tree_items b")
      case (Cons c cs)
      have "thick (tree_items a)" using False Cons that(1) by (cases "tree_items a" rule: rev_cases) (auto simp: last_opt_def)
      with Cons u(3) that show ?thesis by (simp add: filled_append)
    qed (use u(3) that in simp)
    ultimately show ?thesis using u(4) by (auto simp: rope_with_def)
  qed
qed

section \<open>Offsets and chunks\<close>

abbreviation chunk_pos :: "rope \<Rightarrow> nat \<Rightarrow> nat" where
  "chunk_pos \<equiv> pos_at chunk_ops len_dim"

abbreviation between :: "str \<Rightarrow> nat \<Rightarrow> nat \<Rightarrow> str" where
  "between s i j \<equiv> take (j - i) (drop i s)"

lemma between_append: "i \<le> m \<Longrightarrow> m \<le> j \<Longrightarrow> between s i m @ between s m j = between s i j"
  using take_add [of "m - i" "j - m" "drop i s"] by simp

lemma advance_len: "advance len_dim z (sums chunk_ops cs) = z + length (chunks_text cs)"
  by (induction cs arbitrary: z)
    (simp_all add: len_dim_def chunk_ops_def chunk_summary_of.rep_eq slice_text_summary_def slice_len_def split: prod.splits)

lemma chunk_pos_eq: "chunk_pos t k = length (chunks_text (take k (tree_items t)))"
  by (simp add: pos_at_def advance_len) (simp add: len_dim_def)

lemma chunk_pos_mono: "i \<le> j \<Longrightarrow> chunk_pos t i \<le> chunk_pos t j"
  unfolding chunk_pos_eq by (metis chunks_text_simps(3) le_add1 le_add_diff_inverse length_append take_add)

lemma chunk_pos_end: "length (tree_items t) \<le> k \<Longrightarrow> chunk_pos t k = length (rope_text t)"
  by (simp add: chunk_pos_eq rope_text_def)

lemma chunk_pos_le: "chunk_pos t k \<le> length (rope_text t)"
  using chunk_pos_mono [of k "max k (length (tree_items t))" t] by (simp add: chunk_pos_end)

lemma chunks_between: "i \<le> j \<Longrightarrow> chunks_text (take (j - i) (drop i (tree_items t))) = between (rope_text t) (chunk_pos t i) (chunk_pos t j)"
proof -
  assume "i \<le> j"
  then have "take j (tree_items t) = take i (tree_items t) @ take (j - i) (drop i (tree_items t))" by (metis le_add_diff_inverse take_add)
  moreover have "rope_text t = chunks_text (take j (tree_items t)) @ chunks_text (drop j (tree_items t))"
    unfolding rope_text_def by (metis append_take_drop_id chunks_text_simps(3))
  ultimately show ?thesis by (simp add: chunk_pos_eq)
qed

lemma chunk_pos_boundary: "rope_ok t \<Longrightarrow> str_is_char_boundary (rope_text t) (chunk_pos t k)"
proof -
  assume "rope_ok t"
  then have "valid_utf8 (chunks_text (drop k (tree_items t)))" by (intro chunks_text_valid) (auto simp: rope_ok_def dest: in_set_dropD)
  from concat_boundary [OF this, of "chunks_text (take k (tree_items t))"] show ?thesis
    by (simp add: rope_text_def chunk_pos_eq flip: chunks_text_simps(3))
qed

lemma filled_nth: "filled cs \<longleftrightarrow> (\<forall>i. Suc i < length cs \<longrightarrow> MIN_BASE \<le> length (ch_text (cs ! i)) + 3)"
  by (auto simp: filled_def thick_def all_set_conv_all_nth nth_butlast less_diff_conv)

lemma filled_part: "filled cs \<Longrightarrow> filled (take j (drop i cs))"
  unfolding filled_nth by (auto simp: nth_drop)

text \<open>Seeking an offset with right bias finds the chunk that holds the byte at this offset.\<close>

lemma sorted_positions: "sorted_wrt (\<le>) (positions len_dim z ss) \<and> (\<forall>p \<in> set (positions len_dim z ss). z \<le> p)"
proof (induction ss arbitrary: z)
  case (Cons s ss)
  have "z \<le> d_add len_dim z s" by (simp add: len_dim_def)
  with Cons [of "d_add len_dim z s"] show ?case by auto
qed simp

lemma beyond_ord_cmp: "beyond (ord_cmp off p) Right \<longleftrightarrow> p \<le> off" "beyond (ord_cmp off p) Left \<longleftrightarrow> p < off" for p :: nat
  by (auto simp: beyond_def ord_cmp_def)

lemma seek_offset_bias:
  assumes "chunk_pos t k \<le> off" "k \<le> length (tree_items t)" "k' = seek_to chunk_ops len_dim (ord_cmp off) b t k"
  shows "seekable chunk_ops len_dim (ord_cmp off) t k" "k \<le> k'" "k' \<le> length (tree_items t)"
    "k < k' \<Longrightarrow> beyond (ord_cmp off (chunk_pos t k')) b"
    "k' < length (tree_items t) \<Longrightarrow> \<not> beyond (ord_cmp off (chunk_pos t (Suc k'))) b"
proof -
  let ?ss = "sums chunk_ops (drop k (tree_items t))"
  let ?ps = "positions len_dim (chunk_pos t k) ?ss"
  let ?n = "seek_index (ord_cmp off) b ?ps"
  have k': "k' = k + ?n" using assms(3) by (simp add: seek_to_def)
  have nth: "?ps ! i = chunk_pos t (k + Suc i)" if "i < length ?ss" for i
    using that by (simp add: nth_positions take_map advance_len) (simp add: chunk_pos_eq take_add [of k "Suc i", simplified])
  show "seekable chunk_ops len_dim (ord_cmp off) t k"
    using sorted_positions assms(1) by (auto simp: seekable_def ord_cmp_def intro!: antitone_ord_cmp)
  show "k \<le> k'" "k' \<le> length (tree_items t)" using seek_index_le [of "ord_cmp off" b ?ps] assms(2) k' by auto
  then show "beyond (ord_cmp off (chunk_pos t k')) b" if "k < k'"
    using before_seek_index [of "?n - 1" "ord_cmp off" b ?ps] nth [of "?n - 1"] k' that
    by (cases "?n") auto
  assume "k' < length (tree_items t)"
  then have "?n < length ?ss" using k' by simp
  then show "\<not> beyond (ord_cmp off (chunk_pos t (Suc k'))) b"
    using nth_seek_index [of "ord_cmp off" b ?ps] nth [of ?n] k' by simp
qed

lemma seek_offset:
  assumes "chunk_pos t k \<le> off" "k \<le> length (tree_items t)" "k' = seek_to chunk_ops len_dim (ord_cmp off) Right t k"
  shows "seekable chunk_ops len_dim (ord_cmp off) t k" "k \<le> k'" "k' \<le> length (tree_items t)" "chunk_pos t k' \<le> off"
    "k' < length (tree_items t) \<Longrightarrow> off < chunk_pos t (Suc k')"
  using seek_offset_bias [OF assms] assms(1) by (cases "k = k'"; simp add: beyond_ord_cmp)+

text \<open>A chunk within the text, and the character boundaries within the chunk.\<close>

lemma chunk_split:
  assumes "k < length (tree_items t)"
  shows "rope_text t = chunks_text (take k (tree_items t)) @ ch_text (tree_items t ! k) @ chunks_text (drop (Suc k) (tree_items t))"
    and "chunk_pos t (Suc k) = chunk_pos t k + length (ch_text (tree_items t ! k))"
proof -
  show "rope_text t = chunks_text (take k (tree_items t)) @ ch_text (tree_items t ! k) @ chunks_text (drop (Suc k) (tree_items t))"
    using id_take_nth_drop [OF assms] unfolding rope_text_def by (metis append_Cons append_Nil chunks_text_simps(2,3))
  show "chunk_pos t (Suc k) = chunk_pos t k + length (ch_text (tree_items t ! k))"
    using assms by (simp add: chunk_pos_eq take_Suc_conv_app_nth)
qed

lemma boundary_in_chunk:
  assumes t: "rope_ok t" and k: "k < length (tree_items t)" "chunk_pos t k \<le> i" "i \<le> chunk_pos t (Suc k)"
  shows "str_is_char_boundary (ch_text (tree_items t ! k)) (i - chunk_pos t k) \<longleftrightarrow> str_is_char_boundary (rope_text t) i"
  using row_boundary_iff [of "chunks_text (take k (tree_items t))" "ch_text (tree_items t ! k)" "chunks_text (drop (Suc k) (tree_items t))" "i - chunk_pos t k"]
    chunk_pos_boundary [OF t, of k] chunk_pos_boundary [OF t, of "Suc k"] k(2,3)
  unfolding chunk_split [OF k(1)] by (simp add: chunk_pos_eq)

lemma chunk_piece:
  assumes t: "rope_ok t" and k: "k < length (tree_items t)" "chunk_pos t k \<le> i" "i \<le> j" "j \<le> chunk_pos t (Suc k)"
    and bd: "str_is_char_boundary (rope_text t) i" "str_is_char_boundary (rope_text t) j"
  shows "\<exists>d. slice_slice (tree_items t ! k) (i - chunk_pos t k) (j - chunk_pos t k) = Some d \<and> chunk_ok d \<and> ch_text d = between (rope_text t) i j"
proof -
  let ?c = "tree_items t ! k"
  have ok: "chunk_ok ?c" using t k(1) by (simp add: rope_ok_def)
  have "str_is_char_boundary (ch_text ?c) (i - chunk_pos t k)" "str_is_char_boundary (ch_text ?c) (j - chunk_pos t k)"
    using boundary_in_chunk [OF t k(1)] bd k by auto
  moreover have "between (ch_text ?c) (i - chunk_pos t k) (j - chunk_pos t k) = between (rope_text t) i j"
    using k(2-4) chunk_split(2) [OF k(1)] unfolding chunk_split(1) [OF k(1)] by (simp add: chunk_pos_eq)
  ultimately show ?thesis using slice_slice_correct [OF ok, of "i - chunk_pos t k" "j - chunk_pos t k"] k(2,3) by auto
qed

section \<open>The cursor\<close>

definition rope_cursor_at :: "rope_cursor \<Rightarrow> nat \<Rightarrow> bool" where
  "rope_cursor_at c k \<longleftrightarrow> rope_ok (rc_rope c) \<and> c_tree (rc_chunks c) = rc_rope c \<and> c_did_seek (rc_chunks c) \<and>
     cursor_at chunk_ops len_dim (rc_chunks c) k \<and> chunk_pos (rc_rope c) k \<le> rc_offset c \<and>
     rc_offset c \<le> chunk_pos (rc_rope c) (Suc k)"

lemma rope_cursor_new_correct:
  assumes "rope_ok t" "height t < STACK_CAPACITY" "off \<le> length (rope_text t)"
  shows "\<exists>c k. rope_cursor_new t off = Some c \<and> rope_cursor_at c k \<and> rc_rope c = t \<and> rc_offset c = off"
proof -
  let ?c = "cursor_new len_dim t :: (chunk, chunk_summary, nat) cursor"
  have w: "wf_cursor chunk_ops ?c" "c_tree ?c = t" using assms(1,2) by (simp_all add: wf_cursor_def cursor_new_def rope_ok_def)
  note so = seek_offset [of t 0 off, OF _ _ refl]
  have 0: "chunk_pos t 0 \<le> off" by (simp add: chunk_pos_eq)
  let ?k = "seek_to chunk_ops len_dim (ord_cmp off) Right t 0"
  obtain c where c: "cursor_seek len_dim (ord_cmp off) Right ?c = Some (seek_found chunk_ops len_dim (ord_cmp off) Right t ?k, c)"
    "c_tree c = t" "c_did_seek c" "cursor_at chunk_ops len_dim c ?k"
    using ch_len.seek_correct [OF w(1), of "ord_cmp off" ?k Right] so(1) [OF 0] w(2) by auto
  have "off \<le> chunk_pos t (Suc ?k)" using so(3,5) [OF 0] chunk_pos_end [of t "Suc ?k"] assms(3) by (cases "?k < length (tree_items t)") auto
  with c assms(1) so(4) [OF 0] show ?thesis by (auto simp: rope_cursor_new_def rope_cursor_at_def)
qed

lemma rope_cursor_seek_forward_correct:
  assumes c: "rope_cursor_at c k" "height (rc_rope c) < STACK_CAPACITY" and e: "rc_offset c \<le> e" "e \<le> length (rope_text (rc_rope c))"
  shows "\<exists>c' k'. rope_cursor_seek_forward c e = Some c' \<and> rope_cursor_at c' k' \<and> rc_rope c' = rc_rope c \<and> rc_offset c' = e"
proof -
  let ?t = "rc_rope c"
  note at = c(1) [unfolded rope_cursor_at_def]
  have w: "wf_cursor chunk_ops (rc_chunks c)" using at c(2) by (simp add: wf_cursor_def rope_ok_def)
  have k: "chunk_pos ?t k \<le> e" "k \<le> length (tree_items ?t)" using at e(1) cursor_at_le [of _ _ "rc_chunks c" k] by auto
  let ?k = "seek_to chunk_ops len_dim (ord_cmp e) Right ?t k"
  note so = seek_offset [OF k refl]
  obtain d where d: "cursor_seek_forward len_dim (ord_cmp e) Right (rc_chunks c) = Some (seek_found chunk_ops len_dim (ord_cmp e) Right ?t ?k, d)"
    "c_tree d = ?t" "c_did_seek d" "cursor_at chunk_ops len_dim d ?k"
    using ch_len.seek_forward_correct [OF w, of k "ord_cmp e" ?k Right] so(1) at by auto
  have "e \<le> chunk_pos ?t (Suc ?k)" using so(3,5) chunk_pos_end [of ?t "Suc ?k"] e(2) by (cases "?k < length (tree_items ?t)") auto
  with d at so(4) e rope_len_correct [of ?t] show ?thesis
    by (auto simp: rope_cursor_seek_forward_def rope_cursor_at_def)
qed

text \<open>The chunks behind the first one and the piece of the last one.\<close>

lemma slice_rest:
  assumes c: "rope_ok t" "c_tree c = t" "c_did_seek c" "cursor_at chunk_ops len_dim c k" "height t \<le> 13" "filled (tree_items t)"
    and e: "k < length (tree_items t)" "chunk_pos t (Suc k) < e" "e \<le> length (rope_text t)" "str_is_char_boundary (rope_text t) e"
    and s: "rope_with s x 1 True"
  shows "\<exists>c1 m c2 u v k'. cursor_next len_dim c = Some c1 \<and> cursor_slice chunk_ops len_dim (ord_cmp e) Right c1 = Some (m, c2) \<and>
    rope_append s m = Some u \<and>
    (case index_opt (tree_items t) k' of Some d \<Rightarrow> (\<exists>p. slice_slice d 0 (e - chunk_pos t k') = Some p \<and> push_chunk u p = Some v) | None \<Rightarrow> v = u) \<and>
    rope_with v (x @ between (rope_text t) (chunk_pos t (Suc k)) e) (height t + 6) True \<and>
    c_tree c2 = t \<and> c_did_seek c2 \<and> cursor_at chunk_ops len_dim c2 k' \<and> chunk_pos t k' \<le> e \<and> e \<le> chunk_pos t (Suc k')"
proof -
  have w: "wf_cursor chunk_ops c" using c by (simp add: wf_cursor_def rope_ok_def STACK_CAPACITY_def)
  obtain c1 where c1: "cursor_next len_dim c = Some c1" "c_tree c1 = t" "c_did_seek c1" "cursor_at chunk_ops len_dim c1 (Suc k)"
    using ch_len.next_correct [OF w c(4)] c(2,3) e(1) by auto
  have w1: "wf_cursor chunk_ops c1" using w c(2) c1(2) by (simp add: wf_cursor_def)
  let ?k = "seek_to chunk_ops len_dim (ord_cmp e) Right t (Suc k)"
  have k: "chunk_pos t (Suc k) \<le> e" "Suc k \<le> length (tree_items t)" using e(1,2) by auto
  note so = seek_offset [OF k refl]
  obtain m c2 where m: "cursor_slice chunk_ops len_dim (ord_cmp e) Right c1 = Some (m, c2)" "wf_tree chunk_ops m" "height m \<le> height t + 2"
    "tree_items m = take (?k - Suc k) (drop (Suc k) (tree_items t))" "c_tree c2 = t" "c_did_seek c2" "cursor_at chunk_ops len_dim c2 ?k"
    using ch_len.slice_correct [OF w1 c1(4), of "ord_cmp e" ?k Right] so(1) c1(2) by auto
  have mok: "rope_ok m" "rope_text m = between (rope_text t) (chunk_pos t (Suc k)) (chunk_pos t ?k)" "filled (tree_items m)"
    using m(2,4) c(1) chunks_between [OF so(2), of t] filled_part [OF c(6)]
    by (auto simp: rope_ok_def rope_text_def dest!: in_set_takeD in_set_dropD)
  obtain u where u: "rope_append s m = Some u" "rope_with u (x @ rope_text m) (height t + 5) True"
    using rope_append_correct [of s m] s mok(1,3) m(3) c(5) by (fastforce simp: rope_with_def STACK_CAPACITY_def)
  have stop: "e \<le> chunk_pos t (Suc ?k)" using so(3,5) chunk_pos_end [of t "Suc ?k"] e(3) by (cases "?k < length (tree_items t)") auto
  have rest: "between (rope_text t) (chunk_pos t (Suc k)) (chunk_pos t ?k) @ between (rope_text t) (chunk_pos t ?k) e = between (rope_text t) (chunk_pos t (Suc k)) e"
    using chunk_pos_mono [OF so(2), of t] so(4) by (intro between_append) auto
  have "\<exists>v. (case index_opt (tree_items t) ?k of Some d \<Rightarrow> (\<exists>p. slice_slice d 0 (e - chunk_pos t ?k) = Some p \<and> push_chunk u p = Some v) | None \<Rightarrow> v = u) \<and>
      rope_with v (x @ between (rope_text t) (chunk_pos t (Suc k)) e) (height t + 6) True"
  proof (cases "?k < length (tree_items t)")
    case True
    obtain p where p: "slice_slice (tree_items t ! ?k) 0 (e - chunk_pos t ?k) = Some p" "chunk_ok p" "ch_text p = between (rope_text t) (chunk_pos t ?k) e"
      using chunk_piece [OF c(1) True order_refl so(4) stop chunk_pos_boundary [OF c(1)] e(4)] by auto
    obtain v where "push_chunk u p = Some v" "rope_with v (x @ between (rope_text t) (chunk_pos t (Suc k)) e) (height t + 6) True"
      using push_chunk_correct [of u p] u(2) p(2,3) mok(2) c(5) rest by (auto simp: rope_with_def)
    with p(1) True show ?thesis by auto
  next
    case False
    then have "chunk_pos t ?k = e" using so(4) chunk_pos_end [of t ?k] e(3) by simp
    with u(2) mok(2) False show ?thesis by (auto simp: rope_with_def)
  qed
  with c1(1) m u(1) so(4) stop show ?thesis by blast
qed

lemma rope_cursor_slice_correct:
  assumes c: "rope_cursor_at c k" "height (rc_rope c) \<le> 13" "filled (tree_items (rc_rope c))"
    and e: "rc_offset c \<le> e" "e \<le> length (rope_text (rc_rope c))"
    and b: "str_is_char_boundary (rope_text (rc_rope c)) (rc_offset c)" "str_is_char_boundary (rope_text (rc_rope c)) e"
  shows "\<exists>s c' k'. rope_cursor_slice c e = Some (s, c') \<and> rope_with s (between (rope_text (rc_rope c)) (rc_offset c) e) (height (rc_rope c) + 6) True \<and>
    rope_cursor_at c' k' \<and> rc_rope c' = rc_rope c \<and> rc_offset c' = e"
proof -
  let ?t = "rc_rope c" and ?o = "rc_offset c"
  have at: "rope_ok ?t" "c_tree (rc_chunks c) = ?t" "c_did_seek (rc_chunks c)" "cursor_at chunk_ops len_dim (rc_chunks c) k"
    "chunk_pos ?t k \<le> ?o" "?o \<le> chunk_pos ?t (Suc k)" using c(1) by (simp_all add: rope_cursor_at_def)
  have wf: "wf_tree chunk_ops ?t" using at(1) by (simp add: rope_ok_def)
  have len: "rope_len ?t = length (rope_text ?t)" using rope_len_correct [OF at(1)] .
  note item = cursor_item_correct [OF at(4,3), unfolded at(2)] and start = cursor_at_position [OF at(4), unfolded at(2)]
  note stop = cursor_end_correct [OF at(4,3), unfolded at(2), OF wf]
  show ?thesis
  proof (cases "k < length (tree_items ?t)")
    case False
    then have "?o = length (rope_text ?t)" "e = ?o" using at(5) chunk_pos_end [of ?t k] e by auto
    moreover have "rope_cursor_at (c\<lparr>rc_chunks := rc_chunks c, rc_offset := ?o\<rparr>) k" using c(1) by (simp add: rope_cursor_at_def)
    ultimately show ?thesis using False rope_new_ok chunk_pos_end [of ?t k]
      by (auto simp: rope_cursor_slice_def item stop len rope_with_def)
  next
    case True
    let ?m = "min e (chunk_pos ?t (Suc k))"
    have m: "?o \<le> ?m" "?m \<le> chunk_pos ?t (Suc k)" "str_is_char_boundary (rope_text ?t) ?m"
      using e(1) at(6) b(2) chunk_pos_boundary [OF at(1)] by (auto simp: min_def)
    obtain p where p: "slice_slice (tree_items ?t ! k) (?o - chunk_pos ?t k) (?m - chunk_pos ?t k) = Some p" "chunk_ok p" "ch_text p = between (rope_text ?t) ?o ?m"
      using chunk_piece [OF at(1) True at(5) m(1,2) b(1) m(3)] by blast
    obtain s where s: "push_chunk rope_new p = Some s" "rope_with s (between (rope_text ?t) ?o ?m) 1 True"
      using push_chunk_correct [OF rope_new_ok(1) p(2)] p(3) by (auto simp: rope_with_def rope_new_ok)
    show ?thesis
    proof (cases "chunk_pos ?t (Suc k) < e")
      case False
      then have "?m = e" by simp
      with False s p(1) True at e len show ?thesis
        by (auto simp: rope_cursor_slice_def item stop cursor_start_def start rope_with_def rope_cursor_at_def)
    next
      case far: True
      obtain c1 m c2 u v k' where r: "cursor_next len_dim (rc_chunks c) = Some c1" "cursor_slice chunk_ops len_dim (ord_cmp e) Right c1 = Some (m, c2)"
        "rope_append s m = Some u"
        "case index_opt (tree_items ?t) k' of Some d \<Rightarrow> (\<exists>p. slice_slice d 0 (e - chunk_pos ?t k') = Some p \<and> push_chunk u p = Some v) | None \<Rightarrow> v = u"
        "rope_with v (between (rope_text ?t) ?o ?m @ between (rope_text ?t) (chunk_pos ?t (Suc k)) e) (height ?t + 6) True"
        "c_tree c2 = ?t" "c_did_seek c2" "cursor_at chunk_ops len_dim c2 k'" "chunk_pos ?t k' \<le> e" "e \<le> chunk_pos ?t (Suc k')"
        using slice_rest [OF at(1-4) c(2,3) True far e(2) b(2) s(2)] by blast
      have "?m = chunk_pos ?t (Suc k)" using far by simp
      then have whole: "rope_with v (between (rope_text ?t) ?o e) (height ?t + 6) True"
        using r(5) between_append [OF at(6), of e "rope_text ?t"] far by simp
      note item2 = cursor_item_correct [OF r(8,7), unfolded r(6)] and start2 = cursor_at_position [OF r(8), unfolded r(6)]
      have "rope_cursor_slice c e = Some (v, c\<lparr>rc_chunks := c2, rc_offset := e\<rparr>)"
        using r(1-4,9) s(1) p(1) True far e at(5) len
        by (auto simp: rope_cursor_slice_def item stop cursor_start_def start item2 start2 split: option.splits)
      with whole r(6-10) at(1) show ?thesis by (auto simp: rope_cursor_at_def)
    qed
  qed
qed

lemma rope_cursor_suffix_correct:
  assumes "rope_cursor_at c k" "height (rc_rope c) \<le> 13" "filled (tree_items (rc_rope c))"
    and "str_is_char_boundary (rope_text (rc_rope c)) (rc_offset c)"
  shows "\<exists>s. rope_cursor_suffix c = Some s \<and> rope_with s (drop (rc_offset c) (rope_text (rc_rope c))) (height (rc_rope c) + 6) True"
proof -
  let ?t = "rc_rope c"
  have "rope_len ?t = length (rope_text ?t)" using assms(1) rope_len_correct by (simp add: rope_cursor_at_def)
  moreover have "str_is_char_boundary (rope_text ?t) (length (rope_text ?t))" by (simp add: str_is_char_boundary_def)
  ultimately show ?thesis
    using rope_cursor_slice_correct [OF assms(1-3) _ order_refl assms(4)] boundary_le [OF assms(4)]
    by (auto simp: rope_cursor_suffix_def rope_len_def)
qed

section \<open>Slicing, replacing, pushing in front\<close>

lemma rope_slice_correct:
  assumes "rope_ok t" "height t \<le> 13" "filled (tree_items t)" "i \<le> j"
    and "str_is_char_boundary (rope_text t) i" "str_is_char_boundary (rope_text t) j"
  shows "\<exists>s. rope_slice t i j = Some s \<and> rope_with s (between (rope_text t) i j) (height t + 6) True"
proof -
  have h: "height t < STACK_CAPACITY" using assms(2) by (simp add: STACK_CAPACITY_def)
  obtain c k where c: "rope_cursor_new t 0 = Some c" "rope_cursor_at c k" "rc_rope c = t" "rc_offset c = 0"
    using rope_cursor_new_correct [OF assms(1) h, of 0] by auto
  obtain d l where d: "rope_cursor_seek_forward c i = Some d" "rope_cursor_at d l" "rc_rope d = t" "rc_offset d = i"
    using rope_cursor_seek_forward_correct [OF c(2), of i] c(3,4) h boundary_le [OF assms(5)] by auto
  from rope_cursor_slice_correct [OF d(2), of j] d assms c(1) boundary_le [OF assms(6)] show ?thesis
    by (auto simp: rope_slice_def)
qed

lemma rope_replace_correct:
  assumes t: "rope_ok t" "height t \<le> 9" "filled (tree_items t)" and r: "i \<le> j" "str_is_char_boundary (rope_text t) i" "str_is_char_boundary (rope_text t) j"
    and s: "valid_utf8 s" "length s \<le> (2 * TREE_BASE) ^ Suc n" "n \<le> 200"
  shows "\<exists>u. rope_replace t i j s = Some u \<and> rope_with u (take i (rope_text t) @ s @ drop j (rope_text t)) (max (height t + 9) n + 3) True"
proof -
  have h: "height t < STACK_CAPACITY" "height t \<le> 13" using t(2) by (simp_all add: STACK_CAPACITY_def)
  obtain c k where c: "rope_cursor_new t 0 = Some c" "rope_cursor_at c k" "rc_rope c = t" "rc_offset c = 0"
    using rope_cursor_new_correct [OF t(1) h(1), of 0] by auto
  have 0: "str_is_char_boundary (rope_text t) 0" by (simp add: str_is_char_boundary_def)
  obtain p d l where p: "rope_cursor_slice c i = Some (p, d)" "rope_with p (take i (rope_text t)) (height t + 6) True"
    "rope_cursor_at d l" "rc_rope d = t" "rc_offset d = i"
    using rope_cursor_slice_correct [OF c(2), of i] c(3,4) h t(3) r(2) 0 boundary_le [OF r(2)] by auto
  obtain u where u: "rope_append rope_new p = Some u" "rope_with u (take i (rope_text t)) (height t + 9) True"
    using rope_append_correct [OF rope_new_ok(1), of p] p(2) t(2) by (fastforce simp: rope_with_def rope_new_ok STACK_CAPACITY_def)
  obtain e m where e: "rope_cursor_seek_forward d j = Some e" "rope_cursor_at e m" "rc_rope e = t" "rc_offset e = j"
    using rope_cursor_seek_forward_correct [OF p(3), of j] p(4,5) h r(1) boundary_le [OF r(3)] by auto
  obtain v where v: "rope_push u s = Some v" "rope_with v (take i (rope_text t) @ s) (Suc (max (height t + 9) n)) True"
    using rope_push_correct [OF _ s(1) _ s(2), of u] u(2) s(3) t(2) by (fastforce simp: rope_with_def)
  obtain w where w: "rope_cursor_suffix e = Some w" "rope_with w (drop j (rope_text t)) (height t + 6) True"
    using rope_cursor_suffix_correct [OF e(2)] e(3,4) h t(3) r(3) by auto
  obtain x where "rope_append v w = Some x" "rope_with x (take i (rope_text t) @ s @ drop j (rope_text t)) (max (height t + 9) n + 3) True"
    using rope_append_correct [of v w] v(2) w(2) t(2) s(3) by (fastforce simp: rope_with_def STACK_CAPACITY_def)
  with c(1) p(1) u(1) e(1) v(1) w(1) show ?thesis by (auto simp: rope_replace_def)
qed

lemma rope_from_correct:
  assumes "valid_utf8 s" "length s \<le> (2 * TREE_BASE) ^ Suc n" "n < 255"
  shows "\<exists>t. rope_from s = Some t \<and> rope_with t s (Suc n) True"
  using rope_push_correct [OF rope_new_ok(1) assms(1) _ assms(2,3)] by (auto simp: rope_from_def rope_with_def rope_new_ok)

lemma rope_push_front_correct:
  assumes t: "rope_ok t" "height t < STACK_CAPACITY" "filled (tree_items t)"
    and s: "valid_utf8 s" "length s \<le> (2 * TREE_BASE) ^ Suc n" "n \<le> 200"
  shows "\<exists>u. rope_push_front t s = Some u \<and> rope_with u (s @ rope_text t) (max (height t) n + 3) True"
proof -
  note len = rope_len_correct [OF t(1)] and wf = t(1) [unfolded rope_ok_def, THEN conjunct1]
  have front: "\<exists>u f. rope_from s = Some f \<and> rope_append f t = Some u \<and> rope_with u (s @ rope_text t) (max (height t) n + 3) True"
  proof -
    obtain f where f: "rope_from s = Some f" "rope_with f s (Suc n) True" using rope_from_correct [OF s(1,2)] s(3) by auto
    with rope_append_correct [of f t] t s(3) show ?thesis by (fastforce simp: rope_with_def)
  qed
  consider "s = []" | "s \<noteq> []" "rope_text t = []" | c cs where "s \<noteq> []" "rope_text t \<noteq> []" "tree_items t = c # cs"
    by (cases "tree_items t") (auto simp: rope_text_def)
  then show ?thesis
  proof cases
    case 1
    then show ?thesis using t by (auto simp: rope_push_front_def rope_with_def)
  next
    case 2
    then show ?thesis using rope_push_correct [OF t(1) s(1) _ s(2)] t(2,3) s(3) len
      by (fastforce simp: rope_push_front_def rope_is_empty_def rope_with_def STACK_CAPACITY_def)
  next
    case (3 c cs)
    have first: "tree_first t = Some (Some c)" using ch.tree_first_correct [OF wf] 3(3) by (simp add: first_opt_def)
    have ok: "chunk_ok c" using t(1) 3(3) by (simp add: rope_ok_def)
    show ?thesis
    proof (cases "length (ch_text c) + length s \<le> MAX_BASE")
      case True
      obtain d where d: "chunk_prepend_str c s = Some d" "chunk_ok d" "ch_text d = s @ ch_text c"
        using chunk_prepend_str_correct [OF ok s(1)] True by (auto simp: base_sizes)
      obtain u where u: "update_first chunk_ops (\<lambda>_. d) t = Some u" "wf_tree chunk_ops u" "height u = height t" "tree_items u = d # cs"
        using ch.update_first_correct [OF wf, of "\<lambda>_. d"] 3(3) by auto
      have "filled (d # cs)" using t(3) 3(3) d(3) by (cases cs) (auto simp: filled_def)
      with u d t(1) 3 True first len show ?thesis
        by (auto simp: rope_push_front_def rope_is_empty_def rope_with_def rope_ok_def rope_text_def)
    qed (use front 3 first len in \<open>auto simp: rope_push_front_def rope_is_empty_def\<close>)
  qed
qed

section \<open>Properties\<close>

text \<open>
  C3. A rope is its text. Pushing a text, appending a rope and pushing a text in front never panic; the
  text of the result is the concatenation, every chunk of the result still has the bitmaps of its text,
  only the last chunk may be shorter than \<open>MIN_BASE - 3\<close> bytes (the check of \<open>check_invariants\<close>), and the
  height grows by at most three levels. The fixed array of four pieces in \<open>push\<close> never overflows.
\<close>

theorem rope_concatenates:
  assumes "rope_ok t" "filled (tree_items t)" "height t < STACK_CAPACITY"
    and "rope_ok b" "filled (tree_items b)" "height b < STACK_CAPACITY"
    and "valid_utf8 s" "length s \<le> (2 * TREE_BASE) ^ Suc n" "n \<le> 200"
  shows "(\<exists>u. rope_push t s = Some u \<and> rope_with u (rope_text t @ s) (max (height t) n + 1) True)
    \<and> (\<exists>u. rope_append t b = Some u \<and> rope_with u (rope_text t @ rope_text b) (max (height t) (height b) + 3) True)
    \<and> (\<exists>u. rope_push_front t s = Some u \<and> rope_with u (s @ rope_text t) (max (height t) n + 3) True)"
proof (intro conjI)
  show "\<exists>u. rope_push t s = Some u \<and> rope_with u (rope_text t @ s) (max (height t) n + 1) True"
    using rope_push_correct [OF assms(1,7) _ assms(8)] assms(2,3,9) by (fastforce simp: rope_with_def STACK_CAPACITY_def)
  show "\<exists>u. rope_append t b = Some u \<and> rope_with u (rope_text t @ rope_text b) (max (height t) (height b) + 3) True"
    using rope_append_correct [OF assms(1,4)] assms(2,3,5,6) by (fastforce simp: rope_with_def STACK_CAPACITY_def)
  show "\<exists>u. rope_push_front t s = Some u \<and> rope_with u (s @ rope_text t) (max (height t) n + 3) True"
    using rope_push_front_correct [OF assms(1,3,2,7-9)] .
qed

theorem rope_concatenates_witness:
  "\<exists>t u. rope_push rope_new [104, 105] = Some t \<and> rope_push_front t [0xC3, 0xA9] = Some u \<and> rope_text u = [0xC3, 0xA9, 104, 105]"
proof -
  have v: "valid_utf8 [104, 105]" "valid_utf8 [0xC3, 0xA9]" by code_simp+
  have new: "filled (tree_items rope_new)" "height rope_new < STACK_CAPACITY" by (simp_all add: rope_new_ok STACK_CAPACITY_def)
  obtain t where t: "rope_push rope_new [104, 105] = Some t" "rope_with t [104, 105] 1 True"
    using rope_concatenates [OF rope_new_ok(1) new rope_new_ok(1) new v(1), of 0] by (auto simp: rope_new_ok TREE_BASE_def)
  from rope_concatenates [OF _ _ _ rope_new_ok(1) new v(2), of t 0] t show ?thesis
    by (auto simp: rope_with_def TREE_BASE_def STACK_CAPACITY_def)
qed

text \<open>
  C4. Slicing and replacing a range of a rope whose ends are character boundaries never panic: the slice
  has the text of the range, and after replacing the text is the one before the range, the new text, and
  the one behind the range. Both results are ropes in order with filled chunks.
\<close>

theorem rope_slice_replace:
  assumes "rope_ok t" "filled (tree_items t)" "height t \<le> 9" "i \<le> j"
    and "str_is_char_boundary (rope_text t) i" "str_is_char_boundary (rope_text t) j"
    and "valid_utf8 s" "length s \<le> (2 * TREE_BASE) ^ Suc n" "n \<le> 200"
  shows "(\<exists>u. rope_slice t i j = Some u \<and> rope_with u (take (j - i) (drop i (rope_text t))) (height t + 6) True)
    \<and> (\<exists>u. rope_replace t i j s = Some u \<and>
        rope_with u (take i (rope_text t) @ s @ drop j (rope_text t)) (max (height t + 9) n + 3) True)"
  using rope_slice_correct [OF assms(1) _ assms(2,4-6)] rope_replace_correct [OF assms(1,3,2,4-9)] assms(3) by simp

theorem rope_slice_replace_witness:
  "\<exists>t u v. rope_from [97, 0xC3, 0xA9, 98] = Some t \<and> rope_slice t 1 3 = Some u \<and> rope_text u = [0xC3, 0xA9] \<and>
    rope_replace t 1 3 [101] = Some v \<and> rope_text v = [97, 101, 98]"
proof -
  let ?s = "[97, 0xC3, 0xA9, 98] :: str"
  have v: "valid_utf8 ?s" "valid_utf8 [101]" by code_simp+
  obtain t where t: "rope_from ?s = Some t" "rope_with t ?s 1 True" using rope_from_correct [OF v(1), of 0] by (auto simp: TREE_BASE_def)
  have b: "str_is_char_boundary ?s 1" "str_is_char_boundary ?s 3" by code_simp+
  from rope_slice_replace [OF _ _ _ _ _ _ v(2), of t 1 3 0] t b show ?thesis
    by (auto simp: rope_with_def TREE_BASE_def)
qed

text \<open>
  C16. The summary at the root of a rope of fewer than \<open>2 ^ 32\<close> bytes is the one a scan over all characters of the text
  computes with wrapping 32-bit counters; every summary cached in the tree is the sum of the summaries below it with
  the wrapping addition of the program; and the rows and columns a search sums up over the chunks before a position, in bytes and in UTF-16 code
  units, wrapping too, are those of the text before it. The length is the length of the text.
\<close>

theorem rope_summary_scans:
  assumes "rope_ok t" "length (rope_text t) < 2 ^ 32"
  shows "rope_summary t = summary_from_str_u32 (rope_text t) \<and> rope_summary t = summary_from_str (rope_text t) \<and> cached_u32 t
    \<and> foldl point_add_assign_u32 point_zero (map (\<lambda>c. ts_lines (slice_text_summary c)) (take k (tree_items t))) =
        ts_lines (summary_from_str (chunks_text (take k (tree_items t))))
    \<and> foldl point_add_assign_u32 point_zero (map (\<lambda>c. lines_utf16 (slice_text_summary c)) (take k (tree_items t))) =
        lines_utf16 (summary_from_str (chunks_text (take k (tree_items t))))
    \<and> rope_len t = length (rope_text t) \<and> (rope_is_empty t \<longleftrightarrow> rope_text t = [])"
proof -
  let ?cs = "take k (tree_items t)"
  have ok: "wf_tree chunk_ops t" "\<forall>c \<in> set (tree_items t). chunk_ok c" using assms(1) by (simp_all add: rope_ok_def)
  have pre: "\<forall>c \<in> set ?cs. chunk_ok c" using ok(2) by (auto dest: in_set_takeD)
  have "chunks_text (tree_items t) = chunks_text ?cs @ chunks_text (drop k (tree_items t))"
    using chunks_text_simps(3) [of ?cs "drop k (tree_items t)"] by simp
  then have len: "length (chunks_text ?cs) < 2 ^ 32" using assms(2) by (simp add: rope_text_def)
  note v = rope_text_valid [OF assms(1)]
  have "cached_u32 t" using cached_fits [OF ok] assms(2) by (simp add: rope_text_def)
  then show ?thesis
    using rope_summary_correct [OF assms(1)] rope_len_correct [OF assms(1)] summary_from_str_correct [OF v] summary_from_str_fits [OF v assms(2)]
      chunk_points_fit [OF pre len] summary_from_str_correct [OF chunks_text_valid [OF pre]]
    by (simp add: rope_is_empty_def)
qed

theorem rope_summary_scans_witness:
  "\<exists>t. rope_from [97, 10, 98] = Some t \<and> ts_lines (rope_summary t) = Point 1 1 \<and> rope_len t = 3"
proof -
  let ?s = "[97, 10, 98] :: str"
  have v: "valid_utf8 ?s" by code_simp
  obtain t where t: "rope_from ?s = Some t" "rope_with t ?s 1 True" using rope_from_correct [OF v, of 0] by (auto simp: TREE_BASE_def)
  then have "rope_ok t" "length (rope_text t) < 2 ^ 32" "rope_text t = ?s" by (simp_all add: rope_with_def)
  with rope_summary_scans [of t] have "rope_summary t = summary_from_str ?s" "rope_len t = length ?s" by metis+
  moreover have "ts_lines (summary_from_str ?s) = Point 1 1" by code_simp
  ultimately show ?thesis using t(1) by simp
qed

end
