(* ===== verification/Rope_Measure.thy ===== *)
theory Rope_Measure
  imports Rope_Edit
begin

text \<open>
  Measures of a range of a rope (\<open>TextDimension\<close> and \<open>Cursor::summary\<close> of \<open>crates/rope/src/rope.rs\<close>). A text dimension is a
  record of the operations of the trait; the locale \<open>text_measure\<close> says what they measure of a text, and is
  interpreted for every implementation of the trait.
\<close>

section \<open>Text dimensions\<close>

record 'd text_dim =
  td_dim :: "('d, chunk_summary) dim_ops"
  td_from_text_summary :: "text_summary \<Rightarrow> 'd"
  td_from_chunk :: "chunk \<Rightarrow> 'd"
  td_add_assign :: "'d \<Rightarrow> 'd \<Rightarrow> 'd"

definition summary_dim :: "(text_summary, chunk_summary) dim_ops" where
  "summary_dim = \<lparr>d_zero = summary_zero, d_add = (\<lambda>d s. summary_add d (cs_text s))\<rparr>"

definition summary_text_dim :: "text_summary text_dim" where
  "summary_text_dim = \<lparr>td_dim = summary_dim, td_from_text_summary = (\<lambda>s. s), td_from_chunk = slice_text_summary, td_add_assign = summary_add\<rparr>"

definition len_text_dim :: "nat text_dim" where
  "len_text_dim = \<lparr>td_dim = len_dim, td_from_text_summary = ts_len, td_from_chunk = slice_len, td_add_assign = (+)\<rparr>"

definition utf16_text_dim :: "nat text_dim" where
  "utf16_text_dim = \<lparr>td_dim = utf16_dim, td_from_text_summary = ts_len_utf16, td_from_chunk = slice_len_utf16, td_add_assign = (+)\<rparr>"

definition point_text_dim :: "nat point text_dim" where
  "point_text_dim = \<lparr>td_dim = point_dim, td_from_text_summary = ts_lines, td_from_chunk = slice_lines, td_add_assign = point_add_assign\<rparr>"

definition point_utf16_text_dim :: "nat point text_dim" where
  "point_utf16_text_dim = \<lparr>td_dim = point_utf16_dim, td_from_text_summary = lines_utf16,
     td_from_chunk = (\<lambda>c. Point (row (slice_lines c)) (slice_last_line_len_utf16 c)), td_add_assign = point_add_assign\<rparr>"

definition pair_text_dim :: "'a text_dim \<Rightarrow> 'b text_dim \<Rightarrow> ('a \<times> 'b) text_dim" where
  "pair_text_dim a b = \<lparr>td_dim = pair_dim (td_dim a) (td_dim b),
     td_from_text_summary = (\<lambda>s. (td_from_text_summary a s, td_from_text_summary b s)),
     td_from_chunk = (\<lambda>c. (td_from_chunk a c, td_from_chunk b c)),
     td_add_assign = (\<lambda>d e. (td_add_assign a (fst d) (fst e), td_add_assign b (snd d) (snd e)))\<rparr>"

section \<open>The summary of a range\<close>

definition rope_cursor_summary :: "'d text_dim \<Rightarrow> rope_cursor \<Rightarrow> nat \<Rightarrow> ('d \<times> rope_cursor) option" where
  "rope_cursor_summary D c end_offset = do {
     rust_assert (rc_offset c \<le> end_offset);
     rust_assert (end_offset \<le> rope_len (rc_rope c));
     let chunks = rc_chunks c;
     item \<leftarrow> cursor_item chunks;
     chunk_end \<leftarrow> cursor_end len_dim chunks;
     summary \<leftarrow> (case item of
         Some start_chunk \<Rightarrow> do {
           rust_assert (cursor_start chunks \<le> rc_offset c);
           let start_ix = rc_offset c - cursor_start chunks;
           let end_ix = min end_offset chunk_end - cursor_start chunks;
           piece \<leftarrow> slice_slice start_chunk start_ix end_ix;
           Some (td_add_assign D (d_zero (td_dim D)) (td_from_chunk D piece))
         }
       | None \<Rightarrow> Some (d_zero (td_dim D)));
     (summary, chunks) \<leftarrow> (if chunk_end < end_offset then do {
         chunks \<leftarrow> cursor_next len_dim chunks;
         (middle, chunks) \<leftarrow> cursor_summary (td_dim D) len_dim (ord_cmp end_offset) Right chunks;
         let summary = td_add_assign D summary middle;
         item \<leftarrow> cursor_item chunks;
         summary \<leftarrow> (case item of
             Some end_chunk \<Rightarrow> do {
               rust_assert (cursor_start chunks \<le> end_offset);
               let end_ix = end_offset - cursor_start chunks;
               piece \<leftarrow> slice_slice end_chunk 0 end_ix;
               Some (td_add_assign D summary (td_from_chunk D piece))
             }
           | None \<Rightarrow> Some summary);
         Some (summary, chunks)
       } else Some (summary, chunks));
     Some (summary, c\<lparr>rc_chunks := chunks, rc_offset := end_offset\<rparr>)
   }"

section \<open>What a dimension measures\<close>

lemma between_valid:
  assumes "rope_ok t" "str_is_char_boundary (rope_text t) i" "str_is_char_boundary (rope_text t) j" "i \<le> j"
  shows "valid_utf8 (between (rope_text t) i j)"
proof -
  have v: "valid_utf8 (take j (rope_text t))" using valid_split(1) [OF rope_text_valid [OF assms(1)] assms(3)] .
  have "str_is_char_boundary (take j (rope_text t)) i" using assms(2-4) boundary_le [OF assms(3)] by (auto simp: str_is_char_boundary_def)
  from valid_split(2) [OF v this] show ?thesis by (simp add: drop_take)
qed

locale text_measure =
  fixes D :: "'d text_dim" and measured :: "str \<Rightarrow> 'd"
  assumes lawful: "lawful_dim chunk_ops (td_dim D)"
    and zero: "d_zero (td_dim D) = measured []"
    and add: "valid_utf8 a \<Longrightarrow> valid_utf8 b \<Longrightarrow> td_add_assign D (measured a) (measured b) = measured (a @ b)"
    and from_chunk: "chunk_ok c \<Longrightarrow> td_from_chunk D c = measured (ch_text c)"
    and from_summary: "valid_utf8 s \<Longrightarrow> td_from_text_summary D (summary_of s) = measured s"
    and add_summary: "valid_utf8 a \<Longrightarrow> valid_utf8 s \<Longrightarrow> cs_text u = summary_of s \<Longrightarrow> d_add (td_dim D) (measured a) u = measured (a @ s)"

sublocale text_measure \<subseteq> out: summary_out_laws chunk_ops len_dim "td_dim D"
  by unfold_locales (rule lawful)

context text_measure
begin

lemma advance_measured:
  "valid_utf8 a \<Longrightarrow> \<forall>c \<in> set cs. chunk_ok c \<Longrightarrow> advance (td_dim D) (measured a) (sums chunk_ops cs) = measured (a @ chunks_text cs)"
proof (induction cs arbitrary: a)
  case (Cons c cs)
  then have "d_add (td_dim D) (measured a) (item_summary chunk_ops c) = measured (a @ ch_text c)" "valid_utf8 (a @ ch_text c)"
    using add_summary [of a "ch_text c" "chunk_summary_of c"]
    by (auto simp: chunk_ops_def valid_utf8_append chunk_okD chunk_summary_of.rep_eq slice_text_summary_correct)
  with Cons show ?case by simp
qed simp

lemma measured_chunks: "\<forall>c \<in> set cs. chunk_ok c \<Longrightarrow> advance (td_dim D) (d_zero (td_dim D)) (sums chunk_ops cs) = measured (chunks_text cs)"
  using advance_measured [of "[]"] by (simp add: zero)

lemma measured_add_zero: "chunk_ok c \<Longrightarrow> td_add_assign D (d_zero (td_dim D)) (td_from_chunk D c) = measured (ch_text c)"
  using add [of "[]" "ch_text c"] chunk_okD(2) [of c] by (simp add: zero from_chunk)

lemma measured_extent: "rope_ok t \<Longrightarrow> extent (td_dim D) t = measured (rope_text t)"
  using add_summary [of "[]" "rope_text t" "summary t"] rope_summary_correct [of t] rope_text_valid [of t]
  by (simp add: extent_def zero rope_summary_def)

lemma summary_rest:
  assumes c: "rope_ok t" "c_tree c = t" "c_did_seek c" "cursor_at chunk_ops len_dim c k" "height t < STACK_CAPACITY"
    and e: "k < length (tree_items t)" "chunk_pos t (Suc k) < e" "e \<le> length (rope_text t)" "str_is_char_boundary (rope_text t) e"
  shows "\<exists>c1 c2 k'. cursor_next len_dim c = Some c1 \<and>
    cursor_summary (td_dim D) len_dim (ord_cmp e) Right c1 = Some (measured (between (rope_text t) (chunk_pos t (Suc k)) (chunk_pos t k')), c2) \<and>
    (case index_opt (tree_items t) k' of
       Some d \<Rightarrow> (\<exists>p. slice_slice d 0 (e - chunk_pos t k') = Some p \<and> chunk_ok p \<and> ch_text p = between (rope_text t) (chunk_pos t k') e)
     | None \<Rightarrow> chunk_pos t k' = e) \<and> chunk_pos t (Suc k) \<le> chunk_pos t k' \<and>
    c_tree c2 = t \<and> c_did_seek c2 \<and> cursor_at chunk_ops len_dim c2 k' \<and> chunk_pos t k' \<le> e \<and> e \<le> chunk_pos t (Suc k')"
proof -
  have w: "wf_cursor chunk_ops c" using c by (simp add: wf_cursor_def rope_ok_def)
  obtain c1 where c1: "cursor_next len_dim c = Some c1" "c_tree c1 = t" "c_did_seek c1" "cursor_at chunk_ops len_dim c1 (Suc k)"
    using ch_len.next_correct [OF w c(4)] c(2,3) e(1) by auto
  have w1: "wf_cursor chunk_ops c1" using w c(2) c1(2) by (simp add: wf_cursor_def)
  let ?k = "seek_to chunk_ops len_dim (ord_cmp e) Right t (Suc k)"
  have k: "chunk_pos t (Suc k) \<le> e" "Suc k \<le> length (tree_items t)" using e(1,2) by auto
  note so = seek_offset [OF k refl]
  let ?m = "take (?k - Suc k) (drop (Suc k) (tree_items t))"
  have ok: "\<forall>c \<in> set ?m. chunk_ok c" using c(1) by (auto simp: rope_ok_def dest!: in_set_takeD in_set_dropD)
  obtain c2 where c2: "cursor_summary (td_dim D) len_dim (ord_cmp e) Right c1 = Some (measured (chunks_text ?m), c2)"
    "c_tree c2 = t" "c_did_seek c2" "cursor_at chunk_ops len_dim c2 ?k"
    using out.cursor_summary_correct [OF w1 c1(4), of "ord_cmp e" ?k Right] so(1) c1(2) measured_chunks [OF ok] by auto
  have stop: "e \<le> chunk_pos t (Suc ?k)" using so(3,5) chunk_pos_end [of t "Suc ?k"] e(3) by (cases "?k < length (tree_items t)") auto
  have "case index_opt (tree_items t) ?k of
       Some d \<Rightarrow> (\<exists>p. slice_slice d 0 (e - chunk_pos t ?k) = Some p \<and> chunk_ok p \<and> ch_text p = between (rope_text t) (chunk_pos t ?k) e)
     | None \<Rightarrow> chunk_pos t ?k = e"
    using chunk_piece [OF c(1) _ order_refl so(4) stop chunk_pos_boundary [OF c(1)] e(4)] so(4) chunk_pos_end [of t ?k] e(3)
    by (auto simp: index_opt_def)
  with c1(1) c2 so(4) stop chunks_between [OF so(2), of t] chunk_pos_mono [OF so(2), of t] show ?thesis by auto
qed

lemma rope_cursor_summary_correct:
  assumes c: "rope_cursor_at c k" "height (rc_rope c) < STACK_CAPACITY"
    and e: "rc_offset c \<le> e" "e \<le> length (rope_text (rc_rope c))"
    and b: "str_is_char_boundary (rope_text (rc_rope c)) (rc_offset c)" "str_is_char_boundary (rope_text (rc_rope c)) e"
  shows "\<exists>c' k'. rope_cursor_summary D c e = Some (measured (between (rope_text (rc_rope c)) (rc_offset c) e), c') \<and>
    rope_cursor_at c' k' \<and> rc_rope c' = rc_rope c \<and> rc_offset c' = e"
proof -
  let ?t = "rc_rope c" and ?o = "rc_offset c"
  have at: "rope_ok ?t" "c_tree (rc_chunks c) = ?t" "c_did_seek (rc_chunks c)" "cursor_at chunk_ops len_dim (rc_chunks c) k"
    "chunk_pos ?t k \<le> ?o" "?o \<le> chunk_pos ?t (Suc k)" using c(1) by (simp_all add: rope_cursor_at_def)
  have wf: "wf_tree chunk_ops ?t" using at(1) by (simp add: rope_ok_def)
  have len: "rope_len ?t = length (rope_text ?t)" using rope_len_correct [OF at(1)] .
  note item = cursor_item_correct [OF at(4,3), unfolded at(2)] and start = cursor_at_position [OF at(4), unfolded at(2)]
  note stop = cursor_end_correct [OF at(4,3), unfolded at(2), OF wf]
  show ?thesis
  proof (cases "k < length (tree_items ?t)")
    case False
    then have "?o = length (rope_text ?t)" "e = ?o" using at(5) chunk_pos_end [of ?t k] e by auto
    moreover have "rope_cursor_at (c\<lparr>rc_chunks := rc_chunks c, rc_offset := ?o\<rparr>) k" using c(1) by (simp add: rope_cursor_at_def)
    ultimately show ?thesis using False chunk_pos_end [of ?t k]
      by (auto simp: rope_cursor_summary_def item stop len zero)
  next
    case True
    let ?m = "min e (chunk_pos ?t (Suc k))"
    have m: "?o \<le> ?m" "?m \<le> chunk_pos ?t (Suc k)" "str_is_char_boundary (rope_text ?t) ?m"
      using e(1) at(6) b(2) chunk_pos_boundary [OF at(1)] by (auto simp: min_def)
    obtain p where p: "slice_slice (tree_items ?t ! k) (?o - chunk_pos ?t k) (?m - chunk_pos ?t k) = Some p" "chunk_ok p" "ch_text p = between (rope_text ?t) ?o ?m"
      using chunk_piece [OF at(1) True at(5) m(1,2) b(1) m(3)] by blast
    show ?thesis
    proof (cases "chunk_pos ?t (Suc k) < e")
      case False
      then have "?m = e" by simp
      with False p True at e len measured_add_zero [OF p(2)] show ?thesis
        by (auto simp: rope_cursor_summary_def item stop cursor_start_def start rope_cursor_at_def)
    next
      case far: True
      then have meq: "?m = chunk_pos ?t (Suc k)" by simp
      obtain c1 c2 k' where r: "cursor_next len_dim (rc_chunks c) = Some c1"
        "cursor_summary (td_dim D) len_dim (ord_cmp e) Right c1 = Some (measured (between (rope_text ?t) ?m (chunk_pos ?t k')), c2)"
        "case index_opt (tree_items ?t) k' of
           Some d \<Rightarrow> (\<exists>p. slice_slice d 0 (e - chunk_pos ?t k') = Some p \<and> chunk_ok p \<and> ch_text p = between (rope_text ?t) (chunk_pos ?t k') e)
         | None \<Rightarrow> chunk_pos ?t k' = e" "?m \<le> chunk_pos ?t k'"
        "c_tree c2 = ?t" "c_did_seek c2" "cursor_at chunk_ops len_dim c2 k'" "chunk_pos ?t k' \<le> e" "e \<le> chunk_pos ?t (Suc k')"
        using summary_rest [OF at(1-4) c(2) True far e(2) b(2)] unfolding meq by blast
      note item2 = cursor_item_correct [OF r(7,6), unfolded r(5)] and start2 = cursor_at_position [OF r(7), unfolded r(5)]
      have kb: "str_is_char_boundary (rope_text ?t) (chunk_pos ?t k')" by (rule chunk_pos_boundary [OF at(1)])
      have one: "td_add_assign D (measured (between (rope_text ?t) ?o ?m)) (measured (between (rope_text ?t) ?m (chunk_pos ?t k'))) = measured (between (rope_text ?t) ?o (chunk_pos ?t k'))"
        using add [OF between_valid [OF at(1) b(1) m(3,1)] between_valid [OF at(1) m(3) kb r(4)]] between_append [OF m(1) r(4)] by simp
      have two: "td_add_assign D (measured (between (rope_text ?t) ?o (chunk_pos ?t k'))) (measured (between (rope_text ?t) (chunk_pos ?t k') e)) = measured (between (rope_text ?t) ?o e)"
        using add [OF between_valid [OF at(1) b(1) kb] between_valid [OF at(1) kb b(2) r(8)]] between_append [of ?o "chunk_pos ?t k'" e] m(1) r(4,8) by simp
      have "rope_cursor_summary D c e = Some (measured (between (rope_text ?t) ?o e), c\<lparr>rc_chunks := c2, rc_offset := e\<rparr>)"
        using r(1-3,8) p True far e at(5) len measured_add_zero [OF p(2)] one two from_chunk
        by (auto simp: rope_cursor_summary_def item stop cursor_start_def start item2 start2 simp del: min.bounded_iff split: option.splits)
      with r(5-9) at(1) show ?thesis by (auto simp: rope_cursor_at_def)
    qed
  qed
qed

end

section \<open>The dimensions of the rope\<close>

abbreviation lines_of :: "str \<Rightarrow> nat point" where
  "lines_of s \<equiv> Point (newlines s) (length (last_line s))"

abbreviation lines_utf16_of :: "str \<Rightarrow> nat point" where
  "lines_utf16_of s \<equiv> Point (newlines s) (nutf16 (last_line s))"

lemma summary_of_Nil: "summary_of [] = summary_zero"
  by (simp add: summary_of_def summary_zero_def point_zero_def row_chars_def last_line_def)

lemma summary_add_shift: "ts_ok t \<Longrightarrow> summary_add (summary_add s t) u = summary_add s (summary_add t u)"
  using summary_add_longest_assoc [of t s u]
  by (intro text_summary.equality) (auto simp: summary_add_fields(1-7) point_add_fields point_eq_iff ts_ok_def)

lemma lawful_summary_dim: "lawful_dim chunk_ops summary_dim"
proof -
  have "summary_add d (cs_text (chunk_summary_add a b)) = summary_add (summary_add d (cs_text a)) (cs_text b)" for d a b
    using cs_text [of a] by (simp add: chunk_summary_add.rep_eq summary_add_shift)
  then show ?thesis by (simp add: lawful_dim_def chunk_ops_def summary_dim_def)
qed

interpretation summary_measure: text_measure summary_text_dim summary_of
  by unfold_locales
    (simp_all add: summary_text_dim_def lawful_summary_dim slice_text_summary_correct summary_of_append,
      simp_all add: summary_dim_def summary_of_Nil summary_of_append)

interpretation len_measure: text_measure len_text_dim length
  by unfold_locales (simp_all add: len_text_dim_def lawful_text_dims, simp_all add: len_dim_def slice_len_def summary_of_def)

interpretation utf16_measure: text_measure utf16_text_dim nutf16
proof unfold_locales
  show "chunk_ok c \<Longrightarrow> td_from_chunk utf16_text_dim c = nutf16 (ch_text c)" for c
    using chunk_okD [of c] count_utf16 [of "ch_chars_utf16 c" "ch_text c"] by (simp add: utf16_text_dim_def slice_len_utf16_def)
qed (simp_all add: utf16_text_dim_def lawful_text_dims, simp_all add: utf16_dim_def summary_of_def)

lemma lines_append:
  "point_add_assign (lines_of a) (lines_of b) = lines_of (a @ b)" "point_add_assign (lines_utf16_of a) (lines_utf16_of b) = lines_utf16_of (a @ b)"
  by (simp_all add: point_add_assign_def newlines_append last_line_append point_eq_iff)

lemma lines_Nil: "point_zero = lines_of []" "point_zero = lines_utf16_of []"
  by (simp_all add: point_zero_def last_line_def)

interpretation point_measure: text_measure point_text_dim lines_of
  by unfold_locales (simp_all add: point_text_dim_def lawful_text_dims slice_lines_correct lines_append,
      simp_all add: point_dim_def lines_Nil [simplified] summary_of_def lines_append)

interpretation point_utf16_measure: text_measure point_utf16_text_dim lines_utf16_of
proof unfold_locales
  show "chunk_ok c \<Longrightarrow> td_from_chunk point_utf16_text_dim c = lines_utf16_of (ch_text c)" for c
    using slice_text_summary_correct [of c] by (simp add: point_utf16_text_dim_def slice_lines_correct slice_text_summary_def summary_of_def split: prod.splits)
qed (simp_all add: point_utf16_text_dim_def lawful_text_dims lines_append, simp_all add: point_utf16_dim_def lines_Nil(2) [simplified] summary_of_def lines_utf16_def lines_append)

lemma pair_measure: "text_measure A f \<Longrightarrow> text_measure B g \<Longrightarrow> text_measure (pair_text_dim A B) (\<lambda>s. (f s, g s))"
  unfolding text_measure_def by (simp add: pair_text_dim_def lawful_pair_dim) (simp add: pair_dim_def)

section \<open>Properties\<close>

text \<open>
  C13. A cursor measures any range of a rope of fewer than \<open>2 ^ 32\<close> bytes between character boundaries without copying it. Its
  summary of the range is the one a scan over the characters of the range computes with wrapping 32-bit counters (below this
  length they do not wrap), for every dimension: the whole summary, the
  length in bytes, the length in UTF-16 code units, and the rows and columns in bytes and in UTF-16 code
  units; the cursor moves to the end of the range. The same dimensions of the whole rope are read off
  the root.
\<close>

theorem rope_range_summary:
  assumes "rope_ok t" "height t < STACK_CAPACITY" "i \<le> j"
    and "str_is_char_boundary (rope_text t) i" "str_is_char_boundary (rope_text t) j" "length (rope_text t) < 2 ^ 32"
  shows "\<exists>c. rope_cursor_new t i = Some c \<and>
    (\<exists>c'. rope_cursor_summary summary_text_dim c j = Some (summary_from_str_u32 (between (rope_text t) i j), c') \<and> rc_offset c' = j) \<and>
    (\<exists>c'. rope_cursor_summary len_text_dim c j = Some (j - i, c') \<and> rc_offset c' = j) \<and>
    (\<exists>c'. rope_cursor_summary utf16_text_dim c j = Some (nutf16 (between (rope_text t) i j), c') \<and> rc_offset c' = j) \<and>
    (\<exists>c'. rope_cursor_summary point_text_dim c j = Some (parse_str (between (rope_text t) i j), c') \<and> rc_offset c' = j) \<and>
    (\<exists>c'. rope_cursor_summary point_utf16_text_dim c j = Some (lines_utf16_of (between (rope_text t) i j), c') \<and> rc_offset c' = j) \<and>
    extent point_dim t = parse_str (rope_text t) \<and> extent utf16_dim t = nutf16 (rope_text t)"
proof -
  note len = boundary_le [OF assms(4)] boundary_le [OF assms(5)]
  obtain c k where c: "rope_cursor_new t i = Some c" "rope_cursor_at c k" "rc_rope c = t" "rc_offset c = i"
    using rope_cursor_new_correct [OF assms(1,2) len(1)] by blast
  have fit: "height (rc_rope c) < STACK_CAPACITY" "rc_offset c \<le> j" "j \<le> length (rope_text (rc_rope c))"
    "str_is_char_boundary (rope_text (rc_rope c)) (rc_offset c)" "str_is_char_boundary (rope_text (rc_rope c)) j"
    using assms c(3,4) len by simp_all
  have size: "length (between (rope_text t) i j) = j - i" using len by simp
  have scan: "summary_of (between (rope_text t) i j) = summary_from_str_u32 (between (rope_text t) i j)"
    using summary_from_str_fits [OF between_valid [OF assms(1,4,5,3)]] size len(2) assms(6) by simp
  have ext: "extent point_dim t = lines_of (rope_text t)" "extent utf16_dim t = nutf16 (rope_text t)"
    using point_measure.measured_extent [OF assms(1)] utf16_measure.measured_extent [OF assms(1)]
    by (simp_all add: point_text_dim_def utf16_text_dim_def)
  show ?thesis
    using summary_measure.rope_cursor_summary_correct [OF c(2) fit] len_measure.rope_cursor_summary_correct [OF c(2) fit]
      utf16_measure.rope_cursor_summary_correct [OF c(2) fit] point_measure.rope_cursor_summary_correct [OF c(2) fit]
      point_utf16_measure.rope_cursor_summary_correct [OF c(2) fit] c(1) ext
    unfolding c(3,4) scan size by (simp add: parse_str_eq) blast
qed

theorem rope_range_summary_witness:
  "\<exists>t c c'. rope_from [97, 10, 0xC3, 0xA9, 98] = Some t \<and> rope_cursor_new t 1 = Some c \<and>
    rope_cursor_summary point_text_dim c 4 = Some (Point 1 2, c')"
proof -
  let ?s = "[97, 10, 0xC3, 0xA9, 98] :: str"
  have v: "valid_utf8 ?s" by code_simp
  obtain t where t: "rope_from ?s = Some t" "rope_with t ?s 1 True" using rope_from_correct [OF v, of 0] by (auto simp: TREE_BASE_def)
  have b: "str_is_char_boundary ?s 1" "str_is_char_boundary ?s 4" "parse_str (between ?s 1 4) = (Point 1 2 :: nat point)" by code_simp+
  from rope_range_summary [of t 1 4] t b show ?thesis by (auto simp: rope_with_def STACK_CAPACITY_def)
qed

end
