(* ===== verification/Rope_Position.thy ===== *)
theory Rope_Position
  imports Rope_Measure
begin

text \<open>
  Positions in a rope (\<open>crates/rope/src/rope.rs\<close>): conversions between byte offsets, UTF-16 offsets, points and UTF-16
  points, and character boundaries. Every conversion finds the chunk that holds the position, by
  one dimension of the summary, and converts within it. The operations of the types of positions are
  arguments of the search, with a subtraction below zero as \<open>None\<close>.
\<close>

section \<open>Conversions\<close>

text \<open>\<open>find\<close> with a pair of dimensions, the overshoot behind the start of the chunk, and the conversion within the chunk
  added to the start in the second dimension.\<close>

definition via_find ::
  "('a, chunk_summary) dim_ops \<Rightarrow> ('b, chunk_summary) dim_ops \<Rightarrow> ('a \<Rightarrow> 'a \<Rightarrow> ordering) \<Rightarrow> ('a \<Rightarrow> 'a \<Rightarrow> 'a) \<Rightarrow> ('b \<Rightarrow> 'b \<Rightarrow> 'b) \<Rightarrow> 'b
    \<Rightarrow> (chunk \<Rightarrow> 'a \<Rightarrow> 'b option) \<Rightarrow> rope \<Rightarrow> 'a \<Rightarrow> 'b option" where
  "via_find A B cmp sub add none convert t x =
     (case find (pair_dim A B) (\<lambda>d. cmp x (fst d)) Left t of (start, _, item) \<Rightarrow> do {
       rust_assert (cmp x (fst start) \<noteq> Less);
       let overshoot = sub x (fst start);
       r \<leftarrow> (case item of Some c \<Rightarrow> convert c overshoot | None \<Rightarrow> Some none);
       Some (add (snd start) r)
     })"

text \<open>The same with a cursor instead of \<open>find\<close>.\<close>

definition via_seek ::
  "('a, chunk_summary) dim_ops \<Rightarrow> ('b, chunk_summary) dim_ops \<Rightarrow> ('a \<Rightarrow> 'a \<Rightarrow> ordering) \<Rightarrow> ('a \<Rightarrow> 'a \<Rightarrow> 'a) \<Rightarrow> ('b \<Rightarrow> 'b \<Rightarrow> 'b) \<Rightarrow> 'b
    \<Rightarrow> (chunk \<Rightarrow> 'a \<Rightarrow> 'b option) \<Rightarrow> rope \<Rightarrow> 'a \<Rightarrow> 'b option" where
  "via_seek A B cmp sub add none convert t x = do {
     (_, c) \<leftarrow> cursor_seek (pair_dim A B) (\<lambda>d. cmp x (fst d)) Left (cursor_new (pair_dim A B) t);
     let start = cursor_start c;
     rust_assert (cmp x (fst start) \<noteq> Less);
     let overshoot = sub x (fst start);
     item \<leftarrow> cursor_item c;
     r \<leftarrow> (case item of Some c \<Rightarrow> convert c overshoot | None \<Rightarrow> Some none);
     Some (add (snd start) r)
   }"

definition rope_offset_to_offset_utf16 :: "rope \<Rightarrow> nat \<Rightarrow> nat option" where
  "rope_offset_to_offset_utf16 t offset = (if ts_len (rope_summary t) \<le> offset then Some (ts_len_utf16 (rope_summary t))
     else via_find len_dim utf16_dim ord_cmp (-) (+) 0 (\<lambda>c o'. Some (slice_offset_to_offset_utf16 c o')) t offset)"

definition rope_offset_utf16_to_offset :: "rope \<Rightarrow> nat \<Rightarrow> nat option" where
  "rope_offset_utf16_to_offset t offset = (if ts_len_utf16 (rope_summary t) \<le> offset then Some (ts_len (rope_summary t))
     else via_find utf16_dim len_dim ord_cmp (-) (+) 0 slice_offset_utf16_to_offset t offset)"

definition rope_offset_to_point :: "rope \<Rightarrow> nat \<Rightarrow> nat point option" where
  "rope_offset_to_point t offset = (if ts_len (rope_summary t) \<le> offset then Some (ts_lines (rope_summary t))
     else via_find len_dim point_dim ord_cmp (-) point_add point_zero slice_offset_to_point t offset)"

definition rope_offset_to_point_utf16 :: "rope \<Rightarrow> nat \<Rightarrow> nat point option" where
  "rope_offset_to_point_utf16 t offset = (if ts_len (rope_summary t) \<le> offset then Some (lines_utf16 (rope_summary t))
     else via_find len_dim point_utf16_dim ord_cmp (-) point_add point_zero (\<lambda>c o'. Some (slice_offset_to_point_utf16 c o')) t offset)"

definition rope_point_to_point_utf16 :: "rope \<Rightarrow> nat point \<Rightarrow> nat point option" where
  "rope_point_to_point_utf16 t p = (if point_cmp_fields p (ts_lines (rope_summary t)) \<noteq> Less then Some (lines_utf16 (rope_summary t))
     else via_find point_dim point_utf16_dim point_cmp_fields point_sub point_add point_zero (\<lambda>c q. Some (slice_point_to_point_utf16 c q)) t p)"

definition rope_point_utf16_to_point :: "rope \<Rightarrow> nat point \<Rightarrow> nat point option" where
  "rope_point_utf16_to_point t p = (if point_cmp_fields p (lines_utf16 (rope_summary t)) \<noteq> Less then Some (ts_lines (rope_summary t))
     else via_seek point_utf16_dim point_dim point_cmp_fields point_sub point_add point_zero
       (\<lambda>c q. do { o' \<leftarrow> slice_point_utf16_to_offset c q; slice_offset_to_point c o' }) t p)"

definition rope_point_to_offset :: "rope \<Rightarrow> nat point \<Rightarrow> nat option" where
  "rope_point_to_offset t p = (if point_cmp_fields p (ts_lines (rope_summary t)) \<noteq> Less then Some (ts_len (rope_summary t))
     else via_find point_dim len_dim point_cmp_fields point_sub (+) 0 (\<lambda>c q. Some (slice_point_to_offset c q)) t p)"

definition rope_point_to_offset_utf16 :: "rope \<Rightarrow> nat point \<Rightarrow> nat option" where
  "rope_point_to_offset_utf16 t p = (if point_cmp_fields p (ts_lines (rope_summary t)) \<noteq> Less then Some (ts_len_utf16 (rope_summary t))
     else via_seek point_dim utf16_dim point_cmp_fields point_sub (+) 0 (\<lambda>c q. Some (slice_point_to_offset_utf16 c q)) t p)"

text \<open>The flag \<open>clip\<close> of the two functions below only decides whether a debug build panics.\<close>

definition rope_point_utf16_to_offset :: "rope \<Rightarrow> nat point \<Rightarrow> nat option" where
  "rope_point_utf16_to_offset t p = (if point_cmp_fields p (lines_utf16 (rope_summary t)) \<noteq> Less then Some (ts_len (rope_summary t))
     else via_find point_utf16_dim len_dim point_cmp_fields point_sub (+) 0 slice_point_utf16_to_offset t p)"

definition rope_point_utf16_to_offset_utf16 :: "rope \<Rightarrow> nat point \<Rightarrow> nat option" where
  "rope_point_utf16_to_offset_utf16 t p = (if point_cmp_fields p (lines_utf16 (rope_summary t)) \<noteq> Less then Some (ts_len_utf16 (rope_summary t))
     else via_seek point_utf16_dim utf16_dim point_cmp_fields point_sub (+) 0
       (\<lambda>c q. do { o' \<leftarrow> slice_point_utf16_to_offset c q; Some (slice_offset_to_offset_utf16 c o') }) t p)"

definition rope_unclipped_point_utf16_to_point :: "rope \<Rightarrow> nat point \<Rightarrow> nat point option" where
  "rope_unclipped_point_utf16_to_point t p = (if point_cmp_fields p (lines_utf16 (rope_summary t)) \<noteq> Less then Some (ts_lines (rope_summary t))
     else via_find point_utf16_dim point_dim point_cmp_fields point_sub point_add point_zero slice_unclipped_point_utf16_to_point t p)"

section \<open>Finding the chunk of a position\<close>

text \<open>Where a search ends: the target is behind everything before chunk \<open>k\<close> and not behind chunk \<open>k\<close>.\<close>

definition chunk_at :: "(str \<Rightarrow> 'd) \<Rightarrow> rope \<Rightarrow> ('d \<Rightarrow> ordering) \<Rightarrow> bias \<Rightarrow> nat \<Rightarrow> bool" where
  "chunk_at f t target b k \<longleftrightarrow> k \<le> length (tree_items t) \<and>
     (k = 0 \<or> beyond (target (f (chunks_text (take k (tree_items t))))) b) \<and>
     (k < length (tree_items t) \<longrightarrow> \<not> beyond (target (f (chunks_text (take (Suc k) (tree_items t))))) b)"

context text_measure
begin

lemma positions_measured:
  "valid_utf8 a \<Longrightarrow> \<forall>c \<in> set cs. chunk_ok c \<Longrightarrow>
   positions (td_dim D) (measured a) (sums chunk_ops cs) = map (\<lambda>i. measured (a @ chunks_text (take (Suc i) cs))) [0..<length cs]"
proof (rule nth_equalityI)
  fix i assume a: "valid_utf8 a" "\<forall>c \<in> set cs. chunk_ok c" "i < length (positions (td_dim D) (measured a) (sums chunk_ops cs))"
  then have "\<forall>c \<in> set (take (Suc i) cs). chunk_ok c" by (auto dest: in_set_takeD)
  with a show "positions (td_dim D) (measured a) (sums chunk_ops cs) ! i = map (\<lambda>i. measured (a @ chunks_text (take (Suc i) cs))) [0..<length cs] ! i"
    using advance_measured [of a "take (Suc i) cs"] by (simp add: nth_positions take_map)
qed simp

text \<open>The search for a target whose comparison never increases along the text ends at a chunk that contains the target, or
  behind the last one.\<close>

lemma antitone_measured:
  assumes t: "rope_ok t" and mono: "\<And>a b. valid_utf8 a \<Longrightarrow> valid_utf8 b \<Longrightarrow> target (measured (a @ b)) \<le> target (measured a)"
  shows "antitone_target target (positions (td_dim D) (d_zero (td_dim D)) (sums chunk_ops (tree_items t)))"
proof -
  let ?cs = "tree_items t"
  have ok: "\<forall>c \<in> set ?cs. chunk_ok c" using t by (simp add: rope_ok_def)
  have "target (measured (chunks_text (take (Suc j) ?cs))) \<le> target (measured (chunks_text (take (Suc i) ?cs)))" if "i < j" for i j
  proof -
    have "take (Suc j) ?cs = take (Suc i) ?cs @ take (j - i) (drop (Suc i) ?cs)"
      using that take_add [of "Suc i" "j - i" ?cs] by simp
    moreover have "valid_utf8 (chunks_text (take (Suc i) ?cs))" "valid_utf8 (chunks_text (take (j - i) (drop (Suc i) ?cs)))"
      using ok by (auto intro!: chunks_text_valid dest!: in_set_takeD in_set_dropD)
    ultimately show ?thesis using mono by simp
  qed
  then show ?thesis
    using positions_measured [of "[]" ?cs] ok by (simp add: antitone_target_def zero sorted_wrt_map sorted_wrt_upt sorted_wrt_iff_nth_less)
qed

lemma seek_index_chunk:
  assumes t: "rope_ok t"
  shows "chunk_at measured t target b (seek_index target b (positions (td_dim D) (d_zero (td_dim D)) (sums chunk_ops (tree_items t))))"
proof -
  let ?ps = "positions (td_dim D) (d_zero (td_dim D)) (sums chunk_ops (tree_items t))"
  let ?k = "seek_index target b ?ps"
  have ok: "\<forall>c \<in> set (tree_items t). chunk_ok c" using t by (simp add: rope_ok_def)
  have nth: "?ps ! i = measured (chunks_text (take (Suc i) (tree_items t)))" if "i < length (tree_items t)" for i
    using positions_measured [of "[]" "tree_items t"] ok that by (simp add: zero)
  have k: "?k \<le> length (tree_items t)" using seek_index_le [of target b ?ps] by simp
  show ?thesis unfolding chunk_at_def
  proof (intro conjI impI)
    show "?k = 0 \<or> beyond (target (measured (chunks_text (take ?k (tree_items t))))) b"
      using before_seek_index [of "?k - 1" target b ?ps] nth [of "?k - 1"] k by (cases "?k") auto
    show "?k < length (tree_items t) \<Longrightarrow> \<not> beyond (target (measured (chunks_text (take (Suc ?k) (tree_items t))))) b"
      using nth_seek_index [of target b ?ps] nth [of ?k] by simp
  qed (rule k)
qed

lemma pos_measured: "rope_ok t \<Longrightarrow> pos_at chunk_ops (td_dim D) t k = measured (chunks_text (take k (tree_items t)))"
  using measured_chunks [of "take k (tree_items t)"] by (auto simp: pos_at_def rope_ok_def dest: in_set_takeD)

lemma find_chunk:
  assumes t: "rope_ok t" "tree_items t \<noteq> []"
    and mono: "\<And>a b. valid_utf8 a \<Longrightarrow> valid_utf8 b \<Longrightarrow> target (measured (a @ b)) \<le> target (measured a)"
  shows "\<exists>k e. find (td_dim D) target b t = (measured (chunks_text (take k (tree_items t))), e, index_opt (tree_items t) k) \<and>
    chunk_at measured t target b k"
proof -
  let ?k = "seek_index target b (positions (td_dim D) (d_zero (td_dim D)) (sums chunk_ops (tree_items t)))"
  have wf: "wf_tree chunk_ops t" "\<not> tree_is_empty t" using t tree_is_empty_iff by (auto simp: rope_ok_def)
  have pos: "advance (td_dim D) (d_zero (td_dim D)) (take k (sums chunk_ops (tree_items t))) = measured (chunks_text (take k (tree_items t)))" for k
    using pos_measured [OF t(1), of k] by (simp add: pos_at_def take_map)
  have at: "chunk_at measured t target b ?k" by (rule seek_index_chunk [OF t(1)])
  have "if ?k < length (tree_items t)
      then find (td_dim D) target b t = (measured (chunks_text (take ?k (tree_items t))), measured (chunks_text (take (Suc ?k) (tree_items t))), Some (tree_items t ! ?k))
      else find (td_dim D) target b t = (measured (chunks_text (tree_items t)), measured (chunks_text (tree_items t)), None)"
    using search_laws.find_generic_correct [OF search_laws_intro [OF lawful_chunks lawful] wf antitone_measured [OF t(1) mono], of False b]
      pos [of "length (tree_items t)"] by (simp add: pos find_def)
  with at show ?thesis by (cases "?k < length (tree_items t)") (force simp: chunk_at_def index_opt_def)+
qed

lemma seek_chunk:
  assumes t: "rope_ok t" "height t < STACK_CAPACITY" and start: "target (measured []) \<noteq> Less"
    and mono: "\<And>a b. valid_utf8 a \<Longrightarrow> valid_utf8 b \<Longrightarrow> target (measured (a @ b)) \<le> target (measured a)"
  shows "\<exists>k r c. cursor_seek (td_dim D) target b (cursor_new (td_dim D) t) = Some (r, c) \<and>
    cursor_start c = measured (chunks_text (take k (tree_items t))) \<and> cursor_item c = Some (index_opt (tree_items t) k) \<and>
    chunk_at measured t target b k"
proof -
  let ?c = "cursor_new (td_dim D) t :: (chunk, chunk_summary, 'd) cursor"
  let ?k = "seek_to chunk_ops (td_dim D) target b t 0"
  have w: "wf_cursor chunk_ops ?c" "c_tree ?c = t" using t by (simp_all add: wf_cursor_def cursor_new_def rope_ok_def)
  have p0: "pos_at chunk_ops (td_dim D) t 0 = d_zero (td_dim D)" by (simp add: pos_at_def)
  have seekable: "seekable chunk_ops (td_dim D) target t 0"
    using antitone_measured [OF t(1) mono] start by (simp add: seekable_def p0 zero [symmetric])
  have at: "chunk_at measured t target b ?k" using seek_index_chunk [OF t(1), of target b] by (simp add: seek_to_def p0)
  obtain r c where c: "cursor_seek (td_dim D) target b ?c = Some (r, c)" "c_tree c = t" "c_did_seek c" "cursor_at chunk_ops (td_dim D) c ?k"
    using search_laws.seek_correct [OF search_laws_intro [OF lawful_chunks lawful] w(1), of target ?k b] seekable w(2) by auto
  from cursor_item_correct [OF c(4,3)] cursor_at_position [OF c(4)] c pos_measured [OF t(1), of ?k] at show ?thesis
    by (auto simp: cursor_start_def)
qed

end

section \<open>Types of positions\<close>

locale text_position = text_measure +
  fixes cmp :: "'a \<Rightarrow> 'a \<Rightarrow> ordering" and sub :: "'a \<Rightarrow> 'a \<Rightarrow> 'a"
  assumes cmp_mono: "valid_utf8 a \<Longrightarrow> valid_utf8 b \<Longrightarrow> cmp x (measured (a @ b)) \<le> cmp x (measured a)"
    and cmp_zero: "cmp x (measured []) \<noteq> Less"
    and cmp_prefix: "valid_utf8 a \<Longrightarrow> valid_utf8 b \<Longrightarrow> b \<noteq> [] \<Longrightarrow> cmp (measured a) (measured (a @ b)) = Less"
    and cmp_extension: "valid_utf8 a \<Longrightarrow> valid_utf8 b \<Longrightarrow> b \<noteq> [] \<Longrightarrow> cmp (measured (a @ b)) (measured a) = Greater"
    and cmp_refl: "cmp x x = Equal"
    and sub_prefix: "valid_utf8 a \<Longrightarrow> valid_utf8 b \<Longrightarrow> sub (measured (a @ b)) (measured a) = measured b"

context text_position
begin

lemma cmp_boundary:
  assumes s: "valid_utf8 s" "str_is_char_boundary s i" "str_is_char_boundary s j"
  shows "cmp (measured (take i s)) (measured (take j s)) = ord_cmp i j"
proof -
  have split: "\<exists>b. take j s = take i s @ b \<and> valid_utf8 (take i s) \<and> valid_utf8 b \<and> b \<noteq> []"
    if "i < j" "str_is_char_boundary s i" "str_is_char_boundary s j" for i j
  proof -
    have "str_is_char_boundary (take j s) i" using that boundary_le [OF that(3)] by (auto simp: str_is_char_boundary_def)
    from valid_split [OF valid_split(1) [OF s(1) that(3)] this] that boundary_le [OF that(3)] show ?thesis
      using append_take_drop_id [of i "take j s"] by (intro exI [of _ "drop i (take j s)"]) (auto simp: min_def)
  qed
  consider "i < j" | "i = j" | "j < i" by linarith
  then show ?thesis
  proof cases
    case 1
    then show ?thesis using split [OF 1 s(2,3)] cmp_prefix by (auto simp: ord_cmp_def)
  next
    case 3
    then show ?thesis using split [OF 3 s(3,2)] cmp_extension by (auto simp: ord_cmp_def)
  qed (simp add: cmp_refl ord_cmp_def)
qed

text \<open>The chunk that the search for a character boundary of the text finds, and the boundary within it.\<close>

lemma located:
  assumes t: "rope_ok t" and i: "str_is_char_boundary (rope_text t) i" "i < length (rope_text t)"
    and at: "chunk_at measured t (cmp (measured (take i (rope_text t)))) Left k"
  obtains c where "k < length (tree_items t)" "tree_items t ! k = c" "chunk_ok c" "chunk_pos t k \<le> i"
    "str_is_char_boundary (ch_text c) (i - chunk_pos t k)"
    "take i (rope_text t) = chunks_text (take k (tree_items t)) @ take (i - chunk_pos t k) (ch_text c)"
proof -
  have prefix: "chunks_text (take k (tree_items t)) = take (chunk_pos t k) (rope_text t)" for k
    using chunks_between [of 0 k t] by (simp add: chunk_pos_eq)
  have cmp: "cmp (measured (take i (rope_text t))) (measured (chunks_text (take k (tree_items t)))) = ord_cmp i (chunk_pos t k)" for k
    using cmp_boundary [OF rope_text_valid [OF t] i(1) chunk_pos_boundary [OF t]] prefix by simp
  have k: "k \<le> length (tree_items t)" "k = 0 \<or> chunk_pos t k < i" "k < length (tree_items t) \<Longrightarrow> i \<le> chunk_pos t (Suc k)"
    using at unfolding chunk_at_def cmp by (auto simp: beyond_def ord_cmp_def split: if_splits)
  have less: "k < length (tree_items t)"
    using k(1,2) i(2) chunk_pos_end [of t k] by (cases "k = length (tree_items t)") (auto simp: rope_text_def)
  have pos: "chunk_pos t k \<le> i" "i \<le> chunk_pos t (Suc k)" using k(2,3) less by (auto simp: chunk_pos_eq)
  have "take i (rope_text t) = chunks_text (take k (tree_items t)) @ take (i - chunk_pos t k) (ch_text (tree_items t ! k))"
    using pos chunk_split(2) [OF less] unfolding chunk_split(1) [OF less] by (simp add: chunk_pos_eq)
  moreover have "chunk_ok (tree_items t ! k)" using t less by (simp add: rope_ok_def)
  ultimately show thesis
    using that [of "tree_items t ! k"] less pos(1) boundary_in_chunk [OF t less pos] i(1) by simp
qed

text \<open>A conversion that is right within every chunk is right for the rope.\<close>

lemma via_find_correct:
  assumes B: "text_measure B g" and t: "rope_ok t" and i: "str_is_char_boundary (rope_text t) i" "i < length (rope_text t)"
    and conv: "\<And>c j. chunk_ok c \<Longrightarrow> str_is_char_boundary (ch_text c) j \<Longrightarrow> convert c (measured (take j (ch_text c))) = Some (g (take j (ch_text c)))"
    and plus: "\<And>a b. valid_utf8 a \<Longrightarrow> valid_utf8 b \<Longrightarrow> add (g a) (g b) = g (a @ b)"
  shows "via_find (td_dim D) (td_dim B) cmp sub add none convert t (measured (take i (rope_text t))) = Some (g (take i (rope_text t)))"
    and "height t < STACK_CAPACITY \<Longrightarrow>
      via_seek (td_dim D) (td_dim B) cmp sub add none convert t (measured (take i (rope_text t))) = Some (g (take i (rope_text t)))"
proof -
  let ?x = "measured (take i (rope_text t))" and ?P = "pair_text_dim D B" and ?f = "\<lambda>s. (measured s, g s)"
  have dim: "td_dim ?P = pair_dim (td_dim D) (td_dim B)" by (simp add: pair_text_dim_def)
  have P: "text_measure ?P ?f" by (rule pair_measure [OF text_measure_axioms B])
  have same: "chunk_at ?f t (\<lambda>d. cmp ?x (fst d)) Left k = chunk_at measured t (cmp ?x) Left k" for k by (simp add: chunk_at_def)
  have mono: "cmp ?x (fst (?f (a @ b))) \<le> cmp ?x (fst (?f a))" if "valid_utf8 a" "valid_utf8 b" for a b using cmp_mono that by simp
  have step: "\<exists>c. index_opt (tree_items t) k = Some c \<and> cmp ?x (measured (chunks_text (take k (tree_items t)))) \<noteq> Less \<and>
      convert c (sub ?x (measured (chunks_text (take k (tree_items t))))) = Some (g (take (i - chunk_pos t k) (ch_text c))) \<and>
      add (g (chunks_text (take k (tree_items t)))) (g (take (i - chunk_pos t k) (ch_text c))) = g (take i (rope_text t))"
    if at: "chunk_at measured t (cmp ?x) Left k" for k
  proof -
    let ?a = "chunks_text (take k (tree_items t))"
    obtain c where c: "k < length (tree_items t)" "tree_items t ! k = c" "chunk_ok c" "chunk_pos t k \<le> i"
      "str_is_char_boundary (ch_text c) (i - chunk_pos t k)" "take i (rope_text t) = ?a @ take (i - chunk_pos t k) (ch_text c)"
      using located [OF t i at] .
    have v: "valid_utf8 ?a" "valid_utf8 (take (i - chunk_pos t k) (ch_text c))"
      using t valid_split(1) [OF chunk_okD(2) [OF c(3)] c(5)] by (auto simp: rope_ok_def intro!: chunks_text_valid dest: in_set_takeD)
    have "cmp ?x (measured ?a) \<noteq> Less"
      unfolding c(6) using cmp_extension [OF v] cmp_refl
      by (cases "take (i - chunk_pos t k) (ch_text c) = []") (simp_all del: take_eq_Nil take_eq_Nil2)
    with c v conv [OF c(3,5)] plus [OF v] sub_prefix [OF v] show ?thesis by (auto simp: index_opt_def)
  qed
  have ne: "tree_items t \<noteq> []" using i(2) by (auto simp: rope_text_def)
  obtain k e where k: "find (td_dim ?P) (\<lambda>d. cmp ?x (fst d)) Left t = (?f (chunks_text (take k (tree_items t))), e, index_opt (tree_items t) k)"
    "chunk_at measured t (cmp ?x) Left k"
    using text_measure.find_chunk [OF P t ne, of "\<lambda>d. cmp ?x (fst d)" Left] mono unfolding same by blast
  from step [OF k(2)] k(1) show "via_find (td_dim D) (td_dim B) cmp sub add none convert t ?x = Some (g (take i (rope_text t)))"
    by (auto simp: via_find_def dim)
  assume h: "height t < STACK_CAPACITY"
  obtain k r c where k: "cursor_seek (td_dim ?P) (\<lambda>d. cmp ?x (fst d)) Left (cursor_new (td_dim ?P) t) = Some (r, c)"
    "cursor_start c = ?f (chunks_text (take k (tree_items t)))" "cursor_item c = Some (index_opt (tree_items t) k)" "chunk_at measured t (cmp ?x) Left k"
    using text_measure.seek_chunk [OF P t h, of "\<lambda>d. cmp ?x (fst d)" Left] mono cmp_zero unfolding same by auto
  from step [OF k(4)] k(1-3) show "via_seek (td_dim D) (td_dim B) cmp sub add none convert t ?x = Some (g (take i (rope_text t)))"
    by (auto simp: via_seek_def dim)
qed

end

section \<open>Offsets and points\<close>

lemma valid_nonempty: "valid_utf8 s \<Longrightarrow> s \<noteq> [] \<Longrightarrow> 0 < nutf16 s"
  using valid_hd [of s] by (cases s) (simp_all add: nutf16_def nchars_def)

interpretation len_position: text_position len_text_dim length ord_cmp "(-)"
  by unfold_locales (auto simp: ord_cmp_def ordering_order_defs)

interpretation utf16_position: text_position utf16_text_dim nutf16 ord_cmp "(-)"
  by unfold_locales (auto simp: ord_cmp_def ordering_order_defs dest: valid_nonempty)

lemma point_fields_cmp: "point_cmp_fields p q = Less \<longleftrightarrow> row p < row q \<or> row p = row q \<and> column p < column q"
  "point_cmp_fields p q = Equal \<longleftrightarrow> row p = row q \<and> column p = column q"
  "point_cmp_fields p q = Greater \<longleftrightarrow> row q < row p \<or> row p = row q \<and> column q < column p" for p q :: "nat point"
  by (auto simp: point_cmp_fields_def ord_cmp_def)

lemma one_line: "newlines s = 0 \<Longrightarrow> last_line s = s"
  using last_line_split(1) [of s] by simp

lemma point_cmp_antitone:
  "row q < row r \<or> row q = row r \<and> column q \<le> column r \<Longrightarrow> point_cmp_fields x r \<le> point_cmp_fields x q" for q r :: "nat point"
  by (auto simp: point_cmp_fields_def ord_cmp_def ordering_order_defs)

interpretation point_position: text_position point_text_dim lines_of point_cmp_fields point_sub
  by unfold_locales
    (auto simp: point_fields_cmp point_sub_def newlines_append last_line_append one_line intro!: point_cmp_antitone)

interpretation point_utf16_position: text_position point_utf16_text_dim lines_utf16_of point_cmp_fields point_sub
  by unfold_locales
    (auto simp: point_fields_cmp point_sub_def newlines_append last_line_append one_line intro!: point_cmp_antitone dest: valid_nonempty)

lemma point_add_lines: "point_add (lines_of a) (lines_of b) = lines_of (a @ b)" "point_add (lines_utf16_of a) (lines_utf16_of b) = lines_utf16_of (a @ b)"
  by (simp_all add: point_add_def newlines_append last_line_append)

lemma point_at_lines: "lines_of (take i s) = point_at s i" "lines_utf16_of (take i s) = point_utf16_at s i"
  by (simp_all add: point_at_def point_utf16_at_def)

lemma slice_point_to_utf16:
  assumes "chunk_ok c" "str_is_char_boundary (ch_text c) i"
  shows "slice_point_to_offset_utf16 c (point_at (ch_text c) i) = nutf16 (take i (ch_text c))"
proof -
  have "row (point_at (ch_text c) i) \<le> row (slice_lines c)"
    using newlines_append [of "take i (ch_text c)" "drop i (ch_text c)"] by (simp add: point_at_def slice_lines_correct [OF assms(1)])
  with slice_point_roundtrip [OF assms(1) boundary_le [OF assms(2)]] slice_to_utf16_correct [OF assms] show ?thesis
    by (simp add: slice_point_to_offset_utf16_def)
qed

lemma slice_unclipped_roundtrip:
  assumes "chunk_ok c" "str_is_char_boundary (ch_text c) i"
  shows "slice_unclipped_point_utf16_to_point c (point_utf16_at (ch_text c) i) = Some (point_at (ch_text c) i)"
proof -
  let ?p = "point_utf16_at (ch_text c) i"
  have "row ?p \<le> newlines (ch_text c)"
    using newlines_append [of "take i (ch_text c)" "drop i (ch_text c)"] by (simp add: point_utf16_at_def)
  from slice_point_utf16_row [OF assms(1) this] obtain a l b k where r: "ch_text c = a @ l @ b" "slice_point_utf16_to_offset c ?p = Some (length a + k)"
    "k \<le> length l" "slice_unclipped_point_utf16_to_point c ?p = Some (Point (row ?p) k)" "newlines a = row ?p" "last_line a = []" "10 \<notin> set l"
    by metis
  have "length a + k = i" using slice_point_utf16_roundtrip [OF assms] r(2) by simp
  with row_positions(1) [OF r(5-7,3), of b] r(1,4) show ?thesis by simp
qed

text \<open>The four kinds of positions of a character boundary, within a chunk.\<close>

lemmas slice_conversions = slice_to_utf16_correct slice_utf16_roundtrip slice_offset_to_point_correct slice_point_utf16_correct
  slice_point_roundtrip slice_point_utf16_roundtrip slice_point_to_utf16 slice_unclipped_roundtrip

lemma rope_summary_fields:
  assumes "rope_ok t"
  shows "ts_len (rope_summary t) = length (rope_text t)" "ts_len_utf16 (rope_summary t) = nutf16 (rope_text t)"
    "ts_lines (rope_summary t) = point_at (rope_text t) (length (rope_text t))"
    "lines_utf16 (rope_summary t) = point_utf16_at (rope_text t) (length (rope_text t))"
  using rope_summary_correct [OF assms] by (simp_all add: summary_of_def lines_utf16_def point_at_def point_utf16_at_def)

lemma td_dims [simp]: "td_dim len_text_dim = len_dim" "td_dim utf16_text_dim = utf16_dim" "td_dim point_text_dim = point_dim" "td_dim point_utf16_text_dim = point_utf16_dim"
  by (simp_all add: len_text_dim_def utf16_text_dim_def point_text_dim_def point_utf16_text_dim_def)

lemma boundary_min: "str_is_char_boundary s i \<Longrightarrow> min (length s) i = i"
  by (simp add: boundary_le min_absorb2)

text \<open>Every conversion within the rope, for a boundary before the end of the text.\<close>

lemma inner_conversions:
  assumes t: "rope_ok t" "height t < STACK_CAPACITY" and i: "str_is_char_boundary (rope_text t) i" "i < length (rope_text t)"
  shows "via_find len_dim utf16_dim ord_cmp (-) (+) 0 (\<lambda>c o'. Some (slice_offset_to_offset_utf16 c o')) t i = Some (nutf16 (take i (rope_text t)))"
    "via_find utf16_dim len_dim ord_cmp (-) (+) 0 slice_offset_utf16_to_offset t (nutf16 (take i (rope_text t))) = Some i"
    "via_find len_dim point_dim ord_cmp (-) point_add point_zero slice_offset_to_point t i = Some (point_at (rope_text t) i)"
    "via_find len_dim point_utf16_dim ord_cmp (-) point_add point_zero (\<lambda>c o'. Some (slice_offset_to_point_utf16 c o')) t i = Some (point_utf16_at (rope_text t) i)"
    "via_find point_dim point_utf16_dim point_cmp_fields point_sub point_add point_zero (\<lambda>c q. Some (slice_point_to_point_utf16 c q)) t (point_at (rope_text t) i)
      = Some (point_utf16_at (rope_text t) i)"
    "via_seek point_utf16_dim point_dim point_cmp_fields point_sub point_add point_zero
      (\<lambda>c q. do { o' \<leftarrow> slice_point_utf16_to_offset c q; slice_offset_to_point c o' }) t (point_utf16_at (rope_text t) i) = Some (point_at (rope_text t) i)"
    "via_find point_dim len_dim point_cmp_fields point_sub (+) 0 (\<lambda>c q. Some (slice_point_to_offset c q)) t (point_at (rope_text t) i) = Some i"
    "via_seek point_dim utf16_dim point_cmp_fields point_sub (+) 0 (\<lambda>c q. Some (slice_point_to_offset_utf16 c q)) t (point_at (rope_text t) i)
      = Some (nutf16 (take i (rope_text t)))"
    "via_find point_utf16_dim len_dim point_cmp_fields point_sub (+) 0 slice_point_utf16_to_offset t (point_utf16_at (rope_text t) i) = Some i"
    "via_seek point_utf16_dim utf16_dim point_cmp_fields point_sub (+) 0
      (\<lambda>c q. do { o' \<leftarrow> slice_point_utf16_to_offset c q; Some (slice_offset_to_offset_utf16 c o') }) t (point_utf16_at (rope_text t) i) = Some (nutf16 (take i (rope_text t)))"
    "via_find point_utf16_dim point_dim point_cmp_fields point_sub point_add point_zero slice_unclipped_point_utf16_to_point t (point_utf16_at (rope_text t) i)
      = Some (point_at (rope_text t) i)"
  using len_position.via_find_correct(1) [OF utf16_measure.text_measure_axioms t(1) i, of "\<lambda>c o'. Some (slice_offset_to_offset_utf16 c o')" "(+)" 0]
    utf16_position.via_find_correct(1) [OF len_measure.text_measure_axioms t(1) i, of slice_offset_utf16_to_offset "(+)" 0]
    len_position.via_find_correct(1) [OF point_measure.text_measure_axioms t(1) i, of slice_offset_to_point point_add point_zero]
    len_position.via_find_correct(1) [OF point_utf16_measure.text_measure_axioms t(1) i, of "\<lambda>c o'. Some (slice_offset_to_point_utf16 c o')" point_add point_zero]
    point_position.via_find_correct(1) [OF point_utf16_measure.text_measure_axioms t(1) i, of "\<lambda>c q. Some (slice_point_to_point_utf16 c q)" point_add point_zero]
    point_utf16_position.via_find_correct(2) [OF point_measure.text_measure_axioms t(1) i _ _ t(2), of "\<lambda>c q. do { o' \<leftarrow> slice_point_utf16_to_offset c q; slice_offset_to_point c o' }" point_add point_zero]
    point_position.via_find_correct(1) [OF len_measure.text_measure_axioms t(1) i, of "\<lambda>c q. Some (slice_point_to_offset c q)" "(+)" 0]
    point_position.via_find_correct(2) [OF utf16_measure.text_measure_axioms t(1) i _ _ t(2), of "\<lambda>c q. Some (slice_point_to_offset_utf16 c q)" "(+)" 0]
    point_utf16_position.via_find_correct(1) [OF len_measure.text_measure_axioms t(1) i, of slice_point_utf16_to_offset "(+)" 0]
    point_utf16_position.via_find_correct(2) [OF utf16_measure.text_measure_axioms t(1) i _ _ t(2), of "\<lambda>c q. do { o' \<leftarrow> slice_point_utf16_to_offset c q; Some (slice_offset_to_offset_utf16 c o') }" "(+)" 0]
    point_utf16_position.via_find_correct(1) [OF point_measure.text_measure_axioms t(1) i, of slice_unclipped_point_utf16_to_point point_add point_zero]
  by (simp_all add: boundary_min slice_conversions boundary_le point_add_lines point_at_lines slice_point_to_point_utf16_def min_absorb2 [OF less_imp_le [OF i(2)]])

text \<open>
  C5. The conversions between positions agree in a rope of fewer than \<open>2 ^ 32\<close> bytes, whose 32-bit rows and columns do not wrap. For every character boundary of the text, given as a byte offset, a UTF-16
  offset, a point or a UTF-16 point, each of the eleven conversions of a rope returns the corresponding position
  of the same boundary, without panicking and although it looks into a single chunk. In particular the
  conversions are inverse to each other.
\<close>

theorem rope_positions_agree:
  assumes t: "rope_ok t" "height t < STACK_CAPACITY" "length (rope_text t) < 2 ^ 32" and i: "str_is_char_boundary (rope_text t) i"
  shows "rope_offset_to_offset_utf16 t i = Some (nutf16 (take i (rope_text t)))
    \<and> rope_offset_utf16_to_offset t (nutf16 (take i (rope_text t))) = Some i
    \<and> rope_offset_to_point t i = Some (point_at (rope_text t) i)
    \<and> rope_offset_to_point_utf16 t i = Some (point_utf16_at (rope_text t) i)
    \<and> rope_point_to_point_utf16 t (point_at (rope_text t) i) = Some (point_utf16_at (rope_text t) i)
    \<and> rope_point_utf16_to_point t (point_utf16_at (rope_text t) i) = Some (point_at (rope_text t) i)
    \<and> rope_point_to_offset t (point_at (rope_text t) i) = Some i
    \<and> rope_point_to_offset_utf16 t (point_at (rope_text t) i) = Some (nutf16 (take i (rope_text t)))
    \<and> rope_point_utf16_to_offset t (point_utf16_at (rope_text t) i) = Some i
    \<and> rope_point_utf16_to_offset_utf16 t (point_utf16_at (rope_text t) i) = Some (nutf16 (take i (rope_text t)))
    \<and> rope_unclipped_point_utf16_to_point t (point_utf16_at (rope_text t) i) = Some (point_at (rope_text t) i)"
proof (cases "i = length (rope_text t)")
  case True
  note refl_cmp = point_position.cmp_refl
  show ?thesis unfolding True
    by (simp add: rope_offset_to_offset_utf16_def rope_offset_utf16_to_offset_def rope_offset_to_point_def rope_offset_to_point_utf16_def
        rope_point_to_point_utf16_def rope_point_utf16_to_point_def rope_point_to_offset_def rope_point_to_offset_utf16_def
        rope_point_utf16_to_offset_def rope_point_utf16_to_offset_utf16_def rope_unclipped_point_utf16_to_point_def rope_summary_fields [OF t(1)] refl_cmp)
next
  case False
  then have less: "i < length (rope_text t)" using boundary_le [OF i] by simp
  let ?s = "rope_text t"
  have stop: "str_is_char_boundary ?s (length ?s)" by (simp add: str_is_char_boundary_def)
  note v = rope_text_valid [OF t(1)]
  have before: "nutf16 (take i ?s) < nutf16 ?s" "point_cmp_fields (point_at ?s i) (point_at ?s (length ?s)) = Less"
    "point_cmp_fields (point_utf16_at ?s i) (point_utf16_at ?s (length ?s)) = Less"
    using utf16_position.cmp_boundary [OF v i stop] point_position.cmp_boundary [OF v i stop] point_utf16_position.cmp_boundary [OF v i stop] less
    by (auto simp: ord_cmp_def point_at_lines [symmetric] split: if_splits)
  note inner = inner_conversions [OF t(1,2) i less]
  show ?thesis
    using less before
    by (simp add: rope_offset_to_offset_utf16_def rope_offset_utf16_to_offset_def rope_offset_to_point_def rope_offset_to_point_utf16_def
        rope_point_to_point_utf16_def rope_point_utf16_to_point_def rope_point_to_offset_def rope_point_to_offset_utf16_def
        rope_point_utf16_to_offset_def rope_point_utf16_to_offset_utf16_def rope_unclipped_point_utf16_to_point_def rope_summary_fields [OF t(1)] inner)
qed

theorem rope_positions_agree_witness:
  "\<exists>t. rope_from [97, 10, 0xF0, 0x9F, 0x98, 0x80, 98] = Some t \<and> rope_offset_to_point_utf16 t 6 = Some (Point 1 2) \<and>
    rope_point_utf16_to_offset t (Point 1 2) = Some 6"
proof -
  let ?s = "[97, 10, 0xF0, 0x9F, 0x98, 0x80, 98] :: str"
  have v: "valid_utf8 ?s" by code_simp
  obtain t where t: "rope_from ?s = Some t" "rope_with t ?s 1 True" using rope_from_correct [OF v, of 0] by (auto simp: TREE_BASE_def)
  have p: "str_is_char_boundary ?s 6" "point_utf16_at ?s 6 = Point 1 2" by code_simp+
  have "rope_ok t" "rope_text t = ?s" "height t < STACK_CAPACITY" "length (rope_text t) < 2 ^ 32" using t(2) by (simp_all add: rope_with_def STACK_CAPACITY_def)
  with rope_positions_agree [of t 6] t(1) p show ?thesis by metis
qed

end
