(* ===== verification/Rope_Clip.thy ===== *)
theory Rope_Clip
  imports Rope_Position
begin

text \<open>
  Positions that may lie inside a character or outside of the text (\<open>crates/rope/src/rope.rs\<close>): character boundaries of a
  rope, the clipping of offsets and points, and the lengths of lines. Graphemes are a parameter, as for chunks.
\<close>

section \<open>Operations\<close>

definition rope_is_char_boundary :: "rope \<Rightarrow> nat \<Rightarrow> bool option" where
  "rope_is_char_boundary t offset = (if tree_is_empty t then Some (offset = 0)
     else case find len_dim (ord_cmp offset) Left t of (start, _, item) \<Rightarrow> do {
       rust_assert (start \<le> offset);
       let chunk_offset = offset - start;
       Some (case item of Some c \<Rightarrow> chunk_is_char_boundary c chunk_offset | None \<Rightarrow> False)
     })"

definition rope_floor_char_boundary :: "rope \<Rightarrow> nat \<Rightarrow> nat option" where
  "rope_floor_char_boundary t index = (if rope_len t \<le> index then Some (rope_len t)
     else case find len_dim (ord_cmp index) Left t of (start, _, item) \<Rightarrow> do {
       rust_assert (start \<le> index);
       let chunk_offset = index - start;
       Some (case item of Some c \<Rightarrow> start + str_floor_char_boundary (ch_text c) chunk_offset | None \<Rightarrow> rope_len t)
     })"

definition rope_ceil_char_boundary :: "rope \<Rightarrow> nat \<Rightarrow> nat option" where
  "rope_ceil_char_boundary t index = (if rope_len t < index then Some (rope_len t)
     else case find len_dim (ord_cmp index) Left t of (start, _, item) \<Rightarrow> do {
       rust_assert (start \<le> index);
       let chunk_offset = index - start;
       Some (case item of Some c \<Rightarrow> start + str_ceil_char_boundary (ch_text c) chunk_offset | None \<Rightarrow> rope_len t)
     })"

definition rope_clip_offset :: "rope \<Rightarrow> nat \<Rightarrow> bias \<Rightarrow> nat option" where
  "rope_clip_offset t offset b = (case b of Left \<Rightarrow> rope_floor_char_boundary t offset | Right \<Rightarrow> rope_ceil_char_boundary t offset)"

definition rope_clip_offset_utf16 :: "rope \<Rightarrow> nat \<Rightarrow> bias \<Rightarrow> nat option" where
  "rope_clip_offset_utf16 t offset b = (case find utf16_dim (ord_cmp offset) Right t of (start, _, item) \<Rightarrow>
     case item of
       Some c \<Rightarrow> do {
         rust_assert (start \<le> offset);
         let overshoot = offset - start;
         r \<leftarrow> slice_clip_offset_utf16 c overshoot b;
         Some (start + r)
       }
     | None \<Rightarrow> Some (ts_len_utf16 (rope_summary t)))"

definition rope_clip_point :: "(str \<Rightarrow> nat \<Rightarrow> bool) \<Rightarrow> rope \<Rightarrow> nat point \<Rightarrow> bias \<Rightarrow> nat point option" where
  "rope_clip_point grapheme t p b = (case find point_dim (point_cmp_fields p) Right t of (start, _, item) \<Rightarrow>
     case item of
       Some c \<Rightarrow> do {
         rust_assert (point_cmp_fields p start \<noteq> Less);
         let overshoot = point_sub p start;
         r \<leftarrow> slice_clip_point grapheme c overshoot b;
         Some (point_add start r)
       }
     | None \<Rightarrow> Some (ts_lines (rope_summary t)))"

definition rope_clip_point_utf16 :: "rope \<Rightarrow> nat point \<Rightarrow> bias \<Rightarrow> nat point option" where
  "rope_clip_point_utf16 t p b = (case find point_utf16_dim (point_cmp_fields p) Right t of (start, _, item) \<Rightarrow>
     case item of
       Some c \<Rightarrow> do {
         rust_assert (point_cmp_fields p start \<noteq> Less);
         let overshoot = point_sub p start;
         r \<leftarrow> slice_clip_point_utf16 c overshoot b;
         Some (point_add start r)
       }
     | None \<Rightarrow> Some (lines_utf16 (rope_summary t)))"

definition rope_line_len :: "(str \<Rightarrow> nat \<Rightarrow> bool) \<Rightarrow> rope \<Rightarrow> nat \<Rightarrow> nat option" where
  "rope_line_len grapheme t r = do {
     p \<leftarrow> rope_clip_point grapheme t (Point r (2 ^ 32 - 1)) Left;
     Some (column p)
   }"

definition rope_slice_rows :: "rope \<Rightarrow> nat \<Rightarrow> nat \<Rightarrow> rope option" where
  "rope_slice_rows t start stop = do {
     i \<leftarrow> rope_point_to_offset t (Point start 0);
     j \<leftarrow> rope_point_to_offset t (Point stop 0);
     rope_slice t i j
   }"

section \<open>Boundaries\<close>

text \<open>The search in an empty rope finds nothing.\<close>

lemma find_empty: "rope_ok t \<Longrightarrow> tree_items t = [] \<Longrightarrow> snd (snd (find dim target b t)) = None"
  using tree_is_empty_iff [of chunk_ops t]
  by (cases t) (auto simp: rope_ok_def find_def find_generic_def Let_def split: prod.splits option.splits)

lemma offset_chunk:
  assumes t: "rope_ok t" "tree_items t \<noteq> []" "i \<le> length (rope_text t)"
  shows "\<exists>k e. find len_dim (ord_cmp i) Left t = (chunk_pos t k, e, Some (tree_items t ! k)) \<and> k < length (tree_items t) \<and>
    chunk_pos t k \<le> i \<and> i \<le> chunk_pos t (Suc k)"
proof -
  obtain k e where k: "find len_dim (ord_cmp i) Left t = (length (chunks_text (take k (tree_items t))), e, index_opt (tree_items t) k)"
    "chunk_at length t (ord_cmp i) Left k"
    using len_measure.find_chunk [OF t(1,2), of "ord_cmp i" Left] len_position.cmp_mono by auto
  have pos: "k \<le> length (tree_items t)" "k = 0 \<or> chunk_pos t k < i" "k < length (tree_items t) \<Longrightarrow> i \<le> chunk_pos t (Suc k)"
    using k(2) by (auto simp: chunk_at_def beyond_def ord_cmp_def chunk_pos_eq split: if_splits)
  have "k < length (tree_items t)" using pos(1,2) t(2,3) chunk_pos_end [of t k] by (cases "k = length (tree_items t)") auto
  with k(1) pos show ?thesis by (auto simp: index_opt_def chunk_pos_eq)
qed

definition floor_of :: "str \<Rightarrow> nat \<Rightarrow> nat \<Rightarrow> bool" where
  "floor_of s i k \<longleftrightarrow> str_is_char_boundary s k \<and> k \<le> i \<and> (\<forall>j \<le> i. str_is_char_boundary s j \<longrightarrow> j \<le> k)"

definition ceil_of :: "str \<Rightarrow> nat \<Rightarrow> nat \<Rightarrow> bool" where
  "ceil_of s i k \<longleftrightarrow> str_is_char_boundary s k \<and> i \<le> k \<and> (\<forall>j \<ge> i. str_is_char_boundary s j \<longrightarrow> k \<le> j)"

lemma str_floor_correct: "i \<le> length s \<Longrightarrow> floor_of s i (str_floor_char_boundary s i)"
proof (cases "i = length s")
  case False
  assume "i \<le> length s"
  with False have "i < length s" by simp
  then have "floor_of s i (boundary_below s i)"
  proof (induction i)
    case (Suc i)
    then show ?case by (auto simp: floor_of_def str_is_char_boundary_def le_Suc_eq)
  qed (simp add: floor_of_def str_is_char_boundary_def)
  with False \<open>i \<le> length s\<close> show ?thesis by (simp add: str_floor_char_boundary_def)
qed (simp add: floor_of_def str_floor_char_boundary_def str_is_char_boundary_def)

lemma str_ceil_correct: "valid_utf8 s \<Longrightarrow> i \<le> length s \<Longrightarrow> ceil_of s i (str_ceil_char_boundary s i)"
proof (cases "i = length s")
  case False
  assume v: "valid_utf8 s" and "i \<le> length s"
  with False have i: "i < length s" by simp
  let ?P = "\<lambda>b. \<not> is_utf8_char_boundary b"
  let ?n = "length (takeWhile ?P (drop i s))"
  have n: "?n \<le> length (drop i s)" by (rule length_takeWhile_le)
  have "str_is_char_boundary s (i + ?n)"
    using nth_length_takeWhile [of ?P "drop i s"] n i by (cases "?n = length (drop i s)") (auto simp: str_is_char_boundary_def)
  moreover have "i + ?n \<le> j" if "i \<le> j" "str_is_char_boundary s j" for j
  proof (rule ccontr)
    assume "\<not> i + ?n \<le> j"
    then have "j - i < ?n" using that(1) by simp
    then have "\<not> is_utf8_char_boundary (s ! j)" "j < length s"
      using that(1) takeWhile_nth [of "j - i" ?P "drop i s"] nth_mem [of "j - i" "takeWhile ?P (drop i s)"] set_takeWhileD n by (fastforce, simp)
    with that(2) valid_hd [OF v] show False by (auto simp: str_is_char_boundary_def hd_conv_nth)
  qed
  ultimately show ?thesis using i by (simp add: ceil_of_def str_ceil_char_boundary_def)
qed (auto simp: ceil_of_def str_ceil_char_boundary_def str_is_char_boundary_def)

text \<open>Within a chunk the nearest boundaries are those of the text.\<close>

lemma floor_in_chunk:
  assumes t: "rope_ok t" and k: "k < length (tree_items t)" "chunk_pos t k \<le> i" "i \<le> chunk_pos t (Suc k)"
    and f: "floor_of (ch_text (tree_items t ! k)) (i - chunk_pos t k) j"
  shows "floor_of (rope_text t) i (chunk_pos t k + j)"
proof -
  note b = boundary_in_chunk [OF t k(1)]
  have j: "j \<le> i - chunk_pos t k" using f by (simp add: floor_of_def)
  have "str_is_char_boundary (rope_text t) (chunk_pos t k + j)" using b [of "chunk_pos t k + j"] f j k(2,3) by (simp add: floor_of_def)
  moreover have "m \<le> chunk_pos t k + j" if "m \<le> i" "str_is_char_boundary (rope_text t) m" for m
  proof (cases "chunk_pos t k \<le> m")
    case True
    then have "str_is_char_boundary (ch_text (tree_items t ! k)) (m - chunk_pos t k)" using b [of m] that k(3) by simp
    then have "m - chunk_pos t k \<le> j" using f that(1) by (simp add: floor_of_def diff_le_mono)
    then show ?thesis by simp
  qed simp
  ultimately show ?thesis using j k(2) by (auto simp: floor_of_def)
qed

lemma ceil_in_chunk:
  assumes t: "rope_ok t" and k: "k < length (tree_items t)" "chunk_pos t k \<le> i" "i \<le> chunk_pos t (Suc k)"
    and f: "ceil_of (ch_text (tree_items t ! k)) (i - chunk_pos t k) j"
  shows "ceil_of (rope_text t) i (chunk_pos t k + j)"
proof -
  note b = boundary_in_chunk [OF t k(1)]
  have j: "i - chunk_pos t k \<le> j" "chunk_pos t k + j \<le> chunk_pos t (Suc k)"
    using f boundary_le [of "ch_text (tree_items t ! k)" j] chunk_split(2) [OF k(1)] by (auto simp: ceil_of_def)
  have "str_is_char_boundary (rope_text t) (chunk_pos t k + j)" using b [of "chunk_pos t k + j"] f j by (simp add: ceil_of_def)
  moreover have "chunk_pos t k + j \<le> m" if "i \<le> m" "str_is_char_boundary (rope_text t) m" for m
  proof (cases "m \<le> chunk_pos t (Suc k)")
    case True
    then have "str_is_char_boundary (ch_text (tree_items t ! k)) (m - chunk_pos t k)" using b [of m] that k(2) by simp
    then have "j \<le> m - chunk_pos t k" using f that(1) by (simp add: ceil_of_def diff_le_mono)
    then show ?thesis using that(1) k(2) by simp
  qed (use j in simp)
  ultimately show ?thesis using j k(2) by (auto simp: ceil_of_def)
qed

lemma rope_is_char_boundary_correct: "rope_ok t \<Longrightarrow> rope_is_char_boundary t i = Some (str_is_char_boundary (rope_text t) i)"
proof -
  assume t: "rope_ok t"
  have empty: "tree_is_empty t \<longleftrightarrow> tree_items t = []" using t tree_is_empty_iff by (auto simp: rope_ok_def)
  consider "tree_items t = []" | "tree_items t \<noteq> []" "i \<le> length (rope_text t)" | "tree_items t \<noteq> []" "length (rope_text t) < i" by linarith
  then show ?thesis
  proof cases
    case 1
    then show ?thesis by (auto simp: rope_is_char_boundary_def empty rope_text_def str_is_char_boundary_def)
  next
    case 2
    obtain k e where k: "find len_dim (ord_cmp i) Left t = (chunk_pos t k, e, Some (tree_items t ! k))" "k < length (tree_items t)"
      "chunk_pos t k \<le> i" "i \<le> chunk_pos t (Suc k)" using offset_chunk [OF t 2] by blast
    have ok: "chunk_ok (tree_items t ! k)" using t k(2) by (simp add: rope_ok_def)
    have "i - chunk_pos t k < 2 ^ 32" using k(4) chunk_split(2) [OF k(2)] chunk_okD(1) [OF ok] by simp
    with k boundary_in_chunk [OF t k(2-4)] chunk_boundary_iff [OF ok] 2 show ?thesis by (simp add: rope_is_char_boundary_def empty)
  next
    case 3
    obtain k e where k: "find len_dim (ord_cmp i) Left t = (length (chunks_text (take k (tree_items t))), e, index_opt (tree_items t) k)"
      "chunk_at length t (ord_cmp i) Left k"
      using len_measure.find_chunk [OF t 3(1), of "ord_cmp i" Left] len_position.cmp_mono by auto
    have "k = length (tree_items t)"
      using k(2) 3 chunk_pos_le [of t "Suc k"] by (auto simp: chunk_at_def beyond_def ord_cmp_def chunk_pos_eq split: if_splits)
    moreover have "\<not> str_is_char_boundary (rope_text t) i" using 3(2) boundary_le by fastforce
    ultimately show ?thesis using k(1) 3 by (simp add: rope_is_char_boundary_def empty rope_text_def)
  qed
qed

lemma rope_clip_offset_correct:
  assumes t: "rope_ok t"
  shows "i \<le> length (rope_text t) \<Longrightarrow> \<exists>k. rope_clip_offset t i Left = Some k \<and> floor_of (rope_text t) i k"
    and "i \<le> length (rope_text t) \<Longrightarrow> \<exists>k. rope_clip_offset t i Right = Some k \<and> ceil_of (rope_text t) i k"
    and "length (rope_text t) < i \<Longrightarrow> rope_clip_offset t i b = Some (length (rope_text t))"
proof -
  note len = rope_len_correct [OF t]
  show "length (rope_text t) < i \<Longrightarrow> rope_clip_offset t i b = Some (length (rope_text t))"
    by (cases b) (simp_all add: rope_clip_offset_def rope_floor_char_boundary_def rope_ceil_char_boundary_def len)
  assume i: "i \<le> length (rope_text t)"
  have empty: "fst (find len_dim (ord_cmp i) Left t) = 0" "rope_text t = []" if "tree_items t = []"
    using that t tree_is_empty_iff [of chunk_ops t] by (cases t, auto simp: rope_ok_def rope_text_def find_def find_generic_def len_dim_def
        summary_sum_def chunk_ops_def chunk_summary_zero.rep_eq summary_zero_def Let_def split: prod.splits option.splits)
  have chunk: "\<exists>k e. find len_dim (ord_cmp i) Left t = (chunk_pos t k, e, Some (tree_items t ! k)) \<and>
      floor_of (rope_text t) i (chunk_pos t k + str_floor_char_boundary (ch_text (tree_items t ! k)) (i - chunk_pos t k)) \<and>
      ceil_of (rope_text t) i (chunk_pos t k + str_ceil_char_boundary (ch_text (tree_items t ! k)) (i - chunk_pos t k)) \<and> chunk_pos t k \<le> i"
    if ne: "tree_items t \<noteq> []"
  proof -
    obtain k e where k: "find len_dim (ord_cmp i) Left t = (chunk_pos t k, e, Some (tree_items t ! k))" "k < length (tree_items t)"
      "chunk_pos t k \<le> i" "i \<le> chunk_pos t (Suc k)" using offset_chunk [OF t ne i] by blast
    have "valid_utf8 (ch_text (tree_items t ! k))" using t k(2) chunk_okD(2) by (simp add: rope_ok_def)
    with floor_in_chunk [OF t k(2-4) str_floor_correct] ceil_in_chunk [OF t k(2-4) str_ceil_correct] k chunk_split(2) [OF k(2)] show ?thesis by auto
  qed
  show "\<exists>k. rope_clip_offset t i Left = Some k \<and> floor_of (rope_text t) i k"
  proof (cases "i = length (rope_text t)")
    case True
    then show ?thesis by (simp add: rope_clip_offset_def rope_floor_char_boundary_def len floor_of_def str_is_char_boundary_def)
  next
    case False
    then have "tree_items t \<noteq> []" using i empty(2) by auto
    from chunk [OF this] i False show ?thesis by (auto simp: rope_clip_offset_def rope_floor_char_boundary_def len)
  qed
  show "\<exists>k. rope_clip_offset t i Right = Some k \<and> ceil_of (rope_text t) i k"
  proof (cases "tree_items t = []")
    case True
    then obtain e where "find len_dim (ord_cmp i) Left t = (0, e, None)"
      using empty(1) find_empty [OF t, of len_dim "ord_cmp i" Left] by (metis prod.collapse)
    with empty(2) [OF True] i show ?thesis
      by (simp add: rope_clip_offset_def rope_ceil_char_boundary_def len ceil_of_def str_is_char_boundary_def)
  next
    case False
    from chunk [OF this] i show ?thesis by (auto simp: rope_clip_offset_def rope_ceil_char_boundary_def len)
  qed
qed

section \<open>The chunk of a position\<close>

text \<open>The parts of the text around a chunk are valid.\<close>

lemma chunk_parts:
  assumes "rope_ok t" "k < length (tree_items t)"
  shows "valid_utf8 (chunks_text (take k (tree_items t)))" "chunk_ok (tree_items t ! k)" "valid_utf8 (ch_text (tree_items t ! k))"
    "valid_utf8 (chunks_text (drop (Suc k) (tree_items t)))"
  using assms chunk_okD(2) [of "tree_items t ! k"]
  by (auto simp: rope_ok_def intro!: chunks_text_valid dest: in_set_takeD in_set_dropD)

lemma chunk_prefix_Suc: "k < length cs \<Longrightarrow> chunks_text (take (Suc k) cs) = chunks_text (take k cs) @ ch_text (cs ! k)"
  by (simp add: take_Suc_conv_app_nth)

text \<open>The chunk a search with right bias finds: the position is within it, before its end.\<close>

context text_position
begin

lemma find_right:
  assumes t: "rope_ok t"
  shows "cmp x (measured (rope_text t)) \<noteq> Less \<Longrightarrow> snd (snd (find (td_dim D) (cmp x) Right t)) = None"
    and "cmp x (measured (rope_text t)) = Less \<Longrightarrow> \<exists>k e. k < length (tree_items t) \<and>
      find (td_dim D) (cmp x) Right t = (measured (chunks_text (take k (tree_items t))), e, Some (tree_items t ! k)) \<and>
      cmp x (measured (chunks_text (take k (tree_items t)))) \<noteq> Less \<and>
      cmp x (measured (chunks_text (take k (tree_items t)) @ ch_text (tree_items t ! k))) = Less"
proof -
  have found: "\<exists>k e. find (td_dim D) (cmp x) Right t = (measured (chunks_text (take k (tree_items t))), e, index_opt (tree_items t) k) \<and>
      cmp x (measured (chunks_text (take k (tree_items t)))) \<noteq> Less \<and> k \<le> length (tree_items t) \<and>
      (k < length (tree_items t) \<longrightarrow> cmp x (measured (chunks_text (take k (tree_items t)) @ ch_text (tree_items t ! k))) = Less)"
    if ne: "tree_items t \<noteq> []"
  proof -
    obtain k e where k: "find (td_dim D) (cmp x) Right t = (measured (chunks_text (take k (tree_items t))), e, index_opt (tree_items t) k)"
      "chunk_at measured t (cmp x) Right k" using find_chunk [OF t ne, of "cmp x" Right] cmp_mono by blast
    have "beyond o' Right \<longleftrightarrow> o' \<noteq> Less" for o' by (cases o') (simp_all add: beyond_def)
    with k cmp_zero [of x] show ?thesis
      using chunk_prefix_Suc [of k "tree_items t"] by (intro exI [of _ k] exI [of _ e]) (cases "k = 0", auto simp: chunk_at_def)
  qed
  show "snd (snd (find (td_dim D) (cmp x) Right t)) = None" if beyond: "cmp x (measured (rope_text t)) \<noteq> Less"
  proof (cases "tree_items t = []")
    case False
    then obtain k e where k: "find (td_dim D) (cmp x) Right t = (measured (chunks_text (take k (tree_items t))), e, index_opt (tree_items t) k)"
      "k < length (tree_items t) \<longrightarrow> cmp x (measured (chunks_text (take k (tree_items t)) @ ch_text (tree_items t ! k))) = Less" using found by blast
    have "\<not> k < length (tree_items t)"
    proof
      assume less: "k < length (tree_items t)"
      note parts = chunk_parts [OF t less]
      have "cmp x (measured (rope_text t)) \<le> Less"
        using cmp_mono [OF _ parts(4), of "chunks_text (take k (tree_items t)) @ ch_text (tree_items t ! k)" x] parts(1,3) k(2) less
        unfolding chunk_split(1) [OF less] by (simp add: valid_utf8_append)
      with beyond show False by (simp only: ordering_le_iff)
    qed
    with k(1) show ?thesis by (simp add: index_opt_def)
  qed (simp add: find_empty [OF t])
  assume less: "cmp x (measured (rope_text t)) = Less"
  have ne: "tree_items t \<noteq> []" using less cmp_zero [of x] by (auto simp: rope_text_def)
  from found [OF this] less show "\<exists>k e. k < length (tree_items t) \<and>
      find (td_dim D) (cmp x) Right t = (measured (chunks_text (take k (tree_items t))), e, Some (tree_items t ! k)) \<and>
      cmp x (measured (chunks_text (take k (tree_items t)))) \<noteq> Less \<and>
      cmp x (measured (chunks_text (take k (tree_items t)) @ ch_text (tree_items t ! k))) = Less"
    by (metis index_opt_simps(1) le_neq_implies_less order_refl rope_text_def take_all)
qed

end

section \<open>Clipping UTF-16 offsets\<close>

lemma nutf16_mono: "i \<le> j \<Longrightarrow> nutf16 (take i s) \<le> nutf16 (take j s)"
  by (metis le_add1 le_add_diff_inverse nutf16_simps(2) take_add)

lemma clips_to_chunk:
  assumes v: "valid_utf8 a" "valid_utf8 c" "valid_utf8 r" and n: "nutf16 a \<le> n" "n < nutf16 (a @ c)" and k: "clips_to c b (n - nutf16 a) k"
  shows "clips_to (a @ c @ r) b n (length a + k)"
proof -
  have vs: "valid_utf8 (c @ r)" "valid_utf8 (a @ c @ r)" using v by (simp_all add: valid_utf8_append)
  have inner: "str_is_char_boundary (a @ c @ r) (length a + j) \<longleftrightarrow> str_is_char_boundary c j" if "j \<le> length c" for j
    using row_boundary_iff [of a c r j] concat_boundary [OF vs(1), of a] concat_boundary [OF v(3), of "a @ c"] that by simp
  have kb: "str_is_char_boundary c k" "k \<le> length c" using k boundary_le by (auto simp: clips_to_def)
  have n': "n - nutf16 a < nutf16 c" "n < nutf16 (a @ c @ r)" using n by auto
  show ?thesis
  proof (cases "b = Left")
    case True
    have c: "nutf16 (take k c) \<le> n - nutf16 a" "\<And>j. j \<in> {k<..<length c} \<Longrightarrow> str_is_char_boundary c j \<Longrightarrow> n - nutf16 a < nutf16 (take j c)"
      using k n'(1) True by (auto simp: clips_to_def)
    have "n < nutf16 (take j (a @ c @ r))" if "length a + k < j" "str_is_char_boundary (a @ c @ r) j" for j
    proof (cases "j < length a + length c")
      case less: True
      then have "str_is_char_boundary c (j - length a)" using inner [of "j - length a"] that by simp
      then have "n - nutf16 a < nutf16 (take (j - length a) c)" using that(1) less by (intro c(2)) auto
      with that(1) less n(1) show ?thesis by simp
    next
      case False
      then have "nutf16 (take (length a + length c) (a @ c @ r)) \<le> nutf16 (take j (a @ c @ r))" by (intro nutf16_mono) simp
      with n(2) show ?thesis by simp
    qed
    with True n' c(1) n(1) inner [OF kb(2)] kb show ?thesis by (auto simp: clips_to_def)
  next
    case False
    have c: "n - nutf16 a \<le> nutf16 (take k c)" "\<And>j. j < k \<Longrightarrow> str_is_char_boundary c j \<Longrightarrow> nutf16 (take j c) < n - nutf16 a"
      using k n'(1) False by (auto simp: clips_to_def)
    have "nutf16 (take j (a @ c @ r)) < n" if "j < length a + k" "str_is_char_boundary (a @ c @ r) j" for j
    proof (cases "j < length a")
      case True
      have "str_is_char_boundary a j" using that(2) True by (auto simp: str_is_char_boundary_def nth_append)
      from utf16_position.cmp_boundary [OF v(1) this, of "length a"] True have "nutf16 (take j a) < nutf16 a"
        by (simp add: str_is_char_boundary_def ord_cmp_def split: if_splits)
      with True n(1) show ?thesis by simp
    next
      case ge: False
      then have "str_is_char_boundary c (j - length a)" using inner [of "j - length a"] that kb(2) by simp
      then have "nutf16 (take (j - length a) c) < n - nutf16 a" using that(1) ge by (intro c(2)) auto
      with that(1) ge kb(2) show ?thesis by simp
    qed
    with False n' c(1) inner [OF kb(2)] kb show ?thesis by (auto simp: clips_to_def)
  qed
qed

lemma rope_clip_offset_utf16_correct:
  assumes t: "rope_ok t"
  shows "\<exists>k. rope_clip_offset_utf16 t n b = Some (nutf16 (take k (rope_text t))) \<and> clips_to (rope_text t) b n k"
proof (cases "nutf16 (rope_text t) \<le> n")
  case True
  then have "snd (snd (find utf16_dim (ord_cmp n) Right t)) = None" using utf16_position.find_right(1) [OF t, of n] by (simp add: ord_cmp_def)
  with True show ?thesis
    by (intro exI [of _ "length (rope_text t)"])
      (auto simp: rope_clip_offset_utf16_def clips_to_def str_is_char_boundary_def rope_summary_fields [OF t] split: prod.splits)
next
  case False
  then obtain k e where k: "k < length (tree_items t)"
    "find utf16_dim (ord_cmp n) Right t = (nutf16 (chunks_text (take k (tree_items t))), e, Some (tree_items t ! k))"
    "ord_cmp n (nutf16 (chunks_text (take k (tree_items t)))) \<noteq> Less"
    "ord_cmp n (nutf16 (chunks_text (take k (tree_items t)) @ ch_text (tree_items t ! k))) = Less"
    using utf16_position.find_right(2) [OF t, of n] by (auto simp: ord_cmp_def simp del: nutf16_simps)
  let ?a = "chunks_text (take k (tree_items t))" and ?c = "tree_items t ! k"
  have n: "nutf16 ?a \<le> n" "n < nutf16 (?a @ ch_text ?c)" using k(3,4) by (auto simp: ord_cmp_def split: if_splits)
  note parts = chunk_parts [OF t k(1)]
  obtain j where j: "slice_clip_offset_utf16 ?c (n - nutf16 ?a) b = Some (nutf16 (take j (ch_text ?c)))" "clips_to (ch_text ?c) b (n - nutf16 ?a) j"
    using slice_clip_offset_utf16_correct [OF parts(2)] by blast
  have "clips_to (rope_text t) b n (length ?a + j)"
    unfolding chunk_split(1) [OF k(1)] by (rule clips_to_chunk [OF parts(1,3,4) n j(2)])
  moreover have "j \<le> length (ch_text ?c)" using j(2) boundary_le by (auto simp: clips_to_def)
  then have "nutf16 (take (length ?a + j) (rope_text t)) = nutf16 ?a + nutf16 (take j (ch_text ?c))"
    unfolding chunk_split(1) [OF k(1)] by simp
  ultimately show ?thesis using k(2) j(1) n(1) by (intro exI [of _ "length ?a + j"]) (simp add: rope_clip_offset_utf16_def)
qed

section \<open>Clipping points\<close>

text \<open>The chunk a search for a point finds lies in the row of the point or before it.\<close>

lemma point_chunk:
  assumes t: "rope_ok t" "tree_items t \<noteq> []"
  shows "\<exists>k e. find point_dim (point_cmp_fields p) b t = (lines_of (chunks_text (take k (tree_items t))), e, index_opt (tree_items t) k) \<and>
    chunk_at lines_of t (point_cmp_fields p) b k"
  using point_measure.find_chunk [OF t, of "point_cmp_fields p" b] point_position.cmp_mono by auto

lemma point_chunk_bounds:
  fixes p :: "nat point"
  assumes "chunk_at f t (point_cmp_fields p) b k" "f [] = point_zero"
  shows "point_cmp_fields p (f (chunks_text (take k (tree_items t)))) \<noteq> Less"
    and "k < length (tree_items t) \<Longrightarrow> point_cmp_fields p (f (chunks_text (take k (tree_items t)) @ ch_text (tree_items t ! k))) \<noteq> Greater"
    and "b = Right \<Longrightarrow> k < length (tree_items t) \<Longrightarrow> point_cmp_fields p (f (chunks_text (take k (tree_items t)) @ ch_text (tree_items t ! k))) = Less"
proof -
  have zero: "point_cmp_fields p (f []) \<noteq> Less" by (simp add: assms(2) point_zero_def point_fields_cmp)
  show "point_cmp_fields p (f (chunks_text (take k (tree_items t)))) \<noteq> Less"
    using assms(1) zero by (cases "k = 0") (auto simp: chunk_at_def beyond_def)
  show "k < length (tree_items t) \<Longrightarrow> point_cmp_fields p (f (chunks_text (take k (tree_items t)) @ ch_text (tree_items t ! k))) \<noteq> Greater"
    using assms(1) chunk_prefix_Suc [of k "tree_items t"] by (auto simp: chunk_at_def beyond_def)
  assume "b = Right" "k < length (tree_items t)"
  then show "point_cmp_fields p (f (chunks_text (take k (tree_items t)) @ ch_text (tree_items t ! k))) = Less"
    using assms(1) chunk_prefix_Suc [of k "tree_items t"]
    by (cases "point_cmp_fields p (f (chunks_text (take k (tree_items t)) @ ch_text (tree_items t ! k)))") (auto simp: chunk_at_def beyond_def)
qed

text \<open>The rows of a text around a chunk.\<close>

lemma nth_rows_append:
  "split_newline (a @ c) ! (newlines a + r) = (if r = 0 then last_line a @ hd (split_newline c) else split_newline c ! r)" if "r \<le> newlines c"
proof -
  obtain l ls where l: "split_newline c = l # ls" by (cases "split_newline c") auto
  have "newlines a + r < length (butlast (split_newline a)) \<longleftrightarrow> False" by (simp add: newlines_def)
  then show ?thesis using that by (simp add: split_newline_append l nth_append newlines_def last_line_def nth_Cons split: nat.splits)
qed

lemma nth_rows_before: "r < newlines a \<Longrightarrow> split_newline (a @ c) ! r = split_newline a ! r"
  by (simp add: split_newline_append newlines_def nth_append nth_butlast)

lemma nth_rows_prefix: "r \<le> newlines c \<Longrightarrow> length (split_newline c ! r) \<le> length (split_newline (c @ d) ! r)"
  using nth_rows_before [of r c d] nth_rows_append [of 0 d c] last_conv_nth [of "split_newline c"]
  by (cases "r = newlines c") (auto simp: newlines_def last_line_def)

lemma clip_to_text_chunk:
  assumes "point_cmp_fields p (lines_of a) \<noteq> Less" "point_cmp_fields p (lines_of (a @ c)) \<noteq> Greater"
  shows "point_add (lines_of a) (clip_to_text c (point_sub p (lines_of a))) = clip_to_text (a @ c @ r) p"
    and "row (point_sub p (lines_of a)) \<le> newlines c"
proof -
  let ?q = "point_sub p (lines_of a)" and ?l = "last_line a"
  have p: "newlines a < row p \<or> row p = newlines a \<and> length ?l \<le> column p"
    "row p < newlines a + newlines c \<or> row p = newlines a + newlines c \<and> column p \<le> length (last_line (a @ c))"
    using assms by (auto simp: point_fields_cmp newlines_append)
  show rq: "row ?q \<le> newlines c" using p by (auto simp: point_sub_def)
  have rows: "row p \<le> newlines (a @ c @ r)" using p by (auto simp: newlines_append)
  have last: "split_newline c ! newlines c = last_line c" using last_conv_nth [of "split_newline c"] by (simp add: newlines_def last_line_def)
  have first: "split_newline c ! 0 = hd (split_newline c)" by (simp add: hd_conv_nth)
  show "point_add (lines_of a) (clip_to_text c ?q) = clip_to_text (a @ c @ r) p"
  proof (cases "row p = newlines a")
    case True
    have "split_newline (a @ c @ r) ! row p = ?l @ hd (split_newline (c @ r))" using nth_rows_append [of 0 "c @ r" a] True by simp
    moreover have "newlines c = 0 \<Longrightarrow> column p \<le> length ?l + length (hd (split_newline c))"
      using p True last first by (auto simp: last_line_append)
    ultimately show ?thesis
      using True p rows first by (auto simp: clip_to_text_def point_sub_def point_add_def first_line_append point_eq_iff min_def)
  next
    case False
    let ?r = "row p - newlines a"
    have r: "?r \<noteq> 0" "row p = newlines a + ?r" "?r \<le> newlines c" using False p by auto
    have "split_newline (a @ c @ r) ! row p = split_newline (c @ r) ! ?r"
      using nth_rows_append [of ?r "c @ r" a] r by (simp add: newlines_append)
    moreover have "min (column p) (length (split_newline (c @ r) ! ?r)) = min (column p) (length (split_newline c ! ?r))"
    proof (cases "?r = newlines c")
      case True
      have "split_newline (c @ r) ! ?r = last_line c @ hd (split_newline r)" using nth_rows_append [of 0 r c] True by simp
      moreover have "column p \<le> length (last_line c)" using p True r by (auto simp: last_line_append)
      ultimately show ?thesis using True last by simp
    qed (use r nth_rows_before [of ?r c r] in simp)
    ultimately show ?thesis
      using r rows by (auto simp: clip_to_text_def point_sub_def point_add_def point_eq_iff)
  qed
qed

lemma clip_to_text_beyond: "point_cmp_fields p (lines_of s) \<noteq> Less \<Longrightarrow> clip_to_text s p = lines_of s"
  using last_conv_nth [of "split_newline s"]
  by (auto simp: point_fields_cmp clip_to_text_def point_at_def point_eq_iff newlines_def last_line_def)

text \<open>A point anywhere is converted to the offset of the point clipped to the text.\<close>

lemma rope_point_to_offset_clips:
  assumes t: "rope_ok t"
  shows "\<exists>i \<le> length (rope_text t). rope_point_to_offset t p = Some i \<and> point_at (rope_text t) i = clip_to_text (rope_text t) p"
proof (cases "point_cmp_fields p (lines_of (rope_text t)) = Less")
  case False
  then show ?thesis using clip_to_text_beyond [OF False]
    by (intro exI [of _ "length (rope_text t)"]) (simp add: rope_point_to_offset_def rope_summary_fields [OF t] point_at_def)
next
  case True
  have ne: "tree_items t \<noteq> []" using True by (auto simp: rope_text_def point_fields_cmp last_line_def)
  let ?P = "pair_text_dim point_text_dim len_text_dim" and ?f = "\<lambda>s. (lines_of s, length s)"
  have P: "text_measure ?P ?f" by (rule pair_measure [OF point_measure.text_measure_axioms len_measure.text_measure_axioms])
  have dim: "td_dim ?P = pair_dim point_dim len_dim" by (simp add: pair_text_dim_def)
  have mono: "point_cmp_fields p (fst (?f (a @ b))) \<le> point_cmp_fields p (fst (?f a))" if "valid_utf8 a" "valid_utf8 b" for a b
    using point_position.cmp_mono [OF that, of p] by simp
  obtain k e where k: "find (pair_dim point_dim len_dim) (\<lambda>d. point_cmp_fields p (fst d)) Left t = (?f (chunks_text (take k (tree_items t))), e, index_opt (tree_items t) k)"
    "chunk_at lines_of t (point_cmp_fields p) Left k"
    using text_measure.find_chunk [OF P t ne, of "\<lambda>d. point_cmp_fields p (fst d)" Left] mono unfolding dim by (auto simp: chunk_at_def)
  let ?a = "chunks_text (take k (tree_items t))" and ?c = "tree_items t ! k"
  have less: "k < length (tree_items t)"
  proof (rule ccontr)
    assume "\<not> k < length (tree_items t)"
    then have "k = length (tree_items t)" "k \<noteq> 0" using k(2) ne by (auto simp: chunk_at_def)
    with k(2) True show False by (auto simp: chunk_at_def beyond_def rope_text_def)
  qed
  note bounds = point_chunk_bounds [OF k(2) lines_Nil(1) [symmetric]]
  note parts = chunk_parts [OF t less]
  let ?q = "point_sub p (lines_of ?a)"
  let ?i = "slice_point_to_offset ?c ?q"
  have i: "?i \<le> length (ch_text ?c)" "point_at (ch_text ?c) ?i = clip_to_text (ch_text ?c) ?q"
    using slice_point_to_offset_correct [OF parts(2)] by auto
  have "point_at (rope_text t) (length ?a + ?i) = point_add (lines_of ?a) (point_at (ch_text ?c) ?i)"
    unfolding chunk_split(1) [OF less] using i(1) by (simp add: point_at_lines [symmetric] point_add_lines)
  also have "\<dots> = clip_to_text (rope_text t) p"
    unfolding i(2) chunk_split(1) [OF less] by (rule clip_to_text_chunk(1) [OF bounds(1) bounds(2) [OF less]])
  finally have "point_at (rope_text t) (length ?a + ?i) = clip_to_text (rope_text t) p" .
  moreover have "length ?a + ?i \<le> length (rope_text t)" unfolding chunk_split(1) [OF less] using i(1) by simp
  moreover have "rope_point_to_offset t p = Some (length ?a + ?i)"
    using True k(1) bounds(1) less by (simp add: rope_point_to_offset_def rope_summary_fields [OF t] point_at_def via_find_def index_opt_def)
  ultimately show ?thesis by blast
qed

text \<open>Clipping within a chunk, as a boundary of the chunk.\<close>

lemma slice_clip_point_boundary:
  assumes c: "chunk_ok c" "row q \<le> newlines (ch_text c)" and ends: "\<And>l. grapheme l 0 \<and> grapheme l (length l)"
    and ascii: "\<And>l i. 0 < i \<Longrightarrow> i < length l \<Longrightarrow> l ! (i - 1) < 128 \<Longrightarrow> l ! i < 128 \<Longrightarrow> l ! i \<noteq> 10 \<Longrightarrow> grapheme l i"
  shows "\<exists>i k. slice_clip_point grapheme c q b = Some (Point (row q) k) \<and> str_is_char_boundary (ch_text c) i \<and> point_at (ch_text c) i = Point (row q) k \<and>
    (if b = Left then k \<le> column (clip_to_text (ch_text c) q) else column (clip_to_text (ch_text c) q) \<le> k) \<and>
    (length (split_newline (ch_text c) ! row q) \<le> column q \<longrightarrow> k = length (split_newline (ch_text c) ! row q)) \<and>
    nearest_stop grapheme (split_newline (ch_text c) ! row q) b (min (column q) (length (split_newline (ch_text c) ! row q))) k"
proof -
  obtain a r line where l: "ch_text c = a @ ch_text line @ r" "slice_offset_range_for_row c (row q) = (length a, length a + length (ch_text line))"
    "slice_slice c (length a) (length a + length (ch_text line)) = Some line" "slice_row c (row q) = Some line" "chunk_ok line"
    "ch_text line = split_newline (ch_text c) ! row q" "newlines a = row q" "last_line a = []" "10 \<notin> set (ch_text line)"
    "str_is_char_boundary (ch_text c) (length a)" "str_is_char_boundary (ch_text c) (length a + length (ch_text line))"
    by (rule slice_row_correct [OF c])
  let ?l = "ch_text line" and ?m = "min (column q) (length (ch_text line))"
  obtain k where k: "slice_clip_point grapheme c q b = Some (Point (row q) k)" "nearest_stop grapheme ?l b ?m k"
    using slice_clip_point_row [OF c l(6), of grapheme b] ends ascii by auto
  have kb: "str_is_char_boundary ?l k" "k \<le> length ?l" using k(2) boundary_le by (auto simp: nearest_stop_def grapheme_stop_def)
  have "str_is_char_boundary (ch_text c) (length a + k)" using row_boundary_iff [of a ?l r k] l(1,10,11) kb by simp
  moreover have "point_at (ch_text c) (length a + k) = Point (row q) k" unfolding l(1) using row_positions(1) [OF l(7-9) kb(2)] by simp
  moreover have "clip_to_text (ch_text c) q = Point (row q) ?m" using c(2) l(6) by (simp add: clip_to_text_def)
  moreover have "length ?l \<le> column q \<Longrightarrow> k = length ?l"
    using nearest_stop_unique [OF k(2), of "length ?l"] nearest_stop_refl [of grapheme ?l "length ?l" b] ends
    by (simp add: grapheme_stop_def str_is_char_boundary_def)
  ultimately show ?thesis using k l(6) by (intro exI [of _ "length a + k"] exI [of _ k]) (auto simp: nearest_stop_def)
qed

text \<open>The stop in the part of the row that lies in the chunk holding the point.\<close>

definition chunk_stop :: "(str \<Rightarrow> nat \<Rightarrow> bool) \<Rightarrow> rope \<Rightarrow> nat point \<Rightarrow> bias \<Rightarrow> nat point \<Rightarrow> bool" where
  "chunk_stop grapheme t p b q \<longleftrightarrow> (\<exists>a c r m. rope_text t = a @ ch_text c @ r \<and> c \<in> set (tree_items t) \<and>
     point_cmp_fields p (lines_of a) \<noteq> Less \<and> point_cmp_fields p (lines_of (a @ ch_text c)) = Less \<and>
     q = point_add (lines_of a) (Point (row (point_sub p (lines_of a))) m) \<and>
     nearest_stop grapheme (split_newline (ch_text c) ! row (point_sub p (lines_of a))) b
       (min (column (point_sub p (lines_of a))) (length (split_newline (ch_text c) ! row (point_sub p (lines_of a))))) m)"

lemma rope_clip_point_correct:
  assumes t: "rope_ok t" and ends: "\<And>l. grapheme l 0 \<and> grapheme l (length l)"
    and ascii: "\<And>l i. 0 < i \<Longrightarrow> i < length l \<Longrightarrow> l ! (i - 1) < 128 \<Longrightarrow> l ! i < 128 \<Longrightarrow> l ! i \<noteq> 10 \<Longrightarrow> grapheme l i"
  shows "\<exists>i. rope_clip_point grapheme t p b = Some (point_at (rope_text t) i) \<and> str_is_char_boundary (rope_text t) i \<and>
    row (point_at (rope_text t) i) = row (clip_to_text (rope_text t) p) \<and>
    (if b = Left then column (point_at (rope_text t) i) \<le> column (clip_to_text (rope_text t) p)
     else column (clip_to_text (rope_text t) p) \<le> column (point_at (rope_text t) i)) \<and>
    (row p \<le> newlines (rope_text t) \<and> length (split_newline (rope_text t) ! row p) \<le> column p \<longrightarrow> point_at (rope_text t) i = clip_to_text (rope_text t) p) \<and>
    (if point_cmp_fields p (lines_of (rope_text t)) = Less then chunk_stop grapheme t p b (point_at (rope_text t) i)
     else point_at (rope_text t) i = lines_of (rope_text t))"
proof (cases "point_cmp_fields p (lines_of (rope_text t)) = Less")
  case False
  have stop: "str_is_char_boundary (rope_text t) (length (rope_text t))" "point_at (rope_text t) (length (rope_text t)) = clip_to_text (rope_text t) p"
    using clip_to_text_beyond [OF False] by (simp_all add: str_is_char_boundary_def point_at_def)
  have "snd (snd (find point_dim (point_cmp_fields p) Right t)) = None" using point_position.find_right(1) [OF t False] by simp
  then show ?thesis using stop False by (intro exI [of _ "length (rope_text t)"]) (auto simp: rope_clip_point_def rope_summary_fields [OF t] point_at_def split: prod.splits)
next
  case True
  obtain k e where less: "k < length (tree_items t)"
    and k: "find point_dim (point_cmp_fields p) Right t = (lines_of (chunks_text (take k (tree_items t))), e, Some (tree_items t ! k))"
    and bounds: "point_cmp_fields p (lines_of (chunks_text (take k (tree_items t)))) \<noteq> Less"
      "point_cmp_fields p (lines_of (chunks_text (take k (tree_items t)) @ ch_text (tree_items t ! k))) = Less"
    using point_position.find_right(2) [OF t True] by auto
  have bound: "point_cmp_fields p (lines_of (chunks_text (take k (tree_items t)) @ ch_text (tree_items t ! k))) \<noteq> Greater" using bounds(2) by simp
  let ?a = "chunks_text (take k (tree_items t))" and ?c = "tree_items t ! k" and ?r = "chunks_text (drop (Suc k) (tree_items t))"
  let ?q = "point_sub p (lines_of ?a)"
  note parts = chunk_parts [OF t less]
  note clip = clip_to_text_chunk(1) [OF bounds(1) bound, of ?r, folded chunk_split(1) [OF less]] clip_to_text_chunk(2) [OF bounds(1) bound]
  obtain i m where i: "slice_clip_point grapheme ?c ?q b = Some (Point (row ?q) m)" "str_is_char_boundary (ch_text ?c) i" "point_at (ch_text ?c) i = Point (row ?q) m"
    "if b = Left then m \<le> column (clip_to_text (ch_text ?c) ?q) else column (clip_to_text (ch_text ?c) ?q) \<le> m"
    "length (split_newline (ch_text ?c) ! row ?q) \<le> column ?q \<longrightarrow> m = length (split_newline (ch_text ?c) ! row ?q)"
    "nearest_stop grapheme (split_newline (ch_text ?c) ! row ?q) b (min (column ?q) (length (split_newline (ch_text ?c) ! row ?q))) m"
    using slice_clip_point_boundary [OF parts(2) clip(2) ends ascii] by blast
  have pos: "point_at (rope_text t) (length ?a + i) = point_add (lines_of ?a) (Point (row ?q) m)"
    unfolding chunk_split(1) [OF less] i(3) [symmetric] using boundary_le [OF i(2)] by (simp add: point_at_lines [symmetric] point_add_lines)
  have bd: "str_is_char_boundary (rope_text t) (length ?a + i)"
    using boundary_in_chunk [OF t less, of "length ?a + i"] i(2) boundary_le [OF i(2)] chunk_split(2) [OF less] by (simp add: chunk_pos_eq)
  have rq: "row (clip_to_text (ch_text ?c) ?q) = row ?q" using clip(2) by (simp add: clip_to_text_def)
  have rows: "row (point_at (rope_text t) (length ?a + i)) = row (clip_to_text (rope_text t) p)"
    unfolding pos clip(1) [symmetric] using rq by (simp add: point_add_def)
  have cols: "if b = Left then column (point_at (rope_text t) (length ?a + i)) \<le> column (clip_to_text (rope_text t) p)
      else column (clip_to_text (rope_text t) p) \<le> column (point_at (rope_text t) (length ?a + i))"
    unfolding pos clip(1) [symmetric] using rq i(4) by (auto simp: point_add_def)
  have full: "point_at (rope_text t) (length ?a + i) = clip_to_text (rope_text t) p" if "length (split_newline (rope_text t) ! row p) \<le> column p"
  proof -
    have row: "split_newline (rope_text t) ! row p = (if row ?q = 0 then last_line ?a @ hd (split_newline (ch_text ?c @ ?r)) else split_newline (ch_text ?c @ ?r) ! row ?q)"
      using nth_rows_append [of "row ?q" "ch_text ?c @ ?r" ?a] clip(2) bounds(1)
      unfolding chunk_split(1) [OF less] by (auto simp: newlines_append point_sub_def point_fields_cmp)
    have "length (split_newline (ch_text ?c) ! row ?q) \<le> length (split_newline (ch_text ?c @ ?r) ! row ?q)" by (rule nth_rows_prefix [OF clip(2)])
    then have "length (split_newline (ch_text ?c) ! row ?q) \<le> column ?q"
      using that bounds(1) unfolding row by (auto simp: point_sub_def point_fields_cmp hd_conv_nth split: if_splits)
    then show ?thesis using i(5) clip(2) unfolding pos clip(1) [symmetric] by (simp add: clip_to_text_def)
  qed
  from k less i(1) bounds(1) have "rope_clip_point grapheme t p b = Some (point_at (rope_text t) (length ?a + i))"
    by (simp add: rope_clip_point_def index_opt_def pos)
  moreover have "chunk_stop grapheme t p b (point_at (rope_text t) (length ?a + i))"
    unfolding chunk_stop_def pos
  proof (intro exI conjI)
    show "rope_text t = ?a @ ch_text ?c @ ?r" by (rule chunk_split(1) [OF less])
    show "?c \<in> set (tree_items t)" using less by simp
  qed (rule bounds i(6) refl)+
  ultimately show ?thesis using bd rows cols full True by auto
qed

lemma clips_to_row:
  assumes v: "valid_utf8 a" "valid_utf8 l" "valid_utf8 r" and n: "nutf16 a \<le> n" "r \<noteq> [] \<Longrightarrow> n < nutf16 (a @ l)"
    and k: "clips_to l b (n - nutf16 a) k"
  shows "clips_to (a @ l @ r) b n (length a + k)"
proof (cases "n < nutf16 (a @ l)")
  case True
  from clips_to_chunk [OF v n(1) True k] show ?thesis .
next
  case False
  then have "r = []" "nutf16 l \<le> n - nutf16 a" "nutf16 (a @ l) \<le> n" using n by auto
  with k show ?thesis by (simp add: clips_to_def str_is_char_boundary_def)
qed

lemma nth_rows_around:
  assumes "r \<le> newlines c"
  obtains pre rest where "split_newline (a @ c @ d) ! (newlines a + r) = pre @ split_newline c ! r @ rest"
    "pre = (if r = 0 then last_line a else [])" "rest = (if r = newlines c then hd (split_newline d) else [])"
proof -
  have le: "r \<le> newlines (c @ d)" using assms by (simp add: newlines_append)
  have first: "hd (split_newline x) = split_newline x ! 0" for x by (simp add: hd_conv_nth)
  have "split_newline (c @ d) ! r = split_newline c ! r @ (if r = newlines c then hd (split_newline d) else [])"
    using nth_rows_before [of r c d] nth_rows_append [of 0 d c] last_conv_nth [of "split_newline c"] assms
    by (cases "r = newlines c") (auto simp: newlines_def last_line_def)
  with nth_rows_append [OF le, of a] first [of "c @ d"] show thesis
    by (intro that [of "if r = 0 then last_line a else []" "if r = newlines c then hd (split_newline d) else []"]) auto
qed

lemma rope_clip_point_utf16_row:
  assumes t: "rope_ok t"
  shows "if newlines (rope_text t) < row p then rope_clip_point_utf16 t p b = Some (point_utf16_at (rope_text t) (length (rope_text t)))
    else \<exists>k. clips_to (split_newline (rope_text t) ! row p) b (column p) k \<and>
      rope_clip_point_utf16 t p b = Some (Point (row p) (nutf16 (take k (split_newline (rope_text t) ! row p))))"
proof (cases "point_cmp_fields p (lines_utf16_of (rope_text t)) = Less")
  case False
  let ?s = "rope_text t"
  have none: "snd (snd (find point_utf16_dim (point_cmp_fields p) Right t)) = None" using point_utf16_position.find_right(1) [OF t False] by simp
  have eq: "rope_clip_point_utf16 t p b = Some (Point (newlines ?s) (nutf16 (last_line ?s)))"
    using none by (auto simp: rope_clip_point_utf16_def rope_summary_fields [OF t] point_utf16_at_def split: prod.splits)
  show ?thesis
  proof (cases "newlines ?s < row p")
    case True
    then show ?thesis using eq by (simp add: point_utf16_at_def)
  next
    case False': False
    then have p: "row p = newlines ?s" "nutf16 (last_line ?s) \<le> column p" using False by (auto simp: point_fields_cmp)
    have l: "split_newline ?s ! row p = last_line ?s" using last_conv_nth [of "split_newline ?s"] p(1) by (simp add: newlines_def last_line_def)
    have "clips_to (last_line ?s) b (column p) (length (last_line ?s))" using p(2) by (simp add: clips_to_def str_is_char_boundary_def)
    with False' eq p(1) l show ?thesis by auto
  qed
next
  case True
  let ?s = "rope_text t"
  obtain k e where less: "k < length (tree_items t)"
    and k: "find point_utf16_dim (point_cmp_fields p) Right t = (lines_utf16_of (chunks_text (take k (tree_items t))), e, Some (tree_items t ! k))"
    and bounds: "point_cmp_fields p (lines_utf16_of (chunks_text (take k (tree_items t)))) \<noteq> Less"
      "point_cmp_fields p (lines_utf16_of (chunks_text (take k (tree_items t)) @ ch_text (tree_items t ! k))) = Less"
    using point_utf16_position.find_right(2) [OF t True] by auto
  let ?a = "chunks_text (take k (tree_items t))" and ?c = "tree_items t ! k" and ?d = "chunks_text (drop (Suc k) (tree_items t))"
  let ?q = "point_sub p (lines_utf16_of ?a)"
  note parts = chunk_parts [OF t less]
  have p: "newlines ?a < row p \<or> row p = newlines ?a \<and> nutf16 (last_line ?a) \<le> column p"
    "row p < newlines ?a + newlines (ch_text ?c) \<or> row p = newlines ?a + newlines (ch_text ?c) \<and> column p < nutf16 (last_line (?a @ ch_text ?c))"
    using bounds by (auto simp: point_fields_cmp newlines_append)
  have rq: "row ?q \<le> newlines (ch_text ?c)" "newlines ?a + row ?q = row p" using p by (auto simp: point_sub_def)
  obtain pre rest where L: "split_newline ?s ! row p = pre @ split_newline (ch_text ?c) ! row ?q @ rest"
    "pre = (if row ?q = 0 then last_line ?a else [])" "rest = (if row ?q = newlines (ch_text ?c) then hd (split_newline ?d) else [])"
    using nth_rows_around [OF rq(1), of ?a ?d] unfolding chunk_split(1) [OF less] rq(2) by blast
  obtain x r line where l: "ch_text ?c = x @ ch_text line @ r" "slice_offset_range_for_row ?c (row ?q) = (length x, length x + length (ch_text line))"
    "slice_slice ?c (length x) (length x + length (ch_text line)) = Some line" "slice_row ?c (row ?q) = Some line" "chunk_ok line"
    "ch_text line = split_newline (ch_text ?c) ! row ?q" "newlines x = row ?q" "last_line x = []" "10 \<notin> set (ch_text line)"
    "str_is_char_boundary (ch_text ?c) (length x)" "str_is_char_boundary (ch_text ?c) (length x + length (ch_text line))"
    by (rule slice_row_correct [OF parts(2) rq(1)])
  obtain m where m: "slice_clip_offset_utf16 line (column ?q) b = Some (nutf16 (take m (ch_text line)))" "clips_to (ch_text line) b (column ?q) m"
    using slice_clip_offset_utf16_correct [OF l(5)] by blast
  have clip: "slice_clip_point_utf16 ?c ?q b = Some (Point (row ?q) (nutf16 (take m (ch_text line))))"
    using m(1) l(4) rq(1) slice_lines_correct [OF parts(2)] by (simp add: slice_clip_point_utf16_def)
  have col: "nutf16 pre \<le> column p" "column ?q = column p - nutf16 pre"
    using p(1) rq(2) by (auto simp: L(2) point_sub_def)
  have v: "valid_utf8 pre" "valid_utf8 (ch_text line)" "valid_utf8 rest"
    using valid_last_line [OF parts(1)] chunk_okD(2) [OF l(5)] valid_rows [OF parts(4), of 0] by (auto simp: L(2,3) hd_conv_nth)
  have "column p < nutf16 (pre @ ch_text line)" if "rest \<noteq> []"
  proof -
    have last: "row ?q = newlines (ch_text ?c)" using that L(3) by (simp split: if_splits)
    then have "ch_text line = last_line (ch_text ?c)" using l(6) last_conv_nth [of "split_newline (ch_text ?c)"] by (simp add: newlines_def last_line_def)
    moreover have "column p < nutf16 (last_line (?a @ ch_text ?c))" using p(2) rq(2) last by simp
    ultimately show ?thesis using last by (auto simp: L(2) last_line_append split: if_splits)
  qed
  from clips_to_row [OF v col(1) this] m(2) col(2) have clips: "clips_to (split_newline ?s ! row p) b (column p) (length pre + m)"
    unfolding L(1) l(6) by simp
  have "rope_clip_point_utf16 t p b = Some (point_add (lines_utf16_of ?a) (Point (row ?q) (nutf16 (take m (ch_text line)))))"
    using k clip bounds(1) by (simp add: rope_clip_point_utf16_def)
  moreover have "point_add (lines_utf16_of ?a) (Point (row ?q) (nutf16 (take m (ch_text line)))) = Point (row p) (nutf16 (take (length pre + m) (split_newline ?s ! row p)))"
  proof -
    have "m \<le> length (ch_text line)" using m(2) boundary_le by (auto simp: clips_to_def)
    then show ?thesis using rq(2) unfolding L(1) l(6) by (auto simp: L(2) point_add_def)
  qed
  ultimately show ?thesis using clips rq by (auto simp: chunk_split(1) [OF less] newlines_append)
qed

lemma rope_line_len_correct:
  assumes "rope_ok t" "\<And>l. grapheme l 0 \<and> grapheme l (length l)"
    and "\<And>l i. 0 < i \<Longrightarrow> i < length l \<Longrightarrow> l ! (i - 1) < 128 \<Longrightarrow> l ! i < 128 \<Longrightarrow> l ! i \<noteq> 10 \<Longrightarrow> grapheme l i"
    and "r \<le> newlines (rope_text t)" "length (split_newline (rope_text t) ! r) < 2 ^ 32"
  shows "rope_line_len grapheme t r = Some (length (split_newline (rope_text t) ! r))"
proof -
  let ?p = "Point r (2 ^ 32 - 1) :: nat point"
  obtain i where i: "rope_clip_point grapheme t ?p Left = Some (point_at (rope_text t) i)"
    "row ?p \<le> newlines (rope_text t) \<and> length (split_newline (rope_text t) ! row ?p) \<le> column ?p \<longrightarrow> point_at (rope_text t) i = clip_to_text (rope_text t) ?p"
    using rope_clip_point_correct [OF assms(1-3), of ?p Left] by auto
  then have "point_at (rope_text t) i = Point r (length (split_newline (rope_text t) ! r))"
    using assms(4,5) by (auto simp: clip_to_text_def)
  with i(1) show ?thesis by (simp add: rope_line_len_def)
qed

lemma row_start_boundary:
  assumes "valid_utf8 s" "i \<le> length s" "column (point_at s i) = 0"
  shows "str_is_char_boundary s i"
proof -
  have "last_line (take i s) = []" using assms(3) by (simp add: point_at_def)
  then have "newlines (take i s) = 0 \<Longrightarrow> i = 0" "0 < newlines (take i s) \<Longrightarrow> \<exists>a. take i s = a @ [10]"
    using last_line_split(1,2) [of "take i s"] assms(2) by auto
  let ?l = "takeWhile (\<lambda>b. b \<noteq> 10) (drop i s)" and ?r = "dropWhile (\<lambda>b. b \<noteq> 10) (drop i s)"
  have "s = take i s @ ?l @ ?r" by simp
  moreover have "?r = [] \<or> hd ?r = 10" using hd_dropWhile [of "\<lambda>b. b \<noteq> 10" "drop i s"] by blast
  moreover have "10 \<notin> set ?l" by (auto dest: set_takeWhileD)
  ultimately show ?thesis using row_boundaries(1) [of "take i s" ?l ?r] assms(1,2) \<open>last_line (take i s) = []\<close> by simp
qed

lemma point_at_less: "i < j \<Longrightarrow> j \<le> length s \<Longrightarrow> point_cmp_fields (point_at s i) (point_at s j) = Less"
proof -
  assume ij: "i < j" "j \<le> length s"
  then have "take j s = take i s @ take (j - i) (drop i s)" "take (j - i) (drop i s) \<noteq> []" by (simp_all flip: take_add)
  then show ?thesis by (auto simp: point_at_def point_fields_cmp newlines_append last_line_append one_line)
qed

lemma rope_slice_rows_correct:
  assumes t: "rope_ok t" "height t \<le> 13" "filled (tree_items t)" and r: "start \<le> stop"
  shows "\<exists>u i j. rope_slice_rows t start stop = Some u \<and> rope_with u (between (rope_text t) i j) (height t + 6) True \<and> i \<le> j \<and> j \<le> length (rope_text t) \<and>
    point_at (rope_text t) i = clip_to_text (rope_text t) (Point start 0) \<and> point_at (rope_text t) j = clip_to_text (rope_text t) (Point stop 0)"
proof -
  let ?s = "rope_text t"
  have offset: "\<exists>i. i \<le> length ?s \<and> rope_point_to_offset t (Point r 0) = Some i \<and> point_at ?s i = clip_to_text ?s (Point r 0) \<and> str_is_char_boundary ?s i" for r
  proof -
    obtain i where i: "i \<le> length ?s" "rope_point_to_offset t (Point r 0) = Some i" "point_at ?s i = clip_to_text ?s (Point r 0)"
      using rope_point_to_offset_clips [OF t(1)] by blast
    have "str_is_char_boundary ?s i"
    proof (cases "newlines ?s < r")
      case True
      then have "i = length ?s" using i(1,3) point_at_inj [of ?s i "length ?s"] by (simp add: clip_to_text_def)
      then show ?thesis by (simp add: str_is_char_boundary_def)
    qed (use i row_start_boundary [OF rope_text_valid [OF t(1)]] in \<open>simp add: clip_to_text_def\<close>)
    with i show ?thesis by blast
  qed
  obtain i j where ij: "i \<le> length ?s" "rope_point_to_offset t (Point start 0) = Some i" "point_at ?s i = clip_to_text ?s (Point start 0)" "str_is_char_boundary ?s i"
    "j \<le> length ?s" "rope_point_to_offset t (Point stop 0) = Some j" "point_at ?s j = clip_to_text ?s (Point stop 0)" "str_is_char_boundary ?s j"
    using offset by blast
  have "\<not> j < i"
    using point_at_less [of j i ?s] ij(1) r unfolding ij(3,7) by (auto simp: point_fields_cmp clip_to_text_def point_at_def split: if_splits)
  then have le: "i \<le> j" by simp
  from rope_slice_correct [OF t le ij(4,8)] ij le show ?thesis by (auto simp: rope_slice_rows_def)
qed

section \<open>Properties\<close>

text \<open>
  C14. Character boundaries of a rope. \<open>is_char_boundary\<close> decides them for every offset; \<open>clip_offset\<close> returns the nearest
  boundary in the direction of the bias, and the length of the text for offsets beyond it; \<open>clip_offset_utf16\<close>
  does the same for UTF-16 offsets, which may lie inside a surrogate pair. None of them panics.
\<close>

theorem rope_clips_offsets:
  assumes "rope_ok t"
  shows "rope_is_char_boundary t i = Some (str_is_char_boundary (rope_text t) i)
    \<and> (if length (rope_text t) < i then rope_clip_offset t i Left = Some (length (rope_text t)) \<and> rope_clip_offset t i Right = Some (length (rope_text t))
       else (\<exists>k. rope_clip_offset t i Left = Some k \<and> floor_of (rope_text t) i k) \<and> (\<exists>k. rope_clip_offset t i Right = Some k \<and> ceil_of (rope_text t) i k))
    \<and> (\<exists>k. rope_clip_offset_utf16 t n b = Some (nutf16 (take k (rope_text t))) \<and> clips_to (rope_text t) b n k)"
  using rope_is_char_boundary_correct [OF assms] rope_clip_offset_correct [OF assms] rope_clip_offset_utf16_correct [OF assms] by simp

theorem rope_clips_offsets_witness:
  "\<exists>t. rope_from [97, 0xC3, 0xA9, 98] = Some t \<and> rope_is_char_boundary t 2 = Some False \<and> rope_clip_offset t 9 Left = Some 4"
proof -
  let ?s = "[97, 0xC3, 0xA9, 98] :: str"
  have v: "valid_utf8 ?s" by code_simp
  obtain t where t: "rope_from ?s = Some t" "rope_with t ?s 1 True" using rope_from_correct [OF v, of 0] by (auto simp: TREE_BASE_def)
  have "\<not> str_is_char_boundary ?s 2" by code_simp
  with rope_clips_offsets [of t 2 0 Left] rope_clips_offsets [of t 9 0 Left] t show ?thesis by (auto simp: rope_with_def)
qed

text \<open>
  C15. Points outside of the text are clipped, in ropes of fewer than \<open>2 ^ 32\<close> bytes, whose 32-bit rows and columns do not
  wrap. \<open>clip_point\<close> returns a character boundary in the row of the point clipped to the text, not behind it with a
  left bias and not before it with a right bias: the grapheme boundary next to the point in the part of its row that
  lies in the chunk of the point, or the end of the text for a point beyond it. \<open>clip_point_utf16\<close> returns the character boundary of
  the row next to the UTF-16 column in the direction of the bias, the end of the row for a column beyond it and the
  end of the text for a row beyond the last. \<open>point_to_offset\<close> returns the offset of every point in a row of the text,
  inside of a character too, and the length of the text for points beyond it (for columns beyond the end of an inner row it
  panics in debug builds, which is left out). \<open>line_len\<close> returns the length of every row. The grapheme
  segmentation is assumed to have boundaries at the ends of a text and between ASCII characters of a row.
\<close>

theorem rope_clips_points:
  assumes "rope_ok t" "length (rope_text t) < 2 ^ 32" and "\<And>l. grapheme l 0 \<and> grapheme l (length l)"
    and "\<And>l i. 0 < i \<Longrightarrow> i < length l \<Longrightarrow> l ! (i - 1) < 128 \<Longrightarrow> l ! i < 128 \<Longrightarrow> l ! i \<noteq> 10 \<Longrightarrow> grapheme l i"
  shows "(\<exists>i. rope_clip_point grapheme t p b = Some (point_at (rope_text t) i) \<and> str_is_char_boundary (rope_text t) i \<and>
         row (point_at (rope_text t) i) = row (clip_to_text (rope_text t) p) \<and>
         (if b = Left then column (point_at (rope_text t) i) \<le> column (clip_to_text (rope_text t) p)
          else column (clip_to_text (rope_text t) p) \<le> column (point_at (rope_text t) i)) \<and>
         (if point_cmp_fields p (lines_of (rope_text t)) = Less then chunk_stop grapheme t p b (point_at (rope_text t) i)
          else point_at (rope_text t) i = lines_of (rope_text t)))
    \<and> (if newlines (rope_text t) < row p then rope_clip_point_utf16 t p b = Some (point_utf16_at (rope_text t) (length (rope_text t)))
       else \<exists>k. clips_to (split_newline (rope_text t) ! row p) b (column p) k \<and>
         rope_clip_point_utf16 t p b = Some (Point (row p) (nutf16 (take k (split_newline (rope_text t) ! row p)))))
    \<and> (row p \<le> newlines (rope_text t) \<longrightarrow> column p \<le> length (split_newline (rope_text t) ! row p) \<longrightarrow>
         (\<exists>i \<le> length (rope_text t). rope_point_to_offset t p = Some i \<and> point_at (rope_text t) i = p))
    \<and> (point_cmp_fields p (lines_of (rope_text t)) \<noteq> Less \<longrightarrow> rope_point_to_offset t p = Some (length (rope_text t)))
    \<and> (\<forall>r \<le> newlines (rope_text t). rope_line_len grapheme t r = Some (length (split_newline (rope_text t) ! r)))"
proof (intro conjI impI allI)
  show "\<exists>i. rope_clip_point grapheme t p b = Some (point_at (rope_text t) i) \<and> str_is_char_boundary (rope_text t) i \<and>
      row (point_at (rope_text t) i) = row (clip_to_text (rope_text t) p) \<and>
      (if b = Left then column (point_at (rope_text t) i) \<le> column (clip_to_text (rope_text t) p)
       else column (clip_to_text (rope_text t) p) \<le> column (point_at (rope_text t) i)) \<and>
      (if point_cmp_fields p (lines_of (rope_text t)) = Less then chunk_stop grapheme t p b (point_at (rope_text t) i)
       else point_at (rope_text t) i = lines_of (rope_text t))"
    using rope_clip_point_correct [OF assms(1,3,4), of p b] by blast
  show "\<exists>i \<le> length (rope_text t). rope_point_to_offset t p = Some i \<and> point_at (rope_text t) i = p"
    if "row p \<le> newlines (rope_text t)" "column p \<le> length (split_newline (rope_text t) ! row p)"
  proof -
    have "clip_to_text (rope_text t) p = p" using that by (simp add: clip_to_text_def point_eq_iff)
    with rope_point_to_offset_clips [OF assms(1), of p] show ?thesis by simp
  qed
  show "rope_point_to_offset t p = Some (length (rope_text t))" if "point_cmp_fields p (lines_of (rope_text t)) \<noteq> Less"
    using that by (simp add: rope_point_to_offset_def rope_summary_fields [OF assms(1)] point_at_def)
  show "rope_line_len grapheme t r = Some (length (split_newline (rope_text t) ! r))" if "r \<le> newlines (rope_text t)" for r
  proof -
    show ?thesis using rope_line_len_correct [OF assms(1,3,4) that] row_le_text [OF that] assms(2) by simp
  qed
qed (rule rope_clip_point_utf16_row [OF assms(1)])

theorem rope_clips_points_witness:
  "\<exists>t. rope_from [97, 98, 10, 99] = Some t \<and> rope_point_to_offset t (Point 0 2) = Some 2 \<and> rope_line_len str_is_char_boundary t 0 = Some 2 \<and>
    rope_clip_point_utf16 t (Point 0 7) Right = Some (Point 0 2)"
proof -
  let ?s = "[97, 98, 10, 99] :: str"
  have v: "valid_utf8 ?s" by code_simp
  obtain t where t: "rope_from ?s = Some t" "rope_with t ?s 1 True" using rope_from_correct [OF v, of 0] by (auto simp: TREE_BASE_def)
  have g: "str_is_char_boundary l 0 \<and> str_is_char_boundary l (length l)" for l by (simp add: str_is_char_boundary_def)
  have a: "0 < i \<Longrightarrow> i < length l \<Longrightarrow> l ! (i - 1) < 128 \<Longrightarrow> l ! i < 128 \<Longrightarrow> l ! i \<noteq> 10 \<Longrightarrow> str_is_char_boundary l i" for l i
    by (simp add: str_is_char_boundary_def boundary_iff)
  have p: "point_at ?s 2 = Point 0 2" "split_newline ?s ! 0 = [97, 98]" "newlines ?s = 1" "nutf16 [97, 98] = 2" by code_simp+
  have ok: "rope_ok t" "rope_text t = ?s" using t(2) by (simp_all add: rope_with_def)
  note clip = rope_clips_points [of t str_is_char_boundary, OF ok(1) _ g a, unfolded ok(2)]
  have "rope_point_to_offset t (Point 0 2) = Some 2" "rope_line_len str_is_char_boundary t 0 = Some 2"
    using clip [of "Point 0 2" Left] p point_at_inj [of ?s _ 2] by auto
  moreover obtain k where "clips_to [97, 98] Right 7 k" "rope_clip_point_utf16 t (Point 0 7) Right = Some (Point 0 (nutf16 (take k [97, 98])))"
    using clip [of "Point 0 7" Right] p by auto
  then have "rope_clip_point_utf16 t (Point 0 7) Right = Some (Point 0 2)" using p(4) by (simp add: clips_to_def)
  ultimately show ?thesis using t(1) by blast
qed

end
