(* ===== verification/Rope_Chunks.thy ===== *)
theory Rope_Chunks
  imports Rope_Clip "HOL-Library.Sublist"
begin

text \<open>
  Iteration over the text of a rope (\<open>Chunks\<close> of \<open>crates/rope/src/rope.rs\<close>): the pieces of a range, forward and
  reversed, and the comparisons of a rope with a string that are loops over them. The loops are
  partial functions; the lemmas show that they return.
\<close>

section \<open>The iterator\<close>

record rope_chunks =
  rk_chunks :: "(chunk, chunk_summary, nat) cursor"
  rk_start :: nat
  rk_stop :: nat
  rk_offset :: nat
  rk_reversed :: bool

definition chunks_new :: "rope \<Rightarrow> nat \<Rightarrow> nat \<Rightarrow> bool \<Rightarrow> rope_chunks option" where
  "chunks_new t start stop reversed = do {
     (_, chunks) \<leftarrow> (if reversed then cursor_seek len_dim (ord_cmp stop) Left (cursor_new len_dim t)
       else cursor_seek len_dim (ord_cmp start) Right (cursor_new len_dim t));
     let offset = (if reversed then stop else start);
     rust_assert (cursor_start chunks \<le> offset);
     let chunk_offset = offset - cursor_start chunks;
     item \<leftarrow> cursor_item chunks;
     (case item of Some c \<Rightarrow> rust_assert (chunk_is_char_boundary c chunk_offset) | None \<Rightarrow> Some ());
     Some \<lparr>rk_chunks = chunks, rk_start = start, rk_stop = stop, rk_offset = offset, rk_reversed = reversed\<rparr>
   }"

definition offset_is_valid :: "rope_chunks \<Rightarrow> bool" where
  "offset_is_valid c = (if rk_reversed c then \<not> (rk_offset c \<le> rk_start c \<or> rk_stop c < rk_offset c)
     else \<not> (rk_offset c < rk_start c \<or> rk_stop c \<le> rk_offset c))"

text \<open>The range of the current chunk that \<open>peek\<close> and \<open>peek_with_bitmaps\<close> cut out.\<close>

definition chunks_slice_range :: "rope_chunks \<Rightarrow> (nat \<times> nat) option" where
  "chunks_slice_range c = do {
     let chunk_start = cursor_start (rk_chunks c);
     rust_assert (chunk_start \<le> rk_offset c);
     if rk_reversed c then Some (max chunk_start (rk_start c) - chunk_start, rk_offset c - chunk_start)
     else do {
       chunk_end \<leftarrow> cursor_end len_dim (rk_chunks c);
       rust_assert (chunk_start \<le> min chunk_end (rk_stop c));
       Some (rk_offset c - chunk_start, min chunk_end (rk_stop c) - chunk_start)
     }
   }"

definition chunks_peek :: "rope_chunks \<Rightarrow> str option option" where
  "chunks_peek c = (if \<not> offset_is_valid c then Some None
     else do {
       item \<leftarrow> cursor_item (rk_chunks c);
       case item of
         None \<Rightarrow> Some None
       | Some chunk \<Rightarrow> do {
           (slice_start, slice_end) \<leftarrow> chunks_slice_range c;
           part \<leftarrow> str_slice (ch_text chunk) slice_start slice_end;
           Some (Some part)
         }
     })"

record chunk_bitmaps =
  cb_text :: str
  cb_chars :: u128
  cb_tabs :: u128
  cb_newlines :: u128

definition peek_with_bitmaps :: "rope_chunks \<Rightarrow> chunk_bitmaps option option" where
  "peek_with_bitmaps c = (if \<not> offset_is_valid c then Some None
     else do {
       item \<leftarrow> cursor_item (rk_chunks c);
       case item of
         None \<Rightarrow> Some None
       | Some chunk \<Rightarrow> do {
           (slice_start, slice_end) \<leftarrow> chunks_slice_range c;
           part \<leftarrow> str_slice (ch_text chunk) slice_start slice_end;
           Some (Some \<lparr>cb_text = part, cb_chars = shr (ch_chars chunk) slice_start,
             cb_tabs = shr (ch_tabs chunk) slice_start, cb_newlines = shr (ch_newlines chunk) slice_start\<rparr>)
         }
     })"

text \<open>Both iterators move on by the length of what they return.\<close>

definition chunks_advance :: "rope_chunks \<Rightarrow> nat \<Rightarrow> rope_chunks option" where
  "chunks_advance c n = (if rk_reversed c then do {
       rust_assert (n \<le> rk_offset c);
       let c = c\<lparr>rk_offset := rk_offset c - n\<rparr>;
       chunks \<leftarrow> (if rk_offset c \<le> cursor_start (rk_chunks c) then cursor_prev len_dim (rk_chunks c) else Some (rk_chunks c));
       Some (c\<lparr>rk_chunks := chunks\<rparr>)
     } else do {
       let c = c\<lparr>rk_offset := rk_offset c + n\<rparr>;
       chunk_end \<leftarrow> cursor_end len_dim (rk_chunks c);
       chunks \<leftarrow> (if chunk_end \<le> rk_offset c then cursor_next len_dim (rk_chunks c) else Some (rk_chunks c));
       Some (c\<lparr>rk_chunks := chunks\<rparr>)
     })"

definition chunks_next :: "rope_chunks \<Rightarrow> (str option \<times> rope_chunks) option" where
  "chunks_next c = do {
     peeked \<leftarrow> chunks_peek c;
     case peeked of
       None \<Rightarrow> Some (None, c)
     | Some part \<Rightarrow> do { c \<leftarrow> chunks_advance c (length part); Some (Some part, c) }
   }"

definition bitmaps_next :: "rope_chunks \<Rightarrow> (chunk_bitmaps option \<times> rope_chunks) option" where
  "bitmaps_next c = do {
     peeked \<leftarrow> peek_with_bitmaps c;
     case peeked of
       None \<Rightarrow> Some (None, c)
     | Some part \<Rightarrow> do { c \<leftarrow> chunks_advance c (length (cb_text part)); Some (Some part, c) }
   }"

definition chunks_seek :: "rope_chunks \<Rightarrow> nat \<Rightarrow> rope_chunks option" where
  "chunks_seek c offset = do {
     rust_assert (rk_start c \<le> rk_stop c);
     let offset = min (max offset (rk_start c)) (rk_stop c);
     chunk_end \<leftarrow> cursor_end len_dim (rk_chunks c);
     chunks \<leftarrow> (if rk_reversed c then
         (if chunk_end < offset then map_option snd (cursor_seek_forward len_dim (ord_cmp offset) Left (rk_chunks c))
          else if offset \<le> cursor_start (rk_chunks c) then map_option snd (cursor_seek len_dim (ord_cmp offset) Left (rk_chunks c))
          else Some (rk_chunks c))
       else
         (if chunk_end \<le> offset then map_option snd (cursor_seek_forward len_dim (ord_cmp offset) Right (rk_chunks c))
          else if offset < cursor_start (rk_chunks c) then map_option snd (cursor_seek len_dim (ord_cmp offset) Right (rk_chunks c))
          else Some (rk_chunks c)));
     Some (c\<lparr>rk_chunks := chunks, rk_offset := offset\<rparr>)
   }"

definition chunks_set_range :: "rope_chunks \<Rightarrow> nat \<Rightarrow> nat \<Rightarrow> rope_chunks option" where
  "chunks_set_range c start stop = chunks_seek (c\<lparr>rk_start := start, rk_stop := stop\<rparr>) start"

definition chunks_in_range :: "rope \<Rightarrow> nat \<Rightarrow> nat \<Rightarrow> rope_chunks option" where
  "chunks_in_range t start stop = chunks_new t start stop False"

definition reversed_chunks_in_range :: "rope \<Rightarrow> nat \<Rightarrow> nat \<Rightarrow> rope_chunks option" where
  "reversed_chunks_in_range t start stop = chunks_new t start stop True"

section \<open>Collecting\<close>

text \<open>What a \<open>for\<close> loop over the iterator sees, in order.\<close>

partial_function (option) collect_chunks :: "rope_chunks \<Rightarrow> str list \<Rightarrow> str list option" where
  "collect_chunks c acc = do {
     (part, c) \<leftarrow> chunks_next c;
     case part of None \<Rightarrow> Some acc | Some p \<Rightarrow> collect_chunks c (acc @ [p])
   }"

definition rope_to_string :: "rope \<Rightarrow> str option" where
  "rope_to_string t = do { c \<leftarrow> chunks_in_range t 0 (rope_len t); parts \<leftarrow> collect_chunks c []; Some (concat parts) }"

definition rope_chars_at :: "rope \<Rightarrow> nat \<Rightarrow> str list option" where
  "rope_chars_at t start = do { c \<leftarrow> chunks_in_range t start (rope_len t); parts \<leftarrow> collect_chunks c []; Some (concat (map str_chars parts)) }"

definition rope_chars :: "rope \<Rightarrow> str list option" where
  "rope_chars t = rope_chars_at t 0"

definition rope_reversed_chars_at :: "rope \<Rightarrow> nat \<Rightarrow> str list option" where
  "rope_reversed_chars_at t start = do { c \<leftarrow> reversed_chunks_in_range t 0 start; parts \<leftarrow> collect_chunks c []; Some (concat (map (rev \<circ> str_chars) parts)) }"

section \<open>Comparing with a string\<close>

partial_function (option) equals_forward :: "str \<Rightarrow> nat \<Rightarrow> rope_chunks \<Rightarrow> bool option" where
  "equals_forward other offset c = do {
     (part, c) \<leftarrow> chunks_next c;
     case part of
       None \<Rightarrow> Some (offset = length other)
     | Some p \<Rightarrow>
         if length other \<le> offset then Some False
         else do {
           rest \<leftarrow> str_slice other offset (length other);
           if take (length p) rest = p then equals_forward other (offset + length p) c else Some False
         }
   }"

partial_function (option) equals_backward :: "str \<Rightarrow> nat \<Rightarrow> rope_chunks \<Rightarrow> bool option" where
  "equals_backward other offset c = do {
     (part, c) \<leftarrow> chunks_next c;
     case part of
       None \<Rightarrow> Some (offset = 0)
     | Some p \<Rightarrow> do {
         rest \<leftarrow> str_slice other 0 offset;
         if length p \<le> length rest \<and> drop (length rest - length p) rest = p then equals_backward other (offset - length p) c else Some False
       }
   }"

definition equals_str :: "rope_chunks \<Rightarrow> str \<Rightarrow> bool option" where
  "equals_str c other = (if rk_reversed c then equals_backward other (length other) c else equals_forward other 0 c)"

partial_function (option) starts_with_loop :: "str \<Rightarrow> rope_chunks \<Rightarrow> bool option" where
  "starts_with_loop remaining c = do {
     (part, c) \<leftarrow> chunks_next c;
     case part of
       None \<Rightarrow> Some (remaining = [])
     | Some p \<Rightarrow>
         (case str_slice p 0 (min (length remaining) (length p)) of
            None \<Rightarrow> Some False
          | Some p \<Rightarrow>
              if take (length p) remaining = p then do {
                remaining \<leftarrow> str_slice remaining (length p) (length remaining);
                if remaining = [] then Some True else starts_with_loop remaining c
              } else Some False)
   }"

definition rope_starts_with :: "rope \<Rightarrow> str \<Rightarrow> bool option" where
  "rope_starts_with t pattern = (if rope_len t < length pattern then Some False
     else do { c \<leftarrow> chunks_in_range t 0 (rope_len t); starts_with_loop pattern c })"

partial_function (option) ends_with_loop :: "str \<Rightarrow> rope_chunks \<Rightarrow> bool option" where
  "ends_with_loop remaining c = do {
     (part, c) \<leftarrow> chunks_next c;
     case part of
       None \<Rightarrow> Some (remaining = [])
     | Some p \<Rightarrow>
         (case str_slice p (length p - min (length remaining) (length p)) (length p) of
            None \<Rightarrow> Some False
          | Some p \<Rightarrow>
              if length p \<le> length remaining \<and> drop (length remaining - length p) remaining = p then do {
                remaining \<leftarrow> str_slice remaining 0 (length remaining - length p);
                if remaining = [] then Some True else ends_with_loop remaining c
              } else Some False)
   }"

definition rope_ends_with :: "rope \<Rightarrow> str \<Rightarrow> bool option" where
  "rope_ends_with t pattern = (if rope_len t < length pattern then Some False
     else do { c \<leftarrow> reversed_chunks_in_range t 0 (rope_len t); ends_with_loop pattern c })"

section \<open>Seeking a chunk\<close>

text \<open>The chunk cursor stands at chunk \<open>k\<close>, which holds the offset or ends at it.\<close>

definition on_chunk :: "rope \<Rightarrow> (chunk, chunk_summary, nat) cursor \<Rightarrow> nat \<Rightarrow> nat \<Rightarrow> bool" where
  "on_chunk t d off k \<longleftrightarrow> c_tree d = t \<and> c_did_seek d \<and> cursor_at chunk_ops len_dim d k \<and>
     chunk_pos t k \<le> off \<and> off \<le> chunk_pos t (Suc k)"

lemma seek_on_chunk:
  assumes d: "wf_cursor chunk_ops d" "c_tree d = t" and off: "off \<le> length (rope_text t)"
  shows "\<exists>f d' k. cursor_seek len_dim (ord_cmp off) b d = Some (f, d') \<and> on_chunk t d' off k \<and>
    (b = Left \<longrightarrow> 0 < off \<longrightarrow> k < length (tree_items t)) \<and> (b = Right \<longrightarrow> k < length (tree_items t) \<longrightarrow> off < chunk_pos t (Suc k)) \<and> (b = Left \<longrightarrow> 0 < off \<longrightarrow> chunk_pos t k < off)"
proof -
  let ?k = "seek_to chunk_ops len_dim (ord_cmp off) b t 0"
  have 0: "chunk_pos t 0 \<le> off" by (simp add: chunk_pos_eq)
  note so = seek_offset_bias [where b = b, OF 0 _ refl]
  obtain f d' where d': "cursor_seek len_dim (ord_cmp off) b d = Some (f, d')" "c_tree d' = t" "c_did_seek d'" "cursor_at chunk_ops len_dim d' ?k"
    using ch_len.seek_correct [OF d(1), of "ord_cmp off" ?k b] so(1) d(2) by auto
  have "off \<le> chunk_pos t (Suc ?k)" using so(3,5) chunk_pos_end [of t "Suc ?k"] off
    by (cases "?k < length (tree_items t)"; cases b) (auto simp: beyond_ord_cmp)
  moreover have "chunk_pos t ?k \<le> off" using so(2,4) 0 by (cases "?k = 0"; cases b) (auto simp: beyond_ord_cmp)
  moreover have "chunk_pos t ?k < off" if "b = Left" "0 < off"
    using so(4) that by (cases "?k = 0") (auto simp: beyond_ord_cmp chunk_pos_eq)
  moreover have "?k < length (tree_items t)" if "b = Left" "0 < off"
    using so(3,4) chunk_pos_end [of t ?k] off that 0 by (cases "?k = 0"; cases "?k < length (tree_items t)") (auto simp: beyond_ord_cmp chunk_pos_eq)
  moreover have "off < chunk_pos t (Suc ?k)" if "b = Right" "?k < length (tree_items t)"
    using so(5) that by (simp add: beyond_ord_cmp)
  ultimately show ?thesis using d' by (auto simp: on_chunk_def)
qed

lemma seek_forward_on_chunk:
  assumes d: "wf_cursor chunk_ops d" "c_tree d = t" "cursor_at chunk_ops len_dim d j" and off: "chunk_pos t j \<le> off" "off \<le> length (rope_text t)"
  shows "\<exists>f d' k. cursor_seek_forward len_dim (ord_cmp off) b d = Some (f, d') \<and> on_chunk t d' off k \<and>
    (b = Left \<longrightarrow> chunk_pos t j < off \<longrightarrow> k < length (tree_items t)) \<and> (b = Right \<longrightarrow> k < length (tree_items t) \<longrightarrow> off < chunk_pos t (Suc k))"
proof -
  let ?k = "seek_to chunk_ops len_dim (ord_cmp off) b t j"
  have j: "j \<le> length (tree_items t)" using cursor_at_le [OF d(3)] d(2) by simp
  note so = seek_offset_bias [where b = b, OF off(1) j refl]
  obtain f d' where d': "cursor_seek_forward len_dim (ord_cmp off) b d = Some (f, d')" "c_tree d' = t" "c_did_seek d'" "cursor_at chunk_ops len_dim d' ?k"
    using ch_len.seek_forward_correct [OF d(1,3), of "ord_cmp off" ?k b] so(1) d(2) by auto
  have "off \<le> chunk_pos t (Suc ?k)" using so(3,5) chunk_pos_end [of t "Suc ?k"] off(2)
    by (cases "?k < length (tree_items t)"; cases b) (auto simp: beyond_ord_cmp)
  moreover have "chunk_pos t ?k \<le> off" using so(2,4) off(1) by (cases "?k = j"; cases b) (auto simp: beyond_ord_cmp)
  moreover have "?k < length (tree_items t)" if "b = Left" "chunk_pos t j < off"
    using so(2-4) chunk_pos_end [of t ?k] off that by (cases "?k = j"; cases "?k < length (tree_items t)") (auto simp: beyond_ord_cmp)
  moreover have "off < chunk_pos t (Suc ?k)" if "b = Right" "?k < length (tree_items t)"
    using so(5) that by (simp add: beyond_ord_cmp)
  ultimately show ?thesis using d' by (auto simp: on_chunk_def)
qed

lemma on_chunk_item:
  assumes "rope_ok t" "on_chunk t d off k"
  shows "cursor_item d = Some (index_opt (tree_items t) k)" "cursor_start d = chunk_pos t k" "cursor_end len_dim d = Some (chunk_pos t (Suc k))"
proof -
  have d: "c_tree d = t" "c_did_seek d" "cursor_at chunk_ops len_dim d k" using assms(2) by (simp_all add: on_chunk_def)
  show "cursor_item d = Some (index_opt (tree_items t) k)" "cursor_start d = chunk_pos t k"
    using cursor_item_correct [OF d(3,2)] cursor_at_position [OF d(3)] d(1) by (simp_all add: cursor_start_def)
  show "cursor_end len_dim d = Some (chunk_pos t (Suc k))"
    using cursor_end_correct [OF d(3,2)] d(1) assms(1) chunk_pos_end [of t k] chunk_pos_end [of t "Suc k"]
    by (cases "k < length (tree_items t)") (auto simp: rope_ok_def)
qed

lemma on_chunk_boundary:
  assumes t: "rope_ok t" "on_chunk t d off k" and k: "k < length (tree_items t)" and bd: "str_is_char_boundary (rope_text t) off"
  shows "chunk_is_char_boundary (tree_items t ! k) (off - chunk_pos t k)"
proof -
  have at: "chunk_pos t k \<le> off" "off \<le> chunk_pos t (Suc k)" using t(2) by (simp_all add: on_chunk_def)
  have ok: "chunk_ok (tree_items t ! k)" using t(1) k by (simp add: rope_ok_def)
  have "off - chunk_pos t k < 2 ^ 32" using at(2) chunk_split(2) [OF k] chunk_okD(1) [OF ok] by simp
  then show ?thesis using chunk_boundary_iff [OF ok] boundary_in_chunk [OF t(1) k at] bd by simp
qed

text \<open>A new iterator stands on the first offset that it delivers.\<close>

definition range_ok :: "rope \<Rightarrow> rope_chunks \<Rightarrow> bool" where
  "range_ok t c \<longleftrightarrow> rope_ok t \<and> height t < STACK_CAPACITY \<and> rk_start c \<le> rk_offset c \<and> rk_offset c \<le> rk_stop c \<and>
     str_is_char_boundary (rope_text t) (rk_start c) \<and> str_is_char_boundary (rope_text t) (rk_offset c) \<and> str_is_char_boundary (rope_text t) (rk_stop c)"

lemma chunks_new_correct:
  assumes t: "rope_ok t" "height t < STACK_CAPACITY" and r: "start \<le> stop" "str_is_char_boundary (rope_text t) start" "str_is_char_boundary (rope_text t) stop"
  shows "\<exists>c k. chunks_new t start stop rv = Some c \<and> range_ok t c \<and> on_chunk t (rk_chunks c) (rk_offset c) k \<and>
    (rv \<longrightarrow> 0 < stop \<longrightarrow> k < length (tree_items t)) \<and> (\<not> rv \<longrightarrow> k < length (tree_items t) \<longrightarrow> start < chunk_pos t (Suc k)) \<and>
    rk_start c = start \<and> rk_stop c = stop \<and> rk_reversed c = rv \<and> rk_offset c = (if rv then stop else start)"
proof -
  let ?d = "cursor_new len_dim t :: (chunk, chunk_summary, nat) cursor"
  let ?o = "if rv then stop else start" and ?b = "if rv then Left else Right"
  have w: "wf_cursor chunk_ops ?d" "c_tree ?d = t" using t by (simp_all add: wf_cursor_def cursor_new_def rope_ok_def)
  have o: "str_is_char_boundary (rope_text t) ?o" "?o \<le> length (rope_text t)" using r boundary_le [of "rope_text t" ?o] by auto
  obtain f d k where d: "cursor_seek len_dim (ord_cmp ?o) ?b ?d = Some (f, d)" "on_chunk t d ?o k" "?b = Left \<longrightarrow> 0 < ?o \<longrightarrow> k < length (tree_items t)" "?b = Right \<longrightarrow> k < length (tree_items t) \<longrightarrow> ?o < chunk_pos t (Suc k)"
    using seek_on_chunk [OF w o(2), of ?b] by iprover
  have seek: "(if rv then cursor_seek len_dim (ord_cmp stop) Left ?d else cursor_seek len_dim (ord_cmp start) Right ?d) = Some (f, d)"
    using d(1) by (simp split: if_splits)
  have at: "chunk_pos t k \<le> ?o" using d(2) by (simp add: on_chunk_def)
  have ch: "k < length (tree_items t) \<Longrightarrow> chunk_is_char_boundary (tree_items t ! k) (?o - chunk_pos t k)"
    by (rule on_chunk_boundary [OF t(1) d(2) _ o(1)])
  have "chunks_new t start stop rv = Some \<lparr>rk_chunks = d, rk_start = start, rk_stop = stop, rk_offset = ?o, rk_reversed = rv\<rparr>"
    unfolding chunks_new_def seek using at ch on_chunk_item [OF t(1) d(2)]
    by (cases rv) (simp_all add: Let_def index_opt_def)
  with d(2-4) r t show ?thesis by (auto simp: range_ok_def)
qed

section \<open>Forward iteration\<close>

definition on_range :: "rope \<Rightarrow> rope_chunks \<Rightarrow> nat \<Rightarrow> bool" where
  "on_range t c k \<longleftrightarrow> range_ok t c \<and> \<not> rk_reversed c \<and> on_chunk t (rk_chunks c) (rk_offset c) k"

definition forward_at :: "rope \<Rightarrow> rope_chunks \<Rightarrow> nat \<Rightarrow> bool" where
  "forward_at t c k \<longleftrightarrow> range_ok t c \<and> \<not> rk_reversed c \<and> on_chunk t (rk_chunks c) (rk_offset c) k \<and>
     (filled (tree_items t) \<longrightarrow> rk_offset c < rk_stop c \<longrightarrow> rk_offset c < chunk_pos t (Suc k))"

lemma forward_on_range: "forward_at t c k \<Longrightarrow> on_range t c k"
  by (simp add: forward_at_def on_range_def)

lemma filled_pos:
  assumes "filled (tree_items t)" "chunk_pos t k < length (rope_text t)"
  shows "chunk_pos t k < chunk_pos t (Suc k)"
proof (cases "Suc k < length (tree_items t)")
  case True
  then have "ch_text (tree_items t ! k) \<noteq> []" using assms(1) [unfolded filled_nth, rule_format, OF True] by (auto simp: MIN_BASE_def MAX_BASE_def)
  then show ?thesis using chunk_split(2) [of k t] True by simp
next
  case False
  then show ?thesis using chunk_pos_end [of t "Suc k"] assms(2) by simp
qed

text \<open>The part of a chunk that an iterator delivers.\<close>

lemma part_of_chunk:
  assumes t: "rope_ok t" and k: "k < length (tree_items t)" "chunk_pos t k \<le> i" "i \<le> j" "j \<le> chunk_pos t (Suc k)"
    and bd: "str_is_char_boundary (rope_text t) i" "str_is_char_boundary (rope_text t) j"
  shows "str_slice (ch_text (tree_items t ! k)) (i - chunk_pos t k) (j - chunk_pos t k) = Some (between (rope_text t) i j)"
proof -
  have "str_is_char_boundary (ch_text (tree_items t ! k)) (i - chunk_pos t k)" "str_is_char_boundary (ch_text (tree_items t ! k)) (j - chunk_pos t k)"
    using boundary_in_chunk [OF t k(1)] bd k by auto
  moreover have "between (ch_text (tree_items t ! k)) (i - chunk_pos t k) (j - chunk_pos t k) = between (rope_text t) i j"
    using k(2-4) chunk_split(2) [OF k(1)] unfolding chunk_split(1) [OF k(1)] by (simp add: chunk_pos_eq)
  ultimately show ?thesis using k(3) by (simp add: str_slice_def diff_le_mono)
qed

lemma on_chunk_less:
  assumes "on_chunk t d off k" "off < e" "e \<le> length (rope_text t)"
  shows "k < length (tree_items t)"
  using assms chunk_pos_end [of t k] by (cases "k < length (tree_items t)") (auto simp: on_chunk_def)

lemma wf_on_chunk: "rope_ok t \<Longrightarrow> height t < STACK_CAPACITY \<Longrightarrow> on_chunk t d off k \<Longrightarrow> wf_cursor chunk_ops d"
  by (simp add: wf_cursor_def on_chunk_def rope_ok_def)

lemma next_on_chunk:
  assumes t: "rope_ok t" "height t < STACK_CAPACITY" and d: "on_chunk t d off k" "k < length (tree_items t)"
  shows "\<exists>d'. cursor_next len_dim d = Some d' \<and> on_chunk t d' (chunk_pos t (Suc k)) (Suc k)"
proof -
  have at: "c_tree d = t" "c_did_seek d" "cursor_at chunk_ops len_dim d k" using d(1) by (simp_all add: on_chunk_def)
  then show ?thesis using ch_len.next_correct [OF wf_on_chunk [OF t d(1)] at(3)] d(2) chunk_pos_mono [of "Suc k" "Suc (Suc k)" t]
    by (auto simp: on_chunk_def)
qed

lemma forward_peek:
  assumes c: "on_range t c k"
  shows "chunks_peek c = Some (if rk_offset c = rk_stop c then None else Some (between (rope_text t) (rk_offset c) (min (chunk_pos t (Suc k)) (rk_stop c))))"
proof (cases "rk_offset c = rk_stop c")
  case True
  then show ?thesis by (simp add: chunks_peek_def chunks_slice_range_def offset_is_valid_def c [unfolded on_range_def])
next
  case False
  let ?o = "rk_offset c" and ?s = "rope_text t" and ?m = "min (chunk_pos t (Suc k)) (rk_stop c)"
  have at: "rope_ok t" "\<not> rk_reversed c" "on_chunk t (rk_chunks c) ?o k" "rk_start c \<le> ?o" "?o < rk_stop c"
    "str_is_char_boundary ?s ?o" "str_is_char_boundary ?s (rk_stop c)"
    using c False by (simp_all add: on_range_def range_ok_def)
  have k: "k < length (tree_items t)" using on_chunk_less [OF at(3,5) boundary_le [OF at(7)]] .
  have o: "chunk_pos t k \<le> ?o" "?o \<le> ?m" using at(3,5) by (simp_all add: on_chunk_def)
  have "str_is_char_boundary ?s ?m" using chunk_pos_boundary [OF at(1), of "Suc k"] at(7) by (simp add: min_def)
  from part_of_chunk [OF at(1) k o _ at(6) this] have "str_slice (ch_text (tree_items t ! k)) (?o - chunk_pos t k) (?m - chunk_pos t k) = Some (between ?s ?o ?m)"
    by simp
  then show ?thesis using at(2,4,5) o k on_chunk_item [OF at(1,3)] False
    by (simp add: chunks_peek_def chunks_slice_range_def offset_is_valid_def index_opt_def Let_def)
qed

lemma forward_done: "forward_at t c k \<Longrightarrow> rk_offset c = rk_stop c \<Longrightarrow> chunks_next c = Some (None, c)"
  using forward_peek [OF forward_on_range] by (simp add: chunks_next_def)

lemma forward_step:
  assumes c: "on_range t c k" "rk_offset c \<noteq> rk_stop c" and m: "m = min (chunk_pos t (Suc k)) (rk_stop c)"
  shows "\<exists>d k'. chunks_next c = Some (Some (between (rope_text t) (rk_offset c) m), c\<lparr>rk_offset := m, rk_chunks := d\<rparr>) \<and>
    forward_at t (c\<lparr>rk_offset := m, rk_chunks := d\<rparr>) k' \<and> (m = rk_stop c \<or> k < k')" "rk_offset c \<le> m" "m \<le> rk_stop c" "k < length (tree_items t)"
proof -
  let ?o = "rk_offset c"
  have at: "rope_ok t" "height t < STACK_CAPACITY" "\<not> rk_reversed c" "on_chunk t (rk_chunks c) ?o k" "rk_start c \<le> ?o" "?o < rk_stop c"
    "str_is_char_boundary (rope_text t) (rk_start c)" "str_is_char_boundary (rope_text t) (rk_stop c)"
    using c by (simp_all add: on_range_def range_ok_def)
  show k: "k < length (tree_items t)" using on_chunk_less [OF at(4,6) boundary_le [OF at(8)]] .
  show o: "?o \<le> m" "m \<le> rk_stop c" using at(4,6) m by (simp_all add: on_chunk_def)
  have bd: "str_is_char_boundary (rope_text t) m" using chunk_pos_boundary [OF at(1), of "Suc k"] at(8) by (simp add: m min_def)
  have peek: "chunks_peek c = Some (Some (between (rope_text t) ?o m))" "?o + length (between (rope_text t) ?o m) = m"
    using forward_peek [OF c(1)] c(2) m o boundary_le [OF at(8)] by auto
  obtain d where d: "cursor_next len_dim (rk_chunks c) = Some d" "on_chunk t d (chunk_pos t (Suc k)) (Suc k)"
    using next_on_chunk [OF at(1,2,4) k] by blast
  show "\<exists>d k'. chunks_next c = Some (Some (between (rope_text t) ?o m), c\<lparr>rk_offset := m, rk_chunks := d\<rparr>) \<and>
    forward_at t (c\<lparr>rk_offset := m, rk_chunks := d\<rparr>) k' \<and> (m = rk_stop c \<or> k < k')"
  proof (cases "chunk_pos t (Suc k) \<le> rk_stop c")
    case True
    then have "m = chunk_pos t (Suc k)" by (simp add: m)
    moreover have "filled (tree_items t) \<longrightarrow> m < rk_stop c \<longrightarrow> m < chunk_pos t (Suc (Suc k))"
      using filled_pos [of t "Suc k"] \<open>m = chunk_pos t (Suc k)\<close> boundary_le [OF at(8)] by simp
    ultimately show ?thesis using peek d at bd o on_chunk_item(3) [OF at(1,4)]
      by (intro exI [of _ d] exI [of _ "Suc k"]) (simp add: chunks_next_def chunks_advance_def forward_at_def range_ok_def)
  next
    case False
    then have "m = rk_stop c" "on_chunk t (rk_chunks c) m k" using at(4,6) by (simp_all add: m on_chunk_def)
    then show ?thesis using peek at bd o False on_chunk_item(3) [OF at(1,4)]
      by (intro exI [of _ "rk_chunks c"] exI [of _ k]) (simp add: chunks_next_def chunks_advance_def forward_at_def range_ok_def)
  qed
qed

section \<open>Reversed iteration\<close>

text \<open>The iterator has \<open>n\<close> chunks before it; at the start of its range the cursor may be anywhere.\<close>

definition backward_at :: "rope \<Rightarrow> rope_chunks \<Rightarrow> nat \<Rightarrow> bool" where
  "backward_at t c n \<longleftrightarrow> range_ok t c \<and> rk_reversed c \<and>
     (rk_offset c = rk_start c \<or> (0 < n \<and> n \<le> length (tree_items t) \<and> on_chunk t (rk_chunks c) (rk_offset c) (n - 1)))"

lemma prev_on_chunk:
  assumes t: "rope_ok t" "height t < STACK_CAPACITY" and d: "on_chunk t d off k" "tree_items t \<noteq> []"
  shows "\<exists>d'. cursor_prev len_dim d = Some d' \<and> (if k = 0 then cursor_before len_dim d' else on_chunk t d' (chunk_pos t k) (k - 1))"
proof -
  have at: "c_tree d = t" "c_did_seek d" "cursor_at chunk_ops len_dim d k" using d(1) by (simp_all add: on_chunk_def)
  have "\<not> tree_is_empty (c_tree d)" using at(1) d(2) t(1) by (auto simp: rope_ok_def tree_is_empty_iff)
  from ch_len.prev_correct [OF wf_on_chunk [OF t d(1)] at(3) this, of k] obtain d' where
    "cursor_prev len_dim d = Some d'" "c_tree d' = t" "c_did_seek d'" "if k = 0 then cursor_before len_dim d' else cursor_at chunk_ops len_dim d' (k - 1)"
    using at(1,2) by auto
  then show ?thesis using chunk_pos_mono [of "k - 1" k t] by (cases k) (auto simp: on_chunk_def)
qed

lemma backward_peek:
  assumes c: "backward_at t c n"
  shows "chunks_peek c = Some (if rk_offset c = rk_start c then None else Some (between (rope_text t) (max (chunk_pos t (n - 1)) (rk_start c)) (rk_offset c)))"
proof (cases "rk_offset c = rk_start c")
  case True
  then show ?thesis by (simp add: chunks_peek_def chunks_slice_range_def offset_is_valid_def c [unfolded backward_at_def])
next
  case False
  let ?o = "rk_offset c" and ?s = "rope_text t" and ?k = "n - 1" and ?m = "max (chunk_pos t (n - 1)) (rk_start c)"
  have at: "rope_ok t" "rk_reversed c" "on_chunk t (rk_chunks c) ?o ?k" "rk_start c < ?o" "?o \<le> rk_stop c"
    "str_is_char_boundary ?s ?o" "str_is_char_boundary ?s (rk_start c)"
    using c False by (simp_all add: backward_at_def range_ok_def)
  have o: "chunk_pos t ?k \<le> ?m" "?m \<le> ?o" "?o \<le> chunk_pos t (Suc ?k)" using at(3,4) by (simp_all add: on_chunk_def)
  have k: "?k < length (tree_items t)" using c False by (auto simp: backward_at_def)
  have bd: "str_is_char_boundary ?s ?m" using chunk_pos_boundary [OF at(1), of ?k] at(7) by (simp add: max_def)
  show ?thesis using part_of_chunk [OF at(1) k o bd at(6)] at(2,4,5) o k on_chunk_item [OF at(1,3)] False
    by (simp add: chunks_peek_def chunks_slice_range_def offset_is_valid_def index_opt_def Let_def)
qed

lemma backward_done: "backward_at t c n \<Longrightarrow> rk_offset c = rk_start c \<Longrightarrow> chunks_next c = Some (None, c)"
  by (simp add: chunks_next_def chunks_advance_def backward_peek)

lemma backward_part:
  assumes c: "backward_at t c n" "rk_offset c \<noteq> rk_start c" and m: "m = max (chunk_pos t (n - 1)) (rk_start c)"
  shows "\<exists>d. chunks_next c = Some (Some (between (rope_text t) m (rk_offset c)), c\<lparr>rk_offset := m, rk_chunks := d\<rparr>) \<and>
    backward_at t (c\<lparr>rk_offset := m, rk_chunks := d\<rparr>) (n - 1)" "m \<le> rk_offset c" "rk_start c \<le> m" "0 < n"
proof -
  let ?o = "rk_offset c" and ?k = "n - 1"
  have at: "rope_ok t" "height t < STACK_CAPACITY" "rk_reversed c" "on_chunk t (rk_chunks c) ?o ?k" "rk_start c < ?o" "?o \<le> rk_stop c"
    "str_is_char_boundary (rope_text t) (rk_start c)" "str_is_char_boundary (rope_text t) (rk_stop c)" "str_is_char_boundary (rope_text t) ?o"
    using c by (simp_all add: backward_at_def range_ok_def)
  show o: "m \<le> ?o" "rk_start c \<le> m" using at(4,5) m by (simp_all add: on_chunk_def)
  show n: "0 < n" using c by (auto simp: backward_at_def)
  have k: "?k < length (tree_items t)" using c by (auto simp: backward_at_def)
  have bd: "str_is_char_boundary (rope_text t) m" using chunk_pos_boundary [OF at(1), of ?k] at(7) by (simp add: m max_def)
  have peek: "chunks_peek c = Some (Some (between (rope_text t) m ?o))" "length (between (rope_text t) m ?o) = ?o - m"
    using backward_peek [OF c(1)] c(2) m o boundary_le [OF at(9)] by auto
  obtain d where d: "cursor_prev len_dim (rk_chunks c) = Some d" "if ?k = 0 then cursor_before len_dim d else on_chunk t d (chunk_pos t ?k) (?k - 1)"
    using prev_on_chunk [OF at(1,2,4)] k by fastforce
  show "\<exists>d. chunks_next c = Some (Some (between (rope_text t) m ?o), c\<lparr>rk_offset := m, rk_chunks := d\<rparr>) \<and>
    backward_at t (c\<lparr>rk_offset := m, rk_chunks := d\<rparr>) (n - 1)"
  proof (cases "rk_start c \<le> chunk_pos t ?k")
    case True
    then have "m = chunk_pos t ?k" by (simp add: m)
    moreover have "m = rk_start c" if "?k = 0" using that True by (simp add: m chunk_pos_eq)
    moreover have "on_chunk t d m (?k - 1)" if "?k \<noteq> 0" using that d(2) \<open>m = chunk_pos t ?k\<close> by simp
    ultimately have "backward_at t (c\<lparr>rk_offset := m, rk_chunks := d\<rparr>) ?k"
      using at bd o k by (cases "?k = 0") (simp_all add: backward_at_def range_ok_def)
    then show ?thesis using peek d(1) at(3) o on_chunk_item(2) [OF at(1,4)] \<open>m = chunk_pos t ?k\<close>
      by (intro exI [of _ d]) (simp add: chunks_next_def chunks_advance_def)
  next
    case False
    then have "m = rk_start c" "\<not> m \<le> chunk_pos t ?k" by (simp_all add: m)
    then show ?thesis using peek at bd o on_chunk_item(2) [OF at(1,4)]
      by (intro exI [of _ "rk_chunks c"]) (auto simp: chunks_next_def chunks_advance_def backward_at_def range_ok_def)
  qed
qed

section \<open>What an iterator delivers\<close>

inductive delivers :: "rope_chunks \<Rightarrow> str list \<Rightarrow> bool" where
  exhausted: "chunks_next c = Some (None, c') \<Longrightarrow> delivers c []"
| delivered: "chunks_next c = Some (Some p, c') \<Longrightarrow> delivers c' ps \<Longrightarrow> delivers c (p # ps)"

lemma forward_delivers:
  assumes "forward_at t c k"
  shows "\<exists>ps. delivers c ps \<and> concat ps = between (rope_text t) (rk_offset c) (rk_stop c) \<and> (\<forall>p \<in> set ps. valid_utf8 p) \<and> (filled (tree_items t) \<longrightarrow> [] \<notin> set ps)"
  using assms
proof (induction "if rk_offset c = rk_stop c then 0 else Suc (length (tree_items t) - k)" arbitrary: c k rule: less_induct)
  case less
  show ?case
  proof (cases "rk_offset c = rk_stop c")
    case True
    from exhausted [OF forward_done [OF less.prems this]] True show ?thesis by (intro exI [of _ "[]"]) simp
  next
    case False
    let ?s = "rope_text t" and ?m = "min (chunk_pos t (Suc k)) (rk_stop c)"
    note st = forward_step [OF forward_on_range [OF less.prems] False refl]
    obtain d k' where d: "chunks_next c = Some (Some (between ?s (rk_offset c) ?m), c\<lparr>rk_offset := ?m, rk_chunks := d\<rparr>)"
      "forward_at t (c\<lparr>rk_offset := ?m, rk_chunks := d\<rparr>) k'" "?m = rk_stop c \<or> k < k'" using st(1) by blast
    have bd: "rope_ok t" "str_is_char_boundary ?s (rk_offset c)" "str_is_char_boundary ?s ?m"
      using less.prems d(2) by (simp_all add: forward_at_def range_ok_def)
    have small: "(if rk_offset (c\<lparr>rk_offset := ?m, rk_chunks := d\<rparr>) = rk_stop (c\<lparr>rk_offset := ?m, rk_chunks := d\<rparr>) then 0 else Suc (length (tree_items t) - k'))
        < (if rk_offset c = rk_stop c then 0 else Suc (length (tree_items t) - k))" using False d(3) st(4) by auto
    obtain ps where ps: "delivers (c\<lparr>rk_offset := ?m, rk_chunks := d\<rparr>) ps" "concat ps = between ?s ?m (rk_stop c)" "\<forall>p \<in> set ps. valid_utf8 p" "filled (tree_items t) \<longrightarrow> [] \<notin> set ps"
      using less.hyps [OF small d(2)] by auto
    have "filled (tree_items t) \<longrightarrow> between ?s (rk_offset c) ?m \<noteq> []"
      using less.prems False boundary_le [OF bd(3)] by (auto simp: forward_at_def range_ok_def)
    with delivered [OF d(1) ps(1)] ps(2-4) between_append [OF st(2,3), of ?s] between_valid [OF bd st(2)] show ?thesis
      by (intro exI [of _ "between ?s (rk_offset c) ?m # ps"]) simp
  qed
qed

lemma backward_delivers:
  assumes "backward_at t c n"
  shows "\<exists>ps. delivers c ps \<and> concat (rev ps) = between (rope_text t) (rk_start c) (rk_offset c) \<and> (\<forall>p \<in> set ps. valid_utf8 p)"
  using assms
proof (induction n arbitrary: c rule: less_induct)
  case (less n)
  show ?case
  proof (cases "rk_offset c = rk_start c")
    case True
    from exhausted [OF backward_done [OF less.prems this]] True show ?thesis by (intro exI [of _ "[]"]) simp
  next
    case False
    let ?s = "rope_text t" and ?m = "max (chunk_pos t (n - 1)) (rk_start c)"
    note st = backward_part [OF less.prems False refl]
    obtain d where d: "chunks_next c = Some (Some (between ?s ?m (rk_offset c)), c\<lparr>rk_offset := ?m, rk_chunks := d\<rparr>)"
      "backward_at t (c\<lparr>rk_offset := ?m, rk_chunks := d\<rparr>) (n - 1)" using st(1) by blast
    have bd: "rope_ok t" "str_is_char_boundary ?s ?m" "str_is_char_boundary ?s (rk_offset c)"
      using less.prems d(2) by (simp_all add: backward_at_def range_ok_def)
    obtain ps where ps: "delivers (c\<lparr>rk_offset := ?m, rk_chunks := d\<rparr>) ps" "concat (rev ps) = between ?s (rk_start c) ?m" "\<forall>p \<in> set ps. valid_utf8 p"
      using less.IH [OF _ d(2)] st(4) by auto
    from delivered [OF d(1) ps(1)] ps(2,3) between_append [OF st(3,2), of ?s] between_valid [OF bd st(2)] show ?thesis
      by (intro exI [of _ "between ?s ?m (rk_offset c) # ps"]) simp
  qed
qed

lemma chunks_new_forward:
  assumes "rope_ok t" "height t < STACK_CAPACITY" "start \<le> stop" "str_is_char_boundary (rope_text t) start" "str_is_char_boundary (rope_text t) stop"
  shows "\<exists>c k. chunks_new t start stop False = Some c \<and> forward_at t c k \<and> rk_start c = start \<and> rk_stop c = stop \<and> rk_offset c = start"
proof -
  obtain c k where c: "chunks_new t start stop False = Some c" "range_ok t c" "on_chunk t (rk_chunks c) (rk_offset c) k"
    "k < length (tree_items t) \<longrightarrow> start < chunk_pos t (Suc k)" "rk_start c = start" "rk_stop c = stop" "\<not> rk_reversed c" "rk_offset c = start"
    using chunks_new_correct [OF assms, of False, unfolded simp_thms if_False] by blast
  have "k < length (tree_items t)" if "start < stop"
    using on_chunk_less [OF c(3), of stop] c(8) that boundary_le [OF assms(5)] by simp
  then have "forward_at t c k" using c by (auto simp: forward_at_def)
  with c show ?thesis by blast
qed

lemma chunks_new_backward:
  assumes "rope_ok t" "height t < STACK_CAPACITY" "start \<le> stop" "str_is_char_boundary (rope_text t) start" "str_is_char_boundary (rope_text t) stop"
  shows "\<exists>c n. chunks_new t start stop True = Some c \<and> backward_at t c n \<and> rk_start c = start \<and> rk_stop c = stop \<and> rk_offset c = stop"
proof -
  obtain c k where c: "chunks_new t start stop True = Some c" "range_ok t c" "on_chunk t (rk_chunks c) (rk_offset c) k"
    "0 < stop \<longrightarrow> k < length (tree_items t)" "rk_start c = start" "rk_stop c = stop" "rk_reversed c" "rk_offset c = stop"
    using chunks_new_correct [OF assms, of True, unfolded simp_thms if_True] by blast
  then have "backward_at t c (Suc k)" using assms(3) by (auto simp: backward_at_def)
  with c show ?thesis by blast
qed

lemma chunks_new_delivers:
  assumes "rope_ok t" "height t < STACK_CAPACITY" "start \<le> stop" "str_is_char_boundary (rope_text t) start" "str_is_char_boundary (rope_text t) stop"
  shows "\<exists>c ps. chunks_new t start stop rv = Some c \<and> delivers c ps \<and> (\<forall>p \<in> set ps. valid_utf8 p) \<and> rk_reversed c = rv \<and>
    (\<not> rv \<longrightarrow> filled (tree_items t) \<longrightarrow> [] \<notin> set ps) \<and> concat (if rv then rev ps else ps) = between (rope_text t) start stop"
proof (cases rv)
  case True
  obtain c n where "chunks_new t start stop True = Some c" "backward_at t c n" "rk_start c = start" "rk_offset c = stop"
    using chunks_new_backward [OF assms] by blast
  with backward_delivers [of t c n] True show ?thesis by (auto simp: backward_at_def)
next
  case False
  obtain c k where "chunks_new t start stop False = Some c" "forward_at t c k" "rk_stop c = stop" "rk_offset c = start"
    using chunks_new_forward [OF assms] by blast
  with forward_delivers [of t c k] False show ?thesis by (auto simp: forward_at_def)
qed

section \<open>The loops over the parts\<close>

lemma prefix_slice:
  assumes "valid_utf8 s" "valid_utf8 p" "take (length p) s = p"
  shows "str_slice s (length p) (length s) = Some (drop (length p) s)" "valid_utf8 (drop (length p) s)"
proof -
  have s: "s = p @ drop (length p) s" using assms(3) append_take_drop_id [of "length p" s] by simp
  show v: "valid_utf8 (drop (length p) s)" using assms(1) valid_utf8_append [OF assms(2)] s by metis
  have "str_is_char_boundary s (length p)" using concat_boundary [OF v, of p] s by simp
  then show "str_slice s (length p) (length s) = Some (drop (length p) s)"
    using s by (auto simp: str_slice_def str_is_char_boundary_def dest: arg_cong [of _ _ length])
qed

lemma starts_with_delivers:
  assumes "delivers c ps" "\<forall>p \<in> set ps. valid_utf8 p" "valid_utf8 s"
  shows "starts_with_loop s c = Some (prefix s (concat ps))"
  using assms
proof (induction arbitrary: s rule: delivers.induct)
  case (exhausted c c')
  then show ?case by (subst starts_with_loop.simps) simp
next
  case (delivered c p c' ps)
  have p: "valid_utf8 p" using delivered.prems(1) by simp
  show ?case
  proof (cases "length p \<le> length s")
    case True
    have all: "str_slice p 0 (min (length s) (length p)) = Some p" using True by (simp add: str_slice_def str_is_char_boundary_def)
    show ?thesis
    proof (cases "take (length p) s = p")
      case yes: True
      note sl = prefix_slice [OF delivered.prems(2) p yes]
      have "prefix s (p @ concat ps) \<longleftrightarrow> prefix (drop (length p) s) (concat ps)"
        using yes append_take_drop_id [of "length p" s] by (metis same_prefix_prefix)
      with delivered.hyps(1) delivered.IH [OF _ sl(2)] delivered.prems(1) all yes sl(1) show ?thesis
        by (subst starts_with_loop.simps) auto
    next
      case False
      then have "\<not> prefix s (p @ concat ps)" using True by (auto simp: prefix_def append_eq_append_conv2)
      with delivered.hyps(1) all False show ?thesis by (subst starts_with_loop.simps) simp
    qed
  next
    case False
    have pre: "prefix s (p @ concat ps) \<longleftrightarrow> take (length s) p = s"
      using False by (auto simp: prefix_def append_eq_append_conv2) (metis append_take_drop_id)
    show ?thesis
    proof (cases "str_is_char_boundary p (length s)")
      case True
      with False delivered.hyps(1) pre show ?thesis
        by (subst starts_with_loop.simps) (auto simp: str_slice_def str_is_char_boundary_def)
    next
      case nb: False
      have "take (length s) p \<noteq> s"
        using nb prefix_slice(2) [OF p delivered.prems(2)] concat_boundary [of "drop (length s) p" s] by (metis append_take_drop_id)
      with False nb delivered.hyps(1) pre show ?thesis by (subst starts_with_loop.simps) (simp add: str_slice_def)
    qed
  qed
qed

lemma equals_forward_delivers:
  assumes "delivers c ps" "\<forall>p \<in> set ps. valid_utf8 p" "[] \<notin> set ps" "valid_utf8 s" "str_is_char_boundary s off"
  shows "equals_forward s off c = Some (drop off s = concat ps)"
  using assms
proof (induction arbitrary: off rule: delivers.induct)
  case (exhausted c c')
  then show ?case using boundary_le [OF exhausted.prems(4)] by (subst equals_forward.simps) auto
next
  case (delivered c p c' ps)
  have p: "valid_utf8 p" "p \<noteq> []" using delivered.prems by auto
  have v: "valid_utf8 (drop off s)" by (rule valid_split(2) [OF delivered.prems(3,4)])
  have le: "off \<le> length s" by (rule boundary_le [OF delivered.prems(4)])
  have sl: "str_slice s off (length s) = Some (drop off s)"
    using delivered.prems(4) le by (simp add: str_slice_def) (simp add: str_is_char_boundary_def)
  show ?case
  proof (cases "take (length p) (drop off s) = p")
    case True
    have "length p \<le> length s - off" using arg_cong [OF True, of length] by simp
    then have len: "off + length p \<le> length s" "off < length s" using p(2) le by (cases p; simp)+
    have "str_is_char_boundary s (off + length p)"
      using True prefix_slice(2) [OF v p(1) True] concat_boundary [of "drop (off + length p) s" "take (off + length p) s"] len
      by (simp add: add.commute)
    moreover have "drop off s = p @ concat ps \<longleftrightarrow> drop (off + length p) s = concat ps"
      using True append_take_drop_id [of "length p" "drop off s"] by (metis add.commute drop_drop same_append_eq)
    ultimately show ?thesis using delivered True sl len by (subst equals_forward.simps) auto
  next
    case False
    then have "drop off s \<noteq> p @ concat ps" by auto
    with False delivered.hyps(1) sl show ?thesis by (subst equals_forward.simps) simp
  qed
qed

text \<open>From the back: a text that ends with a valid text is cut at a character boundary.\<close>

lemma suffix_slice:
  assumes "valid_utf8 s" "valid_utf8 p" "length p \<le> length s" "drop (length s - length p) s = p"
  shows "str_is_char_boundary s (length s - length p)" "str_slice s 0 (length s - length p) = Some (take (length s - length p) s)" "valid_utf8 (take (length s - length p) s)"
proof -
  have s: "take (length s - length p) s @ p = s" using append_take_drop_id [of "length s - length p" s] assms(4) by simp
  show b: "str_is_char_boundary s (length s - length p)"
    using concat_boundary [OF assms(2), of "take (length s - length p) s"] unfolding s by simp
  then show "str_slice s 0 (length s - length p) = Some (take (length s - length p) s)"
    by (simp add: str_slice_def) (simp add: str_is_char_boundary_def)
  show "valid_utf8 (take (length s - length p) s)" by (rule valid_split(1) [OF assms(1) b])
qed

lemma suffix_append_append: "length r = length p \<Longrightarrow> suffix (q @ r) (a @ p) \<longleftrightarrow> r = p \<and> suffix q a"
  by (auto simp add: suffix_def simp flip: append_assoc)

lemma suffix_append_iff:
  assumes "length p \<le> length s"
  shows "suffix s (a @ p) \<longleftrightarrow> drop (length s - length p) s = p \<and> suffix (take (length s - length p) s) a"
  using suffix_append_append [of "drop (length s - length p) s" p "take (length s - length p) s" a] assms by simp

lemma ends_with_delivers:
  assumes "delivers c ps" "\<forall>p \<in> set ps. valid_utf8 p" "valid_utf8 s"
  shows "ends_with_loop s c = Some (suffix s (concat (rev ps)))"
  using assms
proof (induction arbitrary: s rule: delivers.induct)
  case (exhausted c c')
  then show ?case by (subst ends_with_loop.simps) simp
next
  case (delivered c p c' ps)
  have p: "valid_utf8 p" using delivered.prems(1) by simp
  show ?case
  proof (cases "length p \<le> length s")
    case True
    have all: "str_slice p (length p - min (length s) (length p)) (length p) = Some p" using True by (simp add: str_slice_def str_is_char_boundary_def)
    show ?thesis
    proof (cases "drop (length s - length p) s = p")
      case yes: True
      note sl = suffix_slice [OF delivered.prems(2) p True yes]
      show ?thesis using delivered.hyps(1) delivered.IH [OF _ sl(3)] delivered.prems(1) all yes sl(2) True suffix_append_iff [OF True, of "concat (rev ps)"]
        by (subst ends_with_loop.simps) auto
    next
      case False
      with delivered.hyps(1) all True suffix_append_iff [OF True, of "concat (rev ps)"] show ?thesis by (subst ends_with_loop.simps) simp
    qed
  next
    case False
    have suf: "suffix s (concat (rev ps) @ p) \<longleftrightarrow> drop (length p - length s) p = s"
      using False by (auto simp: suffix_def append_eq_append_conv2) (metis append_take_drop_id)
    show ?thesis
    proof (cases "str_is_char_boundary p (length p - length s)")
      case True
      with False delivered.hyps(1) suf show ?thesis
        by (subst ends_with_loop.simps) (auto simp: str_slice_def str_is_char_boundary_def)
    next
      case nb: False
      have "drop (length p - length s) p \<noteq> s" using nb suffix_slice(1) [OF p delivered.prems(2)] False by auto
      with False nb delivered.hyps(1) suf show ?thesis by (subst ends_with_loop.simps) (simp add: str_slice_def)
    qed
  qed
qed

lemma equals_backward_delivers:
  assumes "delivers c ps" "\<forall>p \<in> set ps. valid_utf8 p" "valid_utf8 s" "str_is_char_boundary s off"
  shows "equals_backward s off c = Some (take off s = concat (rev ps))"
  using assms
proof (induction arbitrary: off rule: delivers.induct)
  case (exhausted c c')
  then show ?case using boundary_le [OF exhausted.prems(3)] by (subst equals_backward.simps) auto
next
  case (delivered c p c' ps)
  have p: "valid_utf8 p" using delivered.prems by auto
  have v: "valid_utf8 (take off s)" by (rule valid_split(1) [OF delivered.prems(2,3)])
  have le: "off \<le> length s" by (rule boundary_le [OF delivered.prems(3)])
  have sl: "str_slice s 0 off = Some (take off s)" using delivered.prems(3) by (simp add: str_slice_def) (simp add: str_is_char_boundary_def)
  show ?case
  proof (cases "length p \<le> off \<and> drop (off - length p) (take off s) = p")
    case True
    then have b: "str_is_char_boundary (take off s) (off - length p)" using suffix_slice(1) [OF v p] le by simp
    then have "str_is_char_boundary s (off - length p)"
      using True delivered.prems(3) le by (cases "p = []") (auto simp: str_is_char_boundary_def)
    moreover have "take off s = concat (rev ps) @ p \<longleftrightarrow> take (off - length p) s = concat (rev ps)"
      using True append_take_drop_id [of "off - length p" "take off s"] by (metis append_same_eq diff_le_self min.absorb1 take_take)
    ultimately show ?thesis using delivered True sl le by (subst equals_backward.simps) auto
  next
    case False
    have "take off s \<noteq> concat (rev ps) @ p"
    proof
      assume e: "take off s = concat (rev ps) @ p"
      have "off = length (concat (rev ps) @ p)" using arg_cong [OF e, of length] le by (simp del: length_concat_rev)
      with e False show False by simp
    qed
    with False delivered.hyps(1) sl le show ?thesis by (subst equals_backward.simps) auto
  qed
qed

lemma collect_delivers: "delivers c ps \<Longrightarrow> collect_chunks c acc = Some (acc @ ps)"
  by (induction arbitrary: acc rule: delivers.induct) (simp_all add: collect_chunks.simps)

lemma str_chars_parts: "\<forall>p \<in> set ps. valid_utf8 p \<Longrightarrow> str_chars (concat ps) = concat (map str_chars ps)"
  by (induction ps) (simp_all add: str_chars_append)

section \<open>Properties\<close>

text \<open>
  C21. Iterating over a rope never panics, ends, and delivers its text. The parts of a range between
  two character boundaries are valid UTF-8 and join to the text of the range, in order or, reversed, from the
  last to the first; the characters at an offset are those of the text behind it, reversed those of the
  text before it from the last to the first; and formatting a rope writes its text.
\<close>

theorem rope_iterates_text:
  assumes "rope_ok t" "height t < STACK_CAPACITY" "i \<le> j" "str_is_char_boundary (rope_text t) i" "str_is_char_boundary (rope_text t) j"
  shows "(\<exists>c ps. chunks_in_range t i j = Some c \<and> collect_chunks c [] = Some ps \<and> (\<forall>p \<in> set ps. valid_utf8 p) \<and> concat ps = take (j - i) (drop i (rope_text t)))
    \<and> (\<exists>c ps. reversed_chunks_in_range t i j = Some c \<and> collect_chunks c [] = Some ps \<and> (\<forall>p \<in> set ps. valid_utf8 p) \<and> concat (rev ps) = take (j - i) (drop i (rope_text t)))
    \<and> rope_chars_at t i = Some (str_chars (drop i (rope_text t)))
    \<and> rope_reversed_chars_at t i = Some (rev (str_chars (take i (rope_text t))))
    \<and> rope_to_string t = Some (rope_text t)"
proof (intro conjI)
  note len = rope_len_correct [OF assms(1)]
  have bd: "str_is_char_boundary (rope_text t) 0" "str_is_char_boundary (rope_text t) (rope_len t)"
    using len by (simp_all add: str_is_char_boundary_def)
  note le = boundary_le [OF assms(4)]
  obtain c ps where c: "chunks_new t i j False = Some c" "delivers c ps" "\<forall>p \<in> set ps. valid_utf8 p" "concat ps = between (rope_text t) i j"
    using chunks_new_delivers [OF assms, of False] by auto
  show "\<exists>c ps. chunks_in_range t i j = Some c \<and> collect_chunks c [] = Some ps \<and> (\<forall>p \<in> set ps. valid_utf8 p) \<and> concat ps = take (j - i) (drop i (rope_text t))"
    using c(1,3,4) collect_delivers [OF c(2), of "[]"] by (auto simp: chunks_in_range_def)
  obtain d qs where d: "chunks_new t i j True = Some d" "delivers d qs" "\<forall>p \<in> set qs. valid_utf8 p" "concat (rev qs) = between (rope_text t) i j"
    using chunks_new_delivers [OF assms, of True] by auto
  show "\<exists>c ps. reversed_chunks_in_range t i j = Some c \<and> collect_chunks c [] = Some ps \<and> (\<forall>p \<in> set ps. valid_utf8 p) \<and> concat (rev ps) = take (j - i) (drop i (rope_text t))"
    using d(1,3,4) collect_delivers [OF d(2), of "[]"] by (auto simp: reversed_chunks_in_range_def)
  have all: "\<exists>c ps. chunks_in_range t k (rope_len t) = Some c \<and> collect_chunks c [] = Some ps \<and> (\<forall>p \<in> set ps. valid_utf8 p) \<and> concat ps = drop k (rope_text t)"
    if k: "str_is_char_boundary (rope_text t) k" for k
  proof -
    obtain c ps where "chunks_new t k (rope_len t) False = Some c" "delivers c ps" "\<forall>p \<in> set ps. valid_utf8 p" "concat ps = between (rope_text t) k (rope_len t)"
      using chunks_new_delivers [OF assms(1,2) _ k bd(2), of False] boundary_le [OF k] len by auto
    then show ?thesis using len collect_delivers [of c ps "[]"] by (auto simp: chunks_in_range_def)
  qed
  show "rope_chars_at t i = Some (str_chars (drop i (rope_text t)))"
    using all [OF assms(4)] by (auto simp: rope_chars_at_def simp flip: str_chars_parts)
  show "rope_to_string t = Some (rope_text t)" using all [OF bd(1)] by (auto simp: rope_to_string_def)
  obtain e rs where e: "chunks_new t 0 i True = Some e" "delivers e rs" "\<forall>p \<in> set rs. valid_utf8 p" "concat (rev rs) = take i (rope_text t)"
    using chunks_new_delivers [OF assms(1,2) _ bd(1) assms(4), of True] by auto
  have "concat (map (rev \<circ> str_chars) rs) = rev (str_chars (concat (rev rs)))"
    using e(3) str_chars_parts [of "rev rs"] by (simp add: rev_concat rev_map)
  then show "rope_reversed_chars_at t i = Some (rev (str_chars (take i (rope_text t))))"
    using e collect_delivers [OF e(2), of "[]"] by (simp add: rope_reversed_chars_at_def reversed_chunks_in_range_def)
qed

theorem rope_iterates_text_witness:
  "\<exists>t. rope_from [104, 0xC3, 0xA9, 105] = Some t \<and> rope_chars_at t 1 = Some [[0xC3, 0xA9], [105]] \<and>
    rope_reversed_chars_at t 1 = Some [[104]] \<and> rope_to_string t = Some [104, 0xC3, 0xA9, 105]"
proof -
  have v: "valid_utf8 [104, 0xC3, 0xA9, 105]" by code_simp
  obtain t where t: "rope_from [104, 0xC3, 0xA9, 105] = Some t" "rope_with t [104, 0xC3, 0xA9, 105] 1 True"
    using rope_from_correct [OF v, of 0] by (auto simp: TREE_BASE_def)
  then have "rope_text t = [104, 0xC3, 0xA9, 105]" "rope_ok t" "height t < STACK_CAPACITY" by (auto simp: rope_with_def STACK_CAPACITY_def)
  moreover have "str_chars [0xC3, 0xA9, 105] = [[0xC3, 0xA9], [105]]" "str_chars [104] = [[104]]" "str_is_char_boundary [104, 0xC3, 0xA9, 105] 1" by code_simp+
  ultimately show ?thesis using t(1) rope_iterates_text [of t 1 1] by auto
qed

text \<open>
  Comparing a rope with a string compares texts: \<open>starts_with\<close> and \<open>ends_with\<close> hold exactly if the pattern is
  a prefix or a suffix of the text, also where the pattern ends within a chunk or within one of its
  characters, and \<open>equals_str\<close> on an iterator over a range, in either direction, holds exactly if the string is the text
  of the range. None of them panics.
\<close>

theorem rope_compares_text:
  assumes "rope_ok t" "height t < STACK_CAPACITY" "filled (tree_items t)" "valid_utf8 s"
    and "i \<le> j" "str_is_char_boundary (rope_text t) i" "str_is_char_boundary (rope_text t) j"
  shows "rope_starts_with t s = Some (prefix s (rope_text t)) \<and> rope_ends_with t s = Some (suffix s (rope_text t)) \<and>
    (\<exists>c. reversed_chunks_in_range t i j = Some c \<and> equals_str c s = Some (s = take (j - i) (drop i (rope_text t)))) \<and>
    (\<exists>c. chunks_in_range t i j = Some c \<and> equals_str c s = Some (s = take (j - i) (drop i (rope_text t))))"
proof (intro conjI)
  note len = rope_len_correct [OF assms(1)]
  have bd: "str_is_char_boundary (rope_text t) 0" "str_is_char_boundary (rope_text t) (rope_len t)" "str_is_char_boundary s 0" "str_is_char_boundary s (length s)"
    using len by (simp_all add: str_is_char_boundary_def)
  obtain c ps where c: "chunks_new t 0 (rope_len t) False = Some c" "delivers c ps" "\<forall>p \<in> set ps. valid_utf8 p" "concat ps = rope_text t"
    using chunks_new_delivers [OF assms(1,2) _ bd(1,2), of False] len by auto
  show "rope_starts_with t s = Some (prefix s (rope_text t))"
    using c(1,4) starts_with_delivers [OF c(2,3) assms(4)] len by (auto simp: rope_starts_with_def chunks_in_range_def dest: prefix_length_le)
  obtain d qs where d: "chunks_new t 0 (rope_len t) True = Some d" "delivers d qs" "\<forall>p \<in> set qs. valid_utf8 p" "concat (rev qs) = rope_text t"
    using chunks_new_delivers [OF assms(1,2) _ bd(1,2), of True] len by auto
  show "rope_ends_with t s = Some (suffix s (rope_text t))"
    using d(1,4) ends_with_delivers [OF d(2,3) assms(4)] len by (auto simp: rope_ends_with_def reversed_chunks_in_range_def dest: suffix_length_le)
  obtain e rs where e: "chunks_new t i j True = Some e" "delivers e rs" "\<forall>p \<in> set rs. valid_utf8 p" "concat (rev rs) = between (rope_text t) i j" "rk_reversed e"
    using chunks_new_delivers [OF assms(1,2,5-7), of True] by auto
  show "\<exists>c. reversed_chunks_in_range t i j = Some c \<and> equals_str c s = Some (s = take (j - i) (drop i (rope_text t)))"
    using e(1,4,5) equals_backward_delivers [OF e(2,3) assms(4) bd(4)] by (simp add: reversed_chunks_in_range_def equals_str_def)
  obtain f us where f: "chunks_new t i j False = Some f" "delivers f us" "\<forall>p \<in> set us. valid_utf8 p" "concat us = between (rope_text t) i j"
    "filled (tree_items t) \<longrightarrow> [] \<notin> set us" "\<not> rk_reversed f"
    using chunks_new_delivers [OF assms(1,2,5-7), of False] by auto
  show "\<exists>c. chunks_in_range t i j = Some c \<and> equals_str c s = Some (s = take (j - i) (drop i (rope_text t)))"
    using f(1,4-6) assms(3) equals_forward_delivers [OF f(2,3) _ assms(4) bd(3)] by (auto simp: chunks_in_range_def equals_str_def)
qed

theorem rope_compares_text_witness:
  "\<exists>t c. rope_from [104, 0xC3, 0xA9, 105] = Some t \<and> rope_starts_with t [104, 0xC3, 0xA9] = Some True \<and>
    rope_ends_with t [105] = Some True \<and> chunks_in_range t 0 1 = Some c \<and> equals_str c [105] = Some False"
proof -
  have v: "valid_utf8 [104, 0xC3, 0xA9, 105]" by code_simp
  obtain t where t: "rope_from [104, 0xC3, 0xA9, 105] = Some t" "rope_with t [104, 0xC3, 0xA9, 105] 1 True"
    using rope_from_correct [OF v, of 0] by (auto simp: TREE_BASE_def)
  then have ok: "rope_text t = [104, 0xC3, 0xA9, 105]" "rope_ok t" "height t < STACK_CAPACITY" "filled (tree_items t)" by (auto simp: rope_with_def STACK_CAPACITY_def)
  have w: "valid_utf8 [104, 0xC3, 0xA9]" "valid_utf8 [105]" by code_simp+
  have "str_is_char_boundary [104, 0xC3, 0xA9, 105] 0" "str_is_char_boundary [104, 0xC3, 0xA9, 105] 1" by code_simp+
  then have b: "str_is_char_boundary (rope_text t) 0" "str_is_char_boundary (rope_text t) 1" by (simp_all add: ok(1))
  have "prefix [104, 0xC3, 0xA9] (rope_text t)" "suffix [105] (rope_text t)" by (simp_all add: ok(1) suffix_def)
  then show ?thesis using t(1) ok(1) rope_compares_text [OF ok(2-4) w(1) _ b] rope_compares_text [OF ok(2-4) w(2) _ b] by auto
qed

end
