(* ===== verification/Rope_Lines.thy ===== *)
theory Rope_Lines
  imports Rope_Chunks
begin

text \<open>
  Moving an iterator over the text of a rope (\<open>Chunks::seek\<close>), the bitmaps it delivers beside
  the text, and the lines of a rope (\<open>Lines\<close> of \<open>crates/rope/src/rope.rs\<close>).
\<close>

section \<open>The lines\<close>

record rope_lines =
  ln_chunks :: rope_chunks
  ln_current_line :: str
  ln_done :: bool
  ln_reversed :: bool

definition chunks_lines :: "rope_chunks \<Rightarrow> rope_lines" where
  "chunks_lines c = \<lparr>ln_chunks = c, ln_current_line = [], ln_done = False, ln_reversed = rk_reversed c\<rparr>"

text \<open>The loop of \<open>next\<close>: the line, the iterator and \<open>current_line\<close> behind it, and whether the text was exhausted.\<close>

partial_function (option) lines_loop :: "bool \<Rightarrow> rope_chunks \<Rightarrow> str \<Rightarrow> (str \<times> rope_chunks \<times> str \<times> bool) option" where
  "lines_loop rv c current_line = do {
     peeked \<leftarrow> chunks_peek c;
     case peeked of
       None \<Rightarrow> Some (current_line, c, current_line, True)
     | Some chunk \<Rightarrow>
         if rv then do {
           let chunk_line = last (split_newline chunk);
           let done = (1 < length (split_newline chunk));
           if done then do {
             rust_assert (length chunk_line + 1 \<le> rk_offset c);
             c \<leftarrow> chunks_seek c (rk_offset c - length chunk_line - 1);
             if current_line = [] then Some (chunk_line, c, current_line, False)
             else Some (chunk_line @ current_line, c, chunk_line @ current_line, False)
           } else do {
             (_, c) \<leftarrow> chunks_next c;
             lines_loop rv c (chunk_line @ current_line)
           }
         } else do {
           let chunk_line = hd (split_newline chunk);
           let done = (1 < length (split_newline chunk));
           if done then do {
             c \<leftarrow> chunks_seek c (rk_offset c + length chunk_line + 1);
             if current_line = [] then Some (chunk_line, c, current_line, False)
             else Some (current_line @ chunk_line, c, current_line @ chunk_line, False)
           } else do {
             (_, c) \<leftarrow> chunks_next c;
             lines_loop rv c (current_line @ chunk_line)
           }
         }
   }"

definition lines_next :: "rope_lines \<Rightarrow> (str option \<times> rope_lines) option" where
  "lines_next l = (if ln_done l then Some (None, l)
     else do {
       (line, c, current_line, done) \<leftarrow> lines_loop (ln_reversed l) (ln_chunks l) [];
       Some (Some line, l\<lparr>ln_chunks := c, ln_current_line := current_line, ln_done := done\<rparr>)
     })"

definition lines_seek :: "rope_lines \<Rightarrow> nat \<Rightarrow> rope_lines option" where
  "lines_seek l offset = do {
     c \<leftarrow> chunks_seek (ln_chunks l) offset;
     Some (l\<lparr>ln_chunks := c, ln_current_line := [], ln_done := False\<rparr>)
   }"

text \<open>What a \<open>while let\<close> loop over the lines sees.\<close>

partial_function (option) collect_lines :: "rope_lines \<Rightarrow> str list \<Rightarrow> str list option" where
  "collect_lines l acc = do {
     (line, l) \<leftarrow> lines_next l;
     case line of None \<Rightarrow> Some acc | Some line \<Rightarrow> collect_lines l (acc @ [line])
   }"

section \<open>Seeking\<close>

abbreviation clamp :: "nat \<Rightarrow> nat \<Rightarrow> nat \<Rightarrow> nat" where
  "clamp x lo hi \<equiv> min (max x lo) hi"

lemma forward_seek:
  assumes c: "forward_at t c k" and off: "off = clamp x (rk_start c) (rk_stop c)" "str_is_char_boundary (rope_text t) off"
  shows "\<exists>d k'. chunks_seek c x = Some (c\<lparr>rk_chunks := d, rk_offset := off\<rparr>) \<and> forward_at t (c\<lparr>rk_chunks := d, rk_offset := off\<rparr>) k'"
proof -
  have r: "range_ok t c" "\<not> rk_reversed c" "on_chunk t (rk_chunks c) (rk_offset c) k" using c by (simp_all add: forward_at_def)
  have t: "rope_ok t" "height t < STACK_CAPACITY" "rk_start c \<le> rk_stop c" "rk_stop c \<le> length (rope_text t)"
    using r(1) boundary_le [of "rope_text t" "rk_stop c"] by (auto simp: range_ok_def)
  have o: "rk_start c \<le> off" "off \<le> rk_stop c" "off \<le> length (rope_text t)" using t(3,4) off(1) by auto
  have at: "c_tree (rk_chunks c) = t" "cursor_at chunk_ops len_dim (rk_chunks c) k" "chunk_pos t k \<le> chunk_pos t (Suc k)"
    using r(3) chunk_pos_mono [of k "Suc k" t] by (simp_all add: on_chunk_def)
  note item = on_chunk_item [OF t(1) r(3)] and w = wf_on_chunk [OF t(1,2) r(3)]
  have "\<exists>d k'. chunks_seek c x = Some (c\<lparr>rk_chunks := d, rk_offset := off\<rparr>) \<and> on_chunk t d off k' \<and> (k' < length (tree_items t) \<longrightarrow> off < chunk_pos t (Suc k'))"
  proof -
    have sk: "chunks_seek c x = do {
        chunks \<leftarrow> (if chunk_pos t (Suc k) \<le> off then map_option snd (cursor_seek_forward len_dim (ord_cmp off) Right (rk_chunks c))
          else if off < chunk_pos t k then map_option snd (cursor_seek len_dim (ord_cmp off) Right (rk_chunks c)) else Some (rk_chunks c));
        Some (c\<lparr>rk_chunks := chunks, rk_offset := off\<rparr>) }"
      unfolding chunks_seek_def Let_def off(1) [symmetric] using r(2) t(3) item by simp
    consider "chunk_pos t (Suc k) \<le> off" | "off < chunk_pos t k" | "chunk_pos t k \<le> off" "off < chunk_pos t (Suc k)" by linarith
    then show ?thesis
    proof cases
      case 1
      then have "chunk_pos t k \<le> off" using at(3) by simp
      from seek_forward_on_chunk [OF w at(1,2) this o(3), of Right] 1 show ?thesis
        using sk by auto
    next
      case 2
      then have "\<not> chunk_pos t (Suc k) \<le> off" using at(3) by simp
      with seek_on_chunk [OF w at(1) o(3), of Right] 2 show ?thesis
        using sk by auto
    next
      case 3
      then have "on_chunk t (rk_chunks c) off k" using r(3) by (simp add: on_chunk_def)
      with 3 show ?thesis using sk by (intro exI [of _ "rk_chunks c"] exI [of _ k]) simp
    qed
  qed
  then obtain d k' where d: "chunks_seek c x = Some (c\<lparr>rk_chunks := d, rk_offset := off\<rparr>)" "on_chunk t d off k'"
    "k' < length (tree_items t) \<longrightarrow> off < chunk_pos t (Suc k')" by blast
  have "off < rk_stop c \<longrightarrow> k' < length (tree_items t)" using on_chunk_less [OF d(2) _ t(4)] by simp
  then have "forward_at t (c\<lparr>rk_chunks := d, rk_offset := off\<rparr>) k'"
    using d(2,3) r(1,2) o off(2) by (simp add: forward_at_def range_ok_def)
  with d(1) show ?thesis by blast
qed

lemma backward_seek:
  assumes c: "backward_at t c n" "rk_start c < rk_offset c" and off: "off = clamp x (rk_start c) (rk_stop c)" "str_is_char_boundary (rope_text t) off"
  shows "\<exists>d n'. chunks_seek c x = Some (c\<lparr>rk_chunks := d, rk_offset := off\<rparr>) \<and> backward_at t (c\<lparr>rk_chunks := d, rk_offset := off\<rparr>) n'"
proof -
  let ?k = "n - 1"
  have r: "range_ok t c" "rk_reversed c" "on_chunk t (rk_chunks c) (rk_offset c) ?k" "?k < length (tree_items t)" using c by (auto simp: backward_at_def)
  have t: "rope_ok t" "height t < STACK_CAPACITY" "rk_start c \<le> rk_stop c" "rk_stop c \<le> length (rope_text t)"
    using r(1) boundary_le [of "rope_text t" "rk_stop c"] by (auto simp: range_ok_def)
  have o: "rk_start c \<le> off" "off \<le> rk_stop c" "off \<le> length (rope_text t)" using t(3,4) off(1) by auto
  have at: "c_tree (rk_chunks c) = t" "cursor_at chunk_ops len_dim (rk_chunks c) ?k" "chunk_pos t ?k \<le> chunk_pos t (Suc ?k)"
    using r(3) chunk_pos_mono [of ?k "Suc ?k" t] by (simp_all add: on_chunk_def)
  note item = on_chunk_item [OF t(1) r(3)] and w = wf_on_chunk [OF t(1,2) r(3)]
  have "\<exists>d k'. chunks_seek c x = Some (c\<lparr>rk_chunks := d, rk_offset := off\<rparr>) \<and> on_chunk t d off k' \<and> (0 < off \<longrightarrow> k' < length (tree_items t))"
  proof -
    have sk: "chunks_seek c x = do {
        chunks \<leftarrow> (if chunk_pos t (Suc ?k) < off then map_option snd (cursor_seek_forward len_dim (ord_cmp off) Left (rk_chunks c))
          else if off \<le> chunk_pos t ?k then map_option snd (cursor_seek len_dim (ord_cmp off) Left (rk_chunks c)) else Some (rk_chunks c));
        Some (c\<lparr>rk_chunks := chunks, rk_offset := off\<rparr>) }"
      unfolding chunks_seek_def Let_def off(1) [symmetric] using r(2) t(3) item by simp
    consider "chunk_pos t (Suc ?k) < off" | "off \<le> chunk_pos t ?k" | "chunk_pos t ?k < off" "off \<le> chunk_pos t (Suc ?k)" by linarith
    then show ?thesis
    proof cases
      case 1
      then have "chunk_pos t ?k < off" using at(3) by simp
      with seek_forward_on_chunk [OF w at(1,2) _ o(3), of Left] 1 show ?thesis
        using sk by auto
    next
      case 2
      then have "\<not> chunk_pos t (Suc ?k) < off" using at(3) by simp
      with seek_on_chunk [OF w at(1) o(3), of Left] 2 show ?thesis
        using sk by auto
    next
      case 3
      then have "on_chunk t (rk_chunks c) off ?k" using r(3) by (simp add: on_chunk_def)
      with 3 show ?thesis using sk r(4) by (intro exI [of _ "rk_chunks c"] exI [of _ ?k]) simp
    qed
  qed
  then obtain d k' where d: "chunks_seek c x = Some (c\<lparr>rk_chunks := d, rk_offset := off\<rparr>)" "on_chunk t d off k'"
    "0 < off \<longrightarrow> k' < length (tree_items t)" by blast
  then have "backward_at t (c\<lparr>rk_chunks := d, rk_offset := off\<rparr>) (Suc k')"
    using r(1,2) o off(2) by (auto simp: backward_at_def range_ok_def)
  with d(1) show ?thesis by blast
qed

section \<open>Finding a line\<close>

lemma newline_cut:
  assumes "valid_utf8 (a @ 10 # b)"
  shows "str_is_char_boundary (a @ 10 # b) (length a)" "str_is_char_boundary (a @ 10 # b) (Suc (length a))"
proof -
  show 0: "str_is_char_boundary (a @ 10 # b) (length a)" by (simp add: str_is_char_boundary_def boundary_iff nth_append)
  have "valid_utf8 ([10] @ b)" using valid_split(2) [OF assms 0] by simp
  moreover have "valid_utf8 [10]" by code_simp
  ultimately have "valid_utf8 b" using valid_utf8_append by blast
  from concat_boundary [OF this, of "a @ [10]"] show "str_is_char_boundary (a @ 10 # b) (Suc (length a))" by simp
qed

lemma first_line_split: "0 < newlines s \<Longrightarrow> \<exists>b. s = hd (split_newline s) @ 10 # b \<and> split_newline s = hd (split_newline s) # split_newline b"
proof (induction s)
  case (Cons x s)
  then show ?case by (cases "x = 10"; cases "split_newline s") (auto simp: newlines_def)
qed (simp add: newlines_def)

lemma no_newline: "newlines s = 0 \<Longrightarrow> split_newline s = [s]"
  using last_line_split(1) [of s] split_newline_line by blast

lemma many_lines: "Suc 0 < length (split_newline s) \<longleftrightarrow> 0 < newlines s"
  by (auto simp: newlines_def)

lemma boundary_after_newline:
  assumes "rope_ok t" "str_is_char_boundary (rope_text t) off" "between (rope_text t) off m = l @ 10 # q"
  shows "str_is_char_boundary (rope_text t) (off + length l + 1)"
proof -
  let ?s = "rope_text t"
  have v: "valid_utf8 (drop off ?s)" by (rule valid_split(2) [OF rope_text_valid [OF assms(1)] assms(2)])
  have d: "drop off ?s = l @ 10 # q @ drop (m - off) (drop off ?s)" using append_take_drop_id [of "m - off" "drop off ?s"] assms(3) by simp
  have le: "Suc (length l) \<le> length (drop off ?s)" using arg_cong [OF d, of length] by simp
  have "str_is_char_boundary (drop off ?s) (Suc (length l))" using newline_cut(2) v d by metis
  then show ?thesis using boundary_shift [OF v le, of "take off ?s"] boundary_le [OF assms(2)] by simp
qed

lemma next_peek: "chunks_next c = Some (part, c') \<Longrightarrow> chunks_peek c = Some part"
  by (auto simp: chunks_next_def split: option.splits Option.bind_splits)

lemma forward_line:
  assumes "delivers c ps" "forward_at t c k" "concat ps = between (rope_text t) (rk_offset c) (rk_stop c)"
  shows "\<exists>c' k' cur'. lines_loop False c cur = Some (cur @ hd (split_newline (concat ps)), c', cur', newlines (concat ps) = 0) \<and> forward_at t c' k' \<and> rk_stop c' = rk_stop c \<and>
    (0 < newlines (concat ps) \<longrightarrow> rk_offset c' = rk_offset c + length (hd (split_newline (concat ps))) + 1)"
  using assms
proof (induction arbitrary: k cur rule: delivers.induct)
  case (exhausted c c')
  show ?case using next_peek [OF exhausted.hyps] exhausted.prems(1) by (subst lines_loop.simps) (auto simp: newlines_def)
next
  case (delivered c p c' ps)
  let ?s = "rope_text t"
  have ne: "rk_offset c \<noteq> rk_stop c" using forward_done [OF delivered.prems(1)] delivered.hyps(1) by auto
  obtain m d k' where m: "p = between ?s (rk_offset c) m" "c' = c\<lparr>rk_offset := m, rk_chunks := d\<rparr>" "forward_at t c' k'" "rk_offset c \<le> m" "m \<le> rk_stop c"
    using forward_step [OF forward_on_range [OF delivered.prems(1)] ne refl] delivered.hyps(1) by auto
  note peek = next_peek [OF delivered.hyps(1)]
  show ?case
  proof (cases "newlines p = 0")
    case True
    have "concat ps = between ?s m (rk_stop c)"
      using delivered.prems(2) m(1) between_append [OF m(4,5), of ?s] by (metis concat.simps(2) same_append_eq)
    then obtain e j cur' where e: "lines_loop False c' (cur @ p) = Some ((cur @ p) @ hd (split_newline (concat ps)), e, cur', newlines (concat ps) = 0)" "forward_at t e j" "rk_stop e = rk_stop c"
      "0 < newlines (concat ps) \<longrightarrow> rk_offset e = m + length (hd (split_newline (concat ps))) + 1"
      using delivered.IH [OF m(3), of "cur @ p"] m(2) by auto
    have len: "length p = m - rk_offset c" using m delivered.prems(1) boundary_le [of ?s "rk_stop c"] by (auto simp: forward_at_def range_ok_def)
    have "lines_loop False c cur = Some (cur @ p @ hd (split_newline (concat ps)), e, cur', newlines (concat ps) = 0)"
      using peek delivered.hyps(1) e(1) no_newline [OF True] by (subst lines_loop.simps) simp
    with e(2-4) True len m(4) show ?thesis by (simp add: first_line_append newlines_append no_newline) blast
  next
    case False
    then obtain q where q: "p = hd (split_newline p) @ 10 # q" using first_line_split [of p] by auto
    let ?l = "hd (split_newline p)" and ?x = "rk_offset c + length (hd (split_newline p)) + 1"
    have r: "rope_ok t" "rk_start c \<le> rk_offset c" "str_is_char_boundary ?s (rk_offset c)" using delivered.prems(1) by (simp_all add: forward_at_def range_ok_def)
    have bd: "str_is_char_boundary ?s ?x" using boundary_after_newline [OF r(1,3)] m(1) q by metis
    have len: "length ?l + 1 \<le> m - rk_offset c" using arg_cong [OF q, of length] m(1) by simp
    then have "?x = clamp ?x (rk_start c) (rk_stop c)" using r(2) m(4,5) by auto
    from forward_seek [OF delivered.prems(1) this bd] obtain d j where
      d: "chunks_seek c ?x = Some (c\<lparr>rk_chunks := d, rk_offset := ?x\<rparr>)" "forward_at t (c\<lparr>rk_chunks := d, rk_offset := ?x\<rparr>) j" by blast
    then show ?thesis using peek False by (subst lines_loop.simps) (auto simp: first_line_append newlines_append many_lines Let_def)
  qed
qed

lemma last_line_cut: "0 < newlines s \<Longrightarrow> \<exists>a. s = a @ 10 # last_line s \<and> split_newline s = split_newline a @ [last_line s]"
proof -
  assume "0 < newlines s"
  then obtain a where a: "s = a @ 10 # last_line s" using last_line_split(2) by blast
  have "split_newline (last_line s) = [last_line s]" using last_line_split(3) split_newline_line by blast
  then have "split_newline s = split_newline a @ [last_line s]"
    using split_newline_append [of a "10 # last_line s"] a by (simp add: append_butlast_last_id)
  with a show "\<exists>a. s = a @ 10 # last_line s \<and> split_newline s = split_newline a @ [last_line s]" by blast
qed

lemma boundary_at_newline:
  assumes "between s i j = a @ 10 # q" "j \<le> length s"
  shows "str_is_char_boundary s (j - length q - 1)" "length q + 1 \<le> j - i"
proof -
  have len: "j - i = length a + Suc (length q)" using arg_cong [OF assms(1), of length] assms(2) by simp
  then show "length q + 1 \<le> j - i" by simp
  have i: "j - length q - 1 = i + length a" using len by linarith
  have "s ! (j - length q - 1) = between s i j ! length a" unfolding i using len assms(2) by simp
  also have "\<dots> = 10" unfolding assms(1) by simp
  finally show "str_is_char_boundary s (j - length q - 1)" using len assms(2) by (auto simp: str_is_char_boundary_def boundary_iff)
qed

lemma backward_line:
  assumes "delivers c ps" "backward_at t c n" "concat (rev ps) = between (rope_text t) (rk_start c) (rk_offset c)"
  shows "\<exists>c' n' cur'. lines_loop True c cur = Some (last_line (concat (rev ps)) @ cur, c', cur', newlines (concat (rev ps)) = 0) \<and> backward_at t c' n' \<and> rk_start c' = rk_start c \<and>
    (0 < newlines (concat (rev ps)) \<longrightarrow> rk_offset c' = rk_offset c - length (last_line (concat (rev ps))) - 1)"
  using assms
proof (induction arbitrary: n cur rule: delivers.induct)
  case (exhausted c c')
  show ?case using next_peek [OF exhausted.hyps] exhausted.prems(1) by (subst lines_loop.simps) (auto simp: newlines_def last_line_def)
next
  case (delivered c p c' ps)
  let ?s = "rope_text t"
  have ne: "rk_offset c \<noteq> rk_start c" using backward_done [OF delivered.prems(1)] delivered.hyps(1) by auto
  obtain m d where m: "p = between ?s m (rk_offset c)" "c' = c\<lparr>rk_offset := m, rk_chunks := d\<rparr>" "backward_at t c' (n - 1)" "m \<le> rk_offset c" "rk_start c \<le> m"
    using backward_part [OF delivered.prems(1) ne refl] delivered.hyps(1) by auto
  have r: "rk_start c < rk_offset c" "rk_offset c \<le> length ?s" "rk_offset c \<le> rk_stop c"
    using delivered.prems(1) ne boundary_le [of ?s "rk_offset c"] by (auto simp: backward_at_def range_ok_def)
  note peek = next_peek [OF delivered.hyps(1)]
  show ?case
  proof (cases "newlines p = 0")
    case True
    have "concat (rev ps) @ p = between ?s (rk_start c) m @ p" using delivered.prems(2) m(1) between_append [OF m(5,4), of ?s] by simp
    then have "concat (rev ps) = between ?s (rk_start c) m" by (rule append_same_eq [THEN iffD1])
    then obtain e j cur' where e: "lines_loop True c' (p @ cur) = Some (last_line (concat (rev ps)) @ p @ cur, e, cur', newlines (concat (rev ps)) = 0)" "backward_at t e j" "rk_start e = rk_start c"
      "0 < newlines (concat (rev ps)) \<longrightarrow> rk_offset e = m - length (last_line (concat (rev ps))) - 1"
      using delivered.IH [OF m(3), of "p @ cur"] m(2) by auto
    have len: "length p = rk_offset c - m" using m(1) r(2) by simp
    have "lines_loop True c cur = Some (last_line (concat (rev ps)) @ p @ cur, e, cur', newlines (concat (rev ps)) = 0)"
      using peek delivered.hyps(1) e(1) no_newline [OF True] by (subst lines_loop.simps) simp
    moreover have "last_line p = p" using no_newline [OF True] by (simp add: last_line_def)
    ultimately show ?thesis using e(2-4) True len m(4) by (simp add: last_line_append newlines_append) blast
  next
    case False
    then obtain a where a: "p = a @ 10 # last_line p" using last_line_cut [of p] by auto
    let ?x = "rk_offset c - length (last_line p) - 1"
    have b: "between ?s m (rk_offset c) = a @ 10 # last_line p" using a m(1) by simp
    note bd = boundary_at_newline [OF b r(2)]
    have "?x = clamp ?x (rk_start c) (rk_stop c)" using bd(2) r m(5) by auto
    from backward_seek [OF delivered.prems(1) r(1) this bd(1)] obtain d j where
      d: "chunks_seek c ?x = Some (c\<lparr>rk_chunks := d, rk_offset := ?x\<rparr>)" "backward_at t (c\<lparr>rk_chunks := d, rk_offset := ?x\<rparr>) j" by blast
    have "length (last_line p) + 1 \<le> rk_offset c" using bd(2) m(4) by simp
    with d show ?thesis using peek False by (subst lines_loop.simps) (auto simp: last_line_append newlines_append many_lines Let_def simp flip: last_line_def)
  qed
qed

lemma forward_lines:
  assumes "forward_at t (ln_chunks l) k" "\<not> ln_done l" "\<not> ln_reversed l" "s = between (rope_text t) (rk_offset (ln_chunks l)) (rk_stop (ln_chunks l))"
  shows "collect_lines l acc = Some (acc @ split_newline s)"
  using assms
proof (induction "newlines s" arbitrary: l k s acc)
  case 0
  then obtain ps where ps: "delivers (ln_chunks l) ps" "concat ps = s" using forward_delivers by blast
  from forward_line [OF this(1) 0(2), of "[]"] this(2) 0 show ?case
    by (auto simp: lines_next_def no_newline collect_lines.simps [of l] collect_lines.simps [of "ln_done_update _ _"])
next
  case (Suc n)
  let ?c = "ln_chunks l"
  obtain ps where ps: "delivers ?c ps" "concat ps = s" using forward_delivers [OF Suc(3)] Suc(6) by blast
  obtain b where b: "s = hd (split_newline s) @ 10 # b" "split_newline s = hd (split_newline s) # split_newline b"
    using first_line_split [of s] Suc(2) by auto
  obtain c k' cur where c: "lines_loop False ?c [] = Some (hd (split_newline s), c, cur, False)" "forward_at t c k'" "rk_stop c = rk_stop ?c"
      "rk_offset c = rk_offset ?c + length (hd (split_newline s)) + 1"
    using forward_line [OF ps(1) Suc(3), of "[]"] ps(2) Suc(2,6) by auto
  have "drop (length (hd (split_newline s)) + 1) s = b" by (subst b(1)) simp
  then have "b = between (rope_text t) (rk_offset c) (rk_stop c)"
    using Suc(6) c(3,4) by (simp add: drop_take add.commute)
  moreover have "n = newlines b" using b(2) Suc(2) by (metis Suc_inject list.sel(3) length_Cons length_tl newlines_def diff_Suc_1 length_greater_0_conv split_newline_neq_Nil Suc_pred)
  ultimately have "collect_lines (l\<lparr>ln_chunks := c, ln_current_line := cur, ln_done := False\<rparr>) (acc @ [hd (split_newline s)]) = Some ((acc @ [hd (split_newline s)]) @ split_newline b)"
    using c(2) Suc(4,5) by (intro Suc(1)) auto
  then show ?case using c(1) Suc(4,5) b(2) by (subst collect_lines.simps) (simp add: lines_next_def)
qed

lemma backward_lines:
  assumes "backward_at t (ln_chunks l) n" "\<not> ln_done l" "ln_reversed l" "s = between (rope_text t) (rk_start (ln_chunks l)) (rk_offset (ln_chunks l))"
  shows "collect_lines l acc = Some (acc @ rev (split_newline s))"
  using assms
proof (induction "newlines s" arbitrary: l n s acc)
  case 0
  then obtain ps where ps: "delivers (ln_chunks l) ps" "concat (rev ps) = s" using backward_delivers by blast
  from backward_line [OF this(1) 0(2), of "[]"] this(2) 0 show ?case
    by (auto simp: lines_next_def no_newline last_line_def collect_lines.simps [of l] collect_lines.simps [of "ln_done_update _ _"])
next
  case (Suc m)
  let ?c = "ln_chunks l"
  obtain ps where ps: "delivers ?c ps" "concat (rev ps) = s" using backward_delivers [OF Suc(3)] Suc(6) by blast
  obtain a where a: "s = a @ 10 # last_line s" "split_newline s = split_newline a @ [last_line s]"
    using last_line_cut [of s] Suc(2) by auto
  obtain c k' cur where c: "lines_loop True ?c [] = Some (last_line s, c, cur, False)" "backward_at t c k'" "rk_start c = rk_start ?c"
      "rk_offset c = rk_offset ?c - length (last_line s) - 1"
    using backward_line [OF ps(1) Suc(3), of "[]"] ps(2) Suc(2,6) by auto
  have le: "rk_offset ?c \<le> length (rope_text t)" using Suc(3) boundary_le by (auto simp: backward_at_def range_ok_def)
  have len: "rk_offset ?c - rk_start ?c = length a + Suc (length (last_line s))" using arg_cong [OF a(1), of length] Suc(6) le by simp
  then have "rk_offset c - rk_start c = length a" "rk_offset c - rk_start c \<le> rk_offset ?c - rk_start ?c" using c(3,4) by simp_all
  moreover have "take (length a) s = a" by (subst a(1)) simp
  ultimately have "a = between (rope_text t) (rk_start c) (rk_offset c)" using Suc(6) c(3) by (metis min.absorb1 take_take)
  moreover have "m = newlines a" using a(2) Suc(2) by (simp add: newlines_def)
  ultimately have "collect_lines (l\<lparr>ln_chunks := c, ln_current_line := cur, ln_done := False\<rparr>) (acc @ [last_line s]) = Some ((acc @ [last_line s]) @ rev (split_newline a))"
    using c(2) Suc(4,5) by (intro Suc(1)) auto
  then show ?case using c(1) Suc(4,5) a(2) by (subst collect_lines.simps) (simp add: lines_next_def)
qed

lemma chunks_new_at:
  assumes "rope_ok t" "height t < STACK_CAPACITY" "i \<le> j" "str_is_char_boundary (rope_text t) i" "str_is_char_boundary (rope_text t) j"
  shows "\<exists>c k. chunks_in_range t i j = Some c \<and> forward_at t c k \<and> rk_start c = i \<and> rk_stop c = j \<and> rk_offset c = i"
    "\<exists>c n. reversed_chunks_in_range t i j = Some c \<and> backward_at t c n \<and> rk_start c = i \<and> rk_stop c = j \<and> rk_offset c = j"
proof -
  show "\<exists>c k. chunks_in_range t i j = Some c \<and> forward_at t c k \<and> rk_start c = i \<and> rk_stop c = j \<and> rk_offset c = i"
    using chunks_new_forward [OF assms] by (simp add: chunks_in_range_def)
  show "\<exists>c n. reversed_chunks_in_range t i j = Some c \<and> backward_at t c n \<and> rk_start c = i \<and> rk_stop c = j \<and> rk_offset c = j"
    using chunks_new_backward [OF assms] by (simp add: reversed_chunks_in_range_def)
qed

lemma chunks_seek_fields:
  assumes "chunks_seek c x = Some d"
  shows "rk_start c \<le> rk_stop c" "rk_start d = rk_start c" "rk_stop d = rk_stop c" "rk_reversed d = rk_reversed c" "rk_offset d = clamp x (rk_start c) (rk_stop c)"
  using assms unfolding chunks_seek_def Let_def rust_assert_def by (auto split: Option.bind_splits if_splits)

section \<open>A reversed iterator that has run off the start\<close>

lemma seek_forward_before:
  assumes "cursor_before len_dim d"
  shows "\<exists>f d'. cursor_seek_forward len_dim (ord_cmp x) b d = Some (f, d') \<and> cursor_item d' = Some None" "cursor_end len_dim d = Some 0"
proof -
  show "\<exists>f d'. cursor_seek_forward len_dim (ord_cmp x) b d = Some (f, d') \<and> cursor_item d' = Some None"
    using assms by (cases b) (auto simp: cursor_before_def cursor_seek_forward_def seek_internal_def cursor_end_def
        cursor_item_summary_def cursor_item_def cursor_start_def Let_def ord_cmp_def len_dim_def)
  show "cursor_end len_dim d = Some 0"
    using assms by (auto simp: cursor_before_def cursor_end_def cursor_item_summary_def cursor_start_def len_dim_def)
qed

lemma reversed_before:
  assumes "cursor_before len_dim (rk_chunks c)" "rk_reversed c" "rk_start c \<le> rk_stop c" "0 < x" "rk_start c < x" "x \<le> rk_stop c"
  shows "\<exists>c'. chunks_seek c x = Some c' \<and> rk_offset c' = x \<and> chunks_next c' = Some (None, c')"
proof -
  obtain f d where d: "cursor_seek_forward len_dim (ord_cmp x) Left (rk_chunks c) = Some (f, d)" "cursor_item d = Some None"
    using seek_forward_before(1) [OF assms(1)] by blast
  have x: "min (max x (rk_start c)) (rk_stop c) = x" using assms(5,6) by simp
  have "chunks_seek c x = Some (c\<lparr>rk_chunks := d, rk_offset := x\<rparr>)"
    unfolding chunks_seek_def Let_def x using assms(2-4) d(1) seek_forward_before(2) [OF assms(1)] by simp
  then show ?thesis using d(2) by (simp add: chunks_next_def chunks_peek_def)
qed

lemma last_part_before:
  assumes c: "backward_at t c 1" "rk_offset c \<noteq> rk_start c" "rk_start c = 0"
  shows "\<exists>d. chunks_next c = Some (Some (take (rk_offset c) (rope_text t)), c\<lparr>rk_offset := 0, rk_chunks := d\<rparr>) \<and> cursor_before len_dim d"
proof -
  have at: "rope_ok t" "height t < STACK_CAPACITY" "rk_reversed c" "on_chunk t (rk_chunks c) (rk_offset c) 0" "0 < length (tree_items t)" "rk_offset c \<le> length (rope_text t)"
    using c boundary_le by (auto simp: backward_at_def range_ok_def)
  obtain d where "cursor_prev len_dim (rk_chunks c) = Some d" "cursor_before len_dim d" using prev_on_chunk [OF at(1,2,4)] at(5) by auto
  then show ?thesis using backward_peek [OF c(1)] c at(3,6) on_chunk_item(2) [OF at(1,4)]
    by (auto simp: chunks_next_def chunks_advance_def chunk_pos_eq)
qed

lemma few_chunks:
  assumes "filled (tree_items t)" "length (rope_text t) < MIN_BASE - 3"
  shows "length (tree_items t) \<le> 1"
proof (rule ccontr)
  assume "\<not> ?thesis"
  then have "MIN_BASE \<le> length (ch_text (tree_items t ! 0)) + 3" "0 < length (tree_items t)" using assms(1) by (auto simp: filled_nth)
  then show False using chunk_split(2) [of 0 t] chunk_pos_le [of t 1] assms(2) by (simp add: chunk_pos_eq)
qed

section \<open>Bitmaps\<close>

lemma shr_marks_part:
  assumes "bit w = marks P s" "part = between s a b" "b \<le> length s" "length s \<le> 128" "i < length part"
  shows "bit (shr w a) i \<longleftrightarrow> P (part ! i)"
proof -
  have "a + i < b" using assms(2,3,5) by simp
  then show ?thesis using assms by (simp add: shr_def bit_drop_bit_eq marks_def)
qed

definition bitmaps_of :: "chunk_bitmaps \<Rightarrow> str \<Rightarrow> bool" where
  "bitmaps_of b part \<longleftrightarrow> cb_text b = part \<and> (\<forall>i < length part. bit (cb_chars b) i = is_utf8_char_boundary (part ! i) \<and>
     bit (cb_tabs b) i = (part ! i = 9) \<and> bit (cb_newlines b) i = (part ! i = 10))"

lemma peek_bitmaps:
  assumes peek: "chunks_peek c = Some part" and ok: "\<And>ch. part \<noteq> None \<Longrightarrow> cursor_item (rk_chunks c) = Some (Some ch) \<Longrightarrow> chunk_ok ch"
  shows "case part of None \<Rightarrow> peek_with_bitmaps c = Some None | Some p \<Rightarrow> \<exists>b. peek_with_bitmaps c = Some (Some b) \<and> bitmaps_of b p"
proof (cases part)
  case None
  with peek show ?thesis by (auto simp: chunks_peek_def peek_with_bitmaps_def split: option.splits if_splits Option.bind_splits)
next
  case (Some p)
  then obtain ch x y where ch: "offset_is_valid c" "cursor_item (rk_chunks c) = Some (Some ch)" "chunks_slice_range c = Some (x, y)" "str_slice (ch_text ch) x y = Some p"
    using peek by (auto simp: chunks_peek_def split: option.splits if_splits Option.bind_splits)
  have c: "length (ch_text ch) \<le> 128" "bit (ch_chars ch) = marks is_utf8_char_boundary (ch_text ch)" "bit (ch_newlines ch) = marks (\<lambda>b. b = 10) (ch_text ch)"
    "bit (ch_tabs ch) = marks (\<lambda>b. b = 9) (ch_text ch)" using ok [OF _ ch(2)] Some by (simp_all add: chunk_ok_def)
  have p: "p = between (ch_text ch) x y" "y \<le> length (ch_text ch)"
    using ch(4) boundary_le [of "ch_text ch" y] by (auto simp: str_slice_def split: if_splits)
  note sh = shr_marks_part [OF _ p c(1)]
  show ?thesis using Some ch sh [OF c(2)] sh [OF c(3)] sh [OF c(4)] by (simp add: peek_with_bitmaps_def bitmaps_of_def)
qed

section \<open>Properties\<close>

text \<open>
  C22. The lines of a rope are the lines of its text: over a range between character boundaries, the line iterator returns exactly what
  splitting the text of the range at its newlines gives (the last line also when it is empty), and the
  reversed iterator the same from the last to the first, wherever the chunks cut the lines. Neither panics, and both end.
\<close>

theorem rope_lines_split:
  assumes "rope_ok t" "height t < STACK_CAPACITY" "i \<le> j" "str_is_char_boundary (rope_text t) i" "str_is_char_boundary (rope_text t) j"
  shows "(\<exists>c. chunks_in_range t i j = Some c \<and> collect_lines (chunks_lines c) [] = Some (split_newline (take (j - i) (drop i (rope_text t)))))
    \<and> (\<exists>c. reversed_chunks_in_range t i j = Some c \<and> collect_lines (chunks_lines c) [] = Some (rev (split_newline (take (j - i) (drop i (rope_text t))))))"
proof
  obtain c k where c: "chunks_in_range t i j = Some c" "forward_at t c k" "rk_start c = i" "rk_stop c = j" "rk_offset c = i"
    using chunks_new_at(1) [OF assms] by blast
  then show "\<exists>c. chunks_in_range t i j = Some c \<and> collect_lines (chunks_lines c) [] = Some (split_newline (take (j - i) (drop i (rope_text t))))"
    using forward_lines [of t "chunks_lines c" k _ "[]"] by (auto simp: chunks_lines_def forward_at_def)
  obtain d n where d: "reversed_chunks_in_range t i j = Some d" "backward_at t d n" "rk_start d = i" "rk_stop d = j" "rk_offset d = j"
    using chunks_new_at(2) [OF assms] by blast
  then show "\<exists>c. reversed_chunks_in_range t i j = Some c \<and> collect_lines (chunks_lines c) [] = Some (rev (split_newline (take (j - i) (drop i (rope_text t)))))"
    using backward_lines [of t "chunks_lines d" n _ "[]"] by (auto simp: chunks_lines_def backward_at_def)
qed

theorem rope_lines_split_witness:
  "\<exists>t c. rope_from [97, 10, 98, 10] = Some t \<and> reversed_chunks_in_range t 0 4 = Some c \<and> collect_lines (chunks_lines c) [] = Some [[], [98], [97]]"
proof -
  have v: "valid_utf8 [97, 10, 98, 10]" by code_simp
  obtain t where t: "rope_from [97, 10, 98, 10] = Some t" "rope_with t [97, 10, 98, 10] 1 True"
    using rope_from_correct [OF v, of 0] by (auto simp: TREE_BASE_def)
  then have ok: "rope_text t = [97, 10, 98, 10]" "rope_ok t" "height t < STACK_CAPACITY" by (auto simp: rope_with_def STACK_CAPACITY_def)
  then show ?thesis using t(1) rope_lines_split [OF ok(2,3), of 0 4] by (auto simp: str_is_char_boundary_def)
qed

text \<open>
  Seeking an iterator restarts it: from any state of a forward iterator, and from any state of a reversed one that has not
  reached the start of its range, \<open>seek\<close> to a character boundary (clamped to the range) does not panic, and what the iterator then
  delivers is the text from there to its end, or, reversed, from its start to there.
\<close>

theorem chunks_seek_restarts:
  assumes "forward_at t c k \<or> (backward_at t c k \<and> rk_start c < rk_offset c)"
    and "str_is_char_boundary (rope_text t) (min (max x (rk_start c)) (rk_stop c))"
  shows "\<exists>c' ps. chunks_seek c x = Some c' \<and> rk_offset c' = min (max x (rk_start c)) (rk_stop c) \<and> collect_chunks c' [] = Some ps \<and>
    (if rk_reversed c then concat (rev ps) = take (rk_offset c' - rk_start c) (drop (rk_start c) (rope_text t))
     else concat ps = take (rk_stop c - rk_offset c') (drop (rk_offset c') (rope_text t)))"
  using assms(1)
proof
  assume c: "forward_at t c k"
  from forward_seek [OF this refl assms(2)] obtain d k' where
    d: "chunks_seek c x = Some (c\<lparr>rk_chunks := d, rk_offset := clamp x (rk_start c) (rk_stop c)\<rparr>)" (is "_ = Some ?c'")
      "forward_at t (c\<lparr>rk_chunks := d, rk_offset := clamp x (rk_start c) (rk_stop c)\<rparr>) k'" by blast
  obtain ps where ps: "delivers ?c' ps" "concat ps = between (rope_text t) (rk_offset ?c') (rk_stop ?c')" using forward_delivers [OF d(2)] by blast
  have "\<not> rk_reversed c" using c by (simp add: forward_at_def)
  with d(1) ps collect_delivers [OF ps(1), of "[]"] show ?thesis by (intro exI [of _ ?c'] exI [of _ ps]) simp
next
  assume c: "backward_at t c k \<and> rk_start c < rk_offset c"
  from backward_seek [OF _ _ refl assms(2)] c obtain d k' where
    d: "chunks_seek c x = Some (c\<lparr>rk_chunks := d, rk_offset := clamp x (rk_start c) (rk_stop c)\<rparr>)" (is "_ = Some ?c'")
      "backward_at t (c\<lparr>rk_chunks := d, rk_offset := clamp x (rk_start c) (rk_stop c)\<rparr>) k'" by blast
  obtain ps where ps: "delivers ?c' ps" "concat (rev ps) = between (rope_text t) (rk_start ?c') (rk_offset ?c')" using backward_delivers [OF d(2)] by blast
  have "rk_reversed c" using c by (simp add: backward_at_def)
  with d(1) ps collect_delivers [OF ps(1), of "[]"] show ?thesis by (intro exI [of _ ?c'] exI [of _ ps]) simp
qed

theorem chunks_seek_restarts_witness:
  "\<exists>t c c' ps. rope_from [97, 98, 99] = Some t \<and> chunks_in_range t 0 3 = Some c \<and> chunks_seek c 1 = Some c' \<and> collect_chunks c' [] = Some ps \<and> concat ps = [98, 99]"
proof -
  have v: "valid_utf8 [97, 98, 99]" by code_simp
  obtain t where t: "rope_from [97, 98, 99] = Some t" "rope_with t [97, 98, 99] 1 True"
    using rope_from_correct [OF v, of 0] by (auto simp: TREE_BASE_def)
  then have ok: "rope_text t = [97, 98, 99]" "rope_ok t" "height t < STACK_CAPACITY" by (auto simp: rope_with_def STACK_CAPACITY_def)
  have "str_is_char_boundary [97, 98, 99] 1" by code_simp
  then have b: "str_is_char_boundary (rope_text t) 0" "str_is_char_boundary (rope_text t) 3" "str_is_char_boundary (rope_text t) 1"
    using ok(1) by (simp_all add: str_is_char_boundary_def)
  obtain c k where c: "chunks_in_range t 0 3 = Some c" "forward_at t c k" "rk_start c = 0" "rk_stop c = 3" "rk_offset c = 0"
    using chunks_new_at(1) [OF ok(2,3) _ b(1,2)] by auto
  then show ?thesis using t(1) ok(1) b(3) chunks_seek_restarts [of t c k 1] by (auto simp: forward_at_def)
qed

text \<open>
  A reversed iterator that has delivered the first part of the text is stuck: after it every \<open>seek\<close> back into its range succeeds
  and sets the offset, but the iterator then delivers nothing, although the same seek before that part would have
  delivered the text up to the offset; and \<open>set_range\<close>, which seeks the start of the new range, leaves a
  reversed iterator with nothing to deliver.
\<close>

theorem reversed_seek_stuck:
  assumes "backward_at t c 1" "rk_start c = 0" "0 < x" "x \<le> rk_offset c"
  shows "(\<exists>p c1 c2. chunks_next c = Some (Some p, c1) \<and> chunks_seek c1 x = Some c2 \<and> rk_offset c2 = x \<and> chunks_next c2 = Some (None, c2))
    \<and> (\<forall>d i j. chunks_set_range c i j = Some d \<longrightarrow> chunks_next d = Some (None, d))"
proof
  have r: "rk_reversed c" "rk_offset c \<le> rk_stop c" using assms(1) by (simp_all add: backward_at_def range_ok_def)
  obtain d where d: "chunks_next c = Some (Some (take (rk_offset c) (rope_text t)), c\<lparr>rk_offset := 0, rk_chunks := d\<rparr>)" "cursor_before len_dim d"
    using last_part_before [OF assms(1) _ assms(2)] assms(2-4) by auto
  with reversed_before [of "c\<lparr>rk_offset := 0, rk_chunks := d\<rparr>" x] assms(2-4) r
  show "\<exists>p c1 c2. chunks_next c = Some (Some p, c1) \<and> chunks_seek c1 x = Some c2 \<and> rk_offset c2 = x \<and> chunks_next c2 = Some (None, c2)" by auto
  show "\<forall>d i j. chunks_set_range c i j = Some d \<longrightarrow> chunks_next d = Some (None, d)"
  proof (intro allI impI)
    fix d i j assume "chunks_set_range c i j = Some d"
    then show "chunks_next d = Some (None, d)"
      using chunks_seek_fields [of "c\<lparr>rk_start := i, rk_stop := j\<rparr>" i d] r(1) by (simp add: chunks_set_range_def chunks_next_def chunks_peek_def offset_is_valid_def)
  qed
qed

theorem reversed_seek_stuck_witness:
  "\<exists>t c p c1 c2. rope_from [97, 98] = Some t \<and> reversed_chunks_in_range t 0 2 = Some c \<and> chunks_next c = Some (Some p, c1) \<and>
    chunks_seek c1 2 = Some c2 \<and> chunks_next c2 = Some (None, c2)"
proof -
  have v: "valid_utf8 [97, 98]" by code_simp
  obtain t where t: "rope_from [97, 98] = Some t" "rope_with t [97, 98] 1 True"
    using rope_from_correct [OF v, of 0] by (auto simp: TREE_BASE_def)
  then have ok: "rope_text t = [97, 98]" "rope_ok t" "height t < STACK_CAPACITY" "filled (tree_items t)" by (auto simp: rope_with_def STACK_CAPACITY_def)
  have "str_is_char_boundary (rope_text t) 0" "str_is_char_boundary (rope_text t) 2" using ok(1) by (simp_all add: str_is_char_boundary_def)
  then obtain c n where c: "reversed_chunks_in_range t 0 2 = Some c" "backward_at t c n" "rk_start c = 0" "rk_offset c = 2"
    using chunks_new_at(2) [OF ok(2,3), of 0 2] by auto
  have "length (tree_items t) \<le> 1" using few_chunks [OF ok(4)] ok(1) by (simp add: MIN_BASE_def MAX_BASE_def)
  then have "n = 1" using c(2-4) by (auto simp: backward_at_def)
  then show ?thesis using reversed_seek_stuck [of t c 2] c t(1) by auto
qed

text \<open>
  The bitmaps that an iterator delivers beside a part describe this part: iterating with bitmaps returns the same parts and moves in the same
  way as iterating without, and at every offset within the part the bits say whether a character starts
  there, whether it is a tab and whether it is a newline.
\<close>

theorem bitmaps_describe_parts:
  assumes "forward_at t c k \<or> backward_at t c k"
  shows "\<exists>part c'. chunks_next c = Some (part, c') \<and> (case part of None \<Rightarrow> bitmaps_next c = Some (None, c')
    | Some p \<Rightarrow> \<exists>b. bitmaps_next c = Some (Some b, c') \<and> cb_text b = p \<and> (\<forall>i < length p. bit (cb_chars b) i = is_utf8_char_boundary (p ! i) \<and>
       bit (cb_tabs b) i = (p ! i = 9) \<and> bit (cb_newlines b) i = (p ! i = 10)))"
proof -
  obtain ps where "delivers c ps" using assms forward_delivers backward_delivers by blast
  then obtain part c' where nx: "chunks_next c = Some (part, c')" by (cases rule: delivers.cases) auto
  have ok: "chunk_ok ch" if pn: "part \<noteq> None" "cursor_item (rk_chunks c) = Some (Some ch)" for ch
  proof -
    obtain j where j: "rope_ok t" "on_chunk t (rk_chunks c) (rk_offset c) j"
      using assms pn(1) nx backward_done [of t c k] by (auto simp: forward_at_def backward_at_def range_ok_def)
    show ?thesis using j(1) on_chunk_item(1) [OF j] pn(2) by (auto simp: rope_ok_def index_opt_def split: if_splits)
  qed
  note peek = next_peek [OF nx]
  have pb: "case part of None \<Rightarrow> peek_with_bitmaps c = Some None | Some p \<Rightarrow> \<exists>b. peek_with_bitmaps c = Some (Some b) \<and> bitmaps_of b p"
    by (rule peek_bitmaps [OF peek]) (rule ok)
  show ?thesis
  proof (cases part)
    case None
    then show ?thesis using nx peek pb by (auto simp: chunks_next_def bitmaps_next_def)
  next
    case (Some p)
    have adv: "chunks_advance c (length p) = Some c'" using nx peek Some by (auto simp: chunks_next_def split: Option.bind_splits)
    obtain b where b: "peek_with_bitmaps c = Some (Some b)" "bitmaps_of b p" using pb Some by auto
    then have "bitmaps_next c = Some (Some b, c')" using adv by (simp add: bitmaps_next_def bitmaps_of_def)
    with nx Some b(2) show ?thesis by (auto simp: bitmaps_of_def)
  qed
qed

theorem bitmaps_describe_parts_witness:
  "\<exists>t c b c'. rope_from [97, 9] = Some t \<and> chunks_in_range t 0 2 = Some c \<and> bitmaps_next c = Some (b, c')"
proof -
  have v: "valid_utf8 [97, 9]" by code_simp
  obtain t where t: "rope_from [97, 9] = Some t" "rope_with t [97, 9] 1 True" using rope_from_correct [OF v, of 0] by (auto simp: TREE_BASE_def)
  then have ok: "rope_text t = [97, 9]" "rope_ok t" "height t < STACK_CAPACITY" by (auto simp: rope_with_def STACK_CAPACITY_def)
  have "str_is_char_boundary (rope_text t) 0" "str_is_char_boundary (rope_text t) 2" using ok(1) by (simp_all add: str_is_char_boundary_def)
  then obtain c k where c: "chunks_in_range t 0 2 = Some c" "forward_at t c k" using chunks_new_at(1) [OF ok(2,3), of 0 2] by auto
  have "\<exists>b c'. bitmaps_next c = Some (b, c')" using bitmaps_describe_parts [of t c k] c(2) by (auto split: option.splits)
  with t(1) c(1) show ?thesis by blast
qed

end
