(* ===== verification/Rope_Motion.thy ===== *)
theory Rope_Motion
  imports Rope_Lines
begin

text \<open>
  The line motions of an iterator over the text of a rope: \<open>Chunks::next_line\<close> and \<open>Chunks::prev_line\<close> of
  \<open>crates/rope/src/rope.rs\<close>, which find newlines by searching the tree of chunk summaries.
\<close>

section \<open>Definitions\<close>

text \<open>\<open>str::find\<close> and \<open>str::rfind\<close> of a newline.\<close>

definition find_newline :: "str \<Rightarrow> nat option" where
  "find_newline s = (if 10 \<in> set s then Some (length (takeWhile (\<lambda>b. b \<noteq> 10) s)) else None)"

definition rfind_newline :: "str \<Rightarrow> nat option" where
  "rfind_newline s = (if 10 \<in> set s then Some (length s - 1 - length (takeWhile (\<lambda>b. b \<noteq> 10) (rev s))) else None)"

definition has_rows :: "chunk_summary \<Rightarrow> bool" where
  "has_rows s \<longleftrightarrow> 0 < row (ts_lines (cs_text s))"

definition newline_step :: "rope_chunks \<Rightarrow> nat \<Rightarrow> bool \<times> rope_chunks" where
  "newline_step c newline_ix = (let offset = rk_offset c + newline_ix + 1 in (offset \<le> rk_stop c, c\<lparr>rk_offset := offset\<rparr>))"

text \<open>The search for the next newline, with the current part at hand.\<close>

definition find_line_break :: "rope_chunks \<Rightarrow> str \<Rightarrow> (bool \<times> rope_chunks) option" where
  "find_line_break c chunk = (case find_newline chunk of
       Some newline_ix \<Rightarrow> Some (newline_step c newline_ix)
     | None \<Rightarrow> do {
         chunks \<leftarrow> search_forward len_dim has_rows (rk_chunks c);
         let c = c\<lparr>rk_chunks := chunks, rk_offset := cursor_start chunks\<rparr>;
         peeked \<leftarrow> chunks_peek c;
         case Option.bind peeked find_newline of
           Some newline_ix \<Rightarrow> Some (newline_step c newline_ix)
         | None \<Rightarrow> do { chunk_end \<leftarrow> cursor_end len_dim (rk_chunks c); Some (False, c\<lparr>rk_offset := chunk_end\<rparr>) }
       })"

definition step_off_chunk :: "rope_chunks \<Rightarrow> rope_chunks option" where
  "step_off_chunk c = do {
     chunk_end \<leftarrow> cursor_end len_dim (rk_chunks c);
     if rk_offset c = chunk_end then do { (_, c) \<leftarrow> chunks_next c; Some c } else Some c
   }"

definition clip_to_range :: "rope_chunks \<Rightarrow> rope_chunks option" where
  "clip_to_range c = (if rk_stop c < rk_offset c then do {
       let c = c\<lparr>rk_offset := min (rk_offset c) (rk_stop c)\<rparr>;
       (_, chunks) \<leftarrow> cursor_seek len_dim (ord_cmp (rk_offset c)) Right (rk_chunks c);
       Some (c\<lparr>rk_chunks := chunks\<rparr>)
     } else Some c)"

definition next_line :: "rope_chunks \<Rightarrow> (bool \<times> rope_chunks) option" where
  "next_line c = do {
     rust_assert (\<not> rk_reversed c);
     peeked \<leftarrow> chunks_peek c;
     (found, c) \<leftarrow> (case peeked of
         None \<Rightarrow> Some (False, c)
       | Some chunk \<Rightarrow> do { (found, c) \<leftarrow> find_line_break c chunk; c \<leftarrow> step_off_chunk c; Some (found, c) });
     c \<leftarrow> clip_to_range c;
     Some (found, c)
   }"

text \<open>\<open>prev_line\<close> first looks for a newline in the chunk before the offset; \<open>prev_line_near\<close> is what it finds there.\<close>

definition prev_line_near :: "rope_chunks \<Rightarrow> nat option option" where
  "prev_line_near c = do {
     item \<leftarrow> cursor_item (rk_chunks c);
     case item of
       None \<Rightarrow> Some None
     | Some chunk \<Rightarrow> do {
         rust_assert (cursor_start (rk_chunks c) < rk_offset c);
         let end_ix = rk_offset c - cursor_start (rk_chunks c);
         byte \<leftarrow> index_opt (ch_text chunk) (end_ix - 1);
         let end_ix = (if byte = 10 then end_ix - 1 else end_ix);
         head \<leftarrow> str_slice (ch_text chunk) 0 end_ix;
         Some (map_option (\<lambda>newline_ix. cursor_start (rk_chunks c) + newline_ix + 1) (rfind_newline head))
       }
   }"

definition prev_line_start :: "nat \<Rightarrow> rope_chunks \<Rightarrow> (bool \<times> rope_chunks) option" where
  "prev_line_start initial_offset c = do {
     item \<leftarrow> cursor_item (rk_chunks c);
     c \<leftarrow> (if \<not> offset_is_valid c \<or> item = None then do {
         let c = c\<lparr>rk_offset := rk_start c\<rparr>;
         (_, chunks) \<leftarrow> cursor_seek len_dim (ord_cmp (rk_offset c)) Right (rk_chunks c);
         Some (c\<lparr>rk_chunks := chunks\<rparr>)
       } else Some c);
     Some (rk_offset c < initial_offset \<and> rk_offset c = 0, c)
   }"

definition prev_line_far :: "nat \<Rightarrow> rope_chunks \<Rightarrow> (bool \<times> rope_chunks) option" where
  "prev_line_far initial_offset c = do {
     chunks \<leftarrow> search_backward len_dim has_rows (rk_chunks c);
     let c = c\<lparr>rk_chunks := chunks, rk_offset := cursor_start chunks\<rparr>;
     item \<leftarrow> cursor_item chunks;
     case Option.bind item (\<lambda>chunk. rfind_newline (ch_text chunk)) of
       Some newline_ix \<Rightarrow> do {
         let c = c\<lparr>rk_offset := rk_offset c + newline_ix + 1\<rparr>;
         if offset_is_valid c then do {
           chunk_end \<leftarrow> cursor_end len_dim chunks;
           chunks \<leftarrow> (if rk_offset c = chunk_end then cursor_next len_dim chunks else Some chunks);
           Some (True, c\<lparr>rk_chunks := chunks\<rparr>)
         } else prev_line_start initial_offset c
       }
     | None \<Rightarrow> prev_line_start initial_offset c
   }"

definition prev_line :: "rope_chunks \<Rightarrow> (bool \<times> rope_chunks) option" where
  "prev_line c = do {
     rust_assert (\<not> rk_reversed c);
     let initial_offset = rk_offset c;
     chunks \<leftarrow> (if rk_offset c = cursor_start (rk_chunks c) then cursor_prev len_dim (rk_chunks c) else Some (rk_chunks c));
     let c = c\<lparr>rk_chunks := chunks\<rparr>;
     near \<leftarrow> prev_line_near c;
     case near of
       Some offset \<Rightarrow> do {
         let c = c\<lparr>rk_offset := offset\<rparr>;
         if offset_is_valid c then Some (True, c) else prev_line_far initial_offset c
       }
     | None \<Rightarrow> prev_line_far initial_offset c
   }"

section \<open>Newlines\<close>

lemma newlines_zero_iff: "newlines s = 0 \<longleftrightarrow> 10 \<notin> set s"
  by (induction s) auto

lemma first_line_length: "length (takeWhile (\<lambda>b. b \<noteq> 10) s) = length (hd (split_newline s))"
proof (induction s)
  case (Cons x s)
  then show ?case by (cases "split_newline s") auto
qed simp

lemma find_newline_line: "find_newline s = (if newlines s = 0 then None else Some (length (hd (split_newline s))))"
  by (simp add: find_newline_def newlines_zero_iff first_line_length)

lemma has_rows_tree: "rope_ok t \<Longrightarrow> has_rows (summary t) \<longleftrightarrow> 0 < newlines (rope_text t)"
  using rope_summary_correct [of t] by (simp add: has_rows_def rope_summary_def summary_of_def Point_def)

lemma has_rows_chunk: "chunk_ok c \<Longrightarrow> has_rows (item_summary chunk_ops c) \<longleftrightarrow> 0 < newlines (ch_text c)"
  using slice_text_summary_correct [of c] by (simp add: has_rows_def chunk_ops_def chunk_summary_of.rep_eq summary_of_def Point_def)

lemma newlines_chunks: "0 < newlines (chunks_text cs) \<longleftrightarrow> (\<exists>c \<in> set cs. 0 < newlines (ch_text c))"
  unfolding neq0_conv [symmetric] newlines_zero_iff by (auto simp: chunks_text_def)

lemma covers_rows: "rope_ok t \<Longrightarrow> covers chunk_ops has_rows t"
proof (induction t)
  case (Internal h s cs ts)
  have "covers chunk_ops has_rows u \<and> ((\<exists>x \<in> set (tree_items u). has_rows (item_summary chunk_ops x)) \<longrightarrow> has_rows (summary u))" if u: "u \<in> set ts" for u
  proof -
    have ok: "rope_ok u" using Internal.prems u by (auto simp: rope_ok_def)
    show ?thesis using Internal.IH [OF u ok] ok has_rows_tree [OF ok] newlines_chunks [of "tree_items u"] has_rows_chunk
      by (auto simp: rope_text_def rope_ok_def)
  qed
  then show ?case by auto
qed simp

text \<open>The text between two chunks.\<close>

lemma between_chunks:
  assumes "i \<le> j"
  shows "between (rope_text t) (chunk_pos t i) (chunk_pos t j) = chunks_text (take (j - i) (drop i (tree_items t)))"
proof -
  have "tree_items t = take i (tree_items t) @ take (j - i) (drop i (tree_items t)) @ drop j (tree_items t)"
    using assms by (metis append_assoc append_take_drop_id le_add_diff_inverse take_add)
  then have t: "rope_text t = chunks_text (take i (tree_items t)) @ chunks_text (take (j - i) (drop i (tree_items t))) @ chunks_text (drop j (tree_items t))"
    unfolding rope_text_def by (metis chunks_text_simps(3))
  have "chunk_pos t j = chunk_pos t i + length (chunks_text (take (j - i) (drop i (tree_items t))))"
    using assms by (simp add: chunk_pos_eq flip: length_append chunks_text_simps(3) take_add)
  then show ?thesis unfolding t by (simp add: chunk_pos_eq)
qed

lemma search_rows:
  assumes t: "rope_ok t" "height t < STACK_CAPACITY" and d: "on_chunk t d off k" "k < length (tree_items t)"
  obtains d' k' where "search_forward len_dim has_rows d = Some d'" "on_chunk t d' (chunk_pos t k') k'" "k < k'" "cursor_start d' = chunk_pos t k'"
    "newlines (between (rope_text t) (chunk_pos t (Suc k)) (chunk_pos t k')) = 0" "k' < length (tree_items t) \<longrightarrow> 0 < newlines (ch_text (tree_items t ! k'))"
proof -
  let ?xs = "drop (Suc k) (tree_items t)"
  let ?n = "skipped chunk_ops has_rows ?xs"
  have at: "c_tree d = t" "c_did_seek d" "cursor_at chunk_ops len_dim d k" using d(1) by (simp_all add: on_chunk_def)
  have cov: "covers chunk_ops has_rows (c_tree d)" using covers_rows [OF t(1)] at(1) by simp
  have j: "Suc k = (if c_did_seek d \<and> k < length (tree_items (c_tree d)) then Suc k else k)" using at(1,2) d(2) by simp
  obtain d' where d': "search_forward len_dim has_rows d = Some d'" "c_tree d' = t" "c_did_seek d'" "cursor_at chunk_ops len_dim d' (Suc k + ?n)"
    using ch_len.search_forward_correct [OF wf_on_chunk [OF t d(1)] cov at(3) j, unfolded at(1)] by blast
  let ?k = "Suc k + ?n"
  have on: "on_chunk t d' (chunk_pos t ?k) ?k" using d' chunk_pos_mono [of ?k "Suc ?k" t] by (simp add: on_chunk_def)
  have take: "take ?n ?xs = takeWhile (\<lambda>x. \<not> has_rows (item_summary chunk_ops x)) ?xs" unfolding skipped_def by (rule takeWhile_eq_take [symmetric])
  have "\<not> 0 < newlines (chunks_text (take ?n ?xs))"
    unfolding newlines_chunks take using t(1) by (auto simp: rope_ok_def has_rows_chunk dest!: set_takeWhileD in_set_dropD)
  moreover have "0 < newlines (ch_text (tree_items t ! ?k))" if k: "?k < length (tree_items t)"
  proof -
    have "has_rows (item_summary chunk_ops (?xs ! ?n))" using k nth_length_takeWhile [of "\<lambda>x. \<not> has_rows (item_summary chunk_ops x)" ?xs] by (simp add: skipped_def)
    then show ?thesis using k t(1) by (simp add: rope_ok_def has_rows_chunk)
  qed
  ultimately show thesis using d'(1) on on_chunk_item(2) [OF t(1) on] between_chunks [of "Suc k" ?k t] by (intro that [of d' ?k]) auto
qed

section \<open>The next line\<close>

text \<open>The end of \<open>next_line\<close>: the iterator steps off the chunk that it has used up and back into its range.\<close>

lemma settle:
  assumes c: "rope_ok t" "height t < STACK_CAPACITY" "\<not> rk_reversed c" "rk_start c \<le> rk_stop c"
      "str_is_char_boundary (rope_text t) (rk_start c)" "str_is_char_boundary (rope_text t) (rk_stop c)" "rk_start c \<le> rk_offset c"
      "str_is_char_boundary (rope_text t) (rk_offset c)" "on_chunk t (rk_chunks c) (rk_offset c) k"
  shows "\<exists>c1 c' k'. step_off_chunk c = Some c1 \<and> clip_to_range c1 = Some c' \<and>
    forward_at t c' k' \<and> rk_offset c' = min (rk_offset c) (rk_stop c) \<and> rk_start c' = rk_start c \<and> rk_stop c' = rk_stop c"
proof -
  note item = on_chunk_item [OF c(1,9)] and w = wf_on_chunk [OF c(1,2,9)]
  have tree: "c_tree (rk_chunks c) = t" using c(9) by (simp add: on_chunk_def)
  consider "rk_stop c < rk_offset c" | "rk_offset c = rk_stop c" | "rk_offset c < rk_stop c" "rk_offset c \<noteq> chunk_pos t (Suc k)"
    | "rk_offset c < rk_stop c" "rk_offset c = chunk_pos t (Suc k)" by linarith
  then show ?thesis
  proof cases
    case 1
    then have nx: "chunks_next c = Some (None, c)" using c(3) by (simp add: chunks_next_def chunks_peek_def offset_is_valid_def)
    obtain f d k' where d: "cursor_seek len_dim (ord_cmp (rk_stop c)) Right (rk_chunks c) = Some (f, d)" "on_chunk t d (rk_stop c) k'"
      using seek_on_chunk [OF w tree boundary_le [OF c(6)], of Right] by blast
    have "forward_at t (c\<lparr>rk_offset := rk_stop c, rk_chunks := d\<rparr>) k'" using c d(2) by (simp add: forward_at_def range_ok_def)
    then show ?thesis using 1 nx d(1) item(3) by (intro exI [of _ c] exI [of _ "c\<lparr>rk_offset := rk_stop c, rk_chunks := d\<rparr>"] exI [of _ k']) (simp add: Let_def step_off_chunk_def clip_to_range_def)
  next
    case 2
    then have nx: "chunks_next c = Some (None, c)" using c(3) by (simp add: chunks_next_def chunks_peek_def offset_is_valid_def)
    have "forward_at t c k" using c 2 by (simp add: forward_at_def range_ok_def)
    then show ?thesis using 2 nx item(3) by (intro exI [of _ c] exI [of _ k]) (simp add: step_off_chunk_def clip_to_range_def)
  next
    case 3
    have "rk_offset c < chunk_pos t (Suc k)" using c(9) 3(2) by (simp add: on_chunk_def)
    then have "forward_at t c k" using c 3 by (simp add: forward_at_def range_ok_def)
    then show ?thesis using 3 item(3) by (intro exI [of _ c] exI [of _ k]) (simp add: step_off_chunk_def clip_to_range_def)
  next
    case 4
    have "on_range t c k" using c 4 by (simp add: on_range_def range_ok_def)
    from forward_step [OF this _ refl] 4 obtain d k' where
      d: "chunks_next c = Some (Some (between (rope_text t) (rk_offset c) (rk_offset c)), c\<lparr>rk_offset := rk_offset c, rk_chunks := d\<rparr>)" "forward_at t (c\<lparr>rk_offset := rk_offset c, rk_chunks := d\<rparr>) k'"
      by (auto simp: min_def)
    then show ?thesis using 4 item(3) by (intro exI [of _ "c\<lparr>rk_offset := rk_offset c, rk_chunks := d\<rparr>"] exI [of _ k']) (simp add: step_off_chunk_def clip_to_range_def)
  qed
qed

lemma part_newline:
  assumes c: "on_range t c k" "rk_offset c < rk_stop c" and p: "p = between (rope_text t) (rk_offset c) (min (chunk_pos t (Suc k)) (rk_stop c))" "0 < newlines p"
  shows "\<exists>c1 c' k'. newline_step c (length (hd (split_newline p))) = (True, c1) \<and> (\<exists>c2. step_off_chunk c1 = Some c2 \<and> clip_to_range c2 = Some c') \<and>
    forward_at t c' k' \<and> rk_offset c' = rk_offset c + length (hd (split_newline p)) + 1 \<and> rk_start c' = rk_start c \<and> rk_stop c' = rk_stop c"
proof -
  let ?o = "rk_offset c + length (hd (split_newline p)) + 1" and ?m = "min (chunk_pos t (Suc k)) (rk_stop c)"
  have r: "rope_ok t" "height t < STACK_CAPACITY" "\<not> rk_reversed c" "rk_start c \<le> rk_stop c" "str_is_char_boundary (rope_text t) (rk_start c)"
    "str_is_char_boundary (rope_text t) (rk_stop c)" "rk_start c \<le> rk_offset c" "str_is_char_boundary (rope_text t) (rk_offset c)" "on_chunk t (rk_chunks c) (rk_offset c) k"
    using c(1) by (auto simp: on_range_def range_ok_def)
  obtain q where q: "p = hd (split_newline p) @ 10 # q" using first_line_split [OF p(2)] by blast
  have bd: "str_is_char_boundary (rope_text t) ?o" using boundary_after_newline [OF r(1,8)] p(1) q by metis
  have "length p \<le> ?m - rk_offset c" unfolding p(1) by simp
  then have "length (hd (split_newline p)) + 1 \<le> ?m - rk_offset c" using arg_cong [OF q, of length] by simp
  then have o: "?o \<le> rk_stop c" "on_chunk t (rk_chunks c) ?o k" using r(9) by (auto simp: on_chunk_def)
  from settle [of t "c\<lparr>rk_offset := ?o\<rparr>" k] r bd o show ?thesis by (simp add: newline_step_def min_absorb1) blast
qed

lemma newlines_part: "j \<le> j' \<Longrightarrow> newlines (between s i j') = 0 \<Longrightarrow> newlines (between s i j) = 0"
  unfolding newlines_zero_iff using set_take_subset_set_take [OF diff_le_mono, of j j' i "drop i s"] by auto

lemma next_line_searches:
  assumes c: "on_range t c k" "rk_offset c < rk_stop c" and p: "p = between (rope_text t) (rk_offset c) (min (chunk_pos t (Suc k)) (rk_stop c))" "newlines p = 0"
    and s: "s = between (rope_text t) (rk_offset c) (rk_stop c)"
  shows "\<exists>c1 c2 c' k'. find_line_break c p = Some (0 < newlines s, c1) \<and> step_off_chunk c1 = Some c2 \<and> clip_to_range c2 = Some c' \<and> forward_at t c' k' \<and>
    rk_offset c' = (if newlines s = 0 then rk_stop c else rk_offset c + length (hd (split_newline s)) + 1) \<and> rk_start c' = rk_start c \<and> rk_stop c' = rk_stop c"
proof -
  have r: "rope_ok t" "height t < STACK_CAPACITY" "\<not> rk_reversed c" "rk_start c \<le> rk_stop c" "str_is_char_boundary (rope_text t) (rk_start c)"
    "str_is_char_boundary (rope_text t) (rk_stop c)" "rk_start c \<le> rk_offset c" "str_is_char_boundary (rope_text t) (rk_offset c)" "on_chunk t (rk_chunks c) (rk_offset c) k"
    using c(1) by (auto simp: on_range_def range_ok_def)
  note stop = boundary_le [OF r(6)]
  have k: "k < length (tree_items t)" using on_chunk_less [OF r(9) c(2) stop] .
  obtain d j where d: "search_forward len_dim has_rows (rk_chunks c) = Some d" "on_chunk t d (chunk_pos t j) j" "k < j" "cursor_start d = chunk_pos t j"
    "newlines (between (rope_text t) (chunk_pos t (Suc k)) (chunk_pos t j)) = 0" "j < length (tree_items t) \<longrightarrow> 0 < newlines (ch_text (tree_items t ! j))"
    by (rule search_rows [OF r(1,2,9) k])
  let ?c = "c\<lparr>rk_chunks := d, rk_offset := chunk_pos t j\<rparr>" and ?u = "between (rope_text t) (rk_offset c) (chunk_pos t j)"
  have pos: "rk_offset c \<le> chunk_pos t (Suc k)" "chunk_pos t (Suc k) \<le> chunk_pos t j" "chunk_pos t j \<le> chunk_pos t (Suc j)"
    using r(9) d(3) chunk_pos_mono [of "Suc k" j t] chunk_pos_mono [of j "Suc j" t] by (auto simp: on_chunk_def)
  have fb: "find_line_break c p = do {
      peeked \<leftarrow> chunks_peek ?c;
      case Option.bind peeked find_newline of Some newline_ix \<Rightarrow> Some (newline_step ?c newline_ix) | None \<Rightarrow> Some (False, ?c\<lparr>rk_offset := chunk_pos t (Suc j)\<rparr>) }"
    using p(2) d(1,4) on_chunk_item(3) [OF r(1) d(2)] by (simp add: find_line_break_def find_newline_line Let_def cong: option.case_cong)
  have away: ?thesis if z: "newlines s = 0" "find_line_break c p = Some (False, ?c\<lparr>rk_offset := chunk_pos t (Suc j)\<rparr>)" "rk_stop c \<le> chunk_pos t (Suc j)"
  proof -
    have "on_chunk t d (chunk_pos t (Suc j)) j" using d(2) pos(3) by (simp add: on_chunk_def)
    with settle [of t "?c\<lparr>rk_offset := chunk_pos t (Suc j)\<rparr>" j] r pos chunk_pos_boundary [OF r(1), of "Suc j"] z show ?thesis by (simp add: min_absorb2)
  qed
  show ?thesis
  proof (cases "chunk_pos t j < rk_stop c")
    case False
    have "newlines s = 0"
    proof (cases "rk_stop c \<le> chunk_pos t (Suc k)")
      case True
      then show ?thesis using p s by (simp add: min_absorb2)
    next
      case beyond: False
      then have "s = p @ between (rope_text t) (chunk_pos t (Suc k)) (rk_stop c)"
        using between_append [OF pos(1), of "rk_stop c" "rope_text t"] p(1) s by (simp add: min_absorb1)
      moreover have "newlines (between (rope_text t) (chunk_pos t (Suc k)) (rk_stop c)) = 0"
        by (rule newlines_part [OF _ d(5)]) (use False in simp)
      ultimately show ?thesis using p(2) by (simp add: newlines_append)
    qed
    moreover have "chunks_peek ?c = Some None" using False r(3) by (simp add: chunks_peek_def offset_is_valid_def)
    ultimately show ?thesis using away fb False pos(3) by simp
  next
    case True
    have j: "j < length (tree_items t)" using on_chunk_less [OF d(2) True stop] .
    have on: "on_range t ?c j" using r d(2) True pos chunk_pos_boundary [OF r(1), of j] by (simp add: on_range_def range_ok_def)
    let ?m = "min (chunk_pos t (Suc j)) (rk_stop c)"
    let ?q = "between (rope_text t) (chunk_pos t j) ?m"
    have peek: "chunks_peek ?c = Some (Some ?q)" using forward_peek [OF on] True by simp
    have "min (chunk_pos t (Suc k)) (rk_stop c) = chunk_pos t (Suc k)" using True pos(2) by simp
    then have "?u = p @ between (rope_text t) (chunk_pos t (Suc k)) (chunk_pos t j)" using between_append [OF pos(1,2), of "rope_text t"] p(1) by simp
    then have u: "newlines ?u = 0" using p(2) d(5) newlines_append by presburger
    have su: "s = ?u @ ?q @ between (rope_text t) ?m (rk_stop c)"
      using between_append [of "rk_offset c" "chunk_pos t j" "rk_stop c" "rope_text t"] between_append [of "chunk_pos t j" ?m "rk_stop c" "rope_text t"] pos True s by simp
    have len: "length ?u = chunk_pos t j - rk_offset c" using stop True by simp
    show ?thesis
    proof (cases "newlines ?q = 0")
      case False
      then have "find_line_break c p = Some (newline_step ?c (length (hd (split_newline ?q))))" using fb peek by (simp add: find_newline_line)
      moreover have "0 < newlines s" "hd (split_newline s) = ?u @ hd (split_newline ?q)"
        using False u su by (simp_all add: newlines_append first_line_append no_newline)
      moreover have "rk_offset c \<le> chunk_pos t j" using pos by simp
      ultimately show ?thesis using part_newline [OF on _ _ , of ?q] True False len by simp blast
    next
      case none: True
      have "rk_stop c < chunk_pos t (Suc j)"
      proof (rule ccontr)
        assume "\<not> ?thesis"
        then have "?q = ch_text (tree_items t ! j)" using between_chunks [of j "Suc j" t] j by (simp add: min_absorb1 take_Suc_conv_app_nth)
        with none d(6) j show False by simp
      qed
      moreover have "newlines s = 0" using calculation u su none by (simp add: newlines_append min_absorb2 newlines_zero_iff)
      ultimately show ?thesis using away fb peek none by (simp add: find_newline_line)
    qed
  qed
qed

section \<open>The previous line\<close>

definition line_start :: "str \<Rightarrow> nat" where
  "line_start s = length s - length (last_line s)"

lemma rfind_newline_line: "rfind_newline s = (if newlines s = 0 then None else Some (line_start s - 1))"
proof (cases "newlines s = 0")
  case False
  then obtain a where a: "s = a @ 10 # last_line s" using last_line_cut [of s] by auto
  have "takeWhile (\<lambda>b. b \<noteq> 10) (rev s) = rev (last_line s)"
    using last_line_split(3) [of s] by (subst a) (auto simp: takeWhile_tail takeWhile_append2)
  with False show ?thesis by (simp add: rfind_newline_def newlines_zero_iff line_start_def)
qed (simp add: rfind_newline_def newlines_zero_iff)

lemma line_start_append: "line_start (a @ b) = (if newlines b = 0 then line_start a else length a + line_start b)"
proof -
  have "length (last_line b) \<le> length b" using last_line_split(1,2) [of b] by (cases "newlines b = 0") (auto dest: arg_cong [of _ _ length])
  moreover have "newlines b = 0 \<Longrightarrow> last_line b = b" using last_line_split(1) by blast
  ultimately show ?thesis by (auto simp: line_start_def last_line_append)
qed

lemma line_start_pos: "0 < newlines s \<Longrightarrow> 0 < line_start s" "line_start s \<le> length s"
  using last_line_cut [of s] by (auto simp: line_start_def dest: arg_cong [of _ _ length])

text \<open>The cursor has run off the start of the tree.\<close>

definition at_start :: "rope \<Rightarrow> (chunk, chunk_summary, nat) cursor \<Rightarrow> bool" where
  "at_start t d \<longleftrightarrow> c_tree d = t \<and> c_did_seek d \<and> (cursor_before len_dim d \<or> (tree_is_empty t \<and> cursor_at chunk_ops len_dim d 0))"

lemma at_start_item:
  assumes "rope_ok t" "at_start t d"
  shows "cursor_item d = Some None" "cursor_start d = 0" "\<exists>d'. search_backward len_dim f d = Some d' \<and> at_start t d'"
proof -
  have d: "c_tree d = t" "c_did_seek d" "cursor_before len_dim d \<or> (tree_is_empty t \<and> cursor_at chunk_ops len_dim d 0)" using assms(2) by (simp_all add: at_start_def)
  have wf: "wf_tree chunk_ops t" using assms(1) by (simp add: rope_ok_def)
  have e: "tree_is_empty t \<Longrightarrow> tree_items t = []" using tree_is_empty_iff [OF wf] by simp
  show "cursor_item d = Some None"
    using d e cursor_item_correct [of chunk_ops len_dim d 0] by (auto simp: cursor_before_def cursor_item_def index_opt_def)
  show "cursor_start d = 0" using d cursor_at_position [of chunk_ops len_dim d 0]
    by (auto simp: cursor_before_def cursor_start_def pos_at_def len_dim_def)
  show "\<exists>d'. search_backward len_dim f d = Some d' \<and> at_start t d'"
    using d(3) ch_len.search_backward_before [of d f] ch_len.search_backward_empty [of d 0 f] d(1,2) wf assms(2) by (auto simp: at_start_def)
qed

lemma search_back_rows:
  assumes t: "rope_ok t" "height t < STACK_CAPACITY" and d: "on_chunk t d off k" "k < length (tree_items t)"
  obtains d' n where "search_backward len_dim has_rows d = Some d'" "n \<le> k" "newlines (between (rope_text t) (chunk_pos t n) (chunk_pos t k)) = 0"
    "if n = 0 then at_start t d' else on_chunk t d' (chunk_pos t (n - 1)) (n - 1) \<and> 0 < newlines (ch_text (tree_items t ! (n - 1)))"
proof -
  let ?xs = "take k (tree_items t)" and ?f = "\<lambda>x. \<not> has_rows (item_summary chunk_ops x)"
  let ?n = "kept chunk_ops has_rows ?xs"
  have at: "c_tree d = t" "c_did_seek d" "cursor_at chunk_ops len_dim d k" using d(1) by (simp_all add: on_chunk_def)
  have cov: "covers chunk_ops has_rows (c_tree d)" using covers_rows [OF t(1)] at(1) by simp
  have ne: "\<not> tree_is_empty (c_tree d)" using at(1) d(2) t(1) by (auto simp: rope_ok_def tree_is_empty_iff)
  have n: "?n = kept chunk_ops has_rows (take (if c_did_seek d then k else length (tree_items (c_tree d))) (tree_items (c_tree d)))" using at by simp
  obtain d' where d': "search_backward len_dim has_rows d = Some d'" "c_tree d' = t" "c_did_seek d'"
    "if ?n = 0 then cursor_before len_dim d' else cursor_at chunk_ops len_dim d' (?n - 1)"
    using ch_len.search_backward_correct [OF wf_on_chunk [OF t d(1)] cov at(3) ne n, unfolded at(1)] by blast
  have len: "length ?xs = k" using d(2) by simp
  have le: "?n \<le> k" using kept_le [of chunk_ops has_rows ?xs] len by simp
  have drop: "drop ?n ?xs = rev (takeWhile ?f (rev ?xs))"
    unfolding kept_def skipped_def by (metis length_rev rev_rev_ident rev_take takeWhile_eq_take)
  have "\<not> 0 < newlines (chunks_text (drop ?n ?xs))"
    unfolding newlines_chunks drop using t(1) by (auto simp: rope_ok_def has_rows_chunk dest!: set_takeWhileD in_set_takeD)
  moreover have "drop ?n ?xs = take (k - ?n) (drop ?n (tree_items t))" by (simp add: drop_take)
  ultimately have zero: "newlines (between (rope_text t) (chunk_pos t ?n) (chunk_pos t k)) = 0" using between_chunks [OF le, of t] by simp
  have "0 < newlines (ch_text (tree_items t ! (?n - 1)))" if pos: "?n \<noteq> 0"
  proof -
    let ?i = "length (takeWhile ?f (rev ?xs))"
    have i: "?n = k - ?i" "?i < length (rev ?xs)" using pos len by (simp_all add: kept_def skipped_def)
    then have "has_rows (item_summary chunk_ops (rev ?xs ! ?i))" using nth_length_takeWhile [of ?f "rev ?xs"] by blast
    moreover have "rev ?xs ! ?i = tree_items t ! (?n - 1)" using i len by (simp add: rev_nth)
    moreover have "?n - 1 < length (tree_items t)" using le d(2) by simp
    ultimately show ?thesis using t(1) by (simp add: rope_ok_def has_rows_chunk)
  qed
  moreover have "if ?n = 0 then at_start t d' else on_chunk t d' (chunk_pos t (?n - 1)) (?n - 1)"
    using d' chunk_pos_mono [of "?n - 1" "Suc (?n - 1)" t] by (simp add: at_start_def on_chunk_def split: if_splits)
  ultimately show thesis using d'(1) le zero by (intro that [of d' ?n]) auto
qed

lemma reset_to_start:
  assumes c: "rope_ok t" "height t < STACK_CAPACITY" "\<not> rk_reversed c" "rk_start c \<le> rk_stop c"
      "str_is_char_boundary (rope_text t) (rk_start c)" "str_is_char_boundary (rope_text t) (rk_stop c)" "c_tree (rk_chunks c) = t"
    and i: "cursor_item (rk_chunks c) = Some item" "\<not> offset_is_valid c \<or> item = None"
  shows "\<exists>c' k. prev_line_start initial c = Some (rk_start c < initial \<and> rk_start c = 0, c') \<and> forward_at t c' k \<and> rk_offset c' = rk_start c \<and> rk_start c' = rk_start c \<and> rk_stop c' = rk_stop c"
proof -
  have w: "wf_cursor chunk_ops (rk_chunks c)" using c(1,2,7) by (simp add: wf_cursor_def rope_ok_def)
  obtain f d k where d: "cursor_seek len_dim (ord_cmp (rk_start c)) Right (rk_chunks c) = Some (f, d)" "on_chunk t d (rk_start c) k"
    "k < length (tree_items t) \<longrightarrow> rk_start c < chunk_pos t (Suc k)"
    using seek_on_chunk [OF w c(7) boundary_le [OF c(5)], of Right] by blast
  have "rk_start c < rk_stop c \<longrightarrow> k < length (tree_items t)" using on_chunk_less [OF d(2) _ boundary_le [OF c(6)]] by simp
  then have "forward_at t (c\<lparr>rk_offset := rk_start c, rk_chunks := d\<rparr>) k" using c d(2,3) by (simp add: forward_at_def range_ok_def)
  then show ?thesis using i d(1)
    by (intro exI [of _ "c\<lparr>rk_offset := rk_start c, rk_chunks := d\<rparr>"] exI [of _ k]) (auto simp: prev_line_start_def Let_def)
qed

lemma line_start_boundary:
  assumes "rope_ok t" "0 < newlines (take m (rope_text t))"
  shows "str_is_char_boundary (rope_text t) (line_start (take m (rope_text t)))"
proof -
  let ?u = "take m (rope_text t)"
  obtain a where a: "?u = a @ 10 # last_line ?u" using last_line_cut [OF assms(2)] by blast
  have "line_start ?u = length a + 1" using arg_cong [OF a, of length] by (simp add: line_start_def)
  moreover have "between (rope_text t) 0 m = a @ 10 # last_line ?u" using a by simp
  ultimately show ?thesis using boundary_after_newline [OF assms(1), of 0 m a "last_line ?u"] by (simp add: str_is_char_boundary_def)
qed

text \<open>Where the motion ends, with the text \<open>u\<close> before the newline that ends the current line.\<close>

definition moved_back :: "rope \<Rightarrow> rope_chunks \<Rightarrow> nat \<Rightarrow> str \<Rightarrow> bool \<Rightarrow> rope_chunks \<Rightarrow> bool" where
  "moved_back t c initial u b c' \<longleftrightarrow> (\<exists>k. forward_at t c' k) \<and> rk_start c' = rk_start c \<and> rk_stop c' = rk_stop c \<and>
     (if 0 < newlines u \<and> rk_start c \<le> line_start u then b \<and> rk_offset c' = line_start u
      else b = (rk_start c < initial \<and> rk_start c = 0) \<and> rk_offset c' = rk_start c)"

lemma moved_back_offset: "moved_back t (c\<lparr>rk_offset := x\<rparr>) = moved_back t c" "moved_back t (c\<lparr>rk_chunks := d\<rparr>) = moved_back t c"
  by (intro ext; simp add: moved_back_def)+

lemma far_line_chunk:
  assumes c: "rope_ok t" "height t < STACK_CAPACITY" "\<not> rk_reversed c" "rk_start c \<le> rk_stop c"
      "str_is_char_boundary (rope_text t) (rk_start c)" "str_is_char_boundary (rope_text t) (rk_stop c)"
    and d: "on_chunk t (rk_chunks c) off k" "k < length (tree_items t)" and u: "u = take (chunk_pos t k) (rope_text t)" "chunk_pos t k < rk_stop c"
  shows "\<exists>b c'. prev_line_far initial c = Some (b, c') \<and> moved_back t c initial u b c'"
proof -
  obtain d' n where d': "search_backward len_dim has_rows (rk_chunks c) = Some d'" "n \<le> k" "newlines (between (rope_text t) (chunk_pos t n) (chunk_pos t k)) = 0"
    "if n = 0 then at_start t d' else on_chunk t d' (chunk_pos t (n - 1)) (n - 1) \<and> 0 < newlines (ch_text (tree_items t ! (n - 1)))"
    by (rule search_back_rows [OF c(1,2) d])
  have u0: "u = take (chunk_pos t n) (rope_text t) @ between (rope_text t) (chunk_pos t n) (chunk_pos t k)"
    using between_append [of 0 "chunk_pos t n" "chunk_pos t k" "rope_text t"] chunk_pos_mono [OF d'(2), of t] u(1) by simp
  show ?thesis
  proof (cases "n = 0")
    case True
    then have st: "at_start t d'" using d'(4) by simp
    note item = at_start_item [OF c(1) st]
    have z: "newlines u = 0" using u0 d'(3) True by (simp add: chunk_pos_eq)
    have "c_tree d' = t" using st by (simp add: at_start_def)
    with reset_to_start [of t "c\<lparr>rk_chunks := d', rk_offset := 0\<rparr>" None initial] c item obtain c' k' where
      "prev_line_start initial (c\<lparr>rk_chunks := d', rk_offset := 0\<rparr>) = Some (rk_start c < initial \<and> rk_start c = 0, c')" "forward_at t c' k'" "rk_offset c' = rk_start c" "rk_start c' = rk_start c" "rk_stop c' = rk_stop c"
      by auto
    then show ?thesis using d'(1) item z by (auto simp: prev_line_far_def Let_def moved_back_def)
  next
    case False
    let ?j = "n - 1" and ?ch = "ch_text (tree_items t ! (n - 1))"
    have j: "?j < length (tree_items t)" "Suc ?j = n" using False d'(2) d(2) by auto
    have on: "on_chunk t d' (chunk_pos t ?j) ?j" "0 < newlines ?ch" using d'(4) False by simp_all
    have pos: "chunk_pos t n = chunk_pos t ?j + length ?ch" "chunk_pos t n \<le> chunk_pos t k" using chunk_split(2) [OF j(1)] j(2) chunk_pos_mono [OF d'(2), of t] by simp_all
    have ch: "take (chunk_pos t n) (rope_text t) = take (chunk_pos t ?j) (rope_text t) @ ?ch"
      using between_append [of 0 "chunk_pos t ?j" "chunk_pos t n" "rope_text t"] between_chunks [of ?j n t] pos(1) j by (simp add: take_Suc_conv_app_nth)
    let ?o = "chunk_pos t ?j + line_start ?ch"
    have o: "line_start u = ?o" "0 < newlines u"
      using on(2) d'(3) chunk_pos_le [of t ?j] unfolding u0 ch by (simp_all add: line_start_append newlines_append min_absorb2)
    note ls = line_start_pos(1) [OF on(2)] line_start_pos(2) [of ?ch]
    let ?c = "c\<lparr>rk_chunks := d', rk_offset := ?o\<rparr>"
    have valid: "offset_is_valid ?c \<longleftrightarrow> rk_start c \<le> ?o" using c(3) u(2) ls pos by (auto simp: offset_is_valid_def)
    have bd: "str_is_char_boundary (rope_text t) ?o" using line_start_boundary [OF c(1), of "chunk_pos t k"] o u(1) by simp
    have item: "cursor_item d' = Some (Some (tree_items t ! ?j))" "cursor_start d' = chunk_pos t ?j" "cursor_end len_dim d' = Some (chunk_pos t n)"
      using on_chunk_item [OF c(1) on(1)] j by (simp_all add: index_opt_def)
    have far: "prev_line_far initial c = (if rk_start c \<le> ?o then do {
        chunks \<leftarrow> (if ?o = chunk_pos t n then cursor_next len_dim d' else Some d'); Some (True, ?c\<lparr>rk_chunks := chunks\<rparr>) } else prev_line_start initial ?c)"
      using d'(1) item on(2) ls valid by (simp add: prev_line_far_def rfind_newline_line Let_def)
    show ?thesis
    proof (cases "rk_start c \<le> ?o")
      case False
      have "c_tree d' = t" using on(1) by (simp add: on_chunk_def)
      with reset_to_start [of t ?c "Some (tree_items t ! ?j)" initial] c item valid False obtain c' k' where
        "prev_line_start initial ?c = Some (rk_start c < initial \<and> rk_start c = 0, c')" "forward_at t c' k'" "rk_offset c' = rk_start c" "rk_start c' = rk_start c" "rk_stop c' = rk_stop c"
        by auto
      then show ?thesis using far False o by (auto simp: moved_back_def)
    next
      case True
      have "\<exists>d k'. (if ?o = chunk_pos t n then cursor_next len_dim d' else Some d') = Some d \<and> on_chunk t d ?o k' \<and> (filled (tree_items t) \<longrightarrow> ?o < chunk_pos t (Suc k'))"
      proof (cases "?o = chunk_pos t n")
        case True
        then show ?thesis using next_on_chunk [OF c(1,2) on(1) j(1)] j(2) filled_pos [of t n] pos(2) u(2) boundary_le [OF c(6)] by auto
      next
        case False
        then have "on_chunk t d' ?o ?j" "?o < chunk_pos t n" using on(1) ls pos(1) j(2) by (auto simp: on_chunk_def)
        then show ?thesis using False j(2) by auto
      qed
      then obtain d k' where d: "(if ?o = chunk_pos t n then cursor_next len_dim d' else Some d') = Some d" "on_chunk t d ?o k'" "filled (tree_items t) \<longrightarrow> ?o < chunk_pos t (Suc k')" by blast
      have "forward_at t (?c\<lparr>rk_chunks := d\<rparr>) k'" using c d(2,3) bd True ls pos u(2) by (simp add: forward_at_def range_ok_def)
      then show ?thesis using far d(1) True o by (intro exI [of _ True] exI [of _ "?c\<lparr>rk_chunks := d\<rparr>"]) (auto simp: moved_back_def)
    qed
  qed
qed

text \<open>The text before the offset without the newline that ends it.\<close>

definition trim_newline :: "str \<Rightarrow> str" where
  "trim_newline s = (if s \<noteq> [] \<and> last s = 10 then butlast s else s)"

lemma near_line:
  assumes c: "rope_ok t" "on_chunk t (rk_chunks c) (rk_offset c) k" "k < length (tree_items t)" "chunk_pos t k < rk_offset c" "str_is_char_boundary (rope_text t) (rk_offset c)"
    and w: "w = between (rope_text t) (chunk_pos t k) (rk_offset c)"
  shows "prev_line_near c = Some (if newlines (trim_newline w) = 0 then None else Some (chunk_pos t k + line_start (trim_newline w)))"
proof -
  let ?s = "ch_text (tree_items t ! k)" and ?n = "rk_offset c - chunk_pos t k"
  have at: "rk_offset c \<le> chunk_pos t (Suc k)" using c(2) by (simp add: on_chunk_def)
  have n: "0 < ?n" "?n \<le> length ?s" using c(4) at chunk_split(2) [OF c(3)] by simp_all
  have ws: "w = take ?n ?s" using c(4) at chunk_split(2) [OF c(3)] w unfolding chunk_split(1) [OF c(3)] by (simp add: chunk_pos_eq)
  have bd: "str_is_char_boundary ?s ?n" using boundary_in_chunk [OF c(1,3) _ at] c(4,5) by simp
  have ne: "w \<noteq> []" using n ws by auto
  have last: "last w = ?s ! (?n - 1)" using last_conv_nth [OF ne] n by (simp add: ws min_absorb2)
  let ?m = "if ?s ! (?n - 1) = 10 then ?n - 1 else ?n"
  have trim: "trim_newline w = take ?m ?s" using last ne ws n by (simp add: trim_newline_def butlast_take)
  have "str_is_char_boundary ?s ?m" using bd n by (auto simp: str_is_char_boundary_def boundary_iff)
  then have "str_slice ?s 0 ?m = Some (trim_newline w)" using trim by (simp add: str_slice_def) (simp add: str_is_char_boundary_def)
  moreover have "?n - 1 < length ?s" using n by simp
  ultimately show ?thesis using on_chunk_item [OF c(1,2)] c(3,4) line_start_pos(1) [of "trim_newline w"]
    by (simp add: prev_line_near_def rfind_newline_line index_opt_def Let_def)
qed

lemma trim_line_start: "s \<noteq> [] \<Longrightarrow> line_start (trim_newline s) < length s"
proof (cases "last s = 10")
  case True
  assume "s \<noteq> []"
  with True show ?thesis using line_start_pos(2) [of "butlast s"] by (cases s rule: rev_cases) (auto simp: trim_newline_def)
next
  case False
  assume s: "s \<noteq> []"
  have "last_line s \<noteq> []"
  proof (cases "newlines s = 0")
    case True
    then show ?thesis using s last_line_split(1) [of s] by simp
  next
    case nl: False
    then obtain a where "s = a @ 10 # last_line s" using last_line_cut [of s] by auto
    then show ?thesis using False by (metis last_snoc)
  qed
  then show ?thesis using s False by (simp add: trim_newline_def line_start_def)
qed

lemma prev_line_inside:
  assumes c: "rope_ok t" "height t < STACK_CAPACITY" "\<not> rk_reversed c" "rk_start c \<le> rk_offset c" "rk_offset c \<le> rk_stop c"
      "str_is_char_boundary (rope_text t) (rk_start c)" "str_is_char_boundary (rope_text t) (rk_stop c)" "str_is_char_boundary (rope_text t) (rk_offset c)"
    and d: "on_chunk t (rk_chunks c) (rk_offset c) k" "k < length (tree_items t)" "chunk_pos t k < rk_offset c"
    and u: "u = trim_newline (take (rk_offset c) (rope_text t))"
  shows "\<exists>near b c'. prev_line_near c = Some near \<and> moved_back t c initial u b c' \<and>
    (case near of Some offset \<Rightarrow> if offset_is_valid (c\<lparr>rk_offset := offset\<rparr>) then Some (True, c\<lparr>rk_offset := offset\<rparr>) else prev_line_far initial (c\<lparr>rk_offset := offset\<rparr>)
     | None \<Rightarrow> prev_line_far initial c) = Some (b, c')"
proof -
  let ?w = "between (rope_text t) (chunk_pos t k) (rk_offset c)" and ?a = "take (chunk_pos t k) (rope_text t)"
  note le = boundary_le [OF c(8)]
  have near: "prev_line_near c = Some (if newlines (trim_newline ?w) = 0 then None else Some (chunk_pos t k + line_start (trim_newline ?w)))"
    by (rule near_line [OF c(1) d c(8) refl])
  have w: "take (rk_offset c) (rope_text t) = ?a @ ?w" "?w \<noteq> []" using between_append [of 0 "chunk_pos t k" "rk_offset c" "rope_text t"] d(3) le by simp_all
  then have ua: "u = ?a @ trim_newline ?w" using u by (auto simp: trim_newline_def butlast_append)
  have a: "length ?a = chunk_pos t k" using chunk_pos_le [of t k] by simp
  have far: "\<exists>b c'. prev_line_far initial (c\<lparr>rk_offset := x\<rparr>) = Some (b, c') \<and> moved_back t c initial ?a b c'" for x
    using far_line_chunk [of t "c\<lparr>rk_offset := x\<rparr>" "rk_offset c" k ?a initial] c d by (simp add: moved_back_offset)
  show ?thesis
  proof (cases "newlines (trim_newline ?w) = 0")
    case True
    then have "newlines u = newlines ?a" "line_start u = line_start ?a" unfolding ua by (simp_all add: newlines_append line_start_append)
    then have mu: "moved_back t c initial u = moved_back t c initial ?a" by (intro ext) (simp add: moved_back_def)
    obtain b c' where "prev_line_far initial c = Some (b, c')" "moved_back t c initial ?a b c'" using far [of "rk_offset c"] by auto
    then show ?thesis using near True mu by (intro exI [of _ None] exI [of _ b] exI [of _ c']) simp
  next
    case False
    let ?o = "chunk_pos t k + line_start (trim_newline ?w)" and ?c = "c\<lparr>rk_offset := chunk_pos t k + line_start (trim_newline ?w)\<rparr>"
    have o: "0 < newlines u" "line_start u = ?o" using False a unfolding ua by (simp_all add: newlines_append line_start_append)
    have less: "?o < rk_offset c" using trim_line_start [OF w(2)] le by simp
    show ?thesis
    proof (cases "rk_start c \<le> ?o")
      case True
      have "u = take (length u) (rope_text t)" using u by (auto simp: trim_newline_def butlast_conv_take min_def)
      then have bd: "str_is_char_boundary (rope_text t) ?o" using line_start_boundary [OF c(1), of "length u"] o by simp
      have "on_chunk t (rk_chunks c) ?o k" "?o < chunk_pos t (Suc k)" using d(1) less by (auto simp: on_chunk_def)
      then have "forward_at t ?c k" using c bd True less by (simp add: forward_at_def range_ok_def)
      moreover have "offset_is_valid ?c" using c(3,5) True less by (simp add: offset_is_valid_def)
      ultimately show ?thesis using near False o True by (intro exI [of _ "Some ?o"] exI [of _ True] exI [of _ ?c]) (auto simp: moved_back_def)
    next
      case early: False
      obtain b c' where b: "prev_line_far initial ?c = Some (b, c')" "moved_back t c initial ?a b c'" using far [of ?o] by blast
      have "\<not> rk_start c \<le> line_start ?a" using early line_start_pos(2) [of ?a] a by simp
      then have "moved_back t c initial u b c'" using b(2) early o by (simp add: moved_back_def)
      moreover have "\<not> offset_is_valid ?c" using c(3) early by (simp add: offset_is_valid_def)
      ultimately show ?thesis using near False b(1) by (intro exI [of _ "Some ?o"] exI [of _ b] exI [of _ c']) simp
    qed
  qed
qed

lemma prev_line_off_start:
  assumes c: "rope_ok t" "height t < STACK_CAPACITY" "\<not> rk_reversed c" "rk_start c \<le> rk_stop c"
      "str_is_char_boundary (rope_text t) (rk_start c)" "str_is_char_boundary (rope_text t) (rk_stop c)" and d: "at_start t (rk_chunks c)"
  shows "prev_line_near c = Some None" "\<exists>b c'. prev_line_far initial c = Some (b, c') \<and> moved_back t c initial [] b c'"
proof -
  show "prev_line_near c = Some None" using at_start_item(1) [OF c(1) d] by (simp add: prev_line_near_def)
  obtain d' where d': "search_backward len_dim has_rows (rk_chunks c) = Some d'" "at_start t d'" using at_start_item(3) [OF c(1) d] by blast
  note item = at_start_item [OF c(1) d'(2)]
  have "c_tree d' = t" using d'(2) by (simp add: at_start_def)
  with reset_to_start [of t "c\<lparr>rk_chunks := d', rk_offset := 0\<rparr>" None initial] c item obtain c' k' where
    "prev_line_start initial (c\<lparr>rk_chunks := d', rk_offset := 0\<rparr>) = Some (rk_start c < initial \<and> rk_start c = 0, c')" "forward_at t c' k'" "rk_offset c' = rk_start c" "rk_start c' = rk_start c" "rk_stop c' = rk_stop c"
    by auto
  then show "\<exists>b c'. prev_line_far initial c = Some (b, c') \<and> moved_back t c initial [] b c'"
    using d'(1) item by (auto simp: prev_line_far_def Let_def moved_back_def newlines_def)
qed

lemma prev_at_start:
  assumes t: "rope_ok t" "height t < STACK_CAPACITY" and d: "on_chunk t d off k" "k = 0 \<or> tree_items t = []"
  shows "\<exists>d'. cursor_prev len_dim d = Some d' \<and> at_start t d'"
proof (cases "tree_items t = []")
  case True
  have at: "c_tree d = t" "c_did_seek d" "cursor_at chunk_ops len_dim d k" using d(1) by (simp_all add: on_chunk_def)
  have wf: "wf_tree chunk_ops t" using t(1) by (simp add: rope_ok_def)
  have "tree_is_empty t" using tree_is_empty_iff [OF wf] True by simp
  then show ?thesis using ch_len.search_backward_empty [OF at(3), of "\<lambda>_. True"] at(1) wf by (auto simp: cursor_prev_def at_start_def)
next
  case False
  have at: "c_tree d = t" "c_did_seek d" "cursor_at chunk_ops len_dim d 0" using d False by (simp_all add: on_chunk_def)
  have "\<not> tree_is_empty (c_tree d)" using at(1) False t(1) by (auto simp: rope_ok_def tree_is_empty_iff)
  from ch_len.prev_correct [OF wf_on_chunk [OF t d(1)] at(3) this, of 0] at(1,2) show ?thesis by (auto simp: at_start_def)
qed

section \<open>Properties\<close>

text \<open>
  In a rope of fewer than \<open>2 ^ 32\<close> bytes, whose 32-bit row counts do not wrap, \<open>next_line\<close> moves an iterator to the next start of a line: from any state of a forward iterator it does not panic, and if there
  is a newline between the offset and the end of the range, it returns true and the offset is behind the first one; otherwise
  it returns false and the offset is the end of the range. The iterator it leaves is in order, so that all its other
  operations work from there.
\<close>

theorem next_line_moves:
  assumes "forward_at t c k" "s = take (rk_stop c - rk_offset c) (drop (rk_offset c) (rope_text t))" "length (rope_text t) < 2 ^ 32"
  shows "\<exists>c' k'. next_line c = Some (10 \<in> set s, c') \<and> forward_at t c' k' \<and> rk_start c' = rk_start c \<and> rk_stop c' = rk_stop c \<and>
    rk_offset c' = (if 10 \<in> set s then rk_offset c + length (takeWhile (\<lambda>b. b \<noteq> 10) s) + 1 else rk_stop c)"
proof -
  note on = forward_on_range [OF assms(1)]
  have nr: "\<not> rk_reversed c" using on by (simp add: on_range_def)
  have nl: "10 \<in> set s \<longleftrightarrow> 0 < newlines s" using newlines_zero_iff [of s] by auto
  show ?thesis
  proof (cases "rk_offset c = rk_stop c")
    case True
    then have "chunks_peek c = Some None" "s = []" using forward_peek [OF on] assms(2) by simp_all
    then show ?thesis using True nr assms(1) by (intro exI [of _ c] exI [of _ k]) (simp add: next_line_def clip_to_range_def)
  next
    case False
    let ?m = "min (chunk_pos t (Suc k)) (rk_stop c)"
    let ?p = "between (rope_text t) (rk_offset c) ?m"
    have less: "rk_offset c < rk_stop c" using on False by (simp add: on_range_def range_ok_def)
    have peek: "chunks_peek c = Some (Some ?p)" using forward_peek [OF on] False by simp
    have "\<exists>c1 c2 c' k'. find_line_break c ?p = Some (0 < newlines s, c1) \<and> step_off_chunk c1 = Some c2 \<and> clip_to_range c2 = Some c' \<and> forward_at t c' k' \<and>
      rk_offset c' = (if newlines s = 0 then rk_stop c else rk_offset c + length (hd (split_newline s)) + 1) \<and> rk_start c' = rk_start c \<and> rk_stop c' = rk_stop c"
    proof (cases "newlines ?p = 0")
      case True
      then show ?thesis by (rule next_line_searches [OF on less refl _ assms(2)])
    next
      case some: False
      have "rk_offset c \<le> ?m" using on less by (simp add: on_range_def on_chunk_def)
      then have "s = ?p @ between (rope_text t) ?m (rk_stop c)" using between_append [of "rk_offset c" ?m "rk_stop c" "rope_text t"] assms(2) by simp
      then have "0 < newlines s" "hd (split_newline s) = hd (split_newline ?p)" using some by (simp_all add: newlines_append first_line_append)
      then show ?thesis using part_newline [OF on less refl] some by (auto simp: find_line_break_def find_newline_line)
    qed
    then obtain c1 c2 c' k' where "find_line_break c ?p = Some (0 < newlines s, c1)" "step_off_chunk c1 = Some c2" "clip_to_range c2 = Some c'" "forward_at t c' k'"
      "rk_offset c' = (if newlines s = 0 then rk_stop c else rk_offset c + length (hd (split_newline s)) + 1)" "rk_start c' = rk_start c" "rk_stop c' = rk_stop c" by blast
    then show ?thesis using peek nr nl by (intro exI [of _ c'] exI [of _ k']) (simp add: next_line_def first_line_length)
  qed
qed

theorem next_line_moves_witness:
  "\<exists>t c c'. rope_from [97, 10, 98] = Some t \<and> chunks_in_range t 0 3 = Some c \<and> next_line c = Some (True, c') \<and> rk_offset c' = 2"
proof -
  have v: "valid_utf8 [97, 10, 98]" by code_simp
  obtain t where t: "rope_from [97, 10, 98] = Some t" "rope_with t [97, 10, 98] 1 True" using rope_from_correct [OF v, of 0] by (auto simp: TREE_BASE_def)
  then have ok: "rope_text t = [97, 10, 98]" "rope_ok t" "height t < STACK_CAPACITY" by (auto simp: rope_with_def STACK_CAPACITY_def)
  have "str_is_char_boundary (rope_text t) 0" "str_is_char_boundary (rope_text t) 3" using ok(1) by (simp_all add: str_is_char_boundary_def)
  then obtain c k where c: "chunks_in_range t 0 3 = Some c" "forward_at t c k" "rk_offset c = 0" "rk_stop c = 3" using chunks_new_at(1) [OF ok(2,3), of 0 3] by auto
  from next_line_moves [OF c(2) refl] c(3,4) ok(1) have "\<exists>c'. next_line c = Some (True, c') \<and> rk_offset c' = 2" by auto
  with t(1) c(1) show ?thesis by blast
qed

text \<open>
  In a rope of fewer than \<open>2 ^ 32\<close> bytes, \<open>prev_line\<close> moves an iterator back to the start of a line: with \<open>u\<close> the text before the offset, less the newline that ends it, the offset becomes the
  start of the last line of \<open>u\<close> and the result is true, provided that a newline precedes this line and that the start is within the range. Otherwise the
  iterator moves to the start of its range, and the result says whether this is the start of the text and the offset has changed. On a rope
  without empty chunks it does not panic, and it leaves the iterator in order.
\<close>

theorem prev_line_moves:
  assumes "forward_at t c k" "\<forall>ch \<in> set (tree_items t). ch_text ch \<noteq> []" "u = trim_newline (take (rk_offset c) (rope_text t))" "length (rope_text t) < 2 ^ 32"
  shows "\<exists>b c' k'. prev_line c = Some (b, c') \<and> forward_at t c' k' \<and> rk_start c' = rk_start c \<and> rk_stop c' = rk_stop c \<and>
    (if 10 \<in> set u \<and> rk_start c \<le> line_start u then b \<and> rk_offset c' = line_start u
     else b = (rk_start c = 0 \<and> 0 < rk_offset c) \<and> rk_offset c' = rk_start c)"
proof -
  have r: "rope_ok t" "height t < STACK_CAPACITY" "\<not> rk_reversed c" "rk_start c \<le> rk_offset c" "rk_offset c \<le> rk_stop c"
    "str_is_char_boundary (rope_text t) (rk_start c)" "str_is_char_boundary (rope_text t) (rk_stop c)" "str_is_char_boundary (rope_text t) (rk_offset c)"
    and on: "on_chunk t (rk_chunks c) (rk_offset c) k" using assms(1) by (simp_all add: forward_at_def range_ok_def)
  let ?stepped = "if rk_offset c = chunk_pos t k then cursor_prev len_dim (rk_chunks c) else Some (rk_chunks c)"
  have pl: "prev_line c = do { chunks \<leftarrow> ?stepped; let c1 = c\<lparr>rk_chunks := chunks\<rparr>; near \<leftarrow> prev_line_near c1;
      case near of Some offset \<Rightarrow> if offset_is_valid (c1\<lparr>rk_offset := offset\<rparr>) then Some (True, c1\<lparr>rk_offset := offset\<rparr>) else prev_line_far (rk_offset c) (c1\<lparr>rk_offset := offset\<rparr>)
      | None \<Rightarrow> prev_line_far (rk_offset c) c1 }"
    using r(3) on_chunk_item(2) [OF r(1) on] by (simp add: prev_line_def Let_def)
  have "\<exists>b c'. prev_line c = Some (b, c') \<and> moved_back t c (rk_offset c) u b c'"
  proof (cases "\<exists>d. ?stepped = Some d \<and> at_start t d \<and> rk_offset c = 0")
    case True
    then obtain d where d: "?stepped = Some d" "at_start t d" "rk_offset c = 0" by blast
    have "u = []" using assms(3) d(3) by (simp add: trim_newline_def)
    with prev_line_off_start(1) [of t "c\<lparr>rk_chunks := d\<rparr>"] prev_line_off_start(2) [of t "c\<lparr>rk_chunks := d\<rparr>" "rk_offset c"] r d show ?thesis by (auto simp: pl Let_def moved_back_offset)
  next
    case False
    have "\<exists>d j. ?stepped = Some d \<and> on_chunk t d (rk_offset c) j \<and> j < length (tree_items t) \<and> chunk_pos t j < rk_offset c"
    proof (cases "rk_offset c = chunk_pos t k")
      case True
      have "\<not> (k = 0 \<or> tree_items t = [])"
      proof
        assume a: "k = 0 \<or> tree_items t = []"
        then have "rk_offset c = 0" using True boundary_le [OF r(8)] by (auto simp: chunk_pos_eq rope_text_def)
        with prev_at_start [OF r(1,2) on a] True False show False by auto
      qed
      then have ne: "k \<noteq> 0" "tree_items t \<noteq> []" by auto
      then obtain d where d: "cursor_prev len_dim (rk_chunks c) = Some d" "on_chunk t d (chunk_pos t k) (k - 1)"
        using prev_on_chunk [OF r(1,2) on] by auto
      have j: "k - 1 < length (tree_items t)" "Suc (k - 1) = k" using ne cursor_at_le [of chunk_ops len_dim "rk_chunks c" k] on by (auto simp: on_chunk_def)
      then have "chunk_pos t (k - 1) < chunk_pos t k" using chunk_split(2) [OF j(1)] assms(2) by simp
      then show ?thesis using True d j by auto
    next
      case inside: False
      then have "chunk_pos t k < rk_offset c" using on by (simp add: on_chunk_def)
      moreover have "k < length (tree_items t)" using calculation boundary_le [OF r(8)] chunk_pos_end [of t k] by (cases "k < length (tree_items t)") auto
      ultimately show ?thesis using inside on by auto
    qed
    then obtain d j where d: "?stepped = Some d" "on_chunk t d (rk_offset c) j" "j < length (tree_items t)" "chunk_pos t j < rk_offset c" by blast
    with prev_line_inside [of t "c\<lparr>rk_chunks := d\<rparr>" j u "rk_offset c"] r assms(3) show ?thesis by (auto simp: pl Let_def moved_back_offset)
  qed
  then obtain b c' where b: "prev_line c = Some (b, c')" "moved_back t c (rk_offset c) u b c'" by blast
  moreover have "10 \<in> set u \<longleftrightarrow> 0 < newlines u" using newlines_zero_iff [of u] by auto
  moreover have "(rk_start c < rk_offset c \<and> rk_start c = 0) = (rk_start c = 0 \<and> 0 < rk_offset c)" by auto
  ultimately show ?thesis unfolding moved_back_def by metis
qed

theorem prev_line_moves_witness:
  "\<exists>t c c1 c2. rope_from [97, 10, 98] = Some t \<and> chunks_in_range t 0 3 = Some c \<and> chunks_seek c 3 = Some c1 \<and> prev_line c1 = Some (True, c2) \<and> rk_offset c2 = 2"
proof -
  have v: "valid_utf8 [97, 10, 98]" by code_simp
  obtain t where t: "rope_from [97, 10, 98] = Some t" "rope_with t [97, 10, 98] 1 True" using rope_from_correct [OF v, of 0] by (auto simp: TREE_BASE_def)
  then have ok: "rope_text t = [97, 10, 98]" "rope_ok t" "height t < STACK_CAPACITY" "filled (tree_items t)" by (auto simp: rope_with_def STACK_CAPACITY_def)
  have "length (tree_items t) \<le> 1" using few_chunks [OF ok(4)] ok(1) by (simp add: MIN_BASE_def MAX_BASE_def)
  then have ne: "\<forall>ch \<in> set (tree_items t). ch_text ch \<noteq> []" using ok(1) by (cases "tree_items t") (auto simp: rope_text_def)
  have bd: "str_is_char_boundary (rope_text t) 0" "str_is_char_boundary (rope_text t) 3" using ok(1) by (simp_all add: str_is_char_boundary_def)
  then obtain c k where c: "chunks_in_range t 0 3 = Some c" "forward_at t c k" "rk_stop c = 3" "rk_start c = 0" using chunks_new_at(1) [OF ok(2,3), of 0 3] by auto
  obtain d j where d: "chunks_seek c 3 = Some (c\<lparr>rk_chunks := d, rk_offset := 3\<rparr>)" "forward_at t (c\<lparr>rk_chunks := d, rk_offset := 3\<rparr>) j"
    using forward_seek [OF c(2), of 3 3] c(3,4) bd(2) by auto
  have "trim_newline (take 3 (rope_text t)) = [97, 10, 98]" "line_start [97, 10, 98] = 2" unfolding ok(1) by code_simp+
  with prev_line_moves [OF d(2) ne refl] c(4) ok(1) have "\<exists>c2. prev_line (c\<lparr>rk_chunks := d, rk_offset := 3\<rparr>) = Some (True, c2) \<and> rk_offset c2 = 2" by auto
  with t(1) c(1) d(1) show ?thesis by blast
qed

end
