(* ===== verification/Rope_Bytes.thy ===== *)
theory Rope_Bytes
  imports Rope_Chunks
begin

text \<open>
  Reading the bytes of a rope (\<open>Bytes\<close> of \<open>crates/rope/src/rope.rs\<close>): the iterator over the byte slices of a range, whose
  ends need not be character boundaries, and its implementation of \<open>io::Read\<close>, forward and reversed.
\<close>

section \<open>Definitions\<close>

record rope_bytes =
  by_chunks :: "(chunk, chunk_summary, nat) cursor"
  by_start :: nat
  by_stop :: nat
  by_reversed :: bool

definition bytes_new :: "rope \<Rightarrow> nat \<Rightarrow> nat \<Rightarrow> bool \<Rightarrow> rope_bytes option" where
  "bytes_new t start stop reversed = do {
     (_, chunks) \<leftarrow> (if reversed then cursor_seek len_dim (ord_cmp stop) Left (cursor_new len_dim t)
       else cursor_seek len_dim (ord_cmp start) Right (cursor_new len_dim t));
     Some \<lparr>by_chunks = chunks, by_start = start, by_stop = stop, by_reversed = reversed\<rparr>
   }"

definition bytes_peek :: "rope_bytes \<Rightarrow> str option option" where
  "bytes_peek b = do {
     item \<leftarrow> cursor_item (by_chunks b);
     case item of
       None \<Rightarrow> Some None
     | Some chunk \<Rightarrow> do {
         chunk_end \<leftarrow> cursor_end len_dim (by_chunks b);
         if by_reversed b \<and> chunk_end \<le> by_start b then Some None
         else do {
           let chunk_start = cursor_start (by_chunks b);
           if by_stop b \<le> chunk_start then Some None
           else do {
             let start = by_start b - chunk_start;
             let stop = min (length (ch_text chunk)) (by_stop b - chunk_start);
             rust_assert (start \<le> stop);
             Some (Some (between (ch_text chunk) start stop))
           }
         }
       }
   }"

definition bytes_step :: "rope_bytes \<Rightarrow> rope_bytes option" where
  "bytes_step b = do {
     chunks \<leftarrow> (if by_reversed b then cursor_prev len_dim (by_chunks b) else cursor_next len_dim (by_chunks b));
     Some (b\<lparr>by_chunks := chunks\<rparr>)
   }"

definition bytes_next :: "rope_bytes \<Rightarrow> (str option \<times> rope_bytes) option" where
  "bytes_next b = do {
     result \<leftarrow> bytes_peek b;
     b \<leftarrow> (if result \<noteq> None then bytes_step b else Some b);
     Some (result, b)
   }"

text \<open>\<open>read\<close> into a buffer of \<open>n\<close> bytes: what it writes into the buffer, whose length it returns.\<close>

definition bytes_read :: "nat \<Rightarrow> rope_bytes \<Rightarrow> (str \<times> rope_bytes) option" where
  "bytes_read n b = do {
     peeked \<leftarrow> bytes_peek b;
     case peeked of
       None \<Rightarrow> Some ([], b)
     | Some chunk \<Rightarrow> do {
         let len = min n (length chunk);
         let written = (if by_reversed b then rev (drop (length chunk - len) chunk) else take len chunk);
         rust_assert (\<not> by_reversed b \<or> len \<le> by_stop b);
         let b = (if by_reversed b then b\<lparr>by_stop := by_stop b - len\<rparr> else b\<lparr>by_start := by_start b + len\<rparr>);
         b \<leftarrow> (if len = length chunk then bytes_step b else Some b);
         Some (written, b)
       }
   }"

text \<open>What a loop over the slices sees, and what a loop of reads into a buffer of \<open>n\<close> bytes collects until a read returns nothing.\<close>

partial_function (option) collect_bytes :: "rope_bytes \<Rightarrow> str list \<Rightarrow> str list option" where
  "collect_bytes b acc = do {
     (part, b) \<leftarrow> bytes_next b;
     case part of None \<Rightarrow> Some acc | Some p \<Rightarrow> collect_bytes b (acc @ [p])
   }"

partial_function (option) read_to_end :: "nat \<Rightarrow> rope_bytes \<Rightarrow> str \<Rightarrow> str option" where
  "read_to_end n b acc = do {
     (written, b) \<leftarrow> bytes_read n b;
     if written = [] then Some acc else read_to_end n b (acc @ written)
   }"

section \<open>Forward\<close>

definition bytes_forward :: "rope \<Rightarrow> rope_bytes \<Rightarrow> nat \<Rightarrow> bool" where
  "bytes_forward t b k \<longleftrightarrow> rope_ok t \<and> height t < STACK_CAPACITY \<and> \<not> by_reversed b \<and> by_start b \<le> by_stop b \<and> by_stop b \<le> length (rope_text t) \<and>
     c_tree (by_chunks b) = t \<and> c_did_seek (by_chunks b) \<and> cursor_at chunk_ops len_dim (by_chunks b) k \<and> by_start b \<le> chunk_pos t (Suc k)"

lemma bytes_item:
  assumes "rope_ok t" "c_tree d = t" "c_did_seek d" "cursor_at chunk_ops len_dim d k"
  shows "cursor_item d = Some (index_opt (tree_items t) k)" "cursor_start d = chunk_pos t k" "cursor_end len_dim d = Some (chunk_pos t (Suc k))"
  using on_chunk_item [of t d "chunk_pos t k" k] assms chunk_pos_mono [of k "Suc k" t] by (simp_all add: on_chunk_def)

lemma slice_of_chunk:
  assumes "k < length (tree_items t)"
  shows "between (ch_text (tree_items t ! k)) (i - chunk_pos t k) (min (length (ch_text (tree_items t ! k))) (j - chunk_pos t k))
    = between (rope_text t) (max i (chunk_pos t k)) (min (chunk_pos t (Suc k)) j)"
proof -
  let ?a = "chunks_text (take k (tree_items t))" and ?b = "ch_text (tree_items t ! k)"
  have "max i (length ?a) - length ?a = i - length ?a" by simp
  then show ?thesis using chunk_split(2) [OF assms] unfolding chunk_split(1) [OF assms]
    by (auto simp: chunk_pos_eq min_def max_def not_le)
qed

lemma forward_bytes_peek:
  assumes b: "bytes_forward t b k"
  shows "bytes_peek b = Some (if k < length (tree_items t) \<and> chunk_pos t k < by_stop b
    then Some (between (rope_text t) (max (by_start b) (chunk_pos t k)) (min (chunk_pos t (Suc k)) (by_stop b))) else None)"
proof -
  have r: "rope_ok t" "\<not> by_reversed b" "by_start b \<le> by_stop b" "by_start b \<le> chunk_pos t (Suc k)"
    and at: "c_tree (by_chunks b) = t" "c_did_seek (by_chunks b)" "cursor_at chunk_ops len_dim (by_chunks b) k" using b by (simp_all add: bytes_forward_def)
  note item = bytes_item [OF r(1) at]
  show ?thesis
  proof (cases "k < length (tree_items t)")
    case True
    have "by_start b - chunk_pos t k \<le> min (length (ch_text (tree_items t ! k))) (by_stop b - chunk_pos t k)"
      using r(3,4) chunk_split(2) [OF True] by auto
    then show ?thesis using item r(2) True slice_of_chunk [OF True] by (auto simp: bytes_peek_def index_opt_def Let_def)
  next
    case False
    then show ?thesis using item(1) by (simp add: bytes_peek_def index_opt_def)
  qed
qed

lemma forward_bytes_step:
  assumes b: "bytes_forward t b k" "k < length (tree_items t)"
  shows "\<exists>d. bytes_step b = Some (b\<lparr>by_chunks := d\<rparr>) \<and> bytes_forward t (b\<lparr>by_chunks := d\<rparr>) (Suc k)"
proof -
  have r: "rope_ok t" "height t < STACK_CAPACITY" "\<not> by_reversed b" "by_start b \<le> chunk_pos t (Suc k)"
    and at: "c_tree (by_chunks b) = t" "c_did_seek (by_chunks b)" "cursor_at chunk_ops len_dim (by_chunks b) k" using b by (simp_all add: bytes_forward_def)
  have "on_chunk t (by_chunks b) (chunk_pos t k) k" using at chunk_pos_mono [of k "Suc k" t] by (simp add: on_chunk_def)
  from next_on_chunk [OF r(1,2) this b(2)] obtain d where d: "cursor_next len_dim (by_chunks b) = Some d" "on_chunk t d (chunk_pos t (Suc k)) (Suc k)" by blast
  have "by_start b \<le> chunk_pos t (Suc (Suc k))" using r(4) chunk_pos_mono [of "Suc k" "Suc (Suc k)" t] by simp
  then show ?thesis using d r(3) b(1) by (auto simp: bytes_step_def bytes_forward_def on_chunk_def)
qed

lemma forward_bytes_collect:
  assumes "bytes_forward t b k"
  shows "\<exists>ps. collect_bytes b acc = Some (acc @ ps) \<and> concat ps = between (rope_text t) (max (by_start b) (chunk_pos t k)) (by_stop b)"
  using assms
proof (induction "length (tree_items t) - k" arbitrary: b k acc rule: less_induct)
  case less
  note peek = forward_bytes_peek [OF less.prems]
  have r: "by_start b \<le> chunk_pos t (Suc k)" "by_stop b \<le> length (rope_text t)" using less.prems by (simp_all add: bytes_forward_def)
  show ?case
  proof (cases "k < length (tree_items t) \<and> chunk_pos t k < by_stop b")
    case True
    let ?p = "between (rope_text t) (max (by_start b) (chunk_pos t k)) (min (chunk_pos t (Suc k)) (by_stop b))"
    obtain d where d: "bytes_step b = Some (b\<lparr>by_chunks := d\<rparr>)" "bytes_forward t (b\<lparr>by_chunks := d\<rparr>) (Suc k)" using forward_bytes_step [OF less.prems] True by blast
    have "length (tree_items t) - Suc k < length (tree_items t) - k" using True by auto
    from less.hyps [OF this d(2), of "acc @ [?p]"] obtain ps where
      ps: "collect_bytes (b\<lparr>by_chunks := d\<rparr>) (acc @ [?p]) = Some ((acc @ [?p]) @ ps)" "concat ps = between (rope_text t) (max (by_start b) (chunk_pos t (Suc k))) (by_stop b)" by auto
    have "max (by_start b) (chunk_pos t (Suc k)) = chunk_pos t (Suc k)" "max (by_start b) (chunk_pos t k) \<le> chunk_pos t (Suc k)"
      using r(1) chunk_pos_mono [of k "Suc k" t] by simp_all
    then have "?p @ concat ps = between (rope_text t) (max (by_start b) (chunk_pos t k)) (by_stop b)"
      using ps(2) between_append [of "max (by_start b) (chunk_pos t k)" "chunk_pos t (Suc k)" "by_stop b" "rope_text t"] by (cases "chunk_pos t (Suc k) \<le> by_stop b") (simp_all add: min_absorb1 min_absorb2)
    moreover have "collect_bytes b acc = Some (acc @ ?p # ps)" using peek True d(1) ps(1) by (subst collect_bytes.simps) (simp add: bytes_next_def)
    ultimately show ?thesis by (intro exI [of _ "?p # ps"]) simp
  next
    case False
    then have "bytes_peek b = Some None" using peek by auto
    then have "bytes_next b = Some (None, b)" by (simp add: bytes_next_def)
    moreover have "by_stop b \<le> chunk_pos t k" using False r(2) chunk_pos_end [of t k] by (cases "k < length (tree_items t)") auto
    ultimately show ?thesis by (subst collect_bytes.simps) (simp add: max_def)
  qed
qed

text \<open>Reading: the start of the range moves along, and a read returns something while there is something left.\<close>

definition read_forward :: "rope \<Rightarrow> rope_bytes \<Rightarrow> nat \<Rightarrow> bool" where
  "read_forward t b k \<longleftrightarrow> bytes_forward t b k \<and> filled (tree_items t) \<and> (by_start b < by_stop b \<longrightarrow> chunk_pos t k \<le> by_start b \<and> by_start b < chunk_pos t (Suc k))"

lemma read_forward_step:
  assumes b: "read_forward t b k" "0 < n" "by_start b < by_stop b"
  shows "\<exists>b' k' m. bytes_read n b = Some (between (rope_text t) (by_start b) m, b') \<and> by_start b < m \<and> m \<le> by_stop b \<and> m \<le> by_start b + n \<and>
    by_start b' = m \<and> by_stop b' = by_stop b \<and> read_forward t b' k'"
proof -
  let ?e = "min (chunk_pos t (Suc k)) (by_stop b)" and ?s = "by_start b"
  define p where "p = between (rope_text t) ?s ?e"
  define m where "m = ?s + min n (length p)"
  have f: "bytes_forward t b k" "filled (tree_items t)" "chunk_pos t k \<le> ?s" "?s < chunk_pos t (Suc k)" "by_stop b \<le> length (rope_text t)" "\<not> by_reversed b"
    using b by (simp_all add: read_forward_def bytes_forward_def)
  have k: "k < length (tree_items t)" using f(3,5) b(3) chunk_pos_end [of t k] by (cases "k < length (tree_items t)") auto
  have len: "length p = ?e - ?s" using f(5) by (simp add: p_def)
  have peek: "bytes_peek b = Some (Some p)" using forward_bytes_peek [OF f(1)] k f(3) b(3) by (simp add: max_absorb1 p_def)
  have e: "?s < ?e" "?s < m" "m \<le> ?e" "m \<le> ?s + n" using b(2,3) f(4) len by (auto simp: m_def)
  have tk: "take (min n (length p)) p = between (rope_text t) ?s m" using len by (simp add: m_def p_def min_def)
  have rd: "bytes_read n b = do { b' \<leftarrow> (if min n (length p) = length p then bytes_step (b\<lparr>by_start := m\<rparr>) else Some (b\<lparr>by_start := m\<rparr>)); Some (between (rope_text t) ?s m, b') }"
    using peek f(6) tk by (simp add: bytes_read_def Let_def m_def)
  have fb: "bytes_forward t (b\<lparr>by_start := m\<rparr>) k" using f(1) e by (simp add: bytes_forward_def)
  have "\<exists>b' k'. bytes_read n b = Some (between (rope_text t) ?s m, b') \<and> by_start b' = m \<and> by_stop b' = by_stop b \<and> read_forward t b' k'"
  proof (cases "min n (length p) = length p")
    case True
    obtain d where d: "bytes_step (b\<lparr>by_start := m\<rparr>) = Some (b\<lparr>by_start := m, by_chunks := d\<rparr>)" "bytes_forward t (b\<lparr>by_start := m, by_chunks := d\<rparr>) (Suc k)"
      using forward_bytes_step [OF fb k] by blast
    have "m = ?e" using True len e(1) by (simp add: m_def)
    then have "read_forward t (b\<lparr>by_start := m, by_chunks := d\<rparr>) (Suc k)"
      using d(2) f(2,5) filled_pos [OF f(2), of "Suc k"] by (auto simp: read_forward_def min_def split: if_splits)
    then show ?thesis unfolding rd if_P [OF True] using d(1) by (intro exI [of _ "b\<lparr>by_start := m, by_chunks := d\<rparr>"] exI [of _ "Suc k"]) simp
  next
    case False
    then have "m < ?e" using len e(1) by (auto simp: m_def)
    then have "read_forward t (b\<lparr>by_start := m\<rparr>) k" using fb f(2,3) e(2) by (simp add: read_forward_def)
    then show ?thesis unfolding rd if_not_P [OF False] by (intro exI [of _ "b\<lparr>by_start := m\<rparr>"] exI [of _ k]) simp
  qed
  then show ?thesis using e by auto
qed

lemma read_forward_all:
  assumes "read_forward t b k" "0 < n"
  shows "read_to_end n b acc = Some (acc @ between (rope_text t) (by_start b) (by_stop b))"
  using assms(1)
proof (induction "by_stop b - by_start b" arbitrary: b k acc rule: less_induct)
  case less
  show ?case
  proof (cases "by_start b < by_stop b")
    case True
    obtain b' k' m where r: "bytes_read n b = Some (between (rope_text t) (by_start b) m, b')" "by_start b < m" "m \<le> by_stop b"
      "by_start b' = m" "by_stop b' = by_stop b" "read_forward t b' k'" using read_forward_step [OF less.prems assms(2) True] by blast
    have ne: "between (rope_text t) (by_start b) m \<noteq> []" using r(2,3) less.prems by (auto simp: read_forward_def bytes_forward_def)
    have "by_stop b' - by_start b' < by_stop b - by_start b" using r(2-5) True by simp
    from less.hyps [OF this r(6)] have IH: "read_to_end n b' (acc @ between (rope_text t) (by_start b) m) = Some ((acc @ between (rope_text t) (by_start b) m) @ between (rope_text t) m (by_stop b))"
      using r(4,5) by simp
    have "read_to_end n b acc = read_to_end n b' (acc @ between (rope_text t) (by_start b) m)" using r(1) ne by (subst read_to_end.simps) simp
    with IH between_append [of "by_start b" m "by_stop b" "rope_text t"] r(2,3) show ?thesis by simp
  next
    case False
    have f: "bytes_forward t b k" "by_start b \<le> by_stop b" "\<not> by_reversed b" using less.prems by (simp_all add: read_forward_def bytes_forward_def)
    have "\<exists>b'. bytes_read n b = Some ([], b')"
    proof (cases "k < length (tree_items t) \<and> chunk_pos t k < by_stop b")
      case True
      have "min (chunk_pos t (Suc k)) (by_stop b) \<le> max (by_start b) (chunk_pos t k)" using False by simp
      then have "bytes_peek b = Some (Some [])" using forward_bytes_peek [OF f(1)] True by simp
      then show ?thesis using forward_bytes_step [OF f(1)] True f(3) by (auto simp: bytes_read_def Let_def)
    next
      case out: False
      then have "bytes_peek b = Some None" using forward_bytes_peek [OF f(1)] by auto
      then show ?thesis by (simp add: bytes_read_def)
    qed
    then show ?thesis using False by (subst read_to_end.simps) auto
  qed
qed

section \<open>Reversed\<close>

text \<open>The iterator has \<open>n\<close> chunks before it.\<close>

definition bytes_backward :: "rope \<Rightarrow> rope_bytes \<Rightarrow> nat \<Rightarrow> bool" where
  "bytes_backward t b n \<longleftrightarrow> rope_ok t \<and> height t < STACK_CAPACITY \<and> by_reversed b \<and> by_start b \<le> by_stop b \<and> by_stop b \<le> length (rope_text t) \<and>
     (if n = 0 then cursor_item (by_chunks b) = Some None
      else n \<le> length (tree_items t) \<and> on_chunk t (by_chunks b) (chunk_pos t (n - 1)) (n - 1) \<and> (by_start b < by_stop b \<longrightarrow> chunk_pos t (n - 1) < by_stop b))"

lemma backward_bytes_peek:
  assumes b: "bytes_backward t b n"
  shows "bytes_peek b = Some (if n = 0 \<or> chunk_pos t n \<le> by_start b \<or> by_start b = by_stop b \<and> by_stop b \<le> chunk_pos t (n - 1) then None
    else Some (between (rope_text t) (max (by_start b) (chunk_pos t (n - 1))) (min (chunk_pos t n) (by_stop b))))"
proof (cases "n = 0")
  case True
  then show ?thesis using b by (simp add: bytes_backward_def bytes_peek_def)
next
  case False
  let ?k = "n - 1"
  have r: "rope_ok t" "by_reversed b" "by_start b \<le> by_stop b" "on_chunk t (by_chunks b) (chunk_pos t ?k) ?k" "?k < length (tree_items t)" "Suc ?k = n"
    "by_start b < by_stop b \<longrightarrow> chunk_pos t ?k < by_stop b" using b False by (auto simp: bytes_backward_def)
  note item = on_chunk_item [OF r(1,4)] and sl = slice_of_chunk [OF r(5), unfolded r(6)]
  consider "chunk_pos t n \<le> by_start b" | "by_start b < chunk_pos t n" "by_start b = by_stop b" "by_stop b \<le> chunk_pos t ?k" | "by_start b < chunk_pos t n" "chunk_pos t ?k < by_stop b"
    using r(3,7) by linarith
  then show ?thesis
  proof cases
    case 1
    then show ?thesis using item r(2,5,6) by (simp add: bytes_peek_def index_opt_def)
  next
    case 2
    then show ?thesis using item r(2,5,6) by (simp add: bytes_peek_def index_opt_def)
  next
    case 3
    have "by_start b - chunk_pos t ?k \<le> length (ch_text (tree_items t ! ?k))" using 3(1) chunk_split(2) [OF r(5), unfolded r(6)] by linarith
    then have "by_start b - chunk_pos t ?k \<le> min (length (ch_text (tree_items t ! ?k))) (by_stop b - chunk_pos t ?k)"
      using diff_le_mono [OF r(3), of "chunk_pos t ?k"] by simp
    then show ?thesis using 3 item r(2,5,6) sl False by (simp add: bytes_peek_def index_opt_def Let_def)
  qed
qed

lemma backward_bytes_step:
  assumes b: "bytes_backward t b n" "n \<noteq> 0"
  shows "\<exists>d. bytes_step b = Some (b\<lparr>by_chunks := d\<rparr>) \<and> bytes_backward t (b\<lparr>by_chunks := d\<rparr>) (n - 1) \<and>
    (n - 1 \<noteq> 0 \<longrightarrow> on_chunk t d (chunk_pos t (n - 1 - 1)) (n - 1 - 1)) \<and> (n - 1 = 0 \<longrightarrow> cursor_item d = Some None) \<and>
    cursor_prev len_dim (by_chunks b) = Some d"
proof -
  let ?k = "n - 1"
  have r: "rope_ok t" "height t < STACK_CAPACITY" "by_reversed b" "on_chunk t (by_chunks b) (chunk_pos t ?k) ?k" "?k < length (tree_items t)"
    "by_start b < by_stop b \<longrightarrow> chunk_pos t ?k < by_stop b" using b by (auto simp: bytes_backward_def)
  obtain d where d: "cursor_prev len_dim (by_chunks b) = Some d" "if ?k = 0 then cursor_before len_dim d else on_chunk t d (chunk_pos t ?k) (?k - 1)"
    using prev_on_chunk [OF r(1,2,4)] r(5) by fastforce
  have mono: "chunk_pos t (?k - 1) \<le> chunk_pos t ?k" "chunk_pos t (?k - 1) \<le> chunk_pos t (Suc (?k - 1))" by (rule chunk_pos_mono, simp)+
  have on: "on_chunk t d (chunk_pos t (?k - 1)) (?k - 1)" if "?k \<noteq> 0" using d(2) that mono(2) by (simp add: on_chunk_def)
  have none: "cursor_item d = Some None" if "?k = 0" using d(2) that by (simp add: cursor_before_def cursor_item_def)
  have "bytes_backward t (b\<lparr>by_chunks := d\<rparr>) ?k"
    using b(1) on none mono(1) r(5,6) by (cases "?k = 0") (auto simp: bytes_backward_def)
  then show ?thesis using d(1) r(3) on none by (intro exI [of _ d]) (simp add: bytes_step_def)
qed

lemma backward_bytes_collect:
  assumes "bytes_backward t b n"
  shows "\<exists>ps. collect_bytes b acc = Some (acc @ ps) \<and> concat (rev ps) = between (rope_text t) (by_start b) (min (by_stop b) (chunk_pos t n))"
  using assms
proof (induction n arbitrary: b acc)
  case 0
  then show ?case using backward_bytes_peek [OF 0] by (subst collect_bytes.simps) (simp add: bytes_next_def chunk_pos_eq)
next
  case (Suc k)
  note peek = backward_bytes_peek [OF Suc.prems, simplified]
  show ?case
  proof (cases "chunk_pos t (Suc k) \<le> by_start b \<or> by_start b = by_stop b \<and> by_stop b \<le> chunk_pos t k")
    case True
    then have "bytes_peek b = Some None" using peek by auto
    then have "bytes_next b = Some (None, b)" by (simp add: bytes_next_def)
    moreover have "between (rope_text t) (by_start b) (min (by_stop b) (chunk_pos t (Suc k))) = []" using True by auto
    ultimately show ?thesis by (subst collect_bytes.simps) simp
  next
    case False
    let ?p = "between (rope_text t) (max (by_start b) (chunk_pos t k)) (min (chunk_pos t (Suc k)) (by_stop b))"
    have pk: "bytes_peek b = Some (Some ?p)" using peek False by auto
    obtain d where d: "bytes_step b = Some (b\<lparr>by_chunks := d\<rparr>)" "bytes_backward t (b\<lparr>by_chunks := d\<rparr>) k" using backward_bytes_step [OF Suc.prems] by auto
    from Suc.IH [OF d(2), of "acc @ [?p]"] obtain ps where ps: "collect_bytes (b\<lparr>by_chunks := d\<rparr>) (acc @ [?p]) = Some ((acc @ [?p]) @ ps)"
      "concat (rev ps) = between (rope_text t) (by_start b) (min (by_stop b) (chunk_pos t k))" by auto
    have "by_start b \<le> by_stop b" "chunk_pos t k \<le> chunk_pos t (Suc k)" "by_start b < by_stop b \<longrightarrow> chunk_pos t k < by_stop b"
      using Suc.prems chunk_pos_mono [of k "Suc k" t] by (simp_all add: bytes_backward_def)
    then have "concat (rev ps) @ ?p = between (rope_text t) (by_start b) (min (by_stop b) (chunk_pos t (Suc k)))"
      using ps(2) False between_append [of "by_start b" "chunk_pos t k" "min (by_stop b) (chunk_pos t (Suc k))" "rope_text t"]
      by (cases "by_start b \<le> chunk_pos t k") (auto simp: max_def min.commute)
    moreover have "collect_bytes b acc = Some (acc @ ?p # ps)" using pk d(1) ps(1) by (subst collect_bytes.simps) (simp add: bytes_next_def)
    ultimately show ?thesis by (intro exI [of _ "?p # ps"]) simp
  qed
qed

definition read_backward :: "rope \<Rightarrow> rope_bytes \<Rightarrow> nat \<Rightarrow> bool" where
  "read_backward t b n \<longleftrightarrow> bytes_backward t b n \<and> filled (tree_items t) \<and> (by_start b < by_stop b \<longrightarrow> by_stop b \<le> chunk_pos t n)"

lemma bytes_read_reversed:
  assumes "bytes_peek b = Some (Some p)" "by_reversed b" "min n (length p) = l" "l \<le> by_stop b" "drop (length p - l) p = w"
  shows "bytes_read n b = do { b' \<leftarrow> (if l = length p then bytes_step (b\<lparr>by_stop := by_stop b - l\<rparr>) else Some (b\<lparr>by_stop := by_stop b - l\<rparr>)); Some (rev w, b') }"
  unfolding bytes_read_def Let_def assms(1) using assms(2-5) by simp

lemma read_backward_step:
  assumes b: "read_backward t b j" "0 < n" "by_start b < by_stop b"
  shows "\<exists>b' j' m. bytes_read n b = Some (rev (between (rope_text t) m (by_stop b)), b') \<and> by_start b \<le> m \<and> m < by_stop b \<and>
    by_start b' = by_start b \<and> by_stop b' = m \<and> read_backward t b' j'"
proof -
  let ?k = "j - 1" and ?e = "by_stop b"
  let ?s = "max (by_start b) (chunk_pos t ?k)"
  define p where "p = between (rope_text t) ?s ?e"
  define m where "m = ?e - min n (length p)"
  have f: "bytes_backward t b j" "filled (tree_items t)" "?e \<le> chunk_pos t j" "?e \<le> length (rope_text t)" "by_reversed b"
    using b by (auto simp: read_backward_def bytes_backward_def)
  have j: "j \<noteq> 0" using f(3) b(3) by (intro notI) (simp add: chunk_pos_eq)
  then have pos: "chunk_pos t ?k < ?e" using f(1) b(3) by (simp add: bytes_backward_def)
  have len: "length p = ?e - ?s" using f(4) by (simp add: p_def)
  have peek: "bytes_peek b = Some (Some p)" using backward_bytes_peek [OF f(1)] j f(3) b(3) by (simp add: p_def min_absorb2)
  have e1: "?s < ?e" using b(3) pos by simp
  then have mn: "min n (length p) \<le> ?e - ?s" "0 < min n (length p)" using len b(2) by simp_all
  then have e: "?s < ?e" "m < ?e" "?s \<le> m" using e1 unfolding m_def by linarith+
  have m: "length p - min n (length p) = m - ?s" "min n (length p) \<le> ?e" using len mn(1) by (simp_all only: m_def diff_commute) simp
  have dr: "drop (length p - min n (length p)) p = between (rope_text t) m ?e" unfolding m(1) using e by (simp add: p_def drop_take)
  have rd: "bytes_read n b = do { b' \<leftarrow> (if min n (length p) = length p then bytes_step (b\<lparr>by_stop := m\<rparr>) else Some (b\<lparr>by_stop := m\<rparr>)); Some (rev (between (rope_text t) m ?e), b') }"
    unfolding m_def by (rule bytes_read_reversed [OF peek f(5) refl m(2) dr [unfolded m_def]])
  have "\<exists>b' j'. bytes_read n b = Some (rev (between (rope_text t) m ?e), b') \<and> by_start b' = by_start b \<and> by_stop b' = m \<and> read_backward t b' j'"
  proof (cases "min n (length p) = length p")
    case True
    then have ms: "m = ?s" using len e(1) by (simp add: m_def)
    obtain d where d: "cursor_prev len_dim (by_chunks b) = Some d" "?k \<noteq> 0 \<longrightarrow> on_chunk t d (chunk_pos t (?k - 1)) (?k - 1)" "?k = 0 \<longrightarrow> cursor_item d = Some None"
      using backward_bytes_step [OF f(1) j] by iprover
    have st: "bytes_step (b\<lparr>by_stop := m\<rparr>) = Some (b\<lparr>by_stop := m, by_chunks := d\<rparr>)" using d(1) f(5) by (simp add: bytes_step_def)
    have "chunk_pos t (?k - 1) < m" if "by_start b < m" "?k \<noteq> 0"
    proof -
      have mk: "m = chunk_pos t ?k" using that(1) ms by simp
      have "chunk_pos t (?k - 1) \<le> chunk_pos t ?k" by (rule chunk_pos_mono) simp
      then have lt: "chunk_pos t (?k - 1) < length (rope_text t)" using pos f(4) by linarith
      have "Suc (?k - 1) = ?k" using that(2) by simp
      with filled_pos [OF f(2) lt] mk show ?thesis by metis
    qed
    moreover have "m \<le> chunk_pos t ?k" if "by_start b < m" using that ms by simp
    ultimately have "read_backward t (b\<lparr>by_stop := m, by_chunks := d\<rparr>) ?k"
      using f(1,2,4) d(2,3) e ms by (auto simp: read_backward_def bytes_backward_def)
    then show ?thesis unfolding rd if_P [OF True] using st by (intro exI [of _ "b\<lparr>by_stop := m, by_chunks := d\<rparr>"] exI [of _ ?k]) simp
  next
    case False
    then have "min n (length p) < length p" by simp
    then have "?s < m" using len e1 unfolding m_def by linarith
    then have "read_backward t (b\<lparr>by_stop := m\<rparr>) j" using f e j by (simp add: read_backward_def bytes_backward_def)
    then show ?thesis unfolding rd if_not_P [OF False] by (intro exI [of _ "b\<lparr>by_stop := m\<rparr>"] exI [of _ j]) simp
  qed
  then show ?thesis using e by auto
qed

lemma read_backward_all:
  assumes "read_backward t b j" "0 < n"
  shows "read_to_end n b acc = Some (acc @ rev (between (rope_text t) (by_start b) (by_stop b)))"
  using assms(1)
proof (induction "by_stop b - by_start b" arbitrary: b j acc rule: less_induct)
  case less
  show ?case
  proof (cases "by_start b < by_stop b")
    case True
    obtain b' j' m where r: "bytes_read n b = Some (rev (between (rope_text t) m (by_stop b)), b')" "by_start b \<le> m" "m < by_stop b"
      "by_start b' = by_start b" "by_stop b' = m" "read_backward t b' j'" using read_backward_step [OF less.prems assms(2) True] by blast
    let ?w = "rev (between (rope_text t) m (by_stop b))"
    have ne: "?w \<noteq> []" using r(3) less.prems by (auto simp: read_backward_def bytes_backward_def)
    have "by_stop b' - by_start b' < by_stop b - by_start b" using r(2-5) by simp
    from less.hyps [OF this r(6)] have IH: "read_to_end n b' (acc @ ?w) = Some ((acc @ ?w) @ rev (between (rope_text t) (by_start b) m))" using r(4,5) by simp
    have "read_to_end n b acc = read_to_end n b' (acc @ ?w)" using r(1) ne by (subst read_to_end.simps) simp
    with IH between_append [of "by_start b" m "by_stop b" "rope_text t"] r(2,3) show ?thesis by (simp flip: rev_append)
  next
    case False
    have f: "bytes_backward t b j" "by_start b \<le> by_stop b" "by_reversed b" using less.prems by (auto simp: read_backward_def bytes_backward_def)
    have "\<exists>b'. bytes_read n b = Some ([], b')"
    proof (cases "bytes_peek b")
      case None
      then show ?thesis using backward_bytes_peek [OF f(1)] by simp
    next
      case (Some part)
      then have "part = None \<or> part = Some [] \<and> j \<noteq> 0" using backward_bytes_peek [OF f(1)] False by (auto split: if_splits)
      then show ?thesis using Some f backward_bytes_step [OF f(1)] by (auto simp: bytes_read_def Let_def)
    qed
    then show ?thesis using False by (subst read_to_end.simps) auto
  qed
qed

lemma bytes_new_at:
  assumes t: "rope_ok t" "height t < STACK_CAPACITY" and r: "i \<le> j" "j \<le> length (rope_text t)"
  shows "\<exists>b k. bytes_new t i j False = Some b \<and> bytes_forward t b k \<and> by_start b = i \<and> by_stop b = j \<and> chunk_pos t k \<le> i \<and> (i < j \<longrightarrow> i < chunk_pos t (Suc k))"
    "\<exists>b n. bytes_new t i j True = Some b \<and> bytes_backward t b n \<and> by_start b = i \<and> by_stop b = j \<and> (i < j \<longrightarrow> j \<le> chunk_pos t n)"
proof -
  let ?d = "cursor_new len_dim t :: (chunk, chunk_summary, nat) cursor"
  have w: "wf_cursor chunk_ops ?d" "c_tree ?d = t" using t by (simp_all add: wf_cursor_def cursor_new_def rope_ok_def)
  have "i \<le> length (rope_text t)" using r by simp
  from seek_on_chunk [OF w this, of Right] obtain f d k where d: "cursor_seek len_dim (ord_cmp i) Right ?d = Some (f, d)" "on_chunk t d i k"
    "k < length (tree_items t) \<longrightarrow> i < chunk_pos t (Suc k)" by blast
  have "i < j \<longrightarrow> k < length (tree_items t)" using on_chunk_less [OF d(2) _ r(2)] by simp
  then show "\<exists>b k. bytes_new t i j False = Some b \<and> bytes_forward t b k \<and> by_start b = i \<and> by_stop b = j \<and> chunk_pos t k \<le> i \<and> (i < j \<longrightarrow> i < chunk_pos t (Suc k))"
    using d t r by (intro exI [of _ "\<lparr>by_chunks = d, by_start = i, by_stop = j, by_reversed = False\<rparr>"] exI [of _ k]) (auto simp: bytes_new_def bytes_forward_def on_chunk_def)
  from seek_on_chunk [OF w r(2), of Left] obtain f d k where d: "cursor_seek len_dim (ord_cmp j) Left ?d = Some (f, d)" "on_chunk t d j k"
    "0 < j \<longrightarrow> k < length (tree_items t)" "0 < j \<longrightarrow> chunk_pos t k < j" by blast
  let ?b = "\<lparr>by_chunks = d, by_start = i, by_stop = j, by_reversed = True\<rparr>" and ?n = "if k < length (tree_items t) then Suc k else 0"
  have "on_chunk t d (chunk_pos t k) k" using d(2) chunk_pos_mono [of k "Suc k" t] by (simp add: on_chunk_def)
  moreover have "\<not> k < length (tree_items t) \<Longrightarrow> cursor_item d = Some None" using on_chunk_item(1) [OF t(1) d(2)] by (simp add: index_opt_def)
  ultimately have "bytes_backward t ?b ?n" using t r d(4) by (auto simp: bytes_backward_def)
  moreover have "i < j \<longrightarrow> j \<le> chunk_pos t ?n" using d(2,3) by (auto simp: on_chunk_def)
  moreover have "bytes_new t i j True = Some ?b" using d(1) by (simp add: bytes_new_def)
  ultimately show "\<exists>b n. bytes_new t i j True = Some b \<and> bytes_backward t b n \<and> by_start b = i \<and> by_stop b = j \<and> (i < j \<longrightarrow> j \<le> chunk_pos t n)"
    by (intro exI [of _ ?b] exI [of _ ?n]) simp
qed

section \<open>Properties\<close>

text \<open>
  Reading the bytes of any range of a rope, whose ends may be within a character, never panics and ends: the slices that the iterator returns join to the
  bytes of the range, reversed from the last to the first, and reading into a buffer of any positive size until a
  read returns nothing gives exactly these bytes, or, reversed, these bytes from the last to the first: no read returns nothing too early.
\<close>

theorem rope_reads_bytes:
  assumes "rope_ok t" "height t < STACK_CAPACITY" "filled (tree_items t)" "i \<le> j" "j \<le> length (rope_text t)" "0 < n"
  shows "(\<exists>b ps. bytes_new t i j False = Some b \<and> collect_bytes b [] = Some ps \<and> concat ps = take (j - i) (drop i (rope_text t)) \<and>
      read_to_end n b [] = Some (take (j - i) (drop i (rope_text t))))
    \<and> (\<exists>b ps. bytes_new t i j True = Some b \<and> collect_bytes b [] = Some ps \<and> concat (rev ps) = take (j - i) (drop i (rope_text t)) \<and>
      read_to_end n b [] = Some (rev (take (j - i) (drop i (rope_text t)))))"
proof
  obtain b k where b: "bytes_new t i j False = Some b" "bytes_forward t b k" "by_start b = i" "by_stop b = j" "chunk_pos t k \<le> i" "i < j \<longrightarrow> i < chunk_pos t (Suc k)"
    using bytes_new_at(1) [OF assms(1,2,4,5)] by blast
  obtain ps where ps: "collect_bytes b [] = Some ps" "concat ps = between (rope_text t) i j" using forward_bytes_collect [OF b(2), of "[]"] b(3-5) by (auto simp: max_absorb1)
  have "read_forward t b k" using b(2-6) assms(3) by (simp add: read_forward_def)
  from read_forward_all [OF this assms(6), of "[]"] b(1,3,4) ps
  show "\<exists>b ps. bytes_new t i j False = Some b \<and> collect_bytes b [] = Some ps \<and> concat ps = take (j - i) (drop i (rope_text t)) \<and>
      read_to_end n b [] = Some (take (j - i) (drop i (rope_text t)))" by simp
  obtain d l where d: "bytes_new t i j True = Some d" "bytes_backward t d l" "by_start d = i" "by_stop d = j" "i < j \<longrightarrow> j \<le> chunk_pos t l"
    using bytes_new_at(2) [OF assms(1,2,4,5)] by blast
  have "between (rope_text t) i (min j (chunk_pos t l)) = between (rope_text t) i j" using d(5) assms(4) by (cases "i < j") (auto simp: min_absorb1)
  then obtain qs where qs: "collect_bytes d [] = Some qs" "concat (rev qs) = between (rope_text t) i j" using backward_bytes_collect [OF d(2), of "[]"] d(3,4) by auto
  have "read_backward t d l" using d(2-5) assms(3) by (simp add: read_backward_def)
  from read_backward_all [OF this assms(6), of "[]"] d(1,3,4) qs
  show "\<exists>b ps. bytes_new t i j True = Some b \<and> collect_bytes b [] = Some ps \<and> concat (rev ps) = take (j - i) (drop i (rope_text t)) \<and>
      read_to_end n b [] = Some (rev (take (j - i) (drop i (rope_text t))))" by simp
qed

theorem rope_reads_bytes_witness:
  "\<exists>t b. rope_from [97, 0xC3, 0xA9] = Some t \<and> bytes_new t 0 2 True = Some b \<and> read_to_end 1 b [] = Some [0xC3, 97]"
proof -
  have v: "valid_utf8 [97, 0xC3, 0xA9]" by code_simp
  obtain t where t: "rope_from [97, 0xC3, 0xA9] = Some t" "rope_with t [97, 0xC3, 0xA9] 1 True" using rope_from_correct [OF v, of 0] by (auto simp: TREE_BASE_def)
  then have ok: "rope_text t = [97, 0xC3, 0xA9]" "rope_ok t" "height t < STACK_CAPACITY" "filled (tree_items t)" by (auto simp: rope_with_def STACK_CAPACITY_def)
  then show ?thesis using t(1) rope_reads_bytes [OF ok(2-4), of 0 2 1] by auto
qed

end
