(* ===== verification/Spec2Isabelle.thy ===== *)
theory Spec2Isabelle
  imports Clock Cursor_Properties Tree_Iter Tree_Push Tree_Map_Props Undo_Map Locator History_Props
    Patch_Props Selection Rope_Motion Rope_Bytes
begin

text \<open>
  A verification of the text engine of the Sawe editor (a fork of Zed): the crates \<open>clock\<close>, \<open>sum_tree\<close>,
  \<open>text\<close> and \<open>rope\<close> under \<open>crates/\<close>.

  \<^bold>\<open>The program.\<close> A buffer is a replicated text. Its replicas stamp operations with Lamport timestamps and
  summarise what they have seen as version vectors (\<open>clock\<close>). Sequences of any kind (text chunks,
  fragments, map entries) live in B+ trees whose nodes cache a summary of their items (\<open>sum_tree\<close>); a
  cursor walks and seeks in such a tree by a dimension of the summary. Ordered maps are such trees
  too. Undo is by counting: an undo map records how often each edit was undone, a history keeps the
  stacks of transactions. Fragments are ordered by locators, between any two of which there is
  another one. Changes are published to observers as patches, which compose. The visible text is a
  rope, a tree of chunks of UTF-8 text that cache bitmaps of their characters, newlines and tabs (\<open>rope\<close>).

  \<^bold>\<open>The theories.\<close>
  \<^item> \<open>Prelude\<close>: \<open>Ordering\<close>, assertions, indexing, \<open>Vec::resize\<close>, \<open>rposition\<close>, chunking, word lemmas.
  \<^item> \<open>Clock\<close> (\<open>clock.rs\<close>): replica ids, timestamps, version vectors. A version vector is a list of 32-bit
    sequence numbers without trailing zeros. The locale \<open>version_vector\<close> states what the rest of the
    program relies on and is interpreted on the vectors.
  \<^item> \<open>Sum_Tree\<close> (\<open>sum_tree.rs\<close>): nodes as a datatype with the constructors of \<open>Node\<close>, the fixed capacity of
    \<open>ArrayVec\<close> as a check that fails, heights as 8-bit words; construction, append with all branches of
    the rebalancing, update of the ends, search. \<open>Sum_Tree_Props\<close>: well-formed trees (balanced, no node
    over-full or empty below the root, cached summaries right; a minimum fill is not part of it, since slices do not keep one) and what every operation does to the item sequence, in the locale
    \<open>summary_laws\<close>. \<open>Tree_Search\<close>: search against a linear scan, in the locale \<open>search_laws\<close>.
    \<open>Tree_Push\<close>: trees grown by pushing are dense and their height is logarithmic.
  \<^item> \<open>Tree_Cursor\<close> (\<open>cursor.rs\<close>): cursors with their stack of at most 16 entries, iterators, seek aggregates.
    \<open>Tree_Cursor_Props\<close>, \<open>Cursor_Seek\<close>, \<open>Cursor_Step\<close>, \<open>Tree_Iter\<close>, \<open>Cursor_Properties\<close>: a cursor stands at an
    index of the item sequence; seeks, steps, slices and iterators are described by that index. The
    locale \<open>seek_aggregate_laws\<close> is the contract of the three aggregates, \<open>summary_out_laws\<close> the one of
    \<open>Cursor::summary\<close>.
  \<^item> \<open>Keyed_Tree\<close> (\<open>sum_tree.rs\<close>, \<open>KeyedItem\<close>): insertion, removal and batch edits by key, in the locale
    \<open>keyed_laws\<close>. \<open>Tree_Map\<close> and \<open>Tree_Map_Props\<close> (\<open>tree_map.rs\<close>): maps and sets refine finite maps and sets.
  \<^item> \<open>Undo_Map\<close> (\<open>undo_map.rs\<close>), \<open>Locator\<close> (\<open>locator.rs\<close>), \<open>History\<close> and \<open>History_Props\<close> (\<open>History\<close> of \<open>text.rs\<close>),
    \<open>Patch\<close> and \<open>Patch_Props\<close> (\<open>patch.rs\<close>, \<open>subscription.rs\<close>), \<open>Selection\<close> (\<open>selection.rs\<close>), \<open>Text_Point\<close>
    (\<open>point.rs\<close>).
  \<^item> \<open>Utf8\<close>: texts as lists of bytes and the operations of \<open>str\<close>. \<open>Bit_Select\<close>: \<open>nth_set_bit\<close> of \<open>chunk.rs\<close>, a
    branch-free selection of a set bit. \<open>Chunk\<close>, \<open>Chunk_Text\<close>, \<open>Chunk_Clip\<close> (\<open>chunk.rs\<close>): the leaves of a rope, texts
    of at most 128 bytes with four bitmaps; every operation keeps the bitmaps in agreement with the
    text, and the measures, position conversions and clippings computed from the bitmaps are the
    ones of the text. \<open>Text_Summary\<close>, \<open>Chunk_Summary\<close> (\<open>rope.rs\<close>): the summaries a rope caches; they form a
    monoid, so the locales \<open>summary_laws\<close> and \<open>search_laws\<close> of the tree hold for trees of chunks.
  \<^item> \<open>Rope\<close> (\<open>rope.rs\<close>): a rope is its tree of chunks; pushing, appending, slicing, replacing and the rope cursor.
    \<open>Rope_Props\<close>, \<open>Rope_Edit\<close>: every operation is the list operation on the text, never panics, and leaves all chunks
    but the last one at least \<open>MIN_BASE - 3\<close> bytes long. \<open>Rope_Measure\<close>: the summary of a range in any text
    dimension; the locale \<open>text_measure\<close> is the contract of \<open>TextDimension\<close> and is interpreted for its five
    implementations. \<open>Rope_Position\<close>: the conversions between byte offsets, UTF-16 offsets, points and UTF-16
    points, once for all types of positions in the locale \<open>text_position\<close>. \<open>Rope_Clip\<close>: character boundaries,
    clipping of offsets and points, lengths of lines. \<open>Summary_Width\<close>: the 32-bit counters with their wrap-around.
    \<open>Rope_Chunks\<close>, \<open>Rope_Lines\<close>, \<open>Rope_Motion\<close>, \<open>Rope_Bytes\<close>: the iterators over the parts, lines and bytes of a rope in both
    directions, their seeks and line motions, and comparisons with strings; what they deliver is the text.

  \<^bold>\<open>Conventions.\<close> A function that may panic returns an option, \<open>None\<close> being the panic; a debug assertion is
  left out, and so is \<open>debug_panic!\<close>: conversions given a point beyond its row have their release behaviour. \<open>usize\<close> is a
  natural number, with underflow as \<open>None\<close>. Sequence numbers, replica ids, undo counts, locator digits, bitmaps and heights are
  words of their width. The 32-bit counters of \<open>TextSummary\<close> and the rows and columns of a rope are natural numbers: the
  operations on points are polymorphic and are used at words in \<open>Text_Point\<close> and at natural numbers in the rope, with the field-wise
  comparison in place of the packed one. \<open>Summary_Width\<close> writes out the wrapping scan and additions and shows that they agree
  with the natural numbers on texts of fewer than \<open>2 ^ 32\<close> bytes; the properties of rows and columns assume that length, which an
  editor that opens larger files can exceed. Traits
  are records of operations that a function takes as arguments (\<open>item_ops\<close> for \<open>Item\<close> and \<open>Summary\<close>,
  \<open>dim_ops\<close> for \<open>Dimension\<close>, a function for \<open>SeekTarget\<close>). The unstable sort of \<open>SumTree::edit\<close> and the clock
  \<open>Instant::now\<close> are arguments. The predicate of \<open>retain\<close>, an \<open>FnMut\<close>, is a pure function; patches are those over \<open>usize\<close>; a
  binary search on sorted edits is its result; \<open>NUM_CHUNKS\<close> has its value of non-test builds.

  \<^bold>\<open>Bounds.\<close> A cursor's stack has 16 places, so the cursor lemmas ask for a height below 16, which any tree of
  fewer than \<open>12 ^ 16\<close> built entries has; the height itself is an 8-bit word, which limits pushes to
  \<open>TREE_BASE ^ 254\<close> items. A batch of edits has fewer than \<open>2 ^ 64\<close>, as any vector; the tree it builds is put together of pieces and
  grows with the logarithm of their number. A slice is at most two levels higher than the tree it is taken from. Pushing to, appending to and slicing a rope add a
  few levels each in the stated bounds, which start from heights of at most 15, 13 or 9; a rope
  built from a text of at most \<open>12 ^ (n + 1)\<close> bytes has a height of at most \<open>n + 1\<close>. Loops are total functions with
  a measure; those that could run past the end of a text (\<open>forward_to_boundary\<close>, \<open>forward_in_chunk\<close>, \<open>clip_column\<close>,
  \<open>cut_pieces\<close>) are partial functions, and that they return is part of the lemmas. No lemma depends on fuel.

  \<^bold>\<open>Not modelled.\<close> Buffers, fragments, anchors and the operation queue of \<open>text\<close>, which
  combine these components. Everything above the text engine (editor, language support,
  project, user interface, agents, collaboration) is glue between frameworks, processes and services.
\<close>

end
